(* ===== verification/Prelude.thy ===== *)
theory Prelude
  imports Main "HOL-Library.Word"
begin

text \<open>
  Shared vocabulary of the development: the machine types of \<^verbatim>\<open>types.h\<close>, the
  constants of \<^verbatim>\<open>param.h\<close> and \<^verbatim>\<open>fs.h\<close>, the result type of kernel
  routines with its sequencing operator, a small total-correctness calculus over that
  type, and the generic lemmas on lists and flag words used by the components.
\<close>

unbundle bit_operations_syntax

declare One_nat_def [simp del]

section \<open>Machine types and results\<close>

type_synonym byte = "8 word"

text \<open>The bytes of a string literal, without its NUL.\<close>

definition ascii :: "string \<Rightarrow> byte list" where
  "ascii cs = map of_char cs"

type_synonym uint32 = "32 word"

text \<open>
  A kernel routine returns (\<open>Ok\<close>), calls \<^verbatim>\<open>panic\<close> with a message (\<open>Panic\<close>),
  goes to sleep waiting for another process (\<open>Blocks\<close>), or does something C leaves
  undefined, such as an access outside an array or through a null pointer (\<open>Undef\<close>). State
  is passed explicitly, so a routine that changes the state and returns a value returns a pair.
\<close>

datatype 'a res = Ok 'a | Panic string | Blocks | Undef

primrec bnd :: "'a res \<Rightarrow> ('a \<Rightarrow> 'b res) \<Rightarrow> 'b res" where
  "bnd (Ok x) f = f x"
| "bnd (Panic m) f = Panic m"
| "bnd Blocks f = Blocks"
| "bnd Undef f = Undef"

lemma bnd_cong [fundef_cong]:
  "r = r' \<Longrightarrow> (\<And>x. r' = Ok x \<Longrightarrow> f x = f' x) \<Longrightarrow> bnd r f = bnd r' f'"
  by (cases r') auto

lemma bnd_eq_Ok: "bnd r f = Ok y \<longleftrightarrow> (\<exists>x. r = Ok x \<and> f x = Ok y)"
  by (cases r) auto

lemma bnd_Ok [simp]: "bnd r Ok = r"
  by (cases r) auto

lemma bnd_assoc: "bnd (bnd r f) g = bnd r (\<lambda>x. bnd (f x) g)"
  by (cases r) auto

text \<open>
  \<open>okP r Q\<close>: the routine returns, and what it returns satisfies \<open>Q\<close>. It is a
  total-correctness assertion: a panic, a sleep or undefined behaviour falsifies it.
\<close>

primrec okP :: "'a res \<Rightarrow> ('a \<Rightarrow> bool) \<Rightarrow> bool" where
  "okP (Ok x) Q = Q x"
| "okP (Panic m) Q = False"
| "okP Blocks Q = False"
| "okP Undef Q = False"

lemma okP_iff: "okP r Q \<longleftrightarrow> (\<exists>x. r = Ok x \<and> Q x)"
  by (cases r) auto

lemma okP_bnd: "okP r P \<Longrightarrow> (\<And>x. P x \<Longrightarrow> okP (f x) Q) \<Longrightarrow> okP (bnd r f) Q"
  by (cases r) auto

lemma okP_weaken: "okP r P \<Longrightarrow> (\<And>x. P x \<Longrightarrow> Q x) \<Longrightarrow> okP r Q"
  by (cases r) auto

lemma okP_conj: "okP r P \<Longrightarrow> okP r Q \<Longrightarrow> okP r (\<lambda>x. P x \<and> Q x)"
  by (cases r) auto

section \<open>Constants of param.h and fs.h\<close>

definition MAXOPBLOCKS :: nat where "MAXOPBLOCKS = 10"
definition LOGSIZE :: nat where "LOGSIZE = MAXOPBLOCKS * 3"
definition NBUF :: nat where "NBUF = MAXOPBLOCKS * 3"
definition FSSIZE :: nat where "FSSIZE = 1000"
definition BSIZE :: nat where "BSIZE = 512"
definition ROOTDEV :: nat where "ROOTDEV = 1"

named_theorems param_defs

declare MAXOPBLOCKS_def [param_defs] LOGSIZE_def [param_defs] NBUF_def [param_defs]
  FSSIZE_def [param_defs] BSIZE_def [param_defs] ROOTDEV_def [param_defs]

section \<open>Lists\<close>

lemma find_None_set: "find P xs = None \<longleftrightarrow> (\<forall>x \<in> set xs. \<not> P x)"
  by (auto simp: find_None_iff)

lemma find_Some_mem: "find P xs = Some x \<Longrightarrow> P x \<and> x \<in> set xs"
  by (auto simp: find_Some_iff)

lemma find_exists: "x \<in> set xs \<Longrightarrow> P x \<Longrightarrow> \<exists>y. find P xs = Some y"
  by (cases "find P xs") (auto simp: find_None_set)

lemma find_upt_Some: "find P [a..<b] = Some i \<longleftrightarrow> a \<le> i \<and> i < b \<and> P i \<and> (\<forall>j. a \<le> j \<and> j < i \<longrightarrow> \<not> P j)"
  (is "?l \<longleftrightarrow> ?r")
proof
  assume ?l
  then obtain k where k: "k < b - a" "P (a + k)" "i = a + k" "\<forall>j < k. \<not> P (a + j)"
    by (auto simp: find_Some_iff)
  then have "\<not> P j" if "a \<le> j" "j < i" for j
    using that k(4) [rule_format, of "j - a"] by auto
  with k show ?r by auto
next
  assume ?r
  then show ?l by (auto simp: find_Some_iff intro!: exI [of _ "i - a"])
qed

lemma find_upt_None: "find P [a..<b] = None \<longleftrightarrow> (\<forall>j. a \<le> j \<and> j < b \<longrightarrow> \<not> P j)"
  by (auto simp: find_None_iff)

lemma find_unique:
  "x \<in> set xs \<Longrightarrow> P x \<Longrightarrow> (\<And>y. y \<in> set xs \<Longrightarrow> P y \<Longrightarrow> y = x) \<Longrightarrow> find P xs = Some x"
  by (metis find_exists find_Some_mem)

section \<open>Flag words\<close>

definition B_VALID :: uint32 where "B_VALID = 2"
definition B_DIRTY :: uint32 where "B_DIRTY = 4"

lemma flags_nonzero [simp]: "B_VALID \<noteq> 0" "B_DIRTY \<noteq> 0" "0 \<noteq> B_VALID" "0 \<noteq> B_DIRTY"
  by (simp_all add: B_VALID_def B_DIRTY_def)

abbreviation has_flag :: "uint32 \<Rightarrow> uint32 \<Rightarrow> bool" where
  "has_flag w f \<equiv> w AND f \<noteq> 0"

lemma bit_B_VALID [simp]: "bit B_VALID n \<longleftrightarrow> n = 1"
proof -
  have eq: "B_VALID = push_bit 1 1" by (simp add: B_VALID_def)
  show ?thesis unfolding eq bit_push_bit_iff bit_1_iff by auto
qed

lemma bit_B_DIRTY [simp]: "bit B_DIRTY n \<longleftrightarrow> n = 2"
proof -
  have eq: "B_DIRTY = push_bit 2 1" by (simp add: B_DIRTY_def)
  show ?thesis unfolding eq bit_push_bit_iff bit_1_iff by auto
qed

lemma bit_flags [simp]:
  "bit (w OR B_VALID) n = (bit w n \<or> n = 1)" "bit (w OR B_DIRTY) n = (bit w n \<or> n = 2)"
  "bit (w AND NOT B_DIRTY) n = (bit w n \<and> n \<noteq> 2)"
  by (auto simp: bit_or_iff bit_and_iff bit_not_iff dest: bit_imp_le_length)

lemma and_single_bit:
  fixes w f :: uint32
  assumes "\<And>n. bit f n \<longleftrightarrow> n = k"
  shows "has_flag w f \<longleftrightarrow> bit w k"
proof
  assume "bit w k"
  then have "bit (w AND f) k" using assms by (simp add: bit_and_iff)
  then show "has_flag w f" by auto
next
  assume "has_flag w f"
  then show "bit w k"
    by (rule contrapos_np) (auto intro!: bit_word_eqI simp: bit_and_iff assms)
qed

lemma has_flag_bit: "has_flag w B_VALID \<longleftrightarrow> bit w 1" "has_flag w B_DIRTY \<longleftrightarrow> bit w 2"
  by (rule and_single_bit, simp)+

lemma only_valid: "w AND (B_VALID OR B_DIRTY) = B_VALID \<longleftrightarrow> bit w 1 \<and> \<not> bit w 2"
proof
  assume eq: "w AND (B_VALID OR B_DIRTY) = B_VALID"
  have "bit (w AND (B_VALID OR B_DIRTY)) 1" "\<not> bit (w AND (B_VALID OR B_DIRTY)) 2"
    unfolding eq by simp_all
  then show "bit w 1 \<and> \<not> bit w 2" by (simp add: bit_and_iff)
next
  assume "bit w 1 \<and> \<not> bit w 2"
  then show "w AND (B_VALID OR B_DIRTY) = B_VALID"
    by (intro bit_word_eqI) (auto simp: bit_and_iff)
qed

end
