(* ===== verification/Bytes.thy ===== *)
theory Bytes
  imports Prelude
begin

text \<open>
  Reading and writing C integers inside byte arrays. On-disk structures (superblock, inodes,
  directory entries, the log header, indirect blocks) are accessed by casting a pointer into
  \<^verbatim>\<open>buf.data\<close>; on the little-endian target this is the access to consecutive bytes
  modelled here. Unsigned values are \<open>nat\<close>s below \<open>2 ^ 32\<close> (or \<open>2 ^ 16\<close>).
\<close>

definition get16 :: "byte list \<Rightarrow> nat \<Rightarrow> nat" where
  "get16 d k = unat (d ! k) + 256 * unat (d ! (k + 1))"

definition get32 :: "byte list \<Rightarrow> nat \<Rightarrow> nat" where
  "get32 d k = get16 d k + 65536 * get16 d (k + 2)"

definition put16 :: "nat \<Rightarrow> nat \<Rightarrow> byte list \<Rightarrow> byte list" where
  "put16 k v d = d[k := word_of_nat v, k + 1 := word_of_nat (v div 256)]"

definition put32 :: "nat \<Rightarrow> nat \<Rightarrow> byte list \<Rightarrow> byte list" where
  "put32 k v d = put16 (k + 2) (v div 65536) (put16 k v d)"

text \<open>\<open>mem_put d k src\<close> is \<^verbatim>\<open>memmove(d + k, src, n)\<close> for a source of \<open>n\<close> bytes.\<close>

definition mem_put :: "byte list \<Rightarrow> nat \<Rightarrow> byte list \<Rightarrow> byte list" where
  "mem_put d k src = take k d @ src @ drop (k + length src) d"

lemma length_put [simp]:
  "length (put16 k v d) = length d" "length (put32 k v d) = length d"
  by (simp_all add: put16_def put32_def)

lemma length_mem_put [simp]:
  "k + length src \<le> length d \<Longrightarrow> length (mem_put d k src) = length d"
  by (simp add: mem_put_def)

lemma unat_byte_of_nat: "unat (word_of_nat v :: byte) = v mod 256"
  by (simp add: unat_of_nat)

lemma get16_put16_same:
  "k + 2 \<le> length d \<Longrightarrow> get16 (put16 k v d) k = v mod 65536"
proof -
  assume "k + 2 \<le> length d"
  then have "get16 (put16 k v d) k = v mod 256 + 256 * (v div 256 mod 256)"
    by (simp add: get16_def put16_def nth_list_update unat_byte_of_nat)
  also have "\<dots> = v mod (256 * 256)" by (metis add.commute mod_mult2_eq)
  finally show ?thesis by simp
qed

lemma get16_put16_other:
  "j + 2 \<le> k \<or> k + 2 \<le> j \<Longrightarrow> get16 (put16 k v d) j = get16 d j"
  by (auto simp: get16_def put16_def nth_list_update)

lemma get32_put32_same [simp]:
  "k + 4 \<le> length d \<Longrightarrow> get32 (put32 k v d) k = v mod 2 ^ 32"
proof -
  assume "k + 4 \<le> length d"
  then have "get32 (put32 k v d) k = v mod 65536 + 65536 * (v div 65536 mod 65536)"
    by (simp add: get32_def put32_def get16_put16_same get16_put16_other)
  also have "\<dots> = v mod (65536 * 65536)" by (metis add.commute mod_mult2_eq)
  finally show ?thesis by simp
qed

lemma get32_put32_other [simp]:
  "j + 4 \<le> k \<or> k + 4 \<le> j \<Longrightarrow> get32 (put32 k v d) j = get32 d j"
  by (auto simp: get32_def put32_def get16_put16_other)

lemma get16_less: "get16 d k < 65536"
proof -
  have "unat (d ! k) < 256" "unat (d ! (k + 1)) < 256"
    using unsigned_less [of "d ! k"] unsigned_less [of "d ! (k + 1)"] by simp_all
  then show ?thesis by (simp add: get16_def)
qed

lemma get32_less: "get32 d k < 2 ^ 32"
  using get16_less [of d k] get16_less [of d "k + 2"] by (simp add: get32_def)

lemma nth_mem_put:
  "k + length src \<le> length d \<Longrightarrow> j < length d \<Longrightarrow>
   mem_put d k src ! j = (if k \<le> j \<and> j < k + length src then src ! (j - k) else d ! j)"
  by (auto simp: mem_put_def nth_append)

lemma mem_put_all: "length src = length d \<Longrightarrow> mem_put d 0 src = src"
  by (simp add: mem_put_def)

end
