(* ===== verification/Sleeplock.thy ===== *)
theory Sleeplock
  imports Prelude
begin

text \<open>
  Long-term locks of \<^verbatim>\<open>sleeplock.c\<close>. The inner spin lock of a sleep lock only makes
  each of these routines one atomic step, which is how they are modelled; its call to
  \<^verbatim>\<open>sleep\<close> on a held lock is the result \<open>Blocks\<close>. The process that runs is
  identified by its \<^verbatim>\<open>pid\<close>.
\<close>

record sleeplock =
  sl_locked :: bool
  sl_pid :: nat

definition initsleeplock :: "sleeplock \<Rightarrow> sleeplock" where
  "initsleeplock lk = lk\<lparr>sl_locked := False, sl_pid := 0\<rparr>"

definition acquiresleep :: "nat \<Rightarrow> sleeplock \<Rightarrow> sleeplock res" where
  "acquiresleep pid lk =
     (if sl_locked lk then Blocks else Ok (lk\<lparr>sl_locked := True, sl_pid := pid\<rparr>))"

definition releasesleep :: "sleeplock \<Rightarrow> sleeplock" where
  "releasesleep lk = lk\<lparr>sl_locked := False, sl_pid := 0\<rparr>"

definition holdingsleep :: "sleeplock \<Rightarrow> bool" where
  "holdingsleep lk = sl_locked lk"

named_theorems sleeplock_defs

declare initsleeplock_def [sleeplock_defs] acquiresleep_def [sleeplock_defs]
  releasesleep_def [sleeplock_defs] holdingsleep_def [sleeplock_defs]

end
