(* ===== verification/Block_Layer.thy ===== *)
theory Block_Layer
  imports Prelude
begin

text \<open>
  The interface between the code that works on disk blocks (\<^verbatim>\<open>log.c\<close>,
  \<^verbatim>\<open>fs.c\<close>) and the buffer cache. Both use the same protocol: take a block with
  \<^verbatim>\<open>bread\<close>, look at or store into its data, make the store durable (with
  \<^verbatim>\<open>bwrite\<close> in the log, with \<^verbatim>\<open>log_write\<close> in the file system) and
  give it back with \<^verbatim>\<open>brelse\<close>. The locale states what the protocol's operations
  promise in terms of the \<open>blocks\<close> that may be asked for, the logical disk \<open>lo\<close>, the ownership \<open>own\<close> of blocks, the set
  \<open>dirt\<close> of pinned blocks and an observation \<open>obs\<close> of the rest of the state, and
  proves the proof rules for the three ways the code combines them.
\<close>

locale block_layer =
  fixes inv :: "'s \<Rightarrow> bool"
    and obs :: "'s \<Rightarrow> 'o"
    and blocks :: "'o \<Rightarrow> nat set"
    and own :: "'s \<Rightarrow> nat \<Rightarrow> nat \<Rightarrow> bool"
    and lo :: "'s \<Rightarrow> nat \<Rightarrow> byte list"
    and dirt :: "'s \<Rightarrow> nat set"
    and synced :: "'s \<Rightarrow> nat \<Rightarrow> bool"
    and get :: "nat \<Rightarrow> 's \<Rightarrow> (nat \<times> 's) res"
    and dat :: "nat \<Rightarrow> 's \<Rightarrow> byte list"
    and store :: "nat \<Rightarrow> byte list \<Rightarrow> 's \<Rightarrow> 's"
    and put :: "nat \<Rightarrow> 's \<Rightarrow> 's res"
    and rel :: "nat \<Rightarrow> 's \<Rightarrow> 's res"
    and wroom :: "'s \<Rightarrow> bool"
    and eff :: "nat \<Rightarrow> nat set \<Rightarrow> nat set"
    and oput :: "nat \<Rightarrow> byte list \<Rightarrow> 'o \<Rightarrow> 'o"
  assumes get_ok: "inv s \<Longrightarrow> b \<in> blocks (obs s) \<Longrightarrow> (\<And>i. \<not> own s i b) \<Longrightarrow>
      b \<in> dirt s \<or> card ({b. \<exists>i. own s i b} \<union> dirt s) < NBUF \<Longrightarrow>
      okP (get b s) (\<lambda>(i, t). inv t \<and> obs t = obs s \<and> lo t = lo s \<and> dirt t = dirt s \<and>
        (\<forall>j c. own t j c \<longleftrightarrow> own s j c \<or> j = i \<and> c = b) \<and> synced t b \<and> (\<forall>c. \<not> own s i c))"
    and dat_lo: "inv s \<Longrightarrow> own s i b \<Longrightarrow> dat i s = lo s b"
    and own_fun: "inv s \<Longrightarrow> own s i b \<Longrightarrow> own s i c \<Longrightarrow> b = c"
    and store_ok: "inv s \<Longrightarrow> own s i b \<Longrightarrow> length d = BSIZE \<Longrightarrow>
      inv (store i d s) \<and> obs (store i d s) = obs s \<and> lo (store i d s) = (lo s)(b := d) \<and>
      dirt (store i d s) = dirt s \<and> own (store i d s) = own s"
    and put_ok: "inv s \<Longrightarrow> own s i b \<Longrightarrow> wroom s \<Longrightarrow>
      okP (put i s) (\<lambda>t. inv t \<and> obs t = oput b (lo s b) (obs s) \<and> lo t = lo s \<and>
        dirt t = eff b (dirt s) \<and> own t = own s \<and> synced t b \<and>
        (\<forall>c. c \<noteq> b \<and> synced s c \<longrightarrow> synced t c))"
    and rel_ok: "inv s \<Longrightarrow> own s i b \<Longrightarrow> synced s b \<Longrightarrow>
      okP (rel i s) (\<lambda>t. inv t \<and> obs t = obs s \<and> lo t = lo s \<and> dirt t = dirt s \<and>
        (\<forall>j c. own t j c \<longleftrightarrow> own s j c \<and> j \<noteq> i))"
    and synced_cong: "obs s = obs t \<Longrightarrow> (c \<in> dirt s \<longleftrightarrow> c \<in> dirt t) \<Longrightarrow> lo s c = lo t c \<Longrightarrow>
      synced s c = synced t c"
    and wroom_cong: "obs s = obs t \<Longrightarrow> dirt s = dirt t \<Longrightarrow> wroom s = wroom t"
    and blocks_oput: "blocks (oput b d ob) = blocks ob"
    and lo_length: "inv s \<Longrightarrow> length (lo s b) = BSIZE"
    and finite_own: "inv s \<Longrightarrow> finite {b. \<exists>i. own s i b}"
    and finite_dirt: "inv s \<Longrightarrow> finite (dirt s)"
begin

text \<open>Take a block, read it, give it back.\<close>

lemma read_rule:
  assumes s: "inv s" "b \<in> blocks (obs s)" "\<And>i. \<not> own s i b"
      "b \<in> dirt s \<or> card ({b. \<exists>i. own s i b} \<union> dirt s) < NBUF"
    and rest: "\<And>t. inv t \<Longrightarrow> obs t = obs s \<Longrightarrow> lo t = lo s \<Longrightarrow> dirt t = dirt s \<Longrightarrow> own t = own s \<Longrightarrow>
      okP (g (lo s b) t) Q"
  shows "okP (bnd (get b s) (\<lambda>(i, t). bnd (rel i t) (\<lambda>u. g (dat i t) u))) Q"
proof (rule okP_bnd [OF get_ok [OF s]], clarify)
  fix i t
  assume t: "inv t" "obs t = obs s" "lo t = lo s" "dirt t = dirt s"
    "\<forall>j c. own t j c \<longleftrightarrow> own s j c \<or> j = i \<and> c = b" "synced t b" and new: "\<forall>c. \<not> own s i c"
  have own: "own t i b" using t(5) by blast
  show "okP (bnd (rel i t) (\<lambda>u. g (dat i t) u)) Q"
  proof (rule okP_bnd [OF rel_ok [OF t(1) own t(6)]], clarify)
    fix u
    assume u: "inv u" "obs u = obs t" "lo u = lo t" "dirt u = dirt t"
      "\<forall>j c. own u j c \<longleftrightarrow> own t j c \<and> j \<noteq> i"
    have "own u = own s" using t(5) u(5) new by (auto simp: fun_eq_iff)
    then show "okP (g (dat i t) u) Q"
      using rest [of u] u t dat_lo [OF t(1) own] by simp
  qed
qed

text \<open>Take a block, replace its data, make that durable, give it back.\<close>

lemma update_rule:
  assumes s: "inv s" "b \<in> blocks (obs s)" "\<And>i. \<not> own s i b"
      "b \<in> dirt s \<or> card ({b. \<exists>i. own s i b} \<union> dirt s) < NBUF"
    and w: "wroom s" and len: "length (f (lo s b)) = BSIZE"
    and rest: "\<And>t. inv t \<Longrightarrow> obs t = oput b (f (lo s b)) (obs s) \<Longrightarrow>
      lo t = (lo s)(b := f (lo s b)) \<Longrightarrow> dirt t = eff b (dirt s) \<Longrightarrow> own t = own s \<Longrightarrow>
      (\<And>c. c \<noteq> b \<Longrightarrow> synced s c \<Longrightarrow> synced t c) \<Longrightarrow> okP (g t) Q"
  shows "okP (bnd (get b s) (\<lambda>(i, t). bnd (put i (store i (f (dat i t)) t))
    (\<lambda>u. bnd (rel i u) g))) Q"
proof (rule okP_bnd [OF get_ok [OF s]], clarify)
  fix i t
  assume t: "inv t" "obs t = obs s" "lo t = lo s" "dirt t = dirt s"
    "\<forall>j c. own t j c \<longleftrightarrow> own s j c \<or> j = i \<and> c = b" "synced t b" and new: "\<forall>c. \<not> own s i c"
  have own: "own t i b" using t(5) by blast
  let ?d = "f (lo s b)" let ?v = "store i ?d t"
  have v: "inv ?v" "obs ?v = obs s" "lo ?v = (lo s)(b := ?d)" "dirt ?v = dirt s" "own ?v = own t"
    using store_ok [OF t(1) own len] t by simp_all
  have "wroom ?v" using w wroom_cong [of ?v s] v by simp
  then have P: "okP (put i ?v) (\<lambda>u. inv u \<and> obs u = oput b ?d (obs s) \<and> lo u = (lo s)(b := ?d) \<and>
      dirt u = eff b (dirt s) \<and> own u = own t \<and> synced u b \<and>
      (\<forall>c. c \<noteq> b \<and> synced ?v c \<longrightarrow> synced u c))"
    using put_ok [OF v(1), of i b] own v by simp
  have "okP (bnd (put i ?v) (\<lambda>u. bnd (rel i u) g)) Q"
  proof (rule okP_bnd [OF P], clarify)
    fix u
    assume u: "inv u" "obs u = oput b ?d (obs s)" "lo u = (lo s)(b := ?d)" "dirt u = eff b (dirt s)"
      "own u = own t" "synced u b" "\<forall>c. c \<noteq> b \<and> synced ?v c \<longrightarrow> synced u c"
    have "own u i b" using u(5) own by simp
    then show "okP (bnd (rel i u) g) Q"
    proof (rule okP_bnd [OF rel_ok [OF u(1) _ u(6)]], clarify)
      fix w
      assume w: "inv w" "obs w = obs u" "lo w = lo u" "dirt w = dirt u"
        "\<forall>j c. own w j c \<longleftrightarrow> own u j c \<and> j \<noteq> i"
      have "own w = own s" using t(5) u(5) w(5) new by (auto simp: fun_eq_iff)
      moreover have "synced w c" if "c \<noteq> b" "synced s c" for c
      proof -
        have "synced ?v c" using synced_cong [of ?v s c] v that by simp
        then have "synced u c" using u(7) that by blast
        then show ?thesis using synced_cong [of w u c] w by simp
      qed
      ultimately show "okP (g w) Q" using rest [of w] w u by simp
    qed
  qed
  then show "okP (bnd (put i (store i (f (dat i t)) t)) (\<lambda>u. bnd (rel i u) g)) Q"
    using dat_lo [OF t(1) own] t by simp
qed

lemma update_rule_end:
  assumes s: "inv s" "b \<in> blocks (obs s)" "\<And>i. \<not> own s i b"
      "b \<in> dirt s \<or> card ({b. \<exists>i. own s i b} \<union> dirt s) < NBUF"
    and w: "wroom s" and len: "length (f (lo s b)) = BSIZE"
    and rest: "\<And>t. inv t \<Longrightarrow> obs t = oput b (f (lo s b)) (obs s) \<Longrightarrow>
      lo t = (lo s)(b := f (lo s b)) \<Longrightarrow> dirt t = eff b (dirt s) \<Longrightarrow> own t = own s \<Longrightarrow>
      (\<And>c. c \<noteq> b \<Longrightarrow> synced s c \<Longrightarrow> synced t c) \<Longrightarrow> Q t"
  shows "okP (bnd (get b s) (\<lambda>(i, t). bnd (put i (store i (f (dat i t)) t)) (rel i))) Q"
  using update_rule [where f = f and g = Ok and Q = Q, OF s w len] rest by simp

text \<open>The protocol step by step, for code that branches on the data of a held block.\<close>

lemma get_rule:
  assumes s: "inv s" "b \<in> blocks (obs s)" "\<And>i. \<not> own s i b"
      "b \<in> dirt s \<or> card ({b. \<exists>i. own s i b} \<union> dirt s) < NBUF"
    and rest: "\<And>i t. inv t \<Longrightarrow> obs t = obs s \<Longrightarrow> lo t = lo s \<Longrightarrow> dirt t = dirt s \<Longrightarrow>
      (\<And>j c. own t j c \<longleftrightarrow> own s j c \<or> j = i \<and> c = b) \<Longrightarrow> own t i b \<Longrightarrow> synced t b \<Longrightarrow>
      dat i t = lo s b \<Longrightarrow> (\<And>c. \<not> own s i c) \<Longrightarrow> okP (g i t) Q"
  shows "okP (bnd (get b s) (\<lambda>(i, t). g i t)) Q"
proof (rule okP_bnd [OF get_ok [OF s]], clarify)
  fix i t
  assume t: "inv t" "obs t = obs s" "lo t = lo s" "dirt t = dirt s"
    "\<forall>j c. own t j c \<longleftrightarrow> own s j c \<or> j = i \<and> c = b" "synced t b" and new: "\<forall>c. \<not> own s i c"
  have own: "own t i b" using t(5) by blast
  show "okP (g i t) Q"
    by (rule rest) (use t own new dat_lo [OF t(1) own] in auto)
qed

lemma release_rule:
  assumes t: "inv t" "own t i b" "synced t b"
    and rest: "\<And>u. inv u \<Longrightarrow> obs u = obs t \<Longrightarrow> lo u = lo t \<Longrightarrow> dirt u = dirt t \<Longrightarrow>
      (\<And>j c. own u j c \<longleftrightarrow> own t j c \<and> j \<noteq> i) \<Longrightarrow> okP (g u) Q"
  shows "okP (bnd (rel i t) g) Q"
  by (rule okP_bnd [OF rel_ok [OF t]]) (use rest in blast)

lemma put_rule:
  assumes t: "inv t" "own t i b" "wroom t" "length d = BSIZE"
    and rest: "\<And>u. inv u \<Longrightarrow> obs u = oput b d (obs t) \<Longrightarrow> lo u = (lo t)(b := d) \<Longrightarrow>
      dirt u = eff b (dirt t) \<Longrightarrow> own u = own t \<Longrightarrow> synced u b \<Longrightarrow> okP (g u) Q"
  shows "okP (bnd (put i (store i d t)) g) Q"
proof -
  let ?v = "store i d t"
  have v: "inv ?v" "obs ?v = obs t" "lo ?v = (lo t)(b := d)" "dirt ?v = dirt t" "own ?v = own t"
    using store_ok [OF t(1,2,4)] by simp_all
  have wr: "wroom ?v" using t(3) wroom_cong [of ?v t] v by simp
  have "own ?v i b" using v t(2) by simp
  from put_ok [OF v(1) this wr] show ?thesis
    by (rule okP_bnd) (use v rest in auto)
qed

lemma update_held_rule:
  assumes t: "inv t" "own t i b" "wroom t" "length d = BSIZE"
    and rest: "\<And>u. inv u \<Longrightarrow> obs u = oput b d (obs t) \<Longrightarrow> lo u = (lo t)(b := d) \<Longrightarrow>
      dirt u = eff b (dirt t) \<Longrightarrow> (\<And>j c. own u j c \<longleftrightarrow> own t j c \<and> j \<noteq> i) \<Longrightarrow> okP (g u) Q"
  shows "okP (bnd (put i (store i d t)) (\<lambda>u. bnd (rel i u) g)) Q"
proof (rule put_rule [OF t])
  fix u
  assume u: "inv u" "obs u = oput b d (obs t)" "lo u = (lo t)(b := d)" "dirt u = eff b (dirt t)"
    "own u = own t" "synced u b"
  have "own u i b" using u(5) t(2) by simp
  from u(1) this u(6) show "okP (bnd (rel i u) g) Q"
    by (rule release_rule) (use u rest in auto)
qed

text \<open>
  Two held blocks: copy the data of \<open>y\<close> (block \<open>b\<close>) into \<open>x\<close> (block \<open>a\<close>),
  make that durable and give both back.
\<close>

lemma copy_held:
  assumes t: "inv t" "own t x a" "own t y b" "a \<noteq> b" "synced t b" "wroom t"
    and rest: "\<And>w. inv w \<Longrightarrow> obs w = oput a (lo t b) (obs t) \<Longrightarrow> lo w = (lo t)(a := lo t b) \<Longrightarrow>
      dirt w = eff a (dirt t) \<Longrightarrow> (\<And>j c. own w j c \<longleftrightarrow> own t j c \<and> j \<noteq> x \<and> j \<noteq> y) \<Longrightarrow>
      okP (g w) Q"
  shows "okP (bnd (put x (store x (dat y t) t)) (\<lambda>u. bnd (rel y u) (\<lambda>v. bnd (rel x v) g))) Q"
proof -
  let ?v = "store x (lo t b) t"
  have v: "inv ?v" "obs ?v = obs t" "lo ?v = (lo t)(a := lo t b)" "dirt ?v = dirt t" "own ?v = own t"
    using store_ok [OF t(1,2) lo_length [OF t(1)]] by simp_all
  have xy: "x \<noteq> y" using own_fun [OF t(1)] t(2-4) by blast
  have wr: "wroom ?v" using t(6) wroom_cong [of ?v t] v by simp
  have sv: "synced ?v b" using t(4,5) synced_cong [of ?v t b] v by simp
  have "okP (bnd (put x ?v) (\<lambda>u. bnd (rel y u) (\<lambda>v. bnd (rel x v) g))) Q"
  proof (rule okP_bnd [OF put_ok [OF v(1) _ wr, of x a]], goal_cases)
    case 1
    then show ?case using t(2) v by simp
  next
    case (2 u)
    then have u: "inv u" "obs u = oput a (lo t b) (obs t)" "lo u = (lo t)(a := lo t b)"
      "dirt u = eff a (dirt t)" "own u = own t" "synced u a" "synced u b"
      using v sv t(4) by auto
    show ?case
    proof (rule okP_bnd [OF rel_ok [OF u(1) _ u(7), of y]], goal_cases)
      case 1
      then show ?case using u(5) t(3) by simp
    next
      case (2 w)
      then have w: "inv w" "obs w = obs u" "lo w = lo u" "dirt w = dirt u"
        "\<And>j c. own w j c \<longleftrightarrow> own u j c \<and> j \<noteq> y" by auto
      have "own w x a" using w(5) u(5) t(2) xy by simp
      moreover have "synced w a" using u(6) synced_cong [of w u a] w by simp
      ultimately show ?case
      proof (rule okP_bnd [OF rel_ok [OF w(1)]], goal_cases)
        case (1 z)
        then show ?case using rest [of z] u w by auto
      qed
    qed
  qed
  then show ?thesis using dat_lo [OF t(1,3)] by simp
qed

lemma two_get:
  assumes s: "inv s" "a \<in> blocks (obs s)" "b \<in> blocks (obs s)" "a \<noteq> b" "\<And>i c. \<not> own s i c"
      "a \<in> dirt s \<or> card (dirt s) < NBUF" "b \<in> dirt s \<or> card (insert a (dirt s)) < NBUF"
    and rest: "\<And>x y t. inv t \<Longrightarrow> obs t = obs s \<Longrightarrow> lo t = lo s \<Longrightarrow> dirt t = dirt s \<Longrightarrow>
      (\<And>j c. own t j c \<longleftrightarrow> j = x \<and> c = a \<or> j = y \<and> c = b) \<Longrightarrow> synced t a \<Longrightarrow> synced t b \<Longrightarrow>
      okP (g x y t) Q"
  shows "okP (bnd (get a s) (\<lambda>(x, t). bnd (get b t) (\<lambda>(y, t). g x y t))) Q"
proof -
  have none: "{c. \<exists>i. own s i c} = {}" using s(5) by blast
  show ?thesis
  proof (rule okP_bnd [OF get_ok [OF s(1,2,5)]], goal_cases)
    case 1
    then show ?case using s(6) none by simp
  next
    case (2 r)
    then obtain x t where r: "r = (x, t)" and t: "inv t" "obs t = obs s" "lo t = lo s" "dirt t = dirt s"
      "\<And>j c. own t j c \<longleftrightarrow> j = x \<and> c = a" "synced t a"
      using s(5) by auto
    have "{c. \<exists>i. own t i c} = {a}" using t(5) by auto
    then have room: "b \<in> dirt t \<or> card ({c. \<exists>i. own t i c} \<union> dirt t) < NBUF"
      using s(7) t(4) by simp
    have "okP (bnd (get b t) (\<lambda>(y, t). g x y t)) Q"
    proof (rule okP_bnd [OF get_ok [OF t(1) _ _ room]], goal_cases)
      case (3 r')
      then obtain y u where r': "r' = (y, u)" and u: "inv u" "obs u = obs t" "lo u = lo t" "dirt u = dirt t"
        "\<And>j c. own u j c \<longleftrightarrow> own t j c \<or> j = y \<and> c = b" "synced u b"
        by auto
      have "synced u a" using t(6) synced_cong [of u t a] u by simp
      then show ?case using rest [of u x y] u t r' by simp
    qed (use s t in auto)
    then show ?case using r by simp
  qed
qed

lemma copy_to_first:
  assumes s: "inv s" "a \<in> blocks (obs s)" "b \<in> blocks (obs s)" "a \<noteq> b" "\<And>i c. \<not> own s i c"
      "a \<in> dirt s \<or> card (dirt s) < NBUF" "b \<in> dirt s \<or> card (insert a (dirt s)) < NBUF" "wroom s"
    and rest: "\<And>w. inv w \<Longrightarrow> obs w = oput a (lo s b) (obs s) \<Longrightarrow> lo w = (lo s)(a := lo s b) \<Longrightarrow>
      dirt w = eff a (dirt s) \<Longrightarrow> (\<And>j c. \<not> own w j c) \<Longrightarrow> okP (g w) Q"
  shows "okP (bnd (get a s) (\<lambda>(x, t). bnd (get b t) (\<lambda>(y, t).
    bnd (put x (store x (dat y t) t)) (\<lambda>u. bnd (rel y u) (\<lambda>v. bnd (rel x v) g))))) Q"
proof (rule two_get [OF s(1-7)])
  fix x y t
  assume t: "inv t" "obs t = obs s" "lo t = lo s" "dirt t = dirt s"
    "\<And>j c. own t j c \<longleftrightarrow> j = x \<and> c = a \<or> j = y \<and> c = b" "synced t a" "synced t b"
  have wr: "wroom t" using s(8) wroom_cong [of t s] t by simp
  show "okP (bnd (put x (store x (dat y t) t)) (\<lambda>u. bnd (rel y u) (\<lambda>v. bnd (rel x v) g))) Q"
  proof (rule copy_held [OF t(1) _ _ s(4) t(7) wr])
    fix w
    assume "inv w" "obs w = oput a (lo t b) (obs t)" "lo w = (lo t)(a := lo t b)"
      "dirt w = eff a (dirt t)" "\<And>j c. own w j c \<longleftrightarrow> own t j c \<and> j \<noteq> x \<and> j \<noteq> y"
    then show "okP (g w) Q" using rest [of w] t by auto
  qed (use t(5) in auto)
qed

lemma copy_to_second:
  assumes s: "inv s" "a \<in> blocks (obs s)" "b \<in> blocks (obs s)" "a \<noteq> b" "\<And>i c. \<not> own s i c"
      "a \<in> dirt s \<or> card (dirt s) < NBUF" "b \<in> dirt s \<or> card (insert a (dirt s)) < NBUF" "wroom s"
    and rest: "\<And>w. inv w \<Longrightarrow> obs w = oput b (lo s a) (obs s) \<Longrightarrow> lo w = (lo s)(b := lo s a) \<Longrightarrow>
      dirt w = eff b (dirt s) \<Longrightarrow> (\<And>j c. \<not> own w j c) \<Longrightarrow> okP (g w) Q"
  shows "okP (bnd (get a s) (\<lambda>(x, t). bnd (get b t) (\<lambda>(y, t).
    bnd (put y (store y (dat x t) t)) (\<lambda>u. bnd (rel x u) (\<lambda>v. bnd (rel y v) g))))) Q"
proof (rule two_get [OF s(1-7)])
  fix x y t
  assume t: "inv t" "obs t = obs s" "lo t = lo s" "dirt t = dirt s"
    "\<And>j c. own t j c \<longleftrightarrow> j = x \<and> c = a \<or> j = y \<and> c = b" "synced t a" "synced t b"
  have wr: "wroom t" using s(8) wroom_cong [of t s] t by simp
  show "okP (bnd (put y (store y (dat x t) t)) (\<lambda>u. bnd (rel x u) (\<lambda>v. bnd (rel y v) g))) Q"
  proof (rule copy_held [OF t(1) _ _ s(4) [symmetric] t(6) wr])
    fix w
    assume "inv w" "obs w = oput b (lo t a) (obs t)" "lo w = (lo t)(b := lo t a)"
      "dirt w = eff b (dirt t)" "\<And>j c. own w j c \<longleftrightarrow> own t j c \<and> j \<noteq> y \<and> j \<noteq> x"
    then show "okP (g w) Q" using rest [of w] t by auto
  qed (use t(5) in auto)
qed

end

end
