(* ===== verification/Bio.thy ===== *)
theory Bio
  imports Bytes Sleeplock Block_Layer
begin

text \<open>
  The disk (\<^verbatim>\<open>memide.c\<close>) and the buffer cache over it (\<^verbatim>\<open>bio.c\<close>).
  A buffer pointer is an index into \<open>bufs\<close>; the doubly linked list through
  \<^verbatim>\<open>prev\<close>/\<^verbatim>\<open>next\<close> is the list \<open>mru\<close> of indices, from
  \<^verbatim>\<open>head.next\<close> (most recently used) to \<^verbatim>\<open>head.prev\<close>. The spin lock
  \<^verbatim>\<open>bcache.lock\<close> makes the scans atomic, as they are here. \<open>dwrites\<close> is a
  history variable that no routine reads: the sequence of block writes the disk has received.

  The second half states what the cache promises: a logical disk \<open>ldisk\<close> that every
  routine but a store into a held buffer preserves, the set \<open>held\<close> of blocks in use, the
  set \<open>dirtyb\<close> of pinned blocks, and an invariant that ties them to the buffers.
\<close>

section \<open>State\<close>

record buf =
  b_flags :: uint32
  b_dev :: nat
  b_blockno :: nat
  b_lock :: sleeplock
  b_refcnt :: uint32
  b_data :: "byte list"

record disk_st =
  mypid :: nat
  memdisk :: "nat \<Rightarrow> byte list"
  disksize :: nat
  dwrites :: "(nat \<times> byte list) list"

record bio_st = disk_st +
  bufs :: "buf list"
  mru :: "nat list"

section \<open>Operations\<close>

definition set_buf :: "nat \<Rightarrow> buf \<Rightarrow> 'a bio_st_scheme \<Rightarrow> 'a bio_st_scheme" where
  "set_buf i b s = s\<lparr>bufs := (bufs s)[i := b]\<rparr>"

definition binit :: "'a bio_st_scheme \<Rightarrow> 'a bio_st_scheme" where
  "binit s = s\<lparr>bufs := map (\<lambda>b. b\<lparr>b_lock := initsleeplock (b_lock b)\<rparr>) (bufs s),
               mru := fold (\<lambda>i xs. i # xs) [0..<NBUF] []\<rparr>"

definition iderw :: "nat \<Rightarrow> 'a bio_st_scheme \<Rightarrow> 'a bio_st_scheme res" where
  "iderw i s =
     (let b = bufs s ! i in
      if \<not> holdingsleep (b_lock b) then Panic ''iderw: buf not locked''
      else if b_flags b AND (B_VALID OR B_DIRTY) = B_VALID then Panic ''iderw: nothing to do''
      else if b_dev b \<noteq> 1 then Panic ''iderw: request not for disk 1''
      else if b_blockno b \<ge> disksize s then Panic ''iderw: block out of range''
      else if has_flag (b_flags b) B_DIRTY then
        Ok (set_buf i (b\<lparr>b_flags := (b_flags b AND NOT B_DIRTY) OR B_VALID\<rparr>)
             (s\<lparr>memdisk := (memdisk s)(b_blockno b := b_data b),
                dwrites := dwrites s @ [(b_blockno b, b_data b)]\<rparr>))
      else
        Ok (set_buf i (b\<lparr>b_data := memdisk s (b_blockno b), b_flags := b_flags b OR B_VALID\<rparr>) s))"

definition bget :: "nat \<Rightarrow> nat \<Rightarrow> 'a bio_st_scheme \<Rightarrow> (nat \<times> 'a bio_st_scheme) res" where
  "bget dev blockno s =
     (case find (\<lambda>i. b_dev (bufs s ! i) = dev \<and> b_blockno (bufs s ! i) = blockno) (mru s) of
        Some i \<Rightarrow>
          (let b = bufs s ! i in
           bnd (acquiresleep (mypid s) (b_lock b)) (\<lambda>lk.
           Ok (i, set_buf i (b\<lparr>b_refcnt := b_refcnt b + 1, b_lock := lk\<rparr>) s)))
      | None \<Rightarrow>
          (case find (\<lambda>i. b_refcnt (bufs s ! i) = 0 \<and> b_flags (bufs s ! i) AND B_DIRTY = 0)
                  (rev (mru s)) of
             Some i \<Rightarrow>
               (let b = (bufs s ! i)\<lparr>b_dev := dev, b_blockno := blockno, b_flags := 0,
                                     b_refcnt := 1\<rparr> in
                bnd (acquiresleep (mypid s) (b_lock b)) (\<lambda>lk.
                Ok (i, set_buf i (b\<lparr>b_lock := lk\<rparr>) s)))
           | None \<Rightarrow> Panic ''bget: no buffers''))"

definition bread :: "nat \<Rightarrow> nat \<Rightarrow> 'a bio_st_scheme \<Rightarrow> (nat \<times> 'a bio_st_scheme) res" where
  "bread dev blockno s =
     bnd (bget dev blockno s) (\<lambda>(i, s).
     if b_flags (bufs s ! i) AND B_VALID = 0 then bnd (iderw i s) (\<lambda>s. Ok (i, s))
     else Ok (i, s))"

definition bwrite :: "nat \<Rightarrow> 'a bio_st_scheme \<Rightarrow> 'a bio_st_scheme res" where
  "bwrite i s =
     (let b = bufs s ! i in
      if \<not> holdingsleep (b_lock b) then Panic ''bwrite''
      else iderw i (set_buf i (b\<lparr>b_flags := b_flags b OR B_DIRTY\<rparr>) s))"

definition brelse :: "nat \<Rightarrow> 'a bio_st_scheme \<Rightarrow> 'a bio_st_scheme res" where
  "brelse i s =
     (let b = bufs s ! i in
      if \<not> holdingsleep (b_lock b) then Panic ''brelse''
      else
        let b = b\<lparr>b_lock := releasesleep (b_lock b), b_refcnt := b_refcnt b - 1\<rparr>;
            s = set_buf i b s
        in Ok (if b_refcnt b = 0 then s\<lparr>mru := i # remove1 i (mru s)\<rparr> else s))"

text \<open>Access to \<^verbatim>\<open>b->data\<close> by the holder of a buffer.\<close>

definition bdata :: "nat \<Rightarrow> 'a bio_st_scheme \<Rightarrow> byte list" where
  "bdata i s = b_data (bufs s ! i)"

definition set_bdata :: "nat \<Rightarrow> byte list \<Rightarrow> 'a bio_st_scheme \<Rightarrow> 'a bio_st_scheme" where
  "set_bdata i d s = set_buf i ((bufs s ! i)\<lparr>b_data := d\<rparr>) s"

section \<open>What the cache promises\<close>

abbreviation valid :: "buf \<Rightarrow> bool" where "valid b \<equiv> bit (b_flags b) 1"
abbreviation dirty :: "buf \<Rightarrow> bool" where "dirty b \<equiv> bit (b_flags b) 2"
abbreviation locked :: "buf \<Rightarrow> bool" where "locked b \<equiv> sl_locked (b_lock b)"

definition buf_inv :: "(nat \<Rightarrow> byte list) \<Rightarrow> nat \<Rightarrow> buf \<Rightarrow> bool" where
  "buf_inv d n b \<longleftrightarrow>
     length (b_data b) = BSIZE \<and>
     b_refcnt b = (if locked b then 1 else 0) \<and>
     (b_dev b = 0 \<or> b_dev b = 1) \<and>
     (valid b \<longleftrightarrow> b_dev b = 1) \<and>
     (dirty b \<or> locked b \<longrightarrow> valid b) \<and>
     (valid b \<longrightarrow> b_blockno b < n) \<and>
     (valid b \<and> \<not> dirty b \<and> \<not> locked b \<longrightarrow> b_data b = d (b_blockno b))"

definition caches :: "'a bio_st_scheme \<Rightarrow> nat \<Rightarrow> nat \<Rightarrow> bool" where
  "caches s i b \<longleftrightarrow> b_dev (bufs s ! i) = 1 \<and> b_blockno (bufs s ! i) = b"

text \<open>
  Every buffer is well formed, the list holds every buffer once, and no two buffers cache the
  same block. The initial buffers, all zero, carry device 0 and are excepted.
\<close>

definition bio_inv :: "'a bio_st_scheme \<Rightarrow> bool" where
  "bio_inv s \<longleftrightarrow>
     length (bufs s) = NBUF \<and> distinct (mru s) \<and> set (mru s) = {..<NBUF} \<and>
     (\<forall>b. length (memdisk s b) = BSIZE) \<and>
     (\<forall>i < NBUF. buf_inv (memdisk s) (disksize s) (bufs s ! i)) \<and>
     (\<forall>i < NBUF. \<forall>j < NBUF. \<forall>b. caches s i b \<and> caches s j b \<longrightarrow> i = j)"

definition owns :: "'a bio_st_scheme \<Rightarrow> nat \<Rightarrow> nat \<Rightarrow> bool" where
  "owns s i b \<longleftrightarrow> i < NBUF \<and> locked (bufs s ! i) \<and> b_blockno (bufs s ! i) = b"

definition held :: "'a bio_st_scheme \<Rightarrow> nat set" where
  "held s = {b. \<exists>i. owns s i b}"

definition dirtyb :: "'a bio_st_scheme \<Rightarrow> nat set" where
  "dirtyb s = {b_blockno (bufs s ! i) | i. i < NBUF \<and> dirty (bufs s ! i)}"

definition ldisk :: "'a bio_st_scheme \<Rightarrow> nat \<Rightarrow> byte list" where
  "ldisk s b = (case find (\<lambda>i. caches s i b) [0..<NBUF] of
      Some i \<Rightarrow> b_data (bufs s ! i) | None \<Rightarrow> memdisk s b)"

lemma no_flag_bit [simp]:
  "w AND B_VALID = 0 \<longleftrightarrow> \<not> bit w 1" "w AND B_DIRTY = 0 \<longleftrightarrow> \<not> bit w 2"
  using has_flag_bit by blast+

lemma bio_invD:
  assumes "bio_inv s"
  shows "length (bufs s) = NBUF" "distinct (mru s)" "set (mru s) = {..<NBUF}"
    "length (memdisk s b) = BSIZE"
    "i < NBUF \<Longrightarrow> buf_inv (memdisk s) (disksize s) (bufs s ! i)"
  using assms unfolding bio_inv_def by auto

lemma caches_unique:
  "bio_inv s \<Longrightarrow> i < NBUF \<Longrightarrow> j < NBUF \<Longrightarrow> caches s i b \<Longrightarrow> caches s j b \<Longrightarrow> i = j"
  unfolding bio_inv_def by blast

lemma caches_other:
  "bio_inv s \<Longrightarrow> i < NBUF \<Longrightarrow> caches s i b \<Longrightarrow> j < NBUF \<Longrightarrow> j \<noteq> i \<Longrightarrow> \<not> caches s j b"
  using caches_unique by blast

lemma ldisk_hit:
  assumes "bio_inv s" "i < NBUF" "caches s i b"
  shows "ldisk s b = b_data (bufs s ! i)"
proof -
  have "find (\<lambda>i. caches s i b) [0..<NBUF] = Some i"
  proof (rule find_unique)
    show "j = i" if "j \<in> set [0..<NBUF]" "caches s j b" for j
      using caches_unique [OF assms(1), of j i b] that assms by simp
  qed (use assms in auto)
  then show ?thesis by (simp add: ldisk_def)
qed

lemma ldisk_miss: "(\<And>i. i < NBUF \<Longrightarrow> \<not> caches s i b) \<Longrightarrow> ldisk s b = memdisk s b"
  by (auto simp: ldisk_def find_None_set split: option.split dest: find_Some_mem)

lemma ldisk_length:
  assumes "bio_inv s"
  shows "length (ldisk s b) = BSIZE"
proof (cases "find (\<lambda>i. caches s i b) [0..<NBUF]")
  case None
  then show ?thesis using bio_invD(4) [OF assms] by (simp add: ldisk_def)
next
  case (Some i)
  then have "i < NBUF" by (auto dest: find_Some_mem)
  then show ?thesis using Some bio_invD(5) [OF assms] by (simp add: ldisk_def buf_inv_def)
qed

lemma owns_caches:
  assumes "bio_inv s" "owns s i b"
  shows "i < NBUF" "caches s i b" "b < disksize s"
proof -
  show i: "i < NBUF" using assms by (simp add: owns_def)
  show "caches s i b" "b < disksize s"
    using bio_invD(5) [OF assms(1) i] assms(2) by (auto simp: owns_def caches_def buf_inv_def)
qed

lemma bdata_ldisk: "bio_inv s \<Longrightarrow> owns s i b \<Longrightarrow> bdata i s = ldisk s b"
  by (metis bdata_def ldisk_hit owns_caches(1,2))

lemma dirty_caches:
  assumes inv: "bio_inv s" and "b \<in> dirtyb s"
  shows "\<exists>i < NBUF. caches s i b \<and> dirty (bufs s ! i)"
proof -
  from assms(2) obtain i where i: "i < NBUF" "dirty (bufs s ! i)" "b_blockno (bufs s ! i) = b"
    by (auto simp: dirtyb_def)
  moreover have "caches s i b"
    using bio_invD(5) [OF inv i(1)] i by (auto simp: caches_def buf_inv_def)
  ultimately show ?thesis by blast
qed

lemma clean_on_disk:
  assumes inv: "bio_inv s" and "b \<notin> held s" "b \<notin> dirtyb s"
  shows "ldisk s b = memdisk s b"
proof (cases "\<exists>i < NBUF. caches s i b")
  case True
  then obtain i where i: "i < NBUF" "caches s i b" by blast
  then have "\<not> locked (bufs s ! i)" "\<not> dirty (bufs s ! i)"
    using assms(2,3) by (auto simp: held_def owns_def dirtyb_def caches_def)
  then show ?thesis
    using bio_invD(5) [OF inv i(1)] i by (auto simp: ldisk_hit [OF inv i] caches_def buf_inv_def)
next
  case False
  then show ?thesis by (auto intro: ldisk_miss)
qed

lemma finite_held_dirtyb [simp]: "finite (held s)" "finite (dirtyb s)"
proof -
  have "held s \<subseteq> (\<lambda>i. b_blockno (bufs s ! i)) ` {..<NBUF}" by (auto simp: held_def owns_def)
  then show "finite (held s)" by (rule finite_subset) simp
  have "dirtyb s \<subseteq> (\<lambda>i. b_blockno (bufs s ! i)) ` {..<NBUF}" by (auto simp: dirtyb_def)
  then show "finite (dirtyb s)" by (rule finite_subset) simp
qed

text \<open>If fewer blocks than buffers are in use, some buffer can be recycled.\<close>

lemma free_buffer:
  assumes inv: "bio_inv s" and room: "card (held s \<union> dirtyb s) < NBUF"
  shows "\<exists>i < NBUF. b_refcnt (bufs s ! i) = 0 \<and> \<not> dirty (bufs s ! i)"
proof (rule ccontr)
  assume "\<not> ?thesis"
  then have busy: "locked (bufs s ! i) \<or> dirty (bufs s ! i)" if "i < NBUF" for i
    using bio_invD(5) [OF inv that] that by (auto simp: buf_inv_def split: if_splits)
  let ?f = "\<lambda>i. b_blockno (bufs s ! i)"
  have "caches s i (?f i)" if "i < NBUF" for i
    using bio_invD(5) [OF inv that] busy [OF that] by (auto simp: caches_def buf_inv_def)
  then have "inj_on ?f {..<NBUF}"
    by (intro inj_onI) (metis caches_unique inv lessThan_iff)
  moreover have "?f ` {..<NBUF} \<subseteq> held s \<union> dirtyb s"
    using busy by (auto simp: held_def owns_def dirtyb_def)
  ultimately have "NBUF \<le> card (held s \<union> dirtyb s)"
    by (metis card_image card_lessThan card_mono finite_Un finite_held_dirtyb)
  with room show False by simp
qed

section \<open>Specifications of the operations\<close>

text \<open>Cache routines change the buffers and their order only, and disk writes the disk.\<close>

definition bio_frame :: "'a bio_st_scheme \<Rightarrow> 'a bio_st_scheme \<Rightarrow> bool" where
  "bio_frame s s' \<longleftrightarrow> (\<exists>bs ms. s' = s\<lparr>bufs := bs, mru := ms\<rparr>)"

lemma bio_frameI: "s' = s\<lparr>bufs := bs, mru := ms\<rparr> \<Longrightarrow> bio_frame s s'"
  by (auto simp: bio_frame_def)

lemma bio_frame_disk:
  "bio_frame s s' \<Longrightarrow> memdisk s' = memdisk s \<and> disksize s' = disksize s \<and> dwrites s' = dwrites s
     \<and> mypid s' = mypid s"
  by (auto simp: bio_frame_def)

lemma bio_frame_refl [simp]: "bio_frame s s"
  by (rule bio_frameI [where bs = "bufs s" and ms = "mru s"]) simp

lemma bio_frame_trans: "bio_frame s t \<Longrightarrow> bio_frame t u \<Longrightarrow> bio_frame s u"
  unfolding bio_frame_def by (elim exE, intro exI) simp

lemma bio_frame_set_buf [simp]: "bio_frame s (set_buf i b s)"
  by (rule bio_frameI [where bs = "(bufs s)[i := b]" and ms = "mru s"]) (simp add: set_buf_def)

lemma set_buf_simps [simp]:
  "memdisk (set_buf i b s) = memdisk s" "disksize (set_buf i b s) = disksize s"
  "dwrites (set_buf i b s) = dwrites s" "mru (set_buf i b s) = mru s"
  "mypid (set_buf i b s) = mypid s" "length (bufs (set_buf i b s)) = length (bufs s)"
  by (simp_all add: set_buf_def)

lemma nth_set_buf [simp]:
  "i < length (bufs s) \<Longrightarrow> bufs (set_buf i b s) ! j = (if j = i then b else bufs s ! j)"
  by (auto simp: set_buf_def nth_list_update)

lemma caches_set_buf [simp]:
  "i < length (bufs s) \<Longrightarrow>
   caches (set_buf i b s) j c = (if j = i then b_dev b = 1 \<and> b_blockno b = c else caches s j c)"
  by (auto simp: caches_def)

lemma bio_inv_set_buf:
  assumes inv: "bio_inv s" and i: "i < NBUF"
    and b: "buf_inv (memdisk s) (disksize s) b"
    and uniq: "\<And>j. j < NBUF \<Longrightarrow> j \<noteq> i \<Longrightarrow> b_dev b = 1 \<Longrightarrow> \<not> caches s j (b_blockno b)"
  shows "bio_inv (set_buf i b s)"
proof -
  have len: "i < length (bufs s)" using i bio_invD(1) [OF inv] by simp
  have uniq': "j = k" if "j < NBUF" "k < NBUF"
    "caches (set_buf i b s) j c" "caches (set_buf i b s) k c" for j k c
    using that uniq [of j] uniq [of k] caches_unique [OF inv, of j k c] len
    by (auto split: if_splits)
  have bufs: "buf_inv (memdisk s) (disksize s) (bufs (set_buf i b s) ! j)" if "j < NBUF" for j
    using bio_invD(5) [OF inv that] b len by simp
  show ?thesis
    unfolding bio_inv_def
  proof (intro conjI allI impI)
    show "j = k" if "j < NBUF" "k < NBUF"
      "caches (set_buf i b s) j c \<and> caches (set_buf i b s) k c" for j k c
      using uniq' that by blast
  qed (use bufs bio_invD(1-4) [OF inv] in simp_all)
qed

lemma ldisk_set_buf_other:
  assumes "i < length (bufs s)" "\<not> caches s i c" "\<not> (b_dev b = 1 \<and> b_blockno b = c)"
  shows "ldisk (set_buf i b s) c = ldisk s c"
proof -
  have eq: "caches (set_buf i b s) j c = caches s j c" for j using assms by auto
  have "b_data (bufs (set_buf i b s) ! j) = b_data (bufs s ! j)" if "caches s j c" for j
    using that assms by auto
  then show ?thesis
    by (auto simp: ldisk_def eq split: option.split dest!: find_Some_mem)
qed

lemma ldisk_set_buf:
  assumes inv: "bio_inv s" "bio_inv (set_buf i b s)" and i: "i < NBUF"
    and same: "caches s i (b_blockno b)" "b_dev b = 1"
  shows "ldisk (set_buf i b s) = (ldisk s)(b_blockno b := b_data b)"
proof
  fix c
  have len: "i < length (bufs s)" using i bio_invD(1) [OF inv(1)] by simp
  show "ldisk (set_buf i b s) c = ((ldisk s)(b_blockno b := b_data b)) c"
  proof (cases "c = b_blockno b")
    case True
    then show ?thesis using ldisk_hit [OF inv(2) i, of c] same len by simp
  next
    case False
    then show ?thesis using ldisk_set_buf_other [OF len] same by (auto simp: caches_def)
  qed
qed

lemma dirtyb_set_buf:
  assumes "i < length (bufs s)" "b_blockno b = b_blockno (bufs s ! i)" "dirty b = dirty (bufs s ! i)"
  shows "dirtyb (set_buf i b s) = dirtyb s"
  using assms by (auto simp: dirtyb_def)

lemma owns_set_buf:
  "i < length (bufs s) \<Longrightarrow> owns (set_buf i b s) j c =
     (if j = i then i < NBUF \<and> locked b \<and> b_blockno b = c else owns s j c)"
  by (auto simp: owns_def)

text \<open>Taking a buffer that already caches the block.\<close>

lemma bread_hit:
  assumes inv: "bio_inv s" and i: "i < NBUF" "caches s i b" and nh: "b \<notin> held s"
  shows "bread 1 b s = Ok (i, set_buf i ((bufs s ! i)\<lparr>b_refcnt := 1,
           b_lock := (b_lock (bufs s ! i))\<lparr>sl_locked := True, sl_pid := mypid s\<rparr>\<rparr>) s)"
proof -
  have bi: "buf_inv (memdisk s) (disksize s) (bufs s ! i)" by (rule bio_invD(5) [OF inv i(1)])
  have nl: "\<not> locked (bufs s ! i)" using nh i by (auto simp: held_def owns_def caches_def)
  have v: "valid (bufs s ! i)" using bi i(2) by (auto simp: buf_inv_def caches_def)
  have len: "i < length (bufs s)" using i bio_invD(1) [OF inv] by simp
  have "find (\<lambda>j. b_dev (bufs s ! j) = 1 \<and> b_blockno (bufs s ! j) = b) (mru s) = Some i"
  proof (rule find_unique)
    show "j = i" if "j \<in> set (mru s)" "b_dev (bufs s ! j) = 1 \<and> b_blockno (bufs s ! j) = b" for j
      using caches_unique [OF inv, of j i b] that i bio_invD(3) [OF inv] by (simp add: caches_def)
  qed (use i bio_invD(3) [OF inv] in \<open>auto simp: caches_def\<close>)
  then show ?thesis
    using nl v len bi by (simp add: bread_def bget_def acquiresleep_def buf_inv_def Let_def)
qed

text \<open>Taking a buffer for a block that is not cached: some unused buffer is recycled.\<close>

lemma bread_miss:
  assumes inv: "bio_inv s" and nc: "\<And>i. i < NBUF \<Longrightarrow> \<not> caches s i b"
    and bd: "b < disksize s" and room: "card (held s \<union> dirtyb s) < NBUF"
  shows "\<exists>i < NBUF. \<not> locked (bufs s ! i) \<and> \<not> dirty (bufs s ! i) \<and>
    (\<exists>b'. bread 1 b s = Ok (i, set_buf i b' s) \<and> b_dev b' = 1 \<and> b_blockno b' = b \<and>
      valid b' \<and> \<not> dirty b' \<and> locked b' \<and> b_refcnt b' = 1 \<and> b_data b' = memdisk s b)"
proof -
  have "find (\<lambda>j. b_dev (bufs s ! j) = 1 \<and> b_blockno (bufs s ! j) = b) (mru s) = None"
    using nc bio_invD(3) [OF inv] by (auto simp: find_None_set caches_def)
  moreover obtain i where i: "find (\<lambda>i. b_refcnt (bufs s ! i) = 0 \<and>
      b_flags (bufs s ! i) AND B_DIRTY = 0) (rev (mru s)) = Some i"
    using free_buffer [OF inv room] bio_invD(3) [OF inv]
      find_exists [of _ "rev (mru s)" "\<lambda>i. b_refcnt (bufs s ! i) = 0 \<and> b_flags (bufs s ! i) AND B_DIRTY = 0"]
    by auto
  moreover have i': "i < NBUF" "b_refcnt (bufs s ! i) = 0" "\<not> dirty (bufs s ! i)"
    using find_Some_mem [OF i] bio_invD(3) [OF inv] by auto
  moreover have nl: "\<not> locked (bufs s ! i)"
    using bio_invD(5) [OF inv i'(1)] i' by (auto simp: buf_inv_def)
  moreover have "i < length (bufs s)" using i' bio_invD(1) [OF inv] by simp
  moreover have "set_buf i c (set_buf i d s) = set_buf i c s" for c d by (simp add: set_buf_def)
  ultimately show ?thesis
    using bd by (intro exI [of _ i])
      (simp add: bread_def bget_def acquiresleep_def iderw_def holdingsleep_def only_valid Let_def,
        rule exI, rule conjI, rule refl, simp)
qed

lemma bread_ok:
  assumes inv: "bio_inv s" and bd: "b < disksize s" and nh: "b \<notin> held s"
    and room: "b \<in> dirtyb s \<or> card (held s \<union> dirtyb s) < NBUF"
  shows "okP (bread 1 b s) (\<lambda>(i, t). bio_inv t \<and> bio_frame s t \<and> ldisk t = ldisk s \<and>
    dirtyb t = dirtyb s \<and> (\<forall>j c. owns t j c \<longleftrightarrow> owns s j c \<or> j = i \<and> c = b) \<and>
    (\<forall>c. \<not> owns s i c))"
proof (cases "\<exists>i < NBUF. caches s i b")
  case True
  then obtain i where i: "i < NBUF" "caches s i b" by blast
  let ?b = "(bufs s ! i)\<lparr>b_refcnt := 1,
    b_lock := (b_lock (bufs s ! i))\<lparr>sl_locked := True, sl_pid := mypid s\<rparr>\<rparr>"
  have len: "i < length (bufs s)" using i bio_invD(1) [OF inv] by simp
  have nl: "\<not> locked (bufs s ! i)" using nh i by (auto simp: held_def owns_def caches_def)
  have dev: "b_dev (bufs s ! i) = 1" "b_blockno (bufs s ! i) = b" using i(2) by (auto simp: caches_def)
  have inv': "bio_inv (set_buf i ?b s)"
  proof (rule bio_inv_set_buf [OF inv i(1)])
    show "buf_inv (memdisk s) (disksize s) ?b"
      using bio_invD(5) [OF inv i(1)] dev by (auto simp: buf_inv_def)
    show "\<not> caches s j (b_blockno ?b)" if "j < NBUF" "j \<noteq> i" for j
      using caches_unique [OF inv that(1) i(1) _ i(2)] that dev by auto
  qed
  have "ldisk (set_buf i ?b s) = ldisk s"
    using ldisk_set_buf [OF inv inv' i(1)] i(2) dev by (simp add: fun_upd_idem_iff ldisk_hit [OF inv i])
  moreover have "dirtyb (set_buf i ?b s) = dirtyb s" by (rule dirtyb_set_buf) (use len in auto)
  moreover have "owns (set_buf i ?b s) j c \<longleftrightarrow> owns s j c \<or> j = i \<and> c = b" for j c
    using nl i(1) dev len by (auto simp: owns_set_buf) (auto simp: owns_def)
  moreover have "\<not> owns s i c" for c using nl by (simp add: owns_def)
  ultimately show ?thesis using inv' by (simp add: bread_hit [OF inv i nh])
next
  case False
  then have nc: "\<And>i. i < NBUF \<Longrightarrow> \<not> caches s i b" by blast
  then have room': "card (held s \<union> dirtyb s) < NBUF" using room dirty_caches [OF inv] by blast
  from bread_miss [OF inv nc bd room'] obtain i b' where i: "i < NBUF" "\<not> locked (bufs s ! i)"
    "\<not> dirty (bufs s ! i)" and eq: "bread 1 b s = Ok (i, set_buf i b' s)"
    and b': "b_dev b' = 1" "b_blockno b' = b" "valid b'" "\<not> dirty b'" "locked b'"
      "b_refcnt b' = 1" "b_data b' = memdisk s b" by blast
  have len: "i < length (bufs s)" using i bio_invD(1) [OF inv] by simp
  have inv': "bio_inv (set_buf i b' s)"
    by (rule bio_inv_set_buf [OF inv i(1)])
      (use b' nc bd bio_invD(4) [OF inv] in \<open>auto simp: buf_inv_def\<close>)
  have "ldisk (set_buf i b' s) c = ldisk s c" for c
  proof (cases "c = b")
    case True
    then show ?thesis
      using ldisk_hit [OF inv' i(1), of c] ldisk_miss [OF nc] b' len by simp
  next
    case c: False
    show ?thesis
    proof (cases "caches s i c")
      case True
      have "ldisk s c = memdisk s c"
        using ldisk_hit [OF inv i(1) True] bio_invD(5) [OF inv i(1)] i True
        by (auto simp: buf_inv_def caches_def)
      moreover have "ldisk (set_buf i b' s) c = memdisk (set_buf i b' s) c"
        by (rule ldisk_miss) (use caches_unique [OF inv _ i(1) _ True] b' c len in auto)
      ultimately show ?thesis by simp
    next
      case False
      then show ?thesis by (intro ldisk_set_buf_other [OF len]) (use b' c in auto)
    qed
  qed
  moreover have "dirtyb (set_buf i b' s) = dirtyb s"
    using i b' len by (auto simp: dirtyb_def)
  moreover have "owns (set_buf i b' s) j c \<longleftrightarrow> owns s j c \<or> j = i \<and> c = b" for j c
    using i b' len by (auto simp: owns_set_buf) (auto simp: owns_def)
  moreover have "\<not> owns s i c" for c using i by (simp add: owns_def)
  ultimately show ?thesis using inv' by (simp add: eq fun_eq_iff)
qed

text \<open>A store into a held buffer changes the logical disk at that block only.\<close>

lemma owned_buf:
  assumes "bio_inv s" "owns s i b"
  shows "i < length (bufs s)" "b_dev (bufs s ! i) = 1" "b_blockno (bufs s ! i) = b"
    "locked (bufs s ! i)" "valid (bufs s ! i)" "b_refcnt (bufs s ! i) = 1"
  using owns_caches [OF assms] bio_invD(1,5) [OF assms(1)] assms(2)
  by (auto simp: owns_def caches_def buf_inv_def)

lemma owned_update:
  assumes inv: "bio_inv s" and own: "owns s i b"
    and b': "buf_inv (memdisk s) (disksize s) b'" "b_dev b' = 1" "b_blockno b' = b" "locked b'"
  shows "bio_inv (set_buf i b' s)" "ldisk (set_buf i b' s) = (ldisk s)(b := b_data b')"
    "owns (set_buf i b' s) j c \<longleftrightarrow> owns s j c"
proof -
  note i = owns_caches [OF inv own]
  show inv': "bio_inv (set_buf i b' s)"
    by (rule bio_inv_set_buf [OF inv i(1) b'(1)])
      (use caches_unique [OF inv _ i(1) _ i(2)] b' in auto)
  show "ldisk (set_buf i b' s) = (ldisk s)(b := b_data b')"
    using ldisk_set_buf [OF inv inv' i(1)] i(2) b' by simp
  show "owns (set_buf i b' s) j c \<longleftrightarrow> owns s j c"
    using own b' owned_buf(1) [OF inv own] by (auto simp: owns_set_buf) (auto simp: owns_def)
qed

lemma set_bdata_ok:
  assumes inv: "bio_inv s" and own: "owns s i b" and d: "length d = BSIZE"
  shows "bio_inv (set_bdata i d s)" "ldisk (set_bdata i d s) = (ldisk s)(b := d)"
    "owns (set_bdata i d s) j c \<longleftrightarrow> owns s j c" "dirtyb (set_bdata i d s) = dirtyb s"
    "bio_frame s (set_bdata i d s)"
proof -
  note i = owned_buf [OF inv own]
  have "buf_inv (memdisk s) (disksize s) ((bufs s ! i)\<lparr>b_data := d\<rparr>)"
    using bio_invD(5) [OF inv owns_caches(1) [OF inv own]] i d by (auto simp: buf_inv_def)
  note upd = owned_update [OF inv own this]
  show "bio_inv (set_bdata i d s)" "ldisk (set_bdata i d s) = (ldisk s)(b := d)"
    "owns (set_bdata i d s) j c \<longleftrightarrow> owns s j c"
    using upd i by (simp_all add: set_bdata_def)
  show "dirtyb (set_bdata i d s) = dirtyb s"
    unfolding set_bdata_def by (rule dirtyb_set_buf) (use i in auto)
  show "bio_frame s (set_bdata i d s)" by (simp add: set_bdata_def)
qed

text \<open>Setting \<open>B_DIRTY\<close> on a held buffer pins its block (\<^verbatim>\<open>log_write\<close> does this).\<close>

definition pin :: "nat \<Rightarrow> 'a bio_st_scheme \<Rightarrow> 'a bio_st_scheme" where
  "pin i s = set_buf i ((bufs s ! i)\<lparr>b_flags := b_flags (bufs s ! i) OR B_DIRTY\<rparr>) s"

lemma pin_ok:
  assumes inv: "bio_inv s" and own: "owns s i b"
  shows "bio_inv (pin i s)" "ldisk (pin i s) = ldisk s" "owns (pin i s) j c \<longleftrightarrow> owns s j c"
    "dirtyb (pin i s) = insert b (dirtyb s)" "bio_frame s (pin i s)"
proof -
  note i = owned_buf [OF inv own]
  have "buf_inv (memdisk s) (disksize s) ((bufs s ! i)\<lparr>b_flags := b_flags (bufs s ! i) OR B_DIRTY\<rparr>)"
    using bio_invD(5) [OF inv owns_caches(1) [OF inv own]] i by (auto simp: buf_inv_def)
  note upd = owned_update [OF inv own this]
  show "bio_inv (pin i s)" "ldisk (pin i s) = ldisk s" "owns (pin i s) j c \<longleftrightarrow> owns s j c"
    using upd i by (simp_all add: pin_def fun_upd_idem_iff ldisk_hit [OF inv owns_caches(1,2) [OF inv own]])
  show "dirtyb (pin i s) = insert b (dirtyb s)"
    using i owns_caches(1) [OF inv own] by (auto simp: dirtyb_def pin_def)
  show "bio_frame s (pin i s)" by (simp add: pin_def)
qed

lemma bio_inv_disk_write:
  assumes inv: "bio_inv s" and own: "owns s i b" and d: "length d = BSIZE"
  shows "bio_inv (s\<lparr>memdisk := (memdisk s)(b := d), dwrites := w\<rparr>)" (is "bio_inv ?t")
    "ldisk (s\<lparr>memdisk := (memdisk s)(b := d), dwrites := w\<rparr>) = ldisk s"
proof -
  note i = owns_caches [OF inv own] owned_buf [OF inv own]
  have caches: "caches ?t j c = caches s j c" for j c by (simp add: caches_def)
  have bufs: "buf_inv (memdisk ?t) (disksize ?t) (bufs ?t ! j)" if "j < NBUF" for j
  proof (cases "j = i")
    case True
    then show ?thesis using bio_invD(5) [OF inv that] i by (auto simp: buf_inv_def)
  next
    case False
    then have "\<not> caches s j b" using caches_unique [OF inv that i(1) _ i(2)] by auto
    then show ?thesis using bio_invD(5) [OF inv that] by (auto simp: buf_inv_def caches_def)
  qed
  show "bio_inv ?t"
    unfolding bio_inv_def caches
  proof (intro conjI allI impI)
    show "j = k" if "j < NBUF" "k < NBUF" "caches s j c \<and> caches s k c" for j k c
      using caches_unique [OF inv that(1,2)] that(3) by blast
  qed (use bufs bio_invD(1-4) [OF inv] d in simp_all)
  show "ldisk ?t = ldisk s"
  proof
    show "ldisk ?t c = ldisk s c" for c
      using find_exists [of i "[0..<NBUF]" "\<lambda>i. caches s i b"] i
      by (auto simp: ldisk_def caches split: option.split)
  qed
qed

lemma bwrite_ok:
  assumes inv: "bio_inv s" and own: "owns s i b"
  shows "okP (bwrite i s) (\<lambda>t. bio_inv t \<and> ldisk t = ldisk s \<and> dirtyb t = dirtyb s - {b} \<and>
    (\<forall>j c. owns t j c \<longleftrightarrow> owns s j c) \<and>
    bio_frame (s\<lparr>memdisk := (memdisk s)(b := ldisk s b),
                 dwrites := dwrites s @ [(b, ldisk s b)]\<rparr>) t)"
proof -
  note i = owns_caches [OF inv own] owned_buf [OF inv own]
  let ?s = "s\<lparr>memdisk := (memdisk s)(b := ldisk s b), dwrites := dwrites s @ [(b, ldisk s b)]\<rparr>"
  let ?b = "(bufs s ! i)\<lparr>b_flags := ((b_flags (bufs s ! i) OR B_DIRTY) AND NOT B_DIRTY) OR B_VALID\<rparr>"
  have ld: "ldisk s b = b_data (bufs s ! i)" by (rule ldisk_hit [OF inv i(1,2)])
  have inv1: "bio_inv ?s" and ld1: "ldisk ?s = ldisk s"
    by (rule bio_inv_disk_write [OF inv own], rule ldisk_length [OF inv])+
  have own1: "owns ?s j c \<longleftrightarrow> owns s j c" for j c by (simp add: owns_def)
  then have own1': "owns ?s i b" using own by simp
  have "buf_inv (memdisk ?s) (disksize ?s) ?b"
    using bio_invD(5) [OF inv1 i(1)] i ld by (auto simp: buf_inv_def)
  note upd = owned_update [OF inv1 own1' this]
  have eq: "bwrite i s = Ok (set_buf i ?b ?s)"
    using i ld by (simp add: bwrite_def iderw_def Let_def holdingsleep_def only_valid
        has_flag_bit, simp add: set_buf_def)
  have "dirtyb (set_buf i ?b ?s) = dirtyb s - {b}"
  proof -
    have "b_blockno (bufs s ! j) \<noteq> b" if "j < NBUF" "j \<noteq> i" "dirty (bufs s ! j)" for j
      using bio_invD(5) [OF inv that(1)] caches_unique [OF inv that(1) i(1) _ i(2)] that
      by (auto simp: buf_inv_def caches_def)
    then show ?thesis using i by (auto simp: dirtyb_def) metis
  qed
  then show ?thesis using upd i ld1 ld own1 by (simp add: eq fun_upd_idem_iff)
qed

lemma mru_update [simp]:
  "caches (s\<lparr>mru := ms\<rparr>) = caches s" "owns (s\<lparr>mru := ms\<rparr>) = owns s"
  "dirtyb (s\<lparr>mru := ms\<rparr>) = dirtyb s" "ldisk (s\<lparr>mru := ms\<rparr>) = ldisk s"
  by (simp_all add: fun_eq_iff caches_def owns_def dirtyb_def ldisk_def split: option.split)

lemma bio_inv_mru_update:
  "bio_inv s \<Longrightarrow> distinct ms \<Longrightarrow> set ms = {..<NBUF} \<Longrightarrow> bio_inv (s\<lparr>mru := ms\<rparr>)"
  unfolding bio_inv_def by (elim conjE, intro conjI) simp_all

lemma brelse_ok:
  assumes inv: "bio_inv s" and own: "owns s i b"
    and synced: "b \<in> dirtyb s \<or> memdisk s b = ldisk s b"
  shows "okP (brelse i s) (\<lambda>t. bio_inv t \<and> bio_frame s t \<and> ldisk t = ldisk s \<and>
    dirtyb t = dirtyb s \<and> (\<forall>j c. owns t j c \<longleftrightarrow> owns s j c \<and> j \<noteq> i))"
proof -
  note i = owns_caches [OF inv own] owned_buf [OF inv own]
  let ?b = "(bufs s ! i)\<lparr>b_lock := releasesleep (b_lock (bufs s ! i)), b_refcnt := 0\<rparr>"
  let ?t = "set_buf i ?b s"
  let ?u = "?t\<lparr>mru := i # remove1 i (mru s)\<rparr>"
  have dirty_i: "dirty (bufs s ! i)" if "b \<in> dirtyb s"
    using dirty_caches [OF inv that] caches_unique [OF inv _ i(1) _ i(2)] by blast
  have "buf_inv (memdisk s) (disksize s) ?b"
    using bio_invD(5) [OF inv i(1)] i synced dirty_i
    by (auto simp: buf_inv_def releasesleep_def ldisk_hit [OF inv i(1,2)])
  then have inv': "bio_inv ?t"
    by (rule bio_inv_set_buf [OF inv i(1)])
      (use caches_other [OF inv i(1,2)] i in simp)
  have ld: "ldisk ?t = ldisk s"
    using ldisk_set_buf [OF inv inv' i(1)] i
    by (simp add: fun_upd_idem_iff ldisk_hit [OF inv i(1,2)])
  have "bio_inv ?u"
    by (rule bio_inv_mru_update [OF inv']) (use bio_invD(2,3) [OF inv] i(1) in auto)
  moreover have "dirtyb ?u = dirtyb s" "ldisk ?u = ldisk s"
    using dirtyb_set_buf [OF i(4), of ?b] ld by simp_all
  moreover have "owns ?u j c \<longleftrightarrow> owns s j c \<and> j \<noteq> i" for j c
    using i by (auto simp: owns_set_buf releasesleep_def)
  moreover have "bio_frame s ?u"
    by (rule bio_frameI [where bs = "(bufs s)[i := ?b]" and ms = "i # remove1 i (mru s)"])
      (simp add: set_buf_def)
  moreover have "brelse i s = Ok ?u" using i by (simp add: brelse_def Let_def holdingsleep_def)
  ultimately show ?thesis by simp
qed

section \<open>The cache provides the block interface\<close>

text \<open>
  With \<^verbatim>\<open>bwrite\<close> as the durable store, the cache is a block layer: the observed
  rest of the state is everything below and beside the buffers, and a write changes it at the
  written block only.
\<close>

definition bio_obs :: "'a bio_st_scheme \<Rightarrow> nat \<times> (nat \<Rightarrow> byte list) \<times> nat \<times> (nat \<times> byte list) list \<times> 'a" where
  "bio_obs s = (mypid s, memdisk s, disksize s, dwrites s, bio_st.more s)"

definition obs_write ::
  "nat \<Rightarrow> byte list \<Rightarrow> nat \<times> (nat \<Rightarrow> byte list) \<times> nat \<times> (nat \<times> byte list) list \<times> 'a
   \<Rightarrow> nat \<times> (nat \<Rightarrow> byte list) \<times> nat \<times> (nat \<times> byte list) list \<times> 'a" where
  "obs_write b d ob = (case ob of (p, m, n, w, x) \<Rightarrow> (p, m(b := d), n, w @ [(b, d)], x))"

definition bio_synced :: "'a bio_st_scheme \<Rightarrow> nat \<Rightarrow> bool" where
  "bio_synced s b \<longleftrightarrow> b \<in> dirtyb s \<or> memdisk s b = ldisk s b"

lemma bio_obs_frame: "bio_frame s t \<Longrightarrow> bio_obs t = bio_obs s"
  by (auto simp: bio_frame_def bio_obs_def)

interpretation bio: block_layer bio_inv bio_obs "\<lambda>ob. {..<fst (snd (snd ob))}" owns ldisk dirtyb bio_synced
  "bread 1" bdata set_bdata bwrite brelse "\<lambda>_. True" "\<lambda>b d. d - {b}" obs_write
proof (unfold_locales, goal_cases)
  case (1 s b)
  then have bd: "b < disksize s" and nh: "b \<notin> held s"
    and room: "b \<in> dirtyb s \<or> card (held s \<union> dirtyb s) < NBUF"
    by (simp_all add: bio_obs_def held_def)
  have "bio_synced s b" using clean_on_disk [OF 1(1) nh] unfolding bio_synced_def by metis
  then show ?case
    by (intro okP_weaken [OF bread_ok [OF 1(1) bd nh room]])
      (auto simp: bio_synced_def bio_obs_frame dest: bio_frame_disk)
next
  case (2 s i b)
  then show ?case by (rule bdata_ldisk)
next
  case (3 s i b c)
  then show ?case by (simp add: owns_def)
next
  case (4 s i b d)
  then show ?case by (auto simp: set_bdata_ok fun_eq_iff intro!: bio_obs_frame)
next
  case (5 s i b)
  show ?case
    by (rule okP_weaken [OF bwrite_ok [OF 5(1,2)]])
      (auto simp: bio_synced_def obs_write_def bio_obs_def fun_eq_iff bio_frame_def)
next
  case (6 s i b)
  then show ?case
    by (intro okP_weaken [OF brelse_ok [OF 6(1,2)]])
      (auto simp: bio_synced_def intro: bio_obs_frame)
next
  case (7 s t c)
  then show ?case by (auto simp: bio_synced_def bio_obs_def)
next
  case (9 b d ob)
  then show ?case by (simp add: obs_write_def split: prod.split)
next
  case (10 s b)
  then show ?case by (rule ldisk_length)
next
  case (11 s)
  then show ?case using finite_held_dirtyb(1) by (simp add: held_def)
qed simp_all

text \<open>Only the buffers, their order and the disk matter to the cache.\<close>

lemma bio_cong:
  assumes "bufs s = bufs t" "mru s = mru t" "memdisk s = memdisk t" "disksize s = disksize t"
  shows "bio_inv s = bio_inv t" "ldisk s = ldisk t" "owns s = owns t" "dirtyb s = dirtyb t"
    "caches s = caches t"
proof -
  show c: "caches s = caches t" using assms by (simp add: fun_eq_iff caches_def)
  show "bio_inv s = bio_inv t" using assms by (simp add: bio_inv_def c)
  show "ldisk s = ldisk t" using assms by (simp add: fun_eq_iff ldisk_def c split: option.split)
  show "owns s = owns t" using assms by (simp add: fun_eq_iff owns_def)
  show "dirtyb s = dirtyb t" using assms by (simp add: dirtyb_def)
qed

text \<open>The effect of a sequence of block writes on the contents of the disk.\<close>

definition disk_apply :: "(nat \<times> byte list) list \<Rightarrow> (nat \<Rightarrow> byte list) \<Rightarrow> nat \<Rightarrow> byte list" where
  "disk_apply ws m = fold (\<lambda>(b, d) m. m(b := d)) ws m"

lemma disk_apply_simps [simp]:
  "disk_apply [] m = m" "disk_apply ((b, d) # ws) m = disk_apply ws (m(b := d))"
  "disk_apply (us @ vs) m = disk_apply vs (disk_apply us m)"
  by (simp_all add: disk_apply_def)

lemma disk_apply_notin: "b \<notin> fst ` set ws \<Longrightarrow> disk_apply ws m b = m b"
  by (induction ws arbitrary: m) auto

lemma disk_apply_in:
  "(b, d) \<in> set ws \<Longrightarrow> distinct (map fst ws) \<Longrightarrow> disk_apply ws m b = d"
proof (induction ws arbitrary: m)
  case (Cons w ws)
  obtain c e where w: "w = (c, e)" by (cases w)
  show ?case
  proof (cases "b = c")
    case True
    then have "d = e" using Cons.prems w by (auto simp: image_iff)
    moreover have "b \<notin> fst ` set ws" using Cons.prems True w by auto
    ultimately show ?thesis using True w by (simp add: disk_apply_notin)
  next
    case False
    then show ?thesis using Cons w by auto
  qed
qed simp

definition obs_writes where
  "obs_writes ws ob = fold (\<lambda>(b, d). obs_write b d) ws ob"

lemma obs_writes_eq:
  "obs_writes ws (p, m, n, w, x) = (p, disk_apply ws m, n, w @ ws, x)"
  unfolding obs_writes_def
  by (induction ws arbitrary: m w) (auto simp: obs_write_def disk_apply_def)

end
