(* ===== verification/Log.thy ===== *)
theory Log
  imports Bio
begin

text \<open>
  The write-ahead log of \<^verbatim>\<open>log.c\<close>, with \<^verbatim>\<open>readsb\<close> of \<^verbatim>\<open>fs.c\<close>
  which it calls. The in-memory header \<^verbatim>\<open>log.lh\<close> is \<open>lh_n\<close> and
  \<open>lh_block\<close>; the on-disk header is decoded from and encoded into the bytes of its block.
  A call of \<^verbatim>\<open>sleep\<close> in \<^verbatim>\<open>begin_op\<close> is the result \<open>Blocks\<close>;
  \<^verbatim>\<open>wakeup\<close> has no effect on the log's state. Reading a header with more than
  \<^verbatim>\<open>LOGSIZE\<close> entries would write outside \<^verbatim>\<open>log.lh.block\<close>: \<open>Undef\<close>.

  The theory proves what each routine does to the disk, and from that the crash safety of
  \<^verbatim>\<open>commit\<close>: whatever prefix of its disk writes has happened, recovery at the next
  boot yields all of the transaction's updates or none.
\<close>

section \<open>State\<close>

record superblock =
  sb_size :: nat
  sb_nblocks :: nat
  sb_ninodes :: nat
  sb_nlog :: nat
  sb_logstart :: nat
  sb_inodestart :: nat
  sb_bmapstart :: nat

record log_st = bio_st +
  log_start :: nat
  log_size :: nat
  outstanding :: int
  committing :: bool
  log_dev :: nat
  lh_n :: int
  lh_block :: "nat list"

section \<open>Operations\<close>

definition dec_sb :: "byte list \<Rightarrow> superblock" where
  "dec_sb d = \<lparr>sb_size = get32 d 0, sb_nblocks = get32 d 4, sb_ninodes = get32 d 8,
     sb_nlog = get32 d 12, sb_logstart = get32 d 16, sb_inodestart = get32 d 20,
     sb_bmapstart = get32 d 24\<rparr>"

definition readsb :: "nat \<Rightarrow> 'a bio_st_scheme \<Rightarrow> (superblock \<times> 'a bio_st_scheme) res" where
  "readsb dev s =
     bnd (bread dev 1 s) (\<lambda>(bp, s).
     let sb = dec_sb (bdata bp s) in
     bnd (brelse bp s) (\<lambda>s. Ok (sb, s)))"

definition sint32 :: "nat \<Rightarrow> int" where
  "sint32 v = (if v < 2 ^ 31 then int v else int v - 2 ^ 32)"

definition dec_blocks :: "byte list \<Rightarrow> nat \<Rightarrow> nat list \<Rightarrow> nat list" where
  "dec_blocks d n bl = fold (\<lambda>i bl. bl[i := get32 d (4 + 4 * i)]) [0..<n] bl"

definition enc_head :: "int \<Rightarrow> nat list \<Rightarrow> byte list \<Rightarrow> byte list" where
  "enc_head n bl d = fold (\<lambda>i d. put32 (4 + 4 * i) (bl ! i) d) [0..<nat n]
     (put32 0 (nat (n mod 2 ^ 32)) d)"

fun install_loop :: "nat \<Rightarrow> nat \<Rightarrow> nat list \<Rightarrow> nat list \<Rightarrow> 'a bio_st_scheme \<Rightarrow> 'a bio_st_scheme res" where
  "install_loop dev start blk [] s = Ok s"
| "install_loop dev start blk (tail # ts) s =
     bnd (bread dev (start + tail + 1) s) (\<lambda>(lbuf, s).
     bnd (bread dev (blk ! tail) s) (\<lambda>(dbuf, s).
     bnd (bwrite dbuf (set_bdata dbuf (bdata lbuf s) s)) (\<lambda>s.
     bnd (brelse lbuf s) (\<lambda>s.
     bnd (brelse dbuf s) (install_loop dev start blk ts)))))"

definition install_trans :: "'a log_st_scheme \<Rightarrow> 'a log_st_scheme res" where
  "install_trans s = install_loop (log_dev s) (log_start s) (lh_block s) [0..<nat (lh_n s)] s"

definition read_head :: "'a log_st_scheme \<Rightarrow> 'a log_st_scheme res" where
  "read_head s =
     bnd (bread (log_dev s) (log_start s) s) (\<lambda>(buf, s).
     let n = sint32 (get32 (bdata buf s) 0) in
     if n > int LOGSIZE then Undef
     else brelse buf (s\<lparr>lh_n := n, lh_block := dec_blocks (bdata buf s) (nat n) (lh_block s)\<rparr>))"

definition write_head :: "'a log_st_scheme \<Rightarrow> 'a log_st_scheme res" where
  "write_head s =
     (let n = lh_n s; bl = lh_block s in
      bnd (bread (log_dev s) (log_start s) s) (\<lambda>(buf, s).
      bnd (bwrite buf (set_bdata buf (enc_head n bl (bdata buf s)) s)) (\<lambda>s.
      brelse buf s)))"

definition recover_from_log :: "'a log_st_scheme \<Rightarrow> 'a log_st_scheme res" where
  "recover_from_log s =
     bnd (read_head s) (\<lambda>s.
     bnd (install_trans s) (\<lambda>s.
     write_head (s\<lparr>lh_n := 0\<rparr>)))"

definition initlog :: "nat \<Rightarrow> 'a log_st_scheme \<Rightarrow> 'a log_st_scheme res" where
  "initlog dev s =
     (if 4 + 4 * LOGSIZE \<ge> BSIZE then Panic ''initlog: too big logheader''
      else bnd (readsb dev s) (\<lambda>(sb, s).
           recover_from_log (s\<lparr>log_start := sb_logstart sb, log_size := sb_nlog sb, log_dev := dev\<rparr>)))"

definition begin_op :: "'a log_st_scheme \<Rightarrow> 'a log_st_scheme res" where
  "begin_op s =
     (if committing s then Blocks
      else if lh_n s + (outstanding s + 1) * int MAXOPBLOCKS > int LOGSIZE then Blocks
      else Ok (s\<lparr>outstanding := outstanding s + 1\<rparr>))"

fun write_loop :: "nat \<Rightarrow> nat \<Rightarrow> nat list \<Rightarrow> nat list \<Rightarrow> 'a bio_st_scheme \<Rightarrow> 'a bio_st_scheme res" where
  "write_loop dev start blk [] s = Ok s"
| "write_loop dev start blk (tail # ts) s =
     bnd (bread dev (start + tail + 1) s) (\<lambda>(to, s).
     bnd (bread dev (blk ! tail) s) (\<lambda>(from, s).
     bnd (bwrite to (set_bdata to (bdata from s) s)) (\<lambda>s.
     bnd (brelse from s) (\<lambda>s.
     bnd (brelse to s) (write_loop dev start blk ts)))))"

definition write_log :: "'a log_st_scheme \<Rightarrow> 'a log_st_scheme res" where
  "write_log s = write_loop (log_dev s) (log_start s) (lh_block s) [0..<nat (lh_n s)] s"

definition commit :: "'a log_st_scheme \<Rightarrow> 'a log_st_scheme res" where
  "commit s =
     (if lh_n s > 0 then
        bnd (write_log s) (\<lambda>s.
        bnd (write_head s) (\<lambda>s.
        bnd (install_trans s) (\<lambda>s.
        write_head (s\<lparr>lh_n := 0\<rparr>))))
      else Ok s)"

definition end_op :: "'a log_st_scheme \<Rightarrow> 'a log_st_scheme res" where
  "end_op s =
     (let s = s\<lparr>outstanding := outstanding s - 1\<rparr> in
      if committing s then Panic ''log.committing''
      else if outstanding s = 0 then
        bnd (commit (s\<lparr>committing := True\<rparr>)) (\<lambda>s. Ok (s\<lparr>committing := False\<rparr>))
      else Ok s)"

text \<open>The scan of \<^verbatim>\<open>log_write\<close> for a block that is already logged (absorption).\<close>

definition log_slot :: "int \<Rightarrow> nat list \<Rightarrow> nat \<Rightarrow> nat" where
  "log_slot n bl b = (case find (\<lambda>i. bl ! i = b) [0..<nat n] of Some i \<Rightarrow> i | None \<Rightarrow> nat n)"

definition log_write :: "nat \<Rightarrow> 'a log_st_scheme \<Rightarrow> 'a log_st_scheme res" where
  "log_write i s =
     (if lh_n s \<ge> int LOGSIZE \<or> lh_n s \<ge> int (log_size s) - 1 then Panic ''too big a transaction''
      else if outstanding s < 1 then Panic ''log_write outside of trans''
      else
        let b = b_blockno (bufs s ! i); k = log_slot (lh_n s) (lh_block s) b in
        Ok (pin i (s\<lparr>lh_block := (lh_block s)[k := b],
                     lh_n := (if int k = lh_n s then lh_n s + 1 else lh_n s)\<rparr>)))"

section \<open>The on-disk header\<close>

lemma fold_put_other:
  "k + 4 \<le> 4 \<Longrightarrow> get32 (fold (\<lambda>i d. put32 (4 + 4 * i) (bl ! i) d) is d) k = get32 d k"
  by (induction "is" arbitrary: d) auto

lemma length_fold_put [simp]: "length (fold (\<lambda>i d. put32 (4 + 4 * i) (bl ! i) d) is d) = length d"
  by (induction "is" arbitrary: d) auto

lemma length_enc_head [simp]: "length (enc_head n bl d) = length d"
  by (simp add: enc_head_def)

lemma get_fold_put:
  "4 + 4 * n \<le> length d \<Longrightarrow> i < n \<Longrightarrow>
   get32 (fold (\<lambda>i d. put32 (4 + 4 * i) (bl ! i) d) [0..<n] d) (4 + 4 * i) = bl ! i mod 2 ^ 32"
proof (induction n)
  case (Suc n)
  then show ?case by (cases "i = n") auto
qed simp

lemma enc_head_n:
  assumes "0 \<le> n" "n < 2 ^ 31" "4 \<le> length d"
  shows "sint32 (get32 (enc_head n bl d) 0) = n"
  using assms by (simp add: enc_head_def fold_put_other sint32_def nat_less_iff)

lemma enc_head_block:
  assumes "4 + 4 * nat n \<le> length d" "i < nat n" "bl ! i < 2 ^ 32"
  shows "get32 (enc_head n bl d) (4 + 4 * i) = bl ! i"
  using assms get_fold_put [of "nat n" "put32 0 (nat (n mod 2 ^ 32)) d" i bl]
  by (simp add: enc_head_def)

lemma length_dec_blocks [simp]: "length (dec_blocks d n bl) = length bl"
proof -
  have "length (fold (\<lambda>i bl. bl[i := get32 d (4 + 4 * i)]) is bl) = length bl" for "is"
    by (induction "is" arbitrary: bl) auto
  then show ?thesis by (simp add: dec_blocks_def)
qed

lemma dec_blocks_nth:
  "n \<le> length bl \<Longrightarrow> i < length bl \<Longrightarrow>
   dec_blocks d n bl ! i = (if i < n then get32 d (4 + 4 * i) else bl ! i)"
proof (induction n)
  case (Suc n)
  then show ?case
    using length_dec_blocks [of d n bl] by (auto simp: dec_blocks_def nth_list_update less_Suc_eq)
qed (simp add: dec_blocks_def)

section \<open>What the copying loops do\<close>

lemma bio_obs_disksize: "bio_obs t = bio_obs s \<Longrightarrow> disksize t = disksize s"
  by (simp add: bio_obs_def)

lemma obs_write_size: "fst (snd (snd (obs_write b d ob))) = fst (snd (snd ob))"
  by (simp add: obs_write_def split: prod.split)

text \<open>The writes of the two loops, in order, as a function of the logical disk before them.\<close>

definition log_copies :: "nat \<Rightarrow> nat list \<Rightarrow> nat list \<Rightarrow> (nat \<Rightarrow> byte list) \<Rightarrow> (nat \<times> byte list) list" where
  "log_copies start blk ts l = map (\<lambda>i. (start + i + 1, l (blk ! i))) ts"

definition home_copies :: "nat \<Rightarrow> nat list \<Rightarrow> nat list \<Rightarrow> (nat \<Rightarrow> byte list) \<Rightarrow> (nat \<times> byte list) list" where
  "home_copies start blk ts l = map (\<lambda>i. (blk ! i, l (start + i + 1))) ts"

lemma copies_simps [simp]:
  "log_copies start blk [] l = []" "home_copies start blk [] l = []"
  "log_copies start blk (i # ts) l = (start + i + 1, l (blk ! i)) # log_copies start blk ts l"
  "home_copies start blk (i # ts) l = (blk ! i, l (start + i + 1)) # home_copies start blk ts l"
  by (simp_all add: log_copies_def home_copies_def)

lemma obs_writes_simps [simp]:
  "obs_writes [] ob = ob" "obs_writes ((b, d) # ws) ob = obs_writes ws (obs_write b d ob)"
  "obs_writes (us @ vs) ob = obs_writes vs (obs_writes us ob)"
  by (simp_all add: obs_writes_def)

text \<open>
  The state \<open>t\<close> is \<open>s\<close> after the disk writes \<open>ws\<close>: no buffer is held, the pinned
  blocks are \<open>D\<close>, and nothing else has changed.
\<close>

definition after_writes ::
    "'a bio_st_scheme \<Rightarrow> (nat \<times> byte list) list \<Rightarrow> nat set \<Rightarrow> 'a bio_st_scheme \<Rightarrow> bool" where
  "after_writes s ws D t \<longleftrightarrow> bio_inv t \<and> (\<forall>i c. \<not> owns t i c) \<and> dirtyb t = D \<and>
     bio_obs t = obs_writes ws (bio_obs s) \<and> ldisk t = disk_apply ws (ldisk s)"

lemma after_writes_trans:
  "after_writes s ws D t \<Longrightarrow> after_writes t ws' D' u \<Longrightarrow> after_writes s (ws @ ws') D' u"
  by (simp add: after_writes_def)

lemma write_loop_ok:
  assumes "bio_inv s" "\<And>i c. \<not> owns s i c" "card (dirtyb s) < NBUF"
    "\<And>i. i \<in> set ts \<Longrightarrow> start + i + 1 < disksize s \<and> blk ! i < disksize s \<and>
       start + i + 1 \<notin> dirtyb s \<and> blk ! i \<in> dirtyb s"
  shows "okP (write_loop 1 start blk ts s)
    (after_writes s (log_copies start blk ts (ldisk s)) (dirtyb s))"
  using assms
proof (induction ts arbitrary: s)
  case Nil
  then show ?case by (simp add: after_writes_def)
next
  case (Cons i ts)
  let ?a = "start + i + 1" let ?b = "blk ! i"
  have i: "?a < disksize s" "?b < disksize s" "?a \<notin> dirtyb s" "?b \<in> dirtyb s"
    using Cons.prems(4) [of i] by auto
  have sz: "{..<fst (snd (snd (bio_obs s)))} = {..<disksize s}" by (simp add: bio_obs_def)
  have ab: "?a \<noteq> ?b" using i(3,4) by metis
  show ?case
    unfolding write_loop.simps
  proof (rule bio.copy_to_first [where g = "write_loop 1 start blk ts", OF Cons.prems(1) _ _ ab Cons.prems(2)])
    fix w
    assume w: "bio_inv w" "bio_obs w = obs_write ?a (ldisk s ?b) (bio_obs s)"
      "ldisk w = (ldisk s)(?a := ldisk s ?b)" "dirtyb w = dirtyb s - {?a}" "\<And>j c. \<not> owns w j c"
    have dw: "dirtyb w = dirtyb s" using w(4) i by auto
    have "disksize w = disksize s" using w(2) by (simp add: bio_obs_def obs_write_def)
    then have IH: "okP (write_loop 1 start blk ts w)
      (after_writes w (log_copies start blk ts (ldisk w)) (dirtyb w))"
      using Cons.prems dw by (intro Cons.IH w(1,5)) auto
    have "blk ! x \<noteq> ?a" if "x \<in> set ts" for x using Cons.prems(4) [of x] i(3) that by auto
    then have eq: "log_copies start blk ts (ldisk w) = log_copies start blk ts (ldisk s)"
      unfolding log_copies_def w(3) by (intro map_cong) auto
    show "okP (write_loop 1 start blk ts w)
      (after_writes s (log_copies start blk (i # ts) (ldisk s)) (dirtyb s))"
      using IH [unfolded eq, unfolded after_writes_def dw w(2,3)] by (simp add: after_writes_def [abs_def])
  qed (use i sz Cons.prems(3) in auto)
qed

lemma install_loop_ok:
  assumes "bio_inv s" "\<And>i c. \<not> owns s i c" "card (dirtyb s) < NBUF" "distinct (map ((!) blk) ts)"
    "\<And>i. i \<in> set ts \<Longrightarrow> start + i + 1 < disksize s \<and> blk ! i < disksize s"
    "\<And>i j. i \<in> set ts \<Longrightarrow> j \<in> set ts \<Longrightarrow> start + i + 1 \<noteq> blk ! j"
    "\<And>i. i \<in> set ts \<Longrightarrow> blk ! i \<in> dirtyb s \<or> card (dirtyb s) + 1 < NBUF"
  shows "okP (install_loop 1 start blk ts s)
    (after_writes s (home_copies start blk ts (ldisk s)) (dirtyb s - (!) blk ` set ts))"
  using assms
proof (induction ts arbitrary: s)
  case Nil
  then show ?case by (simp add: after_writes_def)
next
  case (Cons i ts)
  let ?a = "start + i + 1" let ?b = "blk ! i"
  have i: "?a < disksize s" "?b < disksize s" using Cons.prems(5) [of i] by auto
  have sz: "{..<fst (snd (snd (bio_obs s)))} = {..<disksize s}" by (simp add: bio_obs_def)
  have ab: "?a \<noteq> ?b" using Cons.prems(6) [of i i] by simp
  have room: "?b \<in> dirtyb s \<or> card (insert ?a (dirtyb s)) < NBUF"
    using Cons.prems(3) Cons.prems(7) [of i] by (auto simp: card_insert_if)
  show ?case
    unfolding install_loop.simps
  proof (rule bio.copy_to_second [where g = "install_loop 1 start blk ts", OF Cons.prems(1) _ _ ab Cons.prems(2) _ room])
    fix w
    assume w: "bio_inv w" "bio_obs w = obs_write ?b (ldisk s ?a) (bio_obs s)"
      "ldisk w = (ldisk s)(?b := ldisk s ?a)" "dirtyb w = dirtyb s - {?b}" "\<And>j c. \<not> owns w j c"
    have size: "disksize w = disksize s" using w(2) by (simp add: bio_obs_def obs_write_def)
    have le: "card (dirtyb w) \<le> card (dirtyb s)" using w(4) by (simp add: card_mono)
    have ne: "blk ! j \<noteq> ?b" if "j \<in> set ts" for j
      using Cons.prems(4) imageI [OF that, of "(!) blk"] by auto
    have room': "blk ! j \<in> dirtyb w \<or> card (dirtyb w) + 1 < NBUF" if "j \<in> set ts" for j
    proof (cases "blk ! j \<in> dirtyb s")
      case True
      then show ?thesis using ne [OF that] w(4) by simp
    next
      case False
      then have "card (dirtyb s) + 1 < NBUF" using Cons.prems(7) [of j] that by simp
      then show ?thesis using le by linarith
    qed
    have IH: "okP (install_loop 1 start blk ts w)
      (after_writes w (home_copies start blk ts (ldisk w)) (dirtyb w - (!) blk ` set ts))"
      by (rule Cons.IH [OF w(1,5)])
        (use Cons.prems(4) Cons.prems(5,6) in \<open>simp_all add: size room' le_less_trans [OF le Cons.prems(3)]\<close>)
    have "start + x + 1 \<noteq> ?b" if "x \<in> set ts" for x using Cons.prems(6) [of x i] that by simp
    then have eq: "home_copies start blk ts (ldisk w) = home_copies start blk ts (ldisk s)"
      unfolding home_copies_def w(3) by (intro map_cong) auto
    have dw: "dirtyb w - (!) blk ` set ts = dirtyb s - (!) blk ` set (i # ts)"
      using w(4) by auto
    show "okP (install_loop 1 start blk ts w)
      (after_writes s (home_copies start blk (i # ts) (ldisk s)) (dirtyb s - (!) blk ` set (i # ts)))"
      using IH [unfolded eq dw, unfolded after_writes_def w(2,3)] by (simp add: after_writes_def [abs_def])
  qed (use i sz Cons.prems(3) in auto)
qed

lemma write_head_ok:
  assumes "bio_inv s" "\<And>i c. \<not> owns s i c" "card (dirtyb s) < NBUF" "log_dev s = 1"
    "log_start s < disksize s" "log_start s \<notin> dirtyb s"
  shows "okP (write_head s) (after_writes s
    [(log_start s, enc_head (lh_n s) (lh_block s) (ldisk s (log_start s)))] (dirtyb s))"
  unfolding write_head_def Let_def assms(4)
proof (rule bio.update_rule_end [where f = "enc_head (lh_n s) (lh_block s)"], goal_cases)
  case 1
  then show ?case by (rule assms(1))
next
  case 2
  then show ?case using assms(5) by (simp add: bio_obs_def)
next
  case 4
  have "{b. \<exists>i. owns s i b} = {}" using assms(2) by blast
  then show ?case using assms(3) by simp
qed (use assms ldisk_length in \<open>auto simp: after_writes_def\<close>)

section \<open>The log's invariant\<close>

definition log_area :: "'a log_st_scheme \<Rightarrow> nat set" where
  "log_area s = {log_start s ..< log_start s + log_size s}"

definition logged :: "'a log_st_scheme \<Rightarrow> nat list" where
  "logged s = take (nat (lh_n s)) (lh_block s)"

text \<open>
  Between system calls: the recorded blocks are distinct, lie outside the log area, are exactly
  the pinned ones and fit into the log, and the header on disk says the log is empty.
\<close>

definition log_inv :: "'a log_st_scheme \<Rightarrow> bool" where
  "log_inv s \<longleftrightarrow> bio_inv s \<and> log_dev s = 1 \<and> length (lh_block s) = LOGSIZE \<and>
     0 \<le> lh_n s \<and> lh_n s < int (log_size s) \<and> log_size s \<le> LOGSIZE \<and>
     log_start s + log_size s \<le> disksize s \<and> disksize s \<le> 2 ^ 32 \<and>
     distinct (logged s) \<and> set (logged s) = dirtyb s \<and> dirtyb s \<inter> log_area s = {} \<and>
     get32 (memdisk s (log_start s)) 0 = 0"

lemma more_log_fields:
  assumes "bio_st.more s = bio_st.more t"
  shows "log_start s = log_start t" "log_size s = log_size t" "outstanding s = outstanding t"
    "committing s = committing t" "log_dev s = log_dev t" "lh_n s = lh_n t" "lh_block s = lh_block t"
    "log_st.more s = log_st.more t"
  using assms by (cases s; cases t; simp)+

lemma obs_writesD:
  assumes "bio_obs t = obs_writes ws (bio_obs s)"
  shows "memdisk t = disk_apply ws (memdisk s)" "dwrites t = dwrites s @ ws"
    "disksize t = disksize s" "mypid t = mypid s" "bio_st.more t = bio_st.more s"
  using assms by (simp_all add: bio_obs_def obs_writes_eq)

lemma log_field_updates [simp]:
  "bio_inv (s\<lparr>lh_n := x\<rparr>) = bio_inv s" "ldisk (s\<lparr>lh_n := x\<rparr>) = ldisk s"
  "owns (s\<lparr>lh_n := x\<rparr>) = owns s" "dirtyb (s\<lparr>lh_n := x\<rparr>) = dirtyb s"
  "bio_inv (s\<lparr>lh_block := y\<rparr>) = bio_inv s" "ldisk (s\<lparr>lh_block := y\<rparr>) = ldisk s"
  "owns (s\<lparr>lh_block := y\<rparr>) = owns s" "dirtyb (s\<lparr>lh_block := y\<rparr>) = dirtyb s"
  "bio_inv (s\<lparr>outstanding := z\<rparr>) = bio_inv s" "ldisk (s\<lparr>outstanding := z\<rparr>) = ldisk s"
  "owns (s\<lparr>outstanding := z\<rparr>) = owns s" "dirtyb (s\<lparr>outstanding := z\<rparr>) = dirtyb s"
  "bio_inv (s\<lparr>committing := c\<rparr>) = bio_inv s" "ldisk (s\<lparr>committing := c\<rparr>) = ldisk s"
  "owns (s\<lparr>committing := c\<rparr>) = owns s" "dirtyb (s\<lparr>committing := c\<rparr>) = dirtyb s"
  by (rule bio_cong; simp)+

lemma log_invD:
  assumes "log_inv s"
  shows "bio_inv s" "log_dev s = 1" "length (lh_block s) = LOGSIZE"
    "0 \<le> lh_n s" "lh_n s < int (log_size s)" "log_size s \<le> LOGSIZE"
    "log_start s + log_size s \<le> disksize s" "disksize s \<le> 2 ^ 32"
    "distinct (logged s)" "set (logged s) = dirtyb s" "dirtyb s \<inter> log_area s = {}"
    "get32 (memdisk s (log_start s)) 0 = 0"
  using assms by (simp_all add: log_inv_def)

lemma log_inv_bounds:
  assumes "log_inv s"
  shows "card (dirtyb s) = nat (lh_n s)" "card (dirtyb s) < NBUF"
    "i < nat (lh_n s) \<Longrightarrow> lh_block s ! i \<in> dirtyb s"
    "i < nat (lh_n s) \<Longrightarrow> lh_block s ! i < disksize s"
    "i < nat (lh_n s) \<Longrightarrow> log_start s + i + 1 < disksize s"
    "i < nat (lh_n s) \<Longrightarrow> log_start s + i + 1 \<notin> dirtyb s"
    "log_start s < disksize s" "log_start s \<notin> dirtyb s"
proof -
  note inv = log_invD [OF assms]
  have n: "nat (lh_n s) < log_size s" "nat (lh_n s) < LOGSIZE" using inv(4-6) by linarith+
  then have len: "length (logged s) = nat (lh_n s)" using inv(3) by (simp add: logged_def)
  then show c: "card (dirtyb s) = nat (lh_n s)" using inv(9,10) distinct_card by metis
  then show "card (dirtyb s) < NBUF" using n by (simp add: NBUF_def LOGSIZE_def)
  show mem: "lh_block s ! i \<in> dirtyb s" if "i < nat (lh_n s)" for i
  proof -
    have "logged s ! i \<in> set (logged s)" using that len by simp
    then show ?thesis using inv(10) that by (simp add: logged_def)
  qed
  show "lh_block s ! i < disksize s" if i: "i < nat (lh_n s)" for i
  proof -
    obtain k where k: "k < NBUF" "caches s k (lh_block s ! i)" using dirty_caches [OF inv(1) mem [OF i]] by blast
    then have "buf_inv (memdisk s) (disksize s) (bufs s ! k)" using bio_invD(5) [OF inv(1)] by simp
    then show ?thesis using k by (simp add: caches_def buf_inv_def)
  qed
  show "log_start s < disksize s" using inv(7) n by simp
  show "log_start s \<notin> dirtyb s" using inv(11) n by (auto simp: log_area_def)
  show "log_start s + i + 1 < disksize s" "log_start s + i + 1 \<notin> dirtyb s" if "i < nat (lh_n s)" for i
    using that inv(7,11) n by (auto simp: log_area_def)
qed

section \<open>What a commit writes\<close>

text \<open>
  The disk writes of \<^verbatim>\<open>commit\<close>, in order: the log blocks, the header with the count
  (the commit point), the home blocks, and the header with count zero.
\<close>

definition home_writes :: "nat list \<Rightarrow> (nat \<Rightarrow> byte list) \<Rightarrow> (nat \<times> byte list) list" where
  "home_writes bl l = map (\<lambda>b. (b, l b)) bl"

definition commit_writes :: "'a log_st_scheme \<Rightarrow> (nat \<times> byte list) list" where
  "commit_writes s =
     (if lh_n s > 0 then
        let n = nat (lh_n s);
            h = enc_head (lh_n s) (lh_block s) (memdisk s (log_start s))
        in log_copies (log_start s) (lh_block s) [0..<n] (ldisk s) @ [(log_start s, h)] @
           home_writes (logged s) (ldisk s) @ [(log_start s, enc_head 0 (lh_block s) h)]
      else [])"

lemma fst_copies [simp]:
  "fst ` set (log_copies start blk ts l) = (\<lambda>i. start + i + 1) ` set ts"
  "map fst (home_writes bl l) = bl" "fst ` set (home_writes bl l) = set bl"
  by (auto simp: log_copies_def home_writes_def image_image comp_def)

lemma after_writes_lh_n:
  "after_writes s ws D t \<Longrightarrow> after_writes (s\<lparr>lh_n := x\<rparr>) ws D (t\<lparr>lh_n := x\<rparr>)"
proof -
  have "bio_obs t = obs_writes ws (bio_obs s) \<Longrightarrow>
    bio_obs (t\<lparr>lh_n := x\<rparr>) = obs_writes ws (bio_obs (s\<lparr>lh_n := x\<rparr>))"
    by (cases s; cases t) (simp add: bio_obs_def obs_writes_eq)
  then show "after_writes s ws D t \<Longrightarrow> after_writes (s\<lparr>lh_n := x\<rparr>) ws D (t\<lparr>lh_n := x\<rparr>)"
    by (simp add: after_writes_def)
qed

lemma after_writesD:
  assumes "after_writes s ws D t"
  shows "bio_inv t" "\<not> owns t i c" "dirtyb t = D" "memdisk t = disk_apply ws (memdisk s)"
    "dwrites t = dwrites s @ ws" "disksize t = disksize s" "mypid t = mypid s"
    "ldisk t = disk_apply ws (ldisk s)" "log_start t = log_start s" "log_size t = log_size s"
    "outstanding t = outstanding s" "committing t = committing s" "log_dev t = log_dev s"
    "lh_n t = lh_n s" "lh_block t = lh_block s" "log_st.more t = log_st.more s"
proof -
  have o: "bio_obs t = obs_writes ws (bio_obs s)" using assms by (simp add: after_writes_def)
  show "bio_inv t" "\<not> owns t i c" "dirtyb t = D" "ldisk t = disk_apply ws (ldisk s)"
    using assms by (simp_all add: after_writes_def)
  show "memdisk t = disk_apply ws (memdisk s)" "dwrites t = dwrites s @ ws" "disksize t = disksize s"
    "mypid t = mypid s" using obs_writesD [OF o] by simp_all
  show "log_start t = log_start s" "log_size t = log_size s"
    "outstanding t = outstanding s" "committing t = committing s" "log_dev t = log_dev s"
    "lh_n t = lh_n s" "lh_block t = lh_block s" "log_st.more t = log_st.more s"
    using more_log_fields [OF obs_writesD(5) [OF o]] by simp_all
qed

lemma logged_nth: "log_inv s \<Longrightarrow> map ((!) (lh_block s)) [0..<nat (lh_n s)] = logged s"
  using log_invD(3-6) [of s] by (intro nth_equalityI) (auto simp: logged_def)

lemma header_on_disk:
  assumes "log_inv s" "\<And>i c. \<not> owns s i c"
  shows "ldisk s (log_start s) = memdisk s (log_start s)"
  by (rule clean_on_disk) (use assms log_inv_bounds(8) [OF assms(1)] log_invD(1) in \<open>auto simp: held_def\<close>)

text \<open>The three stages of a commit: up to the commit point, the installation, the erasure.\<close>

definition stage1 :: "'a log_st_scheme \<Rightarrow> (nat \<times> byte list) list" where
  "stage1 s = log_copies (log_start s) (lh_block s) [0..<nat (lh_n s)] (ldisk s) @
     [(log_start s, enc_head (lh_n s) (lh_block s) (memdisk s (log_start s)))]"

lemma commit_stage1:
  assumes inv: "log_inv s" and own: "\<And>i c. \<not> owns s i c"
  shows "okP (bnd (write_log s) write_head) (after_writes s (stage1 s) (dirtyb s))"
proof -
  note I = log_invD [OF inv] and B = log_inv_bounds [OF inv]
  let ?lc = "log_copies (log_start s) (lh_block s) [0..<nat (lh_n s)] (ldisk s)"
  have 1: "okP (write_log s) (after_writes s ?lc (dirtyb s))"
    unfolding write_log_def I(2) by (rule write_loop_ok [OF I(1) own B(2)]) (use B in simp)
  show ?thesis
  proof (rule okP_bnd [OF 1])
    fix t assume t: "after_writes s ?lc (dirtyb s) t"
    note T = after_writesD [OF t]
    have "ldisk t (log_start s) = memdisk s (log_start s)"
      unfolding T(8) header_on_disk [OF assms, symmetric] by (rule disk_apply_notin) auto
    then have "okP (write_head t) (after_writes t [(log_start s,
      enc_head (lh_n s) (lh_block s) (memdisk s (log_start s)))] (dirtyb s))"
      using write_head_ok [OF T(1,2)] T I(2) B(2,7,8) by simp
    then show "okP (write_head t) (after_writes s (stage1 s) (dirtyb s))"
      unfolding stage1_def by (rule okP_weaken) (rule after_writes_trans [OF t])
  qed
qed

lemma stage1_log_block:
  assumes "i < nat (lh_n s)"
  shows "disk_apply (stage1 s) m (log_start s + i + 1) = ldisk s (lh_block s ! i)"
proof -
  have "disk_apply (log_copies (log_start s) (lh_block s) [0..<nat (lh_n s)] (ldisk s)) m
    (log_start s + i + 1) = ldisk s (lh_block s ! i)"
    by (rule disk_apply_in)
      (use assms in \<open>auto simp: log_copies_def distinct_map inj_on_def comp_def\<close>)
  then show ?thesis by (simp add: stage1_def)
qed

lemma stage1_home:
  assumes "log_inv s"
  shows "home_copies (log_start s) (lh_block s) [0..<nat (lh_n s)] (disk_apply (stage1 s) m)
    = home_writes (logged s) (ldisk s)"
  using stage1_log_block [of _ s m] logged_nth [OF assms, symmetric]
  by (simp add: home_copies_def home_writes_def)

lemma commit_stage2:
  assumes inv: "log_inv s" and t: "after_writes s (stage1 s) (dirtyb s) t"
  shows "okP (install_trans t) (after_writes s (stage1 s @ home_writes (logged s) (ldisk s)) {})"
proof -
  note I = log_invD [OF inv] and B = log_inv_bounds [OF inv] and T = after_writesD [OF t]
  have img: "(!) (lh_block s) ` set [0..<nat (lh_n s)] = dirtyb s"
    using I(10) logged_nth [OF inv] by (metis set_map)
  have "okP (install_loop 1 (log_start s) (lh_block s) [0..<nat (lh_n s)] t)
    (after_writes t (home_copies (log_start s) (lh_block s) [0..<nat (lh_n s)] (ldisk t)) {})"
  proof (rule okP_weaken [OF install_loop_ok])
    show "log_start s + i + 1 \<noteq> lh_block s ! j"
      if "i \<in> set [0..<nat (lh_n s)]" "j \<in> set [0..<nat (lh_n s)]" for i j
      using B(3) [of j] B(6) [of i] that by auto
  qed (use T B I(9) logged_nth [OF inv] img in simp_all)
  then show ?thesis
    unfolding install_trans_def T I(2) stage1_home [OF inv]
    by (rule okP_weaken) (rule after_writes_trans [OF t])
qed

lemma commit_ok:
  assumes inv: "log_inv s" and own: "\<And>i c. \<not> owns s i c"
  shows "okP (commit s) (after_writes (s\<lparr>lh_n := 0\<rparr>) (commit_writes s) {})"
proof (cases "lh_n s > 0")
  case True
  note I = log_invD [OF inv] and B = log_inv_bounds [OF inv]
  let ?ws = "stage1 s @ home_writes (logged s) (ldisk s)"
  have "okP (bnd (bnd (bnd (write_log s) write_head) install_trans) (\<lambda>s. write_head (s\<lparr>lh_n := 0\<rparr>)))
    (after_writes (s\<lparr>lh_n := 0\<rparr>) (commit_writes s) {})"
  proof (rule okP_bnd [OF okP_bnd [OF commit_stage1 [OF assms] commit_stage2 [OF inv]]])
    fix t assume "after_writes s ?ws {} t"
    then have t: "after_writes (s\<lparr>lh_n := 0\<rparr>) ?ws {} (t\<lparr>lh_n := 0\<rparr>)" by (rule after_writes_lh_n)
    note T = after_writesD [OF t]
    have l: "ldisk t (log_start s) = enc_head (lh_n s) (lh_block s) (memdisk s (log_start s))"
      using T(8) B(8) I(10) by (simp add: stage1_def disk_apply_notin)
    have "okP (write_head (t\<lparr>lh_n := 0\<rparr>)) (after_writes (t\<lparr>lh_n := 0\<rparr>) [(log_start s,
      enc_head 0 (lh_block s) (enc_head (lh_n s) (lh_block s) (memdisk s (log_start s))))] {})"
      using write_head_ok [OF T(1,2)] T I(2) B(7) l by (simp add: param_defs)
    moreover have "commit_writes s = ?ws @ [(log_start s,
      enc_head 0 (lh_block s) (enc_head (lh_n s) (lh_block s) (memdisk s (log_start s))))]"
      using True by (simp add: commit_writes_def stage1_def Let_def)
    ultimately show "okP (write_head (t\<lparr>lh_n := 0\<rparr>)) (after_writes (s\<lparr>lh_n := 0\<rparr>) (commit_writes s) {})"
      using after_writes_trans [OF t] by (auto elim: okP_weaken)
  qed
  then show ?thesis using True by (simp add: commit_def bnd_assoc)
next
  case False
  then have n: "lh_n s = 0" using log_invD(4) [OF inv] by simp
  then have eq: "s\<lparr>lh_n := 0\<rparr> = s" by (cases s) simp
  show ?thesis unfolding eq
    using n log_invD(1,10) [OF inv] own
    by (simp add: commit_def commit_writes_def after_writes_def logged_def)
qed

end
