(* ===== verification/Crash.thy ===== *)
theory Crash
  imports Log
begin

text \<open>
  Recovery and crash safety of the log. A crash loses the buffers and keeps the disk; the next
  boot starts with zeroed memory (\<open>boot_st\<close>), runs \<^verbatim>\<open>binit\<close> and then
  \<^verbatim>\<open>initlog\<close>. \<open>recovery_writes\<close> is what recovery writes as a function of
  the disk alone. A commit is shown to write the log, then the header, then exactly what recovery
  would write from there; so every prefix of a commit, and every prefix of a recovery that was
  itself interrupted, recovers to the state before or to the state after the transaction.
\<close>

section \<open>The disk as the next boot sees it\<close>

definition zero_buf :: buf where
  "zero_buf = \<lparr>b_flags = 0, b_dev = 0, b_blockno = 0, b_lock = \<lparr>sl_locked = False, sl_pid = 0\<rparr>,
     b_refcnt = 0, b_data = replicate BSIZE 0\<rparr>"

definition boot_st :: "nat \<Rightarrow> (nat \<Rightarrow> byte list) \<Rightarrow> nat \<Rightarrow> log_st" where
  "boot_st p m n = \<lparr>mypid = p, memdisk = m, disksize = n, dwrites = [],
     bufs = replicate NBUF zero_buf, mru = [], log_start = 0, log_size = 0, outstanding = 0,
     committing = False, log_dev = 0, lh_n = 0, lh_block = replicate LOGSIZE 0\<rparr>"

definition hdr_n :: "nat \<Rightarrow> (nat \<Rightarrow> byte list) \<Rightarrow> int" where
  "hdr_n st m = sint32 (get32 (m st) 0)"

definition hdr_blocks :: "nat \<Rightarrow> (nat \<Rightarrow> byte list) \<Rightarrow> nat list" where
  "hdr_blocks st m = map (\<lambda>i. get32 (m st) (4 + 4 * i)) [0..<nat (hdr_n st m)]"

definition recovery_writes :: "nat \<Rightarrow> (nat \<Rightarrow> byte list) \<Rightarrow> (nat \<times> byte list) list" where
  "recovery_writes st m =
     home_copies st (hdr_blocks st m) [0..<length (hdr_blocks st m)] m @ [(st, put32 0 0 (m st))]"

definition redo :: "nat \<Rightarrow> (nat \<Rightarrow> byte list) \<Rightarrow> nat \<Rightarrow> byte list" where
  "redo st m = disk_apply (recovery_writes st m) m"

definition log_blocks :: "nat \<Rightarrow> nat \<Rightarrow> nat set" where
  "log_blocks st sz = {st ..< st + sz}"

text \<open>A disk with a superblock, a log area of \<open>sz\<close> blocks at \<open>st\<close> and a legal header.\<close>

definition wf_disk :: "nat \<Rightarrow> nat \<Rightarrow> nat \<Rightarrow> (nat \<Rightarrow> byte list) \<Rightarrow> bool" where
  "wf_disk st sz n m \<longleftrightarrow>
     (\<forall>b. length (m b) = BSIZE) \<and> 1 < n \<and> n \<le> 2 ^ 32 \<and> sz \<le> LOGSIZE \<and> st + sz \<le> n \<and>
     sb_logstart (dec_sb (m 1)) = st \<and> sb_nlog (dec_sb (m 1)) = sz \<and> 1 \<notin> log_blocks st sz \<and>
     0 \<le> hdr_n st m \<and> hdr_n st m < int sz \<and> distinct (hdr_blocks st m) \<and>
     1 \<notin> set (hdr_blocks st m) \<and> set (hdr_blocks st m) \<inter> log_blocks st sz = {} \<and>
     (\<forall>b \<in> set (hdr_blocks st m). b < n)"

section \<open>Recovery\<close>

lemma fold_Cons: "fold (\<lambda>i xs. i # xs) is ys = rev is @ ys"
  by (induction "is" arbitrary: ys) auto

lemma binit_boot:
  assumes "\<And>b. length (m b) = BSIZE"
  shows "bio_inv (binit (boot_st p m n))" "\<not> owns (binit (boot_st p m n)) i c"
    "dirtyb (binit (boot_st p m n)) = {}" "ldisk (binit (boot_st p m n)) = m"
    "disksize (binit (boot_st p m n)) = n" "memdisk (binit (boot_st p m n)) = m"
    "dwrites (binit (boot_st p m n)) = []" "outstanding (binit (boot_st p m n)) = 0"
    "\<not> committing (binit (boot_st p m n))" "lh_block (binit (boot_st p m n)) = replicate LOGSIZE 0"
proof -
  let ?s = "binit (boot_st p m n)"
  have b: "bufs ?s ! i = zero_buf\<lparr>b_lock := initsleeplock (b_lock zero_buf)\<rparr>" if "i < NBUF" for i
    using that by (simp add: binit_def boot_st_def)
  have nc: "\<not> caches ?s i c" if "i < NBUF" for i c
    using b [OF that] by (simp add: caches_def zero_buf_def)
  have bi: "buf_inv m n (bufs ?s ! i)" if "i < NBUF" for i
    using b [OF that] by (simp add: buf_inv_def zero_buf_def sleeplock_defs)
  show "memdisk ?s = m" "disksize ?s = n" "dwrites ?s = []" "outstanding ?s = 0" "\<not> committing ?s"
    "lh_block ?s = replicate LOGSIZE 0"
    by (simp_all add: binit_def boot_st_def)
  then show "bio_inv ?s" unfolding bio_inv_def
    using assms bi nc by (auto simp: binit_def boot_st_def fold_Cons)
  show "\<not> owns ?s i c" using b [of i] by (auto simp: owns_def zero_buf_def sleeplock_defs)
  show "dirtyb ?s = {}" using b by (auto simp: dirtyb_def zero_buf_def)
  show "ldisk ?s = m" using ldisk_miss [OF nc] \<open>memdisk ?s = m\<close> by auto
qed

lemma readsb_ok:
  assumes "bio_inv s" "\<And>i c. \<not> owns s i c" "dirtyb s = {}" "1 < disksize s"
  shows "okP (readsb 1 s) (\<lambda>(sb, t). sb = dec_sb (ldisk s 1) \<and> after_writes s [] {} t)"
proof -
  have "okP (bnd (bread 1 1 s) (\<lambda>(i, t). bnd (brelse i t) (\<lambda>u. (\<lambda>d u. Ok (dec_sb d, u)) (bdata i t) u)))
    (\<lambda>(sb, t). sb = dec_sb (ldisk s 1) \<and> after_writes s [] {} t)"
    by (rule bio.read_rule) (use assms in \<open>auto simp: bio_obs_def param_defs after_writes_def\<close>)
  then show ?thesis by (simp add: readsb_def Let_def)
qed

lemma brelse_lh:
  "brelse i (s\<lparr>lh_n := n, lh_block := bl\<rparr>) = bnd (brelse i s) (\<lambda>t. Ok (t\<lparr>lh_n := n, lh_block := bl\<rparr>))"
  by (simp add: brelse_def Let_def set_buf_def)

lemma after_writes_lh:
  "after_writes s ws D t \<Longrightarrow>
   after_writes (s\<lparr>lh_n := x, lh_block := bl\<rparr>) ws D (t\<lparr>lh_n := x, lh_block := bl\<rparr>)"
proof -
  have "bio_obs t = obs_writes ws (bio_obs s) \<Longrightarrow>
    bio_obs (t\<lparr>lh_n := x, lh_block := bl\<rparr>) = obs_writes ws (bio_obs (s\<lparr>lh_n := x, lh_block := bl\<rparr>))"
    by (cases s; cases t) (simp add: bio_obs_def obs_writes_eq)
  then show "after_writes s ws D t \<Longrightarrow>
    after_writes (s\<lparr>lh_n := x, lh_block := bl\<rparr>) ws D (t\<lparr>lh_n := x, lh_block := bl\<rparr>)"
    by (simp add: after_writes_def)
qed

lemma read_head_ok:
  fixes s :: "'a log_st_scheme"
  assumes s: "bio_inv s" "\<And>i c. \<not> owns s i c" "dirtyb s = {}" "log_dev s = 1" "log_start s < disksize s"
    and n: "n = hdr_n (log_start s) (ldisk s)" "n \<le> int LOGSIZE"
  shows "okP (read_head s) (after_writes (s\<lparr>lh_n := n,
    lh_block := dec_blocks (ldisk s (log_start s)) (nat n) (lh_block s)\<rparr>) [] {})"
  unfolding read_head_def s(4)
proof (rule okP_bnd [OF bio.get_ok [OF s(1)]], goal_cases)
  case (4 r)
  then obtain i t where r: "r = (i, t)" and t: "bio_inv t" "bio_obs t = bio_obs s" "ldisk t = ldisk s"
    "dirtyb t = {}" "\<And>j c. owns t j c \<longleftrightarrow> j = i \<and> c = log_start s" "bio_synced t (log_start s)"
    using s(2,3) by auto
  have own: "owns t i (log_start s)" using t(5) by simp
  have d: "bdata i t = ldisk s (log_start s)" using bdata_ldisk [OF t(1) own] t(3) by simp
  have bl: "lh_block t = lh_block s" using t(2) by (auto simp: bio_obs_def intro: more_log_fields)
  have rel: "okP (brelse i t) (after_writes s [] {})"
    by (rule okP_weaken [OF bio.rel_ok [OF t(1) own t(6)]]) (use t in \<open>auto simp: after_writes_def\<close>)
  have "okP (bnd (brelse i t) (\<lambda>t. Ok (t\<lparr>lh_n := n,
      lh_block := dec_blocks (ldisk s (log_start s)) (nat n) (lh_block s)\<rparr>)))
    (after_writes (s\<lparr>lh_n := n,
    lh_block := dec_blocks (ldisk s (log_start s)) (nat n) (lh_block s)\<rparr>) [] {})"
    by (rule okP_bnd [OF rel]) (simp add: after_writes_lh)
  then show ?case using r n d bl by (simp add: hdr_n_def brelse_lh Let_def)
qed (use s in \<open>auto simp: bio_obs_def param_defs\<close>)

lemma home_copies_take:
  assumes "\<And>i. i \<in> set ts \<Longrightarrow> blk ! i = blk' ! i"
  shows "home_copies st blk ts l = home_copies st blk' ts l"
  using assms by (simp add: home_copies_def)

lemma fst_home_copies [simp]:
  "map fst (home_copies st bl [0..<length bl] m) = bl"
  "fst ` set (home_copies st bl [0..<length bl] m) = set bl"
proof -
  show "map fst (home_copies st bl [0..<length bl] m) = bl"
    by (simp add: home_copies_def comp_def map_nth)
  then show "fst ` set (home_copies st bl [0..<length bl] m) = set bl" by (metis set_map)
qed

lemma lh_update_swap: "s\<lparr>lh_n := n, lh_block := bl\<rparr> = s\<lparr>lh_block := bl, lh_n := n\<rparr>"
  by (cases s) simp

lemma enc_head_0 [simp]: "enc_head 0 bl d = put32 0 0 d"
  by (simp add: enc_head_def)

lemma recover_install:
  fixes s :: "'a log_st_scheme"
  assumes s: "bio_inv s" "\<And>i c. \<not> owns s i c" "dirtyb s = {}" "log_dev s = 1"
      "length (lh_block s) = LOGSIZE"
    and wf: "wf_disk (log_start s) (log_size s) (disksize s) (ldisk s)"
  shows "okP (bnd (read_head s) install_trans) (\<lambda>t. \<exists>n bl. length bl = LOGSIZE \<and>
    after_writes (s\<lparr>lh_block := bl, lh_n := n\<rparr>)
      (home_copies (log_start s) (hdr_blocks (log_start s) (ldisk s))
        [0..<length (hdr_blocks (log_start s) (ldisk s))] (ldisk s)) {} t)"
proof -
  let ?st = "log_start s" and ?m = "ldisk s" let ?n = "hdr_n ?st ?m" let ?hb = "hdr_blocks ?st ?m"
  let ?bl = "dec_blocks (?m ?st) (nat ?n) (lh_block s)"
  have W: "?st + log_size s \<le> disksize s" "0 \<le> ?n" "?n < int (log_size s)" "log_size s \<le> LOGSIZE"
    "distinct ?hb" "set ?hb \<inter> log_blocks ?st (log_size s) = {}" "\<forall>b \<in> set ?hb. b < disksize s"
    using wf by (simp_all add: wf_disk_def)
  have len: "length ?hb = nat ?n" by (simp add: hdr_blocks_def)
  have bl: "?bl ! i = ?hb ! i" if "i < nat ?n" for i
    using that W s(5) by (simp add: hdr_blocks_def dec_blocks_nth)
  have mp: "map ((!) ?bl) [0..<nat ?n] = ?hb" using bl len by (intro nth_equalityI) auto
  have hc: "home_copies ?st ?bl [0..<nat ?n] ?m = home_copies ?st ?hb [0..<length ?hb] ?m"
    unfolding len by (rule home_copies_take) (use bl in simp)
  let ?s1 = "s\<lparr>lh_n := ?n, lh_block := ?bl\<rparr>"
  have "okP (read_head s) (after_writes ?s1 [] {})"
    by (rule read_head_ok [OF s(1-4) _ refl]) (use W in auto)
  then show ?thesis
  proof (rule okP_bnd)
    fix t assume t: "after_writes ?s1 [] {} t"
    note T = after_writesD [OF t, simplified]
    have "okP (install_loop 1 ?st ?bl [0..<nat ?n] t)
      (after_writes t (home_copies ?st ?bl [0..<nat ?n] (ldisk t)) (dirtyb t - (!) ?bl ` set [0..<nat ?n]))"
    proof (rule install_loop_ok)
      have mem: "?bl ! i \<in> set ?hb" if "i < nat ?n" for i using bl that len by simp
      show "?st + i + 1 \<noteq> ?bl ! j" if "i \<in> set [0..<nat ?n]" "j \<in> set [0..<nat ?n]" for i j
        using mem [of j] W(3,6) that by (auto simp: log_blocks_def)
      show "?st + i + 1 < disksize t \<and> ?bl ! i < disksize t" if "i \<in> set [0..<nat ?n]" for i
        using mem [of i] W(1,3,7) that T by auto
    qed (use T mp W(5) in \<open>simp_all add: param_defs\<close>)
    then have "okP (install_trans t) (after_writes ?s1 (home_copies ?st ?hb [0..<length ?hb] ?m) {})"
      unfolding install_trans_def
      using T s(4) hc after_writes_trans [OF t] by (auto elim!: okP_weaken)
    then show "okP (install_trans t) (\<lambda>t. \<exists>n bl. length bl = LOGSIZE \<and>
      after_writes (s\<lparr>lh_block := bl, lh_n := n\<rparr>) (home_copies ?st ?hb [0..<length ?hb] ?m) {} t)"
      by (rule okP_weaken) (intro exI [of _ ?n] exI [of _ ?bl], use s(5) in \<open>simp add: lh_update_swap\<close>)
  qed
qed

lemma recover_ok:
  fixes s :: "'a log_st_scheme"
  assumes s: "bio_inv s" "\<And>i c. \<not> owns s i c" "dirtyb s = {}" "log_dev s = 1"
      "length (lh_block s) = LOGSIZE"
    and wf: "wf_disk (log_start s) (log_size s) (disksize s) (ldisk s)"
  shows "okP (recover_from_log s) (\<lambda>t. \<exists>bl. length bl = LOGSIZE \<and>
    after_writes (s\<lparr>lh_block := bl, lh_n := 0\<rparr>) (recovery_writes (log_start s) (ldisk s)) {} t)"
proof -
  let ?st = "log_start s" and ?m = "ldisk s" let ?hb = "hdr_blocks ?st ?m"
  let ?hc = "home_copies ?st ?hb [0..<length ?hb] ?m"
  have st: "?st < disksize s" "?st \<notin> set ?hb" using wf by (auto simp: wf_disk_def log_blocks_def)
  have "okP (bnd (bnd (read_head s) install_trans) (\<lambda>s. write_head (s\<lparr>lh_n := 0\<rparr>)))
    (\<lambda>t. \<exists>bl. length bl = LOGSIZE \<and>
      after_writes (s\<lparr>lh_block := bl, lh_n := 0\<rparr>) (recovery_writes ?st ?m) {} t)"
  proof (rule okP_bnd [OF recover_install [OF s wf]], elim exE conjE)
    fix u n bl assume len: "length bl = LOGSIZE" and a: "after_writes (s\<lparr>lh_block := bl, lh_n := n\<rparr>) ?hc {} u"
    from after_writes_lh_n [OF a, of 0]
    have u: "after_writes (s\<lparr>lh_block := bl, lh_n := 0\<rparr>) ?hc {} (u\<lparr>lh_n := 0\<rparr>)" by simp
    note U = after_writesD [OF u, simplified]
    have l: "ldisk u ?st = ?m ?st"
      using U st by (simp add: disk_apply_notin)
    have "okP (write_head (u\<lparr>lh_n := 0\<rparr>)) (after_writes (u\<lparr>lh_n := 0\<rparr>) [(?st, put32 0 0 (?m ?st))] {})"
      using write_head_ok [of "u\<lparr>lh_n := 0\<rparr>"] U s(4) st l by (simp add: param_defs)
    then show "okP (write_head (u\<lparr>lh_n := 0\<rparr>)) (\<lambda>t. \<exists>bl. length bl = LOGSIZE \<and>
      after_writes (s\<lparr>lh_block := bl, lh_n := 0\<rparr>) (recovery_writes ?st ?m) {} t)"
      unfolding recovery_writes_def
      by (rule okP_weaken) (use len after_writes_trans [OF u] in blast)
  qed
  then show ?thesis by (simp add: recover_from_log_def bnd_assoc)
qed

text \<open>
  What every boot achieves: from any disk with a legal header, \<^verbatim>\<open>initlog\<close> returns,
  the disk has been redone, and the log is empty and ready for transactions.
\<close>

definition booted :: "nat \<Rightarrow> nat \<Rightarrow> nat \<Rightarrow> (nat \<Rightarrow> byte list) \<Rightarrow> log_st \<Rightarrow> bool" where
  "booted st sz n m t \<longleftrightarrow> log_inv t \<and> (\<forall>i c. \<not> owns t i c) \<and> dirtyb t = {} \<and> lh_n t = 0 \<and>
     outstanding t = 0 \<and> \<not> committing t \<and> log_start t = st \<and> log_size t = sz \<and> disksize t = n \<and>
     memdisk t = redo st m \<and> ldisk t = redo st m \<and> dwrites t = recovery_writes st m"

lemma redo_header:
  assumes "length (m st) = BSIZE"
  shows "get32 (redo st m st) 0 = 0"
  using assms by (simp add: redo_def recovery_writes_def param_defs)

lemma boot_recovers:
  assumes wf: "wf_disk st sz n m"
  shows "okP (initlog 1 (binit (boot_st p m n))) (booted st sz n m)"
proof -
  let ?b = "binit (boot_st p m n)"
  have W: "\<And>b. length (m b) = BSIZE" "1 < n" "n \<le> 2 ^ 32" "sz \<le> LOGSIZE" "st + sz \<le> n"
    "sb_logstart (dec_sb (m 1)) = st" "sb_nlog (dec_sb (m 1)) = sz" "0 < sz"
    using wf by (auto simp: wf_disk_def)
  note B = binit_boot [where p = p and n = n, OF W(1)]
  have sb: "okP (readsb 1 ?b) (\<lambda>(sb, t). sb = dec_sb (m 1) \<and> after_writes ?b [] {} t)"
    using readsb_ok [OF B(1,2,3)] B W(2) by simp
  have "okP (bnd (readsb 1 ?b) (\<lambda>(sb, s). recover_from_log
      (s\<lparr>log_start := sb_logstart sb, log_size := sb_nlog sb, log_dev := 1\<rparr>))) (booted st sz n m)"
  proof (rule okP_bnd [OF sb], clarify)
    fix t assume t: "after_writes ?b [] {} t"
    note T = after_writesD [OF t, simplified B disk_apply_simps]
    let ?s = "t\<lparr>log_start := st, log_size := sz, log_dev := 1\<rparr>"
    have S: "bio_inv ?s" "owns ?s = owns t" "dirtyb ?s = {}" "ldisk ?s = m"
      using T bio_cong [of ?s t] by simp_all
    have "okP (recover_from_log ?s) (\<lambda>u. \<exists>bl. length bl = LOGSIZE \<and>
      after_writes (?s\<lparr>lh_block := bl, lh_n := 0\<rparr>) (recovery_writes st m) {} u)"
      using recover_ok [of ?s] S T wf by simp
    then show "okP (recover_from_log (t\<lparr>log_start := sb_logstart (dec_sb (m 1)),
      log_size := sb_nlog (dec_sb (m 1)), log_dev := 1\<rparr>)) (booted st sz n m)"
      unfolding W(6,7)
    proof (rule okP_weaken, elim exE conjE)
      fix u bl assume bl: "length bl = LOGSIZE"
        and u: "after_writes (?s\<lparr>lh_block := bl, lh_n := 0\<rparr>) (recovery_writes st m) {} u"
      note U = after_writesD [OF u, simplified T S log_field_updates]
      have "log_inv u" unfolding log_inv_def logged_def
        using U T S W bl redo_header [of m st] by (simp add: redo_def)
      then show "booted st sz n m u" unfolding booted_def redo_def
        using U T S W by simp
    qed
  qed
  then show ?thesis by (simp add: initlog_def param_defs)
qed

section \<open>Interrupted recovery\<close>

lemma disk_apply_written: "b \<in> fst ` set ws \<Longrightarrow> disk_apply ws m b = disk_apply ws m' b"
proof (induction ws arbitrary: m m')
  case (Cons w ws)
  then show ?case
    by (cases w; cases "b \<in> fst ` set ws") (auto simp: disk_apply_notin)
qed simp

lemma disk_apply_replay: "disk_apply ws (disk_apply (take j ws) m) = disk_apply ws m"
proof
  fix b
  show "disk_apply ws (disk_apply (take j ws) m) b = disk_apply ws m b"
  proof (cases "b \<in> fst ` set ws")
    case True
    then show ?thesis by (rule disk_apply_written)
  next
    case False
    then have "b \<notin> fst ` set (take j ws)" using set_take_subset [of j ws] by blast
    with False show ?thesis by (simp add: disk_apply_notin)
  qed
qed

lemma disk_apply_length:
  "(\<And>b. length (m b) = BSIZE) \<Longrightarrow> (\<And>b d. (b, d) \<in> set ws \<Longrightarrow> length d = BSIZE) \<Longrightarrow>
   length (disk_apply ws m b) = BSIZE"
proof (induction ws arbitrary: m)
  case (Cons w ws)
  obtain c d where w: "w = (c, d)" by (cases w)
  have "length d = BSIZE" by (rule Cons.prems(2) [of c]) (simp add: w)
  then have "length (disk_apply ws (m(c := d)) b) = BSIZE" by (intro Cons.IH) (use Cons.prems in auto)
  then show ?case using w by simp
qed simp

text \<open>Legality depends on the header block, the superblock and the lengths only.\<close>

lemma hdr_cong: "m st = m' st \<Longrightarrow> hdr_n st m = hdr_n st m' \<and> hdr_blocks st m = hdr_blocks st m'"
  by (simp add: hdr_n_def hdr_blocks_def)

lemma wf_disk_cong:
  assumes "wf_disk st sz n m" "\<And>b. length (m' b) = BSIZE" "m' 1 = m 1" "m' st = m st"
  shows "wf_disk st sz n m'"
  using assms hdr_cong [of m' st m] by (simp add: wf_disk_def)

lemma hdr_empty: "get32 (m st) 0 = 0 \<Longrightarrow> hdr_n st m = 0 \<and> hdr_blocks st m = []"
  by (simp add: hdr_n_def hdr_blocks_def sint32_def)

lemma wf_disk_empty:
  assumes "wf_disk st sz n m" "\<And>b. length (m' b) = BSIZE" "m' 1 = m 1" "get32 (m' st) 0 = 0"
  shows "wf_disk st sz n m'" "b \<noteq> st \<Longrightarrow> redo st m' b = m' b"
  using assms hdr_empty [of m' st] by (auto simp: wf_disk_def redo_def recovery_writes_def)

lemma recovery_writes_length:
  "(\<And>b. length (m b) = BSIZE) \<Longrightarrow> (b, d) \<in> set (recovery_writes st m) \<Longrightarrow> length d = BSIZE"
  by (auto simp: recovery_writes_def home_copies_def)

lemma recovery_prefix:
  assumes wf: "wf_disk st sz n m" and m': "m' = disk_apply (take j (recovery_writes st m)) m"
  shows "wf_disk st sz n m' \<and> (\<forall>b. b \<noteq> st \<longrightarrow> redo st m' b = redo st m b)"
proof -
  let ?hb = "hdr_blocks st m" let ?hc = "home_copies st ?hb [0..<length ?hb] m"
  have W: "\<And>b. length (m b) = BSIZE" "1 \<notin> set ?hb" "1 \<noteq> st" "st \<notin> set ?hb" "0 < sz"
    "set ?hb \<inter> log_blocks st sz = {}" "length ?hb < sz"
    using wf by (auto simp: wf_disk_def log_blocks_def hdr_blocks_def)
  have len: "length (m' b) = BSIZE" for b
    unfolding m' by (rule disk_apply_length [OF W(1)], rule recovery_writes_length [OF W(1)], erule in_set_takeD)
  show ?thesis
  proof (cases "j \<le> length ?hb")
    case True
    have sub: "fst ` set (take j ?hc) \<subseteq> set ?hb"
      using set_take_subset [of j ?hc] fst_home_copies(2) [of st ?hb m] by blast
    have m'2: "m' = disk_apply (take j ?hc) m"
      using True m' by (simp add: recovery_writes_def home_copies_def)
    have same: "m' b = m b" if "b \<notin> set ?hb" for b
      unfolding m'2 by (rule disk_apply_notin) (use sub that in blast)
    have eq: "hdr_blocks st m' = ?hb" using hdr_cong [of m' st m] same [OF W(4)] by simp
    have "m' (st + i + 1) = m (st + i + 1)" if "i < length ?hb" for i
      by (rule same) (use W(6,7) that in \<open>auto simp: log_blocks_def\<close>)
    then have "recovery_writes st m' = recovery_writes st m"
      unfolding recovery_writes_def eq by (simp add: home_copies_def same [OF W(4)])
    then have "redo st m' = redo st m"
      unfolding redo_def m' by (simp only: disk_apply_replay)
    then show ?thesis
      using wf_disk_cong [OF wf len same [OF W(2)] same [OF W(4)]] by simp
  next
    case False
    then have m'2: "m' = redo st m"
      using m' by (simp add: redo_def recovery_writes_def home_copies_def)
    have "m' 1 = m 1" unfolding m'2 redo_def
      by (rule disk_apply_notin) (use W(2,3) in \<open>simp add: recovery_writes_def\<close>)
    then show ?thesis
      using wf_disk_empty [OF wf len] redo_header [OF W(1), of st] m'2 by simp
  qed
qed

section \<open>Crash during a commit\<close>

text \<open>The superblock names the log area, and no transaction touches it.\<close>

definition sb_ok :: "'a log_st_scheme \<Rightarrow> bool" where
  "sb_ok s \<longleftrightarrow> 1 < disksize s \<and> 1 \<notin> dirtyb s \<and> 1 \<notin> log_area s \<and>
     sb_logstart (dec_sb (memdisk s 1)) = log_start s \<and> sb_nlog (dec_sb (memdisk s 1)) = log_size s"

lemma wf_disk_between:
  assumes "log_inv s" "sb_ok s"
  shows "wf_disk (log_start s) (log_size s) (disksize s) (memdisk s)"
  using log_invD [OF assms(1)] assms(2)
    bio_invD(4) [OF log_invD(1) [OF assms(1)]] hdr_empty [of "memdisk s" "log_start s"]
  by (simp add: wf_disk_def sb_ok_def log_blocks_def log_area_def)

definition commit_point :: "'a log_st_scheme \<Rightarrow> nat \<Rightarrow> byte list" where
  "commit_point s = disk_apply (stage1 s) (memdisk s)"

lemma hdr_commit_point:
  assumes inv: "log_inv s" and n: "lh_n s > 0"
  shows "hdr_n (log_start s) (commit_point s) = lh_n s"
    "hdr_blocks (log_start s) (commit_point s) = logged s"
proof -
  note I = log_invD [OF inv] and B = log_inv_bounds [OF inv]
  have h: "commit_point s (log_start s) = enc_head (lh_n s) (lh_block s) (memdisk s (log_start s))"
    by (simp add: commit_point_def stage1_def)
  have len: "length (memdisk s (log_start s)) = BSIZE" using bio_invD(4) [OF I(1)] .
  have n31: "lh_n s < 2 ^ 31" using I(5,6) by (simp add: param_defs)
  show 1: "hdr_n (log_start s) (commit_point s) = lh_n s"
    unfolding hdr_n_def h using n n31 len by (intro enc_head_n) (simp_all add: param_defs)
  have "get32 (enc_head (lh_n s) (lh_block s) (memdisk s (log_start s))) (4 + 4 * i) = lh_block s ! i"
    if "i < nat (lh_n s)" for i
    by (rule enc_head_block) (use that I(5,6,8) B(4) [OF that] len in \<open>simp_all add: param_defs\<close>)
  then show "hdr_blocks (log_start s) (commit_point s) = logged s"
    unfolding hdr_blocks_def 1 h logged_nth [OF inv, symmetric] by (intro map_cong) auto
qed

lemma commit_writes_split:
  assumes inv: "log_inv s" and n: "lh_n s > 0"
  shows "commit_writes s = stage1 s @ recovery_writes (log_start s) (commit_point s)"
proof -
  have len: "length (logged s) = nat (lh_n s)"
    using log_invD(3-6) [OF inv] by (simp add: logged_def)
  have "home_copies (log_start s) (logged s) [0..<nat (lh_n s)] (commit_point s)
    = home_copies (log_start s) (lh_block s) [0..<nat (lh_n s)] (commit_point s)"
    by (rule home_copies_take) (simp add: logged_def)
  then show ?thesis
    using n stage1_home [OF inv, of "memdisk s"] hdr_commit_point [OF assms] len
    by (simp add: commit_writes_def recovery_writes_def commit_point_def Let_def stage1_def)
qed

lemma stage1_targets:
  assumes "log_inv s"
  shows "fst ` set (stage1 s) \<subseteq> log_area s" "(b, d) \<in> set (stage1 s) \<Longrightarrow> length d = BSIZE"
  using log_invD(1,4,5) [OF assms] bio_invD(4) ldisk_length
  by (auto simp: stage1_def log_area_def log_copies_def)

lemma wf_commit_point:
  assumes inv: "log_inv s" and sb: "sb_ok s" and n: "lh_n s > 0"
  shows "wf_disk (log_start s) (log_size s) (disksize s) (commit_point s)"
proof -
  note I = log_invD [OF inv]
  have len: "length (commit_point s b) = BSIZE" for b
    unfolding commit_point_def
    by (rule disk_apply_length [OF bio_invD(4) [OF I(1)]]) (rule stage1_targets(2) [OF inv])
  have "commit_point s 1 = memdisk s 1"
    unfolding commit_point_def
    by (rule disk_apply_notin) (use stage1_targets(1) [OF inv] sb in \<open>auto simp: sb_ok_def\<close>)
  moreover have "b < disksize s" if "b \<in> set (logged s)" for b
    using that log_inv_bounds(4) [OF inv] by (auto simp: logged_nth [OF inv, symmetric])
  ultimately show ?thesis
    unfolding wf_disk_def hdr_commit_point [OF inv n]
    using I len sb n by (auto simp: sb_ok_def log_blocks_def log_area_def)
qed

text \<open>Before the commit point: recovery finds an empty log and leaves the old contents.\<close>

lemma crash_before:
  assumes inv: "log_inv s" and sb: "sb_ok s" and k: "k \<le> nat (lh_n s)"
    and m: "m = disk_apply (take k (commit_writes s)) (memdisk s)"
  shows "wf_disk (log_start s) (log_size s) (disksize s) m"
    "b \<notin> log_area s \<Longrightarrow> redo (log_start s) m b = memdisk s b"
proof -
  note I = log_invD [OF inv]
  let ?lc = "log_copies (log_start s) (lh_block s) [0..<nat (lh_n s)] (ldisk s)"
  have tk: "take k (commit_writes s) = take k ?lc"
    using k by (auto simp: commit_writes_def log_copies_def Let_def)
  have sub: "fst ` set (take k ?lc) \<subseteq> log_area s - {log_start s}"
    using I(4,5) by (auto dest!: in_set_takeD simp: log_copies_def log_area_def)
  have same: "m b = memdisk s b" if "b \<notin> log_area s - {log_start s}" for b
    unfolding m tk by (rule disk_apply_notin) (use sub that in blast)
  have len: "length (m b) = BSIZE" for b unfolding m tk
    by (rule disk_apply_length [OF bio_invD(4) [OF I(1)]])
      (auto dest!: in_set_takeD simp: log_copies_def ldisk_length [OF I(1)])
  have one: "1 \<notin> log_area s - {log_start s}" using sb by (simp add: sb_ok_def)
  have st: "get32 (m (log_start s)) 0 = 0" using same [of "log_start s"] I(12) by simp
  note E = wf_disk_empty [OF wf_disk_between [OF inv sb] len same [OF one] st]
  show "wf_disk (log_start s) (log_size s) (disksize s) m" by (rule E(1))
  show "redo (log_start s) m b = memdisk s b" if b: "b \<notin> log_area s"
    using E(2) [of b] same [of b] b I(4,5) by (auto simp: log_area_def)
qed

text \<open>From the commit point on: recovery completes the transaction.\<close>

lemma redo_commit_point:
  assumes inv: "log_inv s" and own: "\<And>i c. \<not> owns s i c" and n: "lh_n s > 0" and b: "b \<notin> log_area s"
  shows "redo (log_start s) (commit_point s) b = ldisk s b"
proof -
  note I = log_invD [OF inv]
  let ?hw = "home_writes (logged s) (ldisk s)"
  have "recovery_writes (log_start s) (commit_point s)
    = ?hw @ [(log_start s, put32 0 0 (commit_point s (log_start s)))]"
    using commit_writes_split [OF inv n] n
    by (simp add: commit_writes_def stage1_def commit_point_def Let_def)
  moreover have "b \<noteq> log_start s" using b I(4,5) by (auto simp: log_area_def)
  ultimately have r: "redo (log_start s) (commit_point s) b = disk_apply ?hw (commit_point s) b"
    by (simp add: redo_def)
  show ?thesis
  proof (cases "b \<in> dirtyb s")
    case True
    then have "disk_apply ?hw (commit_point s) b = ldisk s b"
      by (intro disk_apply_in) (use I(9,10) in \<open>auto simp: home_writes_def comp_def\<close>)
    then show ?thesis using r by simp
  next
    case False
    then have "disk_apply ?hw (commit_point s) b = memdisk s b"
      using I(10) b stage1_targets(1) [OF inv]
      by (simp add: disk_apply_notin commit_point_def subset_iff) (meson disk_apply_notin subsetD)
    then show ?thesis using r clean_on_disk [OF I(1) _ False] own by (simp add: held_def)
  qed
qed

lemma crash_after:
  assumes inv: "log_inv s" and own: "\<And>i c. \<not> owns s i c" and sb: "sb_ok s" and k: "\<not> k \<le> nat (lh_n s)"
    and m: "m = disk_apply (take k (commit_writes s)) (memdisk s)"
  shows "wf_disk (log_start s) (log_size s) (disksize s) m"
    "b \<notin> log_area s \<Longrightarrow> redo (log_start s) m b = ldisk s b"
proof -
  note I = log_invD [OF inv]
  have "wf_disk (log_start s) (log_size s) (disksize s) m \<and>
    (\<forall>b. b \<notin> log_area s \<longrightarrow> redo (log_start s) m b = ldisk s b)"
  proof (cases "lh_n s > 0")
    case True
    let ?rw = "recovery_writes (log_start s) (commit_point s)"
    have "length (stage1 s) \<le> k" using k by (simp add: stage1_def log_copies_def)
    then have "m = disk_apply (take (k - length (stage1 s)) ?rw) (commit_point s)"
      using m commit_writes_split [OF inv True] by (simp add: commit_point_def)
    from recovery_prefix [OF wf_commit_point [OF inv sb True] this]
    show ?thesis
      using redo_commit_point [OF inv own True] I(4,5) by (auto simp: log_area_def)
  next
    case False
    then have n: "lh_n s = 0" using I(4) by simp
    then have d: "dirtyb s = {}" using I(10) by (simp add: logged_def)
    have "m = memdisk s" using m n by (simp add: commit_writes_def)
    then show ?thesis
      using crash_before [OF inv sb, of 0 "memdisk s"] clean_on_disk [OF I(1)] own d by (simp add: held_def)
  qed
  then show "wf_disk (log_start s) (log_size s) (disksize s) m"
    "b \<notin> log_area s \<Longrightarrow> redo (log_start s) m b = ldisk s b" by simp_all
qed

lemma crash_commit:
  assumes "log_inv s" "\<And>i c. \<not> owns s i c" "sb_ok s"
    and m: "m = disk_apply (take k (commit_writes s)) (memdisk s)"
  shows "wf_disk (log_start s) (log_size s) (disksize s) m"
    "b \<notin> log_area s \<Longrightarrow>
      redo (log_start s) m b = (if k \<le> nat (lh_n s) then memdisk s b else ldisk s b)"
  using crash_before [OF assms(1,3) _ m] crash_after [OF assms(1,2,3) _ m] by (cases "k \<le> nat (lh_n s)"; simp)+

end
