(* ===== verification/Transaction.thy ===== *)
theory Transaction
  imports Crash
begin

text \<open>
  The log as the file system uses it. \<^verbatim>\<open>log_write\<close> takes the place of
  \<^verbatim>\<open>bwrite\<close>: it records and pins the block, and absorbs repeated writes. The theory
  shows that every routine keeps the log's invariant, that \<^verbatim>\<open>end_op\<close> of the last
  operation makes the whole transaction durable, and that bread/log\_write/brelse form a
  \<open>block_layer\<close> again, so that the rules proved once for the cache serve the file system.
\<close>

section \<open>Recording a write\<close>

text \<open>The state without what a transaction in progress changes.\<close>

definition tx_obs :: "'a log_st_scheme \<Rightarrow> 'a log_st_scheme" where
  "tx_obs s = s\<lparr>bufs := [], mru := [], lh_n := 0, lh_block := []\<rparr>"

lemma tx_obs_eq:
  "tx_obs s = tx_obs t \<longleftrightarrow> mypid s = mypid t \<and> memdisk s = memdisk t \<and> disksize s = disksize t \<and>
     dwrites s = dwrites t \<and> log_start s = log_start t \<and> log_size s = log_size t \<and>
     outstanding s = outstanding t \<and> committing s = committing t \<and> log_dev s = log_dev t \<and>
     log_st.more s = log_st.more t"
  by (cases s; cases t) (simp add: tx_obs_def)

lemma tx_obs_bio: "bio_obs s = bio_obs t \<Longrightarrow> tx_obs s = tx_obs t \<and> lh_n s = lh_n t \<and> lh_block s = lh_block t"
  using more_log_fields [of s t] by (simp add: bio_obs_def tx_obs_eq)

lemma log_area_cong: "tx_obs s = tx_obs t \<Longrightarrow> log_area s = log_area t"
  by (simp add: tx_obs_eq log_area_def)

lemma log_inv_cong:
  assumes "log_inv s" "bio_inv t" "tx_obs t = tx_obs s" "lh_n t = lh_n s" "lh_block t = lh_block s"
    "dirtyb t = dirtyb s"
  shows "log_inv t"
  using assms log_area_cong [OF assms(3)] by (simp add: log_inv_def tx_obs_eq logged_def)

lemma log_slot_in:
  assumes "log_inv s" "b \<in> dirtyb s"
  shows "log_slot (lh_n s) (lh_block s) b < nat (lh_n s)"
    "lh_block s ! log_slot (lh_n s) (lh_block s) b = b"
proof -
  let ?P = "\<lambda>i. lh_block s ! i = b"
  have "b \<in> (!) (lh_block s) ` set [0..<nat (lh_n s)]"
    using assms(2) log_invD(10) [OF assms(1)] logged_nth [OF assms(1)] by (metis set_map)
  then obtain i where "i \<in> set [0..<nat (lh_n s)]" "?P i" by blast
  then obtain k where k: "find ?P [0..<nat (lh_n s)] = Some k" using find_exists [of i _ ?P] by blast
  have "?P k \<and> k \<in> set [0..<nat (lh_n s)]" by (rule find_Some_mem [OF k])
  then show "log_slot (lh_n s) (lh_block s) b < nat (lh_n s)"
    "lh_block s ! log_slot (lh_n s) (lh_block s) b = b"
    using k by (simp_all add: log_slot_def)
qed

lemma log_slot_notin:
  assumes "log_inv s" "b \<notin> dirtyb s"
  shows "log_slot (lh_n s) (lh_block s) b = nat (lh_n s)"
proof -
  have "find (\<lambda>i. lh_block s ! i = b) [0..<nat (lh_n s)] = None"
    using assms(2) log_inv_bounds(3) [OF assms(1)] by (auto simp: find_None_set)
  then show ?thesis by (simp add: log_slot_def)
qed

lemma log_write_state:
  assumes inv: "log_inv s" and own: "owns s i b"
    and room: "card (dirtyb s) < log_size s - 1" "1 \<le> outstanding s"
  shows "log_write i s = Ok (pin i (if b \<in> dirtyb s then s
    else s\<lparr>lh_block := (lh_block s)[nat (lh_n s) := b], lh_n := lh_n s + 1\<rparr>))"
proof -
  note I = log_invD [OF inv] and n = log_inv_bounds(1) [OF inv]
  have g: "\<not> (lh_n s \<ge> int LOGSIZE \<or> lh_n s \<ge> int (log_size s) - 1)" "\<not> outstanding s < 1"
    using I(4-6) room n by auto
  have b: "b_blockno (bufs s ! i) = b" using own by (simp add: owns_def)
  show ?thesis
  proof (cases "b \<in> dirtyb s")
    case True
    note k = log_slot_in [OF inv True]
    have ne: "int (log_slot (lh_n s) (lh_block s) b) \<noteq> lh_n s" using k(1) I(4) by auto
    have same: "(lh_block s)[log_slot (lh_n s) (lh_block s) b := b] = lh_block s"
      using list_update_id [of "lh_block s" "log_slot (lh_n s) (lh_block s) b"] k(2) by simp
    have eq: "s\<lparr>lh_block := lh_block s, lh_n := lh_n s\<rparr> = s" by (cases s) simp
    show ?thesis unfolding log_write_def if_not_P [OF g(1)] if_not_P [OF g(2)] Let_def b
      if_not_P [OF ne] same eq if_P [OF True] ..
  next
    case False
    then show ?thesis using g b log_slot_notin [OF inv False] I(4) by (simp add: log_write_def Let_def)
  qed
qed

lemma log_inv_record:
  fixes s :: "'a log_st_scheme"
  assumes inv: "log_inv s" and b: "b \<notin> dirtyb s" "b \<notin> log_area s"
    and room: "card (dirtyb s) < log_size s - 1"
    and t: "bio_inv t" "dirtyb t = insert b (dirtyb s)" "tx_obs t = tx_obs s"
      "lh_n t = lh_n s + 1" "lh_block t = (lh_block s)[nat (lh_n s) := b]"
  shows "log_inv t"
proof -
  note I = log_invD [OF inv] and n = log_inv_bounds(1) [OF inv]
  have lt: "nat (lh_n s) < length (lh_block s)" using I(3-6) room n by auto
  have "logged t = logged s @ [b]"
    using lt I(4) t(4,5) by (simp add: logged_def nat_add_distrib take_Suc_conv_app_nth)
  moreover have "lh_n s + 1 < int (log_size s)" using room n I(4) by linarith
  ultimately show ?thesis
    unfolding log_inv_def log_area_cong [OF t(3)]
    using I b t by (simp add: tx_obs_eq)
qed

lemma log_write_ok:
  assumes inv: "log_inv s" and own: "owns s i b" and b: "b \<notin> log_area s"
    and room: "card (dirtyb s) < log_size s - 1" "1 \<le> outstanding s"
  shows "okP (log_write i s) (\<lambda>t. log_inv t \<and> tx_obs t = tx_obs s \<and> ldisk t = ldisk s \<and>
    dirtyb t = insert b (dirtyb s) \<and> owns t = owns s)"
proof -
  note W = log_write_state [OF inv own room] and I = log_invD [OF inv]
  show ?thesis
  proof (cases "b \<in> dirtyb s")
    case True
    note P = pin_ok [OF I(1) own]
    note O = tx_obs_bio [OF bio_obs_frame [OF P(5)]]
    have "log_inv (pin i s)" by (rule log_inv_cong [OF inv P(1)]) (use O P True in auto)
    then show ?thesis using W P O True by (auto simp: fun_eq_iff)
  next
    case False
    let ?s = "s\<lparr>lh_block := (lh_block s)[nat (lh_n s) := b], lh_n := lh_n s + 1\<rparr>"
    have S: "bio_inv ?s" "owns ?s i b" using I(1) own by simp_all
    note P = pin_ok [OF S]
    note O = tx_obs_bio [OF bio_obs_frame [OF P(5)]]
    have obs: "tx_obs (pin i ?s) = tx_obs s" using O by (simp add: tx_obs_eq)
    have "log_inv (pin i ?s)"
      by (rule log_inv_record [OF inv False b room(1) P(1)]) (use O obs P in auto)
    then show ?thesis using W P obs False by (auto simp: fun_eq_iff)
  qed
qed

section \<open>Beginning and ending operations\<close>

lemma begin_op_ok:
  assumes "\<not> committing s" "lh_n s + (outstanding s + 1) * int MAXOPBLOCKS \<le> int LOGSIZE"
  shows "begin_op s = Ok (s\<lparr>outstanding := outstanding s + 1\<rparr>)"
  using assms by (simp add: begin_op_def)

lemma log_inv_counters:
  "log_inv (s\<lparr>outstanding := n\<rparr>) = log_inv s" "log_inv (s\<lparr>committing := c\<rparr>) = log_inv s"
  by (simp_all add: log_inv_def logged_def log_area_def)

lemma log_inv_committed:
  assumes inv: "log_inv s" and t: "after_writes (s\<lparr>lh_n := 0\<rparr>) (commit_writes s) {} t"
  shows "log_inv t"
proof -
  note I = log_invD [OF inv] and T = after_writesD [OF t]
  have "get32 (memdisk t (log_start s)) 0 = 0"
  proof (cases "lh_n s > 0")
    case True
    then show ?thesis
      using T(4) commit_writes_split [OF inv True] bio_invD(4) [OF I(1)]
      by (simp add: recovery_writes_def commit_point_def stage1_def param_defs)
  next
    case False
    then show ?thesis using T(4) I(12) by (simp add: commit_writes_def)
  qed
  then show ?thesis
    unfolding log_inv_def using I T by (simp add: logged_def)
qed

text \<open>After a commit the disk holds, outside the log, what the cache promised.\<close>

lemma commit_durable:
  assumes inv: "log_inv s" and own: "\<And>i c. \<not> owns s i c" and b: "b \<notin> log_area s"
  shows "disk_apply (commit_writes s) (memdisk s) b = ldisk s b"
    "disk_apply (commit_writes s) (ldisk s) b = ldisk s b"
proof -
  note I = log_invD [OF inv]
  have "disk_apply (commit_writes s) (memdisk s) b = ldisk s b \<and>
    disk_apply (commit_writes s) (ldisk s) b = ldisk s b"
  proof (cases "lh_n s > 0")
    case True
    have "disk_apply (commit_writes s) (memdisk s) b = ldisk s b"
      using redo_commit_point [OF inv own True b] commit_writes_split [OF inv True]
      by (simp add: redo_def commit_point_def)
    moreover have "disk_apply (commit_writes s) (ldisk s) b = ldisk s b"
    proof (cases "b \<in> fst ` set (commit_writes s)")
      case True
      then show ?thesis
        using disk_apply_written [OF True, of "ldisk s" "memdisk s"] calculation by simp
    qed (simp add: disk_apply_notin)
    ultimately show ?thesis by simp
  next
    case False
    then have "dirtyb s = {}" using I(4,10) by (simp add: logged_def)
    then show ?thesis
      using False clean_on_disk [OF I(1)] own by (simp add: commit_writes_def held_def)
  qed
  then show "disk_apply (commit_writes s) (memdisk s) b = ldisk s b"
    "disk_apply (commit_writes s) (ldisk s) b = ldisk s b" by simp_all
qed

lemma end_op_last:
  fixes s :: "'a log_st_scheme"
  assumes inv: "log_inv s" and own: "\<And>i c. \<not> owns s i c" and one: "outstanding s = 1" "\<not> committing s"
  shows "okP (end_op s) (\<lambda>t. log_inv t \<and> (\<forall>i c. \<not> owns t i c) \<and> outstanding t = 0 \<and> \<not> committing t \<and>
    lh_n t = 0 \<and> dirtyb t = {} \<and> log_area t = log_area s \<and> disksize t = disksize s \<and>
    dwrites t = dwrites s @ commit_writes s \<and> memdisk t = disk_apply (commit_writes s) (memdisk s) \<and>
    (\<forall>b. b \<notin> log_area s \<longrightarrow> memdisk t b = ldisk s b \<and> ldisk t b = ldisk s b))"
proof -
  let ?s = "s\<lparr>outstanding := 0, committing := True\<rparr>"
  have S: "log_inv ?s" "\<And>i c. \<not> owns ?s i c" "ldisk ?s = ldisk s" "memdisk ?s = memdisk s"
    using inv own by (simp_all add: log_inv_counters)
  have W: "commit_writes ?s = commit_writes s"
    by (simp add: commit_writes_def logged_def Let_def)
  have "okP (commit ?s) (after_writes (?s\<lparr>lh_n := 0\<rparr>) (commit_writes s) {})"
    using commit_ok [OF S(1,2)] W by simp
  then have "okP (bnd (commit ?s) (\<lambda>s. Ok (s\<lparr>committing := False\<rparr>))) (\<lambda>t. log_inv t \<and>
    (\<forall>i c. \<not> owns t i c) \<and> outstanding t = 0 \<and> \<not> committing t \<and> lh_n t = 0 \<and> dirtyb t = {} \<and>
    log_area t = log_area s \<and> disksize t = disksize s \<and> dwrites t = dwrites s @ commit_writes s \<and>
    memdisk t = disk_apply (commit_writes s) (memdisk s) \<and>
    (\<forall>b. b \<notin> log_area s \<longrightarrow> memdisk t b = ldisk s b \<and> ldisk t b = ldisk s b))"
  proof (rule okP_bnd)
    fix t assume t: "after_writes (?s\<lparr>lh_n := 0\<rparr>) (commit_writes s) {} t"
    note T = after_writesD [OF t]
    have "log_inv t" using log_inv_committed [OF S(1)] t W by simp
    then show "okP (Ok (t\<lparr>committing := False\<rparr>)) (\<lambda>t. log_inv t \<and>
      (\<forall>i c. \<not> owns t i c) \<and> outstanding t = 0 \<and> \<not> committing t \<and> lh_n t = 0 \<and> dirtyb t = {} \<and>
      log_area t = log_area s \<and> disksize t = disksize s \<and> dwrites t = dwrites s @ commit_writes s \<and>
      memdisk t = disk_apply (commit_writes s) (memdisk s) \<and>
      (\<forall>b. b \<notin> log_area s \<longrightarrow> memdisk t b = ldisk s b \<and> ldisk t b = ldisk s b))"
      using T commit_durable [OF inv own] by (simp add: log_inv_counters log_area_def)
  qed
  then show ?thesis using one by (simp add: end_op_def Let_def)
qed

section \<open>The log provides the block interface\<close>

definition tx_inv :: "'a log_st_scheme \<Rightarrow> bool" where
  "tx_inv s \<longleftrightarrow> log_inv s \<and> (\<forall>i b. owns s i b \<longrightarrow> b \<notin> log_area s)"

definition tx_room :: "'a log_st_scheme \<Rightarrow> bool" where
  "tx_room s \<longleftrightarrow> card (dirtyb s) < log_size s - 1 \<and> 1 \<le> outstanding s"

interpretation tx: block_layer tx_inv tx_obs "\<lambda>ob. {..<disksize ob} - log_area ob" owns ldisk dirtyb
  bio_synced "bread 1" bdata set_bdata log_write brelse tx_room insert "\<lambda>_ _ ob. ob"
proof (unfold_locales, goal_cases)
  case (1 s b)
  have b: "b \<in> {..<fst (snd (snd (bio_obs s)))}" "b \<notin> log_area s"
    using 1(2) by (simp_all add: bio_obs_def tx_obs_def log_area_def)
  have inv: "bio_inv s" "log_inv s" using 1(1) log_invD(1) by (auto simp: tx_inv_def)
  show ?case
  proof (rule okP_weaken [OF bio.get_ok [OF inv(1) b(1) 1(3,4)]], clarify)
    fix i t
    assume t: "bio_inv t" "bio_obs t = bio_obs s" "ldisk t = ldisk s" "dirtyb t = dirtyb s"
      "\<forall>j c. owns t j c \<longleftrightarrow> owns s j c \<or> j = i \<and> c = b" "bio_synced t b" "\<forall>c. \<not> owns s i c"
    note O = tx_obs_bio [OF t(2)]
    have "log_inv t" by (rule log_inv_cong [OF inv(2) t(1)]) (use O t in auto)
    then have "tx_inv t" using t(5) 1(1) b(2) log_area_cong [of t s] O by (auto simp: tx_inv_def)
    then show "tx_inv t \<and> tx_obs t = tx_obs s \<and> ldisk t = ldisk s \<and> dirtyb t = dirtyb s \<and>
      (\<forall>j c. owns t j c \<longleftrightarrow> owns s j c \<or> j = i \<and> c = b) \<and> bio_synced t b \<and> (\<forall>c. \<not> owns s i c)"
      using t O by simp
  qed
next
  case (2 s i b)
  then show ?case by (intro bdata_ldisk) (simp_all add: tx_inv_def log_inv_def)
next
  case (3 s i b c)
  then show ?case by (simp add: owns_def)
next
  case (4 s i b d)
  have inv: "log_inv s" "bio_inv s" using 4(1) log_invD(1) by (auto simp: tx_inv_def)
  note D = set_bdata_ok [OF inv(2) 4(2,3)]
  note O = tx_obs_bio [OF bio_obs_frame [OF D(5)]]
  have "log_inv (set_bdata i d s)" by (rule log_inv_cong [OF inv(1) D(1)]) (use O D in auto)
  then show ?case
    using 4(1) D O log_area_cong [of "set_bdata i d s" s] by (auto simp: tx_inv_def fun_eq_iff)
next
  case (5 s i b)
  have inv: "log_inv s" "b \<notin> log_area s" using 5(1,2) by (auto simp: tx_inv_def)
  have "okP (log_write i s) (\<lambda>t. log_inv t \<and> tx_obs t = tx_obs s \<and> ldisk t = ldisk s \<and>
    dirtyb t = insert b (dirtyb s) \<and> owns t = owns s)"
    by (rule log_write_ok [OF inv(1) 5(2) inv(2)]) (use 5(3) in \<open>simp_all add: tx_room_def\<close>)
  then show ?case
    by (rule okP_weaken) (use 5(1) in \<open>simp add: tx_inv_def bio_synced_def tx_obs_eq log_area_def\<close>)
next
  case (6 s i b)
  have inv: "bio_inv s" "log_inv s" using 6(1) log_invD(1) by (auto simp: tx_inv_def)
  show ?case
  proof (rule okP_weaken [OF bio.rel_ok [OF inv(1) 6(2,3)]], clarify)
    fix t
    assume t: "bio_inv t" "bio_obs t = bio_obs s" "ldisk t = ldisk s" "dirtyb t = dirtyb s"
      "\<forall>j c. owns t j c \<longleftrightarrow> owns s j c \<and> j \<noteq> i"
    note O = tx_obs_bio [OF t(2)]
    have "log_inv t" by (rule log_inv_cong [OF inv(2) t(1)]) (use O t in auto)
    then show "tx_inv t \<and> tx_obs t = tx_obs s \<and> ldisk t = ldisk s \<and> dirtyb t = dirtyb s \<and>
      (\<forall>j c. owns t j c \<longleftrightarrow> owns s j c \<and> j \<noteq> i)"
      using t O 6(1) log_area_cong [of t s] by (auto simp: tx_inv_def)
  qed
next
  case (7 s t c)
  then show ?case by (simp add: bio_synced_def tx_obs_eq)
next
  case (8 s t)
  then show ?case by (simp add: tx_room_def tx_obs_eq)
next
  case (10 s b)
  then show ?case by (intro ldisk_length) (simp add: tx_inv_def log_inv_def)
next
  case (11 s)
  then show ?case using finite_held_dirtyb(1) by (simp add: held_def)
qed simp_all

end
