(* ===== verification/Samples.thy ===== *)
theory Samples
  imports Transaction
begin

text \<open>
  A concrete state on which the theorems about the log are exercised: a disk of 1000 blocks as
  \<^verbatim>\<open>mkfs\<close> lays it out (superblock in block 1, the log in blocks 2 to 31), one
  operation in progress, and one block (number 40) written through the log.
\<close>

definition sample_disk :: "nat \<Rightarrow> byte list" where
  "sample_disk b = (if b = 1 then put32 16 2 (put32 12 30 (replicate BSIZE 0)) else replicate BSIZE 0)"

definition sample_buf :: buf where
  "sample_buf = \<lparr>b_flags = B_VALID OR B_DIRTY, b_dev = 1, b_blockno = 40,
     b_lock = \<lparr>sl_locked = False, sl_pid = 0\<rparr>, b_refcnt = 0, b_data = replicate BSIZE 7\<rparr>"

definition sample_log :: log_st where
  "sample_log = \<lparr>mypid = 1, memdisk = sample_disk, disksize = 1000, dwrites = [],
     bufs = sample_buf # replicate (NBUF - 1) zero_buf, mru = [0..<NBUF], log_start = 2,
     log_size = 30, outstanding = 1, committing = False, log_dev = 1, lh_n = 1,
     lh_block = 40 # replicate (LOGSIZE - 1) 0\<rparr>"

lemma sample_fields [simp]:
  "mypid sample_log = 1" "memdisk sample_log = sample_disk" "disksize sample_log = 1000"
  "dwrites sample_log = []" "mru sample_log = [0..<NBUF]" "log_start sample_log = 2"
  "log_size sample_log = 30" "outstanding sample_log = 1" "\<not> committing sample_log"
  "log_dev sample_log = 1" "lh_n sample_log = 1" "lh_block sample_log = 40 # replicate (LOGSIZE - 1) 0"
  "length (bufs sample_log) = NBUF" "log_area sample_log = {2..<32}"
  by (simp_all add: sample_log_def param_defs log_area_def)

lemma sample_bufs: "i < NBUF \<Longrightarrow> bufs sample_log ! i = (if i = 0 then sample_buf else zero_buf)"
  by (auto simp: sample_log_def nth_Cons split: nat.splits)

lemma sample_disk_length [simp]: "length (sample_disk b) = BSIZE"
  by (simp add: sample_disk_def)

lemma sample_caches: "i < NBUF \<Longrightarrow> caches sample_log i b \<longleftrightarrow> i = 0 \<and> b = 40"
  by (auto simp: caches_def sample_bufs sample_buf_def zero_buf_def)

lemma sample_owns [simp]: "\<not> owns sample_log i b"
  by (auto simp: owns_def sample_bufs sample_buf_def zero_buf_def)

lemma sample_dirtyb [simp]: "dirtyb sample_log = {40}"
proof -
  have "dirty (bufs sample_log ! i) \<longleftrightarrow> i = 0" if "i < NBUF" for i
    using that by (simp add: sample_bufs sample_buf_def zero_buf_def bit_or_iff)
  moreover have "b_blockno (bufs sample_log ! 0) = 40" "0 < NBUF"
    by (simp_all add: sample_log_def sample_buf_def param_defs)
  ultimately show ?thesis by (auto simp: dirtyb_def)
qed

lemma sample_ldisk: "ldisk sample_log b = (if b = 40 then replicate BSIZE 7 else sample_disk b)"
proof (cases "b = 40")
  case True
  have "find (\<lambda>i. caches sample_log i 40) [0..<NBUF] = Some 0"
    by (rule find_unique) (auto simp: sample_caches param_defs)
  then show ?thesis using True by (simp add: ldisk_def sample_log_def sample_buf_def)
next
  case False
  then have "ldisk sample_log b = memdisk sample_log b" by (intro ldisk_miss) (simp add: sample_caches)
  then show ?thesis using False by simp
qed

lemma sample_bio_inv: "bio_inv sample_log"
proof -
  have "buf_inv sample_disk 1000 (bufs sample_log ! i)" if "i < NBUF" for i
    using that by (simp add: sample_bufs buf_inv_def sample_buf_def zero_buf_def bit_or_iff)
  then show ?thesis by (auto simp: bio_inv_def sample_caches)
qed

lemma sample_log_inv: "log_inv sample_log"
proof -
  have "get32 (sample_disk 2) 0 = 0" by (simp add: sample_disk_def get32_def get16_def param_defs)
  then show ?thesis
    by (simp add: log_inv_def sample_bio_inv logged_def) (simp add: param_defs)
qed

lemma sample_sb_ok: "sb_ok sample_log"
  by (simp add: sb_ok_def dec_sb_def sample_disk_def param_defs)

end
