(* ===== verification/CString.thy ===== *)
theory CString
  imports Prelude
begin

text \<open>
  The memory and string routines of \<^verbatim>\<open>string.c\<close> (kernel) and \<^verbatim>\<open>ulib.c\<close>
  (user programs). Memory is a function from addresses to bytes, so that overlap and aliasing are
  what they are in C; a pointer that is only read is its view \<open>\<lambda>i. *(p + i)\<close>. A loop that may
  run off the end of memory is a \<open>partial_function\<close>. The names of \<^verbatim>\<open>ulib.c\<close> that
  the kernel library also has carry the prefix \<open>u\<close>.
\<close>

type_synonym mem = "nat \<Rightarrow> byte"
type_synonym view = "nat \<Rightarrow> byte"

section \<open>Operations\<close>

fun stosb :: "mem \<Rightarrow> nat \<Rightarrow> byte \<Rightarrow> nat \<Rightarrow> mem" where
  "stosb m addr c 0 = m"
| "stosb m addr c (Suc cnt) = stosb (m(addr := c)) (addr + 1) c cnt"

fun stosl :: "mem \<Rightarrow> nat \<Rightarrow> uint32 \<Rightarrow> nat \<Rightarrow> mem" where
  "stosl m addr w 0 = m"
| "stosl m addr w (Suc cnt) =
     stosl (m(addr := ucast w, addr + 1 := ucast (drop_bit 8 w),
              addr + 2 := ucast (drop_bit 16 w), addr + 3 := ucast (drop_bit 24 w)))
       (addr + 4) w cnt"

definition memset :: "mem \<Rightarrow> nat \<Rightarrow> uint32 \<Rightarrow> nat \<Rightarrow> mem" where
  "memset m dst c n =
     (if dst mod 4 = 0 \<and> n mod 4 = 0 then
        let c = c AND 0xFF in
        stosl m dst (push_bit 24 c OR push_bit 16 c OR push_bit 8 c OR c) (n div 4)
      else stosb m dst (ucast c) n)"

fun memcmp :: "view \<Rightarrow> view \<Rightarrow> nat \<Rightarrow> int" where
  "memcmp s1 s2 0 = 0"
| "memcmp s1 s2 (Suc n) =
     (if s1 0 \<noteq> s2 0 then uint (s1 0) - uint (s2 0)
      else memcmp (\<lambda>i. s1 (i + 1)) (\<lambda>i. s2 (i + 1)) n)"

fun copy_down :: "mem \<Rightarrow> nat \<Rightarrow> nat \<Rightarrow> nat \<Rightarrow> mem" where
  "copy_down m d s 0 = m"
| "copy_down m d s (Suc n) = copy_down (m(d + n := m (s + n))) d s n"

fun copy_up :: "mem \<Rightarrow> nat \<Rightarrow> nat \<Rightarrow> nat \<Rightarrow> mem" where
  "copy_up m d s 0 = m"
| "copy_up m d s (Suc n) = copy_up (m(d := m s)) (d + 1) (s + 1) n"

definition memmove :: "mem \<Rightarrow> nat \<Rightarrow> nat \<Rightarrow> nat \<Rightarrow> mem" where
  "memmove m dst src n =
     (if src < dst \<and> src + n > dst then copy_down m dst src n else copy_up m dst src n)"

definition memcpy :: "mem \<Rightarrow> nat \<Rightarrow> nat \<Rightarrow> nat \<Rightarrow> mem" where
  "memcpy m dst src n = memmove m dst src n"

fun strncmp :: "view \<Rightarrow> view \<Rightarrow> nat \<Rightarrow> int" where
  "strncmp p q 0 = 0"
| "strncmp p q (Suc n) =
     (if p 0 \<noteq> 0 \<and> p 0 = q 0 then strncmp (\<lambda>i. p (i + 1)) (\<lambda>i. q (i + 1)) n
      else uint (p 0) - uint (q 0))"

fun strncpy_loop :: "mem \<Rightarrow> nat \<Rightarrow> nat \<Rightarrow> nat \<Rightarrow> mem" where
  "strncpy_loop m s t 0 = m"
| "strncpy_loop m s t (Suc n) =
     (let c = m t; m = m(s := c) in
      if c \<noteq> 0 then strncpy_loop m (s + 1) (t + 1) n else stosb m (s + 1) 0 n)"

definition strncpy :: "mem \<Rightarrow> nat \<Rightarrow> nat \<Rightarrow> int \<Rightarrow> mem" where
  "strncpy m s t n = strncpy_loop m s t (nat n)"

fun safestrcpy_loop :: "mem \<Rightarrow> nat \<Rightarrow> nat \<Rightarrow> nat \<Rightarrow> mem" where
  "safestrcpy_loop m s t 0 = m(s := 0)"
| "safestrcpy_loop m s t (Suc n) =
     (let c = m t; m = m(s := c) in
      if c \<noteq> 0 then safestrcpy_loop m (s + 1) (t + 1) n else m(s + 1 := 0))"

definition safestrcpy :: "mem \<Rightarrow> nat \<Rightarrow> nat \<Rightarrow> int \<Rightarrow> mem" where
  "safestrcpy m s t n = (if n \<le> 0 then m else safestrcpy_loop m s t (nat n - 1))"

partial_function (option) strlen :: "view \<Rightarrow> nat \<Rightarrow> nat option" where
  "strlen s n = (if s n \<noteq> 0 then strlen s (n + 1) else Some n)"

partial_function (option) strcpy :: "mem \<Rightarrow> nat \<Rightarrow> nat \<Rightarrow> mem option" where
  "strcpy m s t =
     (let c = m t; m = m(s := c) in if c \<noteq> 0 then strcpy m (s + 1) (t + 1) else Some m)"

partial_function (option) strcmp :: "view \<Rightarrow> view \<Rightarrow> nat \<Rightarrow> int option" where
  "strcmp p q i =
     (if p i \<noteq> 0 \<and> p i = q i then strcmp p q (i + 1) else Some (uint (p i) - uint (q i)))"

definition umemset :: "mem \<Rightarrow> nat \<Rightarrow> uint32 \<Rightarrow> nat \<Rightarrow> mem" where
  "umemset m dst c n = stosb m dst (ucast c) n"

partial_function (option) strchr :: "view \<Rightarrow> byte \<Rightarrow> nat \<Rightarrow> nat option option" where
  "strchr s c i =
     (if s i = 0 then Some None else if s i = c then Some (Some i) else strchr s c (i + 1))"

definition isdig :: "byte \<Rightarrow> bool" where
  "isdig c \<longleftrightarrow> 48 \<le> c \<and> c \<le> 57"

text \<open>
  \<^verbatim>\<open>n*10 + *s++ - '0'\<close> is computed in \<^verbatim>\<open>int\<close>, the sum first; a sum that does not fit is undefined behaviour, and
  \<open>None\<close> stands for a string without an end.
\<close>

partial_function (option) atoi_loop :: "view \<Rightarrow> nat \<Rightarrow> int \<Rightarrow> int res option" where
  "atoi_loop s i n =
     (if isdig (s i) then
        if n * 10 + uint (s i) < 2 ^ 31 then atoi_loop s (i + 1) (n * 10 + uint (s i) - 48) else Some Undef
      else Some (Ok n))"

definition atoi :: "view \<Rightarrow> int res option" where
  "atoi s = atoi_loop s 0 0"

definition umemmove :: "mem \<Rightarrow> nat \<Rightarrow> nat \<Rightarrow> int \<Rightarrow> mem" where
  "umemmove m dst src n = copy_up m dst src (nat n)"

text \<open>
  \<^verbatim>\<open>gets\<close> over the bytes standard input still has to deliver. \<open>None\<close> in the input is a
  \<^verbatim>\<open>read\<close> that fails; the end of the list is the end of file.
\<close>

fun gets_loop :: "byte option list \<Rightarrow> nat \<Rightarrow> byte list \<times> byte option list" where
  "gets_loop inp 0 = ([], inp)"
| "gets_loop [] (Suc k) = ([], [])"
| "gets_loop (None # inp) (Suc k) = ([], inp)"
| "gets_loop (Some c # inp) (Suc k) =
     (if c = 10 \<or> c = 13 then ([c], inp)
      else let (cs, rest) = gets_loop inp k in (c # cs, rest))"

definition gets :: "byte option list \<Rightarrow> int \<Rightarrow> byte list \<times> byte option list" where
  "gets inp maxn = (let (cs, rest) = gets_loop inp (nat (maxn - 1)) in (cs @ [0], rest))"

section \<open>Filling and moving memory\<close>

lemma stosb_eq: "stosb m dst c n a = (if dst \<le> a \<and> a < dst + n then c else m a)"
proof (induction n arbitrary: m dst)
  case (Suc n)
  show ?case unfolding stosb.simps Suc by auto
qed auto

lemma and_0xFF: "(c :: uint32) AND 0xFF = take_bit 8 c"
proof -
  have "(0xFF :: uint32) = mask 8" by (simp add: mask_eq_exp_minus_1)
  then show ?thesis by (simp only: take_bit_eq_mask)
qed

lemma memset_word:
  fixes c :: uint32
  defines "w \<equiv> (let c = c AND 0xFF in push_bit 24 c OR push_bit 16 c OR push_bit 8 c OR c)"
  shows "(ucast w :: byte) = ucast c" "(ucast (drop_bit 8 w) :: byte) = ucast c"
    "(ucast (drop_bit 16 w) :: byte) = ucast c" "(ucast (drop_bit 24 w) :: byte) = ucast c"
  unfolding w_def Let_def and_0xFF
  by (rule bit_word_eqI; auto simp: bit_simps)+

lemma stosl_eq:
  assumes "(ucast w :: byte) = c" "(ucast (drop_bit 8 w) :: byte) = c"
    "(ucast (drop_bit 16 w) :: byte) = c" "(ucast (drop_bit 24 w) :: byte) = c"
  shows "stosl m dst w n a = (if dst \<le> a \<and> a < dst + 4 * n then c else m a)"
proof (induction n arbitrary: m dst)
  case (Suc n)
  show ?case unfolding stosl.simps Suc assms by auto
qed auto

lemma memset_bytes: "memset m dst c n a = (if dst \<le> a \<and> a < dst + n then ucast c else m a)"
  using stosl_eq [OF memset_word, of m dst c "n div 4" a]
  by (auto simp: memset_def stosb_eq Let_def)

lemma copy_down_eq:
  "s \<le> d \<Longrightarrow> copy_down m d s n a = (if d \<le> a \<and> a < d + n then m (s + (a - d)) else m a)"
proof (induction n arbitrary: m)
  case (Suc n)
  show ?case unfolding copy_down.simps Suc.IH [OF Suc.prems] using Suc.prems by (auto simp: less_Suc_eq)
qed auto

lemma copy_up_eq:
  "d \<le> s \<or> s + n \<le> d \<Longrightarrow> copy_up m d s n a = (if d \<le> a \<and> a < d + n then m (s + (a - d)) else m a)"
proof (induction n arbitrary: m d s)
  case (Suc n)
  then have "d + 1 \<le> s + 1 \<or> s + 1 + n \<le> d + 1" by auto
  note IH = Suc.IH [OF this]
  consider "a < d" | "a = d" | "d + 1 \<le> a" by linarith
  then show ?case
  proof cases
    case 3
    then have eq: "s + 1 + (a - (d + 1)) = s + (a - d)" by simp
    show ?thesis unfolding copy_up.simps IH eq using 3 Suc.prems by auto
  qed (unfold copy_up.simps IH, auto)
qed auto

lemma memmove_bytes:
  "memmove m dst src n a = (if dst \<le> a \<and> a < dst + n then m (src + (a - dst)) else m a)"
  by (auto simp: memmove_def copy_down_eq copy_up_eq)

section \<open>Strings\<close>

text \<open>\<open>cstr s xs\<close>: the view \<open>s\<close> starts with the characters \<open>xs\<close> and a NUL.\<close>

definition cstr :: "view \<Rightarrow> byte list \<Rightarrow> bool" where
  "cstr s xs \<longleftrightarrow> 0 \<notin> set xs \<and> (\<forall>i < length xs. s i = xs ! i) \<and> s (length xs) = 0"

lemma cstr_Nil [simp]: "cstr s [] \<longleftrightarrow> s 0 = 0"
  by (simp add: cstr_def)

lemma cstr_Cons [simp]: "cstr s (x # xs) \<longleftrightarrow> x \<noteq> 0 \<and> s 0 = x \<and> cstr (\<lambda>i. s (i + 1)) xs"
  by (auto simp: cstr_def nth_Cons One_nat_def split: nat.splits)

lemma strlen_ok: "cstr (\<lambda>i. s (k + i)) xs \<Longrightarrow> strlen s k = Some (k + length xs)"
proof (induction xs arbitrary: k)
  case Nil
  then show ?case by (subst strlen.simps) simp
next
  case (Cons x xs)
  then have "strlen s (k + 1) = Some (k + 1 + length xs)" by (intro Cons.IH) (simp add: add_ac)
  then show ?case using Cons.prems by (subst strlen.simps) simp
qed

text \<open>The name a buffer of at most \<open>n\<close> characters holds.\<close>

fun name_of :: "view \<Rightarrow> nat \<Rightarrow> byte list" where
  "name_of p 0 = []"
| "name_of p (Suc n) = (if p 0 = 0 then [] else p 0 # name_of (\<lambda>i. p (i + 1)) n)"

lemma name_of_cstr: "cstr p xs \<Longrightarrow> name_of p n = take n xs"
proof (induction n arbitrary: p xs)
  case (Suc n)
  then show ?case by (cases xs) auto
qed simp

lemma strncmp_zero: "strncmp p q n = 0 \<longleftrightarrow> name_of p n = name_of q n"
proof (induction p q n rule: strncmp.induct)
  case (2 p q n)
  then show ?case by (auto simp: uint_0_iff dest: word_eq_iff_unsigned [THEN iffD2])
qed simp

lemma strncmp_sym: "strncmp q p n = - strncmp p q n"
  by (induction p q n rule: strncmp.induct) auto

lemma strncmp_range: "- 255 \<le> strncmp p q n \<and> strncmp p q n \<le> 255"
proof (induction p q n rule: strncmp.induct)
  case (2 p q n)
  have "uint (p 0) < 256" "uint (q 0) < 256" "0 \<le> uint (p 0)" "0 \<le> uint (q 0)"
    using uint_lt2p [of "p 0"] uint_lt2p [of "q 0"] by simp_all
  then have "- 255 \<le> uint (p 0) - uint (q 0) \<and> uint (p 0) - uint (q 0) \<le> 255" by linarith
  then show ?case using 2 by (cases "p 0 \<noteq> 0 \<and> p 0 = q 0") auto
qed simp

lemma length_name_of: "length (name_of p n) \<le> n"
  by (induction p n rule: name_of.induct) auto

lemma name_of_cong: "(\<And>i. i < n \<Longrightarrow> p i = q i) \<Longrightarrow> name_of p n = name_of q n"
proof (induction n arbitrary: p q)
  case (Suc n)
  have "name_of (\<lambda>i. p (i + 1)) n = name_of (\<lambda>i. q (i + 1)) n"
    by (rule Suc.IH) (use Suc.prems in simp)
  then show ?case using Suc.prems [of 0] by simp
qed simp

text \<open>A copy of a name is padded with NULs up to the size of the field.\<close>

definition padded :: "byte list \<Rightarrow> nat \<Rightarrow> byte" where
  "padded xs i = (if i < length xs then xs ! i else 0)"

lemma padded_simps [simp]: "padded [] i = 0" "padded (x # xs) 0 = x" "padded (x # xs) (Suc i) = padded xs i"
  by (simp_all add: padded_def)

lemma strncpy_loop_eq:
  assumes "s + n \<le> t \<or> t + n \<le> s"
  shows "strncpy_loop m s t n a =
    (if s \<le> a \<and> a < s + n then padded (name_of (\<lambda>i. m (t + i)) n) (a - s) else m a)"
  using assms
proof (induction n arbitrary: m s t)
  case (Suc n)
  let ?m = "m(s := m t)"
  have IH: "strncpy_loop ?m (s + 1) (t + 1) n a =
    (if s + 1 \<le> a \<and> a < s + 1 + n then padded (name_of (\<lambda>i. ?m (t + 1 + i)) n) (a - (s + 1)) else ?m a)"
    by (rule Suc.IH) (use Suc.prems in auto)
  have eq: "name_of (\<lambda>i. ?m (t + 1 + i)) n = name_of (\<lambda>i. m (t + 1 + i)) n"
    by (rule name_of_cong) (use Suc.prems in auto)
  consider "a < s" | "a = s" | "s + 1 \<le> a" by linarith
  then show ?case
  proof cases
    case 3
    then have "a - s = Suc (a - (s + 1))" by simp
    then show ?thesis
      using 3 IH eq by (simp add: Let_def stosb_eq add_ac)
  qed (use IH in \<open>auto simp: Let_def stosb_eq\<close>)
qed auto

lemma strncpy_padded:
  assumes "s + nat n \<le> t \<or> t + nat n \<le> s"
  shows "strncpy m s t n a =
    (if s \<le> a \<and> a < s + nat n then padded (name_of (\<lambda>i. m (t + i)) (nat n)) (a - s) else m a)"
  unfolding strncpy_def using assms by (rule strncpy_loop_eq)

lemma safestrcpy_loop_eq:
  assumes "s + n < t \<or> t + n \<le> s"
  shows "a < s \<or> s + n < a \<Longrightarrow> safestrcpy_loop m s t n a = m a"
    "cstr (\<lambda>i. safestrcpy_loop m s t n (s + i)) (name_of (\<lambda>i. m (t + i)) n)"
  using assms
proof (induction n arbitrary: m s t a)
  case (Suc n)
  {
    case (1 m s t a)
    let ?m = "m(s := m t)"
    have "safestrcpy_loop ?m (s + 1) (t + 1) n a = ?m a" by (rule Suc.IH(1)) (use 1 in auto)
    then show ?case using 1 by (auto simp: Let_def)
  next
    case (2 m s t)
    let ?m = "m(s := m t)"
    have eq: "name_of (\<lambda>i. ?m (t + 1 + i)) n = name_of (\<lambda>i. m (t + 1 + i)) n"
      by (rule name_of_cong) (use 2 in auto)
    have keep: "safestrcpy_loop ?m (s + 1) (t + 1) n s = ?m s"
      by (rule Suc.IH(1)) (use 2 in auto)
    have "cstr (\<lambda>i. safestrcpy_loop ?m (s + 1) (t + 1) n (s + 1 + i)) (name_of (\<lambda>i. ?m (t + 1 + i)) n)"
      by (rule Suc.IH(2)) (use 2 in auto)
    then show ?case using keep eq by (simp add: Let_def add_ac)
  }
qed auto

lemma strcmp_ok:
  "cstr (\<lambda>i. p (k + i)) xs \<Longrightarrow> cstr (\<lambda>i. q (k + i)) ys \<Longrightarrow>
   \<exists>r. strcmp p q k = Some r \<and> (r = 0 \<longleftrightarrow> xs = ys)"
proof (induction xs arbitrary: k ys)
  case Nil
  then show ?case by (subst strcmp.simps) (cases ys; auto simp: uint_0_iff)
next
  case (Cons x xs)
  show ?case
  proof (cases "ys \<noteq> [] \<and> hd ys = x")
    case True
    then obtain ys' where ys: "ys = x # ys'" by (cases ys) auto
    have "\<exists>r. strcmp p q (k + 1) = Some r \<and> (r = 0 \<longleftrightarrow> xs = ys')"
      by (rule Cons.IH) (use Cons.prems ys in \<open>simp_all add: add_ac\<close>)
    then show ?thesis using Cons.prems ys by (subst strcmp.simps) simp
  next
    case False
    then have "q k \<noteq> p k" using Cons.prems by (cases ys) auto
    then show ?thesis using Cons.prems False
      by (subst strcmp.simps) (auto dest: word_eq_iff_unsigned [THEN iffD2])
  qed
qed

text \<open>The number a sequence of decimal digits denotes, most significant first.\<close>

definition decimal :: "byte list \<Rightarrow> int" where
  "decimal ds = foldl (\<lambda>n c. n * 10 + (uint c - 48)) 0 ds"

lemma decimal_mono:
  "(\<forall>c \<in> set ds. isdig c) \<Longrightarrow> 0 \<le> n \<Longrightarrow> n \<le> foldl (\<lambda>n c. n * 10 + (uint c - 48)) n ds"
proof (induction ds arbitrary: n)
  case (Cons d ds)
  have "48 \<le> uint d" using Cons.prems(1) by (simp add: isdig_def word_le_def)
  then have "n \<le> n * 10 + (uint d - 48)" using Cons.prems(2) by simp
  also have "\<dots> \<le> foldl (\<lambda>n c. n * 10 + (uint c - 48)) (n * 10 + (uint d - 48)) ds"
    using Cons.prems \<open>48 \<le> uint d\<close> by (intro Cons.IH) simp_all
  finally show ?case by simp
qed simp

lemma atoi_loop_ok:
  "(\<And>i. i < length ds \<Longrightarrow> s (k + i) = ds ! i) \<Longrightarrow> (\<forall>c \<in> set ds. isdig c) \<Longrightarrow>
   \<not> isdig (s (k + length ds)) \<Longrightarrow> 0 \<le> n \<Longrightarrow> foldl (\<lambda>n c. n * 10 + (uint c - 48)) n ds < 2 ^ 31 - 48 \<Longrightarrow>
   atoi_loop s k n = Some (Ok (foldl (\<lambda>n c. n * 10 + (uint c - 48)) n ds))"
proof (induction ds arbitrary: k n)
  case Nil
  then show ?case by (subst atoi_loop.simps) simp
next
  case (Cons d ds)
  have d: "s k = d" using Cons.prems(1) [of 0] by simp
  have g: "48 \<le> uint d" using Cons.prems(2) by (simp add: isdig_def word_le_def)
  have "atoi_loop s (k + 1) (n * 10 + (uint d - 48)) =
    Some (Ok (foldl (\<lambda>n c. n * 10 + (uint c - 48)) (n * 10 + (uint d - 48)) ds))"
  proof (rule Cons.IH)
    show "s (k + 1 + i) = ds ! i" if "i < length ds" for i
      using Cons.prems(1) [of "Suc i"] that by (simp add: One_nat_def)
  qed (use Cons.prems g in \<open>simp_all add: One_nat_def\<close>)
  moreover have "n * 10 + (uint d - 48) \<le> foldl (\<lambda>n c. n * 10 + (uint c - 48)) (n * 10 + (uint d - 48)) ds"
    using Cons.prems(2,4) g by (intro decimal_mono) simp_all
  ultimately show ?case using Cons.prems(2,5) d by (subst atoi_loop.simps) (simp add: algebra_simps)
qed

lemma gets_loop_length: "length (fst (gets_loop inp k)) \<le> k"
  by (induction inp k rule: gets_loop.induct) (auto split: prod.split simp: Let_def)

lemma gets_loop_rest: "map Some (fst (gets_loop inp k)) @ snd (gets_loop inp k) = inp \<or>
   map Some (fst (gets_loop inp k)) @ None # snd (gets_loop inp k) = inp"
  by (induction inp k rule: gets_loop.induct) (auto split: prod.split simp: Let_def)

end
