(* ===== verification/Ide.thy ===== *)
theory Ide
  imports Bio
begin

text \<open>
  The interrupt-driven disk driver (\<^verbatim>\<open>ide.c\<close>). Requests wait in a queue linked through
  \<^verbatim>\<open>qnext\<close>; the head is the one the disk is working on, and each interrupt completes it and
  starts the next. The processor talks to the disk through I/O ports: \<open>wire\<close> is everything it has sent,
  oldest first, and the status and data bytes it receives are arguments of the routines that read them.

  The theory shows that the driver implements the one-step disk of \<^verbatim>\<open>memide.c\<close>, on which the buffer
  cache is verified: whatever the order of requests and interrupts, the requests take effect one
  at a time in the order they were made, each as a single \<^verbatim>\<open>iderw\<close> of \<^verbatim>\<open>memide.c\<close>.
\<close>

section \<open>State\<close>

datatype pio = Outb "16 word" byte | Outsl "16 word" "byte list"

record ide_st =
  ibufs :: "buf list"
  idequeue :: "nat option"
  qnext :: "nat option list"
  havedisk1 :: bool
  wire :: "pio list"
  waiting :: "nat list"

definition SECTOR_SIZE :: nat where "SECTOR_SIZE = 512"
definition IDE_BSY :: byte where "IDE_BSY = 0x80"
definition IDE_DRDY :: byte where "IDE_DRDY = 0x40"
definition IDE_DF :: byte where "IDE_DF = 0x20"
definition IDE_ERR :: byte where "IDE_ERR = 0x01"
definition IDE_CMD_READ :: byte where "IDE_CMD_READ = 0x20"
definition IDE_CMD_WRITE :: byte where "IDE_CMD_WRITE = 0x30"
definition IDE_CMD_RDMUL :: byte where "IDE_CMD_RDMUL = 0xc4"
definition IDE_CMD_WRMUL :: byte where "IDE_CMD_WRMUL = 0xc5"

section \<open>Operations\<close>

definition outb :: "16 word \<Rightarrow> byte \<Rightarrow> ide_st \<Rightarrow> ide_st" where
  "outb p v s = s\<lparr>wire := wire s @ [Outb p v]\<rparr>"

definition outsl :: "16 word \<Rightarrow> byte list \<Rightarrow> nat \<Rightarrow> ide_st \<Rightarrow> ide_st" where
  "outsl p d cnt s = s\<lparr>wire := wire s @ [Outsl p (take (4 * cnt) d)]\<rparr>"

text \<open>
  \<^verbatim>\<open>idewait\<close> polls the status port; \<open>sts\<close> are the values successive reads of the port give.
  The result is the return value and the values not yet read; a port that never becomes ready keeps
  the processor in the loop.
\<close>

fun idewait :: "bool \<Rightarrow> byte list \<Rightarrow> (int \<times> byte list) res" where
  "idewait checkerr [] = Blocks"
| "idewait checkerr (r # sts) =
     (if r AND (IDE_BSY OR IDE_DRDY) \<noteq> IDE_DRDY then idewait checkerr sts
      else if checkerr \<and> r AND (IDE_DF OR IDE_ERR) \<noteq> 0 then Ok (-1, sts)
      else Ok (0, sts))"

text \<open>
  \<^verbatim>\<open>ideinit\<close>; \<open>probe\<close> are the values the status port gives with disk 1 selected. The routing of the
  interrupt (\<^verbatim>\<open>ioapicenable\<close>) concerns another device and has no state here.
\<close>

definition ideinit :: "byte list \<Rightarrow> byte list \<Rightarrow> ide_st \<Rightarrow> ide_st res" where
  "ideinit sts probe s =
     bnd (idewait False sts) (\<lambda>(_, sts).
     let s = outb 0x1f6 (0xe0 OR push_bit 4 1) s;
         s = s\<lparr>havedisk1 := havedisk1 s \<or> (\<exists>v \<in> set (take 1000 probe). v \<noteq> 0)\<rparr>
     in Ok (outb 0x1f6 (0xe0 OR push_bit 4 0) s))"

definition idestart :: "nat option \<Rightarrow> byte list \<Rightarrow> ide_st \<Rightarrow> (byte list \<times> ide_st) res" where
  "idestart bp sts s =
     (case bp of None \<Rightarrow> Panic ''idestart''
      | Some i \<Rightarrow>
        let b = ibufs s ! i in
        if b_blockno b \<ge> FSSIZE then Panic ''incorrect blockno''
        else
          let sector_per_block = BSIZE div SECTOR_SIZE;
              sector = (word_of_nat (b_blockno b * sector_per_block) :: uint32);
              read_cmd = (if sector_per_block = 1 then IDE_CMD_READ else IDE_CMD_RDMUL);
              write_cmd = (if sector_per_block = 1 then IDE_CMD_WRITE else IDE_CMD_WRMUL)
          in
          if sector_per_block > 7 then Panic ''idestart''
          else
            bnd (idewait False sts) (\<lambda>(_, sts).
            let s = outb 0x3f6 0 s;
                s = outb 0x1f2 (word_of_nat sector_per_block) s;
                s = outb 0x1f3 (ucast (sector AND 0xff)) s;
                s = outb 0x1f4 (ucast (signed_drop_bit 8 sector AND 0xff)) s;
                s = outb 0x1f5 (ucast (signed_drop_bit 16 sector AND 0xff)) s;
                s = outb 0x1f6 (ucast (0xe0 OR push_bit 4 ((word_of_nat (b_dev b) :: uint32) AND 1)
                      OR (signed_drop_bit 24 sector AND 0x0f))) s
            in
            if has_flag (b_flags b) B_DIRTY then
              Ok (sts, outsl 0x1f0 (b_data b) (BSIZE div 4) (outb 0x1f7 write_cmd s))
            else Ok (sts, outb 0x1f7 read_cmd s)))"

definition ide_set_buf :: "nat \<Rightarrow> buf \<Rightarrow> ide_st \<Rightarrow> ide_st" where
  "ide_set_buf i b s = s\<lparr>ibufs := (ibufs s)[i := b]\<rparr>"

text \<open>
  The interrupt handler; \<open>din\<close> are the bytes the data port delivers. \<^verbatim>\<open>insl\<close> overwrites the first
  \<^verbatim>\<open>BSIZE\<close> bytes of the buffer.
\<close>

definition ideintr :: "byte list \<Rightarrow> byte list \<Rightarrow> ide_st \<Rightarrow> ide_st res" where
  "ideintr sts din s =
     (case idequeue s of None \<Rightarrow> Ok s
      | Some i \<Rightarrow>
        let s = s\<lparr>idequeue := qnext s ! i\<rparr>; b = ibufs s ! i in
        bnd (if \<not> has_flag (b_flags b) B_DIRTY then
               bnd (idewait True sts) (\<lambda>(r, sts).
               Ok (sts, if r \<ge> 0 then ide_set_buf i (b\<lparr>b_data := take BSIZE din @ drop BSIZE (b_data b)\<rparr>) s else s))
             else Ok (sts, s)) (\<lambda>(sts, s).
        let b = ibufs s ! i;
            s = ide_set_buf i (b\<lparr>b_flags := (b_flags b OR B_VALID) AND NOT B_DIRTY\<rparr>) s
        in
        if idequeue s \<noteq> None then bnd (idestart (idequeue s) sts s) (\<lambda>(_, s). Ok s) else Ok s))"

text \<open>
  The walk of \<^verbatim>\<open>iderw\<close> to the end of the queue: the buffer whose \<^verbatim>\<open>qnext\<close> is null. A queue is
  never longer than the number of buffers, which bounds the walk; more steps mean a cycle.
\<close>

fun last_slot :: "nat \<Rightarrow> nat option list \<Rightarrow> nat \<Rightarrow> nat res" where
  "last_slot 0 qn p = Blocks"
| "last_slot (Suc fuel) qn p = (case qn ! p of None \<Rightarrow> Ok p | Some p' \<Rightarrow> last_slot fuel qn p')"

definition ide_append :: "nat \<Rightarrow> ide_st \<Rightarrow> ide_st res" where
  "ide_append i s =
     (let s = s\<lparr>qnext := (qnext s)[i := None]\<rparr> in
      case idequeue s of None \<Rightarrow> Ok (s\<lparr>idequeue := Some i\<rparr>)
      | Some p \<Rightarrow> bnd (last_slot (length (qnext s)) (qnext s) p) (\<lambda>l. Ok (s\<lparr>qnext := (qnext s)[l := Some i]\<rparr>)))"

text \<open>
  \<^verbatim>\<open>iderw\<close> up to its first \<^verbatim>\<open>sleep\<close>, and one turn of its loop after a wake-up: it returns
  (\<open>True\<close>) or sleeps again. \<open>waiting\<close> are the buffers whose requester is in the loop.
\<close>

definition iderw_submit :: "nat \<Rightarrow> byte list \<Rightarrow> ide_st \<Rightarrow> ide_st res" where
  "iderw_submit i sts s =
     (let b = ibufs s ! i in
      if \<not> holdingsleep (b_lock b) then Panic ''iderw: buf not locked''
      else if b_flags b AND (B_VALID OR B_DIRTY) = B_VALID then Panic ''iderw: nothing to do''
      else if b_dev b \<noteq> 0 \<and> \<not> havedisk1 s then Panic ''iderw: ide disk 1 not present''
      else
        bnd (ide_append i s) (\<lambda>s.
        bnd (if idequeue s = Some i then bnd (idestart (Some i) sts s) (\<lambda>(_, s). Ok s) else Ok s) (\<lambda>s.
        Ok (s\<lparr>waiting := i # waiting s\<rparr>))))"

definition iderw_wake :: "nat \<Rightarrow> ide_st \<Rightarrow> bool \<times> ide_st" where
  "iderw_wake i s =
     (if b_flags (ibufs s ! i) AND (B_VALID OR B_DIRTY) \<noteq> B_VALID then (False, s)
      else (True, s\<lparr>waiting := remove1 i (waiting s)\<rparr>))"

section \<open>The disk at the other end of the wire\<close>

text \<open>
  How an ATA disk reads the bytes sent to it: registers 1f3 to 1f6 hold the sector number, bit 4 of 1f6
  selects the unit, 1f7 receives the command; the data that follows a write command is stored in
  the sector, and after a read command the data port delivers the sector.
\<close>

record ata =
  a_lo :: byte
  a_mid :: byte
  a_high :: byte
  a_head :: byte
  a_cmd :: byte
  a_media :: "bool \<Rightarrow> nat \<Rightarrow> byte list"

definition ata_unit :: "ata \<Rightarrow> bool" where
  "ata_unit a = bit (a_head a) 4"

definition ata_sector :: "ata \<Rightarrow> nat" where
  "ata_sector a = unat (a_lo a) + 2 ^ 8 * unat (a_mid a) + 2 ^ 16 * unat (a_high a) + 2 ^ 24 * unat (a_head a AND 0x0f)"

fun ata_io :: "pio \<Rightarrow> ata \<Rightarrow> ata" where
  "ata_io (Outb p v) a =
     (if p = 0x1f3 then a\<lparr>a_lo := v\<rparr> else if p = 0x1f4 then a\<lparr>a_mid := v\<rparr>
      else if p = 0x1f5 then a\<lparr>a_high := v\<rparr> else if p = 0x1f6 then a\<lparr>a_head := v\<rparr>
      else if p = 0x1f7 then a\<lparr>a_cmd := v\<rparr> else a)"
| "ata_io (Outsl p d) a =
     (if p = 0x1f0 \<and> a_cmd a = 0x30
      then a\<lparr>a_media := (a_media a)(ata_unit a := (a_media a (ata_unit a))(ata_sector a := d))\<rparr> else a)"

definition ata_run :: "ata \<Rightarrow> pio list \<Rightarrow> ata" where
  "ata_run a ios = fold ata_io ios a"

definition ata_data :: "ata \<Rightarrow> byte list" where
  "ata_data a = a_media a (ata_unit a) (ata_sector a)"

section \<open>Runs of the driver and of the one-step disk\<close>

text \<open>
  A process makes a request, the disk interrupts, a process is woken (by the interrupt or by \<^verbatim>\<open>kill\<close>),
  or a process stores into a buffer it is not waiting for.
\<close>

datatype ide_ev = Submit nat "byte list" | Intr "byte list" "byte list" | Wake nat | Touch nat buf

fun ide_exec :: "ide_ev \<Rightarrow> ide_st \<Rightarrow> ide_st res" where
  "ide_exec (Submit i sts) s = iderw_submit i sts s"
| "ide_exec (Intr sts din) s = ideintr sts din s"
| "ide_exec (Wake i) s = Ok (if i \<in> set (waiting s) then snd (iderw_wake i s) else s)"
| "ide_exec (Touch i b) s = Ok (ide_set_buf i b s)"

fun ide_run :: "ide_ev list \<Rightarrow> ide_st \<Rightarrow> ide_st res" where
  "ide_run [] s = Ok s"
| "ide_run (e # es) s = bnd (ide_exec e s) (ide_run es)"

text \<open>
  The specification: a queue of requests and the set of waiting ones, beside the state of \<^verbatim>\<open>memide.c\<close>. An
  interrupt performs the \<^verbatim>\<open>iderw\<close> of \<^verbatim>\<open>memide.c\<close> for the oldest request, in one step.
\<close>

type_synonym mem_st = "bio_st \<times> nat list \<times> nat list"

fun mem_exec :: "ide_ev \<Rightarrow> mem_st \<Rightarrow> mem_st res" where
  "mem_exec (Submit i sts) (s, q, w) = Ok (s, q @ [i], i # w)"
| "mem_exec (Intr sts din) (s, q, w) =
     (case q of [] \<Rightarrow> Ok (s, q, w) | i # q' \<Rightarrow> bnd (iderw i s) (\<lambda>s. Ok (s, q', w)))"
| "mem_exec (Wake i) (s, q, w) = Ok (s, q, if i \<in> set w \<and> i \<notin> set q then remove1 i w else w)"
| "mem_exec (Touch i b) (s, q, w) = Ok (set_buf i b s, q, w)"

fun mem_run :: "ide_ev list \<Rightarrow> mem_st \<Rightarrow> mem_st res" where
  "mem_run [] a = Ok a"
| "mem_run (e # es) a = bnd (mem_exec e a) (mem_run es)"

text \<open>
  What the driver relies on. The requester holds the lock of a buffer that needs the disk, and has no
  request for it pending; the disk becomes ready, reports no error, and delivers the data it holds.
\<close>

definition drdy :: "byte \<Rightarrow> bool" where
  "drdy r \<longleftrightarrow> r AND (IDE_BSY OR IDE_DRDY) = IDE_DRDY"

definition ready :: "nat \<Rightarrow> byte list \<Rightarrow> bool" where
  "ready n sts \<longleftrightarrow> n \<le> length (filter drdy sts) \<and> list_all (\<lambda>r. drdy r \<longrightarrow> r AND (IDE_DF OR IDE_ERR) = 0) sts"

definition needs_disk :: "buf \<Rightarrow> bool" where
  "needs_disk b \<longleftrightarrow> holdingsleep (b_lock b) \<and> b_flags b AND (B_VALID OR B_DIRTY) \<noteq> B_VALID \<and>
     b_dev b = 1 \<and> b_blockno b < FSSIZE \<and> length (b_data b) = BSIZE"

fun ide_env :: "ata \<Rightarrow> ide_ev \<Rightarrow> ide_st \<Rightarrow> bool" where
  "ide_env a (Submit i sts) s \<longleftrightarrow> i < length (ibufs s) \<and> i \<notin> set (waiting s) \<and> needs_disk (ibufs s ! i) \<and> ready 1 sts"
| "ide_env a (Intr sts din) s \<longleftrightarrow> ready 2 sts \<and> din = ata_data (ata_run a (wire s))"
| "ide_env a (Wake i) s \<longleftrightarrow> True"
| "ide_env a (Touch i b) s \<longleftrightarrow> i < length (ibufs s) \<and> i \<notin> set (waiting s)"

fun ide_envs :: "ata \<Rightarrow> ide_ev list \<Rightarrow> ide_st \<Rightarrow> bool" where
  "ide_envs a [] s \<longleftrightarrow> True"
| "ide_envs a (e # es) s \<longleftrightarrow> ide_env a e s \<and> (case ide_exec e s of Ok t \<Rightarrow> ide_envs a es t | _ \<Rightarrow> True)"

section \<open>The refinement relation\<close>

fun qpath :: "nat option list \<Rightarrow> nat option \<Rightarrow> nat list \<Rightarrow> bool" where
  "qpath qn h [] \<longleftrightarrow> h = None"
| "qpath qn h (i # q) \<longleftrightarrow> h = Some i \<and> qpath qn (qn ! i) q"

text \<open>The disk's side of the relation: the medium, with the write in progress, and the command in progress.\<close>

definition disk_rel :: "ata \<Rightarrow> bio_st \<Rightarrow> nat list \<Rightarrow> bool" where
  "disk_rel a s q \<longleftrightarrow>
     (case q of [] \<Rightarrow> a_media a True = memdisk s
      | i # _ \<Rightarrow> (let b = bufs s ! i in
          ata_unit a \<and> ata_sector a = b_blockno b \<and>
          a_media a True = (if dirty b then (memdisk s)(b_blockno b := b_data b) else memdisk s)))"

definition ide_rel :: "ata \<Rightarrow> ide_st \<Rightarrow> mem_st \<Rightarrow> bool" where
  "ide_rel a c m \<longleftrightarrow>
     (case m of (s, q, w) \<Rightarrow>
        ibufs c = bufs s \<and> waiting c = w \<and> havedisk1 c \<and> length (qnext c) = length (bufs s) \<and>
        disksize s = FSSIZE \<and> (\<forall>n. length (memdisk s n) = BSIZE) \<and> qpath (qnext c) (idequeue c) q \<and> distinct w \<and> distinct q \<and> set q \<subseteq> set w \<and>
        (\<forall>i \<in> set w. i < length (bufs s)) \<and> (\<forall>i \<in> set q. needs_disk (bufs s ! i)) \<and>
        (\<forall>i \<in> set w - set q. b_flags (bufs s ! i) AND (B_VALID OR B_DIRTY) = B_VALID) \<and>
        disk_rel (ata_run a (wire c)) s q)"

section \<open>The registers\<close>

lemma signed_drop_small:
  fixes w :: uint32
  assumes "unat w < 2 ^ 31"
  shows "signed_drop_bit k w = drop_bit k w"
proof (rule bit_word_eqI)
  have "\<not> bit (unat w) 31" using assms by (simp add: bit_iff_odd)
  then have "\<not> bit w 31" by (simp add: bit_unsigned_iff)
  then show "bit (signed_drop_bit k w) n = bit (drop_bit k w) n" if "n < LENGTH(32)" for n
    using that by (auto simp: bit_signed_drop_bit_iff bit_drop_bit_eq not_le dest: bit_imp_le_length)
qed

lemma unat_ucast_byte: "unat (ucast (x AND 0xff :: uint32) :: byte) = unat x mod 2 ^ 8"
  "unat (ucast (x :: uint32) :: byte) = unat x mod 2 ^ 8"
proof -
  have m: "x AND 0xff = take_bit 8 x" by (simp add: take_bit_eq_mask mask_eq_exp_minus_1)
  have a: "unat (ucast (x :: uint32) :: byte) = unat x mod 2 ^ 8" for x by (simp add: unsigned_ucast_eq take_bit_eq_mod)
  have t: "unat (take_bit 8 x) = take_bit 8 (unat x)" by (rule unsigned_take_bit_eq)
  show "unat (ucast (x :: uint32) :: byte) = unat x mod 2 ^ 8" by (rule a)
  show "unat (ucast (x AND 0xff :: uint32) :: byte) = unat x mod 2 ^ 8"
    unfolding m a [of "take_bit 8 x"] t by (simp only: take_bit_eq_mod [of _ "unat x"] mod_mod_trivial)
qed

text \<open>The registers written for a block number name that block of that unit.\<close>

definition sector_regs :: "nat \<Rightarrow> uint32 \<Rightarrow> ata \<Rightarrow> ata" where
  "sector_regs dev sector a = a\<lparr>a_lo := ucast (sector AND 0xff), a_mid := ucast (signed_drop_bit 8 sector AND 0xff),
     a_high := ucast (signed_drop_bit 16 sector AND 0xff),
     a_head := ucast (0xe0 OR push_bit 4 ((word_of_nat dev :: uint32) AND 1) OR (signed_drop_bit 24 sector AND 0x0f))\<rparr>"

lemma sector_regs:
  assumes "n < FSSIZE"
  shows "ata_sector (sector_regs 1 (word_of_nat n) a) = n" "ata_unit (sector_regs 1 (word_of_nat n) a)"
proof -
  let ?w = "word_of_nat n :: uint32"
  have n: "n < 1000" using assms by (simp add: param_defs)
  then have u: "unat ?w = n" by (simp add: unat_of_nat take_bit_nat_eq_self)
  have d: "unat (signed_drop_bit k ?w) = n div 2 ^ k" for k
    using signed_drop_small [of ?w k] u n unat_drop_bit_eq [of k ?w] drop_bit_eq_div [of k n] by simp
  have "n div 2 ^ 24 = 0" using n by simp
  then have z: "signed_drop_bit 24 ?w = 0" using d [of 24] by (simp add: unat_eq_0)
  have h: "a_head (sector_regs 1 ?w a) = 0xf0" unfolding sector_regs_def by (simp add: z push_bit_eq_mult)
  show "ata_unit (sector_regs 1 ?w a)" unfolding ata_unit_def h by (simp add: bit_iff_odd)
  have "unat (a_lo (sector_regs 1 ?w a)) = n mod 2 ^ 8" "unat (a_mid (sector_regs 1 ?w a)) = n div 2 ^ 8 mod 2 ^ 8"
    "unat (a_high (sector_regs 1 ?w a)) = n div 2 ^ 16 mod 2 ^ 8"
    using unat_ucast_byte(1) [of ?w] unat_ucast_byte(1) [of "signed_drop_bit 8 ?w"]
      unat_ucast_byte(1) [of "signed_drop_bit 16 ?w"] by (simp_all add: sector_regs_def d u del: ucast_eq)
  then show "ata_sector (sector_regs 1 ?w a) = n" using n by (simp add: ata_sector_def h)
qed

section \<open>Queue and status\<close>

lemma idewait_ready: "ready (Suc n) sts \<Longrightarrow> \<exists>sts'. idewait ce sts = Ok (0, sts') \<and> ready n sts'"
  by (induction sts) (auto simp: ready_def drdy_def)

lemma ready_mono: "ready n sts \<Longrightarrow> m \<le> n \<Longrightarrow> ready m sts"
  by (simp add: ready_def)

lemma qpath_upd: "i \<notin> set q \<Longrightarrow> qpath (qn[i := x]) h q = qpath qn h q"
  by (induction q arbitrary: h) auto

lemma last_slot_path:
  "qpath qn (Some p) (p # q) \<Longrightarrow> length q < fuel \<Longrightarrow> last_slot fuel qn p = Ok (last (p # q))"
proof (induction q arbitrary: p fuel)
  case Nil
  then show ?case by (cases fuel) auto
next
  case (Cons r q)
  then show ?case by (cases fuel) auto
qed

lemma qpath_snoc:
  "qpath qn h q \<Longrightarrow> q \<noteq> [] \<Longrightarrow> distinct q \<Longrightarrow> set q \<subseteq> {..<length qn} \<Longrightarrow> qn ! i = None \<Longrightarrow> i \<notin> set q \<Longrightarrow>
   qpath (qn[last q := Some i]) h (q @ [i])"
proof (induction q arbitrary: h)
  case (Cons p q)
  show ?case
  proof (cases "q = []")
    case True
    then show ?thesis using Cons.prems by auto
  next
    case False
    then have "last q \<noteq> p" using Cons.prems(3) by auto
    then show ?thesis using Cons False by simp
  qed
qed simp

lemma queue_short: "distinct q \<Longrightarrow> set q \<subseteq> {..<n} \<Longrightarrow> length q \<le> (n :: nat)"
  using card_mono [of "{..<n}" "set q"] by (simp add: distinct_card)

lemma ide_append_ok:
  assumes q: "qpath (qnext s) (idequeue s) q" "distinct q" "set q \<subseteq> {..<length (qnext s)}"
    and i: "i \<notin> set q" "i < length (qnext s)"
  shows "\<exists>qn h. ide_append i s = Ok (s\<lparr>qnext := qn, idequeue := h\<rparr>) \<and> qpath qn h (q @ [i]) \<and>
    length qn = length (qnext s) \<and> (h = Some i \<longleftrightarrow> q = [])"
proof (cases q)
  case Nil
  then show ?thesis using q i by (auto simp: ide_append_def Let_def intro!: exI)
next
  case (Cons p q')
  let ?qn = "(qnext s)[i := None]"
  have P: "qpath ?qn (Some p) (p # q')" "idequeue s = Some p" using q(1) i Cons by (auto simp: qpath_upd)
  have "length q' < length (qnext s)" using queue_short [OF q(2,3)] Cons by simp
  then have l: "last_slot (length ?qn) ?qn p = Ok (last q)" using last_slot_path [OF P(1)] Cons by simp
  have "qpath (?qn[last q := Some i]) (Some p) (q @ [i])"
    by (rule qpath_snoc) (use P q i Cons in auto)
  then show ?thesis using l P(2) Cons i by (auto simp: ide_append_def Let_def intro!: exI)
qed

section \<open>Starting a request\<close>

lemma ata_run_snoc: "ata_run a (ios @ [x]) = ata_io x (ata_run a ios)"
  by (simp add: ata_run_def)

lemma idestart_ok:
  assumes b: "b = ibufs s ! i" "needs_disk b" and r: "ready (Suc n) sts"
  shows "\<exists>sts' w a'. idestart (Some i) sts s = Ok (sts', s\<lparr>wire := w\<rparr>) \<and> ready n sts' \<and> ata_run a w = a' \<and>
    ata_unit a' \<and> ata_sector a' = b_blockno b \<and>
    a_media a' = (if dirty b then (a_media (ata_run a (wire s)))(True := (a_media (ata_run a (wire s)) True)(b_blockno b := b_data b))
      else a_media (ata_run a (wire s)))"
proof -
  obtain sts' where w: "idewait False sts = Ok (0, sts')" "ready n sts'" using idewait_ready [OF r] by blast
  have B: "b_blockno b < FSSIZE" "b_dev b = 1" "length (b_data b) = BSIZE" using b(2) by (simp_all add: needs_disk_def)
  let ?a = "ata_run a (wire s)" and ?r = "sector_regs 1 (word_of_nat (b_blockno b))"
  have sp: "BSIZE div SECTOR_SIZE = 1" "4 * (BSIZE div 4) = BSIZE" by (simp_all add: param_defs SECTOR_SIZE_def)
  have u: "ata_unit (?r x\<lparr>a_cmd := c\<rparr>)" "ata_sector (?r x\<lparr>a_cmd := c\<rparr>) = b_blockno b" for x c
    using sector_regs [OF B(1)] by (simp_all add: ata_unit_def ata_sector_def)
  let ?regs = "[Outb 0x3f6 0, Outb 0x1f2 1, Outb 0x1f3 (a_lo (?r ?a)), Outb 0x1f4 (a_mid (?r ?a)),
    Outb 0x1f5 (a_high (?r ?a)), Outb 0x1f6 (a_head (?r ?a))]"
  let ?w = "wire s @ ?regs @ (if dirty b then [Outb 0x1f7 0x30, Outsl 0x1f0 (b_data b)] else [Outb 0x1f7 0x20])"
  have "idestart (Some i) sts s = Ok (sts', s\<lparr>wire := ?w\<rparr>)"
    using w(1) B unfolding idestart_def
    by (simp add: b(1) [symmetric] Let_def sp outb_def outsl_def sector_regs_def has_flag_bit IDE_CMD_READ_def IDE_CMD_WRITE_def)
  moreover have "ata_run a (wire s @ ?regs) = ?r ?a"
    unfolding ata_run_def fold_append by (simp add: sector_regs_def)
  then have "ata_run a ?w = (if dirty b then ata_io (Outsl 0x1f0 (b_data b)) (?r ?a\<lparr>a_cmd := 0x30\<rparr>) else ?r ?a\<lparr>a_cmd := 0x20\<rparr>)"
    unfolding ata_run_def append_assoc [symmetric] fold_append by simp
  moreover have "a_media (?r ?a) = a_media ?a" by (simp add: sector_regs_def)
  ultimately show ?thesis using u w(2)
    by (intro exI [of _ sts'] exI [of _ ?w] exI [of _ "ata_run a ?w"]) (auto simp: ata_unit_def ata_sector_def)
qed

section \<open>Simulation\<close>

lemma done_flags:
  "((w :: uint32) AND NOT B_DIRTY) OR B_VALID = (w OR B_VALID) AND NOT B_DIRTY"
  "\<not> bit w 2 \<Longrightarrow> (w OR B_VALID) AND NOT B_DIRTY = w OR B_VALID"
  by (rule bit_word_eqI; auto simp: bit_and_iff bit_or_iff bit_not_iff)+

lemma done_only_valid: "(((w :: uint32) OR B_VALID) AND NOT B_DIRTY) AND (B_VALID OR B_DIRTY) = B_VALID"
  by (rule bit_word_eqI) (auto simp: bit_and_iff bit_or_iff bit_not_iff)

definition done_buf :: "(nat \<Rightarrow> byte list) \<Rightarrow> buf \<Rightarrow> buf" where
  "done_buf d b = b\<lparr>b_data := if dirty b then b_data b else d (b_blockno b),
     b_flags := (b_flags b OR B_VALID) AND NOT B_DIRTY\<rparr>"

lemma iderw_done:
  assumes "b = bufs s ! i" "needs_disk b" "disksize s = FSSIZE"
  shows "\<exists>dw. iderw i s = Ok (s\<lparr>bufs := (bufs s)[i := done_buf (memdisk s) b], dwrites := dw,
    memdisk := if dirty b then (memdisk s)(b_blockno b := b_data b) else memdisk s\<rparr>)"
  using assms(2,3) unfolding iderw_def Let_def assms(1) [symmetric]
  by (intro exI [of _ "if dirty b then dwrites s @ [(b_blockno b, b_data b)] else dwrites s"], cases s)
    (auto simp: needs_disk_def has_flag_bit done_buf_def set_buf_def done_flags)

lemma sim_submit:
  assumes r: "ide_rel a c (s, q, w)" and e: "ide_env a (Submit i sts) c"
  shows "\<exists>c'. iderw_submit i sts c = Ok c' \<and> ide_rel a c' (s, q @ [i], i # w)"
proof -
  have R: "ibufs c = bufs s" "waiting c = w" "havedisk1 c" "length (qnext c) = length (bufs s)"
    "qpath (qnext c) (idequeue c) q" "distinct q" "set q \<subseteq> set w" "\<And>i. i \<in> set w \<Longrightarrow> i < length (bufs s)"
    "disk_rel (ata_run a (wire c)) s q"
    using r by (auto simp: ide_rel_def)
  have E: "i < length (bufs s)" "i \<notin> set w" "needs_disk (bufs s ! i)" "ready 1 sts" using e R by auto
  obtain qn h where ap: "ide_append i c = Ok (c\<lparr>qnext := qn, idequeue := h\<rparr>)" and Q: "qpath qn h (q @ [i])"
    "length qn = length (qnext c)" "h = Some i \<longleftrightarrow> q = []"
    using ide_append_ok [OF R(5,6), of i] R(4,7,8) E by force
  let ?c = "c\<lparr>qnext := qn, idequeue := h\<rparr>"
  obtain w' where st: "bnd (if h = Some i then bnd (idestart (Some i) sts ?c) (\<lambda>(_, s). Ok s) else Ok ?c)
      (\<lambda>s. Ok (s\<lparr>waiting := i # waiting s\<rparr>)) = Ok (?c\<lparr>wire := w', waiting := i # w\<rparr>)"
    "disk_rel (ata_run a w') s (q @ [i])"
  proof (cases "q = []")
    case True
    have nd: "needs_disk (ibufs ?c ! i)" "ready (Suc 0) sts" using E R(1) by (simp_all add: One_nat_def)
    obtain sts' v where v: "idestart (Some i) sts ?c = Ok (sts', ?c\<lparr>wire := v\<rparr>)" "ata_unit (ata_run a v)"
      "ata_sector (ata_run a v) = b_blockno (bufs s ! i)"
      "a_media (ata_run a v) True = (if dirty (bufs s ! i)
         then (a_media (ata_run a (wire c)) True)(b_blockno (bufs s ! i) := b_data (bufs s ! i))
         else a_media (ata_run a (wire c)) True)"
      using idestart_ok [OF refl nd, of a] R(1) by auto
    show ?thesis by (rule that [of v]) (use v R(2,9) Q(3) True in \<open>simp_all add: disk_rel_def\<close>)
  next
    case False
    then show ?thesis using that [of "wire c"] Q(3) R(2,9) by (auto simp: disk_rel_def split: list.splits)
  qed
  have "iderw_submit i sts c = Ok (?c\<lparr>wire := w', waiting := i # w\<rparr>)"
    using ap st(1) E(3) R(1-3) by (simp add: iderw_submit_def needs_disk_def)
  then show ?thesis using r E Q(1,2) st(2) by (auto simp: ide_rel_def)
qed

lemma sim_intr:
  assumes r: "ide_rel a c (s, q, w)" and e: "ide_env a (Intr sts din) c"
  shows "\<exists>c' m. ideintr sts din c = Ok c' \<and> mem_exec (Intr sts din) (s, q, w) = Ok m \<and> ide_rel a c' m"
proof (cases q)
  case Nil
  then show ?thesis using r by (auto simp: ide_rel_def ideintr_def)
next
  case (Cons i q')
  let ?b = "bufs s ! i"
  have R: "ibufs c = bufs s" "waiting c = w" "disksize s = FSSIZE" "\<And>n. length (memdisk s n) = BSIZE"
    "idequeue c = Some i" "qpath (qnext c) (qnext c ! i) q'" "i \<notin> set q'" "i < length (bufs s)" "needs_disk ?b"
    "\<And>j. j \<in> set q' \<Longrightarrow> needs_disk (bufs s ! j)" "disk_rel (ata_run a (wire c)) s (i # q')"
    using r Cons by (auto simp: ide_rel_def)
  have E: "ready 2 sts" "din = ata_data (ata_run a (wire c))" using e by simp_all
  let ?m = "if dirty ?b then (memdisk s)(b_blockno ?b := b_data ?b) else memdisk s"
  let ?bs = "(bufs s)[i := done_buf (memdisk s) ?b]"
  obtain dw where mem: "iderw i s = Ok (s\<lparr>bufs := ?bs, dwrites := dw, memdisk := ?m\<rparr>)" (is "_ = Ok ?s")
    using iderw_done [OF refl R(9,3)] by blast
  have media: "a_media (ata_run a (wire c)) True = ?m" using R(11) by (simp add: disk_rel_def Let_def)
  obtain sts' where hd: "ideintr sts din c = (let c = c\<lparr>idequeue := qnext c ! i, ibufs := ?bs\<rparr> in
     if idequeue c \<noteq> None then bnd (idestart (idequeue c) sts' c) (\<lambda>(_, s). Ok s) else Ok c)" "ready 1 sts'"
  proof (cases "dirty ?b")
    case True
    then show ?thesis using that [of sts] ready_mono [OF E(1), of 1] R(1,5,8)
      by (simp add: ideintr_def has_flag_bit done_buf_def ide_set_buf_def Let_def)
  next
    case False
    have "din = memdisk s (b_blockno ?b)" using False R(11) E(2) by (simp add: disk_rel_def ata_data_def Let_def)
    then have d: "take BSIZE din @ drop BSIZE (b_data ?b) = memdisk s (b_blockno ?b)"
      using R(4,9) by (simp add: needs_disk_def)
    obtain sts' where w: "idewait True sts = Ok (0, sts')" "ready 1 sts'"
      using idewait_ready [of 1 sts True] E(1) by (auto simp: numeral_2_eq_2 One_nat_def)
    show ?thesis by (rule that [of sts']) (use w d False R(1,5,8) in
        \<open>simp_all add: ideintr_def has_flag_bit done_buf_def ide_set_buf_def Let_def\<close>)
  qed
  let ?c = "c\<lparr>idequeue := qnext c ! i, ibufs := ?bs\<rparr>"
  have nd: "needs_disk (?bs ! j)" if "j \<in> set q'" for j using R(7,10) that by (cases "j = i") auto
  have f: "b_flags (done_buf d b) AND (B_VALID OR B_DIRTY) = B_VALID" for d b
    using done_only_valid by (simp add: done_buf_def)
  have m: "length (?m n) = BSIZE" for n using R(4,9) by (simp add: needs_disk_def)
  have rest: "ide_rel a (?c\<lparr>wire := v\<rparr>) (?s, q', w)" if "disk_rel (ata_run a v) ?s q'" for v
    using that r Cons nd R(6-8) m by (auto simp: ide_rel_def nth_list_update f)
  show ?thesis
  proof (cases q')
    case Nil
    then have "disk_rel (ata_run a (wire c)) ?s q'" using media by (simp add: disk_rel_def)
    from rest [OF this] show ?thesis using hd Nil R(6) mem Cons by simp
  next
    case (Cons j q'')
    have n: "needs_disk (ibufs ?c ! j)" "ready (Suc 0) sts'" "idequeue ?c = Some j"
      using nd [of j] R(6) hd(2) Cons by (simp_all add: One_nat_def)
    obtain sts'' v where v: "idestart (Some j) sts' ?c = Ok (sts'', ?c\<lparr>wire := v\<rparr>)" "ata_unit (ata_run a v)"
      "ata_sector (ata_run a v) = b_blockno (?bs ! j)"
      "a_media (ata_run a v) True = (if dirty (?bs ! j)
         then (a_media (ata_run a (wire c)) True)(b_blockno (?bs ! j) := b_data (?bs ! j))
         else a_media (ata_run a (wire c)) True)"
      using idestart_ok [OF refl n(1,2), of a] by auto
    then have "disk_rel (ata_run a v) ?s q'" using media Cons by (simp add: disk_rel_def Let_def)
    from rest [OF this] show ?thesis using hd(1) n(3) v(1) mem \<open>q = i # q'\<close> by simp
  qed
qed

lemma sim_wake:
  assumes r: "ide_rel a c (s, q, w)"
  shows "ide_rel a (if i \<in> set (waiting c) then snd (iderw_wake i c) else c)
    (s, q, if i \<in> set w \<and> i \<notin> set q then remove1 i w else w)"
proof -
  have "i \<notin> set q" if "b_flags (bufs s ! i) AND (B_VALID OR B_DIRTY) = B_VALID"
    using that r by (auto simp: ide_rel_def needs_disk_def)
  moreover have "b_flags (bufs s ! i) AND (B_VALID OR B_DIRTY) = B_VALID" if "i \<in> set w" "i \<notin> set q"
    using that r by (simp add: ide_rel_def)
  moreover have "ide_rel a (c\<lparr>waiting := remove1 i (waiting c)\<rparr>) (s, q, remove1 i w)" if "i \<notin> set q"
    using that r by (auto simp: ide_rel_def)
  moreover have "ibufs c = bufs s" "waiting c = w" using r by (simp_all add: ide_rel_def)
  ultimately show ?thesis using r by (auto simp: iderw_wake_def)
qed

lemma sim_touch:
  assumes r: "ide_rel a c (s, q, w)" and e: "ide_env a (Touch i b) c"
  shows "ide_rel a (ide_set_buf i b c) (set_buf i b s, q, w)"
proof -
  have i: "i \<notin> set w" "set q \<subseteq> set w" "disk_rel (ata_run a (wire c)) s q" using r e by (simp_all add: ide_rel_def)
  have n: "(bufs s)[i := b] ! j = bufs s ! j" if "j \<in> set w" for j using i(1) that by (cases "j = i") auto
  then have "disk_rel (ata_run a (wire c)) (set_buf i b s) q"
    using i(2,3) by (auto simp: disk_rel_def set_buf_def Let_def split: list.splits)
  then show ?thesis using r n i(2) by (auto simp: ide_rel_def ide_set_buf_def set_buf_def)
qed

lemma sim_exec:
  assumes "ide_rel a c m" "ide_env a e c"
  shows "\<exists>c' m'. ide_exec e c = Ok c' \<and> mem_exec e m = Ok m' \<and> ide_rel a c' m'"
proof -
  obtain s q w where m: "m = (s, q, w)" by (cases m)
  show ?thesis
  proof (cases e)
    case (Submit i sts)
    then show ?thesis using sim_submit [of a c s q w i sts] assms m by auto
  next
    case (Intr sts din)
    then show ?thesis using sim_intr [of a c s q w sts din] assms m by simp
  next
    case (Wake i)
    then show ?thesis using sim_wake [of a c s q w i] assms m by simp
  next
    case (Touch i b)
    then show ?thesis using sim_touch [of a c s q w i b] assms m by simp
  qed
qed

lemma sim_run:
  "ide_rel a c m \<Longrightarrow> ide_envs a es c \<Longrightarrow>
   \<exists>c' m'. ide_run es c = Ok c' \<and> mem_run es m = Ok m' \<and> ide_rel a c' m'"
proof (induction es arbitrary: c m)
  case (Cons e es)
  then obtain c' m' where "ide_exec e c = Ok c'" "mem_exec e m = Ok m'" "ide_rel a c' m'"
    using sim_exec by (metis ide_envs.simps(2))
  then show ?case using Cons by simp
qed simp

text \<open>
  C2. Over any sequence of requests, interrupts, wake-ups and stores into buffers that are not in
  flight, with a disk that becomes ready and follows the register protocol, the queueing driver runs without a
  panic or a hang and agrees with the one-step disk of \<^verbatim>\<open>memide.c\<close> on which each
  interrupt performs one whole \<^verbatim>\<open>iderw\<close>, oldest request first: the buffers hold the same flags and data, the
  same processes are still waiting, a waiting process finds its buffer finished exactly when its request has left the
  queue, and with no request in flight the medium holds what the one-step disk holds.
\<close>

theorem ide_refines_memide:
  assumes c: "idequeue c = None" "waiting c = []" "havedisk1 c" "length (qnext c) = length (ibufs c)"
    and s: "bufs s = ibufs c" "disksize s = FSSIZE" "\<And>n. length (memdisk s n) = BSIZE"
      "a_media (ata_run a (wire c)) True = memdisk s"
    and env: "ide_envs a es c"
  shows "\<exists>d t q. ide_run es c = Ok d \<and> mem_run es (s, [], []) = Ok (t, q, waiting d) \<and> ibufs d = bufs t \<and>
    (\<forall>i \<in> set (waiting d). b_flags (bufs t ! i) AND (B_VALID OR B_DIRTY) = B_VALID \<longleftrightarrow> i \<notin> set q) \<and>
    (q = [] \<longrightarrow> a_media (ata_run a (wire d)) True = memdisk t)"
proof -
  have "ide_rel a c (s, [], [])" using c s by (simp add: ide_rel_def disk_rel_def)
  from sim_run [OF this env]
  obtain d t q w where d: "ide_run es c = Ok d" "mem_run es (s, [], []) = Ok (t, q, w)" "ide_rel a d (t, q, w)"
    by auto
  then show ?thesis by (intro exI [of _ d] exI [of _ t] exI [of _ q]) (auto simp: ide_rel_def disk_rel_def needs_disk_def)
qed

section \<open>A run\<close>

text \<open>Buffer 0 is to be written to block 5, buffer 1 to be filled from the same block.\<close>

definition run_bufs :: "buf list" where
  "run_bufs = [\<lparr>b_flags = B_VALID OR B_DIRTY, b_dev = 1, b_blockno = 5, b_lock = \<lparr>sl_locked = True, sl_pid = 1\<rparr>,
       b_refcnt = 1, b_data = replicate BSIZE 7\<rparr>,
     \<lparr>b_flags = 0, b_dev = 1, b_blockno = 5, b_lock = \<lparr>sl_locked = True, sl_pid = 2\<rparr>,
       b_refcnt = 1, b_data = replicate BSIZE 0\<rparr>]"

definition run_ide :: ide_st where
  "run_ide = \<lparr>ibufs = run_bufs, idequeue = None, qnext = [None, None], havedisk1 = True, wire = [], waiting = []\<rparr>"

definition run_mem :: bio_st where
  "run_mem = \<lparr>mypid = 1, memdisk = \<lambda>_. replicate BSIZE 0, disksize = FSSIZE, dwrites = [], bufs = run_bufs, mru = [0, 1]\<rparr>"

definition run_ata :: ata where
  "run_ata = \<lparr>a_lo = 0, a_mid = 0, a_high = 0, a_head = 0, a_cmd = 0, a_media = \<lambda>_ _. replicate BSIZE 0\<rparr>"

definition run_evs :: "ide_ev list" where
  "run_evs = [Submit 0 [0x80, 0x40], Submit 1 [0x40], Intr [0x40, 0x40] (replicate BSIZE 7),
     Intr [0xc0, 0x40, 0x40] (replicate BSIZE 7), Wake 1]"

text \<open>The same assumptions, read off the one-step disk; they are easier to check on a given run.\<close>

fun mem_env :: "ide_ev \<Rightarrow> mem_st \<Rightarrow> bool" where
  "mem_env (Submit i sts) (s, q, w) \<longleftrightarrow> i < length (bufs s) \<and> i \<notin> set w \<and> needs_disk (bufs s ! i) \<and> ready 1 sts"
| "mem_env (Intr sts din) (s, q, w) \<longleftrightarrow> ready 2 sts \<and> q \<noteq> [] \<and>
     din = (if dirty (bufs s ! hd q) then b_data (bufs s ! hd q) else memdisk s (b_blockno (bufs s ! hd q)))"
| "mem_env (Wake i) (s, q, w) \<longleftrightarrow> True"
| "mem_env (Touch i b) (s, q, w) \<longleftrightarrow> i < length (bufs s) \<and> i \<notin> set w"

fun mem_envs :: "ide_ev list \<Rightarrow> mem_st \<Rightarrow> bool" where
  "mem_envs [] m \<longleftrightarrow> True"
| "mem_envs (e # es) m \<longleftrightarrow> mem_env e m \<and> (case mem_exec e m of Ok m' \<Rightarrow> mem_envs es m' | _ \<Rightarrow> True)"

lemma mem_env_ide: "ide_rel a c m \<Longrightarrow> mem_env e m \<Longrightarrow> ide_env a e c"
  by (cases m; cases e; cases "fst (snd m)")
    (auto simp: ide_rel_def disk_rel_def ata_data_def Let_def split: if_splits)

lemma mem_envs_ide: "ide_rel a c m \<Longrightarrow> mem_envs es m \<Longrightarrow> ide_envs a es c"
proof (induction es arbitrary: c m)
  case (Cons e es)
  then have env: "ide_env a e c" using mem_env_ide by simp
  then show ?case using sim_exec [OF Cons.prems(1) env] Cons by auto
qed simp

lemma run_rel: "ide_rel run_ata run_ide (run_mem, [], [])"
  by (simp add: ide_rel_def disk_rel_def run_ata_def run_ide_def run_mem_def run_bufs_def ata_run_def)

lemma run_ready: "ready 1 [0x80, 0x40]" "ready 1 [0x40]" "ready 2 [0x40, 0x40]" "ready 2 [0xc0, 0x40, 0x40]"
  by (simp_all add: ready_def drdy_def IDE_BSY_def IDE_DRDY_def IDE_DF_def IDE_ERR_def)

lemma valid_dirty: "B_VALID OR B_DIRTY \<noteq> B_VALID"
  by (simp add: B_VALID_def B_DIRTY_def)

lemma run_env: "ide_envs run_ata run_evs run_ide"
proof (rule mem_envs_ide [OF run_rel])
  show "mem_envs run_evs (run_mem, [], [])"
    unfolding run_evs_def
    by (simp add: run_ready run_ready [unfolded One_nat_def] run_mem_def run_bufs_def needs_disk_def iderw_def holdingsleep_def has_flag_bit only_valid
      set_buf_def bit_or_iff Let_def param_defs valid_dirty One_nat_def)
qed

theorem ide_refines_memide_witness:
  "\<exists>d t q. ide_run run_evs run_ide = Ok d \<and> mem_run run_evs (run_mem, [], []) = Ok (t, q, waiting d) \<and>
    b_data (ibufs d ! 1) = replicate BSIZE 7 \<and> waiting d = [0] \<and>
    a_media (ata_run run_ata (wire d)) True 5 = replicate BSIZE 7"
proof -
  have m: "\<exists>t. mem_run run_evs (run_mem, [], []) = Ok (t, [], [0]) \<and> b_data (bufs t ! 1) = replicate BSIZE 7 \<and>
     memdisk t 5 = replicate BSIZE 7"
    unfolding run_evs_def by (simp add: run_mem_def run_bufs_def iderw_def holdingsleep_def has_flag_bit only_valid
      set_buf_def bit_or_iff Let_def param_defs valid_dirty One_nat_def)
  show ?thesis
    using ide_refines_memide [of run_ide run_mem run_ata run_evs] run_env m
    by (fastforce simp: run_ide_def run_mem_def run_ata_def run_bufs_def ata_run_def)
qed

end
