(* ===== verification/Fs.thy ===== *)
theory Fs
  imports Transaction CString
begin

text \<open>
  The file system of \<^verbatim>\<open>fs.c\<close>: block allocator, inode cache, inode contents,
  directories and path names, in the order of the source. An inode pointer is an index into
  \<open>icache\<close>; a null pointer is \<open>None\<close>. \<^verbatim>\<open>icache.lock\<close> is atomicity, the sleep lock of
  an inode is explicit. The device switch \<^verbatim>\<open>devsw\<close> is the parameter \<open>dv\<close>: a map from
  major numbers to the read and write routines of a driver. Kernel buffers that a routine fills
  are returned. Block, inode and offset numbers are \<^verbatim>\<open>uint\<close>s and are written \<open>nat\<close>,
  with the wrap-around of \<^verbatim>\<open>off + n\<close> written out; the \<^verbatim>\<open>short\<close> fields of an
  inode are integers read and stored at 16 bits.
\<close>

section \<open>Constants and data\<close>

definition ROOTINO :: nat where "ROOTINO = 1"
definition NDIRECT :: nat where "NDIRECT = 12"
definition NINDIRECT :: nat where "NINDIRECT = BSIZE div 4"
definition MAXFILE :: nat where "MAXFILE = NDIRECT + NINDIRECT"
definition DINODE_SIZE :: nat where "DINODE_SIZE = 64"
definition IPB :: nat where "IPB = BSIZE div DINODE_SIZE"
definition BPB :: nat where "BPB = BSIZE * 8"
definition DIRSIZ :: nat where "DIRSIZ = 14"
definition DIRENT_SIZE :: nat where "DIRENT_SIZE = 16"
definition NINODE :: nat where "NINODE = 50"
definition NDEV :: int where "NDEV = 10"
definition T_DIR :: int where "T_DIR = 1"
definition T_FILE :: int where "T_FILE = 2"
definition T_DEV :: int where "T_DEV = 3"

declare ROOTINO_def [param_defs] NDIRECT_def [param_defs] NINDIRECT_def [param_defs]
  MAXFILE_def [param_defs] DINODE_SIZE_def [param_defs] IPB_def [param_defs] BPB_def [param_defs]
  DIRSIZ_def [param_defs] DIRENT_SIZE_def [param_defs] NINODE_def [param_defs] NDEV_def [param_defs]
  T_DIR_def [param_defs] T_FILE_def [param_defs] T_DEV_def [param_defs]

definition IBLOCK :: "nat \<Rightarrow> superblock \<Rightarrow> nat" where
  "IBLOCK i sb = i div IPB + sb_inodestart sb"

definition BBLOCK :: "nat \<Rightarrow> superblock \<Rightarrow> nat" where
  "BBLOCK b sb = b div BPB + sb_bmapstart sb"

record inode =
  i_dev :: nat
  i_inum :: nat
  i_ref :: int
  i_lock :: sleeplock
  i_valid :: bool
  i_type :: int
  i_major :: int
  i_minor :: int
  i_nlink :: int
  i_size :: nat
  i_addrs :: "nat list"

record stat =
  st_type :: int
  st_dev :: nat
  st_ino :: nat
  st_nlink :: int
  st_size :: nat

record fs_st = log_st +
  fsb :: superblock
  icache :: "inode list"

definition upd_inode :: "nat \<Rightarrow> (inode \<Rightarrow> inode) \<Rightarrow> 'a fs_st_scheme \<Rightarrow> 'a fs_st_scheme" where
  "upd_inode ip f s = s\<lparr>icache := (icache s)[ip := f (icache s ! ip)]\<rparr>"

text \<open>
  A driver's read takes the inode and a count and returns the count delivered with the bytes; its
  write takes the inode and the bytes.
\<close>

type_synonym 's dev_read = "nat \<Rightarrow> nat \<Rightarrow> 's \<Rightarrow> ((int \<times> byte list) \<times> 's) res"
type_synonym 's dev_write = "nat \<Rightarrow> byte list \<Rightarrow> 's \<Rightarrow> (int \<times> 's) res"
type_synonym 's devsw = "int \<Rightarrow> 's dev_read option \<times> 's dev_write option"

text \<open>A \<^verbatim>\<open>short\<close> inside a block.\<close>

definition sint16 :: "nat \<Rightarrow> int" where
  "sint16 v = (if v < 2 ^ 15 then int v else int v - 2 ^ 16)"

definition gets16 :: "byte list \<Rightarrow> nat \<Rightarrow> int" where
  "gets16 d k = sint16 (get16 d k)"

definition puts16 :: "nat \<Rightarrow> int \<Rightarrow> byte list \<Rightarrow> byte list" where
  "puts16 k v d = put16 k (nat (v mod 2 ^ 16)) d"

section \<open>Blocks\<close>

definition bzero :: "nat \<Rightarrow> nat \<Rightarrow> 'a fs_st_scheme \<Rightarrow> 'a fs_st_scheme res" where
  "bzero dev bno s =
     bnd (bread dev bno s) (\<lambda>(bp, s).
     bnd (log_write bp (set_bdata bp (replicate BSIZE 0) s)) (\<lambda>s.
     brelse bp s))"

definition bit_free :: "byte list \<Rightarrow> nat \<Rightarrow> bool" where
  "bit_free d bi \<longleftrightarrow> d ! (bi div 8) AND push_bit (bi mod 8) 1 = 0"

definition bit_mark :: "nat \<Rightarrow> byte list \<Rightarrow> byte list" where
  "bit_mark bi d = d[bi div 8 := d ! (bi div 8) OR push_bit (bi mod 8) 1]"

definition bit_clear :: "nat \<Rightarrow> byte list \<Rightarrow> byte list" where
  "bit_clear bi d = d[bi div 8 := d ! (bi div 8) AND NOT (push_bit (bi mod 8) 1)]"

fun balloc_loop :: "nat \<Rightarrow> nat list \<Rightarrow> 'a fs_st_scheme \<Rightarrow> (nat \<times> 'a fs_st_scheme) res" where
  "balloc_loop dev [] s = Panic ''balloc: out of blocks''"
| "balloc_loop dev (b # bs) s =
     bnd (bread dev (BBLOCK b (fsb s)) s) (\<lambda>(bp, s).
     case find (\<lambda>bi. b + bi < sb_size (fsb s) \<and> bit_free (bdata bp s) bi) [0..<BPB] of
       Some bi \<Rightarrow>
         bnd (log_write bp (set_bdata bp (bit_mark bi (bdata bp s)) s)) (\<lambda>s.
         bnd (brelse bp s) (\<lambda>s.
         bnd (bzero dev (b + bi) s) (\<lambda>s. Ok (b + bi, s))))
     | None \<Rightarrow> bnd (brelse bp s) (balloc_loop dev bs))"

definition balloc :: "nat \<Rightarrow> 'a fs_st_scheme \<Rightarrow> (nat \<times> 'a fs_st_scheme) res" where
  "balloc dev s =
     balloc_loop dev (map (\<lambda>k. k * BPB) [0..<(sb_size (fsb s) + BPB - 1) div BPB]) s"

definition bfree :: "nat \<Rightarrow> nat \<Rightarrow> 'a fs_st_scheme \<Rightarrow> 'a fs_st_scheme res" where
  "bfree dev b s =
     bnd (readsb dev s) (\<lambda>(sb, s).
     let s = s\<lparr>fsb := sb\<rparr>; bi = b mod BPB in
     bnd (bread dev (BBLOCK b (fsb s)) s) (\<lambda>(bp, s).
     if bit_free (bdata bp s) bi then Panic ''freeing free block''
     else bnd (log_write bp (set_bdata bp (bit_clear bi (bdata bp s)) s)) (\<lambda>s.
          brelse bp s)))"

section \<open>Inodes\<close>

text \<open>The line that \<^verbatim>\<open>iinit\<close> prints about the superblock is left out: the console is above this layer.\<close>

definition iinit :: "nat \<Rightarrow> 'a fs_st_scheme \<Rightarrow> 'a fs_st_scheme res" where
  "iinit dev s =
     (let s = s\<lparr>icache := map (\<lambda>ip. ip\<lparr>i_lock := initsleeplock (i_lock ip)\<rparr>) (icache s)\<rparr> in
      bnd (readsb dev s) (\<lambda>(sb, s). Ok (s\<lparr>fsb := sb\<rparr>)))"

definition iget :: "nat \<Rightarrow> nat \<Rightarrow> 'a fs_st_scheme \<Rightarrow> (nat \<times> 'a fs_st_scheme) res" where
  "iget dev inum s =
     (case find (\<lambda>i. i_ref (icache s ! i) > 0 \<and> i_dev (icache s ! i) = dev \<and> i_inum (icache s ! i) = inum)
             [0..<NINODE] of
        Some i \<Rightarrow> Ok (i, upd_inode i (\<lambda>ip. ip\<lparr>i_ref := i_ref ip + 1\<rparr>) s)
      | None \<Rightarrow>
          (case find (\<lambda>i. i_ref (icache s ! i) = 0) [0..<NINODE] of
             None \<Rightarrow> Panic ''iget: no inodes''
           | Some i \<Rightarrow>
               Ok (i, upd_inode i (\<lambda>ip. ip\<lparr>i_dev := dev, i_inum := inum, i_ref := 1, i_valid := False\<rparr>) s)))"

text \<open>Offset of inode \<open>inum\<close> inside its block.\<close>

definition ioff :: "nat \<Rightarrow> nat" where
  "ioff inum = inum mod IPB * DINODE_SIZE"

fun ialloc_loop :: "nat \<Rightarrow> int \<Rightarrow> nat list \<Rightarrow> 'a fs_st_scheme \<Rightarrow> (nat \<times> 'a fs_st_scheme) res" where
  "ialloc_loop dev type [] s = Panic ''ialloc: no inodes''"
| "ialloc_loop dev type (inum # is) s =
     bnd (bread dev (IBLOCK inum (fsb s)) s) (\<lambda>(bp, s).
     if gets16 (bdata bp s) (ioff inum) = 0 then
       bnd (log_write bp (set_bdata bp
              (puts16 (ioff inum) type (mem_put (bdata bp s) (ioff inum) (replicate DINODE_SIZE 0))) s)) (\<lambda>s.
       bnd (brelse bp s) (iget dev inum))
     else bnd (brelse bp s) (ialloc_loop dev type is))"

definition ialloc :: "nat \<Rightarrow> int \<Rightarrow> 'a fs_st_scheme \<Rightarrow> (nat \<times> 'a fs_st_scheme) res" where
  "ialloc dev type s = ialloc_loop dev type [1..<sb_ninodes (fsb s)] s"

text \<open>Storing an inode into, and loading it from, the bytes of its block.\<close>

definition enc_dinode :: "inode \<Rightarrow> nat \<Rightarrow> byte list \<Rightarrow> byte list" where
  "enc_dinode ip k d =
     fold (\<lambda>i d. put32 (k + 12 + 4 * i) (i_addrs ip ! i) d) [0..<NDIRECT + 1]
       (put32 (k + 8) (i_size ip)
       (puts16 (k + 6) (i_nlink ip)
       (puts16 (k + 4) (i_minor ip)
       (puts16 (k + 2) (i_major ip)
       (puts16 k (i_type ip) d)))))"

definition dec_dinode :: "byte list \<Rightarrow> nat \<Rightarrow> inode \<Rightarrow> inode" where
  "dec_dinode d k ip =
     ip\<lparr>i_type := gets16 d k, i_major := gets16 d (k + 2), i_minor := gets16 d (k + 4),
        i_nlink := gets16 d (k + 6), i_size := get32 d (k + 8),
        i_addrs := map (\<lambda>i. get32 d (k + 12 + 4 * i)) [0..<NDIRECT + 1]\<rparr>"

definition iupdate :: "nat \<Rightarrow> 'a fs_st_scheme \<Rightarrow> 'a fs_st_scheme res" where
  "iupdate i s =
     (let ip = icache s ! i in
      bnd (bread (i_dev ip) (IBLOCK (i_inum ip) (fsb s)) s) (\<lambda>(bp, s).
      bnd (log_write bp (set_bdata bp (enc_dinode ip (ioff (i_inum ip)) (bdata bp s)) s)) (\<lambda>s.
      brelse bp s)))"

definition idup :: "nat \<Rightarrow> 'a fs_st_scheme \<Rightarrow> nat \<times> 'a fs_st_scheme" where
  "idup i s = (i, upd_inode i (\<lambda>ip. ip\<lparr>i_ref := i_ref ip + 1\<rparr>) s)"

definition ilock :: "nat \<Rightarrow> 'a fs_st_scheme \<Rightarrow> 'a fs_st_scheme res" where
  "ilock i s =
     (if i_ref (icache s ! i) < 1 then Panic ''ilock''
      else
        bnd (acquiresleep (mypid s) (i_lock (icache s ! i))) (\<lambda>lk.
        let s = upd_inode i (\<lambda>ip. ip\<lparr>i_lock := lk\<rparr>) s; ip = icache s ! i in
        if \<not> i_valid ip then
          bnd (bread (i_dev ip) (IBLOCK (i_inum ip) (fsb s)) s) (\<lambda>(bp, s).
          let s = upd_inode i (dec_dinode (bdata bp s) (ioff (i_inum ip))) s in
          bnd (brelse bp s) (\<lambda>s.
          let s = upd_inode i (\<lambda>ip. ip\<lparr>i_valid := True\<rparr>) s in
          if i_type (icache s ! i) = 0 then Panic ''ilock: no type'' else Ok s))
        else Ok s))"

definition iunlock :: "nat \<Rightarrow> 'a fs_st_scheme \<Rightarrow> 'a fs_st_scheme res" where
  "iunlock i s =
     (if \<not> holdingsleep (i_lock (icache s ! i)) \<or> i_ref (icache s ! i) < 1 then Panic ''iunlock''
      else Ok (upd_inode i (\<lambda>ip. ip\<lparr>i_lock := releasesleep (i_lock ip)\<rparr>) s))"

section \<open>Inode contents\<close>

text \<open>The entry \<open>bn\<close> of the indirect block \<open>addr\<close>, filled if it is empty.\<close>

definition bmap_indirect :: "nat \<Rightarrow> nat \<Rightarrow> nat \<Rightarrow> 'a fs_st_scheme \<Rightarrow> (nat \<times> 'a fs_st_scheme) res" where
  "bmap_indirect i bn addr s =
     bnd (bread (i_dev (icache s ! i)) addr s) (\<lambda>(bp, s).
     bnd (if get32 (bdata bp s) (4 * bn) = 0 then
            bnd (balloc (i_dev (icache s ! i)) s) (\<lambda>(addr, s).
            bnd (log_write bp (set_bdata bp (put32 (4 * bn) addr (bdata bp s)) s)) (\<lambda>s.
            Ok (addr, s)))
          else Ok (get32 (bdata bp s) (4 * bn), s)) (\<lambda>(addr, s).
     bnd (brelse bp s) (\<lambda>s. Ok (addr, s))))"

definition bmap :: "nat \<Rightarrow> nat \<Rightarrow> 'a fs_st_scheme \<Rightarrow> (nat \<times> 'a fs_st_scheme) res" where
  "bmap i bn s =
     (if bn < NDIRECT then
        if i_addrs (icache s ! i) ! bn = 0 then
          bnd (balloc (i_dev (icache s ! i)) s) (\<lambda>(addr, s).
          Ok (addr, upd_inode i (\<lambda>ip. ip\<lparr>i_addrs := (i_addrs ip)[bn := addr]\<rparr>) s))
        else Ok (i_addrs (icache s ! i) ! bn, s)
      else
        let bn = bn - NDIRECT in
        if bn < NINDIRECT then
          bnd (if i_addrs (icache s ! i) ! NDIRECT = 0 then
                 bnd (balloc (i_dev (icache s ! i)) s) (\<lambda>(addr, s).
                 Ok (addr, upd_inode i (\<lambda>ip. ip\<lparr>i_addrs := (i_addrs ip)[NDIRECT := addr]\<rparr>) s))
               else Ok (i_addrs (icache s ! i) ! NDIRECT, s)) (\<lambda>(addr, s).
          bmap_indirect i bn addr s)
        else Panic ''bmap: out of range'')"

fun itrunc_direct :: "nat \<Rightarrow> nat list \<Rightarrow> 'a fs_st_scheme \<Rightarrow> 'a fs_st_scheme res" where
  "itrunc_direct ip [] s = Ok s"
| "itrunc_direct ip (i # is) s =
     (if i_addrs (icache s ! ip) ! i \<noteq> 0 then
        bnd (bfree (i_dev (icache s ! ip)) (i_addrs (icache s ! ip) ! i) s) (\<lambda>s.
        itrunc_direct ip is (upd_inode ip (\<lambda>ip. ip\<lparr>i_addrs := (i_addrs ip)[i := 0]\<rparr>) s))
      else itrunc_direct ip is s)"

fun itrunc_indirect :: "nat \<Rightarrow> nat \<Rightarrow> nat list \<Rightarrow> 'a fs_st_scheme \<Rightarrow> 'a fs_st_scheme res" where
  "itrunc_indirect dev bp [] s = Ok s"
| "itrunc_indirect dev bp (j # js) s =
     (let a = get32 (bdata bp s) (4 * j) in
      if a \<noteq> 0 then bnd (bfree dev a s) (itrunc_indirect dev bp js)
      else itrunc_indirect dev bp js s)"

definition itrunc :: "nat \<Rightarrow> 'a fs_st_scheme \<Rightarrow> 'a fs_st_scheme res" where
  "itrunc ip s =
     bnd (itrunc_direct ip [0..<NDIRECT] s) (\<lambda>s.
     let dev = i_dev (icache s ! ip); addr = i_addrs (icache s ! ip) ! NDIRECT in
     bnd (if addr \<noteq> 0 then
            bnd (bread dev addr s) (\<lambda>(bp, s).
            bnd (itrunc_indirect dev bp [0..<NINDIRECT] s) (\<lambda>s.
            bnd (brelse bp s) (\<lambda>s.
            bnd (bfree dev addr s) (\<lambda>s.
            Ok (upd_inode ip (\<lambda>ip. ip\<lparr>i_addrs := (i_addrs ip)[NDIRECT := 0]\<rparr>) s)))))
          else Ok s) (\<lambda>s.
     iupdate ip (upd_inode ip (\<lambda>ip. ip\<lparr>i_size := 0\<rparr>) s)))"

definition iput :: "nat \<Rightarrow> 'a fs_st_scheme \<Rightarrow> 'a fs_st_scheme res" where
  "iput i s =
     bnd (acquiresleep (mypid s) (i_lock (icache s ! i))) (\<lambda>lk.
     let s = upd_inode i (\<lambda>ip. ip\<lparr>i_lock := lk\<rparr>) s; ip = icache s ! i in
     bnd (if i_valid ip \<and> i_nlink ip = 0 \<and> i_ref ip = 1 then
            bnd (itrunc i s) (\<lambda>s.
            bnd (iupdate i (upd_inode i (\<lambda>ip. ip\<lparr>i_type := 0\<rparr>) s)) (\<lambda>s.
            Ok (upd_inode i (\<lambda>ip. ip\<lparr>i_valid := False\<rparr>) s)))
          else Ok s) (\<lambda>s.
     let s = upd_inode i (\<lambda>ip. ip\<lparr>i_lock := releasesleep (i_lock ip)\<rparr>) s in
     Ok (upd_inode i (\<lambda>ip. ip\<lparr>i_ref := i_ref ip - 1\<rparr>) s)))"

definition iunlockput :: "nat \<Rightarrow> 'a fs_st_scheme \<Rightarrow> 'a fs_st_scheme res" where
  "iunlockput i s = bnd (iunlock i s) (iput i)"

definition stati :: "nat \<Rightarrow> 'a fs_st_scheme \<Rightarrow> stat" where
  "stati i s = (let ip = icache s ! i in
     \<lparr>st_type = i_type ip, st_dev = i_dev ip, st_ino = i_inum ip, st_nlink = i_nlink ip,
      st_size = i_size ip\<rparr>)"

text \<open>
  One iteration moves at most to the end of the block that holds offset \<open>off\<close>; the last one moves
  what is left.
\<close>

definition chunk :: "nat \<Rightarrow> nat \<Rightarrow> nat" where
  "chunk off left = min left (BSIZE - off mod BSIZE)"

lemma chunk_pos: "0 < left \<Longrightarrow> 0 < chunk off left"
  by (simp add: chunk_def param_defs)

lemma chunk_le: "chunk off left \<le> left"
  by (simp add: chunk_def)

function readi_loop :: "nat \<Rightarrow> nat \<Rightarrow> nat \<Rightarrow> 'a fs_st_scheme \<Rightarrow> (byte list \<times> 'a fs_st_scheme) res" where
  "readi_loop ip off left s =
     (if left = 0 then Ok ([], s)
      else
        bnd (bmap ip (off div BSIZE) s) (\<lambda>(a, s).
        bnd (bread (i_dev (icache s ! ip)) a s) (\<lambda>(bp, s).
        let m = chunk off left; ds = take m (drop (off mod BSIZE) (bdata bp s)) in
        bnd (brelse bp s) (\<lambda>s.
        bnd (readi_loop ip (off + m) (left - m) s) (\<lambda>(rest, s).
        Ok (ds @ rest, s))))))"
  by pat_completeness auto
termination
  by (relation "measure (\<lambda>(ip, off, left, s). left)") (use chunk_pos chunk_le in auto)

definition readi :: "'a fs_st_scheme devsw \<Rightarrow> nat \<Rightarrow> nat \<Rightarrow> nat \<Rightarrow> 'a fs_st_scheme
    \<Rightarrow> ((int \<times> byte list) \<times> 'a fs_st_scheme) res" where
  "readi dv i off n s =
     (let ip = icache s ! i in
      if i_type ip = T_DEV then
        if i_major ip < 0 \<or> i_major ip \<ge> NDEV then Ok ((-1, []), s)
        else (case fst (dv (i_major ip)) of None \<Rightarrow> Ok ((-1, []), s) | Some rd \<Rightarrow> rd i n s)
      else if off > i_size ip \<or> (off + n) mod 2 ^ 32 < off then Ok ((-1, []), s)
      else
        let n = (if off + n > i_size ip then i_size ip - off else n) in
        bnd (readi_loop i off n s) (\<lambda>(ds, s). Ok ((int n, ds), s)))"

function writei_loop :: "nat \<Rightarrow> nat \<Rightarrow> byte list \<Rightarrow> 'a fs_st_scheme \<Rightarrow> (nat \<times> 'a fs_st_scheme) res" where
  "writei_loop ip off src s =
     (if src = [] then Ok (off, s)
      else
        bnd (bmap ip (off div BSIZE) s) (\<lambda>(a, s).
        bnd (bread (i_dev (icache s ! ip)) a s) (\<lambda>(bp, s).
        let m = chunk off (length src) in
        bnd (log_write bp (set_bdata bp (mem_put (bdata bp s) (off mod BSIZE) (take m src)) s)) (\<lambda>s.
        bnd (brelse bp s) (writei_loop ip (off + m) (drop m src))))))"
  by pat_completeness auto
termination
  by (relation "measure (\<lambda>(ip, off, src, s). length src)") (auto intro!: diff_less chunk_pos)

definition writei :: "'a fs_st_scheme devsw \<Rightarrow> nat \<Rightarrow> byte list \<Rightarrow> nat \<Rightarrow> 'a fs_st_scheme
    \<Rightarrow> (int \<times> 'a fs_st_scheme) res" where
  "writei dv i src off s =
     (let ip = icache s ! i; n = length src in
      if i_type ip = T_DEV then
        if i_major ip < 0 \<or> i_major ip \<ge> NDEV then Ok (-1, s)
        else (case snd (dv (i_major ip)) of None \<Rightarrow> Ok (-1, s) | Some wr \<Rightarrow> wr i src s)
      else if off > i_size ip \<or> (off + n) mod 2 ^ 32 < off then Ok (-1, s)
      else if off + n > MAXFILE * BSIZE then Ok (-1, s)
      else
        bnd (writei_loop i off src s) (\<lambda>(off, s).
        bnd (if n > 0 \<and> off > i_size (icache s ! i) then
               iupdate i (upd_inode i (\<lambda>ip. ip\<lparr>i_size := off\<rparr>) s)
             else Ok s) (\<lambda>s.
        Ok (int n, s))))"

section \<open>Directories\<close>

definition namecmp :: "view \<Rightarrow> view \<Rightarrow> int" where
  "namecmp s t = strncmp s t DIRSIZ"

text \<open>A directory entry: two bytes of inode number, then the name field.\<close>

definition de_inum :: "byte list \<Rightarrow> nat" where
  "de_inum de = get16 de 0"

definition de_name :: "byte list \<Rightarrow> view" where
  "de_name de = (\<lambda>i. de ! (2 + i))"

definition dir_offsets :: "nat \<Rightarrow> nat list" where
  "dir_offsets sz = map (\<lambda>k. k * DIRENT_SIZE) [0..<(sz + DIRENT_SIZE - 1) div DIRENT_SIZE]"

fun dirlookup_loop :: "'a fs_st_scheme devsw \<Rightarrow> nat \<Rightarrow> view \<Rightarrow> nat list \<Rightarrow> 'a fs_st_scheme
    \<Rightarrow> ((nat \<times> nat) option \<times> 'a fs_st_scheme) res" where
  "dirlookup_loop dv dp name [] s = Ok (None, s)"
| "dirlookup_loop dv dp name (off # offs) s =
     bnd (readi dv dp off DIRENT_SIZE s) (\<lambda>((r, de), s).
     if r \<noteq> int DIRENT_SIZE then Panic ''dirlookup read''
     else if de_inum de = 0 then dirlookup_loop dv dp name offs s
     else if namecmp name (de_name de) = 0 then
       bnd (iget (i_dev (icache s ! dp)) (de_inum de) s) (\<lambda>(ip, s). Ok (Some (ip, off), s))
     else dirlookup_loop dv dp name offs s)"

definition dirlookup :: "'a fs_st_scheme devsw \<Rightarrow> nat \<Rightarrow> view \<Rightarrow> 'a fs_st_scheme
    \<Rightarrow> ((nat \<times> nat) option \<times> 'a fs_st_scheme) res" where
  "dirlookup dv dp name s =
     (if i_type (icache s ! dp) \<noteq> T_DIR then Panic ''dirlookup not DIR''
      else dirlookup_loop dv dp name (dir_offsets (i_size (icache s ! dp))) s)"

text \<open>The first offset with a free entry, or the end of the directory.\<close>

fun dirlink_loop :: "'a fs_st_scheme devsw \<Rightarrow> nat \<Rightarrow> nat list \<Rightarrow> nat \<Rightarrow> 'a fs_st_scheme
    \<Rightarrow> (nat \<times> 'a fs_st_scheme) res" where
  "dirlink_loop dv dp [] off s = Ok (off, s)"
| "dirlink_loop dv dp (off # offs) _ s =
     bnd (readi dv dp off DIRENT_SIZE s) (\<lambda>((r, de), s).
     if r \<noteq> int DIRENT_SIZE then Panic ''dirlink read''
     else if de_inum de = 0 then Ok (off, s)
     else dirlink_loop dv dp offs (off + DIRENT_SIZE) s)"

text \<open>\<^verbatim>\<open>strncpy(de.name, name, DIRSIZ); de.inum = inum\<close>.\<close>

definition mk_dirent :: "view \<Rightarrow> nat \<Rightarrow> byte list" where
  "mk_dirent name inum =
     put16 0 inum ([0, 0] @ map (padded (name_of name DIRSIZ)) [0..<DIRSIZ])"

definition dirlink :: "'a fs_st_scheme devsw \<Rightarrow> nat \<Rightarrow> view \<Rightarrow> nat \<Rightarrow> 'a fs_st_scheme
    \<Rightarrow> (int \<times> 'a fs_st_scheme) res" where
  "dirlink dv dp name inum s =
     bnd (dirlookup dv dp name s) (\<lambda>(r, s).
     case r of
       Some (ip, off) \<Rightarrow> bnd (iput ip s) (\<lambda>s. Ok (-1, s))
     | None \<Rightarrow>
         bnd (dirlink_loop dv dp (dir_offsets (i_size (icache s ! dp))) 0 s) (\<lambda>(off, s).
         bnd (writei dv dp (mk_dirent name inum) off s) (\<lambda>(r, s).
         if r \<noteq> int DIRENT_SIZE then Panic ''dirlink'' else Ok (0, s))))"

section \<open>Paths\<close>

text \<open>
  A path is the list of its characters before the NUL; 47 is the slash. \<open>name\<close> is the caller's
  buffer of \<^verbatim>\<open>DIRSIZ\<close> bytes, of which a short element overwrites only a prefix.
\<close>

definition skipelem :: "byte list \<Rightarrow> byte list \<Rightarrow> (byte list \<times> byte list) option" where
  "skipelem path name =
     (let path = dropWhile (\<lambda>c. c = 47) path in
      if path = [] then None
      else
        let elem = takeWhile (\<lambda>c. c \<noteq> 47) path;
            path = dropWhile (\<lambda>c. c \<noteq> 47) path;
            name = (if length elem \<ge> DIRSIZ then mem_put name 0 (take DIRSIZ elem)
                    else (mem_put name 0 elem)[length elem := 0])
        in Some (dropWhile (\<lambda>c. c = 47) path, name))"

lemma skipelem_shorter: "skipelem path name = Some (path', name') \<Longrightarrow> length path' < length path"
proof -
  assume a: "skipelem path name = Some (path', name')"
  let ?p = "dropWhile (\<lambda>c. c = 47) path"
  have ne: "?p \<noteq> []" and p': "path' = dropWhile (\<lambda>c. c = 47) (dropWhile (\<lambda>c. c \<noteq> 47) ?p)"
    using a by (auto simp: skipelem_def Let_def split: if_splits)
  have "hd ?p \<noteq> 47" using ne hd_dropWhile [of "\<lambda>c. c = 47" path] by auto
  then have "length (dropWhile (\<lambda>c. c \<noteq> 47) ?p) < length ?p"
    using ne by (cases ?p) (auto intro: le_less_trans [OF length_dropWhile_le])
  then show ?thesis unfolding p'
    using length_dropWhile_le [of "\<lambda>c. c = 47" "dropWhile (\<lambda>c. c \<noteq> 47) ?p"]
      length_dropWhile_le [of "\<lambda>c. c = 47" path] by linarith
qed

function namex_loop :: "'a fs_st_scheme devsw \<Rightarrow> bool \<Rightarrow> nat \<Rightarrow> byte list \<Rightarrow> byte list \<Rightarrow> 'a fs_st_scheme
    \<Rightarrow> ((nat option \<times> byte list) \<times> 'a fs_st_scheme) res" where
  "namex_loop dv par ip path name s =
     (case skipelem path name of
        None \<Rightarrow>
          if par then bnd (iput ip s) (\<lambda>s. Ok ((None, name), s))
          else Ok ((Some ip, name), s)
      | Some (path, name) \<Rightarrow>
          bnd (ilock ip s) (\<lambda>s.
          if i_type (icache s ! ip) \<noteq> T_DIR then
            bnd (iunlockput ip s) (\<lambda>s. Ok ((None, name), s))
          else if par \<and> path = [] then
            bnd (iunlock ip s) (\<lambda>s. Ok ((Some ip, name), s))
          else
            bnd (dirlookup dv ip (\<lambda>i. name ! i) s) (\<lambda>(r, s).
            bnd (iunlockput ip s) (\<lambda>s.
            case r of
              None \<Rightarrow> Ok ((None, name), s)
            | Some (next, off) \<Rightarrow> namex_loop dv par next path name s))))"
  by pat_completeness auto
termination
  by (relation "measure (\<lambda>(dv, par, ip, path, name, s). length path)") (auto dest: skipelem_shorter)

definition namex :: "'a fs_st_scheme devsw \<Rightarrow> nat \<Rightarrow> byte list \<Rightarrow> bool \<Rightarrow> byte list \<Rightarrow> 'a fs_st_scheme
    \<Rightarrow> ((nat option \<times> byte list) \<times> 'a fs_st_scheme) res" where
  "namex dv cwd path par name s =
     bnd (if path \<noteq> [] \<and> hd path = 47 then iget ROOTDEV ROOTINO s else Ok (idup cwd s)) (\<lambda>(ip, s).
     namex_loop dv par ip path name s)"

definition namei :: "'a fs_st_scheme devsw \<Rightarrow> nat \<Rightarrow> byte list \<Rightarrow> 'a fs_st_scheme
    \<Rightarrow> (nat option \<times> 'a fs_st_scheme) res" where
  "namei dv cwd path s =
     bnd (namex dv cwd path False (replicate DIRSIZ 0) s) (\<lambda>((ip, name), s). Ok (ip, s))"

definition nameiparent :: "'a fs_st_scheme devsw \<Rightarrow> nat \<Rightarrow> byte list \<Rightarrow> byte list \<Rightarrow> 'a fs_st_scheme
    \<Rightarrow> ((nat option \<times> byte list) \<times> 'a fs_st_scheme) res" where
  "nameiparent dv cwd path name s = namex dv cwd path True name s"

end
