(* ===== verification/Alloc.thy ===== *)
theory Alloc
  imports Fs
begin

text \<open>
  What the block allocator of \<^verbatim>\<open>fs.c\<close> promises: \<^verbatim>\<open>balloc\<close> returns a block that
  was free, marks it and clears it, \<^verbatim>\<open>bfree\<close> makes a block free again, and neither
  touches anything else.
\<close>

section \<open>Room in the transaction and in the cache\<close>

text \<open>\<open>room k s\<close>: the running transaction can take \<open>k\<close> more blocks.\<close>

definition room :: "nat \<Rightarrow> 'a log_st_scheme \<Rightarrow> bool" where
  "room k s \<longleftrightarrow> card (dirtyb s) + k < log_size s \<and> 1 \<le> outstanding s"

lemma room_mono: "room k s \<Longrightarrow> j \<le> k \<Longrightarrow> room j s"
  by (simp add: room_def)

lemma room_write:
  assumes "room (Suc k) s" "dirtyb t = insert b (dirtyb s)" "tx_obs t = tx_obs s"
  shows "room k t"
proof -
  have "card (insert b (dirtyb s)) \<le> Suc (card (dirtyb s))" by (simp add: card_insert_if)
  then show ?thesis using assms by (simp add: room_def tx_obs_eq)
qed

lemma room_cong: "room k s \<Longrightarrow> dirtyb t = dirtyb s \<Longrightarrow> tx_obs t = tx_obs s \<Longrightarrow> room k t"
  by (simp add: room_def tx_obs_eq)

lemma room_tx: "room (Suc k) s \<Longrightarrow> tx_room s"
  by (auto simp: room_def tx_room_def)

lemma room_tx1: "room 1 s \<Longrightarrow> tx_room s"
  by (auto simp: room_def tx_room_def)

lemma room_get:
  assumes "tx_inv s" "room k s" "card (held s) \<le> k"
  shows "b \<in> dirtyb s \<or> card ({b. \<exists>i. owns s i b} \<union> dirtyb s) < NBUF"
proof -
  have "log_size s \<le> LOGSIZE" using assms(1) by (simp add: tx_inv_def log_inv_def)
  moreover have "card (held s \<union> dirtyb s) \<le> card (held s) + card (dirtyb s)" by (rule card_Un_le)
  ultimately have "card (held s \<union> dirtyb s) < NBUF" using assms(2,3) by (simp add: room_def param_defs)
  then show ?thesis by (simp add: held_def)
qed

section \<open>The free map\<close>

definition used :: "'a fs_st_scheme \<Rightarrow> nat \<Rightarrow> bool" where
  "used s b \<longleftrightarrow> \<not> bit_free (ldisk s (BBLOCK b (fsb s))) (b mod BPB)"

text \<open>The first block after the free map.\<close>

definition data_start :: "superblock \<Rightarrow> nat" where
  "data_start sb = sb_bmapstart sb + (sb_size sb + BPB - 1) div BPB"

text \<open>
  The layout the superblock describes: boot block, superblock, log, inodes, free map, data; the
  whole inside the disk, and every block before the data in use.
\<close>

definition fs_layout :: "'a fs_st_scheme \<Rightarrow> bool" where
  "fs_layout s \<longleftrightarrow>
     dec_sb (ldisk s 1) = fsb s \<and> 2 \<le> log_start s \<and>
     log_start s + log_size s \<le> sb_inodestart (fsb s) \<and>
     sb_inodestart (fsb s) + sb_ninodes (fsb s) div IPB < sb_bmapstart (fsb s) \<and>
     data_start (fsb s) \<le> sb_size (fsb s) \<and> sb_size (fsb s) \<le> disksize s \<and>
     (\<forall>b < data_start (fsb s). used s b)"

lemma bit_byte_power: "bit (2 ^ k :: byte) n \<longleftrightarrow> n = k \<and> k < 8"
  by (auto simp: bit_exp_iff)

lemma bit_free_bit:
  assumes "bi < 8 * length d"
  shows "bit_free d bi \<longleftrightarrow> \<not> bit (d ! (bi div 8)) (bi mod 8)"
  by (simp add: bit_free_def and_exp_eq_0_iff_not_bit)

lemma length_bit_mark [simp]: "length (bit_mark i d) = length d" "length (bit_clear i d) = length d"
  by (simp_all add: bit_mark_def bit_clear_def)

lemma bit_free_mark:
  assumes "i < 8 * length d" "j < 8 * length d"
  shows "bit_free (bit_mark i d) j \<longleftrightarrow> bit_free d j \<and> j \<noteq> i"
    "bit_free (bit_clear i d) j \<longleftrightarrow> bit_free d j \<or> j = i"
proof -
  have i: "i div 8 < length d" "j div 8 < length d" using assms by auto
  have ij: "i = j \<longleftrightarrow> i div 8 = j div 8 \<and> i mod 8 = j mod 8" by (metis div_mult_mod_eq)
  show "bit_free (bit_mark i d) j \<longleftrightarrow> bit_free d j \<and> j \<noteq> i"
    using assms i ij bit_free_bit [of j "bit_mark i d"] bit_free_bit [of j d]
    by (auto simp: bit_mark_def nth_list_update bit_or_iff bit_byte_power)
  show "bit_free (bit_clear i d) j \<longleftrightarrow> bit_free d j \<or> j = i"
    using assms i ij bit_free_bit [of j "bit_clear i d"] bit_free_bit [of j d]
    by (auto simp: bit_clear_def nth_list_update bit_and_iff bit_not_iff bit_byte_power)
qed

lemma BBLOCK_group: "bi < BPB \<Longrightarrow> BBLOCK (k * BPB + bi) sb = BBLOCK (k * BPB) sb"
  by (simp add: BBLOCK_def param_defs)

lemma group_mod: "bi < BPB \<Longrightarrow> (k * BPB + bi) mod BPB = bi"
  by (simp add: param_defs)

lemma layout_bitmap:
  assumes "fs_layout s" "b < sb_size (fsb s)"
  shows "BBLOCK b (fsb s) < data_start (fsb s)" "sb_bmapstart (fsb s) \<le> BBLOCK b (fsb s)"
    "BBLOCK b (fsb s) < disksize s" "BBLOCK b (fsb s) \<notin> log_area s" "1 \<notin> log_area s"
    "1 < disksize s" "BBLOCK b (fsb s) \<noteq> 1"
proof -
  have "b div BPB < (sb_size (fsb s) + BPB - 1) div BPB"
    using assms(2) by (simp add: param_defs)
  then show 1: "BBLOCK b (fsb s) < data_start (fsb s)" by (simp add: BBLOCK_def data_start_def)
  show 2: "sb_bmapstart (fsb s) \<le> BBLOCK b (fsb s)" by (simp add: BBLOCK_def)
  show "BBLOCK b (fsb s) < disksize s" "BBLOCK b (fsb s) \<notin> log_area s" "1 \<notin> log_area s"
    "1 < disksize s" "BBLOCK b (fsb s) \<noteq> 1"
    using 1 2 assms(1) by (auto simp: fs_layout_def log_area_def)
qed

lemma free_is_data:
  assumes "fs_layout s" "\<not> used s b" "b < sb_size (fsb s)"
  shows "data_start (fsb s) \<le> b" "b < disksize s" "b \<notin> log_area s" "b \<noteq> BBLOCK c (fsb s) \<or> sb_size (fsb s) \<le> c"
    "1 < b"
proof -
  show 1: "data_start (fsb s) \<le> b" using assms by (auto simp: fs_layout_def not_less [symmetric])
  show "b < disksize s" using assms by (simp add: fs_layout_def)
  show "b \<notin> log_area s" "1 < b" using 1 assms(1) by (auto simp: fs_layout_def log_area_def data_start_def)
  show "b \<noteq> BBLOCK c (fsb s) \<or> sb_size (fsb s) \<le> c"
    using 1 layout_bitmap(1) [OF assms(1), of c] by force
qed

section \<open>Allocating a block\<close>

lemma tx_size [simp]: "disksize (tx_obs s) = disksize s" "log_area (tx_obs s) = log_area s"
  by (simp_all add: tx_obs_def log_area_def)

lemma tx_more: "tx_obs t = tx_obs s \<Longrightarrow> fsb t = fsb s \<and> icache t = icache s \<and> fs_st.more t = fs_st.more s"
  by (cases s; cases t) (simp add: tx_obs_def)

lemma bzero_ok:
  assumes s: "tx_inv s" "b < disksize s" "b \<notin> log_area s" "b \<notin> held s" "room (Suc k) s" "card (held s) \<le> Suc k"
  shows "okP (bzero 1 b s) (\<lambda>t. tx_inv t \<and> tx_obs t = tx_obs s \<and> owns t = owns s \<and>
    ldisk t = (ldisk s)(b := replicate BSIZE 0) \<and> dirtyb t = insert b (dirtyb s))"
  unfolding bzero_def
  by (rule tx.update_rule_end [where f = "\<lambda>_. replicate BSIZE 0"])
    (use s room_get [OF s(1,5,6)] room_tx [OF s(5)] in \<open>auto simp: held_def\<close>)

text \<open>The effect of an allocation on the logical disk.\<close>

definition alloc_disk :: "superblock \<Rightarrow> nat \<Rightarrow> (nat \<Rightarrow> byte list) \<Rightarrow> nat \<Rightarrow> byte list" where
  "alloc_disk sb b l =
     l(BBLOCK b sb := bit_mark (b mod BPB) (l (BBLOCK b sb)), b := replicate BSIZE 0)"

definition alloc_post :: "'a fs_st_scheme \<Rightarrow> nat \<Rightarrow> 'a fs_st_scheme \<Rightarrow> bool" where
  "alloc_post s b t \<longleftrightarrow> b < sb_size (fsb s) \<and> \<not> used s b \<and> tx_inv t \<and> tx_obs t = tx_obs s \<and>
     owns t = owns s \<and> ldisk t = alloc_disk (fsb s) b (ldisk s) \<and>
     dirtyb t = insert b (insert (BBLOCK b (fsb s)) (dirtyb s))"

lemma alloc_mark:
  fixes s :: "'a fs_st_scheme"
  assumes s: "tx_inv s" "fs_layout s" "room 2 s" "card (held s) \<le> 1"
    and b: "b < sb_size (fsb s)" "\<not> used s b" "b \<notin> held s"
    and t: "tx_inv t" "tx_obs t = tx_obs s" "ldisk t = ldisk s" "dirtyb t = dirtyb s"
      "\<And>j c. owns t j c \<longleftrightarrow> owns s j c \<or> j = bp \<and> c = BBLOCK b (fsb s)" "owns t bp (BBLOCK b (fsb s))"
      "\<And>c. \<not> owns s bp c"
    and d: "d = bit_mark (b mod BPB) (ldisk s (BBLOCK b (fsb s)))"
  shows "okP (bnd (log_write bp (set_bdata bp d t)) (\<lambda>s. bnd (brelse bp s) (\<lambda>s.
    bnd (bzero 1 b s) (\<lambda>s. Ok (b, s))))) (\<lambda>(c, u). c = b \<and> alloc_post s b u)"
proof (rule tx.update_held_rule [OF t(1,6)])
  show "tx_room t" using room_tx [of 1 t] room_cong [OF s(3) t(4,2)] by (simp add: numeral_2_eq_2 One_nat_def)
  show "length d = BSIZE" using tx.lo_length [OF s(1)] by (simp add: d)
  fix u
  assume u: "tx_inv u" "tx_obs u = tx_obs t" "ldisk u = (ldisk t)(BBLOCK b (fsb s) := d)"
    "dirtyb u = insert (BBLOCK b (fsb s)) (dirtyb t)" "\<And>j c. owns u j c \<longleftrightarrow> owns t j c \<and> j \<noteq> bp"
  have own: "owns u = owns s" using u(5) t(5,7) by (auto simp: fun_eq_iff)
  have ob: "tx_obs u = tx_obs s" using u(2) t(2) by simp
  have hu: "held u = held s" using own by (simp add: held_def)
  have F: "b < disksize u" "b \<notin> log_area u"
    using free_is_data(2,3) [OF s(2) b(2,1)] ob log_area_cong [OF ob] by (simp_all add: tx_obs_eq)
  have room: "room (Suc 0) u"
    using room_write [of "Suc 0" s u] s(3) u(4) t(4) ob by (simp add: numeral_2_eq_2)
  have "okP (bzero 1 b u) (\<lambda>v. tx_inv v \<and> tx_obs v = tx_obs u \<and> owns v = owns u \<and>
    ldisk v = (ldisk u)(b := replicate BSIZE 0) \<and> dirtyb v = insert b (dirtyb u))"
    by (rule bzero_ok [OF u(1) F _ room]) (use hu b(3) s(4) in \<open>auto simp: One_nat_def\<close>)
  then show "okP (bnd (bzero 1 b u) (\<lambda>s. Ok (b, s))) (\<lambda>(c, u). c = b \<and> alloc_post s b u)"
    by (rule okP_bnd) (use u t own b d in \<open>simp add: alloc_post_def alloc_disk_def\<close>)
qed

lemma balloc_loop_ok:
  fixes s :: "'a fs_st_scheme"
  assumes "tx_inv s" "fs_layout s" "room 2 s" "card (held s) \<le> 1"
    "\<And>b. b < sb_size (fsb s) \<Longrightarrow> \<not> used s b \<Longrightarrow> b \<notin> held s"
    "\<And>b. b < sb_size (fsb s) \<Longrightarrow> BBLOCK b (fsb s) \<notin> held s"
    "set ks \<subseteq> {k. k * BPB < sb_size (fsb s)}"
    "\<exists>k \<in> set ks. \<exists>bi < BPB. k * BPB + bi < sb_size (fsb s) \<and> \<not> used s (k * BPB + bi)"
  shows "okP (balloc_loop 1 (map (\<lambda>k. k * BPB) ks) s) (\<lambda>(b, t). alloc_post s b t)"
  using assms
proof (induction ks arbitrary: s)
  case (Cons k ks)
  let ?b = "k * BPB" let ?sb = "fsb s" let ?m = "BBLOCK ?b ?sb"
  have b: "?b < sb_size ?sb" using Cons.prems(7) by simp
  note L = layout_bitmap [OF Cons.prems(2) b]
  show ?case
    unfolding list.map balloc_loop.simps
  proof (rule tx.get_rule, goal_cases)
    case (5 bp t)
    note more = tx_more [OF 5(2)]
    let ?P = "\<lambda>bi. ?b + bi < sb_size ?sb \<and> bit_free (ldisk s ?m) bi"
    have free: "?P bi \<longleftrightarrow> ?b + bi < sb_size ?sb \<and> \<not> used s (?b + bi)" if "bi < BPB" for bi
      using that by (simp add: used_def BBLOCK_group group_mod)
    show ?case
    proof (cases "find ?P [0..<BPB]")
      case None
      then have none: "\<not> ?P bi" if "bi < BPB" for bi using that by (auto simp: find_None_set)
      have "okP (bnd (brelse bp t) (balloc_loop 1 (map (\<lambda>k. k * BPB) ks))) (\<lambda>(b, t). alloc_post s b t)"
      proof (rule tx.release_rule [OF 5(1,6,7)])
        fix u
        assume u: "tx_inv u" "tx_obs u = tx_obs t" "ldisk u = ldisk t" "dirtyb u = dirtyb t"
          "\<And>j c. owns u j c \<longleftrightarrow> owns t j c \<and> j \<noteq> bp"
        have own: "owns u = owns s" using u(5) 5(5,9) by (auto simp: fun_eq_iff)
        have ob: "tx_obs u = tx_obs s" using u(2) 5(2) by simp
        have eq: "held u = held s" "fsb u = ?sb" "used u = used s" "fs_layout u = fs_layout s"
          using own u(3) 5(3) ob tx_more [OF ob]
          by (auto simp: held_def used_def fun_eq_iff fs_layout_def tx_obs_eq)
        have "okP (balloc_loop 1 (map (\<lambda>k. k * BPB) ks) u) (\<lambda>(b, t). alloc_post u b t)"
          by (rule Cons.IH [OF u(1)]) (use Cons.prems eq room_cong [OF Cons.prems(3)] u(4) 5(4) ob none free in auto)
        then show "okP (balloc_loop 1 (map (\<lambda>k. k * BPB) ks) u) (\<lambda>(b, t). alloc_post s b t)"
          by (rule okP_weaken) (use eq own u 5(2,3,4) in \<open>auto simp: alloc_post_def\<close>)
      qed
      then show ?thesis using None 5(8) more by simp
    next
      case (Some bi)
      from find_Some_mem [OF Some] have bi: "?P bi" "bi < BPB" by auto
      have f: "?b + bi < sb_size ?sb" "\<not> used s (?b + bi)" using free [OF bi(2)] bi(1) by auto
      have "okP (bnd (log_write bp (set_bdata bp (bit_mark bi (ldisk s ?m)) t)) (\<lambda>s. bnd (brelse bp s) (\<lambda>s.
        bnd (bzero 1 (?b + bi) s) (\<lambda>s. Ok (?b + bi, s))))) (\<lambda>(c, u). c = ?b + bi \<and> alloc_post s (?b + bi) u)"
        by (rule alloc_mark [OF Cons.prems(1-4) f Cons.prems(5) [OF f]])
          (use 5 bi(2) in \<open>auto simp: BBLOCK_group group_mod\<close>)
      then have "okP (bnd (log_write bp (set_bdata bp (bit_mark bi (ldisk s ?m)) t)) (\<lambda>s. bnd (brelse bp s) (\<lambda>s.
        bnd (bzero 1 (?b + bi) s) (\<lambda>s. Ok (?b + bi, s))))) (\<lambda>(b, u). alloc_post s b u)"
        by (rule okP_weaken) auto
      then show ?thesis using Some 5(8) more by simp
    qed
  qed (use Cons.prems(1) Cons.prems(6) [OF b] L room_get [OF Cons.prems(1,3)] Cons.prems(4) in \<open>auto simp: held_def\<close>)
qed simp

lemma balloc_ok:
  fixes s :: "'a fs_st_scheme"
  assumes s: "tx_inv s" "fs_layout s" "room 2 s" "card (held s) \<le> 1"
    and h: "\<And>b. b < sb_size (fsb s) \<Longrightarrow> \<not> used s b \<Longrightarrow> b \<notin> held s"
      "\<And>b. b < sb_size (fsb s) \<Longrightarrow> BBLOCK b (fsb s) \<notin> held s"
    and free: "c < sb_size (fsb s)" "\<not> used s c"
  shows "okP (balloc 1 s) (\<lambda>(b, t). alloc_post s b t)"
proof -
  let ?n = "(sb_size (fsb s) + BPB - 1) div BPB"
  have "set [0..<?n] \<subseteq> {k. k * BPB < sb_size (fsb s)}" by (auto simp: param_defs)
  moreover have "c div BPB \<in> set [0..<?n]" "c mod BPB < BPB" "c div BPB * BPB + c mod BPB = c"
    using free(1) by (auto simp: param_defs)
  then have "\<exists>k \<in> set [0..<?n]. \<exists>bi < BPB. k * BPB + bi < sb_size (fsb s) \<and> \<not> used s (k * BPB + bi)"
    using free by metis
  ultimately show ?thesis
    unfolding balloc_def by (intro balloc_loop_ok) (use s h in auto)
qed

lemma balloc_full:
  fixes s :: "'a fs_st_scheme"
  assumes "tx_inv s" "fs_layout s" "card (held s \<union> dirtyb s) < NBUF"
    "\<And>b. b < sb_size (fsb s) \<Longrightarrow> used s b" "\<And>b. b < sb_size (fsb s) \<Longrightarrow> BBLOCK b (fsb s) \<notin> held s"
    "set ks \<subseteq> {k. k * BPB < sb_size (fsb s)}"
  shows "balloc_loop 1 (map (\<lambda>k. k * BPB) ks) s = Panic ''balloc: out of blocks''"
  using assms
proof (induction ks arbitrary: s)
  case (Cons k ks)
  let ?b = "k * BPB" let ?sb = "fsb s" let ?m = "BBLOCK ?b ?sb"
  have b: "?b < sb_size ?sb" using Cons.prems(6) by simp
  note L = layout_bitmap [OF Cons.prems(2) b]
  obtain bp t where get: "bread 1 ?m s = Ok (bp, t)" and t: "tx_inv t" "tx_obs t = tx_obs s" "ldisk t = ldisk s"
    "dirtyb t = dirtyb s" "\<forall>j c. owns t j c \<longleftrightarrow> owns s j c \<or> j = bp \<and> c = ?m" "bio_synced t ?m" "\<forall>c. \<not> owns s bp c"
    using tx.get_ok [of s ?m] Cons.prems(1,3) Cons.prems(5) [OF b] L b by (fastforce simp: okP_iff held_def)
  have own: "owns t bp ?m" using t(5) by blast
  obtain u where rel: "brelse bp t = Ok u" and u: "tx_inv u" "tx_obs u = tx_obs t" "ldisk u = ldisk t"
    "dirtyb u = dirtyb t" "\<forall>j c. owns u j c \<longleftrightarrow> owns t j c \<and> j \<noteq> bp"
    using tx.rel_ok [OF t(1) own t(6)] by (auto simp: okP_iff)
  have ow: "owns u = owns s" using u(5) t(5,7) by (auto simp: fun_eq_iff)
  have ob: "tx_obs u = tx_obs s" using u(2) t(2) by simp
  have eq: "held u = held s" "fsb u = ?sb" "used u = used s" "fs_layout u = fs_layout s"
    using ow u(3) t(3) ob tx_more [OF ob] by (auto simp: held_def used_def fun_eq_iff fs_layout_def tx_obs_eq)
  have none: "find (\<lambda>bi. ?b + bi < sb_size ?sb \<and> bit_free (ldisk s ?m) bi) [0..<BPB] = None"
    using Cons.prems(4) by (auto simp: find_None_set used_def BBLOCK_group group_mod dest!: Cons.prems(4))
  have "balloc_loop 1 (map (\<lambda>k. k * BPB) ks) u = Panic ''balloc: out of blocks''"
    by (rule Cons.IH [OF u(1)]) (use Cons.prems eq u(4) t(4) in auto)
  then show ?case
    using get rel none tx_more [OF t(2)] tx.dat_lo [OF t(1) own] t(3) by simp
qed simp

lemma used_alloc:
  assumes "tx_inv s" "fs_layout s" "alloc_post s b t" "c < sb_size (fsb s)"
  shows "used t c \<longleftrightarrow> used s c \<or> c = b"
proof -
  have A: "b < sb_size (fsb s)" "\<not> used s b" "ldisk t = alloc_disk (fsb s) b (ldisk s)" "fsb t = fsb s"
    using assms(3) tx_more [of t s] by (auto simp: alloc_post_def)
  have ne: "BBLOCK c (fsb s) \<noteq> b" "BBLOCK b (fsb s) \<noteq> b"
    using free_is_data(4) [OF assms(2) A(2,1), of c] free_is_data(4) [OF assms(2) A(2,1), of b] A(1) assms(4) by auto
  have len: "length (ldisk s x) = BSIZE" for x using tx.lo_length [OF assms(1)] .
  have m: "x mod BPB < 8 * BSIZE" for x by (simp add: param_defs)
  show ?thesis
  proof (cases "BBLOCK c (fsb s) = BBLOCK b (fsb s)")
    case True
    then have "c mod BPB = b mod BPB \<longleftrightarrow> c = b"
      by (auto simp: BBLOCK_def) (metis div_mult_mod_eq)
    then show ?thesis
      using True A ne bit_free_mark(1) [of "b mod BPB" "ldisk s (BBLOCK b (fsb s))" "c mod BPB"] len m
      by (auto simp: used_def alloc_disk_def)
  next
    case False
    then have "c \<noteq> b" by auto
    then show ?thesis using False A ne by (auto simp: used_def alloc_disk_def)
  qed
qed

lemma layout_alloc:
  assumes "tx_inv s" "fs_layout s" "alloc_post s b t"
  shows "fs_layout t"
proof -
  have A: "b < sb_size (fsb s)" "\<not> used s b" "ldisk t = alloc_disk (fsb s) b (ldisk s)" "tx_obs t = tx_obs s"
    using assms(3) by (auto simp: alloc_post_def)
  have "1 \<noteq> b" "1 \<noteq> BBLOCK b (fsb s)"
    using free_is_data(5) [OF assms(2) A(2,1)] layout_bitmap(7) [OF assms(2) A(1)] by auto
  then have "ldisk t 1 = ldisk s 1" using A(3) by (simp add: alloc_disk_def)
  moreover have "used t c" if "c < data_start (fsb s)" for c
    using used_alloc [OF assms, of c] assms(2) that by (auto simp: fs_layout_def)
  ultimately show ?thesis
    using assms(2) tx_more [OF A(4)] A(4) by (simp add: fs_layout_def tx_obs_eq)
qed

section \<open>Freeing a block\<close>

lemma readsb_tx:
  fixes s :: "'a log_st_scheme"
  assumes s: "tx_inv s" "1 < disksize s" "1 \<notin> log_area s" "1 \<notin> held s" "card (held s \<union> dirtyb s) < NBUF"
  shows "\<exists>t. readsb 1 s = Ok (dec_sb (ldisk s 1), t) \<and> tx_inv t \<and> tx_obs t = tx_obs s \<and>
    ldisk t = ldisk s \<and> dirtyb t = dirtyb s \<and> owns t = owns s"
proof -
  let ?Q = "\<lambda>(sb, t). sb = dec_sb (ldisk s 1) \<and> tx_inv t \<and> tx_obs t = tx_obs s \<and>
    ldisk t = ldisk s \<and> dirtyb t = dirtyb s \<and> owns t = owns s"
  have "okP (bnd (bread 1 1 s) (\<lambda>(i, t). bnd (brelse i t) (\<lambda>u. (\<lambda>d u. Ok (dec_sb d, u)) (bdata i t) u))) ?Q"
    by (rule tx.read_rule) (use s in \<open>auto simp: held_def\<close>)
  then have "okP (readsb 1 s) ?Q" by (simp add: readsb_def Let_def)
  then show ?thesis by (auto simp: okP_iff)
qed

definition free_post :: "'a fs_st_scheme \<Rightarrow> nat \<Rightarrow> 'a fs_st_scheme \<Rightarrow> bool" where
  "free_post s b t \<longleftrightarrow> tx_inv t \<and> tx_obs t = tx_obs s \<and> owns t = owns s \<and>
     ldisk t = (ldisk s)(BBLOCK b (fsb s) := bit_clear (b mod BPB) (ldisk s (BBLOCK b (fsb s)))) \<and>
     dirtyb t = insert (BBLOCK b (fsb s)) (dirtyb s)"

text \<open>Both reads of \<^verbatim>\<open>bfree\<close> succeed; what follows depends on the bit only.\<close>

lemma bfree_unfold:
  fixes s :: "'a fs_st_scheme"
  assumes s: "tx_inv s" "fs_layout s" "card (held s \<union> dirtyb s) < NBUF" "1 \<notin> held s"
      "BBLOCK b (fsb s) \<notin> held s" "b < sb_size (fsb s)"
  shows "\<exists>bp t. tx_inv t \<and> tx_obs t = tx_obs s \<and> ldisk t = ldisk s \<and> dirtyb t = dirtyb s \<and>
    (\<forall>j c. owns t j c \<longleftrightarrow> owns s j c \<or> j = bp \<and> c = BBLOCK b (fsb s)) \<and> (\<forall>c. \<not> owns s bp c) \<and>
    bfree 1 b s = (if used s b then
      bnd (log_write bp (set_bdata bp (bit_clear (b mod BPB) (ldisk s (BBLOCK b (fsb s)))) t)) (brelse bp)
      else Panic ''freeing free block'')"
proof -
  note L = layout_bitmap [OF s(2,6)]
  obtain t where rd: "readsb 1 s = Ok (dec_sb (ldisk s 1), t)" and t: "tx_inv t" "tx_obs t = tx_obs s"
    "ldisk t = ldisk s" "dirtyb t = dirtyb s" "owns t = owns s"
    using readsb_tx [OF s(1) L(6,5) s(4,3)] by blast
  have sb: "dec_sb (ldisk s 1) = fsb s" using s(2) by (simp add: fs_layout_def)
  have same: "t\<lparr>fsb := fsb s\<rparr> = t" using tx_more [OF t(2)] by (cases t) simp
  obtain bp u where get: "bread 1 (BBLOCK b (fsb s)) t = Ok (bp, u)" and u: "tx_inv u" "tx_obs u = tx_obs t"
    "ldisk u = ldisk t" "dirtyb u = dirtyb t"
    "\<forall>j c. owns u j c \<longleftrightarrow> owns t j c \<or> j = bp \<and> c = BBLOCK b (fsb s)" "\<forall>c. \<not> owns t bp c"
    using tx.get_ok [of t "BBLOCK b (fsb s)"] t L s(3,5) log_area_cong [OF t(2)]
    by (fastforce simp: okP_iff held_def tx_obs_eq)
  have "owns u bp (BBLOCK b (fsb s))" using u(5) by blast
  then have "bdata bp u = ldisk s (BBLOCK b (fsb s))" using tx.dat_lo [OF u(1)] u(3) t(3) by simp
  then have "bfree 1 b s = (if used s b then
      bnd (log_write bp (set_bdata bp (bit_clear (b mod BPB) (ldisk s (BBLOCK b (fsb s)))) u)) (brelse bp)
      else Panic ''freeing free block'')"
    using get tx_more [OF t(2)] by (simp add: bfree_def rd sb same used_def Let_def)
  then show ?thesis using t u by (intro exI [of _ bp] exI [of _ u]) simp
qed

lemma bfree_ok:
  fixes s :: "'a fs_st_scheme"
  assumes s: "tx_inv s" "fs_layout s" "room (Suc k) s" "card (held s) \<le> Suc k" "1 \<notin> held s"
      "BBLOCK b (fsb s) \<notin> held s" "b < sb_size (fsb s)" "used s b"
  shows "okP (bfree 1 b s) (free_post s b)"
proof -
  have room: "card (held s \<union> dirtyb s) < NBUF"
    using card_Un_le [of "held s" "dirtyb s"] s(1,3,4)
    by (auto simp: room_def tx_inv_def log_inv_def param_defs)
  obtain bp t where t: "tx_inv t" "tx_obs t = tx_obs s" "ldisk t = ldisk s" "dirtyb t = dirtyb s"
    "\<forall>j c. owns t j c \<longleftrightarrow> owns s j c \<or> j = bp \<and> c = BBLOCK b (fsb s)" "\<forall>c. \<not> owns s bp c"
    and eq: "bfree 1 b s = bnd (log_write bp (set_bdata bp (bit_clear (b mod BPB)
      (ldisk s (BBLOCK b (fsb s)))) t)) (brelse bp)"
    using bfree_unfold [OF s(1,2) room s(5-7)] s(8) by auto
  have own: "owns t bp (BBLOCK b (fsb s))" using t(5) by blast
  have "okP (bnd (log_write bp (set_bdata bp (bit_clear (b mod BPB) (ldisk s (BBLOCK b (fsb s)))) t))
    (\<lambda>s. bnd (brelse bp s) Ok)) (free_post s b)"
    by (rule tx.update_held_rule [OF t(1) own])
      (use t room_tx room_cong [OF s(3) t(4,2)] tx.lo_length [OF s(1)] in \<open>auto simp: free_post_def fun_eq_iff\<close>)
  then show ?thesis unfolding eq by simp
qed

lemma used_free:
  assumes "tx_inv s" "free_post s b t"
  shows "used t c \<longleftrightarrow> used s c \<and> c \<noteq> b"
proof -
  have A: "fsb t = fsb s"
    "ldisk t = (ldisk s)(BBLOCK b (fsb s) := bit_clear (b mod BPB) (ldisk s (BBLOCK b (fsb s))))"
    using assms(2) tx_more [of t s] by (auto simp: free_post_def)
  have len: "length (ldisk s x) = BSIZE" for x using tx.lo_length [OF assms(1)] .
  have m: "x mod BPB < 8 * BSIZE" for x by (simp add: param_defs)
  show ?thesis
  proof (cases "BBLOCK c (fsb s) = BBLOCK b (fsb s)")
    case True
    then have "c mod BPB = b mod BPB \<longleftrightarrow> c = b"
      by (auto simp: BBLOCK_def) (metis div_mult_mod_eq)
    then show ?thesis
      using True A bit_free_mark(2) [of "b mod BPB" "ldisk s (BBLOCK b (fsb s))" "c mod BPB"] len m
      by (auto simp: used_def)
  next
    case False
    then have "c \<noteq> b" by auto
    then show ?thesis using False A by (simp add: used_def)
  qed
qed

end
