(* ===== verification/Inode.thy ===== *)
theory Inode
  imports Alloc
begin

text \<open>
  Inodes and their contents. \<open>blk\<close> is the block map an inode denotes on a disk, direct and
  indirect; \<open>inode_wf\<close> says that it is injective and stays in allocated data blocks. The
  theory shows that \<^verbatim>\<open>bmap\<close> computes \<open>blk\<close> and extends it by fresh zeroed blocks,
  that \<^verbatim>\<open>readi\<close> returns the bytes of the file, that \<^verbatim>\<open>writei\<close> replaces them,
  and that an inode written by \<^verbatim>\<open>iupdate\<close> is read back by \<^verbatim>\<open>ilock\<close>.
\<close>

section \<open>Changes to the inode cache leave the disk alone\<close>

lemma upd_inode_frame [simp]:
  "bufs (upd_inode i f s) = bufs s" "mru (upd_inode i f s) = mru s" "memdisk (upd_inode i f s) = memdisk s"
  "disksize (upd_inode i f s) = disksize s" "mypid (upd_inode i f s) = mypid s"
  "dwrites (upd_inode i f s) = dwrites s" "log_start (upd_inode i f s) = log_start s"
  "log_size (upd_inode i f s) = log_size s" "outstanding (upd_inode i f s) = outstanding s"
  "committing (upd_inode i f s) = committing s" "log_dev (upd_inode i f s) = log_dev s"
  "lh_n (upd_inode i f s) = lh_n s" "lh_block (upd_inode i f s) = lh_block s" "fsb (upd_inode i f s) = fsb s"
  "icache (upd_inode i f s) = (icache s)[i := f (icache s ! i)]"
  "fs_st.more (upd_inode i f s) = fs_st.more s"
  by (simp_all add: upd_inode_def)

lemma upd_inode_disk [simp]:
  "bio_inv (upd_inode i f s) = bio_inv s" "ldisk (upd_inode i f s) = ldisk s"
  "owns (upd_inode i f s) = owns s" "dirtyb (upd_inode i f s) = dirtyb s"
  by (rule bio_cong; simp)+

lemma upd_inode_log [simp]:
  "log_area (upd_inode i f s) = log_area s" "held (upd_inode i f s) = held s"
  "tx_inv (upd_inode i f s) = tx_inv s" "room k (upd_inode i f s) = room k s"
  "used (upd_inode i f s) = used s" "fs_layout (upd_inode i f s) = fs_layout s"
proof -
  show a: "log_area (upd_inode i f s) = log_area s" "held (upd_inode i f s) = held s"
    "used (upd_inode i f s) = used s"
    by (simp_all add: log_area_def held_def used_def fun_eq_iff)
  then show "tx_inv (upd_inode i f s) = tx_inv s" "room k (upd_inode i f s) = room k s"
    "fs_layout (upd_inode i f s) = fs_layout s"
    by (simp_all add: tx_inv_def log_inv_def logged_def room_def fs_layout_def)
qed

text \<open>Everything but the buffers, the log header and the inode cache is the same.\<close>

definition fs_same :: "'a fs_st_scheme \<Rightarrow> 'a fs_st_scheme \<Rightarrow> bool" where
  "fs_same s t \<longleftrightarrow> mypid s = mypid t \<and> memdisk s = memdisk t \<and> disksize s = disksize t \<and>
     dwrites s = dwrites t \<and> log_start s = log_start t \<and> log_size s = log_size t \<and>
     outstanding s = outstanding t \<and> committing s = committing t \<and> log_dev s = log_dev t \<and>
     fsb s = fsb t \<and> fs_st.more s = fs_st.more t"

lemma fs_same_refl [simp]: "fs_same s s"
  by (simp add: fs_same_def)

lemma fs_same_trans: "fs_same s t \<Longrightarrow> fs_same t u \<Longrightarrow> fs_same s u"
  by (simp add: fs_same_def)

lemma fs_same_upd [simp]: "fs_same s (upd_inode i f t) = fs_same s t"
  by (simp add: fs_same_def)

lemma fs_same_tx: "tx_obs t = tx_obs s \<Longrightarrow> fs_same s t"
  using tx_more [of t s] by (simp add: fs_same_def tx_obs_eq)

lemma fs_same_area: "fs_same s t \<Longrightarrow> log_area t = log_area s \<and> fsb t = fsb s"
  by (simp add: fs_same_def log_area_def)

section \<open>The block map\<close>

definition blk :: "(nat \<Rightarrow> byte list) \<Rightarrow> inode \<Rightarrow> nat \<Rightarrow> nat" where
  "blk l ip bn =
     (if bn < NDIRECT then i_addrs ip ! bn
      else if i_addrs ip ! NDIRECT = 0 then 0
      else get32 (l (i_addrs ip ! NDIRECT)) (4 * (bn - NDIRECT)))"

definition data_blk :: "'a fs_st_scheme \<Rightarrow> nat \<Rightarrow> bool" where
  "data_blk s a \<longleftrightarrow> data_start (fsb s) \<le> a \<and> a < sb_size (fsb s) \<and> used s a"

definition inode_wf :: "'a fs_st_scheme \<Rightarrow> inode \<Rightarrow> bool" where
  "inode_wf s ip \<longleftrightarrow> length (i_addrs ip) = NDIRECT + 1 \<and> i_dev ip = 1 \<and>
     (i_addrs ip ! NDIRECT \<noteq> 0 \<longrightarrow> data_blk s (i_addrs ip ! NDIRECT)) \<and>
     (\<forall>bn < MAXFILE. blk (ldisk s) ip bn \<noteq> 0 \<longrightarrow>
        data_blk s (blk (ldisk s) ip bn) \<and> blk (ldisk s) ip bn \<noteq> i_addrs ip ! NDIRECT) \<and>
     (\<forall>bn < MAXFILE. \<forall>bn' < MAXFILE. blk (ldisk s) ip bn = blk (ldisk s) ip bn' \<and>
        blk (ldisk s) ip bn \<noteq> 0 \<longrightarrow> bn = bn')"

definition nfree :: "'a fs_st_scheme \<Rightarrow> nat" where
  "nfree s = card {b. b < sb_size (fsb s) \<and> \<not> used s b}"

lemma finite_free [simp]: "finite {b. b < sb_size (fsb s) \<and> \<not> used s b}"
  by (rule finite_subset [of _ "{..<sb_size (fsb s)}"]) auto

lemma free_exists:
  assumes "0 < nfree s"
  obtains c where "c < sb_size (fsb s)" "\<not> used s c"
proof -
  have "{b. b < sb_size (fsb s) \<and> \<not> used s b} \<noteq> {}"
    using assms by (metis card.empty less_not_refl nfree_def)
  then show ?thesis using that by blast
qed

text \<open>What an allocation means for the rest of the file system.\<close>

lemma alloc_facts:
  assumes s: "tx_inv s" "fs_layout s" and a: "alloc_post s b t"
  shows "tx_inv t" "fs_layout t" "fs_same s t" "icache t = icache s" "owns t = owns s"
    "data_blk t b" "\<not> used s b" "b \<noteq> 0" "ldisk t b = replicate BSIZE 0"
    "data_blk s c \<Longrightarrow> data_blk t c \<and> c \<noteq> b \<and> ldisk t c = ldisk s c"
    "nfree s = Suc (nfree t)" "card (dirtyb t) \<le> card (dirtyb s) + 2"
    "room (k + 2) s \<Longrightarrow> room k t"
proof -
  have A: "b < sb_size (fsb s)" "\<not> used s b" "tx_obs t = tx_obs s" "ldisk t = alloc_disk (fsb s) b (ldisk s)"
    "dirtyb t = insert b (insert (BBLOCK b (fsb s)) (dirtyb s))"
    using a by (auto simp: alloc_post_def)
  have M: "fsb t = fsb s" using tx_more [OF A(3)] by simp
  have ds: "data_start (fsb s) \<le> b" "1 < b" using free_is_data(1,5) [OF s(2) A(2,1)] by auto
  note U = used_alloc [OF s a]
  show "tx_inv t" "owns t = owns s" using a by (simp_all add: alloc_post_def)
  show "fs_layout t" by (rule layout_alloc [OF s a])
  show "fs_same s t" by (rule fs_same_tx [OF A(3)])
  show "icache t = icache s" using tx_more [OF A(3)] by simp
  show "\<not> used s b" by (rule A(2))
  show "b \<noteq> 0" using ds by simp
  show "data_blk t b" using ds M A(1) U [OF A(1)] by (simp add: data_blk_def)
  show "ldisk t b = replicate BSIZE 0" using A(4) by (simp add: alloc_disk_def)
  show "data_blk t c \<and> c \<noteq> b \<and> ldisk t c = ldisk s c" if c: "data_blk s c"
  proof -
    have "c \<noteq> b" "c \<noteq> BBLOCK b (fsb s)"
      using c A(2) layout_bitmap(1) [OF s(2) A(1)] by (auto simp: data_blk_def)
    then show ?thesis using c U [of c] M A(4) by (auto simp: data_blk_def alloc_disk_def)
  qed
  have "{c. c < sb_size (fsb s) \<and> \<not> used s c} = insert b {c. c < sb_size (fsb t) \<and> \<not> used t c}"
    using U A(1,2) M by auto
  then show "nfree s = Suc (nfree t)"
    using U [OF A(1)] finite_free [of t] unfolding nfree_def by (simp add: card_insert_if)
  show cd: "card (dirtyb t) \<le> card (dirtyb s) + 2"
    unfolding A(5) by (simp add: card_insert_if)
  show "room k t" if "room (k + 2) s" using that cd A(3) by (simp add: room_def tx_obs_eq)
qed

lemma balloc_free:
  fixes s :: "'a fs_st_scheme"
  assumes s: "tx_inv s" "fs_layout s" "room 2 s" "card (held s) \<le> 1" "\<And>b. b \<in> held s \<Longrightarrow> data_blk s b"
    and free: "0 < nfree s"
  shows "okP (balloc 1 s) (\<lambda>(b, t). alloc_post s b t)"
proof -
  obtain c where c: "c < sb_size (fsb s)" "\<not> used s c" using free by (rule free_exists)
  show ?thesis
  proof (rule balloc_ok [OF s(1-4) _ _ c])
    show "BBLOCK b (fsb s) \<notin> held s" if "b < sb_size (fsb s)" for b
      using layout_bitmap(1) [OF s(2) that] s(5) [of "BBLOCK b (fsb s)"] by (auto simp: data_blk_def)
  qed (use s(5) in \<open>auto simp: data_blk_def\<close>)
qed

section \<open>bmap\<close>

text \<open>
  \<open>grown i s t\<close>: inode \<open>i\<close> may have gained blocks between \<open>s\<close> and \<open>t\<close>; the blocks it had
  are where they were, and every data block but its indirect block has kept its contents.
\<close>

definition grown :: "nat \<Rightarrow> 'a fs_st_scheme \<Rightarrow> 'a fs_st_scheme \<Rightarrow> bool" where
  "grown i s t \<longleftrightarrow> tx_inv t \<and> fs_layout t \<and> fs_same s t \<and> owns t = owns s \<and>
     (\<exists>ad. icache t = (icache s)[i := (icache s ! i)\<lparr>i_addrs := ad\<rparr>]) \<and>
     inode_wf t (icache t ! i) \<and>
     (\<forall>c. data_blk s c \<longrightarrow> data_blk t c \<and>
        (c \<noteq> i_addrs (icache s ! i) ! NDIRECT \<longrightarrow>
           ldisk t c = ldisk s c \<and> c \<noteq> i_addrs (icache t ! i) ! NDIRECT)) \<and>
     (\<forall>bn < MAXFILE. blk (ldisk s) (icache s ! i) bn \<noteq> 0 \<longrightarrow>
        blk (ldisk t) (icache t ! i) bn = blk (ldisk s) (icache s ! i) bn)"

lemma grown_refl:
  assumes "tx_inv s" "fs_layout s" "inode_wf s (icache s ! i)"
  shows "grown i s s"
proof -
  have "\<exists>ad. icache s = (icache s)[i := (icache s ! i)\<lparr>i_addrs := ad\<rparr>]"
    by (rule exI [of _ "i_addrs (icache s ! i)"]) simp
  then show ?thesis using assms fs_same_refl [of s] unfolding grown_def by blast
qed

lemma grownD:
  assumes "grown i s t" "i < length (icache s)"
  shows "tx_inv t" "fs_layout t" "fs_same s t" "owns t = owns s" "inode_wf t (icache t ! i)"
    "data_blk s c \<Longrightarrow> data_blk t c"
    "data_blk s c \<Longrightarrow> c \<noteq> i_addrs (icache s ! i) ! NDIRECT \<Longrightarrow>
       ldisk t c = ldisk s c \<and> c \<noteq> i_addrs (icache t ! i) ! NDIRECT"
    "bn < MAXFILE \<Longrightarrow> blk (ldisk s) (icache s ! i) bn \<noteq> 0 \<Longrightarrow>
       blk (ldisk t) (icache t ! i) bn = blk (ldisk s) (icache s ! i) bn"
    "length (icache t) = length (icache s)" "j \<noteq> i \<Longrightarrow> icache t ! j = icache s ! j"
    "icache t ! i = (icache s ! i)\<lparr>i_addrs := i_addrs (icache t ! i)\<rparr>"
proof -
  obtain ad where ad: "icache t = (icache s)[i := (icache s ! i)\<lparr>i_addrs := ad\<rparr>]"
    using assms(1) unfolding grown_def by blast
  show "length (icache t) = length (icache s)" "j \<noteq> i \<Longrightarrow> icache t ! j = icache s ! j"
    "icache t ! i = (icache s ! i)\<lparr>i_addrs := i_addrs (icache t ! i)\<rparr>"
    unfolding ad using assms(2) by simp_all
qed (use assms(1) in \<open>unfold grown_def, blast+\<close>)

lemma grown_trans:
  assumes "grown i s t" "grown i t u" "i < length (icache s)"
  shows "grown i s u"
proof -
  note T = grownD [OF assms(1,3)]
  have "i < length (icache t)" using T(9) assms(3) by simp
  note U = grownD [OF assms(2) this]
  obtain ad where "icache t = (icache s)[i := (icache s ! i)\<lparr>i_addrs := ad\<rparr>]"
    using assms(1) unfolding grown_def by blast
  moreover obtain ad' where "icache u = (icache t)[i := (icache t ! i)\<lparr>i_addrs := ad'\<rparr>]"
    using assms(2) unfolding grown_def by blast
  ultimately have "icache u = (icache s)[i := (icache s ! i)\<lparr>i_addrs := ad'\<rparr>]"
    using assms(3) by simp
  moreover have "data_blk u c \<and> (c \<noteq> i_addrs (icache s ! i) ! NDIRECT \<longrightarrow>
      ldisk u c = ldisk s c \<and> c \<noteq> i_addrs (icache u ! i) ! NDIRECT)" if "data_blk s c" for c
    using that T(6,7) [of c] U(6,7) [of c] by simp
  ultimately show ?thesis unfolding grown_def
    using U(1-5) T(4,8) U(8) fs_same_trans [OF T(3) U(3)] by fastforce
qed

definition bmap_post :: "nat \<Rightarrow> nat \<Rightarrow> 'a fs_st_scheme \<Rightarrow> nat \<Rightarrow> 'a fs_st_scheme \<Rightarrow> bool" where
  "bmap_post i bn s a t \<longleftrightarrow> grown i s t \<and> a \<noteq> 0 \<and> blk (ldisk t) (icache t ! i) bn = a \<and>
     (\<forall>c < MAXFILE. c \<noteq> bn \<longrightarrow> blk (ldisk t) (icache t ! i) c = blk (ldisk s) (icache s ! i) c) \<and>
     (if blk (ldisk s) (icache s ! i) bn = 0 then \<not> used s a \<and> ldisk t a = replicate BSIZE 0
      else icache t = icache s \<and> ldisk t = ldisk s \<and> dirtyb t = dirtyb s) \<and>
     nfree s \<le> nfree t + 2 \<and> card (dirtyb t) \<le> card (dirtyb s) + 5"

lemma blk_upd_direct:
  assumes "length (i_addrs ip) = NDIRECT + 1" "bn < NDIRECT"
  shows "blk l (ip\<lparr>i_addrs := (i_addrs ip)[bn := a]\<rparr>) c = (if c = bn then a else blk l ip c)"
  using assms by (auto simp: blk_def nth_list_update)

lemma blk_cong:
  assumes "i_addrs ip ! NDIRECT \<noteq> 0 \<Longrightarrow> l (i_addrs ip ! NDIRECT) = l' (i_addrs ip ! NDIRECT)"
  shows "blk l ip c = blk l' ip c"
  using assms by (simp add: blk_def)

lemma inode_wfD:
  assumes "inode_wf s ip"
  shows "length (i_addrs ip) = NDIRECT + 1" "i_dev ip = 1"
    "i_addrs ip ! NDIRECT \<noteq> 0 \<Longrightarrow> data_blk s (i_addrs ip ! NDIRECT)"
    "bn < MAXFILE \<Longrightarrow> blk (ldisk s) ip bn \<noteq> 0 \<Longrightarrow> data_blk s (blk (ldisk s) ip bn)"
    "bn < MAXFILE \<Longrightarrow> blk (ldisk s) ip bn \<noteq> 0 \<Longrightarrow> blk (ldisk s) ip bn \<noteq> i_addrs ip ! NDIRECT"
    "bn < MAXFILE \<Longrightarrow> bn' < MAXFILE \<Longrightarrow> blk (ldisk s) ip bn = blk (ldisk s) ip bn' \<Longrightarrow>
      blk (ldisk s) ip bn \<noteq> 0 \<Longrightarrow> bn = bn'"
  using assms unfolding inode_wf_def by (blast+)

text \<open>An inode whose map gains one fresh block stays well formed.\<close>

lemma inode_wf_extend:
  assumes wf: "inode_wf s ip" and bn: "bn < MAXFILE" "blk (ldisk s) ip bn = 0"
    and t: "\<And>c. data_blk s c \<Longrightarrow> data_blk t c \<and> c \<noteq> a" "data_blk t a" "a \<noteq> 0"
    and ip': "length (i_addrs ip') = NDIRECT + 1" "i_dev ip' = 1"
      "i_addrs ip' ! NDIRECT \<noteq> 0 \<Longrightarrow> data_blk t (i_addrs ip' ! NDIRECT) \<and> i_addrs ip' ! NDIRECT \<noteq> a"
      "\<And>c. c < MAXFILE \<Longrightarrow> blk (ldisk s) ip c \<noteq> 0 \<Longrightarrow> blk (ldisk s) ip c \<noteq> i_addrs ip' ! NDIRECT"
      "\<And>c. c < MAXFILE \<Longrightarrow> blk (ldisk t) ip' c = (if c = bn then a else blk (ldisk s) ip c)"
  shows "inode_wf t ip'"
proof -
  note W = inode_wfD [OF wf]
  have "data_blk t (blk (ldisk t) ip' c) \<and> blk (ldisk t) ip' c \<noteq> i_addrs ip' ! NDIRECT"
    if "c < MAXFILE" "blk (ldisk t) ip' c \<noteq> 0" for c
    using that ip'(3,4,5) t W(4) [of c] by (cases "c = bn") auto
  moreover have "c = d" if "c < MAXFILE" "d < MAXFILE" "blk (ldisk t) ip' c = blk (ldisk t) ip' d"
    "blk (ldisk t) ip' c \<noteq> 0" for c d
    using that ip'(5) t(1) W(4) [of c] W(4) [of d] W(6) [of c d]
    by (cases "c = bn"; cases "d = bn") auto
  ultimately show ?thesis unfolding inode_wf_def using ip'(1-3) by blast
qed

lemma bmap_direct_new:
  fixes s :: "'a fs_st_scheme"
  assumes s: "tx_inv s" "fs_layout s" and i: "i < length (icache s)" "inode_wf s (icache s ! i)"
    and bn: "bn < NDIRECT" "blk (ldisk s) (icache s ! i) bn = 0" and a: "alloc_post s a t"
  shows "bmap_post i bn s a (upd_inode i (\<lambda>ip. ip\<lparr>i_addrs := (i_addrs ip)[bn := a]\<rparr>) t)"
proof -
  note A = alloc_facts [OF s a] and W = inode_wfD [OF i(2)]
  let ?ip = "icache s ! i" let ?ip' = "?ip\<lparr>i_addrs := (i_addrs ?ip)[bn := a]\<rparr>"
  let ?u = "upd_inode i (\<lambda>ip. ip\<lparr>i_addrs := (i_addrs ip)[bn := a]\<rparr>) t"
  have ic: "icache ?u = (icache s)[i := ?ip']" "icache ?u ! i = ?ip'" using A(4) i(1) by simp_all
  have bM: "bn < MAXFILE" using bn(1) by (simp add: param_defs)
  have ind: "i_addrs ?ip' ! NDIRECT = i_addrs ?ip ! NDIRECT" using bn(1) by simp
  have same: "blk (ldisk t) ?ip c = blk (ldisk s) ?ip c" for c
    by (rule blk_cong) (use A(10) W(3) in auto)
  have map: "blk (ldisk ?u) ?ip' c = (if c = bn then a else blk (ldisk s) ?ip c)" for c
    using blk_upd_direct [OF W(1) bn(1), of "ldisk t" a c] same by simp
  have D: "data_blk ?u = data_blk t" by (simp add: data_blk_def fun_eq_iff)
  have wf: "inode_wf ?u ?ip'"
    by (rule inode_wf_extend [OF i(2) bM bn(2), where a = a]) (use A(6,8,10) W D ind map in auto)
  have "grown i s ?u" unfolding grown_def ic(2) ind
    using A wf ic(1) D map bn(2) by auto
  moreover have "nfree ?u = nfree t" by (simp add: nfree_def)
  ultimately show ?thesis unfolding bmap_post_def ic(2)
    using A(7,8,9,11,12) map bn(2) by auto
qed

text \<open>A fresh indirect block maps nothing.\<close>

lemma get32_zeros: "k + 4 \<le> n \<Longrightarrow> get32 (replicate n 0) k = 0"
  by (simp add: get32_def get16_def)

lemma bmap_indirect_new:
  fixes s :: "'a fs_st_scheme"
  assumes s: "tx_inv s" "fs_layout s" and i: "i < length (icache s)" "inode_wf s (icache s ! i)"
    and ind: "i_addrs (icache s ! i) ! NDIRECT = 0" and a: "alloc_post s a t"
    and u: "u = upd_inode i (\<lambda>ip. ip\<lparr>i_addrs := (i_addrs ip)[NDIRECT := a]\<rparr>) t"
  shows "grown i s u" "i_addrs (icache u ! i) ! NDIRECT = a"
    "c < MAXFILE \<Longrightarrow> blk (ldisk u) (icache u ! i) c = blk (ldisk s) (icache s ! i) c"
    "data_blk s b \<Longrightarrow> ldisk u b = ldisk s b"
proof -
  note A = alloc_facts [OF s a] and W = inode_wfD [OF i(2)]
  let ?ip = "icache s ! i" let ?ip' = "?ip\<lparr>i_addrs := (i_addrs ?ip)[NDIRECT := a]\<rparr>"
  have ic: "icache u = (icache s)[i := ?ip']" "icache u ! i = ?ip'" using A(4) i(1) u by simp_all
  show ind': "i_addrs (icache u ! i) ! NDIRECT = a" using ic W(1) by simp
  have map: "blk (ldisk u) ?ip' c = blk (ldisk s) ?ip c" if "c < MAXFILE" for c
    using that ind ind' ic(2) A(8,9) u
    by (auto simp: blk_def get32_zeros param_defs)
  then show "c < MAXFILE \<Longrightarrow> blk (ldisk u) (icache u ! i) c = blk (ldisk s) (icache s ! i) c"
    using ic by simp
  show "data_blk s b \<Longrightarrow> ldisk u b = ldisk s b" using A(10) u by simp
  have D: "data_blk u = data_blk t" by (simp add: data_blk_def fun_eq_iff u)
  have "inode_wf u ?ip'" unfolding inode_wf_def
    using W map A(6,10) D ind' ic(2) by (simp add: ind)
  then show "grown i s u" unfolding grown_def
    using A ic ind' D map u by auto
qed

lemma data_blk_disk:
  assumes "fs_layout s" "data_blk s a"
  shows "a < disksize s" "a \<notin> log_area s"
  using assms by (auto simp: fs_layout_def data_blk_def log_area_def data_start_def)

lemma no_held [simp]: "held s = {} \<longleftrightarrow> (\<forall>i c. \<not> owns s i c)"
  by (auto simp: held_def)

text \<open>An entry of the indirect block is filled.\<close>

lemma bmap_entry_filled:
  fixes s :: "'a fs_st_scheme"
  assumes s: "tx_inv s" "fs_layout s" and i: "i < length (icache s)" "inode_wf s (icache s ! i)"
    and ind: "i_addrs (icache s ! i) ! NDIRECT = ind" "ind \<noteq> 0"
    and bn: "bn < NINDIRECT" "get32 (ldisk s ind) (4 * bn) = 0"
    and a: "alloc_post s a v"
    and w: "tx_inv w" "tx_obs w = tx_obs v" "owns w = owns v"
      "ldisk w = (ldisk v)(ind := put32 (4 * bn) a (ldisk s ind))" "dirtyb w = insert ind (dirtyb v)"
  shows "bmap_post i (NDIRECT + bn) s a w" "card (dirtyb w) \<le> card (dirtyb s) + 3" "nfree s \<le> nfree w + 1"
proof -
  note A = alloc_facts [OF s a] and W = inode_wfD [OF i(2)]
  let ?ip = "icache s ! i"
  have ib: "data_blk s ind" using W(3) ind by simp
  have more: "fsb w = fsb v" "icache w = icache s" using tx_more [OF w(2)] A(4) by auto
  have ind_ge: "data_start (fsb s) \<le> ind" "ind \<noteq> 1" "ind \<noteq> a"
    using ib A(7) s(2) by (auto simp: data_blk_def fs_layout_def data_start_def)
  have fsv: "fsb v = fsb s" using A(3) by (simp add: fs_same_def)
  have "BBLOCK c (fsb v) \<noteq> ind" if "c < sb_size (fsb s)" for c
    using layout_bitmap(1) [OF s(2) that] ind_ge fsv by auto
  then have us: "used w c = used v c" if "c < sb_size (fsb s)" for c
    using that w(4) more by (simp add: used_def)
  have D: "data_blk w c = data_blk v c" for c using us [of c] more fsv by (auto simp: data_blk_def)
  have ldk: "ldisk w c = ldisk s c" if "data_blk s c" "c \<noteq> ind" for c
    using A(10) [OF that(1)] w(4) that by simp
  have len: "length (ldisk s ind) = BSIZE" by (rule tx.lo_length [OF s(1)])
  have "a < disksize s" using a free_is_data(2) [OF s(2)] by (simp add: alloc_post_def)
  moreover have "disksize s \<le> 2 ^ 32" using s(1) by (simp add: tx_inv_def log_inv_def)
  ultimately have a32: "a < 2 ^ 32" by linarith
  have map: "blk (ldisk w) ?ip c = (if c = NDIRECT + bn then a else blk (ldisk s) ?ip c)"
    if "c < MAXFILE" for c
  proof (cases "c < NDIRECT")
    case False
    then have "4 * (c - NDIRECT) + 4 \<le> 4 * bn \<or> 4 * bn + 4 \<le> 4 * (c - NDIRECT) \<or> c = NDIRECT + bn" by auto
    then show ?thesis
      using False ind w(4) len bn(1) a32 by (auto simp: blk_def param_defs)
  qed (simp add: blk_def)
  have b0: "blk (ldisk s) ?ip (NDIRECT + bn) = 0" using bn ind by (simp add: blk_def)
  have bM: "NDIRECT + bn < MAXFILE" using bn(1) by (simp add: MAXFILE_def)
  have wf: "inode_wf w ?ip"
    by (rule inode_wf_extend [OF i(2) bM b0, where a = a]) (use A(6,8,10) W D ind map ind_ge in auto)
  have lay: "fs_layout w"
    using A(2) us w(2,4) ind_ge(2) more fsv
    by (auto simp: fs_layout_def tx_obs_eq)
  have "\<exists>ad. icache w = (icache s)[i := ?ip\<lparr>i_addrs := ad\<rparr>]"
    using more by (intro exI [of _ "i_addrs ?ip"]) simp
  then have g: "grown i s w" unfolding grown_def
    using w(1,3) A(3,5,10) lay wf more D ldk map b0 fs_same_trans [OF A(3) fs_same_tx [OF w(2)]] ind by auto
  have "nfree w = nfree v" using us more fsv by (auto simp: nfree_def intro!: arg_cong [where f = card])
  moreover from this show "nfree s \<le> nfree w + 1" using A(11) by simp
  moreover show cd: "card (dirtyb w) \<le> card (dirtyb s) + 3"
    using A(12) w(5) by (simp add: card_insert_if)
  ultimately show "bmap_post i (NDIRECT + bn) s a w" unfolding bmap_post_def
    using g A(7,8,9,11) map [OF bM] map b0 more w(4) ind_ge(3) by auto
qed

text \<open>States that differ only in which buffers are held and where.\<close>

definition cache_eq :: "'a fs_st_scheme \<Rightarrow> 'a fs_st_scheme \<Rightarrow> bool" where
  "cache_eq s t \<longleftrightarrow> tx_obs t = tx_obs s \<and> ldisk t = ldisk s \<and> dirtyb t = dirtyb s"

lemma cache_eqI: "tx_obs t = tx_obs s \<Longrightarrow> ldisk t = ldisk s \<Longrightarrow> dirtyb t = dirtyb s \<Longrightarrow> cache_eq s t"
  by (simp add: cache_eq_def)

lemma cache_eqD:
  assumes "cache_eq s t"
  shows "fsb t = fsb s" "icache t = icache s" "ldisk t = ldisk s" "dirtyb t = dirtyb s"
    "used t = used s" "data_blk t = data_blk s" "fs_layout t = fs_layout s" "nfree t = nfree s"
    "inode_wf t = inode_wf s" "log_area t = log_area s" "disksize t = disksize s" "fs_same s t"
    "room k t = room k s" "fs_same t = fs_same s"
proof -
  have c: "tx_obs t = tx_obs s" "ldisk t = ldisk s" "dirtyb t = dirtyb s"
    using assms by (simp_all add: cache_eq_def)
  show m: "fsb t = fsb s" "icache t = icache s" using tx_more [OF c(1)] by auto
  show "ldisk t = ldisk s" "dirtyb t = dirtyb s" using c by auto
  show d: "disksize t = disksize s" "log_area t = log_area s" "fs_same s t"
    using c(1) log_area_cong [OF c(1)] fs_same_tx [OF c(1)] by (simp_all add: tx_obs_eq)
  show u: "used t = used s" using m c by (simp add: used_def fun_eq_iff)
  show D: "data_blk t = data_blk s" using m u by (simp add: data_blk_def fun_eq_iff)
  show "fs_layout t = fs_layout s" using c(1,2) m u by (simp add: fs_layout_def tx_obs_eq)
  show "nfree t = nfree s" using m u by (simp add: nfree_def)
  show "inode_wf t = inode_wf s" by (rule ext) (simp add: inode_wf_def c(2) D)
  show "room k t = room k s" using c(1,3) by (simp add: room_def tx_obs_eq)
  show "fs_same t = fs_same s" using d(3) by (auto simp: fs_same_def fun_eq_iff)
qed

lemma grown_cong:
  assumes "grown i t w" "cache_eq s t" "cache_eq w u" "tx_inv u" "owns u = owns s"
  shows "grown i s u"
  using assms(1,4,5) cache_eqD [OF assms(2)] cache_eqD [OF assms(3)] fs_same_trans [of s w u]
  unfolding grown_def by auto

lemma bmap_post_cong:
  assumes "bmap_post i bn t a w" "cache_eq s t" "cache_eq w u" "tx_inv u" "owns u = owns s"
  shows "bmap_post i bn s a u"
  using assms(1) cache_eqD [OF assms(2)] cache_eqD [OF assms(3)] grown_cong [OF _ assms(2-5)]
  unfolding bmap_post_def by (cases "blk (ldisk s) (icache s ! i) bn = 0") auto

lemma cache_eq_refl [simp]: "cache_eq s s"
  by (simp add: cache_eq_def)

lemma bmap_same:
  assumes s: "tx_inv s" "fs_layout s" and i: "inode_wf s (icache s ! i)"
    and bn: "blk (ldisk s) (icache s ! i) bn = a" "a \<noteq> 0"
  shows "bmap_post i bn s a s"
  using grown_refl [OF s i] bn by (simp add: bmap_post_def)

lemma bmap_entry_alloc:
  fixes t :: "'a fs_st_scheme"
  assumes t: "tx_inv t" "fs_layout t" "held t = {ind}" "owns t bp ind" "room 3 t" "0 < nfree t"
    and i: "i < length (icache t)" "inode_wf t (icache t ! i)"
    and ind: "i_addrs (icache t ! i) ! NDIRECT = ind" "ind \<noteq> 0"
    and bn: "bn < NINDIRECT" "get32 (ldisk t ind) (4 * bn) = 0"
  shows "okP (bnd (balloc 1 t) (\<lambda>(a, v). bnd (log_write bp (set_bdata bp (put32 (4 * bn) a (bdata bp v)) v))
    (\<lambda>w. Ok (a, w)))) (\<lambda>(a, w). bmap_post i (NDIRECT + bn) t a w \<and> owns w = owns t \<and> ind \<in> dirtyb w \<and>
      card (dirtyb w) \<le> card (dirtyb t) + 3 \<and> nfree t \<le> nfree w + 1)"
proof -
  have ib: "data_blk t ind" using inode_wfD(3) [OF i(2)] ind by simp
  have "okP (balloc 1 t) (\<lambda>(b, v). alloc_post t b v)"
    by (rule balloc_free [OF t(1,2) room_mono [OF t(5)]]) (use t(3,6) ib in auto)
  then show ?thesis
  proof (rule okP_bnd, clarify)
    fix a v assume a: "alloc_post t a v"
    note A = alloc_facts [OF t(1,2) a]
    have own: "owns v bp ind" using A(5) t(4) by simp
    have d: "bdata bp v = ldisk t ind" using tx.dat_lo [OF A(1) own] A(10) [OF ib] by simp
    have "room 1 v" using A(13) [of 1] t(5) by simp
    then have wr: "tx_room v" by (rule room_tx1)
    have "okP (bnd (log_write bp (set_bdata bp (put32 (4 * bn) a (ldisk t ind)) v)) (\<lambda>w. Ok (a, w)))
      (\<lambda>(a, w). bmap_post i (NDIRECT + bn) t a w \<and> owns w = owns t \<and> ind \<in> dirtyb w \<and>
      card (dirtyb w) \<le> card (dirtyb t) + 3 \<and> nfree t \<le> nfree w + 1)"
    proof (rule tx.put_rule [OF A(1) own wr])
      show "length (put32 (4 * bn) a (ldisk t ind)) = BSIZE" using tx.lo_length [OF t(1)] by simp
      fix w assume w: "tx_inv w" "tx_obs w = tx_obs v"
        "ldisk w = (ldisk v)(ind := put32 (4 * bn) a (ldisk t ind))" "dirtyb w = insert ind (dirtyb v)" "owns w = owns v"
      note F = bmap_entry_filled [OF t(1,2) i ind bn a w(1,2,5,3,4)]
      show "okP (Ok (a, w)) (\<lambda>(a, w). bmap_post i (NDIRECT + bn) t a w \<and> owns w = owns t \<and> ind \<in> dirtyb w \<and>
        card (dirtyb w) \<le> card (dirtyb t) + 3 \<and> nfree t \<le> nfree w + 1)"
        using F A(5,11) w by simp
    qed
    then show "okP (bnd (log_write bp (set_bdata bp (put32 (4 * bn) a (bdata bp v)) v)) (\<lambda>w. Ok (a, w)))
      (\<lambda>(a, w). bmap_post i (NDIRECT + bn) t a w \<and> owns w = owns t \<and> ind \<in> dirtyb w \<and>
      card (dirtyb w) \<le> card (dirtyb t) + 3 \<and> nfree t \<le> nfree w + 1)"
      unfolding d .
  qed
qed

lemma bmap_entry:
  fixes s :: "'a fs_st_scheme"
  assumes s: "tx_inv s" "fs_layout s" "held s = {}" "room 3 s" "0 < nfree s"
    and i: "i < length (icache s)" "inode_wf s (icache s ! i)"
    and ind: "i_addrs (icache s ! i) ! NDIRECT = ind" "ind \<noteq> 0" and bn: "bn < NINDIRECT"
  shows "okP (bmap_indirect i bn ind s) (\<lambda>(a, t). bmap_post i (NDIRECT + bn) s a t \<and>
    card (dirtyb t) \<le> card (dirtyb s) + 3 \<and> nfree s \<le> nfree t + 1)"
    (is "okP _ ?Q")
proof -
  have ib: "data_blk s ind" using inode_wfD(3) [OF i(2)] ind by simp
  have own0: "\<And>i c. \<not> owns s i c" using s(3) by simp
  have eb: "blk (ldisk s) (icache s ! i) (NDIRECT + bn) = get32 (ldisk s ind) (4 * bn)"
    using ind by (simp add: blk_def)
  show ?thesis unfolding bmap_indirect_def inode_wfD(2) [OF i(2)]
  proof (rule tx.get_rule, goal_cases)
    case (5 bp t)
    have st: "cache_eq s t" using 5(2,3,4) by (rule cache_eqI)
    note C = cache_eqD [OF st]
    have ht: "held t = {ind}" using 5(5) own0 by (auto simp: held_def)
    let ?R = "\<lambda>(a, w). bmap_post i (NDIRECT + bn) t a w \<and> owns w = owns t \<and> bio_synced w ind \<and>
      card (dirtyb w) \<le> card (dirtyb t) + 3 \<and> nfree t \<le> nfree w + 1"
    have "okP (if get32 (ldisk s ind) (4 * bn) = 0 then
           bnd (balloc 1 t) (\<lambda>(addr, s).
           bnd (log_write bp (set_bdata bp (put32 (4 * bn) addr (bdata bp s)) s)) (\<lambda>s. Ok (addr, s)))
         else Ok (get32 (ldisk s ind) (4 * bn), t)) ?R"
    proof (cases "get32 (ldisk s ind) (4 * bn) = 0")
      case True
      have "okP (bnd (balloc 1 t) (\<lambda>(a, v). bnd (log_write bp (set_bdata bp (put32 (4 * bn) a (bdata bp v)) v))
        (\<lambda>w. Ok (a, w)))) (\<lambda>(a, w). bmap_post i (NDIRECT + bn) t a w \<and> owns w = owns t \<and> ind \<in> dirtyb w \<and>
          card (dirtyb w) \<le> card (dirtyb t) + 3 \<and> nfree t \<le> nfree w + 1)"
        by (rule bmap_entry_alloc [OF 5(1) _ ht 5(6)]) (use s i ind bn C True in auto)
      then show ?thesis using True by (auto elim!: okP_weaken simp: bio_synced_def)
    next
      case False
      then have "bmap_post i (NDIRECT + bn) t (get32 (ldisk s ind) (4 * bn)) t"
        using s(2) i C 5(1) eb by (intro bmap_same) auto
      then show ?thesis using False 5(7) by simp
    qed
    then have "okP (bnd (if get32 (ldisk s ind) (4 * bn) = 0 then
           bnd (balloc 1 t) (\<lambda>(addr, s).
           bnd (log_write bp (set_bdata bp (put32 (4 * bn) addr (bdata bp s)) s)) (\<lambda>s. Ok (addr, s)))
         else Ok (get32 (ldisk s ind) (4 * bn), t)) (\<lambda>(addr, s). bnd (brelse bp s) (\<lambda>s. Ok (addr, s)))) ?Q"
    proof (rule okP_bnd, clarify)
      fix a w
      assume w: "bmap_post i (NDIRECT + bn) t a w" "owns w = owns t" "bio_synced w ind"
        "card (dirtyb w) \<le> card (dirtyb t) + 3" "nfree t \<le> nfree w + 1"
      have "tx_inv w" "owns w bp ind" using w(1,2) 5(6) by (auto simp: bmap_post_def grown_def)
      then show "okP (bnd (brelse bp w) (\<lambda>s. Ok (a, s))) ?Q"
      proof (rule tx.release_rule [OF _ _ w(3)])
        fix u assume u: "tx_inv u" "tx_obs u = tx_obs w" "ldisk u = ldisk w" "dirtyb u = dirtyb w"
          "\<And>j c. owns u j c \<longleftrightarrow> owns w j c \<and> j \<noteq> bp"
        have wu: "cache_eq w u" using u(2,3,4) by (rule cache_eqI)
        have "owns u = owns s" using u(5) w(2) 5(5) own0 by (auto simp: fun_eq_iff)
        then have "bmap_post i (NDIRECT + bn) s a u" by (rule bmap_post_cong [OF w(1) st wu u(1)])
        then show "okP (Ok (a, u)) ?Q" using w(4,5) C cache_eqD [OF wu] by simp
      qed
    qed
    then show ?case unfolding 5(8) C(2) inode_wfD(2) [OF i(2)] .
  qed (use s(1) own0 data_blk_disk [OF s(2) ib] room_get [OF s(1,4)] in \<open>auto simp: held_def\<close>)
qed

lemma bmap_chain:
  assumes u: "grown i s u" "i < length (icache s)" "i_addrs (icache s ! i) ! NDIRECT = 0"
      "\<And>c. c < MAXFILE \<Longrightarrow> blk (ldisk u) (icache u ! i) c = blk (ldisk s) (icache s ! i) c"
      "card (dirtyb u) \<le> card (dirtyb s) + 2" "nfree s \<le> nfree u + 1"
      "\<And>b. used s b \<Longrightarrow> b < sb_size (fsb s) \<Longrightarrow> used u b"
    and t: "bmap_post i bn u a t" "bn < MAXFILE" "card (dirtyb t) \<le> card (dirtyb u) + 3" "nfree u \<le> nfree t + 1"
      "bn \<ge> NDIRECT" "a < sb_size (fsb s)"
  shows "bmap_post i bn s a t"
proof -
  have g: "grown i s t" using grown_trans [OF u(1) _ u(2)] t(1) by (simp add: bmap_post_def)
  have "blk (ldisk s) (icache s ! i) bn = 0" using u(3) t(5) by (simp add: blk_def)
  moreover from this have "\<not> used s a"
    using u(4) [OF t(2)] u(7) [of a] t(1,6) by (auto simp: bmap_post_def)
  ultimately show ?thesis using g t(1,2,3,4) u(4,5,6) by (simp add: bmap_post_def)
qed

lemma bmap_indirect_fresh:
  fixes s :: "'a fs_st_scheme"
  assumes s: "tx_inv s" "fs_layout s" "held s = {}" "room 5 s" "2 \<le> nfree s"
    and i: "i < length (icache s)" "inode_wf s (icache s ! i)"
    and ind: "i_addrs (icache s ! i) ! NDIRECT = 0" and bn: "NDIRECT + n < MAXFILE" "n < NINDIRECT"
    and a: "alloc_post s addr t"
  shows "okP (bmap_indirect i n addr (upd_inode i (\<lambda>ip. ip\<lparr>i_addrs := (i_addrs ip)[NDIRECT := addr]\<rparr>) t))
    (\<lambda>(a, t). bmap_post i (NDIRECT + n) s a t)"
proof -
  let ?u = "upd_inode i (\<lambda>ip. ip\<lparr>i_addrs := (i_addrs ip)[NDIRECT := addr]\<rparr>) t"
  note A = alloc_facts [OF s(1,2) a] and N = bmap_indirect_new [OF s(1,2) i ind a refl]
  note G = grownD [OF N(1) i(1)]
  have free: "nfree s = nfree ?u + 1" using A(11) by (simp add: nfree_def)
  have "okP (bmap_indirect i n addr ?u) (\<lambda>(a, t). bmap_post i (NDIRECT + n) ?u a t \<and>
    card (dirtyb t) \<le> card (dirtyb ?u) + 3 \<and> nfree ?u \<le> nfree t + 1)"
  proof (rule bmap_entry [OF G(1,2)])
    show "held ?u = {}" using s(3) A(5) by (simp add: held_def)
    show "room 3 ?u" using A(13) [of 3] s(4) by simp
    show "0 < nfree ?u" using free s(5) by simp
  qed (use G N(2) A(8) i bn in auto)
  then show ?thesis
  proof (rule okP_weaken, clarify)
    fix b w assume w: "bmap_post i (NDIRECT + n) ?u b w" "card (dirtyb w) \<le> card (dirtyb ?u) + 3"
      "nfree ?u \<le> nfree w + 1"
    have "i < length (icache ?u)" using G(9) i(1) by simp
    note GW = grownD [OF _ this, of w]
    have "inode_wf w (icache w ! i)" "fs_same ?u w" "blk (ldisk w) (icache w ! i) (NDIRECT + n) = b" "b \<noteq> 0"
      using w(1) by (auto simp: bmap_post_def grown_def)
    then have "b < sb_size (fsb s)"
      using inode_wfD(4) [of w _ "NDIRECT + n"] bn A(3) by (auto simp: data_blk_def fs_same_def)
    then show "bmap_post i (NDIRECT + n) s b w"
      by (intro bmap_chain [OF N(1) i(1) ind N(3)]) (use w A(12) free bn used_alloc [OF s(1,2) a] in auto)
  qed
qed

lemma bmap_ok:
  fixes s :: "'a fs_st_scheme"
  assumes s: "tx_inv s" "fs_layout s" "held s = {}" "room 5 s" "2 \<le> nfree s"
    and i: "i < length (icache s)" "inode_wf s (icache s ! i)" and bn: "bn < MAXFILE"
  shows "okP (bmap i bn s) (\<lambda>(a, t). bmap_post i bn s a t)"
proof -
  note W = inode_wfD [OF i(2)]
  have al: "okP (balloc 1 s) (\<lambda>(b, t). alloc_post s b t)"
    by (rule balloc_free [OF s(1,2) room_mono [OF s(4)]]) (use s(3,5) in \<open>auto simp: held_def\<close>)
  let ?n = "bn - NDIRECT"
  consider "bn < NDIRECT" "i_addrs (icache s ! i) ! bn = 0" | "bn < NDIRECT" "i_addrs (icache s ! i) ! bn \<noteq> 0"
    | "\<not> bn < NDIRECT" "i_addrs (icache s ! i) ! NDIRECT = 0" | "\<not> bn < NDIRECT" "i_addrs (icache s ! i) ! NDIRECT \<noteq> 0"
    by blast
  then show ?thesis
  proof cases
    case 1
    then have "blk (ldisk s) (icache s ! i) bn = 0" by (simp add: blk_def)
    note new = bmap_direct_new [OF s(1,2) i 1(1) this]
    have "okP (bnd (balloc 1 s) (\<lambda>(a, t). Ok (a, upd_inode i (\<lambda>ip. ip\<lparr>i_addrs := (i_addrs ip)[bn := a]\<rparr>) t)))
      (\<lambda>(a, t). bmap_post i bn s a t)"
      by (rule okP_bnd [OF al]) (use new in auto)
    then show ?thesis using 1 W(2) by (simp add: bmap_def)
  next
    case 2
    then have "bmap_post i bn s (i_addrs (icache s ! i) ! bn) s"
      by (intro bmap_same [OF s(1,2) i(2)]) (simp_all add: blk_def)
    then show ?thesis using 2 by (simp add: bmap_def)
  next
    case 3
    then have n: "?n < NINDIRECT" "NDIRECT + ?n = bn" using bn by (auto simp: MAXFILE_def)
    have "okP (bnd (balloc 1 s) (\<lambda>(addr, s). bmap_indirect i ?n addr
      (upd_inode i (\<lambda>ip. ip\<lparr>i_addrs := (i_addrs ip)[NDIRECT := addr]\<rparr>) s))) (\<lambda>(a, t). bmap_post i bn s a t)"
      by (rule okP_bnd [OF al]) (use bmap_indirect_fresh [OF s i 3(2), of ?n] n bn in auto)
    then show ?thesis using 3 W(2) n(1) by (simp add: bmap_def bnd_assoc case_prod_unfold)
  next
    case 4
    then have n: "?n < NINDIRECT" "NDIRECT + ?n = bn" using bn by (auto simp: MAXFILE_def)
    have "okP (bmap_indirect i ?n (i_addrs (icache s ! i) ! NDIRECT) s) (\<lambda>(a, t). bmap_post i bn s a t)"
      using bmap_entry [OF s(1-3) room_mono [OF s(4)] _ i refl 4(2) n(1)] s(5) n(2) by (auto elim!: okP_weaken)
    then show ?thesis using 4 n(1) by (simp add: bmap_def)
  qed
qed

end
