(* ===== verification/Contents.thy ===== *)
theory Contents
  imports Inode
begin

text \<open>
  The contents of files. \<open>file_byte\<close> is byte \<open>x\<close> of the file an inode denotes, zero where
  no block is mapped. \<^verbatim>\<open>readi\<close> returns those bytes and changes nothing;
  \<^verbatim>\<open>writei\<close> replaces the bytes of the given range, extends the file where it ends
  before the range, and leaves every other byte of this and every block of other files alone.
\<close>

declare readi_loop.simps [simp del] writei_loop.simps [simp del] namex_loop.simps [simp del]

definition file_byte :: "(nat \<Rightarrow> byte list) \<Rightarrow> inode \<Rightarrow> nat \<Rightarrow> byte" where
  "file_byte l ip x =
     (if blk l ip (x div BSIZE) = 0 then 0 else l (blk l ip (x div BSIZE)) ! (x mod BSIZE))"

text \<open>Every block below the size is mapped.\<close>

definition mapped :: "(nat \<Rightarrow> byte list) \<Rightarrow> inode \<Rightarrow> nat \<Rightarrow> bool" where
  "mapped l ip n \<longleftrightarrow> n \<le> MAXFILE * BSIZE \<and> (\<forall>bn. bn * BSIZE < n \<longrightarrow> blk l ip bn \<noteq> 0)"

lemma dirty_room:
  assumes "tx_inv s" "held s = {}"
  shows "b \<in> dirtyb s \<or> card ({b. \<exists>i. owns s i b} \<union> dirtyb s) < NBUF"
  using assms log_inv_bounds(2) [of s] by (simp add: tx_inv_def held_def)

section \<open>Reading\<close>

lemma bmap_mapped:
  fixes s :: "'a fs_st_scheme"
  assumes s: "tx_inv s" "fs_layout s" "held s = {}" and wf: "inode_wf s (icache s ! i)"
    and bn: "bn < MAXFILE" "blk (ldisk s) (icache s ! i) bn \<noteq> 0"
  shows "okP (bmap i bn s) (\<lambda>(a, t). a = blk (ldisk s) (icache s ! i) bn \<and> tx_inv t \<and> cache_eq s t \<and> owns t = owns s)"
proof (cases "bn < NDIRECT")
  case True
  then show ?thesis using s bn by (simp add: bmap_def blk_def)
next
  case False
  let ?ip = "icache s ! i" let ?ind = "i_addrs ?ip ! NDIRECT" let ?n = "bn - NDIRECT"
  have ind: "?ind \<noteq> 0" "get32 (ldisk s ?ind) (4 * ?n) = blk (ldisk s) ?ip bn" "?n < NINDIRECT"
    using bn False by (auto simp: blk_def MAXFILE_def split: if_splits)
  note D = data_blk_disk [OF s(2) inode_wfD(3) [OF wf ind(1)]]
  have "okP (bmap_indirect i ?n ?ind s)
    (\<lambda>(a, t). a = blk (ldisk s) ?ip bn \<and> tx_inv t \<and> cache_eq s t \<and> owns t = owns s)"
    unfolding bmap_indirect_def inode_wfD(2) [OF wf]
  proof (rule tx.get_rule, goal_cases)
    case (5 bp t)
    have "okP (bnd (brelse bp t) (\<lambda>u. Ok (blk (ldisk s) ?ip bn, u)))
      (\<lambda>(a, t). a = blk (ldisk s) ?ip bn \<and> tx_inv t \<and> cache_eq s t \<and> owns t = owns s)"
      by (rule tx.release_rule [OF 5(1,6,7)]) (use 5 in \<open>auto simp: cache_eq_def fun_eq_iff\<close>)
    then show ?case using 5(8) ind(2) bn(2) by simp
  qed (use s D dirty_room [OF s(1,3)] in auto)
  then show ?thesis using False ind by (simp add: bmap_def)
qed

lemma div_mod_add:
  assumes "j < BSIZE - off mod BSIZE"
  shows "(off + j) div BSIZE = off div BSIZE" "(off + j) mod BSIZE = off mod BSIZE + j"
proof -
  have "off + j = off div BSIZE * BSIZE + (off mod BSIZE + j)" "off mod BSIZE + j < BSIZE"
    using assms by (auto simp: param_defs)
  then show "(off + j) div BSIZE = off div BSIZE" "(off + j) mod BSIZE = off mod BSIZE + j"
    by (metis add.commute div_mult_self3 div_less add_0 mod_mult_self3 mod_less less_nat_zero_code)+
qed

lemma chunk_bytes:
  assumes "blk l ip (off div BSIZE) = a" "a \<noteq> 0" "length (l a) = BSIZE" "m \<le> BSIZE - off mod BSIZE"
  shows "take m (drop (off mod BSIZE) (l a)) = map (file_byte l ip) [off..<off + m]"
proof (rule nth_equalityI)
  show "length (take m (drop (off mod BSIZE) (l a))) = length (map (file_byte l ip) [off..<off + m])"
    using assms by simp
  fix j assume "j < length (take m (drop (off mod BSIZE) (l a)))"
  then have j: "j < m" "j < BSIZE - off mod BSIZE" using assms(4) by auto
  then show "take m (drop (off mod BSIZE) (l a)) ! j = map (file_byte l ip) [off..<off + m] ! j"
    using assms by (simp add: file_byte_def div_mod_add)
qed

lemma readi_loop_ok:
  fixes s :: "'a fs_st_scheme"
  assumes "tx_inv s" "fs_layout s" "held s = {}" "inode_wf s (icache s ! i)"
    "mapped (ldisk s) (icache s ! i) n" "off + left \<le> n"
  shows "okP (readi_loop i off left s) (\<lambda>(ds, t). ds = map (file_byte (ldisk s) (icache s ! i)) [off..<off + left] \<and>
    tx_inv t \<and> cache_eq s t \<and> owns t = owns s)"
  using assms
proof (induction left arbitrary: off s rule: less_induct)
  case (less left)
  note P = less.prems
  show ?case
  proof (cases "left = 0")
    case True
    then show ?thesis using P(1) by (simp add: readi_loop.simps)
  next
    case False
    let ?ip = "icache s ! i" let ?bn = "off div BSIZE" let ?m = "chunk off left" let ?l = "ldisk s"
    let ?a = "blk ?l ?ip ?bn"
    have lt: "off < n" using P(6) False by simp
    have nz: "?a \<noteq> 0" "?bn < MAXFILE"
      using P(5) lt by (auto simp: mapped_def param_defs)
    have m: "0 < ?m" "?m \<le> left" "?m \<le> BSIZE - off mod BSIZE"
      using chunk_pos [of left off] chunk_le [of off left] False by (auto simp: chunk_def)
    have bytes: "take ?m (drop (off mod BSIZE) (?l ?a)) = map (file_byte ?l ?ip) [off..<off + ?m]"
      by (rule chunk_bytes [OF refl nz(1) tx.lo_length [OF P(1)] m(3)])
    note db = data_blk_disk [OF P(2) inode_wfD(4) [OF P(4) nz(2,1)]]
    show ?thesis
      unfolding readi_loop.simps [of i off left s] if_not_P [OF False]
    proof (rule okP_bnd [OF bmap_mapped [OF P(1-4) nz(2,1)]], clarify)
      fix t assume t: "tx_inv t" "cache_eq s t" "owns t = owns s"
      note C = cache_eqD [OF t(2)]
      have dev: "i_dev (icache t ! i) = 1" using inode_wfD(2) [OF P(4)] C(2) by simp
      have ht: "held t = {}" using P(3) t(3) by simp
      show "okP (bnd (bread (i_dev (icache t ! i)) ?a t) (\<lambda>(bp, s).
          let m = ?m; ds = take m (drop (off mod BSIZE) (bdata bp s)) in
          bnd (brelse bp s) (\<lambda>s. bnd (readi_loop i (off + m) (left - m) s) (\<lambda>(rest, s). Ok (ds @ rest, s)))))
        (\<lambda>(ds, t). ds = map (file_byte ?l ?ip) [off..<off + left] \<and> tx_inv t \<and> cache_eq s t \<and> owns t = owns s)"
        unfolding dev
      proof (rule tx.get_rule, goal_cases)
        case (5 bp v)
        have "okP (bnd (brelse bp v) (\<lambda>w. bnd (readi_loop i (off + ?m) (left - ?m) w)
            (\<lambda>(rest, s). Ok (map (file_byte ?l ?ip) [off..<off + ?m] @ rest, s))))
          (\<lambda>(ds, t). ds = map (file_byte ?l ?ip) [off..<off + left] \<and> tx_inv t \<and> cache_eq s t \<and> owns t = owns s)"
        proof (rule tx.release_rule [OF 5(1,6,7)])
          fix w assume w: "tx_inv w" "tx_obs w = tx_obs v" "ldisk w = ldisk v" "dirtyb w = dirtyb v"
            "\<And>j c. owns w j c \<longleftrightarrow> owns v j c \<and> j \<noteq> bp"
          have sw: "cache_eq s w" using t(2) w 5 by (simp add: cache_eq_def)
          have ow: "owns w = owns s" using w(5) 5(5) t(3) ht by (auto simp: fun_eq_iff)
          note CW = cache_eqD [OF sw]
          have "okP (readi_loop i (off + ?m) (left - ?m) w)
            (\<lambda>(ds, t). ds = map (file_byte (ldisk w) (icache w ! i)) [off + ?m..<off + ?m + (left - ?m)] \<and>
              tx_inv t \<and> cache_eq w t \<and> owns t = owns w)"
            by (rule less.IH) (use m False w(1) P CW ow in auto)
          moreover have "[off..<off + left] = [off..<off + ?m] @ [off + ?m..<off + ?m + (left - ?m)]"
            using m upt_add_eq_append [of off "off + ?m" "left - ?m"] by simp
          ultimately show "okP (bnd (readi_loop i (off + ?m) (left - ?m) w)
              (\<lambda>(rest, s). Ok (map (file_byte ?l ?ip) [off..<off + ?m] @ rest, s)))
            (\<lambda>(ds, t). ds = map (file_byte ?l ?ip) [off..<off + left] \<and> tx_inv t \<and> cache_eq s t \<and> owns t = owns s)"
            using CW ow sw by (auto elim!: okP_bnd simp: cache_eq_def)
        qed
        then show ?case using 5(8) C(3) bytes by (simp add: Let_def)
      qed (use t(1) C db ht dirty_room [OF t(1) ht] in auto)
    qed
  qed
qed

text \<open>Only the blocks the request reaches need be mapped.\<close>

lemma readi_within:
  fixes s :: "'a fs_st_scheme"
  assumes s: "tx_inv s" "fs_layout s" "held s = {}" "inode_wf s (icache s ! i)"
    and ip: "ip = icache s ! i" "i_type ip \<noteq> T_DEV" "mapped (ldisk s) ip m"
    and n: "off \<le> i_size ip" "off + n < 2 ^ 32" "off + min n (i_size ip - off) \<le> m"
  shows "okP (readi dv i off n s) (\<lambda>((r, ds), t). r = int (min n (i_size ip - off)) \<and>
    ds = map (file_byte (ldisk s) ip) [off..<off + min n (i_size ip - off)] \<and>
    tx_inv t \<and> cache_eq s t \<and> owns t = owns s)"
proof -
  let ?n = "if off + n > i_size ip then i_size ip - off else n"
  have mn: "?n = min n (i_size ip - off)" using n(1) by auto
  have "okP (readi_loop i off ?n s) (\<lambda>(ds, t). ds = map (file_byte (ldisk s) ip) [off..<off + ?n] \<and>
    tx_inv t \<and> cache_eq s t \<and> owns t = owns s)"
    using readi_loop_ok [OF s, of m off ?n] ip(1,3) n(3) unfolding mn by auto
  then have "okP (bnd (readi_loop i off ?n s) (\<lambda>(ds, s). Ok ((int ?n, ds), s)))
    (\<lambda>((r, ds), t). r = int ?n \<and> ds = map (file_byte (ldisk s) ip) [off..<off + ?n] \<and>
      tx_inv t \<and> cache_eq s t \<and> owns t = owns s)"
    by (rule okP_bnd) auto
  moreover have "readi dv i off n s = bnd (readi_loop i off ?n s) (\<lambda>(ds, s). Ok ((int ?n, ds), s))"
    using ip(1,2) n by (simp add: readi_def Let_def)
  ultimately show ?thesis unfolding mn by simp
qed

lemma readi_ok:
  fixes s :: "'a fs_st_scheme"
  assumes s: "tx_inv s" "fs_layout s" "held s = {}" "inode_wf s (icache s ! i)"
    and ip: "ip = icache s ! i" "i_type ip \<noteq> T_DEV" "mapped (ldisk s) ip (i_size ip)"
    and n: "off \<le> i_size ip" "off + n < 2 ^ 32"
  shows "okP (readi dv i off n s) (\<lambda>((r, ds), t). r = int (min n (i_size ip - off)) \<and>
    ds = map (file_byte (ldisk s) ip) [off..<off + min n (i_size ip - off)] \<and>
    tx_inv t \<and> cache_eq s t \<and> owns t = owns s)"
  by (rule readi_within [OF s ip n]) (use n(1) in simp)

section \<open>Writing\<close>

text \<open>The blocks of a file, its indirect block included.\<close>

definition ibl :: "(nat \<Rightarrow> byte list) \<Rightarrow> inode \<Rightarrow> nat set" where
  "ibl l ip = {a. a \<noteq> 0 \<and> (a = i_addrs ip ! NDIRECT \<or> (\<exists>bn < MAXFILE. a = blk l ip bn))}"

definition wrote :: "nat \<Rightarrow> 'a fs_st_scheme \<Rightarrow> 'a fs_st_scheme \<Rightarrow> bool" where
  "wrote i s t \<longleftrightarrow> tx_inv t \<and> fs_layout t \<and> fs_same s t \<and> owns t = owns s \<and>
     (\<exists>ad. icache t = (icache s)[i := (icache s ! i)\<lparr>i_addrs := ad\<rparr>]) \<and> inode_wf t (icache t ! i) \<and>
     (\<forall>c. data_blk s c \<longrightarrow> data_blk t c \<and> (c \<notin> ibl (ldisk s) (icache s ! i) \<longrightarrow>
        ldisk t c = ldisk s c \<and> c \<notin> ibl (ldisk t) (icache t ! i)))"

lemma wroteD:
  assumes "wrote i s t" "i < length (icache s)"
  shows "tx_inv t" "fs_layout t" "fs_same s t" "owns t = owns s" "inode_wf t (icache t ! i)"
    "data_blk s c \<Longrightarrow> data_blk t c"
    "data_blk s c \<Longrightarrow> c \<notin> ibl (ldisk s) (icache s ! i) \<Longrightarrow>
       ldisk t c = ldisk s c \<and> c \<notin> ibl (ldisk t) (icache t ! i)"
    "length (icache t) = length (icache s)" "j \<noteq> i \<Longrightarrow> icache t ! j = icache s ! j"
    "icache t ! i = (icache s ! i)\<lparr>i_addrs := i_addrs (icache t ! i)\<rparr>"
proof -
  obtain ad where ad: "icache t = (icache s)[i := (icache s ! i)\<lparr>i_addrs := ad\<rparr>]"
    using assms(1) unfolding wrote_def by blast
  show "length (icache t) = length (icache s)" "j \<noteq> i \<Longrightarrow> icache t ! j = icache s ! j"
    "icache t ! i = (icache s ! i)\<lparr>i_addrs := i_addrs (icache t ! i)\<rparr>"
    unfolding ad using assms(2) by simp_all
qed (use assms(1) in \<open>unfold wrote_def, blast+\<close>)

lemma wrote_refl:
  assumes "tx_inv s" "fs_layout s" "inode_wf s (icache s ! i)"
  shows "wrote i s s"
proof -
  have "\<exists>ad. icache s = (icache s)[i := (icache s ! i)\<lparr>i_addrs := ad\<rparr>]"
    by (rule exI [of _ "i_addrs (icache s ! i)"]) simp
  then show ?thesis using assms fs_same_refl [of s] unfolding wrote_def by blast
qed

lemma wrote_trans:
  assumes "wrote i s t" "wrote i t u" "i < length (icache s)"
  shows "wrote i s u"
proof -
  note T = wroteD [OF assms(1,3)]
  have "i < length (icache t)" using T(8) assms(3) by simp
  note U = wroteD [OF assms(2) this]
  obtain ad where "icache t = (icache s)[i := (icache s ! i)\<lparr>i_addrs := ad\<rparr>]"
    using assms(1) unfolding wrote_def by blast
  moreover obtain ad' where "icache u = (icache t)[i := (icache t ! i)\<lparr>i_addrs := ad'\<rparr>]"
    using assms(2) unfolding wrote_def by blast
  ultimately have "icache u = (icache s)[i := (icache s ! i)\<lparr>i_addrs := ad'\<rparr>]"
    using assms(3) by simp
  moreover have "data_blk u c \<and> (c \<notin> ibl (ldisk s) (icache s ! i) \<longrightarrow>
      ldisk u c = ldisk s c \<and> c \<notin> ibl (ldisk u) (icache u ! i))" if "data_blk s c" for c
    using that T(6,7) [of c] U(6,7) [of c] by simp
  ultimately show ?thesis unfolding wrote_def
    using U(1-5) T(4) fs_same_trans [OF T(3) U(3)] by fastforce
qed

lemma bmap_wrote:
  assumes b: "bmap_post i bn s a t" and i: "i < length (icache s)" "inode_wf s (icache s ! i)" "bn < MAXFILE"
  shows "wrote i s t"
proof -
  have g: "grown i s t" using b by (simp add: bmap_post_def)
  note G = grownD [OF g i(1)]
  have "c \<notin> ibl (ldisk t) (icache t ! i)" "ldisk t c = ldisk s c"
    if c: "data_blk s c" "c \<notin> ibl (ldisk s) (icache s ! i)" for c
  proof -
    have ind: "c \<noteq> i_addrs (icache s ! i) ! NDIRECT \<or> c = 0" using c(2) by (auto simp: ibl_def)
    have c0: "c \<noteq> 0" using c(1) G(2) G(3) by (auto simp: data_blk_def fs_layout_def fs_same_def data_start_def)
    then show "ldisk t c = ldisk s c" using G(7) c(1) ind by simp
    have "blk (ldisk t) (icache t ! i) d \<noteq> c" if d: "d < MAXFILE" for d
    proof (cases "d = bn")
      case True
      show ?thesis
      proof (cases "blk (ldisk s) (icache s ! i) bn = 0")
        case 0: True
        then have "\<not> used s a" "blk (ldisk t) (icache t ! i) bn = a"
          using b by (auto simp: bmap_post_def)
        then show ?thesis using True c(1) by (auto simp: data_blk_def)
      next
        case False
        then show ?thesis using G(8) [OF i(3)] c(2) c0 True i(3) by (auto simp: ibl_def)
      qed
    next
      case False
      then have "blk (ldisk t) (icache t ! i) d = blk (ldisk s) (icache s ! i) d"
        using b d by (auto simp: bmap_post_def)
      then show ?thesis using c(2) c0 d by (auto simp: ibl_def)
    qed
    then show "c \<notin> ibl (ldisk t) (icache t ! i)" using G(7) c(1) ind c0 by (auto simp: ibl_def)
  qed
  then show ?thesis using g unfolding grown_def wrote_def by blast
qed

text \<open>Storing into a data block of the file changes that block and nothing the map depends on.\<close>

lemma data_write:
  fixes t :: "'a fs_st_scheme"
  assumes t: "tx_inv t" "fs_layout t" and i: "i < length (icache t)" "inode_wf t (icache t ! i)"
    and bn: "bn < MAXFILE" "blk (ldisk t) (icache t ! i) bn = a" "a \<noteq> 0"
    and u: "tx_inv u" "tx_obs u = tx_obs t" "owns u = owns t" "ldisk u = (ldisk t)(a := d)" "dirtyb u = insert a (dirtyb t)"
  shows "wrote i t u" "icache u = icache t" "blk (ldisk u) (icache t ! i) = blk (ldisk t) (icache t ! i)"
    "nfree u = nfree t" "card (dirtyb u) \<le> card (dirtyb t) + 1"
proof -
  let ?ip = "icache t ! i"
  note W = inode_wfD [OF i(2)] and M = tx_more [OF u(2)]
  have ab: "data_blk t a" "a \<noteq> i_addrs ?ip ! NDIRECT" using W(4,5) [OF bn(1)] bn by auto
  show ic: "icache u = icache t" using M by simp
  show b: "blk (ldisk u) ?ip = blk (ldisk t) ?ip"
    by (rule ext, rule blk_cong) (use u(4) ab(2) in simp)
  have "BBLOCK c (fsb t) \<noteq> a" if "c < sb_size (fsb t)" for c
    using layout_bitmap(1) [OF t(2) that] ab(1) by (auto simp: data_blk_def)
  then have us: "used u c = used t c" if "c < sb_size (fsb t)" for c
    using that u(4) M by (simp add: used_def)
  have D: "data_blk u c = data_blk t c" for c using us [of c] M by (auto simp: data_blk_def)
  have "a \<noteq> 1" using ab(1) t(2) by (auto simp: data_blk_def fs_layout_def data_start_def)
  then have lay: "fs_layout u" using t(2) us u(2,4) M by (auto simp: fs_layout_def tx_obs_eq)
  have wf: "inode_wf u (icache u ! i)" unfolding ic inode_wf_def b D using i(2) unfolding inode_wf_def .
  show "nfree u = nfree t" using us M by (auto simp: nfree_def intro!: arg_cong [where f = card])
  show "card (dirtyb u) \<le> card (dirtyb t) + 1" using u(5) by (simp add: card_insert_if)
  have "a \<in> ibl (ldisk t) ?ip" using bn by (auto simp: ibl_def)
  moreover have "ibl (ldisk u) (icache u ! i) = ibl (ldisk t) ?ip" by (simp add: ibl_def ic b)
  moreover have "\<exists>ad. icache u = (icache t)[i := ?ip\<lparr>i_addrs := ad\<rparr>]"
    unfolding ic by (rule exI [of _ "i_addrs ?ip"]) simp
  ultimately show "wrote i t u" unfolding wrote_def
    using u(1,3,4) lay fs_same_tx [OF u(2)] wf D by auto
qed

text \<open>Blocks an iteration sequence over \<open>n\<close> bytes at \<open>off\<close> visits, at most.\<close>

definition nblk :: "nat \<Rightarrow> nat \<Rightarrow> nat" where
  "nblk off n = (if n = 0 then 0 else (off mod BSIZE + n + BSIZE - 1) div BSIZE)"

lemma nblk_step:
  assumes "0 < n"
  shows "nblk (off + chunk off n) (n - chunk off n) + 1 \<le> nblk off n"
proof (cases "n \<le> BSIZE - off mod BSIZE")
  case True
  then show ?thesis using assms by (simp add: chunk_def nblk_def param_defs)
next
  case False
  then have c: "chunk off n = BSIZE - off mod BSIZE" by (simp add: chunk_def)
  have r: "off div BSIZE * BSIZE + off mod BSIZE = off" "off mod BSIZE < BSIZE" by (simp_all add: param_defs)
  then have "off + (BSIZE - off mod BSIZE) = off div BSIZE * BSIZE + BSIZE" by linarith
  then have "(off + chunk off n) mod BSIZE = 0" unfolding c by simp
  moreover have "n - chunk off n + BSIZE - 1 = off mod BSIZE + n - 1"
    "off mod BSIZE + n + BSIZE - 1 = off mod BSIZE + n - 1 + BSIZE" "0 < n - chunk off n"
    using False c assms r(2) by linarith+
  ultimately show ?thesis by (simp add: nblk_def param_defs)
qed

text \<open>One iteration of the loop: the chunk is in place and no other byte has changed.\<close>

lemma chunk_written:
  fixes s :: "'a fs_st_scheme"
  assumes s: "i < length (icache s)" "inode_wf s (icache s ! i)"
    and t: "bmap_post i bn s a t" "bn = off div BSIZE" "bn < MAXFILE" "inode_wf t (icache t ! i)"
    and len: "length (ldisk t a) = BSIZE"
    and u: "icache u = icache t" "ldisk u = (ldisk t)(a := mem_put (ldisk t a) (off mod BSIZE) src)"
      "blk (ldisk u) (icache t ! i) = blk (ldisk t) (icache t ! i)"
    and src: "length src \<le> BSIZE - off mod BSIZE" and x: "x < MAXFILE * BSIZE"
  shows "file_byte (ldisk u) (icache u ! i) x =
    (if off \<le> x \<and> x < off + length src then src ! (x - off) else file_byte (ldisk s) (icache s ! i) x)"
proof -
  have P: "a \<noteq> 0" "blk (ldisk t) (icache t ! i) bn = a"
    "\<And>c. c < MAXFILE \<Longrightarrow> c \<noteq> bn \<Longrightarrow> blk (ldisk t) (icache t ! i) c = blk (ldisk s) (icache s ! i) c"
    using t(1) by (auto simp: bmap_post_def)
  have g: "grown i s t" using t(1) by (simp add: bmap_post_def)
  have xb: "x div BSIZE < MAXFILE" using x by (simp add: less_mult_imp_div_less)
  show ?thesis
  proof (cases "x div BSIZE = bn")
    case True
    have old: "ldisk t a ! (x mod BSIZE) = file_byte (ldisk s) (icache s ! i) x"
      using t(1) True P(2) unfolding bmap_post_def file_byte_def by (auto split: if_splits simp: param_defs)
    have mo: "off mod BSIZE < BSIZE" "x mod BSIZE < BSIZE" by (simp_all add: param_defs)
    have "off = bn * BSIZE + off mod BSIZE" "x = bn * BSIZE + x mod BSIZE"
      using t(2) True by (metis div_mult_mod_eq)+
    then have "off \<le> x \<and> x < off + length src \<longleftrightarrow>
        off mod BSIZE \<le> x mod BSIZE \<and> x mod BSIZE < off mod BSIZE + length src"
      "x - off = x mod BSIZE - off mod BSIZE" by linarith+
    moreover have "file_byte (ldisk u) (icache u ! i) x = mem_put (ldisk t a) (off mod BSIZE) src ! (x mod BSIZE)"
      using P u True by (simp add: file_byte_def)
    ultimately show ?thesis using old src mo len by (auto simp: nth_mem_put)
  next
    case False
    let ?b = "blk (ldisk t) (icache t ! i) (x div BSIZE)"
    have same: "?b = blk (ldisk s) (icache s ! i) (x div BSIZE)" using P(3) xb False by simp
    have out: "\<not> (off \<le> x \<and> x < off + length src)"
    proof
      assume r: "off \<le> x \<and> x < off + length src"
      then have "x - off < BSIZE - off mod BSIZE" using src by linarith
      from div_mod_add(1) [OF this] r False t(2) show False by simp
    qed
    have ne: "?b \<noteq> 0 \<Longrightarrow> ?b \<noteq> a" using inode_wfD(6) [OF t(4) xb t(3)] P(2) False by auto
    have "?b \<noteq> 0 \<Longrightarrow> ldisk t ?b = ldisk s ?b"
      using inode_wfD(4,5) [OF s(2) xb] grownD(7) [OF g s(1)] same by simp
    then show ?thesis unfolding if_not_P [OF out]
      using ne u same by (cases "?b = 0") (simp_all add: file_byte_def)
  qed
qed

lemma writei_step:
  fixes s :: "'a fs_st_scheme"
  assumes s: "tx_inv s" "fs_layout s" "held s = {}" "room 6 s" "2 \<le> nfree s"
    and i: "i < length (icache s)" "inode_wf s (icache s ! i)"
    and off: "off div BSIZE < MAXFILE" and src: "length src \<le> BSIZE - off mod BSIZE"
    and rest: "\<And>u. wrote i s u \<Longrightarrow> nfree s \<le> nfree u + 2 \<Longrightarrow> card (dirtyb u) \<le> card (dirtyb s) + 6 \<Longrightarrow>
      (\<And>x. x < MAXFILE * BSIZE \<Longrightarrow> file_byte (ldisk u) (icache u ! i) x =
        (if off \<le> x \<and> x < off + length src then src ! (x - off) else file_byte (ldisk s) (icache s ! i) x)) \<Longrightarrow>
      (\<And>c. c < MAXFILE \<Longrightarrow> c = off div BSIZE \<or> blk (ldisk s) (icache s ! i) c \<noteq> 0 \<Longrightarrow>
        blk (ldisk u) (icache u ! i) c \<noteq> 0) \<Longrightarrow> okP (g u) Q"
  shows "okP (bnd (bmap i (off div BSIZE) s) (\<lambda>(a, s).
    bnd (bread (i_dev (icache s ! i)) a s) (\<lambda>(bp, s).
    bnd (log_write bp (set_bdata bp (mem_put (bdata bp s) (off mod BSIZE) src) s)) (\<lambda>s.
    bnd (brelse bp s) g)))) Q"
proof (rule okP_bnd [OF bmap_ok [OF s(1-3) room_mono [OF s(4)] s(5) i off]], simp, clarify)
  fix a t assume b: "bmap_post i (off div BSIZE) s a t"
  have g: "grown i s t" and P: "a \<noteq> 0" "blk (ldisk t) (icache t ! i) (off div BSIZE) = a"
    "nfree s \<le> nfree t + 2" "card (dirtyb t) \<le> card (dirtyb s) + 5"
    "\<And>c. c < MAXFILE \<Longrightarrow> c \<noteq> off div BSIZE \<Longrightarrow> blk (ldisk t) (icache t ! i) c = blk (ldisk s) (icache s ! i) c"
    using b by (auto simp: bmap_post_def)
  note G = grownD [OF g i(1)]
  have it: "i < length (icache t)" using G(9) i(1) by simp
  have ht: "held t = {}" using G(4) s(3) by simp
  have dev: "i_dev (icache t ! i) = 1" using inode_wfD(2) [OF G(5)] .
  have db: "data_blk t a" using inode_wfD(4) [OF G(5) off] P(1,2) by simp
  have rt: "room 1 t" using s(4) P(4) G(3) by (simp add: room_def fs_same_def)
  show "okP (bnd (bread (i_dev (icache t ! i)) a t) (\<lambda>(bp, s).
    bnd (log_write bp (set_bdata bp (mem_put (bdata bp s) (off mod BSIZE) src) s)) (\<lambda>s. bnd (brelse bp s) g))) Q"
    unfolding dev
  proof (rule tx.get_rule, goal_cases)
    case (5 bp v)
    have wr: "tx_room v" using room_tx1 [OF room_cong [OF rt 5(4,2)]] .
    have len: "length (ldisk t a) = BSIZE" by (rule tx.lo_length [OF G(1)])
    have lsrc: "off mod BSIZE + length src \<le> BSIZE" using src mod_less_divisor [of BSIZE off] by (simp add: param_defs)
    show ?case unfolding 5(8)
    proof (rule tx.update_held_rule [OF 5(1,6) wr])
      show "length (mem_put (ldisk t a) (off mod BSIZE) src) = BSIZE" using len lsrc by simp
      fix u assume u: "tx_inv u" "tx_obs u = tx_obs v" "ldisk u = (ldisk v)(a := mem_put (ldisk t a) (off mod BSIZE) src)"
        "dirtyb u = insert a (dirtyb v)" "\<And>j c. owns u j c \<longleftrightarrow> owns v j c \<and> j \<noteq> bp"
      have "owns u = owns t" using u(5) 5(5) ht by (auto simp: fun_eq_iff)
      note U = data_write [OF G(1,2) it G(5) off P(2,1) u(1) _ this, of "mem_put (ldisk t a) (off mod BSIZE) src"]
      have obs: "tx_obs u = tx_obs t" "ldisk u = (ldisk t)(a := mem_put (ldisk t a) (off mod BSIZE) src)"
        "dirtyb u = insert a (dirtyb t)" using u 5 by auto
      note U = U [OF obs]
      show "okP (g u) Q"
      proof (rule rest)
        show "wrote i s u" by (rule wrote_trans [OF bmap_wrote [OF b i off] U(1) i(1)])
        show "file_byte (ldisk u) (icache u ! i) x =
          (if off \<le> x \<and> x < off + length src then src ! (x - off) else file_byte (ldisk s) (icache s ! i) x)"
          if "x < MAXFILE * BSIZE" for x
          by (rule chunk_written [OF i b refl off G(5) len U(2) obs(2) U(3) src that])
        show "blk (ldisk u) (icache u ! i) c \<noteq> 0"
          if "c < MAXFILE" "c = off div BSIZE \<or> blk (ldisk s) (icache s ! i) c \<noteq> 0" for c
          using that U(2,3) P(1,2,5) by (cases "c = off div BSIZE") auto
      qed (use U P in auto)
    qed
  qed (use G(1) ht data_blk_disk [OF G(2) db] dirty_room [OF G(1) ht] in auto)
qed

definition overlay :: "nat \<Rightarrow> byte list \<Rightarrow> (nat \<Rightarrow> byte) \<Rightarrow> nat \<Rightarrow> byte" where
  "overlay off src f x = (if off \<le> x \<and> x < off + length src then src ! (x - off) else f x)"

lemma overlay_app:
  "overlay (off + length us) vs (overlay off us f) = overlay off (us @ vs) f"
  by (auto simp: fun_eq_iff overlay_def nth_append)

lemma overlay_take_drop:
  assumes "m \<le> length src"
  shows "overlay (off + m) (drop m src) (overlay off (take m src) f) = overlay off src f"
  using overlay_app [of off "take m src" "drop m src" f] assms by simp

lemma writei_loop_ok:
  fixes s :: "'a fs_st_scheme"
  assumes "tx_inv s" "fs_layout s" "held s = {}" "i < length (icache s)" "inode_wf s (icache s ! i)"
    "room (6 * nblk off (length src)) s" "2 * nblk off (length src) \<le> nfree s"
    "off + length src \<le> MAXFILE * BSIZE"
  shows "okP (writei_loop i off src s) (\<lambda>(off', t). off' = off + length src \<and> wrote i s t \<and>
    card (dirtyb t) \<le> card (dirtyb s) + 6 * nblk off (length src) \<and>
    (\<forall>x < MAXFILE * BSIZE. file_byte (ldisk t) (icache t ! i) x =
       overlay off src (file_byte (ldisk s) (icache s ! i)) x) \<and>
    (\<forall>c < MAXFILE. (\<exists>x. off \<le> x \<and> x < off + length src \<and> c = x div BSIZE) \<or> blk (ldisk s) (icache s ! i) c \<noteq> 0 \<longrightarrow>
       blk (ldisk t) (icache t ! i) c \<noteq> 0))"
  using assms
proof (induction "length src" arbitrary: off src s rule: less_induct)
  case less
  note P = less.prems
  show ?case
  proof (cases "src = []")
    case True
    then show ?thesis using wrote_refl [OF P(1,2,5)] by (auto simp: writei_loop.simps overlay_def)
  next
    case False
    let ?m = "chunk off (length src)" let ?ip = "icache s ! i"
    have m: "0 < ?m" "?m \<le> length src" "?m \<le> BSIZE - off mod BSIZE"
      using False chunk_pos [of "length src" off] by (auto simp: chunk_def)
    have nb: "nblk (off + ?m) (length src - ?m) + 1 \<le> nblk off (length src)"
      using nblk_step [of "length src" off] False by simp
    have ob: "off div BSIZE < MAXFILE"
      using P(8) False by (intro less_mult_imp_div_less) (cases src; simp)
    show ?thesis unfolding writei_loop.simps [of i off src s] if_not_P [OF False] Let_def
    proof (rule writei_step [OF P(1-3) _ _ P(4,5) ob])
      show "room 6 s" by (rule room_mono [OF P(6)]) (use nb in simp)
      show "2 \<le> nfree s" using P(7) nb by simp
      show "length (take ?m src) \<le> BSIZE - off mod BSIZE" using m by simp
      fix u assume u: "wrote i s u" "nfree s \<le> nfree u + 2" "card (dirtyb u) \<le> card (dirtyb s) + 6"
        and fb: "\<And>x. x < MAXFILE * BSIZE \<Longrightarrow> file_byte (ldisk u) (icache u ! i) x =
          (if off \<le> x \<and> x < off + length (take ?m src) then take ?m src ! (x - off) else file_byte (ldisk s) ?ip x)"
        and mp: "\<And>c. c < MAXFILE \<Longrightarrow> c = off div BSIZE \<or> blk (ldisk s) ?ip c \<noteq> 0 \<Longrightarrow> blk (ldisk u) (icache u ! i) c \<noteq> 0"
      note U = wroteD [OF u(1) P(4)]
      have "okP (writei_loop i (off + ?m) (drop ?m src) u) (\<lambda>(off', t). off' = off + ?m + length (drop ?m src) \<and>
        wrote i u t \<and> card (dirtyb t) \<le> card (dirtyb u) + 6 * nblk (off + ?m) (length (drop ?m src)) \<and>
        (\<forall>x < MAXFILE * BSIZE. file_byte (ldisk t) (icache t ! i) x =
           overlay (off + ?m) (drop ?m src) (file_byte (ldisk u) (icache u ! i)) x) \<and>
        (\<forall>c < MAXFILE. (\<exists>x. off + ?m \<le> x \<and> x < off + ?m + length (drop ?m src) \<and> c = x div BSIZE) \<or>
           blk (ldisk u) (icache u ! i) c \<noteq> 0 \<longrightarrow> blk (ldisk t) (icache t ! i) c \<noteq> 0))"
      proof (rule less.hyps [OF _ U(1,2)])
        show "length (drop ?m src) < length src" using m False by simp
        show "held u = {}" using P(3) U(4) by simp
        show "room (6 * nblk (off + ?m) (length (drop ?m src))) u"
          using P(6) nb u(3) U(3) by (simp add: room_def fs_same_def)
        show "2 * nblk (off + ?m) (length (drop ?m src)) \<le> nfree u" using P(7) nb u(2) by simp
      qed (use U P m in auto)
      then show "okP (writei_loop i (off + ?m) (drop ?m src) u) (\<lambda>(off', t). off' = off + length src \<and> wrote i s t \<and>
        card (dirtyb t) \<le> card (dirtyb s) + 6 * nblk off (length src) \<and>
        (\<forall>x < MAXFILE * BSIZE. file_byte (ldisk t) (icache t ! i) x = overlay off src (file_byte (ldisk s) ?ip) x) \<and>
        (\<forall>c < MAXFILE. (\<exists>x. off \<le> x \<and> x < off + length src \<and> c = x div BSIZE) \<or> blk (ldisk s) ?ip c \<noteq> 0 \<longrightarrow>
           blk (ldisk t) (icache t ! i) c \<noteq> 0))"
      proof (rule okP_weaken, safe, goal_cases)
        case (1 a t)
        then show ?case using m by simp
      next
        case (2 a t)
        then show ?case using wrote_trans [OF u(1) _ P(4)] by simp
      next
        case (3 a t)
        then show ?case using nb u(3) m by simp
      next
        case (4 a t x)
        then have "file_byte (ldisk t) (icache t ! i) x =
          overlay (off + ?m) (drop ?m src) (overlay off (take ?m src) (file_byte (ldisk s) ?ip)) x"
          using fb [of x] by (simp add: overlay_def)
        then show ?case unfolding overlay_take_drop [OF m(2)] .
      next
        case (5 a t c x)
        show ?case
        proof (cases "x < off + ?m")
          case True
          then have "x - off < BSIZE - off mod BSIZE" using m(1,3) by linarith
          from div_mod_add(1) [OF this] have "x div BSIZE = off div BSIZE" using 5 by simp
          then show ?thesis using 5 mp [of "x div BSIZE"] by auto
        next
          case False
          then have "off + ?m \<le> x \<and> x < off + ?m + length (drop ?m src)" using 5 m(2) by simp
          then show ?thesis using 5 by blast
        qed
      next
        case (6 a t c)
        then show ?case using mp [of c] by blast
      qed
    qed
  qed
qed

end
