(* ===== verification/Dinode.thy ===== *)
theory Dinode
  imports Contents
begin

text \<open>
  On-disk inodes: what \<^verbatim>\<open>iupdate\<close> stores \<^verbatim>\<open>ilock\<close> loads again, the other
  inodes of the block are untouched, and a write to an inode block keeps every file.
\<close>

section \<open>The codec\<close>

lemma sint16_mod:
  assumes "- (2 ^ 15) \<le> v" "v < 2 ^ 15"
  shows "sint16 (nat (v mod 2 ^ 16)) = v"
proof (cases "0 \<le> v")
  case True
  then have "v mod 2 ^ 16 = v" using assms by simp
  then show ?thesis using assms True by (simp add: sint16_def nat_less_iff)
next
  case False
  then have "(v + 2 ^ 16) mod 2 ^ 16 = v + 2 ^ 16"
    by (intro mod_pos_pos_trivial) (use False assms in simp_all)
  then have "v mod 2 ^ 16 = v + 2 ^ 16" by (simp only: mod_add_self2)
  then show ?thesis using assms False by (simp add: sint16_def nat_less_iff)
qed

lemma gets16_puts16_same:
  "k + 2 \<le> length d \<Longrightarrow> - (2 ^ 15) \<le> v \<Longrightarrow> v < 2 ^ 15 \<Longrightarrow> gets16 (puts16 k v d) k = v"
  using sint16_mod [of v] by (simp add: gets16_def puts16_def get16_put16_same nat_less_iff)

lemma get16_put32_other:
  "j + 2 \<le> k \<or> k + 4 \<le> j \<Longrightarrow> get16 (put32 k v d) j = get16 d j"
  by (auto simp: put32_def get16_put16_other)

lemma get32_put16_other:
  "j + 4 \<le> k \<or> k + 2 \<le> j \<Longrightarrow> get32 (put16 k v d) j = get32 d j"
  by (auto simp: get32_def get16_put16_other)

lemma length_puts16 [simp]: "length (puts16 k v d) = length d"
  by (simp add: puts16_def)

lemma length_fold_put32 [simp]: "length (fold (\<lambda>i d. put32 (b + 4 * i) (f i) d) is d) = length d"
  by (induction "is" arbitrary: d) auto

lemma fold_put32_other:
  "(\<And>i. i \<in> set is \<Longrightarrow> j + 2 \<le> b + 4 * i \<or> b + 4 * i + 4 \<le> j) \<Longrightarrow>
   get16 (fold (\<lambda>i d. put32 (b + 4 * i) (f i) d) is d) j = get16 d j"
proof (induction "is" arbitrary: d)
  case (Cons i "is")
  have "j + 2 \<le> b + 4 * i \<or> b + 4 * i + 4 \<le> j" by (rule Cons.prems) simp
  then show ?case using Cons by (simp add: get16_put32_other)
qed simp

lemma fold_put32_get:
  "b + 4 * n \<le> length d \<Longrightarrow> i < n \<Longrightarrow>
   get32 (fold (\<lambda>i d. put32 (b + 4 * i) (f i) d) [0..<n] d) (b + 4 * i) = f i mod 2 ^ 32"
proof (induction n)
  case (Suc n)
  then show ?case by (cases "i = n") auto
qed simp

text \<open>The values the fields of a \<^verbatim>\<open>dinode\<close> can hold.\<close>

definition short_ok :: "int \<Rightarrow> bool" where
  "short_ok v \<longleftrightarrow> - (2 ^ 15) \<le> v \<and> v < 2 ^ 15"

definition inode_range :: "inode \<Rightarrow> bool" where
  "inode_range ip \<longleftrightarrow> short_ok (i_type ip) \<and> short_ok (i_major ip) \<and> short_ok (i_minor ip) \<and>
     short_ok (i_nlink ip) \<and> i_size ip < 2 ^ 32 \<and> length (i_addrs ip) = NDIRECT + 1 \<and>
     (\<forall>a \<in> set (i_addrs ip). a < 2 ^ 32)"

lemma length_enc_dinode [simp]: "length (enc_dinode ip k d) = length d"
  by (simp add: enc_dinode_def)

lemma gets16_other:
  "j + 2 \<le> k \<or> k + 2 \<le> j \<Longrightarrow> gets16 (puts16 k v d) j = gets16 d j"
  "j + 2 \<le> k \<or> k + 4 \<le> j \<Longrightarrow> gets16 (put32 k w d) j = gets16 d j"
  by (simp_all add: gets16_def puts16_def get16_put16_other get16_put32_other)

lemma dinode_roundtrip:
  assumes r: "inode_range ip" and k: "k + DINODE_SIZE \<le> length d"
  shows "dec_dinode (enc_dinode ip k d) k ip' = ip'\<lparr>i_type := i_type ip, i_major := i_major ip,
    i_minor := i_minor ip, i_nlink := i_nlink ip, i_size := i_size ip, i_addrs := i_addrs ip\<rparr>"
proof -
  let ?b = "put32 (k + 8) (i_size ip) (puts16 (k + 6) (i_nlink ip) (puts16 (k + 4) (i_minor ip)
    (puts16 (k + 2) (i_major ip) (puts16 k (i_type ip) d))))"
  let ?e = "enc_dinode ip k d"
  have e: "?e = fold (\<lambda>i d. put32 (k + 12 + 4 * i) (i_addrs ip ! i) d) [0..<NDIRECT + 1] ?b"
    by (simp add: enc_dinode_def)
  have len: "length ?b = length d" by simp
  have lo: "get16 ?e j = get16 ?b j" if "j + 2 \<le> k + 12" for j
    unfolding e by (rule fold_put32_other) (use that in auto)
  have R: "- (2 ^ 15) \<le> i_type ip" "i_type ip < 2 ^ 15" "- (2 ^ 15) \<le> i_major ip" "i_major ip < 2 ^ 15"
    "- (2 ^ 15) \<le> i_minor ip" "i_minor ip < 2 ^ 15" "- (2 ^ 15) \<le> i_nlink ip" "i_nlink ip < 2 ^ 15"
    "i_size ip < 2 ^ 32" "length (i_addrs ip) = NDIRECT + 1"
    using r by (simp_all add: inode_range_def short_ok_def)
  have K: "k + 64 \<le> length d" using k by (simp add: param_defs)
  have lo': "gets16 ?e j = gets16 ?b j" if "j + 2 \<le> k + 12" for j
    using lo [OF that] by (simp add: gets16_def)
  have t: "gets16 ?e k = i_type ip" "gets16 ?e (k + 2) = i_major ip" "gets16 ?e (k + 4) = i_minor ip"
    "gets16 ?e (k + 6) = i_nlink ip"
    using R K by (simp_all add: lo' gets16_other gets16_puts16_same)
  have "get16 ?e (k + 8) = get16 ?b (k + 8)" "get16 ?e (k + 8 + 2) = get16 ?b (k + 8 + 2)"
    by (rule lo, simp)+
  then have "get32 ?e (k + 8) = get32 ?b (k + 8)" unfolding get32_def by (simp only:)
  then have s: "get32 ?e (k + 8) = i_size ip" using R(9) K by simp
  have "get32 ?e (k + 12 + 4 * i) = i_addrs ip ! i" if i: "i < NDIRECT + 1" for i
  proof -
    have "i_addrs ip ! i < 2 ^ 32" using r i R(10) by (auto simp: inode_range_def)
    moreover have "k + 12 + 4 * (NDIRECT + 1) \<le> length ?b" using K by (simp add: param_defs)
    ultimately show ?thesis unfolding e using fold_put32_get [of "k + 12" "NDIRECT + 1" ?b i] i by simp
  qed
  then have a: "map (\<lambda>i. get32 ?e (k + 12 + 4 * i)) [0..<NDIRECT + 1] = i_addrs ip"
    by (intro nth_equalityI) (simp_all add: R(10) del: upt_Suc)
  show ?thesis unfolding dec_dinode_def t s a ..
qed

text \<open>Storing one inode leaves the other inodes of its block alone.\<close>

lemma dinode_other:
  assumes "k mod DINODE_SIZE = 0" "j mod DINODE_SIZE = 0" "j \<noteq> k"
  shows "dec_dinode (enc_dinode ip k d) j ip' = dec_dinode d j ip'"
proof -
  obtain a b where ab: "k = 64 * a" "j = 64 * b" "a \<noteq> b"
    using assms by (auto simp: param_defs mod_0_imp_dvd elim!: dvdE)
  have far: "j + 64 \<le> k \<or> k + 64 \<le> j" using ab by (cases "a < b") auto
  have g: "get16 (enc_dinode ip k d) (j + c) = get16 d (j + c)" if "c + 2 \<le> 64" for c
  proof -
    have "get16 (enc_dinode ip k d) (j + c) = get16 (put32 (k + 8) (i_size ip) (puts16 (k + 6) (i_nlink ip)
      (puts16 (k + 4) (i_minor ip) (puts16 (k + 2) (i_major ip) (puts16 k (i_type ip) d))))) (j + c)"
      unfolding enc_dinode_def
      by (rule fold_put32_other) (use far that in \<open>auto simp: param_defs\<close>)
    also have "\<dots> = get16 d (j + c)"
      using far that by (elim disjE) (simp_all add: puts16_def get16_put16_other get16_put32_other)
    finally show ?thesis .
  qed
  have g32: "get32 (enc_dinode ip k d) (j + c) = get32 d (j + c)" if "c + 4 \<le> 64" for c
    using g [of c] g [of "c + 2"] that by (simp add: get32_def add.assoc)
  have "map (\<lambda>i. get32 (enc_dinode ip k d) (j + 12 + 4 * i)) [0..<NDIRECT + 1]
    = map (\<lambda>i. get32 d (j + 12 + 4 * i)) [0..<NDIRECT + 1]"
    using g32 by (intro map_cong) (auto simp: add.assoc param_defs)
  then show ?thesis
    using g [of 0] g [of 2] g [of 4] g [of 6] g32 [of 8] by (simp add: dec_dinode_def gets16_def)
qed

section \<open>iupdate and ilock\<close>

text \<open>The block of an inode lies between the log and the free map.\<close>

lemma layout_inode:
  assumes "fs_layout s" "n < sb_ninodes (fsb s)"
  shows "IBLOCK n (fsb s) < disksize s" "IBLOCK n (fsb s) \<notin> log_area s" "IBLOCK n (fsb s) \<noteq> 1"
    "IBLOCK n (fsb s) < sb_bmapstart (fsb s)"
proof -
  have "n div IPB \<le> sb_ninodes (fsb s) div IPB" using assms(2) by (intro div_le_mono) simp
  then show "IBLOCK n (fsb s) < sb_bmapstart (fsb s)" "IBLOCK n (fsb s) < disksize s"
    "IBLOCK n (fsb s) \<notin> log_area s" "IBLOCK n (fsb s) \<noteq> 1"
    using assms(1) by (auto simp: IBLOCK_def fs_layout_def log_area_def data_start_def)
qed

lemma meta_write:
  fixes t :: "'a fs_st_scheme"
  assumes t: "tx_inv t" "fs_layout t" and b: "1 < b" "b < sb_bmapstart (fsb t)"
    and u: "tx_inv u" "tx_obs u = tx_obs t" "ldisk u = (ldisk t)(b := d)"
  shows "fs_layout u" "data_blk u = data_blk t" "inode_wf u = inode_wf t" "fs_same t u" "icache u = icache t"
    "inode_wf t ip \<Longrightarrow> blk (ldisk u) ip = blk (ldisk t) ip"
    "inode_wf t ip \<Longrightarrow> n \<le> MAXFILE * BSIZE \<Longrightarrow> x < n \<Longrightarrow> file_byte (ldisk u) ip x = file_byte (ldisk t) ip x"
proof -
  note M = tx_more [OF u(2)]
  have "BBLOCK c (fsb t) \<noteq> b" for c using b(2) by (simp add: BBLOCK_def)
  then have us: "used u = used t" using u(3) M by (auto simp: used_def fun_eq_iff)
  show D: "data_blk u = data_blk t" using us M by (simp add: data_blk_def fun_eq_iff)
  show "fs_layout u" using t(2) us u(2,3) M b(1) by (auto simp: fs_layout_def tx_obs_eq)
  show "fs_same t u" "icache u = icache t" using fs_same_tx [OF u(2)] M by auto
  have db: "ldisk u a = ldisk t a" if "data_blk t a" for a
    using that b(2) u(3) by (auto simp: data_blk_def data_start_def)
  have bk: "blk (ldisk u) ip = blk (ldisk t) ip" if "i_addrs ip ! NDIRECT \<noteq> 0 \<longrightarrow> data_blk t (i_addrs ip ! NDIRECT)" for ip
    by (rule ext, rule blk_cong) (use that db in simp)
  then show "inode_wf u = inode_wf t"
    by (intro ext) (auto simp: inode_wf_def D cong: conj_cong)
  show "blk (ldisk u) ip = blk (ldisk t) ip" if "inode_wf t ip" using bk inode_wfD(3) [OF that] by blast
  then show "file_byte (ldisk u) ip x = file_byte (ldisk t) ip x"
    if "inode_wf t ip" "n \<le> MAXFILE * BSIZE" "x < n"
    using that db inode_wfD(4) [OF that(1), of "x div BSIZE"]
    by (simp add: file_byte_def less_mult_imp_div_less)
qed

lemma iupdate_ok:
  fixes s :: "'a fs_st_scheme"
  assumes s: "tx_inv s" "fs_layout s" "held s = {}" "room 1 s"
    and ip: "ip = icache s ! i" "i_dev ip = 1" "i_inum ip < sb_ninodes (fsb s)"
  shows "okP (iupdate i s) (\<lambda>t. tx_inv t \<and> tx_obs t = tx_obs s \<and> owns t = owns s \<and>
    ldisk t = (ldisk s)(IBLOCK (i_inum ip) (fsb s) :=
      enc_dinode ip (ioff (i_inum ip)) (ldisk s (IBLOCK (i_inum ip) (fsb s)))) \<and>
    dirtyb t = insert (IBLOCK (i_inum ip) (fsb s)) (dirtyb s))"
  unfolding iupdate_def Let_def ip(1) [symmetric] ip(2)
  by (rule tx.update_rule_end [where f = "enc_dinode ip (ioff (i_inum ip))"])
    (use s layout_inode [OF s(2) ip(3)] dirty_room [OF s(1,3)] room_tx1 [OF s(4)] tx.lo_length [OF s(1)] in auto)

end
