(* ===== verification/Rw.thy ===== *)
theory Rw
  imports Dinode
begin

text \<open>
  Reading back what was written: the whole of \<^verbatim>\<open>writei\<close>, with the growth of the file and the
  update of its inode on disk, followed by \<^verbatim>\<open>readi\<close>, inside one operation of the log.
\<close>

section \<open>writei\<close>

definition written :: "nat \<Rightarrow> nat \<Rightarrow> byte list \<Rightarrow> 'a fs_st_scheme \<Rightarrow> 'a fs_st_scheme \<Rightarrow> bool" where
  "written i off src s t \<longleftrightarrow>
     (let ip = icache s ! i; ip' = icache t ! i in
      tx_inv t \<and> fs_layout t \<and> held t = {} \<and> inode_wf t ip' \<and> i_type ip' = i_type ip \<and>
      i_size ip' = max (i_size ip) (off + length src) \<and> mapped (ldisk t) ip' (i_size ip') \<and>
      (\<forall>x < i_size ip'. file_byte (ldisk t) ip' x = overlay off src (file_byte (ldisk s) ip) x))"

lemma file_byte_size: "file_byte l (ip\<lparr>i_size := n\<rparr>) = file_byte l ip" "blk l (ip\<lparr>i_size := n\<rparr>) = blk l ip"
  "inode_wf s (ip\<lparr>i_size := n\<rparr>) = inode_wf s ip"
  by (simp_all add: file_byte_def blk_def inode_wf_def fun_eq_iff)

lemma fs_same_room: "fs_same s t \<Longrightarrow> card (dirtyb t) \<le> card (dirtyb s) + j \<Longrightarrow> room (j + k) s \<Longrightarrow> room k t"
  by (simp add: fs_same_def room_def)

lemma mapped_grow:
  assumes "mapped (ldisk s) ip (i_size ip)" "off \<le> i_size ip" "off + length src \<le> MAXFILE * BSIZE"
    and "\<And>c. c < MAXFILE \<Longrightarrow> (\<exists>x. off \<le> x \<and> x < off + length src \<and> c = x div BSIZE) \<or> blk (ldisk s) ip c \<noteq> 0 \<Longrightarrow> blk l ip' c \<noteq> 0"
  shows "mapped l ip' (max (i_size ip) (off + length src))"
proof -
  have b: "0 < BSIZE" by (simp add: param_defs)
  have "blk l ip' bn \<noteq> 0" if bn: "bn * BSIZE < max (i_size ip) (off + length src)" for bn
  proof -
    have "bn * BSIZE < MAXFILE * BSIZE"
      using bn assms(1,3) unfolding mapped_def by linarith
    then have m: "bn < MAXFILE" using b by simp
    show ?thesis
    proof (cases "bn * BSIZE < i_size ip")
      case True
      then show ?thesis using assms(1,4) m by (simp add: mapped_def)
    next
      case False
      then have "off \<le> bn * BSIZE" "bn * BSIZE < off + length src" using bn assms(2) by auto
      then show ?thesis using assms(4) [OF m] b by (metis nonzero_mult_div_cancel_right less_not_refl)
    qed
  qed
  then show ?thesis using assms(1,3) by (simp add: mapped_def)
qed

lemma iupdate_size:
  fixes t :: "'a fs_st_scheme"
  assumes t: "tx_inv t" "fs_layout t" "held t = {}" "room 1 t" "i < length (icache t)"
    and ip: "ip = icache t ! i" "inode_wf t ip" "i_inum ip < sb_ninodes (fsb t)"
  shows "okP (iupdate i (upd_inode i (\<lambda>ip. ip\<lparr>i_size := n\<rparr>) t)) (\<lambda>u. tx_inv u \<and> fs_layout u \<and> held u = {} \<and>
    icache u ! i = ip\<lparr>i_size := n\<rparr> \<and> inode_wf u ip \<and> blk (ldisk u) ip = blk (ldisk t) ip \<and>
    (\<forall>x < MAXFILE * BSIZE. file_byte (ldisk u) ip x = file_byte (ldisk t) ip x))"
proof -
  let ?t = "upd_inode i (\<lambda>ip. ip\<lparr>i_size := n\<rparr>) t" and ?b = "IBLOCK (i_inum ip) (fsb t)"
  have i: "icache ?t ! i = ip\<lparr>i_size := n\<rparr>" "i_dev ip = 1" using t(5) ip by (simp_all add: inode_wf_def)
  have wf: "inode_wf ?t ip" using ip(2) by (simp add: inode_wf_def data_blk_def)
  have T: "tx_inv ?t" "fs_layout ?t" "held ?t = {}" "room 1 ?t" using t by simp_all
  have b: "1 < ?b" "?b < sb_bmapstart (fsb ?t)"
    using layout_inode [OF t(2) ip(3)] t(2) by (auto simp: IBLOCK_def fs_layout_def)
  obtain u d where u: "iupdate i ?t = Ok u" "tx_inv u" "tx_obs u = tx_obs ?t" "owns u = owns t"
    "ldisk u = (ldisk ?t)(?b := d)"
    using iupdate_ok [OF T i(1) [symmetric]] i(2) ip(3) unfolding okP_iff by auto
  note M = meta_write [OF T(1,2) b u(2,3,5)]
  have "held u = {}" "icache u ! i = ip\<lparr>i_size := n\<rparr>" using t(3) u(4) M(5) i(1) by (simp_all add: held_def)
  moreover have "inode_wf u ip" "blk (ldisk u) ip = blk (ldisk t) ip" using M(3) M(6) [OF wf] wf by simp_all
  moreover have "file_byte (ldisk u) ip x = file_byte (ldisk t) ip x" if "x < MAXFILE * BSIZE" for x
    using M(7) [OF wf le_refl that] by simp
  ultimately show ?thesis using u(1,2) M(1) by simp
qed

lemma writei_ok:
  fixes s :: "'a fs_st_scheme"
  assumes s: "tx_inv s" "fs_layout s" "held s = {}" "i < length (icache s)" "inode_wf s ip"
    and ip: "ip = icache s ! i" "i_type ip \<noteq> T_DEV" "mapped (ldisk s) ip (i_size ip)" "i_inum ip < sb_ninodes (fsb s)"
    and n: "off \<le> i_size ip" "off + length src \<le> MAXFILE * BSIZE"
    and r: "room (6 * nblk off (length src) + 1) s" "2 * nblk off (length src) \<le> nfree s"
  shows "okP (writei dv i src off s) (\<lambda>(k, t). k = int (length src) \<and> written i off src s t)"
proof -
  let ?n = "off + length src"
  have m: "MAXFILE * BSIZE < 2 ^ 32" by (simp add: MAXFILE_def NINDIRECT_def param_defs NDIRECT_def)
  have st: "\<not> (i_size ip < off \<or> ?n mod 2 ^ 32 < off)" "\<not> ?n > MAXFILE * BSIZE" using n m by auto
  have "room (6 * nblk off (length src)) s" by (rule room_mono [OF r(1)]) simp
  from writei_loop_ok [OF s(1-4) s(5) [unfolded ip(1)] this r(2) n(2)]
  obtain t where t: "writei_loop i off src s = Ok (?n, t)" and w: "wrote i s t"
    and d: "card (dirtyb t) \<le> card (dirtyb s) + 6 * nblk off (length src)"
    and fb: "\<And>x. x < MAXFILE * BSIZE \<Longrightarrow> file_byte (ldisk t) (icache t ! i) x = overlay off src (file_byte (ldisk s) ip) x"
    and bk: "\<And>c. c < MAXFILE \<Longrightarrow> (\<exists>x. off \<le> x \<and> x < ?n \<and> c = x div BSIZE) \<or> blk (ldisk s) ip c \<noteq> 0 \<Longrightarrow>
       blk (ldisk t) (icache t ! i) c \<noteq> 0"
    unfolding okP_iff ip(1) [symmetric] by auto
  note W = wroteD [OF w s(4)]
  let ?ip = "icache t ! i"
  have h: "held t = {}" using s(3) W(4) by (simp add: held_def)
  have ipt: "i_size ?ip = i_size ip" "i_type ?ip = i_type ip" "i_inum ?ip = i_inum ip" "i_dev ?ip = 1"
    using W(5,10) ip(1) by (metis inode.select_convs inode.surjective inode.update_convs(11), metis inode.select_convs inode.surjective inode.update_convs(11), metis inode.select_convs inode.surjective inode.update_convs(11), simp add: inode_wf_def)
  have map: "mapped (ldisk t) ?ip (max (i_size ip) ?n)" by (rule mapped_grow [OF ip(3) n bk])
  show ?thesis
  proof (cases "0 < length src \<and> ?n > i_size ?ip")
    case True
    have "i < length (icache t)" "i_inum ?ip < sb_ninodes (fsb t)" "room 1 t"
      using W(3,8) s(4) ip(4) ipt fs_same_room [OF W(3) d r(1)] by (simp_all add: fs_same_def)
    from iupdate_size [OF W(1,2) h this(3,1) refl W(5) this(2), of ?n]
    obtain u where u: "iupdate i (upd_inode i (\<lambda>ip. ip\<lparr>i_size := ?n\<rparr>) t) = Ok u" "tx_inv u" "fs_layout u"
      "held u = {}" "icache u ! i = ?ip\<lparr>i_size := ?n\<rparr>" "inode_wf u ?ip" "blk (ldisk u) ?ip = blk (ldisk t) ?ip"
      "\<And>x. x < MAXFILE * BSIZE \<Longrightarrow> file_byte (ldisk u) ?ip x = file_byte (ldisk t) ?ip x"
      unfolding okP_iff by auto
    have "written i off src s u"
      using u map fb n ip True ipt by (auto simp: written_def file_byte_size mapped_def max_def)
    then show ?thesis using t u(1) True ip st unfolding writei_def by simp
  next
    case False
    then have "written i off src s t"
      using W(1,2,5) h map fb n ip ipt by (auto simp: written_def mapped_def max_def)
    then show ?thesis using t False ip st unfolding writei_def by auto
  qed
qed

section \<open>A freshly started file system\<close>

text \<open>
  The state of the lower layers right after start-up, on a given disk: an empty buffer cache, an
  empty log (blocks 2 to 31) with one operation begun, and the given inode cache.
\<close>

definition fresh_fs :: "(nat \<Rightarrow> byte list) \<Rightarrow> inode list \<Rightarrow> fs_st" where
  "fresh_fs d ics = \<lparr>mypid = 1, memdisk = d, disksize = 1000, dwrites = [],
     bufs = replicate NBUF zero_buf, mru = [0..<NBUF], log_start = 2, log_size = 30,
     outstanding = 1, committing = False, log_dev = 1, lh_n = 0, lh_block = replicate LOGSIZE 0,
     fsb = dec_sb (d 1), icache = ics\<rparr>"

lemma fresh_fs_state:
  assumes "\<And>b. length (d b) = BSIZE" "get32 (d 2) 0 = 0"
  shows "tx_inv (fresh_fs d ics)" "held (fresh_fs d ics) = {}" "dirtyb (fresh_fs d ics) = {}"
    "ldisk (fresh_fs d ics) = d"
proof -
  let ?s = "fresh_fs d ics"
  have c: "\<not> caches ?s i b" "\<not> owns ?s i b" if "i < NBUF" for i b
    using that by (simp_all add: caches_def owns_def fresh_fs_def zero_buf_def)
  show o: "held ?s = {}" using c(2) by (auto simp: held_def owns_def)
  show dd: "dirtyb ?s = {}" by (auto simp: dirtyb_def fresh_fs_def zero_buf_def)
  show "ldisk ?s = d"
    by (rule ext, subst ldisk_miss) (use c in \<open>auto simp: fresh_fs_def\<close>)
  have "bio_inv ?s" using assms(1) c
    by (auto simp: bio_inv_def fresh_fs_def buf_inv_def zero_buf_def)
  then have "log_inv ?s" using assms(2) dd
    by (simp add: log_inv_def logged_def) (simp add: fresh_fs_def param_defs)
  then show "tx_inv ?s" using o by (auto simp: tx_inv_def held_def)
qed

text \<open>A disk of 1000 blocks with 200 inodes as \<^verbatim>\<open>mkfs\<close> lays it out, no data block in use.\<close>

definition blank_disk :: "nat \<Rightarrow> byte list" where
  "blank_disk b =
     (if b = 1 then put32 24 58 (put32 20 32 (put32 16 2 (put32 12 30 (put32 8 200 (put32 4 941
        (put32 0 1000 (replicate BSIZE 0)))))))
      else if b = 58 then replicate 7 255 @ [7] @ replicate (BSIZE - 8) 0
      else replicate BSIZE 0)"

definition blank_file :: inode where
  "blank_file = \<lparr>i_dev = 1, i_inum = 2, i_ref = 1, i_lock = \<lparr>sl_locked = True, sl_pid = 1\<rparr>, i_valid = True,
     i_type = T_FILE, i_major = 0, i_minor = 0, i_nlink = 1, i_size = 0, i_addrs = replicate (NDIRECT + 1) 0\<rparr>"

definition blank_fs :: fs_st where
  "blank_fs = fresh_fs blank_disk [blank_file]"

lemma blank_disk_length: "length (blank_disk b) = BSIZE"
  by (simp add: blank_disk_def param_defs)

lemma blank_sb: "dec_sb (blank_disk 1) = \<lparr>sb_size = 1000, sb_nblocks = 941, sb_ninodes = 200, sb_nlog = 30,
    sb_logstart = 2, sb_inodestart = 32, sb_bmapstart = 58\<rparr>"
  by (simp add: dec_sb_def blank_disk_def param_defs)

lemma bit_255: "bit (255 :: byte) k \<longleftrightarrow> k < 8" "bit (7 :: byte) k \<longleftrightarrow> k < 3"
  using bit_mask_iff [of 8 k, where 'a = byte] bit_mask_iff [of 3 k, where 'a = byte] by (auto simp: mask_eq_exp_minus_1)

lemma blank_used: "b < 1000 \<Longrightarrow> used blank_fs b \<longleftrightarrow> b < 59"
proof -
  assume b: "b < 1000"
  have bb: "BBLOCK b (fsb blank_fs) = 58" "b mod BPB = b"
    using b by (simp_all add: blank_fs_def fresh_fs_def blank_sb BBLOCK_def param_defs)
  have "ldisk blank_fs = blank_disk" unfolding blank_fs_def
    by (rule fresh_fs_state) (simp_all add: blank_disk_length, simp add: blank_disk_def get32_def get16_def param_defs)
  then have u: "used blank_fs b \<longleftrightarrow> bit (blank_disk 58 ! (b div 8)) (b mod 8)"
    using b by (simp add: used_def bb bit_free_bit blank_disk_length param_defs)
  have m: "b mod 8 < 8" "b = 8 * (b div 8) + b mod 8" by simp_all
  show ?thesis
  proof (cases "b div 8" "7 :: nat" rule: linorder_cases)
    case less
    then have "blank_disk 58 ! (b div 8) = 255" by (simp add: blank_disk_def nth_append)
    then have "used blank_fs b" using m(1) by (simp only: u bit_255)
    then show ?thesis using m less by linarith
  next
    case equal
    then have "blank_disk 58 ! (b div 8) = 7" by (simp add: blank_disk_def nth_append)
    then have "used blank_fs b \<longleftrightarrow> b mod 8 < 3" by (simp only: u bit_255)
    then show ?thesis using m equal by linarith
  next
    case greater
    have "b div 8 < BSIZE" using b by (simp add: param_defs)
    then have "blank_disk 58 ! (b div 8) = 0" using greater by (simp add: blank_disk_def nth_append nth_Cons')
    then show ?thesis using u m greater by simp
  qed
qed

lemma blank_fs_ok:
  "tx_inv blank_fs" "fs_layout blank_fs" "held blank_fs = {}" "length (icache blank_fs) = 1"
  "inode_wf blank_fs blank_file" "icache blank_fs ! 0 = blank_file" "i_type blank_file \<noteq> T_DEV"
  "mapped (ldisk blank_fs) blank_file (i_size blank_file)" "i_size blank_file = 0"
  "i_inum blank_file < sb_ninodes (fsb blank_fs)" "room 29 blank_fs" "nfree blank_fs = 941"
proof -
  have d: "get32 (blank_disk 2) 0 = 0" by (simp add: blank_disk_def get32_def get16_def param_defs)
  note F = fresh_fs_state [of blank_disk "[blank_file]", OF blank_disk_length d, folded blank_fs_def]
  have f: "fsb blank_fs = dec_sb (blank_disk 1)" "log_start blank_fs = 2" "log_size blank_fs = 30"
    "disksize blank_fs = 1000" "outstanding blank_fs = 1" "icache blank_fs = [blank_file]"
    by (simp_all add: blank_fs_def fresh_fs_def)
  show "tx_inv blank_fs" "held blank_fs = {}" by (rule F)+
  show "fs_layout blank_fs"
    unfolding fs_layout_def F(4) f using blank_used by (simp add: blank_sb data_start_def param_defs)
  show "length (icache blank_fs) = 1" "icache blank_fs ! 0 = blank_file" by (simp_all add: f)
  have "blk l blank_file bn = 0" if "bn < MAXFILE" for l bn
    using that by (auto simp: blk_def blank_file_def)
  then show "inode_wf blank_fs blank_file" by (auto simp: inode_wf_def) (simp_all add: blank_file_def)
  show "i_type blank_file \<noteq> T_DEV" "i_size blank_file = 0" "mapped (ldisk blank_fs) blank_file (i_size blank_file)"
    "i_inum blank_file < sb_ninodes (fsb blank_fs)"
    by (simp_all add: blank_file_def mapped_def f blank_sb T_FILE_def T_DEV_def)
  show "room 29 blank_fs" by (simp add: room_def F(3) f)
  have "{b. b < sb_size (fsb blank_fs) \<and> \<not> used blank_fs b} = {59..<1000}"
    using blank_used by (auto simp: f blank_sb)
  then show "nfree blank_fs = 941" by (simp add: nfree_def)
qed

section \<open>Write, then read\<close>

text \<open>
  C3. A \<^verbatim>\<open>writei\<close> that fits in the file system (the offset inside the file or at its end, enough free
  blocks, and enough room in the log for the blocks it may dirty) succeeds in full: it returns the
  number of bytes given, the file grows to cover them, every byte of the file is the new byte inside the
  written range and the old byte outside it, and the invariants of log, free map and inode still
  hold. A \<^verbatim>\<open>readi\<close> of the same range then returns exactly the bytes that were written.
\<close>

theorem writei_then_readi:
  fixes s :: "'a fs_st_scheme"
  assumes s: "tx_inv s" "fs_layout s" "held s = {}" "i < length (icache s)" "inode_wf s ip"
    and ip: "ip = icache s ! i" "i_type ip \<noteq> T_DEV" "mapped (ldisk s) ip (i_size ip)" "i_inum ip < sb_ninodes (fsb s)"
    and n: "off \<le> i_size ip" "off + length src \<le> MAXFILE * BSIZE"
    and r: "room (6 * nblk off (length src) + 1) s" "2 * nblk off (length src) \<le> nfree s"
  shows "okP (bnd (writei dv i src off s) (\<lambda>(k, t). bnd (readi dv i off (length src) t) (\<lambda>(rd, u). Ok (k, rd, t))))
    (\<lambda>(k, rd, t). k = int (length src) \<and> rd = (k, src) \<and> written i off src s t)"
proof (rule okP_bnd [OF writei_ok [OF assms]], clarify)
  fix t assume t: "written i off src s t"
  let ?ip = "icache t ! i"
  have T: "tx_inv t" "fs_layout t" "held t = {}" "inode_wf t ?ip" "i_type ?ip \<noteq> T_DEV"
    "mapped (ldisk t) ?ip (i_size ?ip)" "off \<le> i_size ?ip" "min (length src) (i_size ?ip - off) = length src"
    using t ip by (auto simp: written_def Let_def)
  have "off + length src < 2 ^ 32" using n(2) by (simp add: MAXFILE_def NINDIRECT_def param_defs NDIRECT_def)
  note R = readi_ok [OF T(1-4) refl T(5-7) this, of dv]
  have "map (file_byte (ldisk t) ?ip) [off..<off + length src] = src"
    using t by (intro nth_equalityI) (auto simp: written_def Let_def overlay_def)
  then show "okP (bnd (readi dv i off (length src) t) (\<lambda>(rd, u). Ok (int (length src), rd, t)))
    (\<lambda>(k, rd, t). k = int (length src) \<and> rd = (k, src) \<and> written i off src s t)"
    using t by (intro okP_bnd [OF R]) (auto simp: T(8))
qed

theorem writei_then_readi_witness:
  "okP (bnd (writei (\<lambda>_. (None, None)) 0 [1, 2, 3] 0 blank_fs)
      (\<lambda>(k, t). bnd (readi (\<lambda>_. (None, None)) 0 0 3 t) (\<lambda>(rd, u). Ok (k, rd, t))))
    (\<lambda>(k, rd, t). k = 3 \<and> rd = (k, [1, 2, 3]) \<and> written 0 0 [1, 2, 3] blank_fs t)"
proof -
  have "nblk 0 3 = 1" by (simp add: nblk_def param_defs)
  moreover have "room 7 blank_fs" by (rule room_mono [OF blank_fs_ok(11)]) simp
  moreover have "length [1 :: byte, 2, 3] = 3" by simp
  ultimately show ?thesis
    using writei_then_readi [of blank_fs 0 blank_file 0 "[1, 2, 3]" "\<lambda>_. (None, None)"] blank_fs_ok
    by (simp del: list.size add: MAXFILE_def NINDIRECT_def param_defs NDIRECT_def)
qed

end
