(* ===== verification/Mkfs.thy ===== *)
theory Mkfs
  imports Rw
begin

text \<open>
  The image builder \<^verbatim>\<open>mkfs.c\<close>, a program of the build host, and the image it leaves. The
  image file is the list of its sectors. A failed \<^verbatim>\<open>assert\<close> and a \<^verbatim>\<open>perror\<close>
  followed by \<^verbatim>\<open>exit(1)\<close> are \<open>Panic\<close>. The host is a parameter: whether the image can be
  created, and the contents of the files named on the command line; its file operations on the image
  succeed, except a read beyond the end. \<^verbatim>\<open>struct dinode\<close> is the on-disk part of \<open>inode\<close>, whose
  in-core fields stay as in \<open>no_inode\<close>, and \<^verbatim>\<open>printf\<close> is left out. The functions of
  \<^verbatim>\<open>mkfs.c\<close> named like one of \<^verbatim>\<open>fs.c\<close> carry the suffix \<open>_mkfs\<close>.
\<close>

section \<open>Constants and state\<close>

definition NINODES :: nat where "NINODES = 200"
definition nbitmap :: nat where "nbitmap = FSSIZE div (BSIZE * 8) + 1"
definition ninodeblocks :: nat where "ninodeblocks = NINODES div IPB + 1"
definition nlog :: nat where "nlog = LOGSIZE"
definition nmeta :: nat where "nmeta = 2 + nlog + ninodeblocks + nbitmap"
definition nblocks :: nat where "nblocks = FSSIZE - nmeta"

definition zeroes :: "byte list" where "zeroes = replicate BSIZE 0"

record mkfs_st =
  img :: "byte list list"
  freeinode :: nat
  freeblock :: nat
  mk_sb :: superblock

record host =
  host_create :: "byte list \<Rightarrow> bool"
  host_file :: "byte list \<Rightarrow> byte list option"

definition no_inode :: inode where
  "no_inode = \<lparr>i_dev = 1, i_inum = 0, i_ref = 0, i_lock = \<lparr>sl_locked = False, sl_pid = 0\<rparr>, i_valid = False,
     i_type = 0, i_major = 0, i_minor = 0, i_nlink = 0, i_size = 0, i_addrs = replicate (NDIRECT + 1) 0\<rparr>"

section \<open>Byte order\<close>

text \<open>The bytes are stored in Intel order and read back as the host's, a little-endian machine.\<close>

definition xshort :: "nat \<Rightarrow> nat" where
  "xshort x = get16 [word_of_nat x, word_of_nat (x div 2 ^ 8)] 0"

definition xint :: "nat \<Rightarrow> nat" where
  "xint x = get32 [word_of_nat x, word_of_nat (x div 2 ^ 8), word_of_nat (x div 2 ^ 16), word_of_nat (x div 2 ^ 24)] 0"

section \<open>Sectors and inodes\<close>

text \<open>The sector at byte offset \<^verbatim>\<open>sec * BSIZE\<close>, a \<^verbatim>\<open>uint\<close> product.\<close>

definition sector :: "nat \<Rightarrow> nat" where
  "sector sec = sec * BSIZE mod 2 ^ 32 div BSIZE"

text \<open>A write beyond the end extends the file, with zeros in the gap.\<close>

definition wsect :: "nat \<Rightarrow> byte list \<Rightarrow> mkfs_st \<Rightarrow> mkfs_st" where
  "wsect sec buf s =
     (let k = sector sec; n = length (img s) in
      s\<lparr>img := (if k < n then (img s)[k := buf] else img s @ replicate (k - n) zeroes @ [buf])\<rparr>)"

definition rsect :: "nat \<Rightarrow> mkfs_st \<Rightarrow> byte list res" where
  "rsect sec s = (let k = sector sec in if k < length (img s) then Ok (img s ! k) else Panic ''read'')"

definition winode :: "nat \<Rightarrow> inode \<Rightarrow> mkfs_st \<Rightarrow> mkfs_st res" where
  "winode inum ip s =
     (let bn = IBLOCK inum (mk_sb s) in
      bnd (rsect bn s) (\<lambda>buf. Ok (wsect bn (enc_dinode ip (ioff inum) buf) s)))"

definition rinode :: "nat \<Rightarrow> mkfs_st \<Rightarrow> inode res" where
  "rinode inum s =
     bnd (rsect (IBLOCK inum (mk_sb s)) s) (\<lambda>buf. Ok (dec_dinode buf (ioff inum) no_inode))"

definition ialloc_mkfs :: "nat \<Rightarrow> mkfs_st \<Rightarrow> (nat \<times> mkfs_st) res" where
  "ialloc_mkfs type s =
     (let inum = freeinode s; s = s\<lparr>freeinode := freeinode s + 1\<rparr>;
          din = no_inode\<lparr>i_type := sint16 (xshort type), i_nlink := sint16 (xshort 1), i_size := xint 0\<rparr> in
      bnd (winode inum din s) (\<lambda>s. Ok (inum, s)))"

definition balloc_mkfs :: "nat \<Rightarrow> mkfs_st \<Rightarrow> mkfs_st res" where
  "balloc_mkfs n s =
     (if \<not> n < BSIZE * 8 then Panic ''assert''
      else Ok (wsect (sb_bmapstart (mk_sb s)) (fold bit_mark [0..<n] zeroes) s))"

section \<open>Appending to a file\<close>

text \<open>The block that holds file block \<open>fbn\<close>, taken from the free blocks if there is none.\<close>

definition iappend_block :: "nat \<Rightarrow> inode \<Rightarrow> mkfs_st \<Rightarrow> (nat \<times> inode \<times> mkfs_st) res" where
  "iappend_block fbn din s =
     (if fbn < NDIRECT then
        let (din, s) =
          (if xint (i_addrs din ! fbn) = 0 then
             (din\<lparr>i_addrs := (i_addrs din)[fbn := xint (freeblock s)]\<rparr>, s\<lparr>freeblock := freeblock s + 1\<rparr>)
           else (din, s))
        in Ok (xint (i_addrs din ! fbn), din, s)
      else
        let (din, s) =
          (if xint (i_addrs din ! NDIRECT) = 0 then
             (din\<lparr>i_addrs := (i_addrs din)[NDIRECT := xint (freeblock s)]\<rparr>, s\<lparr>freeblock := freeblock s + 1\<rparr>)
           else (din, s))
        in bnd (rsect (xint (i_addrs din ! NDIRECT)) s) (\<lambda>indirect.
           let k = 4 * (fbn - NDIRECT);
               (indirect, s) =
                 (if get32 indirect k = 0 then
                    let indirect = put32 k (xint (freeblock s)) indirect in
                    (indirect, wsect (xint (i_addrs din ! NDIRECT)) indirect (s\<lparr>freeblock := freeblock s + 1\<rparr>))
                  else (indirect, s))
           in Ok (xint (get32 indirect k), din, s)))"

function iappend_loop :: "nat \<Rightarrow> byte list \<Rightarrow> inode \<Rightarrow> mkfs_st \<Rightarrow> (nat \<times> inode \<times> mkfs_st) res" where
  "iappend_loop off p din s =
     (if p = [] then Ok (off, din, s)
      else
        let fbn = off div BSIZE in
        if \<not> fbn < MAXFILE then Panic ''assert''
        else
          bnd (iappend_block fbn din s) (\<lambda>(x, din, s).
          let n1 = min (length p) ((fbn + 1) * BSIZE - off) in
          bnd (rsect x s) (\<lambda>buf.
          iappend_loop (off + n1) (drop n1 p) din (wsect x (mem_put buf (off - fbn * BSIZE) (take n1 p)) s))))"
  by pat_completeness auto
termination
proof (relation "measure (\<lambda>(off, p, din, s). length p)", simp, goal_cases)
  case (1 off p din s fbn x xa ya din' s' n1 buf)
  have "off < (fbn + 1) * BSIZE" using div_less_iff_less_mult [of BSIZE off "fbn + 1"] 1 by (simp add: param_defs)
  then show ?case using 1 by simp
qed

definition iappend :: "nat \<Rightarrow> byte list \<Rightarrow> mkfs_st \<Rightarrow> mkfs_st res" where
  "iappend inum p s =
     bnd (rinode inum s) (\<lambda>din.
     bnd (iappend_loop (xint (i_size din)) p din s) (\<lambda>(off, din, s).
     winode inum (din\<lparr>i_size := xint off\<rparr>) s))"

section \<open>The program\<close>

text \<open>The superblock is copied from memory, its fields in order.\<close>

definition enc_sb :: "superblock \<Rightarrow> byte list \<Rightarrow> byte list" where
  "enc_sb sb d = put32 24 (sb_bmapstart sb) (put32 20 (sb_inodestart sb) (put32 16 (sb_logstart sb)
     (put32 12 (sb_nlog sb) (put32 8 (sb_ninodes sb) (put32 4 (sb_nblocks sb) (put32 0 (sb_size sb) d))))))"

definition mkfs_sb :: superblock where
  "mkfs_sb = \<lparr>sb_size = xint FSSIZE, sb_nblocks = xint nblocks, sb_ninodes = xint NINODES, sb_nlog = xint nlog,
     sb_logstart = xint 2, sb_inodestart = xint (2 + nlog), sb_bmapstart = xint (2 + nlog + ninodeblocks)\<rparr>"

text \<open>A zeroed entry, with the inode number and at most \<^verbatim>\<open>DIRSIZ\<close> characters of the name filled in.\<close>

definition mkfs_dirent :: "nat \<Rightarrow> byte list \<Rightarrow> byte list" where
  "mkfs_dirent inum name = mem_put (put16 0 (xshort inum) (replicate DIRENT_SIZE 0)) 2 (take DIRSIZ name)"

text \<open>The file is read in pieces of \<^verbatim>\<open>BSIZE\<close> bytes, each appended.\<close>

function copy_file :: "nat \<Rightarrow> byte list \<Rightarrow> mkfs_st \<Rightarrow> mkfs_st res" where
  "copy_file inum c s =
     (if c = [] then Ok s else bnd (iappend inum (take BSIZE c) s) (copy_file inum (drop BSIZE c)))"
  by pat_completeness auto
termination
  by (relation "measure (\<lambda>(inum, c, s). length c)") (auto simp: param_defs)

text \<open>The name in the file system: without a leading underscore.\<close>

definition fs_name :: "byte list \<Rightarrow> byte list" where
  "fs_name arg = (if arg \<noteq> [] \<and> hd arg = 95 then tl arg else arg)"

fun mkfs_files :: "host \<Rightarrow> nat \<Rightarrow> byte list list \<Rightarrow> mkfs_st \<Rightarrow> mkfs_st res" where
  "mkfs_files h rootino [] s = Ok s"
| "mkfs_files h rootino (arg # args) s =
     (if 47 \<in> set arg then Panic ''assert''
      else case host_file h arg of
        None \<Rightarrow> Panic ''open''
      | Some c \<Rightarrow>
          bnd (ialloc_mkfs (nat T_FILE) s) (\<lambda>(inum, s).
          bnd (iappend rootino (mkfs_dirent inum (fs_name arg)) s) (\<lambda>s.
          bnd (copy_file inum c s) (mkfs_files h rootino args))))"

text \<open>The image before the first inode: all sectors zero, then the superblock.\<close>

definition mkfs_format :: mkfs_st where
  "mkfs_format = wsect 1 (enc_sb mkfs_sb zeroes) (fold (\<lambda>i. wsect i zeroes) [0..<FSSIZE]
     \<lparr>img = [], freeinode = 1, freeblock = nmeta, mk_sb = mkfs_sb\<rparr>)"

definition fix_root_size :: "nat \<Rightarrow> mkfs_st \<Rightarrow> mkfs_st res" where
  "fix_root_size rootino s =
     bnd (rinode rootino s) (\<lambda>din.
     let off = xint (i_size din); off = (off div BSIZE + 1) * BSIZE in
     winode rootino (din\<lparr>i_size := xint off\<rparr>) s)"

definition mkfs_main :: "host \<Rightarrow> byte list list \<Rightarrow> mkfs_st res" where
  "mkfs_main h argv =
     (if length argv < 2 then Panic ''usage''
      else if BSIZE mod DINODE_SIZE \<noteq> 0 \<or> BSIZE mod DIRENT_SIZE \<noteq> 0 then Panic ''assert''
      else if \<not> host_create h (argv ! 1) then Panic ''open''
      else
        bnd (ialloc_mkfs (nat T_DIR) mkfs_format) (\<lambda>(rootino, s).
        if rootino \<noteq> ROOTINO then Panic ''assert''
        else
          bnd (iappend rootino (mkfs_dirent rootino [46]) s) (\<lambda>s.
          bnd (iappend rootino (mkfs_dirent rootino [46, 46]) s) (\<lambda>s.
          bnd (mkfs_files h rootino (drop 2 argv) s) (\<lambda>s.
          bnd (fix_root_size rootino s) (\<lambda>s.
          balloc_mkfs (freeblock s) s))))))"

declare iappend_loop.simps [simp del] copy_file.simps [simp del]

section \<open>The image as a disk\<close>

declare NINODES_def [param_defs] nbitmap_def [param_defs] ninodeblocks_def [param_defs]
  nlog_def [param_defs] nmeta_def [param_defs] nblocks_def [param_defs]

lemma xshort_mod: "xshort x = x mod 2 ^ 16"
proof -
  have "xshort x = x mod 256 + 256 * (x div 256 mod 256)"
    by (simp add: xshort_def get16_def unat_byte_of_nat)
  also have "\<dots> = x mod (256 * 256)" by (metis add.commute mod_mult2_eq)
  finally show ?thesis by simp
qed

lemma xint_mod: "xint x = x mod 2 ^ 32"
proof -
  have "put32 0 x [0, 0, 0, 0] = [word_of_nat x, word_of_nat (x div 256), word_of_nat (x div 65536), word_of_nat (x div 16777216)]"
    by (simp add: put32_def put16_def One_nat_def numeral_2_eq_2 div_mult2_eq [symmetric])
  then have "xint x = get32 (put32 0 x [0, 0, 0, 0]) 0" by (simp add: xint_def)
  then show ?thesis by simp
qed

lemma xint_less [simp]: "x < 2 ^ 32 \<Longrightarrow> xint x = x"
  by (simp add: xint_mod)

definition dsk :: "mkfs_st \<Rightarrow> nat \<Rightarrow> byte list" where
  "dsk s b = (if b < length (img s) then img s ! b else zeroes)"

definition sized :: "mkfs_st \<Rightarrow> bool" where
  "sized s \<longleftrightarrow> length (img s) = FSSIZE \<and> (\<forall>b. length (dsk s b) = BSIZE) \<and> mk_sb s = mkfs_sb"

lemma sector_id: "b < FSSIZE \<Longrightarrow> sector b = b"
  by (simp add: sector_def param_defs)

lemma rsect_ok: "sized s \<Longrightarrow> b < FSSIZE \<Longrightarrow> rsect b s = Ok (dsk s b)"
  by (simp add: rsect_def sector_id sized_def dsk_def)

lemma wsect_ok:
  assumes "sized s" "b < FSSIZE" "length d = BSIZE"
  shows "sized (wsect b d s)" "dsk (wsect b d s) = (dsk s)(b := d)" "freeblock (wsect b d s) = freeblock s"
    "freeinode (wsect b d s) = freeinode s"
proof -
  show d: "dsk (wsect b d s) = (dsk s)(b := d)"
    using assms by (auto simp: dsk_def wsect_def sector_id sized_def fun_eq_iff)
  show "sized (wsect b d s)" using assms d by (simp add: sized_def wsect_def sector_id)
qed (simp_all add: wsect_def Let_def)

lemma mkfs_sb_eq: "mkfs_sb = \<lparr>sb_size = 1000, sb_nblocks = 941, sb_ninodes = 200, sb_nlog = 30,
    sb_logstart = 2, sb_inodestart = 32, sb_bmapstart = 58\<rparr>"
  by (simp add: mkfs_sb_def xint_mod param_defs)

lemma dec_enc_sb: "28 \<le> length d \<Longrightarrow> dec_sb (enc_sb mkfs_sb d) = mkfs_sb"
  by (simp add: dec_sb_def enc_sb_def mkfs_sb_eq)

lemma fold_wsect:
  "fold (\<lambda>i. wsect i zeroes) [0..<n] s = s\<lparr>img := replicate n zeroes\<rparr>" if "n \<le> FSSIZE" "img s = []"
  using that
proof (induction n)
  case (Suc n)
  then show ?case by (simp add: wsect_def sector_id replicate_append_same Let_def)
qed simp

lemma mkfs_format_ok:
  "sized mkfs_format" "dsk mkfs_format = (\<lambda>_. zeroes)(1 := enc_sb mkfs_sb zeroes)" "freeblock mkfs_format = nmeta"
  "freeinode mkfs_format = 1"
proof -
  let ?s = "\<lparr>img = replicate FSSIZE zeroes, freeinode = 1, freeblock = nmeta, mk_sb = mkfs_sb\<rparr>"
  have m: "mkfs_format = wsect 1 (enc_sb mkfs_sb zeroes) ?s" by (simp add: mkfs_format_def fold_wsect)
  have d: "dsk ?s = (\<lambda>_. zeroes)" by (simp add: dsk_def fun_eq_iff)
  have s: "sized ?s" by (simp add: sized_def d) (simp add: zeroes_def)
  have l: "1 < FSSIZE" "length (enc_sb mkfs_sb zeroes) = BSIZE" by (simp_all add: enc_sb_def zeroes_def param_defs)
  note W = wsect_ok [OF s l]
  show "sized mkfs_format" "dsk mkfs_format = (\<lambda>_. zeroes)(1 := enc_sb mkfs_sb zeroes)"
    "freeblock mkfs_format = nmeta" "freeinode mkfs_format = 1" using W d by (simp_all add: m)
qed

section \<open>Which file owns which block\<close>

text \<open>
  Slot \<open>k\<close> of an inode: the block of file block \<open>k\<close>, and for \<open>k = MAXFILE\<close> its indirect
  block. \<open>owner\<close> is the invariant of the allocation: the slots in \<open>H\<close> are filled, with different
  blocks, which are exactly the blocks taken so far; a block not yet taken is zero; and the blocks hold the
  contents \<open>F\<close> of the files.
\<close>

definition slot :: "(nat \<Rightarrow> byte list) \<Rightarrow> inode \<Rightarrow> nat \<Rightarrow> nat" where
  "slot l ip k = (if k = MAXFILE then i_addrs ip ! NDIRECT else blk l ip k)"

definition slots :: "(nat \<Rightarrow> byte list) \<Rightarrow> (nat \<Rightarrow> inode) \<Rightarrow> nat \<Rightarrow> nat \<Rightarrow> nat" where
  "slots l tab i k = (if i < NINODES \<and> k \<le> MAXFILE then slot l (tab i) k else 0)"

definition owner :: "(nat \<Rightarrow> byte list) \<Rightarrow> (nat \<Rightarrow> nat \<Rightarrow> nat) \<Rightarrow> (nat \<times> nat) set \<Rightarrow> (nat \<Rightarrow> byte list) \<Rightarrow> nat \<Rightarrow> bool" where
  "owner l A H F fb \<longleftrightarrow> H \<subseteq> {..<NINODES} \<times> {..MAXFILE} \<and> (\<forall>i k. A i k \<noteq> 0 \<longleftrightarrow> (i, k) \<in> H) \<and>
     (\<forall>i k j m. A i k \<noteq> 0 \<longrightarrow> A i k = A j m \<longrightarrow> i = j \<and> k = m) \<and>
     (\<forall>i k. A i k \<noteq> 0 \<longrightarrow> nmeta \<le> A i k \<and> A i k < fb) \<and> fb = nmeta + card H \<and> fb \<le> FSSIZE \<and>
     (\<forall>b \<ge> fb. l b = zeroes) \<and>
     (\<forall>i x. x < length (F i) \<longrightarrow> x div BSIZE < MAXFILE \<and> (i, x div BSIZE) \<in> H \<and>
        l (A i (x div BSIZE)) ! (x mod BSIZE) = F i ! x)"

lemma ownerI:
  assumes "H \<subseteq> {..<NINODES} \<times> {..MAXFILE}" "\<And>i k. A i k \<noteq> 0 \<longleftrightarrow> (i, k) \<in> H"
    "\<And>i k j m. A i k \<noteq> 0 \<Longrightarrow> A i k = A j m \<Longrightarrow> i = j \<and> k = m"
    "\<And>i k. A i k \<noteq> 0 \<Longrightarrow> nmeta \<le> A i k \<and> A i k < fb" "fb = nmeta + card H" "fb \<le> FSSIZE"
    "\<And>b. fb \<le> b \<Longrightarrow> l b = zeroes"
    "\<And>i x. x < length (F i) \<Longrightarrow> x div BSIZE < MAXFILE \<and> (i, x div BSIZE) \<in> H \<and>
       l (A i (x div BSIZE)) ! (x mod BSIZE) = F i ! x"
  shows "owner l A H F fb"
  unfolding owner_def by (intro conjI allI impI assms) assumption+

lemma ownerD:
  assumes "owner l A H F fb"
  shows "finite H" "H \<subseteq> {..<NINODES} \<times> {..MAXFILE}" "A i k \<noteq> 0 \<longleftrightarrow> (i, k) \<in> H"
    "A i k \<noteq> 0 \<Longrightarrow> A i k = A j m \<Longrightarrow> i = j \<and> k = m" "A i k \<noteq> 0 \<Longrightarrow> nmeta \<le> A i k \<and> A i k < fb"
    "fb = nmeta + card H" "fb \<le> FSSIZE" "fb \<le> b \<Longrightarrow> l b = zeroes"
    "x < length (F i) \<Longrightarrow> x div BSIZE < MAXFILE \<and> (i, x div BSIZE) \<in> H \<and> l (A i (x div BSIZE)) ! (x mod BSIZE) = F i ! x"
    "A i k < FSSIZE"
proof -
  show s: "H \<subseteq> {..<NINODES} \<times> {..MAXFILE}" using assms by (simp add: owner_def)
  then show "finite H" by (rule finite_subset) simp
  show "A i k \<noteq> 0 \<longleftrightarrow> (i, k) \<in> H" "fb = nmeta + card H" "fb \<le> FSSIZE" using assms by (simp_all add: owner_def)
  show "A i k \<noteq> 0 \<Longrightarrow> A i k = A j m \<Longrightarrow> i = j \<and> k = m" using assms unfolding owner_def by blast
  show r: "A i k \<noteq> 0 \<Longrightarrow> nmeta \<le> A i k \<and> A i k < fb" using assms unfolding owner_def by blast
  show "fb \<le> b \<Longrightarrow> l b = zeroes" using assms unfolding owner_def by blast
  show "x < length (F i) \<Longrightarrow> x div BSIZE < MAXFILE \<and> (i, x div BSIZE) \<in> H \<and> l (A i (x div BSIZE)) ! (x mod BSIZE) = F i ! x"
    using assms unfolding owner_def by blast
  show "A i k < FSSIZE" using r \<open>fb \<le> FSSIZE\<close> by (cases "A i k = 0") (auto simp: param_defs)
qed

definition aset :: "(nat \<Rightarrow> nat \<Rightarrow> nat) \<Rightarrow> nat \<Rightarrow> nat \<Rightarrow> nat \<Rightarrow> nat \<Rightarrow> nat \<Rightarrow> nat" where
  "aset A i k a j m = (if j = i \<and> m = k then a else A j m)"

lemma owner_take:
  assumes o: "owner l A H F fb" and k: "i < NINODES" "k \<le> MAXFILE" "(i, k) \<notin> H" and f: "fb < FSSIZE"
  shows "owner l (aset A i k fb) (insert (i, k) H) F (fb + 1)"
proof -
  note O = ownerD [OF o]
  have a: "A j m \<noteq> fb" for j m using O(5) [of j m] f O(6) by (cases "A j m = 0") (auto simp: param_defs)
  have n: "0 < fb" "nmeta \<le> fb" using O(6) by (auto simp: param_defs)
  have c: "x div BSIZE < MAXFILE \<and> (j, x div BSIZE) \<in> insert (i, k) H \<and>
      l (aset A i k fb j (x div BSIZE)) ! (x mod BSIZE) = F j ! x" if "x < length (F j)" for j x
    using O(9) [OF that] k(3) by (auto simp: aset_def)
  have inj: "j = j' \<and> m = m'" if "aset A i k fb j m \<noteq> 0" "aset A i k fb j m = aset A i k fb j' m'" for j m j' m'
    using that O(4) [of j m j' m'] a [of j m] a [of j' m'] by (auto simp: aset_def split: if_splits)
  have r: "nmeta \<le> aset A i k fb j m \<and> aset A i k fb j m < fb + 1" if "aset A i k fb j m \<noteq> 0" for j m
    using that O(5) [of j m] n by (auto simp: aset_def split: if_splits)
  have h: "aset A i k fb j m \<noteq> 0 \<longleftrightarrow> (j, m) \<in> insert (i, k) H" for j m
    using O(3) [of j m] n by (auto simp: aset_def)
  have s: "insert (i, k) H \<subseteq> {..<NINODES} \<times> {..MAXFILE}" "fb + 1 = nmeta + card (insert (i, k) H)" "fb + 1 \<le> FSSIZE"
    using O(1,2,6) k f by auto
  show ?thesis by (rule ownerI [OF s(1) h inj r s(2,3) _ c]) (auto intro: O(8))
qed

text \<open>Writing an indirect block, a block before the data, or more bytes at the end of a file.\<close>

lemma owner_write:
  assumes o: "owner l A H F fb" and b: "b < fb" "\<And>i k. k < MAXFILE \<Longrightarrow> A i k \<noteq> 0 \<Longrightarrow> b \<noteq> A i k"
  shows "owner (l(b := d)) A H F fb"
proof -
  note O = ownerD [OF o]
  have c: "x div BSIZE < MAXFILE \<and> (j, x div BSIZE) \<in> H \<and>
      (l(b := d)) (A j (x div BSIZE)) ! (x mod BSIZE) = F j ! x" if "x < length (F j)" for j x
    using O(9) [OF that] b(2) O(3) by auto
  show ?thesis by (rule ownerI [OF O(2) O(3) O(4) O(5) O(6,7) _ c]) (use b(1) O(8) in auto)
qed

lemma owner_append:
  assumes o: "owner l A H F fb" and k: "k = length (F i) div BSIZE" "(i, k) \<in> H" "k < MAXFILE"
    and l: "length (l (A i k)) = BSIZE" "length xs \<le> BSIZE - length (F i) mod BSIZE"
  shows "owner (l(A i k := mem_put (l (A i k)) (length (F i) mod BSIZE) xs)) A H (F(i := F i @ xs)) fb"
proof -
  note O = ownerD [OF o]
  let ?b = "A i k" and ?n = "length (F i)"
  let ?l = "l(?b := mem_put (l ?b) (?n mod BSIZE) xs)"
  have B: "0 < BSIZE" by (simp add: param_defs)
  have b: "?b \<noteq> 0" using O(3) k(2) by simp
  have len: "?n mod BSIZE + length xs \<le> length (l ?b)" using l mod_less_divisor [OF B, of ?n] by linarith
  have c: "x div BSIZE < MAXFILE \<and> (j, x div BSIZE) \<in> H \<and>
      ?l (A j (x div BSIZE)) ! (x mod BSIZE) = (F(i := F i @ xs)) j ! x" if x: "x < length ((F(i := F i @ xs)) j)" for j x
  proof (cases "x < length (F j)")
    case True
    have v: "x mod BSIZE < ?n mod BSIZE" if "j = i" "x div BSIZE = k"
    proof -
      have "k * BSIZE + x mod BSIZE < k * BSIZE + ?n mod BSIZE"
        using True that div_mult_mod_eq [of x BSIZE] div_mult_mod_eq [of ?n BSIZE] by (simp only: k(1))
      then show ?thesis by simp
    qed
    have "j = i \<and> x div BSIZE = k" if "A j (x div BSIZE) = ?b" using O(4) [OF b that [symmetric]] by simp
    then have "?l (A j (x div BSIZE)) ! (x mod BSIZE) = l (A j (x div BSIZE)) ! (x mod BSIZE)"
      using v mod_less_divisor [OF B, of x] l(1) len by (auto simp: nth_mem_put)
    then show ?thesis using O(9) [OF True] True by (auto simp: nth_append)
  next
    case False
    then have j: "j = i" and x: "?n \<le> x" "x < ?n + length xs" using x by (auto split: if_splits)
    define y where "y = x - ?n"
    have y: "x = ?n + y" "y < length xs" "y < BSIZE - ?n mod BSIZE" using x l(2) by (auto simp: y_def)
    have dm: "x div BSIZE = k" "x mod BSIZE = ?n mod BSIZE + y" using div_mod_add [OF y(3)] y(1) k(1) by simp_all
    show ?thesis using j dm k(2,3) y len l(1) by (simp add: nth_mem_put nth_append)
  qed
  have "?b < fb" using O(5) b by blast
  then show ?thesis by (intro ownerI [OF O(2) O(3) O(4) O(5) O(6,7) _ c]) (use O(8) in auto)
qed

section \<open>Slots after an update\<close>

lemma slots_direct:
  assumes "i < NINODES" "k < NDIRECT" "length (i_addrs din) = NDIRECT + 1"
  shows "slots l (tab(i := din\<lparr>i_addrs := (i_addrs din)[k := a]\<rparr>)) = aset (slots l (tab(i := din))) i k a"
proof -
  have "NDIRECT < MAXFILE" by (simp add: param_defs)
  then show ?thesis using assms by (auto simp: slots_def slot_def aset_def blk_def nth_list_update fun_eq_iff)
qed

lemma slots_pointer:
  assumes "i < NINODES" "length (i_addrs din) = NDIRECT + 1" "i_addrs din ! NDIRECT = 0" "l a = zeroes"
  shows "slots l (tab(i := din\<lparr>i_addrs := (i_addrs din)[NDIRECT := a]\<rparr>)) = aset (slots l (tab(i := din))) i MAXFILE a"
proof -
  have "get32 zeroes (4 * (k - NDIRECT)) = 0" if "\<not> k < NDIRECT" "k < MAXFILE" for k
    unfolding zeroes_def by (rule get32_zeros) (use that in \<open>simp add: param_defs\<close>)
  then show ?thesis
    using assms by (auto simp: slots_def slot_def aset_def blk_def nth_list_update fun_eq_iff)
qed

text \<open>The slots depend on the indirect blocks only.\<close>

lemma slots_other:
  assumes "\<And>i. i < NINODES \<Longrightarrow> slots l tab i MAXFILE \<noteq> 0 \<Longrightarrow> b \<noteq> slots l tab i MAXFILE"
  shows "slots (l(b := d)) tab = slots l tab"
  using assms by (auto simp: slots_def slot_def blk_def fun_eq_iff)

lemma slots_entry:
  assumes o: "owner l (slots l tab) H F fb" and i: "i < NINODES" "k < NINDIRECT"
    and p: "p = i_addrs (tab i) ! NDIRECT" "p \<noteq> 0" "length (l p) = BSIZE" and a: "a < 2 ^ 32"
  shows "slots (l(p := put32 (4 * k) a (l p))) tab = aset (slots l tab) i (NDIRECT + k) a"
proof (intro ext)
  fix j m
  let ?l = "l(p := put32 (4 * k) a (l p))"
  have k: "NDIRECT + k < MAXFILE" "4 * k + 4 \<le> length (l p)" using i(2) p(3) by (simp_all add: MAXFILE_def param_defs)
  have ai: "slots l tab i MAXFILE = p" using i p by (simp add: slots_def slot_def)
  consider "j \<noteq> i" | "j = i" "m = NDIRECT + k" | "j = i" "m \<noteq> NDIRECT + k" by blast
  then show "slots ?l tab j m = aset (slots l tab) i (NDIRECT + k) a j m"
  proof cases
    case 1
    have "slots l tab j MAXFILE \<noteq> p" using ownerD(4) [OF o, of i MAXFILE j MAXFILE] ai p(2) 1 by auto
    then show ?thesis using 1 by (auto simp: slots_def slot_def blk_def aset_def)
  next
    case 2
    then show ?thesis using i p k a by (simp add: slots_def slot_def blk_def aset_def)
  next
    case 3
    have "get32 (put32 (4 * k) a (l p)) (4 * (m - NDIRECT)) = get32 (l p) (4 * (m - NDIRECT))" if "\<not> m < NDIRECT"
      by (rule get32_put32_other) (use 3 that in auto)
    then show ?thesis using 3 p by (auto simp: slots_def slot_def blk_def aset_def)
  qed
qed

section \<open>Taking a block\<close>

definition taken :: "nat \<Rightarrow> nat \<Rightarrow> (nat \<times> nat) set \<Rightarrow> (nat \<times> nat) set" where
  "taken i fbn H = insert (i, fbn) (if fbn < NDIRECT then H else insert (i, MAXFILE) H)"

text \<open>
  \<open>appends\<close> relates the states before and after a piece of \<^verbatim>\<open>iappend\<close>'s loop that changed the
  inode in memory from \<open>din\<close> to \<open>din'\<close>.
\<close>

definition appends :: "(nat \<Rightarrow> inode) \<Rightarrow> nat \<Rightarrow> (nat \<times> nat) set \<Rightarrow> (nat \<Rightarrow> byte list) \<Rightarrow> inode \<Rightarrow> mkfs_st \<Rightarrow> inode \<Rightarrow> mkfs_st \<Rightarrow> bool" where
  "appends tab i H F din s din' t \<longleftrightarrow>
     (\<exists>ad. din' = din\<lparr>i_addrs := ad\<rparr> \<and> length ad = NDIRECT + 1) \<and> sized t \<and> freeinode t = freeinode s \<and>
     (\<forall>b < nmeta. dsk t b = dsk s b) \<and> owner (dsk t) (slots (dsk t) (tab(i := din'))) H F (freeblock t)"

lemma appends_trans:
  "appends tab i H F d s d' t \<Longrightarrow> appends tab i H' F' d' t d'' u \<Longrightarrow> appends tab i H' F' d s d'' u"
  by (auto simp: appends_def)

lemma appends_refl:
  "sized s \<Longrightarrow> length (i_addrs din) = NDIRECT + 1 \<Longrightarrow> owner (dsk s) (slots (dsk s) (tab(i := din))) H F (freeblock s) \<Longrightarrow>
   appends tab i H F din s din s"
  by (auto simp: appends_def intro!: exI [of _ "i_addrs din"])

lemma appendsD:
  assumes "appends tab i H F din s din' t"
  shows "length (i_addrs din') = NDIRECT + 1" "owner (dsk t) (slots (dsk t) (tab(i := din'))) H F (freeblock t)"
    "sized t"
  using assms by (auto simp: appends_def)

lemma append_direct:
  assumes s: "appends tab i H F din0 s0 din s" and i: "i < NINODES" "k < NDIRECT" "i_addrs din ! k = 0"
    and f: "freeblock s < FSSIZE"
  shows "appends tab i (insert (i, k) H) F din0 s0 (din\<lparr>i_addrs := (i_addrs din)[k := freeblock s]\<rparr>)
    (s\<lparr>freeblock := freeblock s + 1\<rparr>)"
proof -
  let ?A = "slots (dsk s) (tab(i := din))"
  note len = appendsD(1) [OF s] and o = appendsD(2) [OF s]
  have k: "k < MAXFILE" "(i, k) \<notin> H"
    using i ownerD(3) [OF o, of i k] by (auto simp: param_defs slots_def slot_def blk_def)
  have d: "dsk (s\<lparr>freeblock := freeblock s + 1\<rparr>) = dsk s" by (simp add: dsk_def fun_eq_iff)
  show ?thesis
    using s owner_take [OF o i(1) _ k(2) f] k(1) i(1,2)
    by (auto simp: appends_def d sized_def slots_direct [OF i(1,2) len])
qed

lemma append_pointer:
  assumes s: "appends tab i H F din0 s0 din s" and i: "i < NINODES" "i_addrs din ! NDIRECT = 0"
    and f: "freeblock s < FSSIZE"
  shows "appends tab i (insert (i, MAXFILE) H) F din0 s0 (din\<lparr>i_addrs := (i_addrs din)[NDIRECT := freeblock s]\<rparr>)
    (s\<lparr>freeblock := freeblock s + 1\<rparr>)"
proof -
  let ?A = "slots (dsk s) (tab(i := din))"
  note len = appendsD(1) [OF s] and o = appendsD(2) [OF s]
  have k: "(i, MAXFILE) \<notin> H" using i ownerD(3) [OF o, of i MAXFILE] by (auto simp: slots_def slot_def)
  have d: "dsk (s\<lparr>freeblock := freeblock s + 1\<rparr>) = dsk s" by (simp add: dsk_def fun_eq_iff)
  show ?thesis
    using s owner_take [OF o i(1) le_refl k f] i(1)
    by (auto simp: appends_def d sized_def slots_pointer [OF i(1) len i(2), of "dsk s", OF ownerD(8) [OF o le_refl]])
qed

lemma append_entry:
  assumes s: "appends tab i H F din0 s0 din s" and i: "i < NINODES" "k < NINDIRECT"
    and p: "p = i_addrs din ! NDIRECT" "p \<noteq> 0" "get32 (dsk s p) (4 * k) = 0" and f: "freeblock s < FSSIZE"
  shows "appends tab i (insert (i, NDIRECT + k) H) F din0 s0 din
    (wsect p (put32 (4 * k) (freeblock s) (dsk s p)) (s\<lparr>freeblock := freeblock s + 1\<rparr>))"
proof -
  let ?tab = "tab(i := din)" and ?d = "put32 (4 * k) (freeblock s) (dsk s p)" and ?fb = "freeblock s"
  let ?A = "slots (dsk s) ?tab" and ?s = "s\<lparr>freeblock := freeblock s + 1\<rparr>"
  note z = appendsD(3) [OF s] and o = appendsD(2) [OF s]
  note O = ownerD [OF o]
  have k: "NDIRECT + k < MAXFILE" using i by (simp add: MAXFILE_def)
  have h: "(i, NDIRECT + k) \<notin> H" using O(3) [of i "NDIRECT + k"] i p k by (auto simp: slots_def slot_def blk_def)
  have pA: "?A i MAXFILE = p" using i p by (simp add: slots_def slot_def)
  have pb: "p < ?fb" "nmeta \<le> p" "p < FSSIZE" using O(5) [of i MAXFILE] O(7) pA p(2) by auto
  have d: "dsk ?s = dsk s" by (simp add: dsk_def fun_eq_iff)
  have zd: "sized ?s" "length ?d = BSIZE" using z by (simp_all add: d sized_def)
  note W = wsect_ok [OF zd(1) pb(3) zd(2), unfolded d]
  have a: "?fb < 2 ^ 32" using f by (simp add: param_defs)
  have sl: "slots ((dsk s)(p := ?d)) ?tab = aset ?A i (NDIRECT + k) ?fb"
    by (rule slots_entry [OF o i]) (use p a z in \<open>auto simp: sized_def\<close>)
  have "owner ((dsk s)(p := ?d)) (aset ?A i (NDIRECT + k) ?fb) (insert (i, NDIRECT + k) H) F (?fb + 1)"
  proof (rule owner_write [OF owner_take [OF o i(1) less_imp_le [OF k] h f]])
    fix j m assume m: "m < MAXFILE" "aset ?A i (NDIRECT + k) ?fb j m \<noteq> 0"
    show "p \<noteq> aset ?A i (NDIRECT + k) ?fb j m"
      using m pb(1) O(4) [of i MAXFILE j m] pA p(2) by (auto simp: aset_def)
  qed (use pb in simp)
  then show ?thesis using s W sl pb(2) by (auto simp: appends_def)
qed

lemma iappend_pointer_ok:
  assumes s: "appends tab i H F din s din s" and i: "i < NINODES"
    and f: "nmeta + card (insert (i, MAXFILE) H) \<le> FSSIZE"
  shows "\<exists>din1 s1. (if xint (i_addrs din ! NDIRECT) = 0 then
      (din\<lparr>i_addrs := (i_addrs din)[NDIRECT := xint (freeblock s)]\<rparr>, s\<lparr>freeblock := freeblock s + 1\<rparr>) else (din, s)) = (din1, s1) \<and>
    appends tab i (insert (i, MAXFILE) H) F din s din1 s1"
proof -
  note O = ownerD [OF appendsD(2) [OF s]]
  have A: "slots (dsk s) (tab(i := din)) i MAXFILE = i_addrs din ! NDIRECT" using i by (simp add: slots_def slot_def)
  have x: "xint (i_addrs din ! NDIRECT) = i_addrs din ! NDIRECT" using O(10) [of i MAXFILE] A by (simp add: param_defs)
  show ?thesis
  proof (cases "i_addrs din ! NDIRECT = 0")
    case True
    have "freeblock s < FSSIZE" using f O(1,6) O(3) [of i MAXFILE] A True by simp
    moreover from this have "xint (freeblock s) = freeblock s" by (simp add: param_defs)
    ultimately show ?thesis using append_pointer [OF s i True] True by (simp add: x)
  next
    case False
    then have "insert (i, MAXFILE) H = H" using O(3) [of i MAXFILE] A by auto
    then show ?thesis using s False by (simp add: x)
  qed
qed

lemma iappend_entry_ok:
  assumes s: "appends tab i (insert (i, MAXFILE) H) F din0 s0 din s" and i: "i < NINODES" "k < NINDIRECT"
    and f: "nmeta + card (insert (i, NDIRECT + k) (insert (i, MAXFILE) H)) \<le> FSSIZE"
  shows "okP (bnd (rsect (xint (i_addrs din ! NDIRECT)) s) (\<lambda>indirect.
       let (indirect, s) =
             (if get32 indirect (4 * k) = 0 then
                let indirect = put32 (4 * k) (xint (freeblock s)) indirect in
                (indirect, wsect (xint (i_addrs din ! NDIRECT)) indirect (s\<lparr>freeblock := freeblock s + 1\<rparr>))
              else (indirect, s))
       in Ok (xint (get32 indirect (4 * k)), din, s)))
    (\<lambda>(x, din', t). appends tab i (insert (i, NDIRECT + k) (insert (i, MAXFILE) H)) F din0 s0 din' t \<and>
       x = slots (dsk t) (tab(i := din')) i (NDIRECT + k))"
proof -
  let ?p = "i_addrs din ! NDIRECT" and ?A = "slots (dsk s) (tab(i := din))" and ?H = "insert (i, MAXFILE) H"
  note z = appendsD(3) [OF s] and O = ownerD [OF appendsD(2) [OF s]]
  have k: "NDIRECT + k < MAXFILE" "4 * k + 4 \<le> BSIZE" using i by (simp_all add: MAXFILE_def param_defs)
  have A: "?A i MAXFILE = ?p" using i by (simp add: slots_def slot_def)
  have p: "?p \<noteq> 0" "?p < FSSIZE" using O(3) [of i MAXFILE] O(10) [of i MAXFILE] A by auto
  have e: "?A i (NDIRECT + k) = get32 (dsk s ?p) (4 * k)" using i k p by (simp add: slots_def slot_def blk_def)
  have x: "xint ?p = ?p" "xint (get32 (dsk s ?p) (4 * k)) = get32 (dsk s ?p) (4 * k)"
    using p get32_less [of "dsk s ?p" "4 * k"] by (simp_all add: param_defs)
  show ?thesis
  proof (cases "get32 (dsk s ?p) (4 * k) = 0")
    case True
    have f': "freeblock s < FSSIZE" using f O(1,6) O(3) [of i "NDIRECT + k"] e True by simp
    then have fx: "xint (freeblock s) = freeblock s" "freeblock s mod 2 ^ 32 = freeblock s" by (simp_all add: param_defs)
    let ?d = "put32 (4 * k) (freeblock s) (dsk s ?p)"
    let ?t = "wsect ?p ?d (s\<lparr>freeblock := freeblock s + 1\<rparr>)"
    have l: "length (dsk s ?p) = BSIZE" using z by (simp add: sized_def)
    have g: "get32 ?d (4 * k) = freeblock s" using f' k l by (simp add: param_defs)
    have "dsk ?t = (dsk s)(?p := ?d)"
    proof -
      have d: "dsk (s\<lparr>freeblock := freeblock s + 1\<rparr>) = dsk s" by (simp add: dsk_def fun_eq_iff)
      have "sized (s\<lparr>freeblock := freeblock s + 1\<rparr>)" using z by (simp add: sized_def d)
      from wsect_ok(2) [OF this p(2)] l show ?thesis by (simp add: d)
    qed
    then have "slots (dsk ?t) (tab(i := din)) i (NDIRECT + k) = freeblock s"
      using i k p g by (simp add: slots_def slot_def blk_def)
    then show ?thesis
      using append_entry [OF s i refl p(1) True f']
      by (simp add: x(1) rsect_ok [OF z p(2)] Let_def True fx g del: get32_put32_same)
  next
    case False
    then have "insert (i, NDIRECT + k) ?H = ?H" using O(3) [of i "NDIRECT + k"] e by auto
    then show ?thesis using s False x e rsect_ok [OF z p(2)] by simp
  qed
qed

lemma iappend_block_ok:
  assumes s: "appends tab i H F din s din s" and i: "i < NINODES" "fbn < MAXFILE"
    and f: "nmeta + card (taken i fbn H) \<le> FSSIZE"
  shows "okP (iappend_block fbn din s) (\<lambda>(x, din', t). appends tab i (taken i fbn H) F din s din' t \<and>
    x = slots (dsk t) (tab(i := din')) i fbn)"
proof (cases "fbn < NDIRECT")
  case True
  let ?A = "slots (dsk s) (tab(i := din))"
  note len = appendsD(1) [OF s] and o = appendsD(2) [OF s]
  note O = ownerD [OF o]
  have A: "?A i fbn = i_addrs din ! fbn" using True i by (simp add: slots_def slot_def blk_def)
  have x: "xint (i_addrs din ! fbn) = i_addrs din ! fbn" using O(10) [of i fbn] A by (simp add: param_defs)
  have t: "taken i fbn H = insert (i, fbn) H" using True by (simp add: taken_def)
  show ?thesis
  proof (cases "i_addrs din ! fbn = 0")
    case z: True
    have "freeblock s < FSSIZE" using f O(1,6) O(3) [of i fbn] A z unfolding t by simp
    moreover from this have "xint (freeblock s) = freeblock s" by (simp add: param_defs)
    ultimately show ?thesis
      using append_direct [OF s i(1) True z] True i x z t len
      by (simp add: iappend_block_def slots_def slot_def blk_def)
  next
    case False
    then have "(i, fbn) \<in> H" using O(3) [of i fbn] A by simp
    then show ?thesis using s False True A x t by (simp add: iappend_block_def insert_absorb)
  qed
next
  case False
  then have t: "taken i fbn H = insert (i, fbn) (insert (i, MAXFILE) H)" by (simp add: taken_def)
  define k where "k = fbn - NDIRECT"
  have k: "fbn = NDIRECT + k" "k < NINDIRECT" using False i by (auto simp: k_def MAXFILE_def)
  have "card (insert (i, MAXFILE) H) \<le> card (taken i fbn H)" unfolding t
    by (rule card_mono) (use ownerD(1) [OF appendsD(2) [OF s]] in auto)
  then have "nmeta + card (insert (i, MAXFILE) H) \<le> FSSIZE" using f by simp
  from iappend_pointer_ok [OF s i(1) this]
  obtain din1 s1 where 1: "(if xint (i_addrs din ! NDIRECT) = 0 then
      (din\<lparr>i_addrs := (i_addrs din)[NDIRECT := xint (freeblock s)]\<rparr>, s\<lparr>freeblock := freeblock s + 1\<rparr>) else (din, s)) = (din1, s1)"
    "appends tab i (insert (i, MAXFILE) H) F din s din1 s1" by blast
  show ?thesis
    using iappend_entry_ok [OF 1(2) i(1) k(2) f [unfolded t, unfolded k(1)]] False t
    unfolding iappend_block_def 1(1) by (simp add: k(1) Let_def)
qed

section \<open>iappend\<close>

text \<open>The slots files of the given contents need.\<close>

definition needs :: "(nat \<Rightarrow> byte list) \<Rightarrow> (nat \<times> nat) set" where
  "needs F = {(i, k). i < NINODES \<and>
     (k < MAXFILE \<and> k * BSIZE < length (F i) \<or> k = MAXFILE \<and> NDIRECT * BSIZE < length (F i))}"

lemma finite_needs [simp]: "finite (needs F)"
  by (rule finite_subset [of _ "{..<NINODES} \<times> {..MAXFILE}"]) (auto simp: needs_def)

lemma needs_mono: "(\<And>i. length (F i) \<le> length (G i)) \<Longrightarrow> needs F \<subseteq> needs G"
  by (auto simp: needs_def intro: less_le_trans)

lemma needs_append:
  assumes "n = length (F i)" "fbn = n div BSIZE" "fbn < MAXFILE" "i < NINODES" "xs \<noteq> []" "length xs \<le> BSIZE - n mod BSIZE"
  shows "needs (F(i := F i @ xs)) = taken i fbn (needs F)"
proof -
  have B: "0 < BSIZE" by (simp add: param_defs)
  have n: "n = fbn * BSIZE + n mod BSIZE" using assms(2) by simp
  have m: "n mod BSIZE < BSIZE" "0 < length xs" using B assms(5) by simp_all
  have lo: "k * BSIZE < n \<or> k = fbn \<longleftrightarrow> k \<le> fbn" for k
  proof (cases k fbn rule: linorder_cases)
    case less
    then have "k * BSIZE + BSIZE \<le> fbn * BSIZE" using mult_le_mono1 [of "k + 1" fbn BSIZE] by (simp add: add_mult_distrib)
    then show ?thesis using less n B by linarith
  next
    case greater
    then have "fbn * BSIZE + BSIZE \<le> k * BSIZE" using mult_le_mono1 [of "fbn + 1" k BSIZE] by (simp add: add_mult_distrib)
    then have "\<not> k * BSIZE < n" using n m(1) by linarith
    then show ?thesis using greater by simp
  qed simp
  have hi: "k * BSIZE < n + length xs \<longleftrightarrow> k \<le> fbn" for k
  proof (cases "k \<le> fbn")
    case True
    then have "k * BSIZE \<le> fbn * BSIZE" by (rule mult_le_mono1)
    then show ?thesis using True n m(2) by linarith
  next
    case False
    then have "fbn * BSIZE + BSIZE \<le> k * BSIZE" using mult_le_mono1 [of "fbn + 1" k BSIZE] by (simp add: add_mult_distrib)
    then have "\<not> k * BSIZE < n + length xs" using n m(1) assms(6) by linarith
    then show ?thesis using False by simp
  qed
  have d: "NDIRECT * BSIZE < n \<Longrightarrow> NDIRECT \<le> fbn" using lo [of NDIRECT] by blast
  have M: "NDIRECT < MAXFILE" by (simp add: param_defs)
  have lo': "k * BSIZE < n \<Longrightarrow> k \<le> fbn" "k \<le> fbn \<Longrightarrow> k \<noteq> fbn \<Longrightarrow> k * BSIZE < n" for k using lo [of k] by blast+
  show ?thesis
    using assms(3,4) M d lo' by (auto simp: needs_def taken_def hi assms(1) [symmetric] split: if_splits)
qed

lemma appends_data:
  assumes s: "appends tab i H F din s din' t" and i: "i < NINODES" "fbn = length (F i) div BSIZE" "fbn < MAXFILE" "(i, fbn) \<in> H"
    and x: "x = slots (dsk t) (tab(i := din')) i fbn" and n: "length xs \<le> BSIZE - length (F i) mod BSIZE"
  shows "appends tab i H (F(i := F i @ xs)) din s din' (wsect x (mem_put (dsk t x) (length (F i) mod BSIZE) xs) t)"
    "x < FSSIZE"
proof -
  let ?A = "slots (dsk t) (tab(i := din'))" and ?d = "mem_put (dsk t x) (length (F i) mod BSIZE) xs"
  note z = appendsD(3) [OF s] and o = appendsD(2) [OF s] note O = ownerD [OF o]
  have x0: "?A i fbn \<noteq> 0" using O(3) i(4) by blast
  show xf: "x < FSSIZE" using O(10) x by simp
  have l: "length (dsk t x) = BSIZE" using z by (simp add: sized_def)
  have "length (F i) mod BSIZE < BSIZE" by (simp add: param_defs)
  then have ld: "length ?d = BSIZE" using l n by simp
  note W = wsect_ok [OF z xf ld]
  have "slots ((dsk t)(x := ?d)) (tab(i := din')) = ?A"
  proof (rule slots_other)
    fix j assume "?A j MAXFILE \<noteq> 0"
    then show "x \<noteq> ?A j MAXFILE" using O(4) [OF x0, of j MAXFILE] x i(3) by auto
  qed
  moreover have "owner ((dsk t)(x := ?d)) ?A H (F(i := F i @ xs)) (freeblock t)"
    unfolding x by (rule owner_append [OF o i(2,4,3)]) (use l x n in auto)
  moreover have "nmeta \<le> x" using O(5) [OF x0] x by simp
  ultimately show "appends tab i H (F(i := F i @ xs)) din s din' (wsect x ?d t)"
    using s W by (auto simp: appends_def)
qed

lemma iappend_loop_ok:
  assumes "appends tab i (needs F) F din s din s" "i < NINODES" "length (F i) + length p \<le> MAXFILE * BSIZE"
    "nmeta + card (needs (F(i := F i @ p))) \<le> FSSIZE"
  shows "okP (iappend_loop (length (F i)) p din s) (\<lambda>(off, din', t). off = length (F i) + length p \<and>
    appends tab i (needs (F(i := F i @ p))) (F(i := F i @ p)) din s din' t)"
  using assms
proof (induction "length p" arbitrary: p F din s rule: less_induct)
  case less
  show ?case
  proof (cases "p = []")
    case True
    then show ?thesis using less.prems by (simp add: iappend_loop.simps)
  next
    case False
    let ?n = "length (F i)" let ?fbn = "?n div BSIZE"
    define n1 where "n1 = min (length p) ((?fbn + 1) * BSIZE - ?n)"
    let ?G = "F(i := F i @ take n1 p)"
    have B: "0 < BSIZE" "?n mod BSIZE < BSIZE" by (simp_all add: param_defs)
    have e: "(?fbn + 1) * BSIZE - ?n = BSIZE - ?n mod BSIZE" "?n - ?fbn * BSIZE = ?n mod BSIZE"
      using div_mult_mod_eq [of ?n BSIZE] by (simp_all add: add_mult_distrib minus_div_mult_eq_mod, linarith)
    have n1: "0 < n1" "n1 \<le> length p" "length (take n1 p) = n1" "n1 \<le> BSIZE - ?n mod BSIZE"
      using False B e(1) by (auto simp: n1_def)
    have "?n < MAXFILE * BSIZE" using less.prems(3) False by (cases p) auto
    then have fbn: "?fbn < MAXFILE" by (rule less_mult_imp_div_less)
    have tk: "needs ?G = taken i ?fbn (needs F)"
      by (rule needs_append [where n = ?n]) (use n1 fbn less.prems(2) in auto)
    have GG: "?G(i := ?G i @ drop n1 p) = F(i := F i @ p)" by simp
    have "card (needs ?G) \<le> card (needs (F(i := F i @ p)))"
      by (rule card_mono [OF finite_needs needs_mono]) (use n1 in auto)
    then have c: "nmeta + card (taken i ?fbn (needs F)) \<le> FSSIZE" using less.prems(4) tk by simp
    from iappend_block_ok [OF less.prems(1,2) fbn c]
    obtain x d1 s1 where b: "iappend_block ?fbn din s = Ok (x, d1, s1)"
      and 1: "appends tab i (needs ?G) F din s d1 s1" "x = slots (dsk s1) (tab(i := d1)) i ?fbn"
      unfolding tk okP_iff by auto
    have "(i, ?fbn) \<in> needs ?G" unfolding tk by (simp add: taken_def)
    note D = appends_data [OF 1(1) less.prems(2) refl fbn this 1(2), of "take n1 p", unfolded n1(3), OF n1(4)]
    let ?t = "wsect x (mem_put (dsk s1 x) (?n mod BSIZE) (take n1 p)) s1"
    have st: "appends tab i (needs ?G) ?G d1 ?t d1 ?t"
      by (rule appends_refl) (use appendsD [OF D(1)] in auto)
    have len: "length (?G i) = ?n + n1" using n1 by simp
    have IH: "okP (iappend_loop (length (?G i)) (drop n1 p) d1 ?t) (\<lambda>(off, din', t). off = length (?G i) + length (drop n1 p) \<and>
        appends tab i (needs (?G(i := ?G i @ drop n1 p))) (?G(i := ?G i @ drop n1 p)) d1 ?t din' t)"
      by (rule less.hyps [OF _ st less.prems(2)]) (use n1 less.prems(3,4) GG in auto)
    have "okP (iappend_loop (?n + n1) (drop n1 p) d1 ?t) (\<lambda>(off, din', t). off = ?n + length p \<and>
        appends tab i (needs (F(i := F i @ p))) (F(i := F i @ p)) din s din' t)"
      by (rule okP_weaken [OF IH [unfolded GG len]]) (use n1 in \<open>auto intro: appends_trans [OF D(1)]\<close>)
    moreover have "iappend_loop ?n p din s = iappend_loop (?n + n1) (drop n1 p) d1 ?t"
      using False fbn b rsect_ok [OF appendsD(3) [OF 1(1)] D(2)] e(2)
      by (subst iappend_loop.simps) (simp add: n1_def [symmetric] Let_def)
    ultimately show ?thesis by simp
  qed
qed

section \<open>The image while it is built\<close>

text \<open>
  \<open>tab\<close> is the table of inodes on disk and \<open>F\<close> the contents of the files. The superblock is in
  place and the header of the log is empty.
\<close>

definition disk_part :: "inode \<Rightarrow> bool" where
  "disk_part ip \<longleftrightarrow> i_dev ip = 1 \<and> i_inum ip = 0 \<and> i_ref ip = 0 \<and> i_lock ip = i_lock no_inode \<and> \<not> i_valid ip"

definition stored :: "mkfs_st \<Rightarrow> (nat \<Rightarrow> inode) \<Rightarrow> bool" where
  "stored s tab \<longleftrightarrow> sized s \<and> dsk s 1 = enc_sb mkfs_sb zeroes \<and> dsk s 2 = zeroes \<and>
     (\<forall>j < NINODES. dec_dinode (dsk s (IBLOCK j mkfs_sb)) (ioff j) no_inode = tab j \<and> disk_part (tab j) \<and>
        inode_range (tab j))"

definition built :: "mkfs_st \<Rightarrow> (nat \<Rightarrow> inode) \<Rightarrow> (nat \<Rightarrow> byte list) \<Rightarrow> bool" where
  "built s tab F \<longleftrightarrow> stored s tab \<and> (\<forall>j < NINODES. i_size (tab j) = length (F j)) \<and>
     owner (dsk s) (slots (dsk s) tab) (needs F) F (freeblock s)"

lemma storedD:
  assumes "stored s tab"
  shows "sized s" "j < NINODES \<Longrightarrow> dec_dinode (dsk s (IBLOCK j mkfs_sb)) (ioff j) no_inode = tab j"
    "j < NINODES \<Longrightarrow> disk_part (tab j)" "j < NINODES \<Longrightarrow> inode_range (tab j)"
    "j < NINODES \<Longrightarrow> length (i_addrs (tab j)) = NDIRECT + 1"
  using assms by (auto simp: stored_def inode_range_def)

lemma builtD:
  assumes "built s tab F"
  shows "sized s" "owner (dsk s) (slots (dsk s) tab) (needs F) F (freeblock s)"
    "j < NINODES \<Longrightarrow> disk_part (tab j)" "j < NINODES \<Longrightarrow> inode_range (tab j)"
    "j < NINODES \<Longrightarrow> i_size (tab j) = length (F j)" "j < NINODES \<Longrightarrow> length (i_addrs (tab j)) = NDIRECT + 1" "stored s tab"
  using assms storedD [of s tab] by (auto simp: built_def)

lemma iblock_range: "j < NINODES \<Longrightarrow> 32 \<le> IBLOCK j mkfs_sb \<and> IBLOCK j mkfs_sb < 58"
proof -
  assume "j < NINODES"
  then have "j div 8 < 25" by (simp add: param_defs div_less_iff_less_mult)
  then show ?thesis by (simp add: IBLOCK_def mkfs_sb_eq param_defs)
qed

lemma ioff_fits: "ioff j + DINODE_SIZE \<le> BSIZE"
proof -
  have "j mod 8 < 8" by simp
  then have "j mod 8 * 64 + 64 \<le> 512" by linarith
  then show ?thesis by (simp add: ioff_def param_defs)
qed

lemma ioff_differs: "IBLOCK j sb = IBLOCK k sb \<Longrightarrow> j \<noteq> k \<Longrightarrow> ioff j \<noteq> ioff k"
  using div_mult_mod_eq [of j IPB] div_mult_mod_eq [of k IPB] by (auto simp: IBLOCK_def ioff_def DINODE_SIZE_def)

lemma dinode_reload:
  assumes "inode_range ip" "disk_part ip" "length d = BSIZE"
  shows "dec_dinode (enc_dinode ip (ioff j) d) (ioff j) no_inode = ip"
  using dinode_roundtrip [OF assms(1), of "ioff j" d no_inode] ioff_fits [of j] assms(2,3)
  by (cases ip) (simp add: disk_part_def no_inode_def)

lemma dinode_keep:
  assumes "j \<noteq> k"
  shows "dec_dinode ((l(IBLOCK j sb := enc_dinode ip (ioff j) (l (IBLOCK j sb)))) (IBLOCK k sb)) (ioff k) no_inode
    = dec_dinode (l (IBLOCK k sb)) (ioff k) no_inode"
proof (cases "IBLOCK j sb = IBLOCK k sb")
  case True
  have "ioff m mod DINODE_SIZE = 0" for m by (simp add: ioff_def)
  then show ?thesis using True ioff_differs [OF True assms] by (simp add: dinode_other)
qed simp

lemma rinode_ok: "stored s tab \<Longrightarrow> j < NINODES \<Longrightarrow> rinode j s = Ok (tab j)"
  using iblock_range [of j] storedD(1,2) [of s tab]
  by (simp add: rinode_def rsect_ok sized_def FSSIZE_def)

text \<open>Storing an inode whose slots and contents are those of the table and files after the update.\<close>

lemma winode_stored:
  assumes s: "stored s tab" and t: "sized t" "\<And>b. b < nmeta \<Longrightarrow> dsk t b = dsk s b"
    and o: "owner (dsk t) (slots (dsk t) (tab(j := ip))) H G (freeblock t)"
    and j: "j < NINODES" "inode_range ip" "disk_part ip"
  shows "okP (winode j ip t) (\<lambda>u. stored u (tab(j := ip)) \<and>
    owner (dsk u) (slots (dsk u) (tab(j := ip))) H G (freeblock u) \<and> freeinode u = freeinode t)"
proof -
  let ?b = "IBLOCK j mkfs_sb" let ?d = "enc_dinode ip (ioff j) (dsk t ?b)"
  have b: "32 \<le> ?b" "?b < 58" "?b < FSSIZE" "?b < nmeta" using iblock_range [OF j(1)] by (simp_all add: param_defs)
  have l: "length (dsk t ?b) = BSIZE" "length ?d = BSIZE" using t(1) by (simp_all add: sized_def)
  note W = wsect_ok [OF t(1) b(3) l(2)]
  have sl: "slots ((dsk t)(?b := ?d)) (tab(j := ip)) = slots (dsk t) (tab(j := ip))"
    by (rule slots_other) (use ownerD(5) [OF o] b(4) in fastforce)
  have ow: "owner ((dsk t)(?b := ?d)) (slots (dsk t) (tab(j := ip))) H G (freeblock t)"
    by (rule owner_write [OF o]) (use ownerD(5,6) [OF o] b(4) in \<open>fastforce+\<close>)
  have st: "dec_dinode (((dsk t)(?b := ?d)) (IBLOCK k mkfs_sb)) (ioff k) no_inode = (tab(j := ip)) k" if k: "k < NINODES" for k
  proof (cases "k = j")
    case True
    then show ?thesis using dinode_reload [OF j(2,3) l(1)] by simp
  next
    case False
    have "dsk t (IBLOCK k mkfs_sb) = dsk s (IBLOCK k mkfs_sb)"
      by (rule t(2)) (use iblock_range [OF k] in \<open>simp add: param_defs\<close>)
    then show ?thesis using dinode_keep [of j k "dsk t" mkfs_sb ip] storedD(2) [OF s k] False by simp
  qed
  have lo: "dsk t 1 = dsk s 1" "dsk t 2 = dsk s 2" using t(2) by (simp_all add: param_defs)
  have "stored (wsect ?b ?d t) (tab(j := ip))" using W s st lo b(1) j(2,3) by (auto simp: stored_def)
  moreover have "winode j ip t = Ok (wsect ?b ?d t)" using rsect_ok [OF t(1) b(3)] t(1) by (simp add: winode_def sized_def Let_def)
  ultimately show ?thesis using W ow sl by simp
qed

lemma winode_ok:
  assumes s: "built s tab F" and t: "sized t" "\<And>b. b < nmeta \<Longrightarrow> dsk t b = dsk s b"
    and o: "owner (dsk t) (slots (dsk t) (tab(j := ip))) (needs G) G (freeblock t)"
    and G: "\<And>k. k \<noteq> j \<Longrightarrow> G k = F k"
    and j: "j < NINODES" "inode_range ip" "disk_part ip" "i_size ip = length (G j)"
  shows "okP (winode j ip t) (\<lambda>u. built u (tab(j := ip)) G \<and> freeinode u = freeinode t)"
  by (rule okP_weaken [OF winode_stored [OF builtD(7) [OF s] t o j(1-3)]])
    (use G j(4) builtD(5) [OF s] in \<open>auto simp: built_def\<close>)

lemma addrs_range:
  assumes o: "owner l (slots l tab) H F fb" and i: "i < NINODES" "length (i_addrs (tab i)) = NDIRECT + 1"
  shows "\<forall>a \<in> set (i_addrs (tab i)). a < 2 ^ 32"
proof
  fix a assume "a \<in> set (i_addrs (tab i))"
  then obtain k where k: "k < NDIRECT + 1" "a = i_addrs (tab i) ! k" using i(2) by (auto simp: in_set_conv_nth)
  have M: "NDIRECT < MAXFILE" by (simp add: param_defs)
  have "a = slots l tab i (if k < NDIRECT then k else MAXFILE)"
    using k i(1) M by (auto simp: slots_def slot_def blk_def less_Suc_eq not_less simp flip: Suc_eq_plus1)
  then show "a < 2 ^ 32" using ownerD(10) [OF o, of i "if k < NDIRECT then k else MAXFILE"] by (simp add: FSSIZE_def)
qed

lemma contents_fit: "owner l A H F fb \<Longrightarrow> length (F i) \<le> MAXFILE * BSIZE"
proof (rule ccontr)
  assume o: "owner l A H F fb" and "\<not> length (F i) \<le> MAXFILE * BSIZE"
  then have "MAXFILE * BSIZE div BSIZE < MAXFILE" using ownerD(9) [OF o, of "MAXFILE * BSIZE" i] by simp
  then show False by (simp add: param_defs)
qed

lemma iappend_ok:
  assumes s: "built s tab F" and i: "i < NINODES" "length (F i) + length p \<le> MAXFILE * BSIZE"
    and f: "nmeta + card (needs (F(i := F i @ p))) \<le> FSSIZE"
  shows "okP (iappend i p s) (\<lambda>t. \<exists>ad. built t (tab(i := (tab i)\<lparr>i_addrs := ad, i_size := length (F i) + length p\<rparr>)) (F(i := F i @ p)) \<and>
    freeinode t = freeinode s)"
proof -
  note D = builtD [OF s] and R = builtD(4) [OF s i(1)]
  have M: "MAXFILE * BSIZE < 2 ^ 32" by (simp add: param_defs)
  have x: "xint (i_size (tab i)) = length (F i)" "xint (length (F i) + length p) = length (F i) + length p"
    using i M builtD(5) [OF s i(1)] by simp_all
  have "appends tab i (needs F) F (tab i) s (tab i) s" by (rule appends_refl) (use D i in auto)
  from iappend_loop_ok [OF this i f]
  obtain din t where l: "iappend_loop (length (F i)) p (tab i) s = Ok (length (F i) + length p, din, t)"
    and a: "appends tab i (needs (F(i := F i @ p))) (F(i := F i @ p)) (tab i) s din t" by (auto simp: okP_iff)
  obtain ad where ad: "din = (tab i)\<lparr>i_addrs := ad\<rparr>" "length ad = NDIRECT + 1" and fi: "freeinode t = freeinode s"
    and lo: "\<And>b. b < nmeta \<Longrightarrow> dsk t b = dsk s b" using a by (auto simp: appends_def)
  let ?n = "length (F i) + length p" let ?ip = "din\<lparr>i_size := ?n\<rparr>"
  have sl: "slots (dsk t) (tab(i := ?ip)) = slots (dsk t) (tab(i := din))"
    by (auto simp: slots_def slot_def blk_def fun_eq_iff)
  note o = appendsD(2) [OF a]
  have rg: "inode_range ?ip"
    using R ad addrs_range [OF o i(1)] i M by (simp add: inode_range_def)
  have "okP (winode i ?ip t) (\<lambda>u. built u (tab(i := ?ip)) (F(i := F i @ p)) \<and> freeinode u = freeinode t)"
    by (rule winode_ok [OF s appendsD(3) [OF a] lo])
      (use o sl rg D(3) [OF i(1)] ad i in \<open>auto simp: disk_part_def\<close>)
  then show ?thesis using ad fi l x unfolding iappend_def rinode_ok [OF D(7) i(1)]
    by (auto simp: okP_iff)
qed

lemma ialloc_ok:
  assumes s: "built s tab F" "freeinode s < NINODES" and n: "tab (freeinode s) = no_inode" and ty: "type < 2 ^ 15"
  shows "okP (ialloc_mkfs type s) (\<lambda>(inum, t). inum = freeinode s \<and> freeinode t = freeinode s + 1 \<and>
    built t (tab(inum := no_inode\<lparr>i_type := int type, i_nlink := 1\<rparr>)) F)"
proof -
  let ?j = "freeinode s" let ?ip = "no_inode\<lparr>i_type := int type, i_nlink := 1\<rparr>" and ?t = "s\<lparr>freeinode := freeinode s + 1\<rparr>"
  note D = builtD [OF s(1)]
  have d: "dsk ?t = dsk s" by (simp add: dsk_def fun_eq_iff)
  have ip: "no_inode\<lparr>i_type := sint16 (xshort type), i_nlink := sint16 (xshort 1), i_size := xint 0\<rparr> = ?ip"
    using ty by (simp add: xshort_mod sint16_def no_inode_def)
  have sl: "slots (dsk s) (tab(?j := ?ip)) = slots (dsk s) tab"
    by (auto simp: slots_def slot_def blk_def fun_eq_iff n)
  have "F ?j = []" using D(5) [OF s(2)] n by (simp add: no_inode_def)
  moreover have "inode_range ?ip" using ty by (auto simp: inode_range_def no_inode_def short_ok_def)
  moreover have "sized ?t" using D(1) by (simp add: sized_def d)
  ultimately have "okP (winode ?j ?ip ?t) (\<lambda>u. built u (tab(?j := ?ip)) F \<and> freeinode u = freeinode ?t)"
    using s D(2) sl by (intro winode_ok [OF s(1)]) (auto simp: d disk_part_def no_inode_def)
  then show ?thesis unfolding ialloc_mkfs_def Let_def ip by (auto simp: okP_iff)
qed

lemma copy_file_ok:
  assumes "built s tab F" "i < NINODES" "length (F i) + length c \<le> MAXFILE * BSIZE"
    "nmeta + card (needs (F(i := F i @ c))) \<le> FSSIZE"
  shows "okP (copy_file i c s) (\<lambda>t. \<exists>ad. built t (tab(i := (tab i)\<lparr>i_addrs := ad, i_size := length (F i) + length c\<rparr>)) (F(i := F i @ c)) \<and>
    freeinode t = freeinode s)"
  using assms
proof (induction "length c" arbitrary: c s tab F rule: less_induct)
  case less
  show ?case
  proof (cases "c = []")
    case True
    have "built s (tab(i := (tab i)\<lparr>i_addrs := i_addrs (tab i), i_size := length (F i) + length c\<rparr>)) (F(i := F i @ c))"
      using less.prems(1) builtD(5) [OF less.prems(1,2), symmetric] True by simp
    then have "\<exists>ad. built s (tab(i := (tab i)\<lparr>i_addrs := ad, i_size := length (F i) + length c\<rparr>)) (F(i := F i @ c))"
      by (rule exI)
    then show ?thesis using True by (simp add: copy_file.simps)
  next
    case False
    let ?a = "take BSIZE c" and ?b = "drop BSIZE c" let ?G = "F(i := F i @ ?a)"
    have GG: "?G(i := ?G i @ ?b) = F(i := F i @ c)" and len: "length ?a + length ?b = length c" "length ?b < length c"
      using False by (auto simp: param_defs)
    have "card (needs ?G) \<le> card (needs (F(i := F i @ c)))" by (rule card_mono [OF finite_needs needs_mono]) auto
    then have "okP (iappend i ?a s) (\<lambda>t. \<exists>ad. built t (tab(i := (tab i)\<lparr>i_addrs := ad, i_size := length (F i) + length ?a\<rparr>)) ?G \<and>
      freeinode t = freeinode s)"
      using less.prems len by (intro iappend_ok) auto
    then obtain s1 ad where 1: "iappend i ?a s = Ok s1" "freeinode s1 = freeinode s"
      and b: "built s1 (tab(i := (tab i)\<lparr>i_addrs := ad, i_size := length (F i) + length ?a\<rparr>)) ?G" by (auto simp: okP_iff)
    let ?tab = "tab(i := (tab i)\<lparr>i_addrs := ad, i_size := length (F i) + length ?a\<rparr>)"
    have "okP (copy_file i ?b s1) (\<lambda>t. \<exists>ad. built t (?tab(i := (?tab i)\<lparr>i_addrs := ad, i_size := length (?G i) + length ?b\<rparr>))
        (?G(i := ?G i @ ?b)) \<and> freeinode t = freeinode s1)"
      by (rule less.hyps [OF len(2) b less.prems(2)]) (use less.prems(3,4) len GG in auto)
    then show ?thesis using False 1 len by (subst copy_file.simps) (simp add: GG add.assoc)
  qed
qed

text \<open>The contents of the files once the given files follow inode \<open>n - 1\<close>.\<close>

fun lay :: "(nat \<Rightarrow> byte list) \<Rightarrow> nat \<Rightarrow> (byte list \<times> byte list) list \<Rightarrow> nat \<Rightarrow> byte list" where
  "lay F n [] = F"
| "lay F n ((name, c) # fs) = lay (F(1 := F 1 @ mkfs_dirent n name, n := c)) (n + 1) fs"

definition host_files :: "host \<Rightarrow> byte list list \<Rightarrow> (byte list \<times> byte list) list" where
  "host_files h args = map (\<lambda>a. (fs_name a, the (host_file h a))) args"

definition args_ok :: "host \<Rightarrow> byte list list \<Rightarrow> bool" where
  "args_ok h args \<longleftrightarrow> (\<forall>a \<in> set args. 47 \<notin> set a \<and> host_file h a \<noteq> None)"

definition kind :: "inode \<Rightarrow> int \<times> int" where
  "kind ip = (i_type ip, i_nlink ip)"

lemma lay_mono: "(\<And>j. n \<le> j \<Longrightarrow> F j = []) \<Longrightarrow> 1 < n \<Longrightarrow> length (F j) \<le> length (lay F n fs j)"
proof (induction fs arbitrary: F n)
  case (Cons f fs)
  obtain name c where f: "f = (name, c)" by (cases f)
  let ?F = "F(1 := F 1 @ mkfs_dirent n name, n := c)"
  have "length (?F j) \<le> length (lay ?F (n + 1) fs j)" by (rule Cons.IH) (use Cons.prems in auto)
  moreover have "length (F j) \<le> length (?F j)" using Cons.prems by auto
  ultimately show ?case by (simp add: f)
qed simp

lemma mkfs_files_ok:
  assumes "built s tab F" "args_ok h args" "freeinode s = n" "1 < n" "n + length args \<le> NINODES"
    "\<And>j. n \<le> j \<Longrightarrow> tab j = no_inode \<and> F j = []"
    "\<And>j. length (lay F n (host_files h args) j) \<le> MAXFILE * BSIZE"
    "nmeta + card (needs (lay F n (host_files h args))) \<le> FSSIZE"
  shows "okP (mkfs_files h 1 args s) (\<lambda>t. \<exists>tab'. built t tab' (lay F n (host_files h args)) \<and>
    (\<forall>j. kind (tab' j) = (if n \<le> j \<and> j < n + length args then (T_FILE, 1) else kind (tab j))))"
  using assms
proof (induction args arbitrary: s tab F n)
  case Nil
  then show ?case by (auto simp: host_files_def)
next
  case (Cons a args)
  obtain c where c: "host_file h a = Some c" "47 \<notin> set a" using Cons.prems(2) by (auto simp: args_ok_def)
  let ?fs = "host_files h args" let ?e = "mkfs_dirent n (fs_name a)"
  let ?F1 = "F(1 := F 1 @ ?e)" let ?F2 = "?F1(n := c)"
  have fs: "lay F n (host_files h (a # args)) = lay ?F2 (n + 1) ?fs" by (simp add: host_files_def c)
  have n: "n < NINODES" "1 < NINODES" "1 \<noteq> n" "n \<noteq> 1" using Cons.prems(4,5) by auto
  have fn: "F n = []" using Cons.prems(6) by simp
  have m2: "length (?F2 j) \<le> length (lay ?F2 (n + 1) ?fs j)" for j
    by (rule lay_mono) (use Cons.prems(4,6) in auto)
  have m1: "length (?F1 j) \<le> length (lay ?F2 (n + 1) ?fs j)" for j
    using m2 [of j] fn n by (cases "j = n") auto
  have room: "nmeta + card (needs G) \<le> FSSIZE" if "\<And>j. length (G j) \<le> length (lay ?F2 (n + 1) ?fs j)" for G
  proof -
    have "card (needs G) \<le> card (needs (lay ?F2 (n + 1) ?fs))" by (rule card_mono [OF finite_needs needs_mono]) (rule that)
    then show ?thesis using Cons.prems(8) [unfolded fs] by simp
  qed
  have size: "length (G j) \<le> MAXFILE * BSIZE" if "\<And>j. length (G j) \<le> length (lay ?F2 (n + 1) ?fs j)" for G j
    using that [of j] Cons.prems(7) [of j, unfolded fs] by simp
  let ?t1 = "tab(n := no_inode\<lparr>i_type := T_FILE, i_nlink := 1\<rparr>)"
  have "okP (ialloc_mkfs (nat T_FILE) s) (\<lambda>(inum, t). inum = n \<and> freeinode t = n + 1 \<and>
      built t (tab(inum := no_inode\<lparr>i_type := int (nat T_FILE), i_nlink := 1\<rparr>)) F)"
    using ialloc_ok [OF Cons.prems(1), of "nat T_FILE"] Cons.prems(3,6) n by (simp add: T_FILE_def)
  moreover have "int (nat T_FILE) = T_FILE" by (simp add: T_FILE_def)
  ultimately obtain s1 where 1: "ialloc_mkfs (nat T_FILE) s = Ok (n, s1)" "freeinode s1 = n + 1" "built s1 ?t1 F" by (auto simp: okP_iff)
  have "length (F 1) + length ?e \<le> MAXFILE * BSIZE" using size [OF m1, of 1] by simp
  from iappend_ok [OF 1(3) n(2) this room [OF m1]]
  obtain s2 ad where 2: "iappend 1 ?e s1 = Ok s2" "freeinode s2 = n + 1"
    and b2: "built s2 (?t1(1 := (?t1 1)\<lparr>i_addrs := ad, i_size := length (F 1) + length ?e\<rparr>)) ?F1" using 1(2) by (auto simp: okP_iff)
  let ?t2 = "?t1(1 := (?t1 1)\<lparr>i_addrs := ad, i_size := length (F 1) + length ?e\<rparr>)"
  have e2: "?F1(n := ?F1 n @ c) = ?F2" and l2: "length (?F1 n) + length c \<le> MAXFILE * BSIZE" using fn n size [OF m2, of n] by auto
  have r2: "nmeta + card (needs (?F1(n := ?F1 n @ c))) \<le> FSSIZE" unfolding e2 by (rule room [OF m2])
  from copy_file_ok [OF b2 n(1) l2 r2, unfolded e2]
  obtain s3 ad' where 3: "copy_file n c s2 = Ok s3" "freeinode s3 = n + 1"
    and b3: "built s3 (?t2(n := (?t2 n)\<lparr>i_addrs := ad', i_size := length (?F1 n) + length c\<rparr>)) ?F2" using 2(2) by (auto simp: okP_iff)
  let ?t3 = "?t2(n := (?t2 n)\<lparr>i_addrs := ad', i_size := length (?F1 n) + length c\<rparr>)"
  have p3: "args_ok h args" "1 < n + 1" "n + 1 + length args \<le> NINODES" using Cons.prems(2,4,5) by (simp_all add: args_ok_def)
  have q3: "?t3 j = no_inode \<and> ?F2 j = []" if "n + 1 \<le> j" for j using Cons.prems(6) [of j] that Cons.prems(4) by simp
  have I: "okP (mkfs_files h 1 args s3) (\<lambda>t. \<exists>tab'. built t tab' (lay ?F2 (n + 1) ?fs) \<and>
    (\<forall>j. kind (tab' j) = (if n + 1 \<le> j \<and> j < n + 1 + length args then (T_FILE, 1) else kind (?t3 j))))"
    by (rule Cons.IH [OF b3 p3(1) 3(2) p3(2,3)]) (assumption | rule q3 Cons.prems(7,8) [unfolded fs])+
  have k3: "kind (?t3 j) = (if j = n then (T_FILE, 1) else kind (tab j))" for j using n by (simp add: kind_def)
  have "okP (mkfs_files h 1 args s3) (\<lambda>t. \<exists>tab'. built t tab' (lay ?F2 (n + 1) ?fs) \<and>
    (\<forall>j. kind (tab' j) = (if n \<le> j \<and> j < n + length (a # args) then (T_FILE, 1) else kind (tab j))))"
  proof (rule okP_weaken [OF I], elim exE conjE)
    fix t tab' assume b: "built t tab' (lay ?F2 (n + 1) ?fs)"
      and k: "\<forall>j. kind (tab' j) = (if n + 1 \<le> j \<and> j < n + 1 + length args then (T_FILE, 1) else kind (?t3 j))"
    have "kind (tab' j) = (if n \<le> j \<and> j < n + length (a # args) then (T_FILE, 1) else kind (tab j))" for j
      using k [rule_format, of j] unfolding k3 by auto
    then show "\<exists>tab'. built t tab' (lay ?F2 (n + 1) ?fs) \<and>
      (\<forall>j. kind (tab' j) = (if n \<le> j \<and> j < n + length (a # args) then (T_FILE, 1) else kind (tab j)))"
      using b by blast
  qed
  then show ?case unfolding fs using c 1(1) 2(1) 3(1) by simp
qed

section \<open>The finished image\<close>

text \<open>The root directory before the files: its entries for itself and its parent.\<close>

definition root_only :: "nat \<Rightarrow> byte list" where
  "root_only = (\<lambda>_. [])(1 := mkfs_dirent 1 [46] @ mkfs_dirent 1 [46, 46])"

definition mkfs_image :: "mkfs_st \<Rightarrow> (nat \<Rightarrow> inode) \<Rightarrow> (nat \<Rightarrow> byte list) \<Rightarrow> bool" where
  "mkfs_image s tab F \<longleftrightarrow> stored s tab \<and> owner (dsk s) (slots (dsk s) tab) (needs F) F (freeblock s) \<and>
     dsk s 58 = fold bit_mark [0..<freeblock s] zeroes \<and>
     (\<forall>j < NINODES. i_size (tab j) = (if j = 1 then (length (F 1) div BSIZE + 1) * BSIZE else length (F j)))"

lemma length_mkfs_dirent [simp]: "length (mkfs_dirent n name) = DIRENT_SIZE"
  by (simp add: mkfs_dirent_def param_defs)

lemma format_built: "built mkfs_format (\<lambda>_. no_inode) (\<lambda>_. [])"
proof -
  note M = mkfs_format_ok
  have r: "inode_range no_inode" by (auto simp: inode_range_def no_inode_def short_ok_def)
  have z: "dec_dinode zeroes (ioff j) no_inode = no_inode" for j
  proof -
    have l: "ioff j + 64 \<le> BSIZE" using ioff_fits [of j] by (simp add: DINODE_SIZE_def)
    have g16: "get16 zeroes k = 0" if "k + 2 \<le> BSIZE" for k using that by (simp add: zeroes_def get16_def)
    have g32: "get32 zeroes k = 0" if "k + 4 \<le> BSIZE" for k unfolding zeroes_def using that by (rule get32_zeros)
    have "map (\<lambda>i. get32 zeroes (ioff j + 12 + 4 * i)) [0..<NDIRECT + 1] = replicate (NDIRECT + 1) 0"
      by (rule nth_equalityI) (use l g32 in \<open>auto simp: NDIRECT_def simp del: upt_Suc\<close>)
    then show ?thesis using l g16 g32 by (simp add: dec_dinode_def no_inode_def gets16_def sint16_def)
  qed
  have i: "dsk mkfs_format (IBLOCK j mkfs_sb) = zeroes" if "j < NINODES" for j
    using iblock_range [OF that] by (simp add: M(2))
  have "stored mkfs_format (\<lambda>_. no_inode)"
    using M(1,2) i z r by (simp add: stored_def disk_part_def) (simp add: no_inode_def)
  moreover have "slots (dsk mkfs_format) (\<lambda>_. no_inode) = (\<lambda>_ _. 0)"
    by (auto simp: slots_def slot_def blk_def no_inode_def fun_eq_iff nth_append nth_Cons')
  moreover have "needs (\<lambda>_. []) = {}" by (simp add: needs_def)
  moreover have "owner (dsk mkfs_format) (\<lambda>_ _. 0) {} (\<lambda>_. []) nmeta"
    by (rule ownerI) (auto simp: M(2) param_defs)
  ultimately show ?thesis by (simp add: built_def M(3) no_inode_def)
qed

lemma root_built:
  "okP (bnd (ialloc_mkfs (nat T_DIR) mkfs_format) (\<lambda>(rootino, s).
      if rootino \<noteq> ROOTINO then Panic ''assert''
      else bnd (iappend rootino (mkfs_dirent rootino [46]) s) (iappend rootino (mkfs_dirent rootino [46, 46]))))
    (\<lambda>t. \<exists>tab. built t tab root_only \<and> freeinode t = 2 \<and> kind (tab 1) = (T_DIR, 1) \<and> (\<forall>j \<ge> 2. tab j = no_inode))"
proof -
  let ?F0 = "\<lambda>_ :: nat. [] :: byte list" and ?t1 = "(\<lambda>_ :: nat. no_inode)(1 := no_inode\<lparr>i_type := T_DIR, i_nlink := 1\<rparr>)"
  let ?e1 = "mkfs_dirent 1 [46]" and ?e2 = "mkfs_dirent 1 [46, 46]"
  have n: "1 < NINODES" by (simp add: NINODES_def)
  have "okP (ialloc_mkfs (nat T_DIR) mkfs_format) (\<lambda>(inum, t). inum = 1 \<and> freeinode t = 2 \<and>
      built t ((\<lambda>_. no_inode)(inum := no_inode\<lparr>i_type := int (nat T_DIR), i_nlink := 1\<rparr>)) ?F0)"
    using ialloc_ok [OF format_built, of "nat T_DIR"] mkfs_format_ok(4) n by (simp add: T_DIR_def)
  then obtain s1 where 1: "ialloc_mkfs (nat T_DIR) mkfs_format = Ok (1, s1)" "freeinode s1 = 2" "built s1 ?t1 ?F0"
    by (auto simp: okP_iff T_DIR_def)
  have sz: "length xs \<le> MAXFILE * BSIZE \<and> nmeta + card (needs (?F0(1 := xs))) \<le> FSSIZE" if "length xs \<le> 32" for xs
  proof -
    have "k = 0" if "k * BSIZE < length xs" for k using that \<open>length xs \<le> 32\<close> by (cases k) (auto simp: BSIZE_def)
    moreover have "\<not> 12 * BSIZE < length xs" using that by (simp add: BSIZE_def)
    ultimately have "needs (?F0(1 := xs)) \<subseteq> {(1, 0)}" by (auto simp: needs_def NDIRECT_def split: if_splits)
    then have "card (needs (?F0(1 := xs))) \<le> card {(1 :: nat, 0 :: nat)}" by (rule card_mono [rotated]) simp
    then show ?thesis using that by (simp add: param_defs)
  qed
  have s1: "length (?F0 1) + length ?e1 \<le> MAXFILE * BSIZE" "nmeta + card (needs (?F0(1 := ?F0 1 @ ?e1))) \<le> FSSIZE"
    using sz [of ?e1] by (simp_all add: DIRENT_SIZE_def)
  from iappend_ok [OF 1(3) n s1] obtain s2 ad where 2: "iappend 1 ?e1 s1 = Ok s2" "freeinode s2 = 2"
    "built s2 (?t1(1 := (?t1 1)\<lparr>i_addrs := ad, i_size := length (?F0 1) + length ?e1\<rparr>)) (?F0(1 := ?F0 1 @ ?e1))"
    using 1(2) by (auto simp: okP_iff)
  let ?t2 = "?t1(1 := (?t1 1)\<lparr>i_addrs := ad, i_size := length (?F0 1) + length ?e1\<rparr>)" and ?F2 = "?F0(1 := ?F0 1 @ ?e1)"
  have F: "?F2(1 := ?F2 1 @ ?e2) = root_only" by (simp add: root_only_def)
  have s2: "length (?F2 1) + length ?e2 \<le> MAXFILE * BSIZE" "nmeta + card (needs (?F2(1 := ?F2 1 @ ?e2))) \<le> FSSIZE"
    using sz [of "?e1 @ ?e2"] by (simp_all add: DIRENT_SIZE_def)
  from iappend_ok [OF 2(3) n s2, unfolded F] obtain s3 ad' where 3: "iappend 1 ?e2 s2 = Ok s3" "freeinode s3 = 2"
    "built s3 (?t2(1 := (?t2 1)\<lparr>i_addrs := ad', i_size := length (?F2 1) + length ?e2\<rparr>)) root_only"
    using 2(2) by (auto simp: okP_iff)
  have "\<exists>tab. built s3 tab root_only \<and> freeinode s3 = 2 \<and> kind (tab 1) = (T_DIR, 1) \<and> (\<forall>j \<ge> 2. tab j = no_inode)"
    by (rule exI, rule conjI [OF 3(3)]) (use 3(2) in \<open>simp add: kind_def\<close>)
  then show ?thesis using 1(1) 2(1) 3(1) by (simp add: ROOTINO_def)
qed

lemma fix_root_ok:
  assumes s: "built s tab F"
  shows "okP (fix_root_size 1 s) (\<lambda>t. stored t (tab(1 := (tab 1)\<lparr>i_size := (length (F 1) div BSIZE + 1) * BSIZE\<rparr>)) \<and>
    owner (dsk t) (slots (dsk t) (tab(1 := (tab 1)\<lparr>i_size := (length (F 1) div BSIZE + 1) * BSIZE\<rparr>))) (needs F) F (freeblock t))"
proof -
  let ?n = "(length (F 1) div BSIZE + 1) * BSIZE" let ?ip = "(tab 1)\<lparr>i_size := ?n\<rparr>"
  have n: "1 < NINODES" by (simp add: NINODES_def)
  note D = builtD [OF s]
  have "length (F 1) div BSIZE * BSIZE \<le> length (F 1)" "?n = length (F 1) div BSIZE * BSIZE + BSIZE"
    by (simp_all add: add_mult_distrib)
  then have "?n \<le> MAXFILE * BSIZE + BSIZE" using contents_fit [OF D(2), of 1] by linarith
  then have m: "?n < 2 ^ 32" by (simp add: param_defs)
  have m': "length (F 1) < 2 ^ 32" using contents_fit [OF D(2), of 1] by (simp add: param_defs)
  have sl: "slots (dsk s) (tab(1 := ?ip)) = slots (dsk s) tab" by (auto simp: slots_def slot_def blk_def fun_eq_iff)
  have x: "xint (i_size (tab 1)) = length (F 1)" "xint ?n = ?n" using D(5) [OF n] m m' by simp_all
  have "okP (winode 1 ?ip s) (\<lambda>u. stored u (tab(1 := ?ip)) \<and>
      owner (dsk u) (slots (dsk u) (tab(1 := ?ip))) (needs F) F (freeblock u) \<and> freeinode u = freeinode s)"
    by (rule winode_stored [OF D(7,1) refl _ n]) (use D(2) sl D(3,4) [OF n] m in \<open>auto simp: inode_range_def disk_part_def\<close>)
  then show ?thesis unfolding fix_root_size_def rinode_ok [OF D(7) n] bnd.simps Let_def x by (elim okP_weaken) simp
qed

lemma balloc_image:
  assumes s: "stored s tab" and o: "owner (dsk s) (slots (dsk s) tab) (needs F) F (freeblock s)"
  shows "okP (balloc_mkfs (freeblock s) s) (\<lambda>t. stored t tab \<and> owner (dsk t) (slots (dsk t) tab) (needs F) F (freeblock t) \<and>
    dsk t 58 = fold bit_mark [0..<freeblock t] zeroes)"
proof -
  let ?d = "fold bit_mark [0..<freeblock s] zeroes" and ?t = "wsect 58 (fold bit_mark [0..<freeblock s] zeroes) s"
  note O = ownerD [OF o]
  have "length (fold bit_mark is d) = length d" for "is" d by (induction "is" arbitrary: d) simp_all
  then have l: "length ?d = BSIZE" "58 < FSSIZE" "58 < nmeta" by (simp_all add: zeroes_def param_defs)
  note W = wsect_ok [OF storedD(1) [OF s] l(2,1)]
  have "IBLOCK j mkfs_sb \<noteq> 58" if "j < NINODES" for j using iblock_range [OF that] by simp
  then have st: "stored ?t tab" using s W by (auto simp: stored_def)
  have sl: "slots ((dsk s)(58 := ?d)) tab = slots (dsk s) tab"
    by (rule slots_other) (use O(5) l(3) in fastforce)
  have ow: "owner ((dsk s)(58 := ?d)) (slots (dsk s) tab) (needs F) F (freeblock s)"
    by (rule owner_write [OF o]) (use O(5,6) l(3) in \<open>fastforce+\<close>)
  have "freeblock s < BSIZE * 8" "sb_bmapstart (mk_sb s) = 58"
    using O(7) storedD(1) [OF s] by (simp_all add: param_defs sized_def mkfs_sb_eq)
  then show ?thesis using st sl ow W by (simp add: balloc_mkfs_def)
qed

section \<open>When the files fit\<close>

text \<open>The blocks a file of \<open>n\<close> bytes takes, its indirect block included.\<close>

definition cost :: "nat \<Rightarrow> nat" where
  "cost n = (n + BSIZE - 1) div BSIZE + (if NDIRECT * BSIZE < n then 1 else 0)"

definition mkfs_fits :: "host \<Rightarrow> byte list list \<Rightarrow> bool" where
  "mkfs_fits h args \<longleftrightarrow> args_ok h args \<and> 2 + length args \<le> NINODES \<and>
     (\<forall>a \<in> set args. length (the (host_file h a)) \<le> MAXFILE * BSIZE) \<and>
     cost (DIRENT_SIZE * (2 + length args)) + (\<Sum>a \<leftarrow> args. cost (length (the (host_file h a)))) \<le> nblocks"

lemma cost_0 [simp]: "cost 0 = 0"
  by (simp add: cost_def BSIZE_def)

lemma card_needs: "card (needs F) \<le> (\<Sum>i < NINODES. cost (length (F i)))"
proof -
  let ?K = "\<lambda>n. {k. k < MAXFILE \<and> k * BSIZE < n \<or> k = MAXFILE \<and> NDIRECT * BSIZE < n}"
  have "card (?K n) \<le> cost n" for n
  proof -
    have "k < (n + BSIZE - 1) div BSIZE" if "k * BSIZE < n" for k
    proof -
      have "(k + 1) * BSIZE \<le> n + BSIZE - 1" using that by (simp add: add_mult_distrib)
      then have "k + 1 \<le> (n + BSIZE - 1) div BSIZE" by (simp add: less_eq_div_iff_mult_less_eq BSIZE_def)
      then show ?thesis by simp
    qed
    then have "?K n \<subseteq> {..<(n + BSIZE - 1) div BSIZE} \<union> (if NDIRECT * BSIZE < n then {MAXFILE} else {})" by auto
    then have "card (?K n) \<le> card ({..<(n + BSIZE - 1) div BSIZE} \<union> (if NDIRECT * BSIZE < n then {MAXFILE} else {}))"
      by (rule card_mono [rotated]) simp
    also have "\<dots> \<le> cost n" by (rule order_trans [OF card_Un_le]) (simp add: cost_def)
    finally show ?thesis .
  qed
  moreover have "needs F = (SIGMA i : {..<NINODES}. ?K (length (F i)))" by (auto simp: needs_def)
  ultimately show ?thesis by (simp add: card_SigmaI sum_mono)
qed

lemma lay_eq:
  assumes "1 < n"
  shows "lay F n fs j =
    (if j = 1 then F 1 @ concat (map (\<lambda>k. mkfs_dirent (n + k) (fst (fs ! k))) [0..<length fs])
     else if n \<le> j \<and> j < n + length fs then snd (fs ! (j - n)) else F j)"
  using assms
proof (induction fs arbitrary: F n)
  case (Cons f fs)
  obtain name c where f: "f = (name, c)" by (cases f)
  have u: "[0..<length (f # fs)] = 0 # map Suc [0..<length fs]" by (simp add: upt_conv_Cons map_Suc_upt del: upt_Suc)
  have "concat (map (\<lambda>k. mkfs_dirent (n + 1 + k) (fst (fs ! k))) [0..<length fs])
    = concat (map (\<lambda>k. mkfs_dirent (n + k) (fst ((f # fs) ! k))) (map Suc [0..<length fs]))" by (simp add: comp_def One_nat_def)
  moreover have "snd (fs ! (j - (n + 1))) = snd ((f # fs) ! (j - n))" if "n + 1 \<le> j"
    using that by (simp add: nth_Cons' diff_diff_left)
  ultimately show ?case using Cons.prems Cons.IH [of "n + 1"] unfolding u by (auto simp: f)
qed simp

lemma length_concat_dirent: "length (concat (map (\<lambda>k. mkfs_dirent (f k) (g k)) ks)) = DIRENT_SIZE * length ks"
  by (induction ks) simp_all

lemma lay_root:
  fixes fs :: "(byte list \<times> byte list) list"
  shows "length (lay root_only 2 fs 1) = DIRENT_SIZE * (2 + length fs)"
    "k < length fs \<Longrightarrow> lay root_only 2 fs (2 + k) = snd (fs ! k)"
    "j = 0 \<or> 2 + length fs \<le> j \<Longrightarrow> lay root_only 2 fs j = []"
  by (auto simp: lay_eq root_only_def length_concat_dirent)

lemma lay_cost:
  assumes "2 + length fs \<le> NINODES"
  shows "(\<Sum>i < NINODES. cost (length (lay root_only 2 fs i))) =
    cost (DIRENT_SIZE * (2 + length fs)) + (\<Sum>f \<leftarrow> fs. cost (length (snd f)))"
proof -
  let ?c = "\<lambda>i. cost (length (lay root_only 2 fs i))" and ?m = "length fs"
  have z: "lay root_only 2 fs i = []" if "i \<notin> {1} \<union> {2..<2 + ?m}" for i by (rule lay_root(3)) (use that in auto)
  have "sum ?c {..<NINODES} = sum ?c ({1} \<union> {2..<2 + ?m})"
    by (rule sum.mono_neutral_right) (use assms z in auto)
  also have "\<dots> = ?c 1 + sum ?c {2..<2 + ?m}" by simp
  also have "sum ?c {2..<2 + ?m} = (\<Sum>k = 0..<?m. ?c (2 + k))"
    by (rule sum.reindex_bij_witness [of _ "\<lambda>k. 2 + k" "\<lambda>j. j - 2"]) (auto simp del: add_2_eq_Suc add_2_eq_Suc')
  also have "\<dots> = (\<Sum>f \<leftarrow> fs. cost (length (snd f)))"
    unfolding sum_list_sum_nth length_map by (rule sum.cong) (simp_all add: lay_root(2) del: add_2_eq_Suc add_2_eq_Suc')
  finally show ?thesis by (simp add: lay_root(1))
qed

lemma mkfs_main_image:
  assumes a: "2 \<le> length argv" "host_create h (argv ! 1)" and f: "mkfs_fits h (drop 2 argv)"
  shows "okP (mkfs_main h argv) (\<lambda>t. \<exists>tab. mkfs_image t tab (lay root_only 2 (host_files h (drop 2 argv))) \<and>
    kind (tab 1) = (T_DIR, 1) \<and> (\<forall>j. 2 \<le> j \<and> j < length argv \<longrightarrow> kind (tab j) = (T_FILE, 1)))"
proof -
  let ?args = "drop 2 argv" let ?fs = "host_files h ?args" let ?F = "lay root_only 2 ?fs"
  have F: "args_ok h ?args" "2 + length ?args \<le> NINODES" "\<And>x. x \<in> set ?args \<Longrightarrow> length (the (host_file h x)) \<le> MAXFILE * BSIZE"
    "cost (DIRENT_SIZE * (2 + length ?args)) + (\<Sum>x \<leftarrow> ?args. cost (length (the (host_file h x)))) \<le> nblocks"
    using f by (auto simp: mkfs_fits_def)
  have lf: "length ?fs = length ?args" by (simp add: host_files_def)
  have "(\<Sum>i < NINODES. cost (length (?F i))) \<le> nblocks"
    using lay_cost [of ?fs] F(2,4) lf by (simp add: host_files_def comp_def)
  then have room: "nmeta + card (needs ?F) \<le> FSSIZE" using card_needs [of ?F] by (simp add: nblocks_def nmeta_def param_defs)
  have size: "length (?F j) \<le> MAXFILE * BSIZE" for j
  proof -
    consider "j = 1" | k where "j = 2 + k" "k < length ?fs" | "j = 0 \<or> 2 + length ?fs \<le> j"
      by (metis One_nat_def add_diff_inverse_nat less_2_cases not_less nat_add_left_cancel_less)
    then show ?thesis
    proof cases
      case 1
      have "DIRENT_SIZE * (2 + length ?fs) \<le> DIRENT_SIZE * NINODES" by (rule mult_le_mono2) (use F(2) lf in simp)
      then show ?thesis using 1 lay_root(1) [of ?fs] by (simp add: param_defs)
    next
      case 2
      then have "?F j = the (host_file h (?args ! k))"
        using lay_root(2) [OF 2(2)] lf by (simp add: host_files_def del: add_2_eq_Suc nth_drop)
      then show ?thesis using F(3) [OF nth_mem [of k ?args]] 2(2) lf by (simp only:)
    next
      case 3
      then show ?thesis using lay_root(3) by simp
    qed
  qed
  obtain s1 tab where 1: "bnd (ialloc_mkfs (nat T_DIR) mkfs_format) (\<lambda>(rootino, s).
      if rootino \<noteq> ROOTINO then Panic ''assert''
      else bnd (iappend rootino (mkfs_dirent rootino [46]) s) (iappend rootino (mkfs_dirent rootino [46, 46]))) = Ok s1"
    "built s1 tab root_only" "freeinode s1 = 2" "kind (tab 1) = (T_DIR, 1)" "\<And>j. 2 \<le> j \<Longrightarrow> tab j = no_inode"
    using root_built by (auto simp: okP_iff)
  have fresh: "tab j = no_inode \<and> root_only j = []" if "2 \<le> j" for j using 1(5) that by (auto simp: root_only_def)
  obtain s2 tab' where 2: "mkfs_files h 1 ?args s1 = Ok s2" "built s2 tab' ?F"
    "\<And>j. kind (tab' j) = (if 2 \<le> j \<and> j < 2 + length ?args then (T_FILE, 1) else kind (tab j))"
    using mkfs_files_ok [OF 1(2) F(1) 1(3) _ F(2) fresh size room] by (auto simp: okP_iff)
  obtain s3 where 3: "fix_root_size 1 s2 = Ok s3" "stored s3 (tab'(1 := (tab' 1)\<lparr>i_size := (length (?F 1) div BSIZE + 1) * BSIZE\<rparr>))"
    "owner (dsk s3) (slots (dsk s3) (tab'(1 := (tab' 1)\<lparr>i_size := (length (?F 1) div BSIZE + 1) * BSIZE\<rparr>))) (needs ?F) ?F (freeblock s3)"
    using fix_root_ok [OF 2(2)] by (auto simp: okP_iff)
  let ?tab = "tab'(1 := (tab' 1)\<lparr>i_size := (length (?F 1) div BSIZE + 1) * BSIZE\<rparr>)"
  obtain t where 4: "balloc_mkfs (freeblock s3) s3 = Ok t" "stored t ?tab" "owner (dsk t) (slots (dsk t) ?tab) (needs ?F) ?F (freeblock t)"
    "dsk t 58 = fold bit_mark [0..<freeblock t] zeroes"
    using balloc_image [OF 3(2,3)] by (auto simp: okP_iff)
  have "mkfs_image t ?tab ?F" using 4(2-4) builtD(5) [OF 2(2)] by (simp add: mkfs_image_def)
  moreover have "kind (?tab 1) = (T_DIR, 1)" "\<And>j. 2 \<le> j \<Longrightarrow> j < length argv \<Longrightarrow> kind (?tab j) = (T_FILE, 1)"
    using 2(3) 1(4) by (auto simp: kind_def)
  moreover have "mkfs_main h argv = Ok t"
  proof -
    have "\<not> length argv < 2" "\<not> (BSIZE mod DINODE_SIZE \<noteq> 0 \<or> BSIZE mod DIRENT_SIZE \<noteq> 0)" using a(1) by (simp_all add: param_defs)
    then show ?thesis using 1(1) 2(1) 3(1) 4(1) a(2)
      by (auto simp: mkfs_main_def ROOTINO_def bnd_eq_Ok split: if_splits)
  qed
  ultimately show ?thesis by auto
qed

end
