(* ===== verification/Mount.thy ===== *)
theory Mount
  imports Mkfs
begin

text \<open>
  The kernel on an image of \<^verbatim>\<open>mkfs\<close>. A kernel state \<open>sees\<close> an image when its file
  system layers are consistent and the blocks they show are those of the image. The layout, the inodes
  and the contents the kernel finds are those \<^verbatim>\<open>mkfs\<close> put there; \<^verbatim>\<open>namei\<close> of a
  file's path finds its inode and \<^verbatim>\<open>readi\<close> returns its bytes.
\<close>

section \<open>What the kernel finds on the disk\<close>

definition sees :: "mkfs_st \<Rightarrow> 'a fs_st_scheme \<Rightarrow> bool" where
  "sees m s \<longleftrightarrow> tx_inv s \<and> held s = {} \<and> ldisk s = dsk m \<and> fsb s = dec_sb (dsk m 1) \<and> log_start s = 2 \<and>
     log_size s = LOGSIZE \<and> disksize s = FSSIZE"

lemma sees_upd [simp]: "sees m (upd_inode i f s) = sees m s"
  by (simp add: sees_def)

lemma sees_same:
  fixes s :: "'a fs_st_scheme"
  assumes "sees m s" "tx_inv t" "cache_eq s t" "owns t = owns s"
  shows "sees m t"
proof -
  have "fs_same s t" "ldisk t = ldisk s" "held t = held s" using cache_eqD(3,12) [OF assms(3)] assms(4) by (simp_all add: held_def)
  then show ?thesis using assms(1,2) unfolding sees_def fs_same_def by metis
qed

lemma bitmap_fold:
  assumes "n \<le> BPB" "b < BPB"
  shows "bit_free (fold bit_mark [0..<n] zeroes) b \<longleftrightarrow> n \<le> b"
  using assms(1)
proof (induction n)
  case 0
  then show ?case using assms(2) by (simp add: bit_free_def zeroes_def param_defs)
next
  case (Suc n)
  have "length (fold bit_mark [0..<n] zeroes) = BSIZE" by (induction n) (simp_all add: zeroes_def)
  then show ?case using Suc assms(2) bit_free_mark(1) [of n "fold bit_mark [0..<n] zeroes" b] by (auto simp: BPB_def)
qed

lemma image_used:
  assumes "mkfs_image m tab F" "sees m s" "b < FSSIZE"
  shows "used s b \<longleftrightarrow> b < freeblock m"
proof -
  have f: "fsb s = mkfs_sb" using assms(1,2) dec_enc_sb [of zeroes]
    by (simp add: sees_def mkfs_image_def stored_def zeroes_def BSIZE_def)
  have b: "BBLOCK b (fsb s) = 58" "b mod BPB = b" "b < BPB" using assms(3) by (simp_all add: f BBLOCK_def mkfs_sb_eq param_defs)
  have "freeblock m \<le> BPB" using assms(1) ownerD(7) [of "dsk m"] by (fastforce simp: mkfs_image_def param_defs)
  note bm = bitmap_fold [OF this b(3)]
  have "ldisk s 58 = fold bit_mark [0..<freeblock m] zeroes" using assms(1,2) by (simp add: sees_def mkfs_image_def)
  then show ?thesis unfolding used_def b using bm by auto
qed

lemma image_layout:
  assumes "mkfs_image m tab F" "sees m s"
  shows "fs_layout s" "fsb s = mkfs_sb"
proof -
  show f: "fsb s = mkfs_sb" using assms dec_enc_sb [of zeroes]
    by (simp add: sees_def mkfs_image_def stored_def zeroes_def BSIZE_def)
  have "nmeta \<le> freeblock m" using assms(1) ownerD(6) [of "dsk m"] by (fastforce simp: mkfs_image_def)
  then have "used s b" if "b < nmeta" for b using image_used [OF assms, of b] that by (simp add: param_defs)
  moreover have "dec_sb (ldisk s 1) = fsb s" "log_start s = 2" "log_size s = LOGSIZE" "disksize s = FSSIZE"
    using assms(2) by (simp_all add: sees_def)
  ultimately show "fs_layout s" unfolding f
    by (simp add: fs_layout_def f mkfs_sb_eq data_start_def param_defs)
qed

text \<open>An inode in memory whose block addresses are those of inode \<open>j\<close> on disk.\<close>

lemma image_file:
  assumes im: "mkfs_image m tab F" and s: "sees m s" and j: "j < NINODES" and ip: "i_addrs ip = i_addrs (tab j)" "i_dev ip = 1"
  shows "inode_wf s ip" "mapped (ldisk s) ip (length (F j))" "x < length (F j) \<Longrightarrow> file_byte (ldisk s) ip x = F j ! x"
proof -
  let ?A = "slots (dsk m) tab"
  have o: "owner (dsk m) ?A (needs F) F (freeblock m)" and st: "stored m tab" using im by (simp_all add: mkfs_image_def)
  note O = ownerD [OF o]
  have l: "ldisk s = dsk m" using s by (simp add: sees_def)
  have M: "NDIRECT < MAXFILE" by (simp add: param_defs)
  have b: "blk (ldisk s) ip k = ?A j k" if "k < MAXFILE" for k
    using that j ip(1) l by (simp add: slots_def slot_def blk_def)
  have p: "i_addrs ip ! NDIRECT = ?A j MAXFILE" using j ip(1) by (simp add: slots_def slot_def)
  have db: "data_blk s (?A j k)" if "?A j k \<noteq> 0" for k
    using O(5) [OF that] O(10) [of j k] image_used [OF im s, of "?A j k"] image_layout(2) [OF im s]
    by (simp add: data_blk_def data_start_def mkfs_sb_eq param_defs)
  have len: "length (i_addrs ip) = NDIRECT + 1" using storedD(5) [OF st j] ip by simp
  have ne: "?A j k \<noteq> ?A j MAXFILE" if "k < MAXFILE" "?A j k \<noteq> 0" for k
  proof
    assume "?A j k = ?A j MAXFILE"
    from O(4) [OF that(2) this] that(1) show False by simp
  qed
  have inj: "k = k'" if "blk (ldisk s) ip k = blk (ldisk s) ip k' \<and> blk (ldisk s) ip k \<noteq> 0" "k < MAXFILE" "k' < MAXFILE" for k k'
  proof -
    have "?A j k \<noteq> 0" "?A j k = ?A j k'" using that b by simp_all
    from O(4) [OF this] show ?thesis by simp
  qed
  have dn: "data_blk s (blk (ldisk s) ip k) \<and> blk (ldisk s) ip k \<noteq> ?A j MAXFILE" if "blk (ldisk s) ip k \<noteq> 0" "k < MAXFILE" for k
    using that db ne by (simp add: b)
  show "inode_wf s ip" unfolding inode_wf_def p
    by (intro conjI allI impI len ip(2)) (erule db, erule (1) dn [THEN conjunct1], erule (1) dn [THEN conjunct2], erule (2) inj)
  have nz: "?A j k \<noteq> 0" if "k * BSIZE < length (F j)" for k
    using O(9) [OF that] O(3) by (simp add: BSIZE_def)
  have k: "k < MAXFILE" if "k * BSIZE < length (F j)" for k using O(9) [OF that] by (simp add: BSIZE_def)
  show "mapped (ldisk s) ip (length (F j))" using nz k b contents_fit [OF o] by (simp add: mapped_def)
  show "file_byte (ldisk s) ip x = F j ! x" if "x < length (F j)"
    using O(9) [OF that] O(3) [of j "x div BSIZE"] b [of "x div BSIZE"] l by (simp add: file_byte_def)
qed

section \<open>Locking an inode\<close>

text \<open>A cached inode after its first lock: the fields of the inode on disk, valid and locked.\<close>

definition fetched :: "inode \<Rightarrow> sleeplock \<Rightarrow> inode \<Rightarrow> inode" where
  "fetched d lk ip = ip\<lparr>i_lock := lk, i_type := i_type d, i_major := i_major d, i_minor := i_minor d,
     i_nlink := i_nlink d, i_size := i_size d, i_addrs := i_addrs d, i_valid := True\<rparr>"

lemma ilock_fetches:
  fixes s :: "'a fs_st_scheme"
  assumes im: "mkfs_image m tab F" and s: "sees m s" and j: "j < NINODES" "i_type (tab j) \<noteq> 0"
    and ip: "i < length (icache s)" "ip = icache s ! i" "0 < i_ref ip" "\<not> sl_locked (i_lock ip)" "\<not> i_valid ip" "i_dev ip = 1" "i_inum ip = j"
  shows "okP (ilock i s) (\<lambda>t. sees m t \<and> mypid t = mypid s \<and>
    icache t = (icache s)[i := fetched (tab j) \<lparr>sl_locked = True, sl_pid = mypid s\<rparr> ip])"
proof -
  let ?lk = "\<lparr>sl_locked = True, sl_pid = mypid s\<rparr>" and ?b = "IBLOCK j mkfs_sb"
  let ?s = "upd_inode i (\<lambda>ip. ip\<lparr>i_lock := ?lk\<rparr>) s" and ?Q = "\<lambda>t. sees m t \<and> mypid t = mypid s \<and>
    icache t = (icache s)[i := fetched (tab j) \<lparr>sl_locked = True, sl_pid = mypid s\<rparr> ip]"
  have S: "tx_inv ?s" "held ?s = {}" "ldisk ?s = dsk m" "fsb ?s = mkfs_sb" "log_start ?s = 2" "log_size ?s = LOGSIZE" "disksize ?s = FSSIZE"
    "sees m ?s" using s image_layout(2) [OF im s] by (simp_all add: sees_def)
  have st: "stored m tab" using im by (simp add: mkfs_image_def)
  have b: "?b < disksize ?s" "?b \<notin> log_area ?s" using iblock_range [OF j(1)] S by (simp_all add: log_area_def param_defs)
  have lk: "acquiresleep (mypid s) (i_lock ip) = Ok ?lk" using ip(4) by (simp add: acquiresleep_def)
  have dec: "dec_dinode (dsk m ?b) (ioff j) (ip\<lparr>i_lock := ?lk\<rparr>)\<lparr>i_valid := True\<rparr> = fetched (tab j) ?lk ip"
    using storedD(2) [OF st j(1), symmetric] by (simp add: fetched_def dec_dinode_def)
  have "okP (bnd (bread 1 ?b ?s) (\<lambda>(bp, s). bnd (brelse bp (upd_inode i (dec_dinode (bdata bp s) (ioff j)) s)) (\<lambda>s.
      let s = upd_inode i (\<lambda>ip. ip\<lparr>i_valid := True\<rparr>) s in
      if i_type (icache s ! i) = 0 then Panic ''ilock: no type'' else Ok s))) ?Q"
  proof (rule tx.get_rule, goal_cases)
    case (5 bp t)
    let ?t = "upd_inode i (dec_dinode (bdata bp t) (ioff j)) t"
    have t: "tx_inv ?t" "owns ?t bp ?b" "bio_synced ?t ?b" using 5 by (simp_all add: bio_synced_def)
    show ?case
    proof (rule tx.release_rule [OF t])
      fix u assume u: "tx_inv u" "tx_obs u = tx_obs ?t" "ldisk u = ldisk ?t" "dirtyb u = dirtyb ?t"
        "\<And>k c. owns u k c \<longleftrightarrow> owns ?t k c \<and> k \<noteq> bp"
      have "icache u = (icache ?s)[i := dec_dinode (dsk m ?b) (ioff j) (ip\<lparr>i_lock := ?lk\<rparr>)]"
        using tx_more [OF u(2)] tx_more [OF 5(2)] 5(8) S(3) ip(1,2) by simp
      moreover have "owns u k c = owns s k c" for k c using u(5) 5(5,9) by auto
      moreover have "fs_same s u" using fs_same_tx [OF u(2)] fs_same_tx [OF 5(2)] by (auto simp: fs_same_def)
      moreover have "ldisk u = dsk m" using u(3) 5(3) S(3) by simp
      ultimately show "okP (let s = upd_inode i (\<lambda>ip. ip\<lparr>i_valid := True\<rparr>) u in
          if i_type (icache s ! i) = 0 then Panic ''ilock: no type'' else Ok s) ?Q"
        using ip(1) dec j(2) s u(1) by (simp add: Let_def sees_def fs_same_def) (simp add: fetched_def)
    qed
  qed (use S b dirty_room [OF S(1,2)] in auto)
  then show ?thesis using ip lk S(4) by (simp add: ilock_def Let_def)
qed

section \<open>Names and directory entries\<close>

lemma name_of_list:
  "0 \<notin> set xs \<Longrightarrow> (\<And>i. i < n \<Longrightarrow> i < length xs \<Longrightarrow> p i = xs ! i) \<Longrightarrow> (length xs < n \<Longrightarrow> p (length xs) = 0) \<Longrightarrow>
   name_of p n = take n xs"
proof (induction n arbitrary: p xs)
  case (Suc n)
  show ?case
  proof (cases xs)
    case (Cons x ys)
    have "name_of (\<lambda>i. p (i + 1)) n = take n ys"
      by (rule Suc.IH) (use Suc.prems(1) Suc.prems(2) [of "_ + 1"] Suc.prems(3) Cons in \<open>auto simp: One_nat_def\<close>)
    then show ?thesis using Suc.prems(1) Suc.prems(2) [of 0] Cons by auto
  qed (use Suc.prems(3) in simp)
qed simp

text \<open>The name buffer of a path of one element.\<close>

lemma skipelem_root:
  assumes "name \<noteq> []" "0 \<notin> set name" "47 \<notin> set name" "length buf = DIRSIZ"
  shows "\<exists>nb. skipelem (47 # name) buf = Some ([], nb) \<and> name_of (\<lambda>i. nb ! i) DIRSIZ = take DIRSIZ name"
proof -
  let ?nb = "if length name \<ge> DIRSIZ then mem_put buf 0 (take DIRSIZ name) else (mem_put buf 0 name)[length name := 0]"
  have "hd name \<noteq> 47" using assms(1,3) hd_in_set [of name] by metis
  then have d: "dropWhile (\<lambda>c. c = 47) name = name" using assms(1) by (cases name) auto
  have w: "takeWhile (\<lambda>c. c \<noteq> 47) name = name" "dropWhile (\<lambda>c. c \<noteq> 47) name = []"
    using assms(3) by (auto simp: takeWhile_eq_all_conv dropWhile_eq_Nil_conv)
  have "skipelem (47 # name) buf = Some ([], ?nb)" using assms(1) by (simp add: skipelem_def Let_def d w)
  moreover have "name_of (\<lambda>i. ?nb ! i) DIRSIZ = take DIRSIZ name"
    by (rule name_of_list [OF assms(2)]) (use assms(4) in \<open>auto simp: nth_mem_put nth_list_update\<close>)
  ultimately show ?thesis by blast
qed

lemma mkfs_dirent_fields:
  assumes "0 \<notin> set name" "n < 2 ^ 16"
  shows "de_inum (mkfs_dirent n name) = n" "name_of (de_name (mkfs_dirent n name)) DIRSIZ = take DIRSIZ name"
proof -
  let ?d = "put16 0 (xshort n) (replicate DIRENT_SIZE 0)"
  have x: "xshort n = n" using assms(2) by (simp add: xshort_mod)
  have l: "2 + length (take DIRSIZ name) \<le> length ?d" by (simp add: param_defs)
  have "mkfs_dirent n name ! 0 = ?d ! 0" "mkfs_dirent n name ! 1 = ?d ! 1"
    unfolding mkfs_dirent_def using l by (simp_all add: nth_mem_put DIRENT_SIZE_def)
  then have "get16 (mkfs_dirent n name) 0 = get16 ?d 0" by (simp add: get16_def)
  then show "de_inum (mkfs_dirent n name) = n"
    using assms(2) by (simp add: de_inum_def get16_put16_same DIRENT_SIZE_def x)
  have z: "?d ! (2 + i) = 0" if "i < DIRSIZ" for i using that by (simp add: put16_def param_defs nth_list_update)
  show "name_of (de_name (mkfs_dirent n name)) DIRSIZ = take DIRSIZ name"
  proof (rule name_of_list [OF assms(1)])
    show "de_name (mkfs_dirent n name) i = name ! i" if "i < DIRSIZ" "i < length name" for i
      using that l unfolding mkfs_dirent_def de_name_def by (subst nth_mem_put) (auto simp: param_defs)
    show "de_name (mkfs_dirent n name) (length name) = 0" if "length name < DIRSIZ"
      using that l z [OF that] unfolding mkfs_dirent_def de_name_def by (subst nth_mem_put) (auto simp: param_defs)
  qed
qed

text \<open>The entries of the root directory.\<close>

definition root_entries :: "(byte list \<times> byte list) list \<Rightarrow> byte list list" where
  "root_entries fs = mkfs_dirent 1 [46] # mkfs_dirent 1 [46, 46] #
     map (\<lambda>k. mkfs_dirent (2 + k) (fst (fs ! k))) [0..<length fs]"

lemma root_contents: "lay root_only 2 fs 1 = concat (root_entries fs)"
  by (simp add: lay_eq root_only_def root_entries_def)

lemma nth_chunk:
  "(\<And>x. x \<in> set xs \<Longrightarrow> length x = L) \<Longrightarrow> e < length xs \<Longrightarrow> take L (drop (e * L) (concat xs)) = xs ! e"
proof (induction xs arbitrary: e)
  case (Cons x xs)
  then show ?case by (cases e) auto
qed simp

lemma root_entry:
  assumes "e < 2 + length fs"
  shows "map (\<lambda>x. lay root_only 2 fs 1 ! x) [e * DIRENT_SIZE..<e * DIRENT_SIZE + DIRENT_SIZE] = root_entries fs ! e"
    "e * DIRENT_SIZE + DIRENT_SIZE \<le> length (lay root_only 2 fs 1)"
proof -
  let ?L = "lay root_only 2 fs 1"
  have "(e + 1) * DIRENT_SIZE \<le> (2 + length fs) * DIRENT_SIZE" by (rule mult_le_mono1) (use assms in simp)
  then show l: "e * DIRENT_SIZE + DIRENT_SIZE \<le> length ?L" using lay_root(1) [of fs] by (simp add: algebra_simps)
  have "take DIRENT_SIZE (drop (e * DIRENT_SIZE) (concat (root_entries fs))) = root_entries fs ! e"
    by (rule nth_chunk) (use assms in \<open>auto simp: root_entries_def\<close>)
  moreover have "map (\<lambda>x. ?L ! x) [e * DIRENT_SIZE..<e * DIRENT_SIZE + DIRENT_SIZE] = take DIRENT_SIZE (drop (e * DIRENT_SIZE) ?L)"
    by (rule nth_equalityI) (use l in auto)
  ultimately show "map (\<lambda>x. ?L ! x) [e * DIRENT_SIZE..<e * DIRENT_SIZE + DIRENT_SIZE] = root_entries fs ! e"
    by (simp add: root_contents)
qed

section \<open>Looking up a name\<close>

lemma root_read:
  fixes s :: "'a fs_st_scheme"
  assumes im: "mkfs_image m tab F" and F: "F = lay root_only 2 fs" and s: "sees m s"
    and ip: "ip = icache s ! dp" "i_addrs ip = i_addrs (tab 1)" "i_dev ip = 1" "i_size ip = i_size (tab 1)" "i_type ip = T_DIR"
    and e: "e < 2 + length fs"
  shows "\<exists>t. readi dv dp (e * DIRENT_SIZE) DIRENT_SIZE s = Ok ((int DIRENT_SIZE, root_entries fs ! e), t) \<and>
    sees m t \<and> icache t = icache s \<and> mypid t = mypid s"
proof -
  let ?off = "e * DIRENT_SIZE" let ?n = "length (F 1)"
  have n1: "1 < NINODES" by (simp add: NINODES_def)
  have S: "tx_inv s" "held s = {}" using s by (simp_all add: sees_def)
  note I = image_file [OF im s n1 ip(2,3)]
  have l: "?off + DIRENT_SIZE \<le> ?n" using root_entry(2) [OF e] F by simp
  have "?n div BSIZE * BSIZE + ?n mod BSIZE = ?n" "?n mod BSIZE < BSIZE" by (simp_all add: BSIZE_def)
  moreover have "i_size ip = ?n div BSIZE * BSIZE + BSIZE" using im n1 ip(4) by (simp add: mkfs_image_def add_mult_distrib)
  ultimately have sz: "?n \<le> i_size ip" by linarith
  have M: "?n \<le> MAXFILE * BSIZE" using I(2) by (simp add: mapped_def)
  have k: "min DIRENT_SIZE (i_size ip - ?off) = DIRENT_SIZE" "?off \<le> i_size ip" "?off + DIRENT_SIZE < 2 ^ 32"
    using l sz M by (auto simp: param_defs)
  have "map (file_byte (ldisk s) ip) [?off..<?off + DIRENT_SIZE] = map ((!) (F 1)) [?off..<?off + DIRENT_SIZE]"
    using I(3) l by (intro map_cong) auto
  also have "\<dots> = root_entries fs ! e" using root_entry(1) [OF e] F by simp
  finally have bytes: "map (file_byte (ldisk s) ip) [?off..<?off + DIRENT_SIZE] = root_entries fs ! e" .
  have "okP (readi dv dp ?off DIRENT_SIZE s) (\<lambda>((r, ds), t). r = int DIRENT_SIZE \<and> ds = root_entries fs ! e \<and>
      tx_inv t \<and> cache_eq s t \<and> owns t = owns s)"
    using readi_within [OF S(1) image_layout(1) [OF im s] S(2) I(1) [unfolded ip(1)] ip(1) _ I(2) k(2,3), of dv] k(1) l bytes ip(5)
    by (simp add: T_DIR_def T_DEV_def)
  then obtain t where t: "readi dv dp ?off DIRENT_SIZE s = Ok ((int DIRENT_SIZE, root_entries fs ! e), t)"
    "tx_inv t" "cache_eq s t" "owns t = owns s" by (auto simp: okP_iff)
  have "mypid t = mypid s" using cache_eqD(12) [OF t(3)] by (simp add: fs_same_def)
  then show ?thesis using t(1) sees_same [OF s t(2-4)] cache_eqD(2) [OF t(3)] by blast
qed

lemma dirlookup_finds:
  fixes s :: "'a fs_st_scheme"
  assumes im: "mkfs_image m tab F" and F: "F = lay root_only 2 fs" and s: "sees m s"
    and ip: "ip = icache s ! dp" "i_addrs ip = i_addrs (tab 1)" "i_dev ip = 1" "i_size ip = i_size (tab 1)" "i_type ip = T_DIR"
    and k: "e \<le> k" "k < n" "k < 2 + length fs" "\<And>e. e \<le> k \<Longrightarrow> de_inum (root_entries fs ! e) \<noteq> 0"
      "\<And>e. e < k \<Longrightarrow> namecmp name (de_name (root_entries fs ! e)) \<noteq> 0" "namecmp name (de_name (root_entries fs ! k)) = 0"
  shows "\<exists>t. dirlookup_loop dv dp name (map (\<lambda>j. j * DIRENT_SIZE) [e..<n]) s
      = bnd (iget 1 (de_inum (root_entries fs ! k)) t) (\<lambda>(ip, s). Ok (Some (ip, k * DIRENT_SIZE), s)) \<and>
    sees m t \<and> icache t = icache s \<and> mypid t = mypid s"
  using s ip k(1)
proof (induction "k - e" arbitrary: e s)
  case 0
  then have e: "e = k" by simp
  obtain t where t: "readi dv dp (k * DIRENT_SIZE) DIRENT_SIZE s = Ok ((int DIRENT_SIZE, root_entries fs ! k), t)"
    "sees m t" "icache t = icache s" "mypid t = mypid s"
    using root_read [OF im F 0(2-7) k(3)] by blast
  then show ?case using k(2,6) k(4) [OF le_refl] 0(3,5) e by (auto simp: upt_conv_Cons intro!: exI [of _ t])
next
  case (Suc d)
  then have e: "e < k" "e < n" "e < 2 + length fs" using k(2,3) by auto
  obtain t where t: "readi dv dp (e * DIRENT_SIZE) DIRENT_SIZE s = Ok ((int DIRENT_SIZE, root_entries fs ! e), t)"
    "sees m t" "icache t = icache s" "mypid t = mypid s"
    using root_read [OF im F Suc(3-8) e(3)] by blast
  have ipt: "ip = icache t ! dp" using Suc(4) t(3) by simp
  have "d = k - (e + 1)" "e + 1 \<le> k" using Suc(2) e by auto
  from Suc(1) [OF this(1) t(2) ipt Suc(5-8) this(2)]
  show ?case using t e k(4) [of e] k(5) [of e] by (simp add: upt_conv_Cons One_nat_def)
qed

lemma find_first: "P j \<Longrightarrow> j < n \<Longrightarrow> (\<And>i. i < j \<Longrightarrow> \<not> P i) \<Longrightarrow> find P [0..<n] = Some j"
proof -
  assume a: "P j" "j < n" "\<And>i. i < j \<Longrightarrow> \<not> P i"
  have "[0..<n] = [0..<j] @ j # [j + 1..<n]" using a(2) upt_add_eq_append [of 0 j "n - j"] by (simp add: upt_conv_Cons One_nat_def)
  moreover have "find P (xs @ j # ys) = Some j" if "\<forall>x \<in> set xs. \<not> P x" for xs ys using that a(1) by (induction xs) auto
  ultimately show ?thesis using a(3) by simp
qed

lemma iget_free:
  assumes "\<And>i. i < NINODE \<Longrightarrow> \<not> (0 < i_ref (icache s ! i) \<and> i_dev (icache s ! i) = dev \<and> i_inum (icache s ! i) = inum)"
    and "j < NINODE" "i_ref (icache s ! j) = 0" "\<And>i. i < j \<Longrightarrow> i_ref (icache s ! i) \<noteq> 0"
  shows "iget dev inum s = Ok (j, upd_inode j (\<lambda>ip. ip\<lparr>i_dev := dev, i_inum := inum, i_ref := 1, i_valid := False\<rparr>) s)"
proof -
  have "find (\<lambda>i. i_ref (icache s ! i) > 0 \<and> i_dev (icache s ! i) = dev \<and> i_inum (icache s ! i) = inum) [0..<NINODE] = None"
    using assms(1) by (auto simp: find_None_iff)
  moreover have "find (\<lambda>i. i_ref (icache s ! i) = 0) [0..<NINODE] = Some j" by (rule find_first) (use assms in auto)
  ultimately show ?thesis by (simp add: iget_def)
qed

text \<open>A directory that has been searched is released; its link count is not zero, so it stays.\<close>

lemma iunlockput_plain:
  assumes "i < length (icache s)" "sl_locked (i_lock (icache s ! i))" "0 < i_ref (icache s ! i)" "i_nlink (icache s ! i) \<noteq> 0"
  shows "iunlockput i s = Ok (upd_inode i (\<lambda>ip. ip\<lparr>i_lock := \<lparr>sl_locked = False, sl_pid = 0\<rparr>, i_ref := i_ref ip - 1\<rparr>) s)"
proof -
  have r: "lk\<lparr>sl_locked := False, sl_pid := 0\<rparr> = \<lparr>sl_locked = False, sl_pid = 0\<rparr>" for lk :: sleeplock by (cases lk) simp
  show ?thesis using assms by (simp add: iunlockput_def iunlock_def iput_def sleeplock_defs Let_def upd_inode_def) (simp only: r)
qed

text \<open>
  The kernel after start-up on an image: it \<open>sees\<close> the image, and every entry of the inode cache
  is free.
\<close>

definition mounted :: "mkfs_st \<Rightarrow> 'a fs_st_scheme \<Rightarrow> bool" where
  "mounted m s \<longleftrightarrow> sees m s \<and> length (icache s) = NINODE \<and>
     (\<forall>i < NINODE. i_ref (icache s ! i) = 0 \<and> \<not> sl_locked (i_lock (icache s ! i)))"

lemma namecmp_entry:
  assumes "name_of nb DIRSIZ = take DIRSIZ name" "0 \<notin> set name'" "n < 2 ^ 16"
  shows "namecmp nb (de_name (mkfs_dirent n name')) = 0 \<longleftrightarrow> take DIRSIZ name = take DIRSIZ name'"
  using assms mkfs_dirent_fields(2) [OF assms(2,3)] by (simp add: namecmp_def strncmp_zero)

lemma root_entries_nth:
  assumes "e < 2 + length fs"
  shows "root_entries fs ! e = mkfs_dirent (max 1 e) (([46] # [46, 46] # map fst fs) ! e)"
proof -
  consider "e = 0" | "e = 1" | k where "e = k + 2" "k < length fs" using assms by (metis One_nat_def add.commute add_2_eq_Suc' less_Suc_eq_0_disj not0_implies_Suc Suc_less_eq)
  then show ?thesis by cases (auto simp: root_entries_def One_nat_def)
qed

definition names_ok :: "byte list list \<Rightarrow> bool" where
  "names_ok ns \<longleftrightarrow> distinct (map (take DIRSIZ) ([46] # [46, 46] # ns)) \<and>
     (\<forall>n \<in> set ns. n \<noteq> [] \<and> 0 \<notin> set n \<and> 47 \<notin> set n)"

lemma root_search:
  fixes s :: "'a fs_st_scheme"
  assumes im: "mkfs_image m tab F" and F: "F = lay root_only 2 fs" "2 + length fs \<le> NINODES" "names_ok (map fst fs)" and s: "sees m s"
    and ip: "ip = icache s ! dp" "i_addrs ip = i_addrs (tab 1)" "i_dev ip = 1" "i_size ip = i_size (tab 1)" "i_type ip = T_DIR"
    and k: "k < length fs" and nb: "name_of nb DIRSIZ = take DIRSIZ (fst (fs ! k))"
  shows "\<exists>t. dirlookup dv dp nb s = bnd (iget 1 (2 + k) t) (\<lambda>(ip, s). Ok (Some (ip, (2 + k) * DIRENT_SIZE), s)) \<and>
    sees m t \<and> icache t = icache s \<and> mypid t = mypid s"
proof -
  let ?ns = "[46] # [46, 46] # map fst fs" and ?E = "root_entries fs" let ?n = "(i_size ip + DIRENT_SIZE - 1) div DIRENT_SIZE"
  have z: "0 \<notin> set (?ns ! e)" if "e < 2 + length fs" for e
  proof -
    have "\<forall>n \<in> set ?ns. 0 \<notin> set n" using F(3) by (simp add: names_ok_def)
    then show ?thesis using that by (metis add_2_eq_Suc length_Cons length_map nth_mem)
  qed
  have sm: "max 1 e < 2 ^ 16" if "e < 2 + length fs" for e using that F(2) by (simp add: NINODES_def)
  have E: "de_inum (?E ! e) = max 1 e" "namecmp nb (de_name (?E ! e)) = 0 \<longleftrightarrow> take DIRSIZ (fst (fs ! k)) = take DIRSIZ (?ns ! e)"
    if "e < 2 + length fs" for e
    using mkfs_dirent_fields(1) [OF z [OF that] sm [OF that]] namecmp_entry [OF nb z [OF that] sm [OF that]]
    by (simp_all only: root_entries_nth [OF that])
  have nk: "?ns ! (2 + k) = fst (fs ! k)" "2 + k < 2 + length fs" using k by simp_all
  have ne: "take DIRSIZ (fst (fs ! k)) \<noteq> take DIRSIZ (?ns ! e)" if "e < 2 + k" for e
  proof
    assume "take DIRSIZ (fst (fs ! k)) = take DIRSIZ (?ns ! e)"
    then have "map (take DIRSIZ) ?ns ! (2 + k) = map (take DIRSIZ) ?ns ! e" using that k nk(1) by (subst (1 2) nth_map) simp_all
    moreover have "distinct (map (take DIRSIZ) ?ns)" using F(3) by (simp add: names_ok_def)
    moreover have "2 + k < length (map (take DIRSIZ) ?ns)" "e < length (map (take DIRSIZ) ?ns)" using that k by simp_all
    ultimately have "2 + k = e" by (subst (asm) nth_eq_iff_index_eq)
    then show False using that by simp
  qed
  have "length (F 1) = DIRENT_SIZE * (2 + length fs)" using lay_root(1) F(1) by simp
  moreover have "length (F 1) \<le> i_size ip"
  proof -
    have "length (F 1) div BSIZE * BSIZE + length (F 1) mod BSIZE = length (F 1)" "length (F 1) mod BSIZE < BSIZE" by (simp_all add: BSIZE_def)
    moreover have "i_size ip = length (F 1) div BSIZE * BSIZE + BSIZE" using im ip(4) by (simp add: mkfs_image_def add_mult_distrib NINODES_def)
    ultimately show ?thesis by linarith
  qed
  ultimately have "(2 + length fs) * DIRENT_SIZE \<le> i_size ip + DIRENT_SIZE - 1" by (simp add: DIRENT_SIZE_def)
  then have n: "2 + k < ?n" using k less_eq_div_iff_mult_less_eq [of DIRENT_SIZE "2 + length fs" "i_size ip + DIRENT_SIZE - 1"]
    by (simp add: DIRENT_SIZE_def)
  have "\<exists>t. dirlookup_loop dv dp nb (map (\<lambda>j. j * DIRENT_SIZE) [0..<?n]) s
      = bnd (iget 1 (de_inum (?E ! (2 + k))) t) (\<lambda>(ip, s). Ok (Some (ip, (2 + k) * DIRENT_SIZE), s)) \<and>
    sees m t \<and> icache t = icache s \<and> mypid t = mypid s"
    by (rule dirlookup_finds [OF im F(1) s ip]) (use n nk E ne in auto)
  then show ?thesis using ip(1,5) E(1) [OF nk(2)] by (simp add: dirlookup_def dir_offsets_def)
qed

lemma namei_file:
  fixes s :: "'a fs_st_scheme"
  assumes im: "mkfs_image m tab F" "kind (tab 1) = (T_DIR, 1)"
    and F: "F = lay root_only 2 fs" "2 + length fs \<le> NINODES" "names_ok (map fst fs)" and s: "mounted m s" and k: "k < length fs"
  shows "\<exists>t. namei dv cwd (47 # fst (fs ! k)) s = Ok (Some 1, t) \<and> sees m t \<and> 1 < length (icache t) \<and>
    i_ref (icache t ! 1) = 1 \<and> \<not> sl_locked (i_lock (icache t ! 1)) \<and> \<not> i_valid (icache t ! 1) \<and>
    i_dev (icache t ! 1) = 1 \<and> i_inum (icache t ! 1) = 2 + k"
proof -
  let ?name = "fst (fs ! k)"
  have S: "sees m s" "length (icache s) = NINODE" "\<And>i. i < NINODE \<Longrightarrow> i_ref (icache s ! i) = 0 \<and> \<not> sl_locked (i_lock (icache s ! i))"
    using s by (auto simp: mounted_def)
  have N: "0 < NINODE" "1 < NINODE" "0 < length (icache s)" "1 < length (icache s)" using S(2) by (simp_all add: NINODE_def)
  have nm: "?name \<noteq> []" "0 \<notin> set ?name" "47 \<notin> set ?name" using F(3) k by (auto simp: names_ok_def)
  obtain nb where nb: "skipelem (47 # ?name) (replicate DIRSIZ 0) = Some ([], nb)" "name_of (\<lambda>i. nb ! i) DIRSIZ = take DIRSIZ ?name"
    using skipelem_root [OF nm] by (metis length_replicate)
  define ip0 where "ip0 = (icache s ! 0)\<lparr>i_dev := 1, i_inum := 1, i_ref := 1, i_valid := False\<rparr>"
  let ?s1 = "upd_inode 0 (\<lambda>ip. ip\<lparr>i_dev := ROOTDEV, i_inum := ROOTINO, i_ref := 1, i_valid := False\<rparr>) s"
  have g1: "iget ROOTDEV ROOTINO s = Ok (0, ?s1)" by (rule iget_free) (use S(3) N in auto)
  have c1: "icache ?s1 = (icache s)[0 := ip0]" by (simp add: ip0_def ROOTDEV_def ROOTINO_def)
  let ?lk = "\<lparr>sl_locked = True, sl_pid = mypid ?s1\<rparr>" let ?ip1 = "fetched (tab 1) ?lk ip0"
  have K: "i_type (tab 1) = T_DIR" "i_nlink (tab 1) = 1" using im(2) by (simp_all add: kind_def)
  have "okP (ilock 0 ?s1) (\<lambda>t. sees m t \<and> mypid t = mypid ?s1 \<and> icache t = (icache ?s1)[0 := ?ip1])"
    by (rule ilock_fetches [OF im(1)]) (use S N c1 K in \<open>auto simp: ip0_def NINODES_def T_DIR_def ROOTDEV_def ROOTINO_def\<close>)
  then obtain s2 where s2: "ilock 0 ?s1 = Ok s2" "sees m s2" "icache s2 = (icache s)[0 := ?ip1]"
    unfolding c1 by (auto simp: okP_iff)
  have i2: "icache s2 ! 0 = ?ip1" using s2(3) N by simp
  obtain s3 where s3: "dirlookup dv 0 (\<lambda>i. nb ! i) s2 = bnd (iget 1 (2 + k) s3) (\<lambda>(ip, s). Ok (Some (ip, (2 + k) * DIRENT_SIZE), s))"
    "sees m s3" "icache s3 = icache s2"
    using root_search [OF im(1) F s2(2) i2 [symmetric] _ _ _ _ k nb(2), of dv] K(1) by (auto simp: fetched_def ip0_def)
  let ?s4 = "upd_inode 1 (\<lambda>ip. ip\<lparr>i_dev := 1, i_inum := 2 + k, i_ref := 1, i_valid := False\<rparr>) s3"
  have c3: "icache s3 ! i = (if i = 0 then ?ip1 else icache s ! i)" if "i < NINODE" for i
    using that s3(3) s2(3) S(2) by (auto simp: nth_list_update)
  have g2: "iget 1 (2 + k) s3 = Ok (1, ?s4)"
    by (rule iget_free) (use c3 S(3) N in \<open>auto simp: fetched_def ip0_def\<close>)
  have c4: "icache ?s4 ! 0 = ?ip1" "length (icache ?s4) = NINODE" using c3 [of 0] N s3(3) s2(3) S(2) by simp_all
  define s5 where "s5 = upd_inode 0 (\<lambda>ip. ip\<lparr>i_lock := \<lparr>sl_locked = False, sl_pid = 0\<rparr>, i_ref := i_ref ip - 1\<rparr>) ?s4"
  have p: "iunlockput 0 ?s4 = Ok s5" unfolding s5_def
    by (rule iunlockput_plain) (use c4 N K(2) in \<open>simp_all add: fetched_def ip0_def\<close>)
  have t1: "i_type (icache s2 ! 0) = T_DIR" using i2 K(1) by (simp add: fetched_def)
  have sk: "skipelem [] nb = None" by (simp add: skipelem_def)
  have "namei dv cwd (47 # ?name) s = Ok (Some 1, s5)"
    by (simp add: namei_def namex_def g1 namex_loop.simps [of dv False 0 "47 # ?name"] nb(1) s2(1) t1 s3(1) g2 p
        namex_loop.simps [of dv False 1 "[]"] sk del: add_2_eq_Suc add_2_eq_Suc')
  moreover have "sees m s5" using s3(2) by (simp add: s5_def)
  moreover have "icache s5 ! 1 = (icache s ! 1)\<lparr>i_dev := 1, i_inum := 2 + k, i_ref := 1, i_valid := False\<rparr>"
    "1 < length (icache s5)"
    using c3 [of 1] N c4(2) by (simp_all add: s5_def)
  ultimately show ?thesis using S(3) N by simp
qed

section \<open>From mkfs to readi\<close>

text \<open>
  C4. The image \<^verbatim>\<open>mkfs\<close> builds is what the kernel reads. If the files named on the command line
  exist and fit (at most 198 files of at most \<^verbatim>\<open>MAXFILE\<close> blocks, which with the root directory
  and the indirect blocks fill no more than the data blocks of the image) and their names are
  different in the first \<^verbatim>\<open>DIRSIZ\<close> characters, then \<^verbatim>\<open>mkfs\<close> succeeds; and in every kernel
  state started on that image, for every one of the files, \<^verbatim>\<open>namei\<close> of the path formed by a slash and
  the name finds an inode, \<^verbatim>\<open>ilock\<close> loads it, and \<^verbatim>\<open>readi\<close> returns exactly the bytes the file
  had on the host.
\<close>

theorem mkfs_files_readable:
  fixes dv :: "'a fs_st_scheme devsw"
  assumes argv: "2 \<le> length argv" "host_create h (argv ! 1)" and fit: "mkfs_fits h (drop 2 argv)"
    and names: "names_ok (map fs_name (drop 2 argv))"
    and k: "k < length (drop 2 argv)" "a = drop 2 argv ! k" "host_file h a = Some c"
  shows "\<exists>m. mkfs_main h argv = Ok m \<and> (\<forall>s. mounted m s \<longrightarrow>
    okP (bnd (namei dv cwd (47 # fs_name a) s) (\<lambda>(r, s).
         case r of None \<Rightarrow> Panic ''not found''
         | Some ip \<Rightarrow> bnd (ilock ip s) (readi dv ip 0 (length c))))
      (\<lambda>((n, ds), t). n = int (length c) \<and> ds = c))"
proof -
  let ?args = "drop 2 argv" let ?fs = "host_files h ?args" let ?F = "lay root_only 2 ?fs" let ?j = "2 + k"
  obtain m tab where m: "mkfs_main h argv = Ok m" and im: "mkfs_image m tab ?F" "kind (tab 1) = (T_DIR, 1)"
    and kd: "\<And>j. 2 \<le> j \<Longrightarrow> j < length argv \<Longrightarrow> kind (tab j) = (T_FILE, 1)"
    using mkfs_main_image [OF argv fit] by (auto simp: okP_iff)
  have fs: "map fst ?fs = map fs_name ?args" "length ?fs = length ?args" "fst (?fs ! k) = fs_name a" "snd (?fs ! k) = c" "k < length ?fs"
    using k by (simp_all add: host_files_def comp_def)
  have n: "2 + length ?fs \<le> NINODES" using fit fs(2) by (simp add: mkfs_fits_def)
  have j: "?j < NINODES" "?F ?j = c" using n fs lay_root(2) [OF fs(5)] by auto
  have T: "i_type (tab ?j) = T_FILE" using kd [of ?j] k(1) by (simp add: kind_def)
  have "okP (bnd (namei dv cwd (47 # fs_name a) s) (\<lambda>(r, s). case r of None \<Rightarrow> Panic ''not found''
         | Some ip \<Rightarrow> bnd (ilock ip s) (readi dv ip 0 (length c)))) (\<lambda>((n, ds), t). n = int (length c) \<and> ds = c)"
    if s: "mounted m s" for s
  proof -
    obtain t where t: "namei dv cwd (47 # fs_name a) s = Ok (Some 1, t)" "sees m t" "1 < length (icache t)"
      "i_ref (icache t ! 1) = 1" "\<not> sl_locked (i_lock (icache t ! 1))" "\<not> i_valid (icache t ! 1)" "i_dev (icache t ! 1) = 1"
      "i_inum (icache t ! 1) = ?j"
      using namei_file [OF im refl n _ s fs(5), of dv cwd] names fs(1,3) by auto
    let ?ip = "fetched (tab ?j) \<lparr>sl_locked = True, sl_pid = mypid t\<rparr> (icache t ! 1)"
    have "okP (ilock 1 t) (\<lambda>u. sees m u \<and> mypid u = mypid t \<and> icache u = (icache t)[1 := ?ip])"
      by (rule ilock_fetches [OF im(1) t(2) j(1)]) (use t T in \<open>simp_all add: T_FILE_def\<close>)
    then obtain u where u: "ilock 1 t = Ok u" "sees m u" "icache u ! 1 = ?ip" using t(3) by (auto simp: okP_iff)
    have U: "tx_inv u" "held u = {}" using u(2) by (simp_all add: sees_def)
    note I = image_file [OF im(1) u(2) j(1), of ?ip]
    have ad: "i_addrs ?ip = i_addrs (tab ?j)" "i_dev ?ip = 1" "i_type ?ip \<noteq> T_DEV" "i_size ?ip = length c"
      using t(7) T im(1) j by (auto simp: fetched_def T_FILE_def T_DEV_def mkfs_image_def)
    have lc: "length c \<le> MAXFILE * BSIZE" using I(2) [OF ad(1,2)] j(2) by (simp add: mapped_def)
    have "okP (readi dv 1 0 (length c) u) (\<lambda>((r, ds), w). r = int (length c) \<and> ds = map (file_byte (ldisk u) ?ip) [0..<length c] \<and>
        tx_inv w \<and> cache_eq u w \<and> owns w = owns u)"
      using readi_within [OF U(1) image_layout(1) [OF im(1) u(2)] U(2), of 1 ?ip "length c" 0 "length c" dv]
        I(1,2) [OF ad(1,2)] ad(3,4) j(2) u(3) lc by (simp add: param_defs)
    moreover have "map (file_byte (ldisk u) ?ip) [0..<length c] = c"
      by (rule nth_equalityI) (use I(3) [OF ad(1,2)] j(2) in auto)
    ultimately show ?thesis using t(1) u(1) by (auto simp: okP_iff)
  qed
  then show ?thesis using m by blast
qed

text \<open>One file, in the state of a kernel just started on the image.\<close>

definition one_host :: host where
  "one_host = \<lparr>host_create = \<lambda>_. True, host_file = \<lambda>n. if n = [95, 97] then Some [1, 2, 3] else None\<rparr>"

definition one_argv :: "byte list list" where
  "one_argv = [[109], [102], [95, 97]]"

lemma one_fits: "mkfs_fits one_host (drop 2 one_argv)"
  by (simp add: mkfs_fits_def args_ok_def one_host_def one_argv_def cost_def param_defs)

lemma fresh_mounted: "stored m tab \<Longrightarrow> mounted m (fresh_fs (dsk m) (replicate NINODE no_inode))"
proof -
  assume m: "stored m tab"
  have l: "length (dsk m b) = BSIZE" for b using storedD(1) [OF m] by (simp add: sized_def)
  have z: "get32 (dsk m 2) 0 = 0" using m get32_zeros [of 0 BSIZE] by (simp add: stored_def zeroes_def BSIZE_def)
  note F = fresh_fs_state [of "dsk m" "replicate NINODE no_inode", OF l z]
  show ?thesis unfolding mounted_def sees_def F(4)
    using F(1,2) by (simp add: fresh_fs_def no_inode_def param_defs)
qed

theorem mkfs_files_readable_witness:
  "\<exists>m. mkfs_main one_host one_argv = Ok m \<and>
    okP (bnd (namei (\<lambda>_. (None, None)) 0 [47, 97] (fresh_fs (dsk m) (replicate NINODE no_inode))) (\<lambda>(r, s).
         case r of None \<Rightarrow> Panic ''not found''
         | Some ip \<Rightarrow> bnd (ilock ip s) (readi (\<lambda>_. (None, None)) ip 0 3)))
      (\<lambda>((n, ds), t). n = 3 \<and> ds = [1, 2, 3])"
proof -
  have a: "2 \<le> length one_argv" "host_create one_host (one_argv ! 1)" "0 < length (drop 2 one_argv)"
    "drop 2 one_argv ! 0 = [95, 97]" "host_file one_host [95, 97] = Some [1, 2, 3]" "fs_name [95, 97] = [97]"
    by (simp_all add: one_argv_def one_host_def fs_name_def)
  have len: "length [1 :: byte, 2, 3] = 3" by simp
  have n: "names_ok (map fs_name (drop 2 one_argv))" by (simp add: names_ok_def one_argv_def fs_name_def DIRSIZ_def)
  obtain m where m: "mkfs_main one_host one_argv = Ok m" and r: "\<And>s :: fs_st. mounted m s \<Longrightarrow>
    okP (bnd (namei (\<lambda>_. (None, None)) 0 [47, 97] s) (\<lambda>(r, s).
         case r of None \<Rightarrow> Panic ''not found''
         | Some ip \<Rightarrow> bnd (ilock ip s) (readi (\<lambda>_. (None, None)) ip 0 3)))
      (\<lambda>((n, ds), t). n = 3 \<and> ds = [1, 2, 3])"
    using mkfs_files_readable [OF a(1,2) one_fits n a(3) a(4) [symmetric] a(5), where dv = "(\<lambda>_. (None, None)) :: fs_st devsw" and cwd = 0,
      unfolded a(6) len of_nat_numeral] by blast
  obtain tab where "stored m tab" using mkfs_main_image [OF a(1,2) one_fits] m by (auto simp: mkfs_image_def)
  then show ?thesis using m r fresh_mounted by blast
qed

end
