(* ===== verification/Spinlock.thy ===== *)
theory Spinlock
  imports CString
begin

text \<open>
  Spin locks of \<^verbatim>\<open>spinlock.c\<close> on several processors. A processor is named by its
  local APIC id; \<open>eflags\<close> is its interrupt flag, \<open>cpus\<close> the table
  \<^verbatim>\<open>mycpu\<close> searches. The \<^verbatim>\<open>xchg\<close> loop of \<^verbatim>\<open>acquire\<close>
  is split at its atomic instruction, so that processors interleave in the relation
  \<open>spin_step\<close>; the invariant of that relation gives mutual exclusion.
\<close>

section \<open>State\<close>

definition KERNBASE :: nat where "KERNBASE = 0x80000000"

declare KERNBASE_def [param_defs]

record cpu =
  c_apicid :: nat
  c_ncli :: int
  c_intena :: bool

record spinlock =
  lk_locked :: bool
  lk_cpu :: "nat option"
  lk_pcs :: "nat list"

record spin_st =
  cpus :: "cpu list"
  eflags :: "nat \<Rightarrow> bool"
  spinlk :: spinlock

section \<open>Operations\<close>

definition initlock :: "spinlock \<Rightarrow> spinlock" where
  "initlock lk = lk\<lparr>lk_locked := False, lk_cpu := None\<rparr>"

text \<open>The processor with APIC id \<open>a\<close> asks for its entry in \<open>cpus\<close>.\<close>

definition mycpu :: "nat \<Rightarrow> spin_st \<Rightarrow> nat res" where
  "mycpu a s =
     (if eflags s a then Panic ''mycpu called with interrupts enabled''
      else case find (\<lambda>i. c_apicid (cpus s ! i) = a) [0..<length (cpus s)] of
        Some i \<Rightarrow> Ok i
      | None \<Rightarrow> Panic ''unknown apicid'')"

definition upd_cpu :: "nat \<Rightarrow> (cpu \<Rightarrow> cpu) \<Rightarrow> spin_st \<Rightarrow> spin_st" where
  "upd_cpu i f s = s\<lparr>cpus := (cpus s)[i := f (cpus s ! i)]\<rparr>"

definition set_if :: "nat \<Rightarrow> bool \<Rightarrow> spin_st \<Rightarrow> spin_st" where
  "set_if a e s = s\<lparr>eflags := (eflags s)(a := e)\<rparr>"

definition pushcli :: "nat \<Rightarrow> spin_st \<Rightarrow> spin_st res" where
  "pushcli a s =
     (let e = eflags s a; s = set_if a False s in
      bnd (mycpu a s) (\<lambda>i.
      let s = (if c_ncli (cpus s ! i) = 0 then upd_cpu i (c_intena_update (\<lambda>_. e)) s else s) in
      Ok (upd_cpu i (c_ncli_update (\<lambda>n. n + 1)) s)))"

definition popcli :: "nat \<Rightarrow> spin_st \<Rightarrow> spin_st res" where
  "popcli a s =
     (if eflags s a then Panic ''popcli - interruptible''
      else bnd (mycpu a s) (\<lambda>i.
      let s = upd_cpu i (c_ncli_update (\<lambda>n. n - 1)) s in
      if c_ncli (cpus s ! i) < 0 then Panic ''popcli''
      else if c_ncli (cpus s ! i) = 0 \<and> c_intena (cpus s ! i) then Ok (set_if a True s)
      else Ok s))"

definition holding :: "nat \<Rightarrow> spin_st \<Rightarrow> bool res" where
  "holding a s =
     (if lk_locked (spinlk s) then bnd (mycpu a s) (\<lambda>i. Ok (lk_cpu (spinlk s) = Some i)) else Ok False)"

text \<open>
  The chain of saved frame pointers: word \<open>m\<close> reads memory, \<open>0xffffffff\<close> and user
  addresses end the walk. The result always has ten entries.
\<close>

fun callerpcs_loop :: "(nat \<Rightarrow> nat) \<Rightarrow> nat \<Rightarrow> nat \<Rightarrow> nat list" where
  "callerpcs_loop m ebp 0 = []"
| "callerpcs_loop m ebp (Suc k) =
     (if ebp = 0 \<or> ebp < KERNBASE \<or> ebp = 0xffffffff then replicate (Suc k) 0
      else m (ebp + 4) # callerpcs_loop m (m ebp) k)"

definition getcallerpcs :: "(nat \<Rightarrow> nat) \<Rightarrow> nat \<Rightarrow> nat list" where
  "getcallerpcs m v = callerpcs_loop m ((v + 2 ^ 32 - 8) mod 2 ^ 32) 10"

text \<open>
  \<^verbatim>\<open>acquire\<close> up to its loop, one round of the loop (the flag tells whether the lock
  was free), and what follows the loop; \<open>acquire\<close> is their composition when no other
  processor interferes: on a lock that is taken it spins forever.
\<close>

definition acquire_enter :: "nat \<Rightarrow> spin_st \<Rightarrow> spin_st res" where
  "acquire_enter a s =
     bnd (pushcli a s) (\<lambda>s. bnd (holding a s) (\<lambda>h. if h then Panic ''acquire'' else Ok s))"

definition acquire_xchg :: "spin_st \<Rightarrow> bool \<times> spin_st" where
  "acquire_xchg s = (\<not> lk_locked (spinlk s), s\<lparr>spinlk := (spinlk s)\<lparr>lk_locked := True\<rparr>\<rparr>)"

definition acquire_record :: "nat \<Rightarrow> nat list \<Rightarrow> spin_st \<Rightarrow> spin_st res" where
  "acquire_record a pcs s =
     bnd (mycpu a s) (\<lambda>i. Ok (s\<lparr>spinlk := (spinlk s)\<lparr>lk_cpu := Some i, lk_pcs := pcs\<rparr>\<rparr>))"

definition acquire :: "nat \<Rightarrow> nat list \<Rightarrow> spin_st \<Rightarrow> spin_st res" where
  "acquire a pcs s =
     bnd (acquire_enter a s) (\<lambda>s.
     case acquire_xchg s of (won, s) \<Rightarrow> if won then acquire_record a pcs s else Blocks)"

definition release :: "nat \<Rightarrow> spin_st \<Rightarrow> spin_st res" where
  "release a s =
     bnd (holding a s) (\<lambda>h. if \<not> h then Panic ''release'' else
     popcli a (s\<lparr>spinlk := (spinlk s)\<lparr>lk_pcs := (lk_pcs (spinlk s))[0 := 0],
       lk_cpu := None, lk_locked := False\<rparr>\<rparr>))"

section \<open>Interleaving of processors\<close>

datatype phase = Out | Spinning | Got | Held

type_synonym spin_conf = "(nat \<Rightarrow> phase) \<times> spin_st"

inductive spin_step :: "spin_conf \<Rightarrow> spin_conf \<Rightarrow> bool" where
  enter: "P a = Out \<Longrightarrow> acquire_enter a s = Ok t \<Longrightarrow> spin_step (P, s) (P(a := Spinning), t)"
| fail: "P a = Spinning \<Longrightarrow> acquire_xchg s = (False, t) \<Longrightarrow> spin_step (P, s) (P, t)"
| win: "P a = Spinning \<Longrightarrow> acquire_xchg s = (True, t) \<Longrightarrow> spin_step (P, s) (P(a := Got), t)"
| note_owner: "P a = Got \<Longrightarrow> acquire_record a pcs s = Ok t \<Longrightarrow> spin_step (P, s) (P(a := Held), t)"
| leave: "P a = Held \<Longrightarrow> release a s = Ok t \<Longrightarrow> spin_step (P, s) (P(a := Out), t)"

inductive_cases spin_stepE: "spin_step c c'"

text \<open>
  A machine whose processors have different APIC ids, with the lock free and interrupts off
  wherever \<^verbatim>\<open>pushcli\<close> is pending; \<open>idx\<close> is the entry of a processor in
  \<open>cpus\<close>.
\<close>

definition ids :: "spin_st \<Rightarrow> nat list" where
  "ids s = map c_apicid (cpus s)"

definition idx :: "nat list \<Rightarrow> nat \<Rightarrow> nat" where
  "idx xs a = (case find (\<lambda>i. xs ! i = a) [0..<length xs] of Some i \<Rightarrow> i | None \<Rightarrow> 0)"

definition start_ok :: "spin_st \<Rightarrow> bool" where
  "start_ok s \<longleftrightarrow> distinct (ids s) \<and> \<not> lk_locked (spinlk s) \<and> lk_cpu (spinlk s) = None \<and>
     (\<forall>c \<in> set (cpus s). 0 \<le> c_ncli c \<and> (0 < c_ncli c \<longrightarrow> \<not> eflags s (c_apicid c)))"

definition ncli_of :: "spin_st \<Rightarrow> nat \<Rightarrow> int" where
  "ncli_of s a = c_ncli (cpus s ! idx (ids s) a)"

definition inside :: "phase \<Rightarrow> bool" where
  "inside p \<longleftrightarrow> p = Got \<or> p = Held"

text \<open>What holds of one processor: its nesting depth, its interrupt flag, its saved flag.\<close>

definition cpu_inv :: "spin_st \<Rightarrow> phase \<Rightarrow> spin_st \<Rightarrow> nat \<Rightarrow> bool" where
  "cpu_inv s0 p s a \<longleftrightarrow>
     ncli_of s a = ncli_of s0 a + (if p = Out then 0 else 1) \<and>
     eflags s a = (p = Out \<and> eflags s0 a) \<and>
     (p \<noteq> Out \<and> ncli_of s0 a = 0 \<longrightarrow> c_intena (cpus s ! idx (ids s) a) = eflags s0 a)"

definition lock_inv :: "spin_st \<Rightarrow> (nat \<Rightarrow> phase) \<Rightarrow> spinlock \<Rightarrow> bool" where
  "lock_inv s0 P lk \<longleftrightarrow>
     (lk_locked lk \<longleftrightarrow> (\<exists>a. inside (P a))) \<and>
     (\<forall>a b. inside (P a) \<and> inside (P b) \<longrightarrow> a = b) \<and>
     (\<forall>a. P a = Held \<longrightarrow> lk_cpu lk = Some (idx (ids s0) a)) \<and>
     ((\<forall>a. P a \<noteq> Held) \<longrightarrow> lk_cpu lk = None)"

definition spin_inv :: "spin_st \<Rightarrow> spin_conf \<Rightarrow> bool" where
  "spin_inv s0 = (\<lambda>(P, s). ids s = ids s0 \<and> (\<forall>a. P a \<noteq> Out \<longrightarrow> a \<in> set (ids s0)) \<and>
     lock_inv s0 P (spinlk s) \<and> (\<forall>a \<in> set (ids s0). cpu_inv s0 (P a) s a))"

definition two_cpus :: spin_st where
  "two_cpus = \<lparr>cpus = [\<lparr>c_apicid = 0, c_ncli = 0, c_intena = False\<rparr>, \<lparr>c_apicid = 4, c_ncli = 0, c_intena = False\<rparr>],
     eflags = \<lambda>_. True, spinlk = \<lparr>lk_locked = False, lk_cpu = None, lk_pcs = []\<rparr>\<rparr>"

section \<open>Lemmas\<close>

lemma idx_props:
  assumes "a \<in> set xs"
  shows "idx xs a < length xs" "xs ! idx xs a = a"
    "find (\<lambda>i. xs ! i = a) [0..<length xs] = Some (idx xs a)"
proof -
  obtain k where "k < length xs" "xs ! k = a" using assms by (auto simp: in_set_conv_nth)
  then obtain j where j: "find (\<lambda>i. xs ! i = a) [0..<length xs] = Some j"
    using find_exists [of k "[0..<length xs]" "\<lambda>i. xs ! i = a"] by auto
  then show "idx xs a < length xs" "xs ! idx xs a = a"
    "find (\<lambda>i. xs ! i = a) [0..<length xs] = Some (idx xs a)"
    using find_Some_mem [OF j] by (auto simp: idx_def)
qed

lemma idx_inj: "a \<in> set xs \<Longrightarrow> b \<in> set xs \<Longrightarrow> idx xs a = idx xs b \<Longrightarrow> a = b"
  using idx_props(2) by metis

lemma mycpu_ok:
  assumes "a \<in> set (ids s)" "\<not> eflags s a"
  shows "mycpu a s = Ok (idx (ids s) a)"
proof -
  have "find (\<lambda>i. c_apicid (cpus s ! i) = a) [0..<length (cpus s)] = find (\<lambda>i. ids s ! i = a) [0..<length (ids s)]"
    by (rule find_cong) (auto simp: ids_def)
  then show ?thesis using assms idx_props(3) [OF assms(1)] by (simp add: mycpu_def)
qed

text \<open>A call never looks at, or changes, the entry of another processor.\<close>

lemma ids_upd [simp]:
  "ids (upd_cpu i (c_ncli_update f) s) = ids s" "ids (upd_cpu i (c_intena_update g) s) = ids s"
  "ids (set_if a e s) = ids s" "ids (s\<lparr>spinlk := l\<rparr>) = ids s"
  by (simp_all add: ids_def upd_cpu_def set_if_def map_update)
    (metis list_update_beyond list_update_id linorder_not_less nth_map length_map)+

lemma upd_simps [simp]:
  "eflags (upd_cpu i f s) = eflags s" "spinlk (upd_cpu i f s) = spinlk s"
  "cpus (set_if a e s) = cpus s" "spinlk (set_if a e s) = spinlk s"
  "eflags (set_if a e s) = (eflags s)(a := e)" "cpus (upd_cpu i f s) = (cpus s)[i := f (cpus s ! i)]"
  by (simp_all add: upd_cpu_def set_if_def)

lemma pushcli_ok:
  assumes "a \<in> set (ids s)" "\<not> lk_locked (spinlk s) \<or> lk_cpu (spinlk s) \<noteq> Some (idx (ids s) a)"
  shows "\<exists>t. acquire_enter a s = Ok t \<and> ids t = ids s \<and> spinlk t = spinlk s \<and>
    ncli_of t a = ncli_of s a + 1 \<and> eflags t = (eflags s)(a := False) \<and>
    (ncli_of s a = 0 \<longrightarrow> c_intena (cpus t ! idx (ids s) a) = eflags s a) \<and>
    (\<forall>j. j \<noteq> idx (ids s) a \<longrightarrow> cpus t ! j = cpus s ! j)"
proof -
  let ?i = "idx (ids s) a" and ?u = "set_if a False s"
  let ?v = "if c_ncli (cpus s ! ?i) = 0 then upd_cpu ?i (c_intena_update (\<lambda>_. eflags s a)) ?u else ?u"
  let ?t = "upd_cpu ?i (c_ncli_update (\<lambda>n. n + 1)) ?v"
  have i: "?i < length (cpus s)" using idx_props(1) [OF assms(1)] by (simp add: ids_def)
  have "mycpu a ?u = Ok ?i" "mycpu a ?t = Ok ?i" using assms(1) by (simp_all add: mycpu_ok)
  then have "acquire_enter a s = Ok ?t"
    using assms(2) by (auto simp: acquire_enter_def pushcli_def holding_def Let_def)
  then show ?thesis using i by (intro exI [of _ ?t]) (auto simp: ncli_of_def)
qed

lemma popcli_ok:
  assumes "a \<in> set (ids s)" "\<not> eflags s a" "0 < ncli_of s a"
    and "lk_locked (spinlk s)" "lk_cpu (spinlk s) = Some (idx (ids s) a)"
  shows "\<exists>t. release a s = Ok t \<and> ids t = ids s \<and> \<not> lk_locked (spinlk t) \<and> lk_cpu (spinlk t) = None \<and>
    ncli_of t a = ncli_of s a - 1 \<and>
    eflags t = (eflags s)(a := (ncli_of s a = 1 \<and> c_intena (cpus s ! idx (ids s) a))) \<and>
    (\<forall>j. j \<noteq> idx (ids s) a \<longrightarrow> cpus t ! j = cpus s ! j)"
proof -
  let ?i = "idx (ids s) a"
  let ?u = "s\<lparr>spinlk := (spinlk s)\<lparr>lk_pcs := (lk_pcs (spinlk s))[0 := 0], lk_cpu := None, lk_locked := False\<rparr>\<rparr>"
  let ?v = "upd_cpu ?i (c_ncli_update (\<lambda>n. n - 1)) ?u"
  let ?t = "if ncli_of s a = 1 \<and> c_intena (cpus s ! ?i) then set_if a True ?v else ?v"
  have i: "?i < length (cpus s)" using idx_props(1) [OF assms(1)] by (simp add: ids_def)
  have "mycpu a s = Ok ?i" "mycpu a ?u = Ok ?i" using assms(1,2) by (simp_all add: mycpu_ok)
  then have "release a s = Ok ?t"
    using assms i by (auto simp: release_def popcli_def holding_def Let_def ncli_of_def)
  then show ?thesis using i assms by (intro exI [of _ ?t]) (auto simp: ncli_of_def fun_eq_iff)
qed

lemma spin_invD:
  assumes "spin_inv s0 (P, s)"
  shows "ids s = ids s0" "P a \<noteq> Out \<Longrightarrow> a \<in> set (ids s0)" "lock_inv s0 P (spinlk s)"
    "a \<in> set (ids s0) \<Longrightarrow> cpu_inv s0 (P a) s a"
  using assms by (auto simp: spin_inv_def)

lemma lock_inv_cong:
  "(\<And>b. inside (P b) = inside (Q b)) \<Longrightarrow> (\<And>b. P b = Held \<longleftrightarrow> Q b = Held) \<Longrightarrow>
    lock_inv s0 P lk = lock_inv s0 Q lk"
  by (simp add: lock_inv_def)

lemma cpu_inv_frame:
  assumes "cpu_inv s0 p s b" "ids t = ids s" "cpus t ! idx (ids s) b = cpus s ! idx (ids s) b"
    "eflags t b = eflags s b"
  shows "cpu_inv s0 p t b"
  using assms by (simp add: cpu_inv_def ncli_of_def)

lemma spin_inv_upd:
  assumes inv: "spin_inv s0 (P, s)" and a: "a \<in> set (ids s0)"
    and t: "ids t = ids s" "\<And>j. j \<noteq> idx (ids s) a \<Longrightarrow> cpus t ! j = cpus s ! j"
      "\<And>b. b \<noteq> a \<Longrightarrow> eflags t b = eflags s b"
    and new: "lock_inv s0 (P(a := p)) (spinlk t)" "cpu_inv s0 p t a"
  shows "spin_inv s0 (P(a := p), t)"
proof -
  have "cpu_inv s0 (P b) t b" if "b \<in> set (ids s0)" "b \<noteq> a" for b
    by (rule cpu_inv_frame [OF spin_invD(4) [OF inv that(1)]])
      (use that t a spin_invD(1) [OF inv] idx_inj [of b "ids s0" a] in auto)
  then show ?thesis using inv a t(1) new by (auto simp: spin_inv_def)
qed

lemma enter_ready:
  assumes "spin_inv s0 (P, s)" "a \<in> set (ids s0)" "P a \<noteq> Held"
  shows "\<not> lk_locked (spinlk s) \<or> lk_cpu (spinlk s) \<noteq> Some (idx (ids s) a)"
proof (cases "\<exists>b. P b = Held")
  case True
  then obtain b where "P b = Held" ..
  then show ?thesis
    using assms spin_invD [OF assms(1)] idx_inj [of a "ids s0" b] by (fastforce simp: lock_inv_def)
next
  case False
  then show ?thesis using spin_invD(3) [OF assms(1)] by (simp add: lock_inv_def)
qed

lemma leave_ready:
  assumes s0: "start_ok s0" and inv: "spin_inv s0 (P, s)" and a: "P a = Held"
  shows "a \<in> set (ids s)" "\<not> eflags s a" "0 < ncli_of s a" "lk_locked (spinlk s)"
    "lk_cpu (spinlk s) = Some (idx (ids s) a)"
proof -
  have p: "a \<in> set (ids s0)" using spin_invD(2) [OF inv] a by simp
  then have "cpus s0 ! idx (ids s0) a \<in> set (cpus s0)" using idx_props(1) [OF p] by (simp add: ids_def)
  then have "0 \<le> ncli_of s0 a" using s0 by (simp add: start_ok_def ncli_of_def)
  then show "a \<in> set (ids s)" "\<not> eflags s a" "0 < ncli_of s a" "lk_locked (spinlk s)"
    "lk_cpu (spinlk s) = Some (idx (ids s) a)"
    using spin_invD(1,3) [OF inv] spin_invD(4) [OF inv p] a p
    by (auto simp: cpu_inv_def lock_inv_def inside_def)
qed

lemma start_flag:
  assumes "start_ok s0" "a \<in> set (ids s0)"
  shows "eflags s0 a \<Longrightarrow> ncli_of s0 a = 0"
proof -
  have "cpus s0 ! idx (ids s0) a \<in> set (cpus s0)" "c_apicid (cpus s0 ! idx (ids s0) a) = a"
    using idx_props(1,2) [OF assms(2)] by (simp_all add: ids_def)
  then show "eflags s0 a \<Longrightarrow> ncli_of s0 a = 0"
    using assms(1) by (force simp: start_ok_def ncli_of_def)
qed

lemma spin_inv_enter:
  assumes inv: "spin_inv s0 (P, s)" and a: "a \<in> set (ids s0)" "P a = Out" and t: "acquire_enter a s = Ok t"
  shows "spin_inv s0 (P(a := Spinning), t)"
proof -
  note i = spin_invD [OF inv]
  have "a \<in> set (ids s)" "P a \<noteq> Held" using a i(1) by simp_all
  note ready = pushcli_ok [OF this(1) enter_ready [OF inv a(1) this(2)]]
  obtain u where u: "acquire_enter a s = Ok u" "ids u = ids s" "spinlk u = spinlk s"
    "ncli_of u a = ncli_of s a + 1" "eflags u = (eflags s)(a := False)"
    "ncli_of s a = 0 \<longrightarrow> c_intena (cpus u ! idx (ids s) a) = eflags s a"
    "\<forall>j. j \<noteq> idx (ids s) a \<longrightarrow> cpus u ! j = cpus s ! j"
    using ready by blast
  have [simp]: "t = u" using u(1) t by simp
  have "inside ((P(a := Spinning)) b) = inside (P b)" for b using a(2) by (simp add: inside_def)
  moreover have "(P(a := Spinning)) b = Held \<longleftrightarrow> P b = Held" for b using a(2) by simp
  ultimately have "lock_inv s0 (P(a := Spinning)) (spinlk t) = lock_inv s0 P (spinlk t)"
    by (rule lock_inv_cong)
  then have "lock_inv s0 (P(a := Spinning)) (spinlk t)" using i(3) u(3) by simp
  moreover have "cpu_inv s0 Spinning t a"
    using i(4) [OF a(1)] a(2) u(2,4-6) i(1) by (simp add: cpu_inv_def)
  ultimately show ?thesis
    by (intro spin_inv_upd [OF inv a(1)]) (use u(2,5,7) in auto)
qed

lemma spin_inv_leave:
  assumes s0: "start_ok s0" and inv: "spin_inv s0 (P, s)" and a: "P a = Held" and t: "release a s = Ok t"
  shows "spin_inv s0 (P(a := Out), t)"
proof -
  note i = spin_invD [OF inv]
  have p: "a \<in> set (ids s0)" using i(2) a by simp
  obtain u where u: "release a s = Ok u" "ids u = ids s" "\<not> lk_locked (spinlk u)" "lk_cpu (spinlk u) = None"
    "ncli_of u a = ncli_of s a - 1"
    "eflags u = (eflags s)(a := (ncli_of s a = 1 \<and> c_intena (cpus s ! idx (ids s) a)))"
    "\<forall>j. j \<noteq> idx (ids s) a \<longrightarrow> cpus u ! j = cpus s ! j"
    using popcli_ok [OF leave_ready [OF s0 inv a]] by blast
  have [simp]: "t = u" using u(1) t by simp
  have "\<not> inside ((P(a := Out)) b)" for b
    using i(3) a by (auto simp: lock_inv_def inside_def)
  then have "lock_inv s0 (P(a := Out)) (spinlk t)"
    using u(3,4) by (simp add: lock_inv_def inside_def)
  moreover have "cpu_inv s0 Out t a"
    using i(4) [OF p] a u(2,5,6) start_flag [OF s0 p] i(1) by (auto simp: cpu_inv_def)
  ultimately show ?thesis
    by (intro spin_inv_upd [OF inv p]) (use u(2,6,7) in auto)
qed

lemma spin_inv_lock:
  assumes inv: "spin_inv s0 (P, s)" and a: "a \<in> set (ids s0)" "P a \<noteq> Out" "p \<noteq> Out"
    and lk: "lock_inv s0 (P(a := p)) lk"
  shows "spin_inv s0 (P(a := p), s\<lparr>spinlk := lk\<rparr>)"
  by (rule spin_inv_upd [OF inv a(1)])
    (use spin_invD(4) [OF inv a(1)] a lk in \<open>auto simp: cpu_inv_def ncli_of_def\<close>)

lemma spin_inv_step:
  assumes s0: "start_ok s0" and inv: "spin_inv s0 c" and st: "spin_step c c'"
    and there: "\<And>a. fst c a = Out \<Longrightarrow> fst c' a \<noteq> Out \<Longrightarrow> a \<in> set (ids s0)"
  shows "spin_inv s0 c'"
  using st
proof (cases rule: spin_step.cases)
  case (enter P a s t)
  then show ?thesis using inv there [of a] by (auto intro: spin_inv_enter)
next
  case (fail P a s t)
  then have "t = s" by (auto simp: acquire_xchg_def)
  then show ?thesis using fail inv by simp
next
  case (win P a s t)
  then have "spin_inv s0 (P, s)" using inv by simp
  moreover from spin_invD [OF this] have "lock_inv s0 (P(a := Got)) ((spinlk s)\<lparr>lk_locked := True\<rparr>)"
    using win by (auto simp: lock_inv_def acquire_xchg_def inside_def)
  ultimately show ?thesis
    using win spin_invD(2) [of s0 P s a] by (auto simp: acquire_xchg_def intro: spin_inv_lock)
next
  case (note_owner P a pcs s t)
  then have i: "spin_inv s0 (P, s)" using inv by simp
  note d = spin_invD [OF i]
  have a: "a \<in> set (ids s0)" using note_owner d(2) by simp
  then have "mycpu a s = Ok (idx (ids s0) a)" using d(1) d(4) [OF a] note_owner mycpu_ok [of a s] by (auto simp: cpu_inv_def)
  then have t: "t = s\<lparr>spinlk := (spinlk s)\<lparr>lk_cpu := Some (idx (ids s0) a), lk_pcs := pcs\<rparr>\<rparr>"
    using note_owner by (simp add: acquire_record_def)
  have "lock_inv s0 (P(a := Held)) ((spinlk s)\<lparr>lk_cpu := Some (idx (ids s0) a), lk_pcs := pcs\<rparr>)"
    using d(3) note_owner(3) by (auto simp: lock_inv_def inside_def)
  then show ?thesis using note_owner t a i by (auto intro: spin_inv_lock)
next
  case (leave P a s t)
  then show ?thesis using inv s0 by (auto intro: spin_inv_leave)
qed

text \<open>Processors that exist take steps: the phases of any other APIC id stay \<open>Out\<close>.\<close>

lemma enter_present:
  assumes "acquire_enter a s = Ok t"
  shows "a \<in> set (ids s)"
proof -
  obtain i where "mycpu a (set_if a False s) = Ok i"
    using assms by (auto simp: acquire_enter_def pushcli_def Let_def bnd_eq_Ok)
  then have "find (\<lambda>i. c_apicid (cpus s ! i) = a) [0..<length (cpus s)] = Some i"
    by (auto simp: mycpu_def split: option.splits)
  from find_Some_mem [OF this] show ?thesis by (auto simp: ids_def)
qed

lemma spin_reachable:
  assumes s0: "start_ok s0" and r: "spin_step\<^sup>*\<^sup>* (\<lambda>_. Out, s0) c"
  shows "spin_inv s0 c"
  using r
proof (induction rule: rtranclp_induct)
  case base
  then show ?case using s0 by (auto simp: spin_inv_def start_ok_def lock_inv_def cpu_inv_def inside_def)
next
  case (step c c')
  have "a \<in> set (ids s0)" if "fst c a = Out" "fst c' a \<noteq> Out" for a
    using step(2)
  proof (cases rule: spin_step.cases)
    case (enter P b s t)
    then show ?thesis
      using that enter_present [OF enter(4)] spin_invD(1) [of s0 P s] step.IH by (auto split: if_splits)
  qed (use that in \<open>auto split: if_splits\<close>)
  then show ?case using spin_inv_step [OF s0 step.IH step(2)] by blast
qed

text \<open>
  C5. Mutual exclusion of spin locks, for every interleaving of any number of processors: in every
  state reachable from a free lock at most one processor is past the loop of
  \<^verbatim>\<open>acquire\<close> and before its \<^verbatim>\<open>release\<close>. No
  step of a processor panics: one that is outside can start to acquire, and the owner can release. A
  processor in the lock has interrupts off, and outside it has the flag it had before.
\<close>

theorem spinlock_mutual_exclusion:
  assumes "start_ok s0" "spin_step\<^sup>*\<^sup>* (\<lambda>_. Out, s0) (P, s)"
  shows "(\<forall>a b. inside (P a) \<and> inside (P b) \<longrightarrow> a = b) \<and>
    (\<forall>a \<in> set (ids s0). P a = Out \<longrightarrow> (\<exists>t. acquire_enter a s = Ok t)) \<and>
    (\<forall>a. P a = Held \<longrightarrow> (\<exists>t. release a s = Ok t)) \<and>
    (\<forall>a \<in> set (ids s0). eflags s a = (P a = Out \<and> eflags s0 a))"
proof -
  have inv: "spin_inv s0 (P, s)" by (rule spin_reachable [OF assms])
  note i = spin_invD [OF inv]
  have "\<exists>t. acquire_enter a s = Ok t" if a: "a \<in> set (ids s0)" "P a = Out" for a
    using pushcli_ok [of a s] enter_ready [OF inv a(1)] a i(1) by (metis phase.distinct(5))
  moreover have "\<exists>t. release a s = Ok t" if "P a = Held" for a
    using popcli_ok [OF leave_ready [OF assms(1) inv that]] by blast
  ultimately show ?thesis using i(3,4) by (simp add: cpu_inv_def lock_inv_def)
qed

theorem spinlock_mutual_exclusion_witness:
  "\<exists>P s. spin_step\<^sup>*\<^sup>* (\<lambda>_. Out, two_cpus) (P, s) \<and> P 0 = Held \<and> P 4 = Spinning \<and>
     (\<exists>t. release 0 s = Ok t) \<and> \<not> eflags s 0 \<and> (\<forall>a. inside (P a) \<longrightarrow> a = 0)"
proof -
  note ev = acquire_enter_def pushcli_def mycpu_def holding_def acquire_xchg_def acquire_record_def
    upd_cpu_def set_if_def two_cpus_def Let_def
  have ok: "start_ok two_cpus" by (simp add: start_ok_def ids_def two_cpus_def)
  obtain s1 where s1: "acquire_enter 0 two_cpus = Ok s1" by (simp add: ev)
  obtain s2 where s2: "acquire_xchg s1 = (True, s2)" using s1 by (auto simp: ev)
  obtain s3 where s3: "acquire_record 0 [] s2 = Ok s3" using s1 s2 by (auto simp: ev)
  obtain s4 where s4: "acquire_enter 4 s3 = Ok s4" using s1 s2 s3 by (auto simp: ev)
  let ?P1 = "(\<lambda>_. Out)(0 := Spinning)" let ?P2 = "?P1(0 := Got)" let ?P3 = "?P2(0 := Held)"
  let ?P = "?P3(4 := Spinning)"
  have "spin_step (\<lambda>_. Out, two_cpus) (?P1, s1)" "spin_step (?P1, s1) (?P2, s2)"
    "spin_step (?P2, s2) (?P3, s3)" "spin_step (?P3, s3) (?P, s4)"
    using s1 s2 s3 s4 by (intro spin_step.intros; simp)+
  then have r: "spin_step\<^sup>*\<^sup>* (\<lambda>_. Out, two_cpus) (?P, s4)"
    by (meson rtranclp.rtrancl_into_rtrancl rtranclp.rtrancl_refl)
  have z: "0 \<in> set (ids two_cpus)" by (simp add: ids_def two_cpus_def)
  have "\<exists>t. release 0 s4 = Ok t" "\<not> eflags s4 0"
    using spinlock_mutual_exclusion [OF ok r, THEN conjunct2, THEN conjunct2, THEN conjunct1, rule_format, of 0]
      spinlock_mutual_exclusion [OF ok r, THEN conjunct2, THEN conjunct2, THEN conjunct2, rule_format, OF z]
    by simp_all
  then show ?thesis using r by (intro exI [of _ ?P] exI [of _ s4]) (simp add: inside_def)
qed

end
