(* ===== verification/Memory.thy ===== *)
theory Memory
  imports Spinlock
begin

text \<open>
  Kernel memory. Addresses are the 32-bit addresses the kernel dereferences (natural numbers
  below \<open>2 ^ 32\<close>); \<^verbatim>\<open>V2P\<close> and \<^verbatim>\<open>P2V\<close> of
  \<^verbatim>\<open>memlayout.h\<close> and the rounding macros of \<^verbatim>\<open>mmu.h\<close> are written
  out on them, with the wrap-around of unsigned subtraction. Words are stored little-endian.
\<close>

definition PGSIZE :: nat where "PGSIZE = 4096"
definition EXTMEM :: nat where "EXTMEM = 0x100000"
definition PHYSTOP :: nat where "PHYSTOP = 0xE000000"
definition DEVSPACE :: nat where "DEVSPACE = 0xFE000000"
definition KERNLINK :: nat where "KERNLINK = KERNBASE + EXTMEM"

declare PGSIZE_def [param_defs] EXTMEM_def [param_defs] PHYSTOP_def [param_defs]
  DEVSPACE_def [param_defs] KERNLINK_def [param_defs]

definition u32 :: "int \<Rightarrow> nat" where
  "u32 x = nat (x mod 2 ^ 32)"

definition V2P :: "nat \<Rightarrow> nat" where
  "V2P a = u32 (int a - int KERNBASE)"

definition P2V :: "nat \<Rightarrow> nat" where
  "P2V a = (a + KERNBASE) mod 2 ^ 32"

definition PGROUNDDOWN :: "nat \<Rightarrow> nat" where
  "PGROUNDDOWN a = a div PGSIZE * PGSIZE"

definition PGROUNDUP :: "nat \<Rightarrow> nat" where
  "PGROUNDUP a = (a + PGSIZE - 1) mod 2 ^ 32 div PGSIZE * PGSIZE"

definition ld32 :: "mem \<Rightarrow> nat \<Rightarrow> nat" where
  "ld32 m a = unat (m a) + 256 * unat (m (a + 1)) + 65536 * unat (m (a + 2)) + 16777216 * unat (m (a + 3))"

definition st32 :: "mem \<Rightarrow> nat \<Rightarrow> nat \<Rightarrow> mem" where
  "st32 m a v = m(a := word_of_nat v, a + 1 := word_of_nat (v div 256),
     a + 2 := word_of_nat (v div 65536), a + 3 := word_of_nat (v div 16777216))"

definition load :: "mem \<Rightarrow> nat \<Rightarrow> nat \<Rightarrow> byte list" where
  "load m a n = map m [a..<a + n]"

definition store :: "mem \<Rightarrow> nat \<Rightarrow> byte list \<Rightarrow> mem" where
  "store m a bs = (\<lambda>x. if a \<le> x \<and> x < a + length bs then bs ! (x - a) else m x)"

section \<open>Lemmas\<close>

lemma ld32_st32 [simp]: "ld32 (st32 m a v) a = v mod 2 ^ 32"
proof -
  have "v mod (256 * (256 * (256 * 256))) =
      v mod 256 + 256 * (v div 256 mod 256 + 256 * (v div 256 div 256 mod 256 + 256 * (v div 256 div 256 div 256 mod 256)))"
    by (simp only: mod_mult2_eq ac_simps)
  then show ?thesis
    by (simp add: ld32_def st32_def unat_of_nat div_mult2_eq [symmetric])
qed

lemma ld32_cong:
  assumes "\<And>i. i < 4 \<Longrightarrow> m (a + i) = m' (a + i)"
  shows "ld32 m a = ld32 m' a"
  unfolding ld32_def using assms [of 0] assms [of 1] assms [of 2] assms [of 3] by simp

lemma ld32_st32_other: "b + 4 \<le> a \<or> a + 4 \<le> b \<Longrightarrow> ld32 (st32 m a v) b = ld32 m b"
  by (auto simp: ld32_def st32_def)

lemma st32_other: "x < a \<or> a + 4 \<le> x \<Longrightarrow> st32 m a v x = m x"
  by (auto simp: st32_def)

lemma ld32_less: "ld32 m a < 2 ^ 32"
proof -
  have "unat (m x) < 2 ^ LENGTH(8)" for x by (rule unsigned_less)
  then have b: "unat (m x) < 256" for x by simp
  show ?thesis using b [of a] b [of "a + 1"] b [of "a + 2"] b [of "a + 3"] unfolding ld32_def by simp
qed

lemma ld32_zero:
  assumes "\<And>i. i < 4 \<Longrightarrow> m (a + i) = 0"
  shows "ld32 m a = 0"
  unfolding ld32_def using assms [of 0] assms [of 1] assms [of 2] assms [of 3] by simp

lemma length_load [simp]: "length (load m a n) = n"
  by (simp add: load_def)

lemma nth_load: "i < n \<Longrightarrow> load m a n ! i = m (a + i)"
  by (simp add: load_def)

lemma load_store_same: "load (store m a bs) a (length bs) = bs"
  by (rule nth_equalityI) (auto simp: nth_load store_def)

lemma store_other: "x < a \<or> a + length bs \<le> x \<Longrightarrow> store m a bs x = m x"
  by (auto simp: store_def)

lemma load_cong: "(\<And>i. i < n \<Longrightarrow> m (a + i) = m' (a + i)) \<Longrightarrow> load m a n = load m' a n"
  by (auto intro!: nth_equalityI simp: nth_load)

text \<open>Pages: two page-aligned addresses that differ are a page apart.\<close>

lemma page_apart:
  assumes "a mod PGSIZE = 0" "b mod PGSIZE = 0" "a \<noteq> b"
  shows "a + PGSIZE \<le> b \<or> b + PGSIZE \<le> a"
proof -
  obtain i j where "a = PGSIZE * i" "b = PGSIZE * j" using assms(1,2) by (auto simp: mod_eq_0_iff_dvd elim!: dvdE)
  then show ?thesis using assms(3) by (cases "i < j") (auto simp: param_defs)
qed

lemma page_less: "PGSIZE dvd a \<Longrightarrow> PGSIZE dvd b \<Longrightarrow> a < b \<Longrightarrow> a + PGSIZE \<le> b"
  using page_apart [of a b] by (auto simp: mod_eq_0_iff_dvd)

lemma V2P_high: "KERNBASE \<le> a \<Longrightarrow> a < 2 ^ 32 \<Longrightarrow> V2P a = a - KERNBASE"
  by (simp add: V2P_def u32_def param_defs nat_diff_distrib)

lemma V2P_low: "a < KERNBASE \<Longrightarrow> V2P a = a + KERNBASE"
proof -
  assume "a < KERNBASE"
  then have "(int a - int KERNBASE) mod 2 ^ 32 = int a - int KERNBASE + 2 ^ 32"
    by (intro mod_pos_pos_trivial [THEN trans [OF mod_add_self2 [symmetric]]]) (auto simp: param_defs)
  then show ?thesis by (simp add: V2P_def u32_def param_defs nat_diff_distrib nat_add_distrib)
qed

lemma PGROUNDUP_props:
  assumes "a + PGSIZE \<le> 2 ^ 32"
  shows "PGROUNDUP a mod PGSIZE = 0" "a \<le> PGROUNDUP a" "PGROUNDUP a < a + PGSIZE"
proof -
  have eq: "PGROUNDUP a = (a + 4095) div 4096 * 4096"
    using assms by (simp add: PGROUNDUP_def param_defs)
  have "(a + 4095) div 4096 * 4096 + (a + 4095) mod 4096 = a + 4095" "(a + 4095) mod 4096 < 4096"
    by (simp_all only: div_mult_mod_eq mod_less_divisor zero_less_numeral)
  then show "a \<le> PGROUNDUP a" "PGROUNDUP a < a + PGSIZE" unfolding eq PGSIZE_def by linarith+
  show "PGROUNDUP a mod PGSIZE = 0" by (simp add: PGROUNDUP_def)
qed

end
