(* ===== verification/Kalloc.thy ===== *)
theory Kalloc
  imports Memory
begin

text \<open>
  The physical page allocator of \<^verbatim>\<open>kalloc.c\<close>. The free list is the linked list the
  code keeps inside the free pages themselves: the first word of a free page is the address of
  the next. \<open>kend\<close> and \<open>kdata\<close> are the linker's symbols \<^verbatim>\<open>end\<close> and
  \<^verbatim>\<open>data\<close>. The lock of
  \<^verbatim>\<open>kmem\<close> makes each call one atomic step; \<open>use_lock\<close> is kept because the
  initialisation sets it.
\<close>

record kmem_st =
  kmem :: mem
  freelist :: nat
  use_lock :: bool
  kend :: nat
  kdata :: nat

definition kfree :: "nat \<Rightarrow> 'a kmem_st_scheme \<Rightarrow> 'a kmem_st_scheme res" where
  "kfree v s =
     (if v mod PGSIZE \<noteq> 0 \<or> v < kend s \<or> PHYSTOP \<le> V2P v then Panic ''kfree''
      else
        let m = memset (kmem s) v 1 PGSIZE in
        Ok (s\<lparr>kmem := st32 m v (freelist s), freelist := v\<rparr>))"

definition kalloc :: "'a kmem_st_scheme \<Rightarrow> nat \<times> 'a kmem_st_scheme" where
  "kalloc s =
     (let r = freelist s in
      (r, if r \<noteq> 0 then s\<lparr>freelist := ld32 (kmem s) r\<rparr> else s))"

function freerange_loop :: "nat \<Rightarrow> nat \<Rightarrow> 'a kmem_st_scheme \<Rightarrow> 'a kmem_st_scheme res" where
  "freerange_loop p vend s =
     (if p + PGSIZE \<le> vend then bnd (kfree p s) (freerange_loop (p + PGSIZE) vend) else Ok s)"
  by auto

termination
  by (relation "measure (\<lambda>(p, vend, s). vend - p)") (auto simp: param_defs)

declare freerange_loop.simps [simp del]

definition freerange :: "nat \<Rightarrow> nat \<Rightarrow> 'a kmem_st_scheme \<Rightarrow> 'a kmem_st_scheme res" where
  "freerange vstart vend s = freerange_loop (PGROUNDUP vstart) vend s"

definition kinit1 :: "nat \<Rightarrow> nat \<Rightarrow> 'a kmem_st_scheme \<Rightarrow> 'a kmem_st_scheme res" where
  "kinit1 vstart vend s = freerange vstart vend (s\<lparr>use_lock := False\<rparr>)"

definition kinit2 :: "nat \<Rightarrow> nat \<Rightarrow> 'a kmem_st_scheme \<Rightarrow> 'a kmem_st_scheme res" where
  "kinit2 vstart vend s = bnd (freerange vstart vend s) (\<lambda>s. Ok (s\<lparr>use_lock := True\<rparr>))"

section \<open>The interface of a page allocator\<close>

text \<open>
  What the clients of the allocator rely on: \<open>ok v\<close> are the pages it may hand out,
  \<open>inv s xs\<close> says that \<open>s\<close> is consistent with free pages \<open>xs\<close>, and \<open>mm\<close> reads
  memory. Laws: allocation takes a free page or fails with 0 when there is none; freeing gives
  the page back; neither touches any byte outside the free pages.
\<close>

locale page_allocator =
  fixes inv :: "'s \<Rightarrow> nat list \<Rightarrow> bool" and ok :: "'s \<Rightarrow> nat \<Rightarrow> bool" and mm :: "'s \<Rightarrow> mem"
    and alloc :: "'s \<Rightarrow> nat \<times> 's" and free :: "nat \<Rightarrow> 's \<Rightarrow> 's res"
  assumes inv_ok: "inv s xs \<Longrightarrow> distinct xs \<and> (\<forall>x \<in> set xs. ok s x)"
    and ok_page: "ok s v \<Longrightarrow> v mod PGSIZE = 0 \<and> v \<noteq> 0"
    and alloc_none: "inv s [] \<Longrightarrow> alloc s = (0, s)"
    and alloc_some: "inv s (x # xs) \<Longrightarrow> \<exists>t. alloc s = (x, t) \<and> inv t xs \<and> ok t = ok s \<and> mm t = mm s"
    and free_law: "inv s xs \<Longrightarrow> ok s v \<Longrightarrow> v \<notin> set xs \<Longrightarrow>
      \<exists>t. free v s = Ok t \<and> inv t (v # xs) \<and> ok t = ok s \<and> (\<forall>a. a < v \<or> v + PGSIZE \<le> a \<longrightarrow> mm t a = mm s a)"
begin

text \<open>A page in use is never overlapped by a page on the free list.\<close>

lemma free_apart: "inv s xs \<Longrightarrow> ok s v \<Longrightarrow> v \<notin> set xs \<Longrightarrow> x \<in> set xs \<Longrightarrow> x + PGSIZE \<le> v \<or> v + PGSIZE \<le> x"
  using inv_ok [of s xs] ok_page [of s] page_apart [of x v] by auto

lemma alloc_free:
  assumes "inv s (x # xs)"
  shows "\<exists>t u. alloc s = (x, t) \<and> free x t = Ok u \<and> inv u (x # xs) \<and> ok u = ok s"
proof -
  obtain t where t: "alloc s = (x, t)" "inv t xs" "ok t = ok s" using alloc_some [OF assms] by auto
  have "ok t x" "x \<notin> set xs" using inv_ok [OF assms] t(3) by auto
  from free_law [OF t(2) this] show ?thesis using t by auto
qed

text \<open>Giving back a list of pages keeps the contents of every other page.\<close>

fun frees :: "nat list \<Rightarrow> 's \<Rightarrow> 's res" where
  "frees [] s = Ok s"
| "frees (v # vs) s = bnd (free v s) (frees vs)"

lemma frees_ok:
  "inv s xs \<Longrightarrow> distinct vs \<Longrightarrow> (\<forall>v \<in> set vs. ok s v \<and> v \<notin> set xs) \<Longrightarrow>
   \<exists>t. frees vs s = Ok t \<and> inv t (rev vs @ xs) \<and> ok t = ok s \<and>
     (\<forall>a. (\<forall>v \<in> set vs. a < v \<or> v + PGSIZE \<le> a) \<longrightarrow> mm t a = mm s a)"
proof (induction vs arbitrary: s xs)
  case (Cons v vs)
  obtain t where t: "free v s = Ok t" "inv t (v # xs)" "ok t = ok s"
    "\<forall>a. a < v \<or> v + PGSIZE \<le> a \<longrightarrow> mm t a = mm s a"
    using free_law [OF Cons.prems(1), of v] Cons.prems by auto
  have "\<forall>w \<in> set vs. ok t w \<and> w \<notin> set (v # xs)" using Cons.prems t(3) by auto
  from Cons.IH [OF t(2) _ this] show ?case using Cons.prems t by auto
qed auto

end

section \<open>The free list\<close>

primrec flist :: "mem \<Rightarrow> nat \<Rightarrow> nat list \<Rightarrow> bool" where
  "flist m v [] \<longleftrightarrow> v = 0"
| "flist m v (x # xs) \<longleftrightarrow> v = x \<and> flist m (ld32 m x) xs"

definition page_ok :: "'a kmem_st_scheme \<Rightarrow> nat \<Rightarrow> bool" where
  "page_ok s v \<longleftrightarrow> v mod PGSIZE = 0 \<and> kend s \<le> v \<and> KERNBASE < v \<and> v < KERNBASE + PHYSTOP"

definition kmem_inv :: "'a kmem_st_scheme \<Rightarrow> nat list \<Rightarrow> bool" where
  "kmem_inv s xs \<longleftrightarrow> KERNBASE < kend s \<and> distinct xs \<and> (\<forall>x \<in> set xs. page_ok s x) \<and> flist (kmem s) (freelist s) xs"

lemma flist_cong: "(\<And>x. x \<in> set xs \<Longrightarrow> ld32 m x = ld32 m' x) \<Longrightarrow> flist m v xs = flist m' v xs"
  by (induction xs arbitrary: v) auto

lemma flist_unique: "flist m v xs \<Longrightarrow> flist m v ys \<Longrightarrow> 0 \<notin> set xs \<Longrightarrow> 0 \<notin> set ys \<Longrightarrow> xs = ys"
  by (induction xs arbitrary: v ys) (case_tac ys; auto)+

lemma page_ok_V2P: "KERNBASE < kend s \<Longrightarrow> page_ok s v \<Longrightarrow> V2P v < PHYSTOP"
  using V2P_high [of v] by (auto simp: page_ok_def param_defs)

lemma kfree_panics: "KERNBASE < kend s \<Longrightarrow> v < 2 ^ 32 \<Longrightarrow> kfree v s = Panic ''kfree'' \<longleftrightarrow> \<not> page_ok s v"
  using V2P_high [of v] by (auto simp: kfree_def page_ok_def Let_def param_defs)

lemma kfree_ok:
  assumes inv: "kmem_inv s xs" and v: "page_ok s v" "v \<notin> set xs"
  shows "\<exists>t. kfree v s = Ok t \<and> kmem_inv t (v # xs) \<and> kend t = kend s \<and> kmem_st.more t = kmem_st.more s \<and>
    (\<forall>a. a < v \<or> v + PGSIZE \<le> a \<longrightarrow> kmem t a = kmem s a)"
proof -
  let ?m = "memset (kmem s) v 1 PGSIZE" and ?f = "freelist s"
  let ?t = "s\<lparr>kmem := st32 ?m v ?f, freelist := v\<rparr>"
  have e: "KERNBASE < kend s" and fl: "flist (kmem s) ?f xs" "distinct xs" "\<forall>x \<in> set xs. page_ok s x"
    using inv by (auto simp: kmem_inv_def)
  have k: "kfree v s = Ok ?t"
    using v(1) page_ok_V2P [OF e v(1)] by (simp add: kfree_def page_ok_def Let_def)
  have out: "st32 ?m v ?f a = kmem s a" if "a < v \<or> v + PGSIZE \<le> a" for a
    using that by (subst st32_other) (auto simp: memset_bytes param_defs)
  have "ld32 (st32 ?m v ?f) x = ld32 (kmem s) x" if "x \<in> set xs" for x
  proof (rule ld32_cong, rule out)
    have "x mod PGSIZE = 0" "v mod PGSIZE = 0" "x \<noteq> v" using that fl(3) v by (auto simp: page_ok_def)
    from page_apart [OF this] show "x + i < v \<or> v + PGSIZE \<le> x + i" if "i < 4" for i
      using that by (auto simp: param_defs)
  qed
  then have "flist (st32 ?m v ?f) ?f xs" using fl(1) flist_cong [of xs] by blast
  moreover have "?f < 2 ^ 32"
    using fl(1,3) by (cases xs) (auto simp: page_ok_def param_defs)
  ultimately have "kmem_inv ?t (v # xs)" using e fl v by (auto simp: kmem_inv_def page_ok_def)
  then show ?thesis using k out by auto
qed

lemma kalloc_ok:
  "kmem_inv s (x # xs) \<Longrightarrow> \<exists>t. kalloc s = (x, t) \<and> kmem_inv t xs \<and> kend t = kend s \<and> kmem t = kmem s \<and>
    kmem_st.more t = kmem_st.more s"
  by (auto simp: kmem_inv_def kalloc_def Let_def page_ok_def param_defs)

lemma kalloc_none: "kmem_inv s [] \<Longrightarrow> kalloc s = (0, s)"
  by (simp add: kmem_inv_def kalloc_def)

interpretation pages: page_allocator kmem_inv page_ok kmem kalloc kfree
proof
  fix s :: "'a kmem_st_scheme" and xs v x
  show "kmem_inv s xs \<Longrightarrow> distinct xs \<and> (\<forall>x \<in> set xs. page_ok s x)" by (simp add: kmem_inv_def)
  show "page_ok s v \<Longrightarrow> v mod PGSIZE = 0 \<and> v \<noteq> 0" by (auto simp: page_ok_def)
  show "kmem_inv s [] \<Longrightarrow> kalloc s = (0, s)" by (rule kalloc_none)
  show "kmem_inv s (x # xs) \<Longrightarrow> \<exists>t. kalloc s = (x, t) \<and> kmem_inv t xs \<and> page_ok t = page_ok s \<and> kmem t = kmem s"
    using kalloc_ok [of s x xs] by (auto simp: page_ok_def fun_eq_iff)
  show "kmem_inv s xs \<Longrightarrow> page_ok s v \<Longrightarrow> v \<notin> set xs \<Longrightarrow> \<exists>t. kfree v s = Ok t \<and> kmem_inv t (v # xs) \<and>
    page_ok t = page_ok s \<and> (\<forall>a. a < v \<or> v + PGSIZE \<le> a \<longrightarrow> kmem t a = kmem s a)"
    using kfree_ok [of s xs v] by (auto simp: page_ok_def fun_eq_iff)
qed

section \<open>Initialisation\<close>

lemma freerange_loop_ok:
  assumes "kmem_inv s xs" "p mod PGSIZE = 0" "kend s \<le> p" "KERNBASE < p" "vend \<le> KERNBASE + PHYSTOP" "\<forall>x \<in> set xs. x < p"
  shows "okP (freerange_loop p vend s) (\<lambda>t. kend t = kend s \<and> use_lock t = use_lock s \<and>
    (\<exists>ys. kmem_inv t ys \<and> set ys = set xs \<union> {v. v mod PGSIZE = 0 \<and> p \<le> v \<and> v + PGSIZE \<le> vend}))"
  using assms
proof (induction p vend s arbitrary: xs rule: freerange_loop.induct)
  case (1 p vend s)
  show ?case
  proof (cases "p + PGSIZE \<le> vend")
    case True
    have "page_ok s p" using True "1.prems" by (auto simp: page_ok_def param_defs)
    then obtain t where t: "kfree p s = Ok t" "kmem_inv t (p # xs)" "kend t = kend s"
      using kfree_ok [OF "1.prems"(1)] "1.prems"(6) by blast
    have l: "use_lock t = use_lock s" using t(1) by (auto simp: kfree_def Let_def split: if_splits)
    have next_page: "v = p \<or> p + PGSIZE \<le> v" if "PGSIZE dvd v" "p \<le> v" for v
      using page_less [of p v] that "1.prems"(2) by (cases "p = v") (simp_all add: mod_eq_0_iff_dvd)
    have split: "{v. v mod PGSIZE = 0 \<and> p \<le> v \<and> v + PGSIZE \<le> vend} =
      insert p {v. v mod PGSIZE = 0 \<and> p + PGSIZE \<le> v \<and> v + PGSIZE \<le> vend}"
      using True "1.prems"(2) by (auto dest: next_page)
    have "okP (freerange_loop (p + PGSIZE) vend t) (\<lambda>u. kend u = kend t \<and> use_lock u = use_lock t \<and>
      (\<exists>ys. kmem_inv u ys \<and> set ys = set (p # xs) \<union> {v. v mod PGSIZE = 0 \<and> p + PGSIZE \<le> v \<and> v + PGSIZE \<le> vend}))"
      by (rule "1.IH" [OF True t(1,2)]) (use "1.prems" t(3) in \<open>auto simp: param_defs\<close>)
    then show ?thesis
      unfolding freerange_loop.simps [of p] split using True t l by (auto elim!: okP_weaken)
  next
    case False
    then have "{v. v mod PGSIZE = 0 \<and> p \<le> v \<and> v + PGSIZE \<le> vend} = {}" by auto
    then show ?thesis using False "1.prems"(1) by (auto simp: freerange_loop.simps [of p])
  qed
qed

text \<open>The whole pages of the range \<^verbatim>\<open>vstart..vend\<close>.\<close>

definition pages_in :: "nat \<Rightarrow> nat \<Rightarrow> nat set" where
  "pages_in vstart vend = {v. v mod PGSIZE = 0 \<and> vstart \<le> v \<and> v + PGSIZE \<le> vend}"

lemma PGROUNDUP_least:
  assumes "a + PGSIZE \<le> 2 ^ 32" "v mod PGSIZE = 0"
  shows "PGROUNDUP a \<le> v \<longleftrightarrow> a \<le> v"
proof
  show "a \<le> v" if "PGROUNDUP a \<le> v" using that PGROUNDUP_props(2) [OF assms(1)] by simp
next
  assume "a \<le> v"
  show "PGROUNDUP a \<le> v"
  proof (rule ccontr)
    assume "\<not> PGROUNDUP a \<le> v"
    then have "v + PGSIZE \<le> PGROUNDUP a"
      using page_less [of v "PGROUNDUP a"] PGROUNDUP_props(1) [OF assms(1)] assms(2) by (simp add: mod_eq_0_iff_dvd)
    then show False using PGROUNDUP_props(3) [OF assms(1)] \<open>a \<le> v\<close> by simp
  qed
qed

lemma freerange_ok:
  assumes "kmem_inv s xs" "kend s \<le> vstart" "vstart + PGSIZE \<le> 2 ^ 32" "vend \<le> KERNBASE + PHYSTOP" "\<forall>x \<in> set xs. x < vstart"
  shows "okP (freerange vstart vend s) (\<lambda>t. kend t = kend s \<and> use_lock t = use_lock s \<and>
    (\<exists>ys. kmem_inv t ys \<and> set ys = set xs \<union> pages_in vstart vend))"
proof -
  note r = PGROUNDUP_props [OF assms(3)]
  have "pages_in vstart vend = {v. v mod PGSIZE = 0 \<and> PGROUNDUP vstart \<le> v \<and> v + PGSIZE \<le> vend}"
    using PGROUNDUP_least [OF assms(3)] by (auto simp: pages_in_def)
  then show ?thesis unfolding freerange_def
    by (simp only:) (rule freerange_loop_ok, use assms r in \<open>auto simp: kmem_inv_def\<close>)
qed

text \<open>
  C6. Initialising the allocator as \<^verbatim>\<open>main\<close> does, with \<^verbatim>\<open>kinit1\<close> on the
  memory of the entry page table and \<^verbatim>\<open>kinit2\<close> on the rest, returns, and the free
  list then holds every page between the end of the kernel and \<^verbatim>\<open>PHYSTOP\<close> exactly
  once and nothing else, and the allocator uses its lock.
\<close>

theorem kinit_all_pages:
  assumes "KERNBASE < kend s" "freelist s = 0" "kend s \<le> mid" "mid mod PGSIZE = 0" "mid \<le> KERNBASE + PHYSTOP"
  shows "\<exists>t u ys. kinit1 (kend s) mid s = Ok t \<and> kinit2 mid (KERNBASE + PHYSTOP) t = Ok u \<and> use_lock u \<and>
    kmem_inv u ys \<and> set ys = pages_in (kend s) (KERNBASE + PHYSTOP)"
proof -
  have b: "kend s + PGSIZE \<le> 2 ^ 32" "mid + PGSIZE \<le> 2 ^ 32" using assms by (auto simp: param_defs)
  have "kmem_inv (s\<lparr>use_lock := False\<rparr>) []" using assms(1,2) by (simp add: kmem_inv_def)
  from freerange_ok [OF this, of "kend s" mid] obtain t xs where
    t: "kinit1 (kend s) mid s = Ok t" "kend t = kend s" "kmem_inv t xs" "set xs = pages_in (kend s) mid"
    using b assms by (auto simp: kinit1_def okP_iff)
  have "\<forall>x \<in> set xs. x < mid" using t(4) by (auto simp: pages_in_def param_defs)
  from freerange_ok [OF t(3) _ b(2) _ this, of "KERNBASE + PHYSTOP"] obtain u ys where
    u: "kinit2 mid (KERNBASE + PHYSTOP) t = Ok u" "use_lock u" "kmem_inv u ys"
      "set ys = set xs \<union> pages_in mid (KERNBASE + PHYSTOP)"
    using t assms by (auto simp: kinit2_def okP_iff kmem_inv_def page_ok_def)
  have "v \<in> pages_in (kend s) mid \<union> pages_in mid (KERNBASE + PHYSTOP) \<longleftrightarrow> v \<in> pages_in (kend s) (KERNBASE + PHYSTOP)" for v
    using page_less [of v mid] assms(3-5) by (cases "v < mid") (auto simp: pages_in_def mod_eq_0_iff_dvd)
  then have "set ys = pages_in (kend s) (KERNBASE + PHYSTOP)" using t(4) u(4) by blast
  then show ?thesis using t(1) u(1-3) by blast
qed

theorem kinit_all_pages_witness:
  "\<exists>t u ys. kinit1 0x80108000 0x80400000 \<lparr>kmem = \<lambda>_. 0, freelist = 0, use_lock = True, kend = 0x80108000, kdata = 0x80107000\<rparr> = Ok t \<and>
    kinit2 0x80400000 0x8E000000 t = Ok u \<and>
    kmem_inv u ys \<and> 0x80109000 \<in> set ys \<and> 0x80108000 \<in> set ys \<and> 0x80107000 \<notin> set ys"
proof -
  let ?s = "\<lparr>kmem = \<lambda>_. 0, freelist = 0, use_lock = True, kend = 0x80108000, kdata = 0x80107000\<rparr>"
  obtain t u ys where "kinit1 (kend ?s) 0x80400000 ?s = Ok t" "kinit2 0x80400000 (KERNBASE + PHYSTOP) t = Ok u"
    "kmem_inv u ys" "set ys = pages_in (kend ?s) (KERNBASE + PHYSTOP)"
    using kinit_all_pages [of ?s "0x80400000"] by (auto simp: param_defs)
  then show ?thesis by (intro exI [of _ t] exI [of _ u] exI [of _ ys]) (simp add: pages_in_def param_defs)
qed

end
