(* ===== verification/Vm.thy ===== *)
theory Vm
  imports Kalloc
begin

text \<open>
  Page tables of \<^verbatim>\<open>vm.c\<close>. A page directory is the address of a page whose 1024 words
  are directory entries; a directory entry names a page of 1024 page table entries. All of it
  lives in kernel memory and is read and written word by word, as the code does. Messages that
  the code prints when memory runs out are not part of the state. \<open>Undef\<close> is the access
  through a null pointer.
\<close>

section \<open>Entries and addresses (mmu.h)\<close>

definition NPDENTRIES :: nat where "NPDENTRIES = 1024"
definition PTE_P :: nat where "PTE_P = 1"
definition PTE_W :: nat where "PTE_W = 2"
definition PTE_U :: nat where "PTE_U = 4"

declare NPDENTRIES_def [param_defs]

definition PDX :: "nat \<Rightarrow> nat" where "PDX va = va div 2 ^ 22 mod 1024"
definition PTX :: "nat \<Rightarrow> nat" where "PTX va = va div 2 ^ 12 mod 1024"
definition PTE_ADDR :: "nat \<Rightarrow> nat" where "PTE_ADDR pte = pte div 4096 * 4096"
definition PTE_FLAGS :: "nat \<Rightarrow> nat" where "PTE_FLAGS pte = pte mod 4096"

definition st :: "nat \<Rightarrow> nat \<Rightarrow> kmem_st \<Rightarrow> kmem_st" where
  "st a v s = s\<lparr>kmem := st32 (kmem s) a v\<rparr>"

section \<open>Operations\<close>

text \<open>The address of the entry for \<open>va\<close>, or 0.\<close>

definition walkpgdir :: "nat \<Rightarrow> nat \<Rightarrow> bool \<Rightarrow> kmem_st \<Rightarrow> nat \<times> kmem_st" where
  "walkpgdir pgdir va alloc s =
     (let pde = pgdir + 4 * PDX va in
      if ld32 (kmem s) pde AND PTE_P \<noteq> 0
      then (P2V (PTE_ADDR (ld32 (kmem s) pde)) + 4 * PTX va, s)
      else if \<not> alloc then (0, s)
      else case kalloc s of (pgtab, s) \<Rightarrow>
        if pgtab = 0 then (0, s)
        else
          let s = s\<lparr>kmem := memset (kmem s) pgtab 0 PGSIZE\<rparr>;
              s = st pde (V2P pgtab OR PTE_P OR PTE_W OR PTE_U) s
          in (pgtab + 4 * PTX va, s))"

text \<open>The loop with \<open>n\<close> more pages to map after the one at \<open>a\<close>: \<open>a = last\<close> exactly when \<open>n = 0\<close>.\<close>

fun mappages_loop :: "nat \<Rightarrow> nat \<Rightarrow> nat \<Rightarrow> nat \<Rightarrow> nat \<Rightarrow> kmem_st \<Rightarrow> (int \<times> kmem_st) res" where
  "mappages_loop pgdir a pa perm n s =
     (case walkpgdir pgdir a True s of (pte, s) \<Rightarrow>
      if pte = 0 then Ok (-1, s)
      else if ld32 (kmem s) pte AND PTE_P \<noteq> 0 then Panic ''remap''
      else
        let s = st pte (pa OR perm OR PTE_P) s in
        case n of
          0 \<Rightarrow> Ok (0, s)
        | Suc k \<Rightarrow> mappages_loop pgdir ((a + PGSIZE) mod 2 ^ 32) ((pa + PGSIZE) mod 2 ^ 32) perm k s)"

declare mappages_loop.simps [simp del]

definition mappages :: "nat \<Rightarrow> nat \<Rightarrow> nat \<Rightarrow> nat \<Rightarrow> nat \<Rightarrow> kmem_st \<Rightarrow> (int \<times> kmem_st) res" where
  "mappages pgdir va sz pa perm s =
     (let a = PGROUNDDOWN va; last = PGROUNDDOWN (u32 (int va + int sz - 1)) in
      mappages_loop pgdir a pa perm (u32 (int last - int a) div PGSIZE) s)"

lemma PDX_next: "a < 2 ^ 32 \<Longrightarrow> a < (PDX a + 1) * 2 ^ 22"
proof -
  assume "a < 2 ^ 32"
  then have "a div 2 ^ 22 < 1024" by (simp add: less_mult_imp_div_less)
  then have "PDX a = a div 2 ^ 22" by (simp add: PDX_def)
  moreover have "a mod 2 ^ 22 < 2 ^ 22" "a div 2 ^ 22 * 2 ^ 22 + a mod 2 ^ 22 = a"
    by (simp_all only: div_mult_mod_eq mod_less_divisor zero_less_power zero_less_numeral)
  ultimately show ?thesis by (simp only: distrib_right)
qed

text \<open>
  When there is no page table the loop skips to the next directory entry. Past the last
  directory entry the address wraps to 0 and the loop never ends; its value there is
  \<open>Undef\<close>. No caller passes sizes above \<^verbatim>\<open>KERNBASE\<close>.
\<close>

function deallocuvm_loop :: "nat \<Rightarrow> nat \<Rightarrow> nat \<Rightarrow> kmem_st \<Rightarrow> kmem_st res" where
  "deallocuvm_loop pgdir a oldsz s =
     (if a < oldsz \<and> a < 2 ^ 32 then
        let pte = fst (walkpgdir pgdir a False s) in
        if pte = 0 then
          if PDX a = 1023 then Undef else deallocuvm_loop pgdir ((PDX a + 1) * 2 ^ 22) oldsz s
        else if ld32 (kmem s) pte AND PTE_P \<noteq> 0 then
          let pa = PTE_ADDR (ld32 (kmem s) pte) in
          if pa = 0 then Panic ''kfree''
          else bnd (kfree (P2V pa) s) (\<lambda>s. deallocuvm_loop pgdir (a + PGSIZE) oldsz (st pte 0 s))
        else deallocuvm_loop pgdir (a + PGSIZE) oldsz s
      else Ok s)"
  by auto

termination
  by (relation "measure (\<lambda>(pgdir, a, oldsz, s). oldsz - a)")
    (use PDX_next in \<open>auto simp: param_defs diff_less_mono2\<close>)

declare deallocuvm_loop.simps [simp del]

definition deallocuvm :: "nat \<Rightarrow> nat \<Rightarrow> nat \<Rightarrow> kmem_st \<Rightarrow> (nat \<times> kmem_st) res" where
  "deallocuvm pgdir oldsz newsz s =
     (if oldsz \<le> newsz then Ok (oldsz, s)
      else bnd (deallocuvm_loop pgdir (PGROUNDUP newsz) oldsz s) (\<lambda>s. Ok (newsz, s)))"

function allocuvm_loop :: "nat \<Rightarrow> nat \<Rightarrow> nat \<Rightarrow> nat \<Rightarrow> kmem_st \<Rightarrow> (nat \<times> kmem_st) res" where
  "allocuvm_loop pgdir a oldsz newsz s =
     (if a < newsz then
        case kalloc s of (mem, s) \<Rightarrow>
        if mem = 0 then bnd (deallocuvm pgdir newsz oldsz s) (\<lambda>(_, s). Ok (0, s))
        else
          let s = s\<lparr>kmem := memset (kmem s) mem 0 PGSIZE\<rparr> in
          bnd (mappages pgdir a PGSIZE (V2P mem) (PTE_W OR PTE_U) s) (\<lambda>(r, s).
          if r < 0 then
            bnd (deallocuvm pgdir newsz oldsz s) (\<lambda>(_, s). bnd (kfree mem s) (\<lambda>s. Ok (0, s)))
          else allocuvm_loop pgdir (a + PGSIZE) oldsz newsz s)
      else Ok (newsz, s))"
  by auto

termination
  by (relation "measure (\<lambda>(pgdir, a, oldsz, newsz, s). newsz - a)") (auto simp: param_defs)

declare allocuvm_loop.simps [simp del]

definition allocuvm :: "nat \<Rightarrow> nat \<Rightarrow> nat \<Rightarrow> kmem_st \<Rightarrow> (nat \<times> kmem_st) res" where
  "allocuvm pgdir oldsz newsz s =
     (if KERNBASE \<le> newsz then Ok (0, s)
      else if newsz < oldsz then Ok (oldsz, s)
      else allocuvm_loop pgdir (PGROUNDUP oldsz) oldsz newsz s)"

fun freevm_loop :: "nat \<Rightarrow> nat list \<Rightarrow> kmem_st \<Rightarrow> kmem_st res" where
  "freevm_loop pgdir [] s = Ok s"
| "freevm_loop pgdir (i # is) s =
     (let pde = ld32 (kmem s) (pgdir + 4 * i) in
      if pde AND PTE_P \<noteq> 0 then bnd (kfree (P2V (PTE_ADDR pde)) s) (freevm_loop pgdir is)
      else freevm_loop pgdir is s)"

definition freevm :: "nat \<Rightarrow> kmem_st \<Rightarrow> kmem_st res" where
  "freevm pgdir s =
     (if pgdir = 0 then Panic ''freevm: no pgdir''
      else bnd (deallocuvm pgdir KERNBASE 0 s) (\<lambda>(_, s).
      bnd (freevm_loop pgdir [0..<NPDENTRIES] s) (kfree pgdir)))"

text \<open>The table of kernel mappings: virtual start, physical start and end, permissions.\<close>

definition kmap :: "kmem_st \<Rightarrow> (nat \<times> nat \<times> nat \<times> nat) list" where
  "kmap s = [(KERNBASE, 0, EXTMEM, PTE_W), (KERNLINK, V2P KERNLINK, V2P (kdata s), 0),
     (kdata s, V2P (kdata s), PHYSTOP, PTE_W), (DEVSPACE, DEVSPACE, 0, PTE_W)]"

fun setupkvm_loop :: "nat \<Rightarrow> (nat \<times> nat \<times> nat \<times> nat) list \<Rightarrow> kmem_st \<Rightarrow> (nat \<times> kmem_st) res" where
  "setupkvm_loop pgdir [] s = Ok (pgdir, s)"
| "setupkvm_loop pgdir ((virt, phys_start, phys_end, perm) # ks) s =
     bnd (mappages pgdir virt (u32 (int phys_end - int phys_start)) phys_start perm s) (\<lambda>(r, s).
     if r < 0 then bnd (freevm pgdir s) (\<lambda>s. Ok (0, s)) else setupkvm_loop pgdir ks s)"

definition setupkvm :: "kmem_st \<Rightarrow> (nat \<times> kmem_st) res" where
  "setupkvm s =
     (case kalloc s of (pgdir, s) \<Rightarrow>
      if pgdir = 0 then Ok (0, s)
      else
        let s = s\<lparr>kmem := memset (kmem s) pgdir 0 PGSIZE\<rparr> in
        if DEVSPACE < P2V PHYSTOP then Panic ''PHYSTOP too high''
        else setupkvm_loop pgdir (kmap s) s)"

definition inituvm :: "nat \<Rightarrow> byte list \<Rightarrow> kmem_st \<Rightarrow> kmem_st res" where
  "inituvm pgdir init s =
     (if PGSIZE \<le> length init then Panic ''inituvm: more than a page''
      else case kalloc s of (mem, s) \<Rightarrow>
        if mem = 0 then Undef
        else
          let s = s\<lparr>kmem := memset (kmem s) mem 0 PGSIZE\<rparr> in
          bnd (mappages pgdir 0 PGSIZE (V2P mem) (PTE_W OR PTE_U) s) (\<lambda>(_, s).
          Ok (s\<lparr>kmem := store (kmem s) mem init\<rparr>)))"

definition clearpteu :: "nat \<Rightarrow> nat \<Rightarrow> kmem_st \<Rightarrow> kmem_st res" where
  "clearpteu pgdir uva s =
     (let pte = fst (walkpgdir pgdir uva False s) in
      if pte = 0 then Panic ''clearpteu''
      else
        let e = ld32 (kmem s) pte in
        Ok (st pte (e - (e AND PTE_U)) s))"

function copyuvm_loop :: "nat \<Rightarrow> nat \<Rightarrow> nat \<Rightarrow> nat \<Rightarrow> kmem_st \<Rightarrow> (nat \<times> kmem_st) res" where
  "copyuvm_loop d pgdir i sz s =
     (if i < sz then
        let pte = fst (walkpgdir pgdir i False s) in
        if pte = 0 then Panic ''copyuvm: pte should exist''
        else
          let e = ld32 (kmem s) pte in
          if e AND PTE_P = 0 then Panic ''copyuvm: page not present''
          else case kalloc s of (mem, s) \<Rightarrow>
            if mem = 0 then bnd (freevm d s) (\<lambda>s. Ok (0, s))
            else
              let s = s\<lparr>kmem := memmove (kmem s) mem (P2V (PTE_ADDR e)) PGSIZE\<rparr> in
              bnd (mappages d i PGSIZE (V2P mem) (PTE_FLAGS e) s) (\<lambda>(r, s).
              if r < 0 then bnd (freevm d s) (\<lambda>s. Ok (0, s))
              else copyuvm_loop d pgdir (i + PGSIZE) sz s)
      else Ok (d, s))"
  by auto

termination
  by (relation "measure (\<lambda>(d, pgdir, i, sz, s). sz - i)") (auto simp: param_defs)

declare copyuvm_loop.simps [simp del]

definition copyuvm :: "nat \<Rightarrow> nat \<Rightarrow> kmem_st \<Rightarrow> (nat \<times> kmem_st) res" where
  "copyuvm pgdir sz s =
     bnd (setupkvm s) (\<lambda>(d, s). if d = 0 then Ok (0, s) else copyuvm_loop d pgdir 0 sz s)"

text \<open>A null entry is read by the code without a test.\<close>

definition uva2ka :: "nat \<Rightarrow> nat \<Rightarrow> kmem_st \<Rightarrow> nat res" where
  "uva2ka pgdir uva s =
     (let pte = fst (walkpgdir pgdir uva False s) in
      if pte = 0 then Undef
      else
        let e = ld32 (kmem s) pte in
        if e AND PTE_P = 0 then Ok 0
        else if e AND PTE_U = 0 then Ok 0
        else Ok (P2V (PTE_ADDR e)))"

lemma PGROUNDDOWN_gap: "va - PGROUNDDOWN va < PGSIZE"
  by (simp add: PGROUNDDOWN_def minus_div_mult_eq_mod param_defs)

function copyout :: "nat \<Rightarrow> nat \<Rightarrow> byte list \<Rightarrow> kmem_st \<Rightarrow> (int \<times> kmem_st) res" where
  "copyout pgdir va buf s =
     (if 0 < length buf then
        let va0 = PGROUNDDOWN va in
        bnd (uva2ka pgdir va0 s) (\<lambda>pa0.
        if pa0 = 0 then Ok (-1, s)
        else
          let n = min (PGSIZE - (va - va0)) (length buf) in
          copyout pgdir ((va0 + PGSIZE) mod 2 ^ 32) (drop n buf)
            (s\<lparr>kmem := store (kmem s) (pa0 + (va - va0)) (take n buf)\<rparr>))
      else Ok (0, s))"
  by auto

termination
proof (relation "measure (\<lambda>(pgdir, va, buf, s). length buf)", goal_cases)
  case (2 pgdir va buf s va0 pa0 n)
  then show ?case using PGROUNDDOWN_gap [of va] by auto
qed simp

declare copyout.simps [simp del]

end
