(* ===== verification/Kernel.thy ===== *)
theory Kernel
  imports Fs Crash Vm
begin

text \<open>
  The state that the process, file and pipe code shares: \<open>kern_st\<close> extends the file system's
  state with kernel memory, the process table, the file table and the pipes. A pointer to a
  process, an open file or an inode is an index into its table; a pipe is found by the address of its
  page. A trap frame or a saved context, which the code keeps at the top of a process's kernel
  stack, is a field of the process, as is the return address above the context. The spin locks around these tables make the routines atomic, as
  they are here; the scheduling steps between them are in theory \<open>Proc\<close>.
\<close>

section \<open>Structures\<close>

definition NPROC :: nat where "NPROC = 64"
definition NOFILE :: nat where "NOFILE = 16"
definition NFILE :: nat where "NFILE = 100"
definition MAXARG :: nat where "MAXARG = 32"
definition KSTACKSIZE :: nat where "KSTACKSIZE = 4096"
definition PIPESIZE :: nat where "PIPESIZE = 512"
definition INPUT_BUF :: nat where "INPUT_BUF = 128"

declare NPROC_def [param_defs] NOFILE_def [param_defs] NFILE_def [param_defs] MAXARG_def [param_defs]
  KSTACKSIZE_def [param_defs] PIPESIZE_def [param_defs] INPUT_BUF_def [param_defs]

datatype procstate = UNUSED | EMBRYO | SLEEPING | RUNNABLE | RUNNING | ZOMBIE

text \<open>Sleep channels are addresses of kernel objects: a process, the two counters of a pipe, the
  tick counter, the console's read index.\<close>

datatype chan = ChProc nat | ChNread nat | ChNwrite nat | ChTicks | ChInput

record trapframe =
  tf_edi :: nat
  tf_esi :: nat
  tf_ebp :: nat
  tf_oesp :: nat
  tf_ebx :: nat
  tf_edx :: nat
  tf_ecx :: nat
  tf_eax :: nat
  tf_gs :: nat
  tf_fs :: nat
  tf_es :: nat
  tf_ds :: nat
  tf_trapno :: nat
  tf_err :: nat
  tf_eip :: nat
  tf_cs :: nat
  tf_eflags :: nat
  tf_esp :: nat
  tf_ss :: nat

text \<open>Code addresses: two entry points of the kernel have names.\<close>

datatype pc = Pc nat | Forkret | Trapret

record kcontext =
  cx_edi :: nat
  cx_esi :: nat
  cx_ebx :: nat
  cx_ebp :: nat
  cx_eip :: pc

record proc =
  p_sz :: nat
  p_pgdir :: nat
  p_kstack :: nat
  p_state :: procstate
  p_pid :: int
  p_parent :: "nat option"
  p_tf :: trapframe
  p_context :: kcontext
  p_kret :: pc
  p_chan :: "chan option"
  p_killed :: bool
  p_ofile :: "nat option list"
  p_cwd :: "nat option"
  p_name :: "byte list"
  p_priority :: int
  p_start_ticks :: nat

datatype ftype = FD_NONE | FD_PIPE | FD_INODE

record kfile =
  f_type :: ftype
  f_ref :: int
  f_readable :: bool
  f_writable :: bool
  f_pipe :: nat
  f_ip :: nat
  f_off :: nat

record pipe =
  pi_data :: "byte list"
  pi_nread :: uint32
  pi_nwrite :: uint32
  pi_readopen :: bool
  pi_writeopen :: bool

text \<open>The console's input ring, with its read, write and edit indices.\<close>

record input_buf =
  in_buf :: "byte list"
  in_r :: uint32
  in_w :: uint32
  in_e :: uint32

text \<open>\<open>cons_out\<close> is the history of the characters given to \<^verbatim>\<open>consputc\<close>.\<close>

record kern_st = fs_st +
  km :: kmem_st
  ftable :: "kfile list"
  pipes :: "nat \<Rightarrow> pipe"
  ptable :: "proc list"
  cur :: "nat option"
  initproc :: "nat option"
  nextpid :: int
  ticks :: nat
  kpgdir :: nat
  cr3 :: nat
  esp0 :: nat
  forkret_first :: bool
  input :: input_buf
  cons_out :: "int list"

section \<open>The initial state\<close>

text \<open>
  Static storage starts as zeros, except for \<^verbatim>\<open>nextpid\<close> and the flag of
  \<^verbatim>\<open>forkret\<close>. The disk and kernel memory are given.
\<close>

definition zero_tf :: trapframe where
  "zero_tf = \<lparr>tf_edi = 0, tf_esi = 0, tf_ebp = 0, tf_oesp = 0, tf_ebx = 0, tf_edx = 0, tf_ecx = 0, tf_eax = 0,
     tf_gs = 0, tf_fs = 0, tf_es = 0, tf_ds = 0, tf_trapno = 0, tf_err = 0, tf_eip = 0, tf_cs = 0, tf_eflags = 0,
     tf_esp = 0, tf_ss = 0\<rparr>"

definition zero_context :: kcontext where
  "zero_context = \<lparr>cx_edi = 0, cx_esi = 0, cx_ebx = 0, cx_ebp = 0, cx_eip = Pc 0\<rparr>"

definition zero_proc :: proc where
  "zero_proc = \<lparr>p_sz = 0, p_pgdir = 0, p_kstack = 0, p_state = UNUSED, p_pid = 0, p_parent = None, p_tf = zero_tf,
     p_context = zero_context, p_kret = Pc 0, p_chan = None, p_killed = False, p_ofile = replicate NOFILE None, p_cwd = None,
     p_name = replicate 16 0, p_priority = 0, p_start_ticks = 0\<rparr>"

definition zero_file :: kfile where
  "zero_file = \<lparr>f_type = FD_NONE, f_ref = 0, f_readable = False, f_writable = False, f_pipe = 0, f_ip = 0, f_off = 0\<rparr>"

definition zero_pipe :: pipe where
  "zero_pipe = \<lparr>pi_data = replicate PIPESIZE 0, pi_nread = 0, pi_nwrite = 0, pi_readopen = False, pi_writeopen = False\<rparr>"

definition zero_inode :: inode where
  "zero_inode = \<lparr>i_dev = 0, i_inum = 0, i_ref = 0, i_lock = \<lparr>sl_locked = False, sl_pid = 0\<rparr>, i_valid = False, i_type = 0,
     i_major = 0, i_minor = 0, i_nlink = 0, i_size = 0, i_addrs = replicate (NDIRECT + 1) 0\<rparr>"

definition boot_kern :: "(nat \<Rightarrow> byte list) \<Rightarrow> nat \<Rightarrow> kmem_st \<Rightarrow> kern_st" where
  "boot_kern disk blocks k = \<lparr>mypid = 0, memdisk = disk, disksize = blocks, dwrites = [],
     bufs = replicate NBUF zero_buf, mru = [], log_start = 0, log_size = 0, outstanding = 0, committing = False,
     log_dev = 0, lh_n = 0, lh_block = replicate LOGSIZE 0,
     fsb = \<lparr>sb_size = 0, sb_nblocks = 0, sb_ninodes = 0, sb_nlog = 0, sb_logstart = 0, sb_inodestart = 0, sb_bmapstart = 0\<rparr>,
     icache = replicate NINODE zero_inode, km = k, ftable = replicate NFILE zero_file, pipes = (\<lambda>_. zero_pipe),
     ptable = replicate NPROC zero_proc, cur = None, initproc = None, nextpid = 1, ticks = 0, kpgdir = 0, cr3 = 0,
     esp0 = 0, forkret_first = True, input = \<lparr>in_buf = replicate INPUT_BUF 0, in_r = 0, in_w = 0, in_e = 0\<rparr>, cons_out = []\<rparr>"

definition empty_kmem :: kmem_st where
  "empty_kmem = \<lparr>kmem = \<lambda>_. 0, freelist = 0, use_lock = False, kend = 0x80108000, kdata = 0x80107000\<rparr>"

section \<open>Access\<close>

definition upd_proc :: "nat \<Rightarrow> (proc \<Rightarrow> proc) \<Rightarrow> 'a kern_st_scheme \<Rightarrow> 'a kern_st_scheme" where
  "upd_proc i f s = s\<lparr>ptable := (ptable s)[i := f (ptable s ! i)]\<rparr>"

definition upd_file :: "nat \<Rightarrow> (kfile \<Rightarrow> kfile) \<Rightarrow> 'a kern_st_scheme \<Rightarrow> 'a kern_st_scheme" where
  "upd_file i f s = s\<lparr>ftable := (ftable s)[i := f (ftable s ! i)]\<rparr>"

definition upd_pipe :: "nat \<Rightarrow> (pipe \<Rightarrow> pipe) \<Rightarrow> 'a kern_st_scheme \<Rightarrow> 'a kern_st_scheme" where
  "upd_pipe a f s = s\<lparr>pipes := (pipes s)(a := f (pipes s a))\<rparr>"

text \<open>\<^verbatim>\<open>myproc()\<close>; a null result that the code then dereferences is \<open>Undef\<close>.\<close>

definition myproc :: "'a kern_st_scheme \<Rightarrow> nat res" where
  "myproc s = (case cur s of Some i \<Rightarrow> Ok i | None \<Rightarrow> Undef)"

text \<open>Calls on kernel memory, lifted to the whole state.\<close>

definition in_km :: "(kmem_st \<Rightarrow> ('r \<times> kmem_st) res) \<Rightarrow> 'a kern_st_scheme \<Rightarrow> ('r \<times> 'a kern_st_scheme) res" where
  "in_km f s = bnd (f (km s)) (\<lambda>(r, k). Ok (r, s\<lparr>km := k\<rparr>))"

definition km_do :: "(kmem_st \<Rightarrow> kmem_st res) \<Rightarrow> 'a kern_st_scheme \<Rightarrow> 'a kern_st_scheme res" where
  "km_do f s = bnd (f (km s)) (\<lambda>k. Ok (s\<lparr>km := k\<rparr>))"

section \<open>Waking up\<close>

text \<open>The channel is an option because the code also calls \<^verbatim>\<open>wakeup1\<close> on a parent pointer that may be null.\<close>

definition wakeup1 :: "chan option \<Rightarrow> 'a kern_st_scheme \<Rightarrow> 'a kern_st_scheme" where
  "wakeup1 ch s = s\<lparr>ptable := map (\<lambda>p. if p_state p = SLEEPING \<and> p_chan p = ch
     then p\<lparr>p_state := RUNNABLE\<rparr> else p) (ptable s)\<rparr>"

definition wakeup :: "chan \<Rightarrow> 'a kern_st_scheme \<Rightarrow> 'a kern_st_scheme" where
  "wakeup ch s = wakeup1 (Some ch) s"

text \<open>
  \<^verbatim>\<open>sleep\<close> up to its call of \<^verbatim>\<open>sched\<close>: the current process is marked asleep on
  the channel. What follows the call, when the process is resumed, is \<open>resume_sleep\<close>.
\<close>

definition sleep :: "chan \<Rightarrow> 'a kern_st_scheme \<Rightarrow> 'a kern_st_scheme res" where
  "sleep ch s = (case cur s of None \<Rightarrow> Panic ''sleep''
     | Some i \<Rightarrow> Ok (upd_proc i (\<lambda>p. p\<lparr>p_chan := Some ch, p_state := SLEEPING\<rparr>) s))"

definition resume_sleep :: "nat \<Rightarrow> 'a kern_st_scheme \<Rightarrow> 'a kern_st_scheme" where
  "resume_sleep i s = upd_proc i (\<lambda>p. p\<lparr>p_chan := None\<rparr>) s"

section \<open>Lemmas\<close>

text \<open>What holds of the result of a call that returns: one rule for each construct of the model.\<close>

definition ifOk :: "'r res \<Rightarrow> ('r \<Rightarrow> bool) \<Rightarrow> bool" where
  "ifOk r Q \<longleftrightarrow> (\<forall>x. r = Ok x \<longrightarrow> Q x)"

lemma ifOkD: "ifOk r Q \<Longrightarrow> r = Ok x \<Longrightarrow> Q x"
  by (simp add: ifOk_def)

named_theorems ifOk_intros

lemma ifOk_end [ifOk_intros]: "Q x \<Longrightarrow> ifOk (Ok x) Q" "ifOk (Panic m) Q" "ifOk Undef Q" "ifOk Blocks Q"
  by (simp_all add: ifOk_def)

lemma ifOk_bnd [ifOk_intros]: "(\<And>x. r = Ok x \<Longrightarrow> ifOk (f x) Q) \<Longrightarrow> ifOk (bnd r f) Q"
  by (auto simp: ifOk_def bnd_eq_Ok)

lemma ifOk_if [ifOk_intros]: "(b \<Longrightarrow> ifOk r Q) \<Longrightarrow> (\<not> b \<Longrightarrow> ifOk r' Q) \<Longrightarrow> ifOk (if b then r else r') Q"
  by simp

lemma ifOk_Let [ifOk_intros]: "(\<And>x. x = e \<Longrightarrow> ifOk (f x) Q) \<Longrightarrow> ifOk (let x = e in f x) Q"
  by simp

lemma ifOk_prod [ifOk_intros]: "(\<And>a b. p = (a, b) \<Longrightarrow> ifOk (f a b) Q) \<Longrightarrow> ifOk (case p of (a, b) \<Rightarrow> f a b) Q"
  by (cases p) simp

lemma ifOk_prod2 [ifOk_intros]: "(\<And>a b. p = (a, b) \<Longrightarrow> ifOk (f a b s) Q) \<Longrightarrow> ifOk ((case p of (a, b) \<Rightarrow> f a b) s) Q"
  by (cases p) simp

lemma ifOk_option [ifOk_intros]:
  "(x = None \<Longrightarrow> ifOk r Q) \<Longrightarrow> (\<And>y. x = Some y \<Longrightarrow> ifOk (f y) Q) \<Longrightarrow> ifOk (case x of None \<Rightarrow> r | Some y \<Rightarrow> f y) Q"
  by (cases x) simp_all

lemma myproc_Ok: "myproc s = Ok i \<longleftrightarrow> cur s = Some i"
  by (simp add: myproc_def split: option.splits)

lemma kern_upd_simps [simp]:
  "ftable (upd_proc i f s) = ftable s" "pipes (upd_proc i f s) = pipes s" "cur (upd_proc i f s) = cur s"
  "ptable (upd_file i g s) = ptable s" "pipes (upd_file i g s) = pipes s" "cur (upd_file i g s) = cur s"
  "ptable (upd_pipe a h s) = ptable s" "ftable (upd_pipe a h s) = ftable s" "cur (upd_pipe a h s) = cur s"
  "pipes (upd_pipe a h s) = (pipes s)(a := h (pipes s a))"
  "length (ptable (upd_proc i f s)) = length (ptable s)" "length (ftable (upd_file i g s)) = length (ftable s)"
  "km (upd_proc i f s) = km s" "km (upd_file i g s) = km s" "km (upd_pipe a h s) = km s"
  by (simp_all add: upd_proc_def upd_file_def upd_pipe_def)

lemma nth_upd_proc: "j < length (ptable s) \<Longrightarrow> ptable (upd_proc i f s) ! j = (if j = i then f (ptable s ! i) else ptable s ! j)"
  by (simp add: upd_proc_def nth_list_update)

lemma wakeup_simps [simp]:
  "pipes (wakeup ch s) = pipes s" "ftable (wakeup ch s) = ftable s" "cur (wakeup ch s) = cur s" "km (wakeup ch s) = km s"
  "length (ptable (wakeup ch s)) = length (ptable s)"
  by (simp_all add: wakeup_def wakeup1_def)

lemma sleep_pipes: "sleep ch s = Ok t \<Longrightarrow> pipes t = pipes s"
  by (auto simp: sleep_def split: option.splits)

end
