(* ===== verification/Pipe.thy ===== *)
theory Pipe
  imports Kernel
begin

text \<open>
  Pipes (\<^verbatim>\<open>pipe.c\<close>). The counters \<open>nread\<close> and \<open>nwrite\<close> are 32-bit and wrap
  around; the byte at position \<open>n\<close> of the stream is at \<open>n mod PIPESIZE\<close> of the buffer. A call
  runs until it returns or sleeps: \<open>Sleep\<close> keeps what is left to do, and the routine goes on
  from there when the process is resumed, re-testing the loop condition as the code does. The spin
  lock of the pipe makes each such run atomic.

  The second half shows that the buffer refines a bounded queue, across the wrap-around of
  both counters, and that under every interleaving of any number of writers and readers the bytes received
  and buffered are an interleaving of what the writers have written, each in its order.
\<close>

section \<open>Operations\<close>

datatype 'r pipe_ret = Ret 'r | Sleep

definition pipe_full :: "pipe \<Rightarrow> bool" where
  "pipe_full p \<longleftrightarrow> pi_nwrite p = pi_nread p + word_of_nat PIPESIZE"

definition pipe_put :: "byte \<Rightarrow> pipe \<Rightarrow> pipe" where
  "pipe_put b p = p\<lparr>pi_data := (pi_data p)[unat (pi_nwrite p) mod PIPESIZE := b], pi_nwrite := pi_nwrite p + 1\<rparr>"

definition pipe_get :: "pipe \<Rightarrow> byte \<times> pipe" where
  "pipe_get p = (pi_data p ! (unat (pi_nread p) mod PIPESIZE), p\<lparr>pi_nread := pi_nread p + 1\<rparr>)"

definition killed :: "'a kern_st_scheme \<Rightarrow> bool" where
  "killed s = (case cur s of Some i \<Rightarrow> p_killed (ptable s ! i) | None \<Rightarrow> False)"

text \<open>The write loop on the bytes still to be written; \<open>n\<close> is the count to return. The third result is what is left.\<close>

fun pipewrite_loop :: "nat \<Rightarrow> nat \<Rightarrow> byte list \<Rightarrow> 'a kern_st_scheme \<Rightarrow> (int pipe_ret \<times> byte list \<times> 'a kern_st_scheme) res" where
  "pipewrite_loop n p [] s = Ok (Ret (int n), [], wakeup (ChNread p) s)"
| "pipewrite_loop n p (b # bs) s =
     (if pipe_full (pipes s p) then
        if \<not> pi_readopen (pipes s p) \<or> killed s then Ok (Ret (-1), b # bs, s)
        else bnd (sleep (ChNwrite p) (wakeup (ChNread p) s)) (\<lambda>s. Ok (Sleep, b # bs, s))
      else pipewrite_loop n p bs (upd_pipe p (pipe_put b) s))"

definition pipewrite :: "nat \<Rightarrow> byte list \<Rightarrow> 'a kern_st_scheme \<Rightarrow> (int pipe_ret \<times> byte list \<times> 'a kern_st_scheme) res" where
  "pipewrite p addr s = pipewrite_loop (length addr) p addr s"

fun piperead_copy :: "nat \<Rightarrow> nat \<Rightarrow> 'a kern_st_scheme \<Rightarrow> byte list \<times> 'a kern_st_scheme" where
  "piperead_copy p 0 s = ([], s)"
| "piperead_copy p (Suc n) s =
     (if pi_nread (pipes s p) = pi_nwrite (pipes s p) then ([], s)
      else case pipe_get (pipes s p) of (b, q) \<Rightarrow>
        case piperead_copy p n (upd_pipe p (\<lambda>_. q) s) of (bs, s) \<Rightarrow> (b # bs, s))"

text \<open>The result of a read that returns is the count and the bytes delivered.\<close>

definition piperead :: "nat \<Rightarrow> nat \<Rightarrow> 'a kern_st_scheme \<Rightarrow> ((int \<times> byte list) pipe_ret \<times> 'a kern_st_scheme) res" where
  "piperead p n s =
     (if pi_nread (pipes s p) = pi_nwrite (pipes s p) \<and> pi_writeopen (pipes s p) then
        if killed s then Ok (Ret (-1, []), s)
        else bnd (sleep (ChNread p) s) (\<lambda>s. Ok (Sleep, s))
      else case piperead_copy p n s of (bs, s) \<Rightarrow> Ok (Ret (int (length bs), bs), wakeup (ChNwrite p) s))"

definition pipeclose :: "nat \<Rightarrow> bool \<Rightarrow> 'a kern_st_scheme \<Rightarrow> 'a kern_st_scheme res" where
  "pipeclose p writable s =
     (let s = (if writable then wakeup (ChNread p) (upd_pipe p (\<lambda>q. q\<lparr>pi_writeopen := False\<rparr>) s)
               else wakeup (ChNwrite p) (upd_pipe p (\<lambda>q. q\<lparr>pi_readopen := False\<rparr>) s)) in
      if \<not> pi_readopen (pipes s p) \<and> \<not> pi_writeopen (pipes s p) then km_do (kfree p) s else Ok s)"

section \<open>The queue in the buffer\<close>

definition pipe_len :: "pipe \<Rightarrow> nat" where
  "pipe_len p = unat (pi_nwrite p - pi_nread p)"

definition pipe_inv :: "pipe \<Rightarrow> bool" where
  "pipe_inv p \<longleftrightarrow> length (pi_data p) = PIPESIZE \<and> pipe_len p \<le> PIPESIZE"

definition pipe_q :: "pipe \<Rightarrow> byte list" where
  "pipe_q p = map (\<lambda>k. pi_data p ! (unat (pi_nread p + word_of_nat k) mod PIPESIZE)) [0..<pipe_len p]"

lemma length_pipe_q [simp]: "length (pipe_q p) = pipe_len p"
  by (simp add: pipe_q_def)

lemma unat_add_mod: "unat (x + word_of_nat k :: uint32) mod PIPESIZE = (unat x + k) mod PIPESIZE"
proof -
  have "unat (x + word_of_nat k) = (unat x + k) mod 2 ^ 32" by (simp add: unat_word_ariths unat_of_nat mod_simps)
  then show ?thesis by (simp add: PIPESIZE_def mod_mod_cancel)
qed

lemma full_iff:
  assumes "pipe_inv p"
  shows "pipe_full p \<longleftrightarrow> length (pipe_q p) = PIPESIZE"
proof -
  have "pipe_full p \<longleftrightarrow> pi_nwrite p - pi_nread p = word_of_nat PIPESIZE"
    unfolding pipe_full_def by (metis add_diff_cancel_left' diff_add_cancel add.commute)
  also have "\<dots> \<longleftrightarrow> unat (pi_nwrite p - pi_nread p) = unat (word_of_nat PIPESIZE :: uint32)"
    by (simp only: unsigned_word_eqI word_unat_eq_iff)
  also have "unat (word_of_nat PIPESIZE :: uint32) = PIPESIZE" by (simp add: PIPESIZE_def)
  finally show ?thesis by (simp add: pipe_len_def)
qed

lemma empty_iff: "pi_nread p = pi_nwrite p \<longleftrightarrow> pipe_q p = []"
  by (auto simp: pipe_q_def pipe_len_def unat_eq_0)

lemma put_q:
  assumes inv: "pipe_inv p" and room: "pipe_len p < PIPESIZE"
  shows "pipe_inv (pipe_put b p)" "pipe_q (pipe_put b p) = pipe_q p @ [b]"
proof -
  have len: "pipe_len (pipe_put b p) = pipe_len p + 1"
  proof -
    have "pi_nwrite p + 1 - pi_nread p = (pi_nwrite p - pi_nread p) + 1" by simp
    moreover have "unat (pi_nwrite p - pi_nread p) + 1 < 2 ^ 32" using room by (simp add: pipe_len_def PIPESIZE_def)
    ultimately have "unat (pi_nwrite p + 1 - pi_nread p) = unat (pi_nwrite p - pi_nread p) + 1"
      by (simp only: unat_word_ariths) simp
    then show ?thesis by (simp add: pipe_len_def pipe_put_def)
  qed
  then show "pipe_inv (pipe_put b p)" using inv room by (simp add: pipe_inv_def pipe_put_def)
  have w: "unat (pi_nwrite p) mod PIPESIZE = (unat (pi_nread p) + pipe_len p) mod PIPESIZE"
    using unat_add_mod [of "pi_nread p" "pipe_len p"] by (simp add: pipe_len_def)
  have ne: "(unat (pi_nread p) + k) mod PIPESIZE \<noteq> (unat (pi_nread p) + pipe_len p) mod PIPESIZE" if "k < pipe_len p" for k
  proof
    assume "(unat (pi_nread p) + k) mod PIPESIZE = (unat (pi_nread p) + pipe_len p) mod PIPESIZE"
    then have "PIPESIZE dvd (unat (pi_nread p) + pipe_len p) - (unat (pi_nread p) + k)"
      using that by (metis mod_eq_dvd_iff_nat nat_add_left_cancel_le less_imp_le)
    then have "PIPESIZE dvd pipe_len p - k" by simp
    then show False using that room by (auto dest: dvd_imp_le)
  qed
  have d: "length (pi_data p) = PIPESIZE" using inv by (simp add: pipe_inv_def)
  show "pipe_q (pipe_put b p) = pipe_q p @ [b]"
  proof (rule nth_equalityI)
    show "length (pipe_q (pipe_put b p)) = length (pipe_q p @ [b])" using len by simp
  next
    fix k assume "k < length (pipe_q (pipe_put b p))"
    then have k: "k < pipe_len p + 1" using len by simp
    let ?i = "(unat (pi_nread p) + pipe_len p) mod PIPESIZE"
    have "pipe_q (pipe_put b p) ! k = (pi_data p)[?i := b] ! ((unat (pi_nread p) + k) mod PIPESIZE)"
      using k len by (simp add: pipe_q_def unat_add_mod w [symmetric]) (simp add: pipe_put_def)
    also have "\<dots> = (if k = pipe_len p then b else pi_data p ! ((unat (pi_nread p) + k) mod PIPESIZE))"
      using ne [of k] k d by (auto simp: PIPESIZE_def)
    finally show "pipe_q (pipe_put b p) ! k = (pipe_q p @ [b]) ! k"
      using k by (auto simp: nth_append pipe_q_def unat_add_mod)
  qed
qed

lemma get_q:
  assumes inv: "pipe_inv p" and ne: "pipe_q p \<noteq> []"
  shows "pipe_inv (snd (pipe_get p))" "pipe_q p = fst (pipe_get p) # pipe_q (snd (pipe_get p))"
proof -
  have pos: "0 < pipe_len p" using ne by (metis length_pipe_q length_greater_0_conv)
  have len: "pipe_len (snd (pipe_get p)) = pipe_len p - 1"
  proof -
    have e: "pi_nwrite p - (pi_nread p + 1) = (pi_nwrite p - pi_nread p) - 1" by simp
    have "pi_nwrite p - pi_nread p \<noteq> 0" using pos by (auto simp: pipe_len_def)
    from unat_minus_one [OF this]
    have "unat (pi_nwrite p - (pi_nread p + 1)) = unat (pi_nwrite p - pi_nread p) - 1" unfolding e .
    then show ?thesis by (simp add: pipe_len_def pipe_get_def)
  qed
  then show "pipe_inv (snd (pipe_get p))" using inv by (auto simp: pipe_inv_def pipe_get_def)
  show "pipe_q p = fst (pipe_get p) # pipe_q (snd (pipe_get p))"
  proof (rule nth_equalityI)
    show "length (pipe_q p) = length (fst (pipe_get p) # pipe_q (snd (pipe_get p)))" using len pos by simp
  next
    fix k assume "k < length (pipe_q p)"
    then show "pipe_q p ! k = (fst (pipe_get p) # pipe_q (snd (pipe_get p))) ! k"
      using len by (cases k) (auto simp: pipe_q_def pipe_get_def One_nat_def add.assoc)
  qed
qed

section \<open>Runs of the loops\<close>

text \<open>The interface of a bounded queue, and that the ring buffer provides it.\<close>

locale bounded_queue =
  fixes inv :: "'q \<Rightarrow> bool" and contents :: "'q \<Rightarrow> 'b list" and cap :: nat
    and is_full is_empty :: "'q \<Rightarrow> bool" and put :: "'b \<Rightarrow> 'q \<Rightarrow> 'q" and get :: "'q \<Rightarrow> 'b \<times> 'q"
  assumes bounded: "inv q \<Longrightarrow> length (contents q) \<le> cap"
    and full_law: "inv q \<Longrightarrow> is_full q \<longleftrightarrow> length (contents q) = cap"
    and empty_law: "inv q \<Longrightarrow> is_empty q \<longleftrightarrow> contents q = []"
    and put_law: "inv q \<Longrightarrow> \<not> is_full q \<Longrightarrow> inv (put b q) \<and> contents (put b q) = contents q @ [b]"
    and get_law: "inv q \<Longrightarrow> \<not> is_empty q \<Longrightarrow> inv (snd (get q)) \<and> contents q = fst (get q) # contents (snd (get q))"
begin

text \<open>Filling until full or done, and draining at most \<open>n\<close>.\<close>

fun fill :: "'b list \<Rightarrow> 'q \<Rightarrow> 'b list \<times> 'q" where
  "fill [] q = ([], q)"
| "fill (b # bs) q = (if is_full q then (b # bs, q) else fill bs (put b q))"

fun drain :: "nat \<Rightarrow> 'q \<Rightarrow> 'b list \<times> 'q" where
  "drain 0 q = ([], q)"
| "drain (Suc n) q = (if is_empty q then ([], q)
     else case get q of (b, q) \<Rightarrow> case drain n q of (bs, q) \<Rightarrow> (b # bs, q))"

lemma fill_ok:
  "inv q \<Longrightarrow> fill bs q = (rest, r) \<Longrightarrow> inv r \<and> contents r @ rest = contents q @ bs \<and> (rest \<noteq> [] \<longrightarrow> length (contents r) = cap)"
proof (induction bs arbitrary: q)
  case (Cons b bs)
  show ?case
  proof (cases "is_full q")
    case True
    then show ?thesis using Cons.prems full_law by auto
  next
    case False
    then show ?thesis using Cons.IH [of "put b q"] Cons.prems put_law [of q b] by auto
  qed
qed auto

lemma fill_split: "fill bs q = (rest, r) \<Longrightarrow> \<exists>cs. bs = cs @ rest"
proof (induction bs arbitrary: q)
  case (Cons b bs)
  show ?case
  proof (cases "is_full q")
    case False
    then obtain cs where "bs = cs @ rest" using Cons.IH [of "put b q"] Cons.prems by auto
    then show ?thesis by (intro exI [of _ "b # cs"]) simp
  qed (use Cons.prems in auto)
qed simp

lemma drain_ok:
  "inv q \<Longrightarrow> drain n q = (bs, r) \<Longrightarrow> inv r \<and> contents q = bs @ contents r \<and> length bs = min n (length (contents q))"
proof (induction n arbitrary: q bs)
  case (Suc n)
  show ?case
  proof (cases "is_empty q")
    case True
    then show ?thesis using Suc.prems empty_law by auto
  next
    case False
    obtain b q1 where g: "get q = (b, q1)" by (cases "get q")
    obtain cs where d: "drain n q1 = (cs, r)" "bs = b # cs"
      using Suc.prems(2) False g by (auto split: prod.splits)
    have q1: "inv q1" "contents q = b # contents q1" using get_law [OF Suc.prems(1) False] g by auto
    have "inv r \<and> contents q1 = cs @ contents r \<and> length cs = min n (length (contents q1))"
      by (rule Suc.IH [OF q1(1) d(1)])
    then show ?thesis unfolding q1(2) d(2) by (metis append_Cons length_Cons min_Suc_Suc)
  qed
qed auto

end

interpretation pq: bounded_queue pipe_inv pipe_q PIPESIZE pipe_full "\<lambda>p. pi_nread p = pi_nwrite p" pipe_put pipe_get
proof
  fix q b
  show "pipe_inv q \<Longrightarrow> length (pipe_q q) \<le> PIPESIZE" by (simp add: pipe_inv_def)
  show "pipe_inv q \<Longrightarrow> pipe_full q \<longleftrightarrow> length (pipe_q q) = PIPESIZE" by (rule full_iff)
  show "pipe_inv q \<Longrightarrow> (pi_nread q = pi_nwrite q) = (pipe_q q = [])" by (rule empty_iff)
  show "pipe_inv q \<Longrightarrow> \<not> pipe_full q \<Longrightarrow> pipe_inv (pipe_put b q) \<and> pipe_q (pipe_put b q) = pipe_q q @ [b]"
    using put_q [of q b] full_iff [of q] by (auto simp: pipe_inv_def)
  show "pipe_inv q \<Longrightarrow> pi_nread q \<noteq> pi_nwrite q \<Longrightarrow>
    pipe_inv (snd (pipe_get q)) \<and> pipe_q q = fst (pipe_get q) # pipe_q (snd (pipe_get q))"
    using get_q [of q] empty_iff [of q] by auto
qed

lemma pipewrite_loop_fill:
  assumes "cur s = Some i"
  shows "\<exists>r t. pipewrite_loop n p bs s = Ok (r, fst (pq.fill bs (pipes s p)), t) \<and>
    pipes t = (pipes s)(p := snd (pq.fill bs (pipes s p))) \<and> cur t = Some i \<and> km t = km s \<and>
    (fst (pq.fill bs (pipes s p)) = [] \<longleftrightarrow> r = Ret (int n)) \<and>
    (r = Sleep \<longleftrightarrow> fst (pq.fill bs (pipes s p)) \<noteq> [] \<and> pi_readopen (pipes s p) \<and> \<not> p_killed (ptable s ! i))"
  using assms
proof (induction bs arbitrary: s)
  case Nil
  then show ?case by (intro exI [of _ "Ret (int n)"] exI [of _ "wakeup (ChNread p) s"]) simp
next
  case (Cons b bs)
  show ?case
  proof (cases "pipe_full (pipes s p)")
    case True
    let ?t = "upd_proc i (\<lambda>q. q\<lparr>p_chan := Some (ChNwrite p), p_state := SLEEPING\<rparr>) (wakeup (ChNread p) s)"
    show ?thesis
    proof (cases "\<not> pi_readopen (pipes s p) \<or> p_killed (ptable s ! i)")
      case stop: True
      then show ?thesis using True Cons.prems
        by (intro exI [of _ "Ret (-1)"] exI [of _ s]) (simp add: killed_def)
    next
      case False
      then show ?thesis using True Cons.prems
        by (intro exI [of _ Sleep] exI [of _ ?t]) (simp add: killed_def sleep_def)
    qed
  next
    case False
    let ?s = "upd_pipe p (pipe_put b) s"
    have "cur ?s = Some i" using Cons.prems by simp
    from Cons.IH [OF this] obtain r t where t: "pipewrite_loop n p bs ?s = Ok (r, fst (pq.fill bs (pipes ?s p)), t)"
      "pipes t = (pipes ?s)(p := snd (pq.fill bs (pipes ?s p)))" "cur t = Some i" "km t = km ?s"
      "fst (pq.fill bs (pipes ?s p)) = [] \<longleftrightarrow> r = Ret (int n)"
      "r = Sleep \<longleftrightarrow> fst (pq.fill bs (pipes ?s p)) \<noteq> [] \<and> pi_readopen (pipes ?s p) \<and> \<not> p_killed (ptable ?s ! i)"
      by blast
    have "pipes ?s p = pipe_put b (pipes s p)" "pi_readopen (pipe_put b (pipes s p)) = pi_readopen (pipes s p)"
      by (simp_all add: pipe_put_def)
    then show ?thesis using t False by (intro exI [of _ r] exI [of _ t]) (simp add: fun_upd_upd)
  qed
qed

lemma piperead_copy_drain:
  "piperead_copy p n s = (fst (pq.drain n (pipes s p)), s\<lparr>pipes := (pipes s)(p := snd (pq.drain n (pipes s p)))\<rparr>)"
proof (induction n arbitrary: s)
  case (Suc n)
  show ?case
  proof (cases "pi_nread (pipes s p) = pi_nwrite (pipes s p)")
    case True
    then show ?thesis by simp
  next
    case False
    obtain b q where g: "pipe_get (pipes s p) = (b, q)" by (cases "pipe_get (pipes s p)")
    obtain bs r where d: "pq.drain n q = (bs, r)" by (cases "pq.drain n q")
    have "piperead_copy p n (upd_pipe p (\<lambda>_. q) s) = (bs, s\<lparr>pipes := (pipes s)(p := r)\<rparr>)"
      unfolding Suc.IH kern_upd_simps fun_upd_same fun_upd_upd d by (simp add: upd_pipe_def)
    then show ?thesis
      by (simp only: piperead_copy.simps pq.drain.simps False if_False g d prod.case fst_conv snd_conv)
  qed
qed simp

section \<open>Writers and readers\<close>

text \<open>
  Processes that share the pipe at address \<open>p\<close>. A configuration is what each process, by its slot, still has to
  write, what has been received so far and the kernel state; whoever runs next is any process. A process writes
  the next of its bytes, any number of them, in one call of \<^verbatim>\<open>pipewrite\<close>; when the call sleeps, its bytes that did not fit are still to be
  written, and other processes may write before it runs again. A run that sleeps is a step too.
\<close>

type_synonym 'a pipe_conf = "(nat \<Rightarrow> byte list) \<times> byte list \<times> 'a kern_st_scheme"

inductive pipe_step :: "nat \<Rightarrow> 'a pipe_conf \<Rightarrow> 'a pipe_conf \<Rightarrow> bool"
  for p :: nat where
  wr: "rest i = bs @ later \<Longrightarrow> pipewrite_loop n p bs (s\<lparr>cur := Some i\<rparr>) = Ok (r, bs', t) \<Longrightarrow>
    pipe_step p (rest, got, s) (rest(i := bs' @ later), got, t)"
| rd: "piperead p n (s\<lparr>cur := Some i\<rparr>) = Ok (Ret (k, bs), t) \<Longrightarrow> pipe_step p (rest, got, s) (rest, got @ bs, t)"
| rd_sleep: "piperead p n (s\<lparr>cur := Some i\<rparr>) = Ok (Sleep, t) \<Longrightarrow> pipe_step p (rest, got, s) (rest, got, t)"

inductive_cases pipe_stepE: "pipe_step p c c'"

lemma pipewrite_run:
  assumes "pipe_inv (pipes s p)" "pipewrite_loop n p bs (s\<lparr>cur := Some i\<rparr>) = Ok (r, rest, t)"
  shows "pipe_inv (pipes t p)" "\<exists>cs. bs = cs @ rest \<and> pipe_q (pipes t p) = pipe_q (pipes s p) @ cs"
proof -
  have "rest = fst (pq.fill bs (pipes s p))" "pipes t p = snd (pq.fill bs (pipes s p))"
    using pipewrite_loop_fill [of "s\<lparr>cur := Some i\<rparr>" i n p bs] assms(2) by auto
  then have f: "pq.fill bs (pipes s p) = (rest, pipes t p)" by simp
  show "pipe_inv (pipes t p)" using pq.fill_ok [OF assms(1) f] by simp
  obtain cs where cs: "bs = cs @ rest" using pq.fill_split [OF f] by blast
  have "pipe_q (pipes t p) @ rest = pipe_q (pipes s p) @ bs" using pq.fill_ok [OF assms(1) f] by simp
  then show "\<exists>cs. bs = cs @ rest \<and> pipe_q (pipes t p) = pipe_q (pipes s p) @ cs"
    unfolding cs append_assoc [symmetric] append_same_eq by blast
qed

lemma piperead_run:
  assumes "pipe_inv (pipes s p)" "piperead p n (s\<lparr>cur := Some i\<rparr>) = Ok (Ret (k, bs), t)"
  shows "pipe_inv (pipes t p)" "pipe_q (pipes s p) = bs @ pipe_q (pipes t p)"
    "k = int (length bs) \<and> length bs = min n (length (pipe_q (pipes s p))) \<or> k = -1 \<and> bs = []"
proof -
  obtain cs q where d: "pq.drain n (pipes s p) = (cs, q)" by (cases "pq.drain n (pipes s p)")
  note dr = pq.drain_ok [OF assms(1) d]
  have "pipe_inv (pipes t p) \<and> pipe_q (pipes s p) = bs @ pipe_q (pipes t p) \<and>
    (k = int (length bs) \<and> length bs = min n (length (pipe_q (pipes s p))) \<or> k = -1 \<and> bs = [])"
  proof (cases "pi_nread (pipes s p) = pi_nwrite (pipes s p) \<and> pi_writeopen (pipes s p)")
    case True
    have "k = -1 \<and> bs = [] \<and> t = s\<lparr>cur := Some i\<rparr>"
      using assms(2) True by (cases "killed (s\<lparr>cur := Some i\<rparr>)") (simp_all add: piperead_def bnd_eq_Ok)
    then show ?thesis using assms(1) by simp
  next
    case False
    then have eq: "bs = cs" "k = int (length cs)" "pipes t p = q"
      using assms(2) d by (auto simp: piperead_def piperead_copy_drain)
    show ?thesis unfolding eq using dr by blast
  qed
  then show "pipe_inv (pipes t p)" "pipe_q (pipes s p) = bs @ pipe_q (pipes t p)"
    "k = int (length bs) \<and> length bs = min n (length (pipe_q (pipes s p))) \<or> k = -1 \<and> bs = []" by blast+
qed

text \<open>
  What has been received and what is buffered is the list of bytes of a history of writes, in which the bytes of each writer \<open>w\<close> and what it
  has left make up \<open>W w\<close>.
\<close>

definition written_by :: "nat \<Rightarrow> (nat \<times> byte) list \<Rightarrow> byte list" where
  "written_by w hist = map snd (filter (\<lambda>x. fst x = w) hist)"

lemma written_by_run: "written_by w (hist @ map (Pair i) cs) = written_by w hist @ (if w = i then cs else [])"
  by (simp add: written_by_def filter_map o_def)

definition pipe_good :: "nat \<Rightarrow> (nat \<Rightarrow> byte list) \<Rightarrow> 'a pipe_conf \<Rightarrow> bool" where
  "pipe_good p W = (\<lambda>(rest, got, s). pipe_inv (pipes s p) \<and>
     (\<exists>hist. got @ pipe_q (pipes s p) = map snd hist \<and> (\<forall>w. written_by w hist @ rest w = W w)))"

lemma pipe_good_wr:
  assumes "pipe_good p W (rest, got, s)" "rest i = bs @ later" "pipewrite_loop n p bs (s\<lparr>cur := Some i\<rparr>) = Ok (r, bs', t)"
  shows "pipe_good p W (rest(i := bs' @ later), got, t)"
proof -
  obtain hist where h: "pipe_inv (pipes s p)" "got @ pipe_q (pipes s p) = map snd hist" "\<And>w. written_by w hist @ rest w = W w"
    using assms(1) by (auto simp: pipe_good_def)
  obtain cs where cs: "bs = cs @ bs'" "pipe_q (pipes t p) = pipe_q (pipes s p) @ cs"
    using pipewrite_run(2) [OF h(1) assms(3)] by blast
  have "got @ pipe_q (pipes t p) = map snd (hist @ map (Pair i) cs)" using h(2) cs(2) by (simp add: o_def)
  moreover have "written_by w (hist @ map (Pair i) cs) @ (rest(i := bs' @ later)) w = W w" for w
    using h(3) [of w] assms(2) cs(1) unfolding written_by_run by auto
  ultimately show ?thesis using pipewrite_run(1) [OF h(1) assms(3)] unfolding pipe_good_def by blast
qed

lemma pipe_step_good:
  assumes "pipe_step p c c'" "pipe_good p W c"
  shows "pipe_good p W c'"
  using assms(1)
proof (cases rule: pipe_step.cases)
  case (wr rest i bs later n s r bs' t got)
  then show ?thesis using pipe_good_wr assms(2) by blast
next
  case (rd n i s k bs t rest got)
  have "pipe_inv (pipes s p)" using assms(2) rd(1) by (simp add: pipe_good_def)
  from piperead_run(1,2) [OF this rd(3)] show ?thesis using assms(2) unfolding rd pipe_good_def by simp
next
  case (rd_sleep n i s t rest got)
  have "pipes t = pipes s"
    using rd_sleep(3) by (auto simp: piperead_def piperead_copy_drain bnd_eq_Ok dest: sleep_pipes split: if_splits)
  then show ?thesis using assms(2) unfolding rd_sleep pipe_good_def by simp
qed

text \<open>
  C10. Order and integrity of a pipe. Any number of processes write to an empty pipe, process \<open>w\<close> the bytes \<open>W w\<close>, while others read
  from it, in any interleaving of runs and sleeps. At every point what the readers have received, followed by
  what is buffered, is an interleaving of the bytes written so far, in which the bytes of each writer, followed by what it still has to
  write, are \<open>W w\<close>: no byte is lost, duplicated or made up, and the bytes of one writer keep their order, for any lengths, across the
  wrap-around of the 512-byte buffer and of the 32-bit counters. The buffer never holds more than 512 bytes.
\<close>

theorem pipe_fifo:
  assumes "(pipe_step p)\<^sup>*\<^sup>* (W, [], s) (rest, got, t)" "pipe_inv (pipes s p)" "pi_nread (pipes s p) = pi_nwrite (pipes s p)"
  shows "(\<exists>hist. got @ pipe_q (pipes t p) = map snd hist \<and> (\<forall>w. map snd (filter (\<lambda>x. fst x = w) hist) @ rest w = W w)) \<and>
    length (pipe_q (pipes t p)) \<le> PIPESIZE"
proof -
  have "pipe_good p W (W, [], s)" using assms(2,3) empty_iff [of "pipes s p"] by (simp add: pipe_good_def written_by_def)
  with assms(1) have "pipe_good p W (rest, got, t)"
    by (induction rule: rtranclp_induct) (auto intro: pipe_step_good)
  then show ?thesis by (auto simp: pipe_good_def pipe_inv_def written_by_def)
qed

text \<open>Two writers and a reader.\<close>

definition two_writers :: "nat \<Rightarrow> byte list" where
  "two_writers w = (if w = 0 then [1, 2] else if w = 1 then [3] else [])"

lemma zero_pipe_inv: "pipe_inv zero_pipe" "pi_nread zero_pipe = pi_nwrite zero_pipe" "pipe_q zero_pipe = []"
proof -
  show i: "pipe_inv zero_pipe" and e: "pi_nread zero_pipe = pi_nwrite zero_pipe"
    by (simp_all add: pipe_inv_def pipe_len_def zero_pipe_def)
  show "pipe_q zero_pipe = []" using e by (simp add: empty_iff)
qed

text \<open>A write into a pipe with room for all of it.\<close>

lemma pipewrite_fits:
  assumes "pipe_inv (pipes s p)" "length (pipe_q (pipes s p)) + length bs \<le> PIPESIZE"
  shows "\<exists>r t. pipewrite_loop n p bs (s\<lparr>cur := Some i\<rparr>) = Ok (r, [], t) \<and> pipe_inv (pipes t p) \<and>
    pipe_q (pipes t p) = pipe_q (pipes s p) @ bs"
proof -
  obtain rest q where f: "pq.fill bs (pipes s p) = (rest, q)" by force
  have "rest = []"
  proof (rule ccontr)
    assume "rest \<noteq> []"
    moreover have "length (pipe_q q) + length rest = length (pipe_q (pipes s p)) + length bs"
      using pq.fill_ok [OF assms(1) f] by (metis length_append)
    ultimately show False using pq.fill_ok [OF assms(1) f] assms(2) by (cases rest) auto
  qed
  then obtain r t where "pipewrite_loop n p bs (s\<lparr>cur := Some i\<rparr>) = Ok (r, [], t)"
    using pipewrite_loop_fill [of "s\<lparr>cur := Some i\<rparr>" i n p bs] f by auto
  then show ?thesis using pipewrite_run [OF assms(1), of n bs i r "[]" t] by auto
qed

theorem pipe_fifo_witness:
  "\<exists>t rest. (pipe_step 0x80200000)\<^sup>*\<^sup>* (two_writers, [], boot_kern (\<lambda>_. []) 0 empty_kmem) (rest, [1], t) \<and>
     pipe_q (pipes t 0x80200000) = [3, 2] \<and>
     (\<exists>hist :: (nat \<times> byte) list. [1] @ pipe_q (pipes t 0x80200000) = map snd hist \<and>
        map snd (filter (\<lambda>x. fst x = 0) hist) = [1, 2] \<and> map snd (filter (\<lambda>x. fst x = 1) hist) = [3])"
proof -
  let ?s = "boot_kern (\<lambda>_. []) 0 empty_kmem" and ?p = "0x80200000 :: nat"
  have z: "pipes ?s ?p = zero_pipe" by (simp add: boot_kern_def)
  have P: "PIPESIZE = 512" by (simp add: PIPESIZE_def)
  obtain r1 t1 where t1: "pipewrite_loop 1 ?p [1] (?s\<lparr>cur := Some 0\<rparr>) = Ok (r1, [], t1)" "pipe_inv (pipes t1 ?p)" "pipe_q (pipes t1 ?p) = [1]"
    using pipewrite_fits [of ?s ?p "[1]" 1 0] z zero_pipe_inv P by auto
  obtain r2 t2 where t2: "pipewrite_loop 1 ?p [3] (t1\<lparr>cur := Some 1\<rparr>) = Ok (r2, [], t2)" "pipe_inv (pipes t2 ?p)" "pipe_q (pipes t2 ?p) = [1, 3]"
    using pipewrite_fits [of t1 ?p "[3]" 1 1] t1 P by auto
  obtain r3 t3 where t3: "pipewrite_loop 1 ?p [2] (t2\<lparr>cur := Some 0\<rparr>) = Ok (r3, [], t3)" "pipe_inv (pipes t3 ?p)" "pipe_q (pipes t3 ?p) = [1, 3, 2]"
    using pipewrite_fits [of t2 ?p "[2]" 1 0] t2 P by auto
  have "pi_nread (pipes t3 ?p) \<noteq> pi_nwrite (pipes t3 ?p)" using t3 by (simp add: empty_iff)
  then obtain k bs u where u: "piperead ?p 1 (t3\<lparr>cur := Some 2\<rparr>) = Ok (Ret (k, bs), u)" "k \<noteq> -1"
    by (auto simp: piperead_def piperead_copy_drain)
  have "pipe_len (pipes t3 ?p) = 3" using arg_cong [OF t3(3), of length] by simp
  then have "length bs = 1" using piperead_run(3) [OF t3(2) u(1)] u(2) by simp
  then have b: "bs = [1]" "pipe_q (pipes u ?p) = [3, 2]" using piperead_run(2) [OF t3(2) u(1)] t3(3) by (cases bs; auto)+
  let ?w1 = "two_writers(0 := [2])" and ?w2 = "two_writers(0 := [2], 1 := [])" and ?w3 = "two_writers(0 := [], 1 := [])"
  have "pipe_step ?p (two_writers, [], ?s) (?w1, [], t1)"
    using pipe_step.wr [OF _ t1(1), of two_writers "[2]" "[]"] by (simp add: two_writers_def)
  moreover have "pipe_step ?p (?w1, [], t1) (?w2, [], t2)"
    using pipe_step.wr [OF _ t2(1), of ?w1 "[]" "[]"] by (simp add: two_writers_def)
  moreover have "pipe_step ?p (?w2, [], t2) (?w3, [], t3)"
    using pipe_step.wr [OF _ t3(1), of ?w2 "[]" "[]"] by (simp add: fun_upd_twist)
  moreover have "pipe_step ?p (?w3, [], t3) (?w3, [1], u)" using pipe_step.rd [OF u(1), of ?w3 "[]"] b(1) by simp
  ultimately have "(pipe_step ?p)\<^sup>*\<^sup>* (two_writers, [], ?s) (?w3, [1], u)"
    by (meson rtranclp.rtrancl_into_rtrancl rtranclp.rtrancl_refl)
  moreover from this obtain hist where h: "[1] @ pipe_q (pipes u ?p) = map snd hist"
      "\<And>w. map snd (filter (\<lambda>x. fst x = w) hist) @ ?w3 w = two_writers w"
    using pipe_fifo [of ?p two_writers ?s ?w3 "[1]" u] z zero_pipe_inv(1,2) by metis
  moreover have "map snd (filter (\<lambda>x. fst x = 0) hist) = [1, 2]" "map snd (filter (\<lambda>x. fst x = 1) hist) = [3]"
    using h(2) [of 0] h(2) [of 1] by (simp_all add: two_writers_def)
  ultimately show ?thesis using b(2) by (intro exI [of _ u] exI [of _ ?w3] conjI exI [of _ hist]) simp_all
qed

end
