(* ===== verification/File.thy ===== *)
theory File
  imports Pipe
begin

text \<open>
  The file table (\<^verbatim>\<open>file.c\<close>) and \<^verbatim>\<open>pipealloc\<close> of
  \<^verbatim>\<open>pipe.c\<close>, which needs it. An open file is an index into \<open>ftable\<close>. Reads and
  writes on inodes go through the file system inside a transaction, on pipes through the pipe; a
  pipe call that sleeps is the result \<open>Blocks\<close>. Data read is returned as a list of bytes, data to be written is
  given as one. The device switch table is the argument \<open>dv\<close>.
\<close>

section \<open>Operations\<close>

definition filealloc :: "'a kern_st_scheme \<Rightarrow> nat option \<times> 'a kern_st_scheme" where
  "filealloc s =
     (case find (\<lambda>i. f_ref (ftable s ! i) = 0) [0..<NFILE] of
        Some i \<Rightarrow> (Some i, upd_file i (\<lambda>f. f\<lparr>f_ref := 1\<rparr>) s)
      | None \<Rightarrow> (None, s))"

definition filedup :: "nat \<Rightarrow> 'a kern_st_scheme \<Rightarrow> 'a kern_st_scheme res" where
  "filedup f s =
     (if f_ref (ftable s ! f) < 1 then Panic ''filedup''
      else Ok (upd_file f (\<lambda>f. f\<lparr>f_ref := f_ref f + 1\<rparr>) s))"

definition fileclose :: "nat \<Rightarrow> 'a kern_st_scheme \<Rightarrow> 'a kern_st_scheme res" where
  "fileclose f s =
     (if f_ref (ftable s ! f) < 1 then Panic ''fileclose''
      else
        let s = upd_file f (\<lambda>f. f\<lparr>f_ref := f_ref f - 1\<rparr>) s in
        if f_ref (ftable s ! f) > 0 then Ok s
        else
          let ff = ftable s ! f;
              s = upd_file f (\<lambda>f. f\<lparr>f_ref := 0, f_type := FD_NONE\<rparr>) s in
          case f_type ff of
            FD_PIPE \<Rightarrow> pipeclose (f_pipe ff) (f_writable ff) s
          | FD_INODE \<Rightarrow> bnd (begin_op s) (\<lambda>s. bnd (iput (f_ip ff) s) end_op)
          | FD_NONE \<Rightarrow> Ok s)"

definition filestat :: "nat \<Rightarrow> 'a kern_st_scheme \<Rightarrow> ((int \<times> stat option) \<times> 'a kern_st_scheme) res" where
  "filestat f s =
     (if f_type (ftable s ! f) = FD_INODE then
        let ip = f_ip (ftable s ! f) in
        bnd (ilock ip s) (\<lambda>s.
        let st = stati ip s in
        bnd (iunlock ip s) (\<lambda>s. Ok ((0, Some st), s)))
      else Ok ((-1, None), s))"

definition fileread :: "'a kern_st_scheme devsw \<Rightarrow> nat \<Rightarrow> nat \<Rightarrow> 'a kern_st_scheme \<Rightarrow> ((int \<times> byte list) \<times> 'a kern_st_scheme) res" where
  "fileread dv f n s =
     (let ff = ftable s ! f in
      if \<not> f_readable ff then Ok ((-1, []), s)
      else case f_type ff of
        FD_PIPE \<Rightarrow> bnd (piperead (f_pipe ff) n s) (\<lambda>(r, s). case r of Ret x \<Rightarrow> Ok (x, s) | Sleep \<Rightarrow> Blocks)
      | FD_INODE \<Rightarrow>
          bnd (ilock (f_ip ff) s) (\<lambda>s.
          bnd (readi dv (f_ip ff) (f_off ff) n s) (\<lambda>((r, ds), s).
          let s = (if r > 0 then upd_file f (\<lambda>f. f\<lparr>f_off := (f_off f + nat r) mod 2 ^ 32\<rparr>) s else s) in
          bnd (iunlock (f_ip ff) s) (\<lambda>s. Ok ((r, ds), s))))
      | FD_NONE \<Rightarrow> Panic ''fileread'')"

text \<open>The most that one transaction may write.\<close>

definition filewrite_max :: nat where
  "filewrite_max = (MAXOPBLOCKS - 1 - 1 - 2) div 2 * 512"

text \<open>The loop over the bytes still to be written; the result tells whether all were written.\<close>

function filewrite_loop :: "'a kern_st_scheme devsw \<Rightarrow> nat \<Rightarrow> byte list \<Rightarrow> 'a kern_st_scheme \<Rightarrow> (bool \<times> 'a kern_st_scheme) res" where
  "filewrite_loop dv f addr s =
     (if addr = [] then Ok (True, s)
      else
        let n1 = min (length addr) filewrite_max; ip = f_ip (ftable s ! f) in
        bnd (begin_op s) (\<lambda>s.
        bnd (ilock ip s) (\<lambda>s.
        bnd (writei dv ip (take n1 addr) (f_off (ftable s ! f)) s) (\<lambda>(r, s).
        let s = (if r > 0 then upd_file f (\<lambda>f. f\<lparr>f_off := (f_off f + nat r) mod 2 ^ 32\<rparr>) s else s) in
        bnd (iunlock ip s) (\<lambda>s.
        bnd (end_op s) (\<lambda>s.
        if r < 0 then Ok (False, s)
        else if r \<noteq> int n1 then Panic ''short filewrite''
        else filewrite_loop dv f (drop n1 addr) s))))))"
  by auto

termination
  by (relation "measure (\<lambda>(dv, f, addr, s). length addr)") (auto simp: filewrite_max_def param_defs)

declare filewrite_loop.simps [simp del]

definition filewrite :: "'a kern_st_scheme devsw \<Rightarrow> nat \<Rightarrow> byte list \<Rightarrow> 'a kern_st_scheme \<Rightarrow> (int \<times> 'a kern_st_scheme) res" where
  "filewrite dv f addr s =
     (let ff = ftable s ! f in
      if \<not> f_writable ff then Ok (-1, s)
      else case f_type ff of
        FD_PIPE \<Rightarrow> bnd (pipewrite (f_pipe ff) addr s) (\<lambda>(r, rest, s). case r of Ret x \<Rightarrow> Ok (x, s) | Sleep \<Rightarrow> Blocks)
      | FD_INODE \<Rightarrow> bnd (filewrite_loop dv f addr s) (\<lambda>(done, s). Ok (if done then int (length addr) else -1, s))
      | FD_NONE \<Rightarrow> Panic ''filewrite'')"

definition pipealloc :: "'a kern_st_scheme \<Rightarrow> ((nat \<times> nat) option \<times> 'a kern_st_scheme) res" where
  "pipealloc s =
     (case filealloc s of
        (None, s) \<Rightarrow> Ok (None, s)
      | (Some f0, s) \<Rightarrow>
          (case filealloc s of
             (None, s) \<Rightarrow> bnd (fileclose f0 s) (\<lambda>s. Ok (None, s))
           | (Some f1, s) \<Rightarrow>
               (case kalloc (km s) of (p, k) \<Rightarrow>
                let s = s\<lparr>km := k\<rparr> in
                if p = 0 then
                  bnd (fileclose f0 s) (\<lambda>s. bnd (fileclose f1 s) (\<lambda>s. Ok (None, s)))
                else
                  let s = upd_pipe p (\<lambda>q. q\<lparr>pi_readopen := True, pi_writeopen := True, pi_nwrite := 0, pi_nread := 0\<rparr>) s;
                      s = upd_file f0 (\<lambda>f. f\<lparr>f_type := FD_PIPE, f_readable := True, f_writable := False, f_pipe := p\<rparr>) s;
                      s = upd_file f1 (\<lambda>f. f\<lparr>f_type := FD_PIPE, f_readable := False, f_writable := True, f_pipe := p\<rparr>) s
                  in Ok (Some (f0, f1), s))))"

end
