(* ===== verification/Frame.thy ===== *)
theory Frame
  imports Fs
begin

text \<open>
  The file system leaves the rest of the kernel alone: each of its routines, down to the log and
  the buffer cache, returns a state whose extension (\<open>fs_st.more\<close>, where the tables of the kernel live)
  is the one it was given.
\<close>

named_theorems fs_frame

lemma set_buf_more [simp]: "fs_st.more (set_buf i b s) = fs_st.more s" "fs_st.more (set_bdata i d s) = fs_st.more s"
  by (simp_all add: set_buf_def set_bdata_def)

lemma upd_inode_more [simp]: "fs_st.more (upd_inode i f s) = fs_st.more s"
  by (simp add: upd_inode_def)

lemma iderw_more [fs_frame]: "iderw i s = Ok t \<Longrightarrow> fs_st.more t = fs_st.more s"
  for s :: "'a fs_st_scheme"
  by (auto simp: iderw_def Let_def split: if_splits)

lemma bget_more [fs_frame]: "bget d b s = Ok (i, t) \<Longrightarrow> fs_st.more t = fs_st.more s"
  for s :: "'a fs_st_scheme"
  by (auto simp: bget_def Let_def bnd_eq_Ok split: option.splits)

lemma bread_more [fs_frame]: "bread d b s = Ok (i, t) \<Longrightarrow> fs_st.more t = fs_st.more s"
  for s :: "'a fs_st_scheme"
  by (auto simp: bread_def bnd_eq_Ok split: if_splits dest!: bget_more iderw_more)

lemma bwrite_more [fs_frame]: "bwrite i s = Ok t \<Longrightarrow> fs_st.more t = fs_st.more s"
  for s :: "'a fs_st_scheme"
  by (auto simp: bwrite_def Let_def split: if_splits dest!: iderw_more)

lemma brelse_more [fs_frame]: "brelse i s = Ok t \<Longrightarrow> fs_st.more t = fs_st.more s"
  for s :: "'a fs_st_scheme"
  by (auto simp: brelse_def Let_def split: if_splits)

lemma readsb_more [fs_frame]: "readsb d s = Ok (sb, t) \<Longrightarrow> fs_st.more t = fs_st.more s"
  for s :: "'a fs_st_scheme"
  by (auto simp: readsb_def Let_def bnd_eq_Ok dest!: bread_more brelse_more)

lemma install_loop_more [fs_frame]: "install_loop dev start blk ts s = Ok t \<Longrightarrow> fs_st.more t = fs_st.more s"
  for s :: "'a fs_st_scheme"
  by (induction ts arbitrary: s) (fastforce simp: bnd_eq_Ok dest!: bread_more bwrite_more brelse_more)+

lemma write_loop_more [fs_frame]: "write_loop dev start blk ts s = Ok t \<Longrightarrow> fs_st.more t = fs_st.more s"
  for s :: "'a fs_st_scheme"
  by (induction ts arbitrary: s) (fastforce simp: bnd_eq_Ok dest!: bread_more bwrite_more brelse_more)+

lemma write_head_more [fs_frame]: "write_head s = Ok t \<Longrightarrow> fs_st.more t = fs_st.more s"
  for s :: "'a fs_st_scheme"
  by (auto simp: write_head_def Let_def bnd_eq_Ok dest!: bread_more bwrite_more brelse_more)

lemma log_write_more [fs_frame]: "log_write i s = Ok t \<Longrightarrow> fs_st.more t = fs_st.more s"
  for s :: "'a fs_st_scheme"
  by (auto simp: log_write_def Let_def pin_def split: if_splits)

lemma begin_op_more [fs_frame]: "begin_op s = Ok t \<Longrightarrow> fs_st.more t = fs_st.more s"
  for s :: "'a fs_st_scheme"
  by (auto simp: begin_op_def split: if_splits)

lemma commit_more [fs_frame]: "commit s = Ok t \<Longrightarrow> fs_st.more t = fs_st.more s"
  for s :: "'a fs_st_scheme"
  by (auto simp: commit_def write_log_def install_trans_def bnd_eq_Ok
      dest!: write_loop_more write_head_more install_loop_more split: if_splits)

lemma end_op_more [fs_frame]: "end_op s = Ok t \<Longrightarrow> fs_st.more t = fs_st.more s"
  for s :: "'a fs_st_scheme"
  by (auto simp: end_op_def Let_def bnd_eq_Ok dest!: commit_more split: if_splits)

lemma bfree_more [fs_frame]: "bfree d b s = Ok t \<Longrightarrow> fs_st.more t = fs_st.more s"
  by (auto simp: bfree_def Let_def bnd_eq_Ok dest!: readsb_more bread_more log_write_more brelse_more split: if_splits)

lemma bzero_more [fs_frame]: "bzero d b s = Ok t \<Longrightarrow> fs_st.more t = fs_st.more s"
  by (auto simp: bzero_def bnd_eq_Ok dest!: bread_more log_write_more brelse_more)

lemma balloc_loop_more [fs_frame]: "balloc_loop d bs s = Ok (b, t) \<Longrightarrow> fs_st.more t = fs_st.more s"
  by (induction bs arbitrary: s) (fastforce simp: bnd_eq_Ok split: option.splits dest!: bread_more log_write_more brelse_more bzero_more)+

lemma balloc_more [fs_frame]: "balloc d s = Ok (b, t) \<Longrightarrow> fs_st.more t = fs_st.more s"
  by (auto simp: balloc_def dest!: balloc_loop_more)

lemma bmap_indirect_more [fs_frame]: "bmap_indirect i bn a s = Ok (b, t) \<Longrightarrow> fs_st.more t = fs_st.more s"
  by (auto simp: bmap_indirect_def bnd_eq_Ok dest!: bread_more log_write_more brelse_more balloc_more split: if_splits)

lemma bmap_more [fs_frame]: "bmap i bn s = Ok (b, t) \<Longrightarrow> fs_st.more t = fs_st.more s"
  by (auto simp: bmap_def Let_def bnd_eq_Ok dest!: bmap_indirect_more balloc_more split: if_splits)

lemma iget_more [fs_frame]: "iget d n s = Ok (i, t) \<Longrightarrow> fs_st.more t = fs_st.more s"
  by (auto simp: iget_def split: option.splits)

lemma idup_more [fs_frame]: "idup i s = (j, t) \<Longrightarrow> fs_st.more t = fs_st.more s"
  by (auto simp: idup_def)

lemma ialloc_loop_more [fs_frame]: "ialloc_loop d ty is s = Ok (i, t) \<Longrightarrow> fs_st.more t = fs_st.more s"
proof (induction "is" arbitrary: s)
  case (Cons n "is")
  obtain bp u where u: "bread d (IBLOCK n (fsb s)) s = Ok (bp, u)"
    using Cons.prems by (auto simp: bnd_eq_Ok)
  show ?case
  proof (cases "gets16 (bdata bp u) (ioff n) = 0")
    case True
    then show ?thesis
      using Cons.prems u by (auto simp: bnd_eq_Ok dest!: bread_more log_write_more brelse_more iget_more)
  next
    case False
    then obtain v where "brelse bp u = Ok v" "ialloc_loop d ty is v = Ok (i, t)"
      using Cons.prems u by (auto simp: bnd_eq_Ok)
    then show ?thesis using Cons.IH u by (auto dest!: bread_more brelse_more)
  qed
qed simp

lemma ialloc_more [fs_frame]: "ialloc d ty s = Ok (i, t) \<Longrightarrow> fs_st.more t = fs_st.more s"
  by (auto simp: ialloc_def dest!: ialloc_loop_more)

lemma iupdate_more [fs_frame]: "iupdate i s = Ok t \<Longrightarrow> fs_st.more t = fs_st.more s"
  by (auto simp: iupdate_def Let_def bnd_eq_Ok dest!: bread_more log_write_more brelse_more)

lemma ilock_more [fs_frame]: "ilock i s = Ok t \<Longrightarrow> fs_st.more t = fs_st.more s"
  by (auto simp: ilock_def Let_def bnd_eq_Ok dest!: bread_more brelse_more arg_cong [where f = fs_st.more] split: if_splits)

lemma iunlock_more [fs_frame]: "iunlock i s = Ok t \<Longrightarrow> fs_st.more t = fs_st.more s"
  by (auto simp: iunlock_def split: if_splits)

lemma itrunc_direct_more: "itrunc_direct ip is s = Ok t \<Longrightarrow> fs_st.more t = fs_st.more s"
  by (induction "is" arbitrary: s) (fastforce simp: bnd_eq_Ok split: if_splits dest!: bfree_more)+

lemma itrunc_indirect_more: "itrunc_indirect d bp js s = Ok t \<Longrightarrow> fs_st.more t = fs_st.more s"
  by (induction js arbitrary: s) (fastforce simp: bnd_eq_Ok Let_def split: if_splits dest!: bfree_more)+

lemma itrunc_more [fs_frame]: "itrunc ip s = Ok t \<Longrightarrow> fs_st.more t = fs_st.more s"
  by (auto simp: itrunc_def Let_def bnd_eq_Ok split: if_splits
      dest!: itrunc_direct_more itrunc_indirect_more bread_more brelse_more bfree_more iupdate_more)

lemma iput_more [fs_frame]: "iput i s = Ok t \<Longrightarrow> fs_st.more t = fs_st.more s"
  by (auto simp: iput_def Let_def bnd_eq_Ok split: if_splits dest!: itrunc_more iupdate_more)

lemma iunlockput_more [fs_frame]: "iunlockput i s = Ok t \<Longrightarrow> fs_st.more t = fs_st.more s"
  by (auto simp: iunlockput_def bnd_eq_Ok dest!: iunlock_more iput_more)

end
