(* ===== verification/Vm_Map.thy ===== *)
theory Vm_Map
  imports Vm
begin

text \<open>
  What the page-table code computes: the entry a page table has for an address, the invariant
  that its tables are pages of their own, and the effect of \<^verbatim>\<open>walkpgdir\<close> and
  \<^verbatim>\<open>mappages\<close> on entries, on the free list and on the rest of memory.
\<close>

section \<open>Entries\<close>

lemma or_flags:
  fixes x f :: nat
  assumes "x mod 4096 = 0" "f < 4096"
  shows "PTE_ADDR (x OR f) = x" "PTE_FLAGS (x OR f) = f"
proof -
  have "take_bit 12 (x OR f) = take_bit 12 x OR take_bit 12 f" by simp
  moreover have "take_bit 12 x = 0" "take_bit 12 f = f"
    using assms by (simp_all add: take_bit_eq_mod)
  ultimately have m: "(x OR f) mod 4096 = f" by (simp add: take_bit_eq_mod)
  have "drop_bit 12 (x OR f) = drop_bit 12 x OR drop_bit 12 f" by simp
  moreover have "drop_bit 12 f = 0" using assms by (simp add: drop_bit_eq_div)
  ultimately have "(x OR f) div 4096 = x div 4096" by (simp add: drop_bit_eq_div)
  then show "PTE_ADDR (x OR f) = x" "PTE_FLAGS (x OR f) = f"
    using m assms(1) div_mult_mod_eq [of x 4096] by (simp_all add: PTE_ADDR_def PTE_FLAGS_def)
qed

lemma present_odd: "e AND PTE_P \<noteq> 0 \<longleftrightarrow> odd e"
  by (auto simp: PTE_P_def and_one_eq odd_iff_mod_2_eq_one)

lemma absent_even: "e AND PTE_P = 0 \<longleftrightarrow> even e"
  using present_odd by blast

lemma or_present: "odd (e OR PTE_P)"
  by (simp add: PTE_P_def or_one_eq)

lemma or_less: "x < 2 ^ n \<Longrightarrow> y < 2 ^ n \<Longrightarrow> x OR y < 2 ^ n" for x y :: nat
proof -
  assume "x < 2 ^ n" "y < 2 ^ n"
  then have "take_bit n (x OR y) = x OR y" by (simp add: take_bit_nat_eq_self)
  then show ?thesis by (metis take_bit_nat_less_exp)
qed

text \<open>The page table of directory entry \<open>i\<close>, and the entry for an address (0 when there is none).\<close>

definition pde :: "mem \<Rightarrow> nat \<Rightarrow> nat \<Rightarrow> nat" where
  "pde m pgdir i = ld32 m (pgdir + 4 * i)"

definition tab :: "mem \<Rightarrow> nat \<Rightarrow> nat \<Rightarrow> nat" where
  "tab m pgdir i = P2V (PTE_ADDR (pde m pgdir i))"

definition entry :: "mem \<Rightarrow> nat \<Rightarrow> nat \<Rightarrow> nat" where
  "entry m pgdir va = (if odd (pde m pgdir (PDX va)) then ld32 m (tab m pgdir (PDX va) + 4 * PTX va) else 0)"

text \<open>
  The directory and its tables are different allocatable pages, none of them free.
\<close>

definition vm_inv :: "kmem_st \<Rightarrow> nat \<Rightarrow> nat list \<Rightarrow> bool" where
  "vm_inv s pgdir xs \<longleftrightarrow> kmem_inv s xs \<and> page_ok s pgdir \<and> pgdir \<notin> set xs \<and>
     (\<forall>i < 1024. odd (pde (kmem s) pgdir i) \<longrightarrow>
        page_ok s (tab (kmem s) pgdir i) \<and> tab (kmem s) pgdir i \<notin> set xs \<and> tab (kmem s) pgdir i \<noteq> pgdir \<and>
        (\<forall>j < 1024. j \<noteq> i \<and> odd (pde (kmem s) pgdir j) \<longrightarrow> tab (kmem s) pgdir j \<noteq> tab (kmem s) pgdir i))"

definition tables :: "mem \<Rightarrow> nat \<Rightarrow> nat set" where
  "tables m pgdir = insert pgdir (tab m pgdir ` {i. i < 1024 \<and> odd (pde m pgdir i)})"

definition in_page :: "nat \<Rightarrow> nat \<Rightarrow> bool" where
  "in_page a p \<longleftrightarrow> p \<le> a \<and> a < p + PGSIZE"

lemma PDX_less [simp]: "PDX va < 1024" and PTX_less [simp]: "PTX va < 1024"
  by (simp_all add: PDX_def PTX_def)

lemma same_entry_page:
  assumes "va < 2 ^ 32" "vb < 2 ^ 32" "PDX va = PDX vb" "PTX va = PTX vb"
  shows "va div PGSIZE = vb div PGSIZE"
proof -
  have split: "v div 4096 = PDX v * 1024 + PTX v" if "v < 2 ^ 32" for v :: nat
  proof -
    have "v div 2 ^ 22 = v div 4096 div 1024" by (simp add: div_mult2_eq [symmetric])
    moreover have "v div 2 ^ 22 < 1024" using that by (simp add: less_mult_imp_div_less)
    ultimately show ?thesis by (simp add: PDX_def PTX_def)
  qed
  then show ?thesis using assms by (simp add: PGSIZE_def)
qed

lemma vm_invD:
  assumes "vm_inv s pgdir xs"
  shows "kmem_inv s xs" "page_ok s pgdir" "pgdir \<notin> set xs"
    "i < 1024 \<Longrightarrow> odd (pde (kmem s) pgdir i) \<Longrightarrow> page_ok s (tab (kmem s) pgdir i)"
    "i < 1024 \<Longrightarrow> odd (pde (kmem s) pgdir i) \<Longrightarrow> tab (kmem s) pgdir i \<notin> set xs"
    "i < 1024 \<Longrightarrow> odd (pde (kmem s) pgdir i) \<Longrightarrow> tab (kmem s) pgdir i \<noteq> pgdir"
    "i < 1024 \<Longrightarrow> odd (pde (kmem s) pgdir i) \<Longrightarrow> j < 1024 \<Longrightarrow> odd (pde (kmem s) pgdir j) \<Longrightarrow>
       tab (kmem s) pgdir i = tab (kmem s) pgdir j \<Longrightarrow> i = j"
  using assms unfolding vm_inv_def by blast+

lemma page_ok_dvd: "page_ok s v \<Longrightarrow> v mod PGSIZE = 0"
  by (simp add: page_ok_def)

text \<open>Words in different pages do not overlap.\<close>

lemma word_apart:
  assumes "page_ok s p" "page_ok s q" "p \<noteq> q" "i < 1024" "j < 1024"
  shows "p + 4 * i + 4 \<le> q + 4 * j \<or> q + 4 * j + 4 \<le> p + 4 * i"
  using page_apart [OF page_ok_dvd [OF assms(1)] page_ok_dvd [OF assms(2)] assms(3)] assms(4,5)
  by (auto simp: PGSIZE_def)

lemma ld32_same_page:
  assumes "\<And>a. in_page a p \<Longrightarrow> m' a = m a" "i < 1024"
  shows "ld32 m' (p + 4 * i) = ld32 m (p + 4 * i)"
  by (rule ld32_cong, rule assms(1)) (use assms(2) in \<open>auto simp: in_page_def PGSIZE_def\<close>)

lemma P2V_V2P: "page_ok s v \<Longrightarrow> P2V (V2P v) = v" and V2P_page: "page_ok s v \<Longrightarrow> V2P v mod 4096 = 0"
proof -
  assume v: "page_ok s v"
  then have eq: "V2P v = v - KERNBASE" by (intro V2P_high) (auto simp: page_ok_def param_defs)
  show "P2V (V2P v) = v" using v unfolding eq by (simp add: P2V_def page_ok_def param_defs)
  have "4096 dvd v" "4096 dvd KERNBASE"
    using page_ok_dvd [OF v] by (auto simp: param_defs mod_eq_0_iff_dvd)
  then show "V2P v mod 4096 = 0" unfolding eq by (simp add: mod_eq_0_iff_dvd)
qed

lemma kmem_inv_frame:
  assumes "kmem_inv s xs" "freelist t = freelist s" "kend t = kend s"
    "\<And>x. x \<in> set xs \<Longrightarrow> ld32 (kmem t) x = ld32 (kmem s) x"
  shows "kmem_inv t xs"
proof -
  have "flist (kmem t) (freelist s) xs = flist (kmem s) (freelist s) xs" by (rule flist_cong) (rule assms(4))
  then show ?thesis using assms(1-3) by (simp add: kmem_inv_def page_ok_def)
qed

lemma page_ok_kend: "kend t = kend s \<Longrightarrow> page_ok t = page_ok s"
  by (simp add: page_ok_def fun_eq_iff)

section \<open>Changing one entry\<close>

lemma set_entry:
  assumes inv: "vm_inv s pgdir xs" and pr: "odd (pde (kmem s) pgdir i)" and ij: "i < 1024" "j < 1024" and v: "v < 2 ^ 32"
  defines "t \<equiv> st (tab (kmem s) pgdir i + 4 * j) v s"
  shows "vm_inv t pgdir xs" "tables (kmem t) pgdir = tables (kmem s) pgdir"
    "\<And>k. k < 1024 \<Longrightarrow> pde (kmem t) pgdir k = pde (kmem s) pgdir k"
    "\<And>vb. entry (kmem t) pgdir vb = (if PDX vb = i \<and> PTX vb = j then v else entry (kmem s) pgdir vb)"
    "\<And>a. \<not> in_page a (tab (kmem s) pgdir i) \<Longrightarrow> kmem t a = kmem s a"
proof -
  note D = vm_invD [OF inv]
  let ?T = "tab (kmem s) pgdir i"
  have T: "page_ok s ?T" "?T \<noteq> pgdir" "?T \<notin> set xs" using D(4-6) [OF ij(1) pr] by auto
  have m: "kmem t = st32 (kmem s) (?T + 4 * j) v" by (simp add: t_def st_def)
  show "kmem t a = kmem s a" if "\<not> in_page a ?T" for a
    unfolding m by (rule st32_other) (use that ij(2) in \<open>auto simp: in_page_def PGSIZE_def\<close>)
  have other: "ld32 (kmem t) (p + 4 * l) = ld32 (kmem s) (p + 4 * l)" if "page_ok s p" "p \<noteq> ?T" "l < 1024" for p l
    unfolding m by (rule ld32_st32_other) (use word_apart [OF that(1) T(1) that(2,3) ij(2)] in auto)
  show P: "pde (kmem t) pgdir k = pde (kmem s) pgdir k" if "k < 1024" for k
    unfolding pde_def by (rule other [OF D(2) T(2) [symmetric] that])
  have tb: "tab (kmem t) pgdir k = tab (kmem s) pgdir k" if "k < 1024" for k
    using P [OF that] by (simp add: tab_def)
  show "tables (kmem t) pgdir = tables (kmem s) pgdir" using P tb by (auto simp: tables_def)
  have "ld32 (kmem t) x = ld32 (kmem s) x" if "x \<in> set xs" for x
    using other [of x 0] that T(3) D(1) by (auto simp: kmem_inv_def)
  then have "kmem_inv t xs" by (intro kmem_inv_frame [OF D(1)]) (simp_all add: t_def st_def)
  moreover have "page_ok t = page_ok s" by (rule page_ok_kend) (simp add: t_def st_def)
  ultimately show "vm_inv t pgdir xs" using inv P tb by (auto simp: vm_inv_def)
  have same: "ld32 (kmem t) (?T + 4 * l) = (if l = j then v else ld32 (kmem s) (?T + 4 * l))" if "l < 1024" for l
  proof (cases "l = j")
    case True
    then show ?thesis using v unfolding m by simp
  next
    case False
    then show ?thesis unfolding m by (simp, intro ld32_st32_other) auto
  qed
  show "entry (kmem t) pgdir vb = (if PDX vb = i \<and> PTX vb = j then v else entry (kmem s) pgdir vb)" for vb
  proof (cases "PDX vb = i")
    case True
    then show ?thesis using same [of "PTX vb"] tb P ij pr by (simp add: entry_def)
  next
    case False
    have "ld32 (kmem t) (tab (kmem s) pgdir (PDX vb) + 4 * PTX vb) = ld32 (kmem s) (tab (kmem s) pgdir (PDX vb) + 4 * PTX vb)"
      if "odd (pde (kmem s) pgdir (PDX vb))"
      by (rule other) (use that D(4) [of "PDX vb"] D(7) [OF _ that ij(1) pr] False in auto)
    then show ?thesis using False tb P by (simp add: entry_def)
  qed
qed

section \<open>walkpgdir\<close>

text \<open>
  \<open>vm_ext\<close>: a call on \<open>pgdir\<close> took the pages \<open>zs\<close> off the free list and changed memory
  only in them and in the tables of \<open>pgdir\<close>.
\<close>

definition vm_ext :: "nat \<Rightarrow> kmem_st \<Rightarrow> nat list \<Rightarrow> kmem_st \<Rightarrow> nat list \<Rightarrow> bool" where
  "vm_ext pgdir s xs t ys \<longleftrightarrow> vm_inv t pgdir ys \<and> kend t = kend s \<and> kdata t = kdata s \<and>
     (\<exists>zs. xs = zs @ ys \<and> tables (kmem t) pgdir \<subseteq> tables (kmem s) pgdir \<union> set zs \<and>
        (\<forall>a. (\<forall>p \<in> tables (kmem s) pgdir \<union> set zs. \<not> in_page a p) \<longrightarrow> kmem t a = kmem s a))"

lemma vm_ext_refl: "vm_inv s pgdir xs \<Longrightarrow> vm_ext pgdir s xs s xs"
  by (auto simp: vm_ext_def)

lemma vm_ext_trans:
  assumes "vm_ext pgdir s xs t ys" "vm_ext pgdir t ys u zs"
  shows "vm_ext pgdir s xs u zs"
proof -
  obtain a where a: "xs = a @ ys" "tables (kmem t) pgdir \<subseteq> tables (kmem s) pgdir \<union> set a"
    "\<forall>x. (\<forall>p \<in> tables (kmem s) pgdir \<union> set a. \<not> in_page x p) \<longrightarrow> kmem t x = kmem s x"
    using assms(1) by (auto simp: vm_ext_def)
  obtain b where b: "ys = b @ zs" "tables (kmem u) pgdir \<subseteq> tables (kmem t) pgdir \<union> set b"
    "\<forall>x. (\<forall>p \<in> tables (kmem t) pgdir \<union> set b. \<not> in_page x p) \<longrightarrow> kmem u x = kmem t x"
    using assms(2) by (auto simp: vm_ext_def)
  have "kmem u x = kmem s x" if "\<forall>p \<in> tables (kmem s) pgdir \<union> set (a @ b). \<not> in_page x p" for x
  proof -
    have "kmem t x = kmem s x" using a(3) that by auto
    moreover have "kmem u x = kmem t x" using b(3) that a(2) by (auto simp: subset_iff)
    ultimately show ?thesis by simp
  qed
  moreover have "tables (kmem u) pgdir \<subseteq> tables (kmem s) pgdir \<union> set (a @ b)" using a(2) b(2) by auto
  ultimately show ?thesis using assms a(1) b(1) unfolding vm_ext_def by (metis append.assoc)
qed

lemma new_table:
  assumes inv: "vm_inv s pgdir (x # xs)" and i: "i < 1024" "even (pde (kmem s) pgdir i)"
    and s1: "kmem_inv s1 xs" "kend s1 = kend s" "kdata s1 = kdata s" "kmem s1 = kmem s"
    and t: "t = st (pgdir + 4 * i) (V2P x OR PTE_P OR PTE_W OR PTE_U) (s1\<lparr>kmem := memset (kmem s1) x 0 PGSIZE\<rparr>)"
  shows "vm_ext pgdir s (x # xs) t xs" "odd (pde (kmem t) pgdir i)" "tab (kmem t) pgdir i = x"
    "\<And>vb. entry (kmem t) pgdir vb = entry (kmem s) pgdir vb"
proof -
  note D = vm_invD [OF inv]
  have x: "page_ok s x" "x \<noteq> pgdir" "x \<notin> set xs" using D(1,3) by (auto simp: kmem_inv_def)
  let ?v = "V2P x OR PTE_P OR PTE_W OR PTE_U"
  have v7: "?v = V2P x OR 7" by (simp add: PTE_P_def PTE_W_def PTE_U_def or.assoc)
  have vl: "?v < 2 ^ 32"
    unfolding v7 by (rule or_less) (simp_all add: V2P_def u32_def nat_less_iff)
  have m: "kmem t = st32 (memset (kmem s) x 0 PGSIZE) (pgdir + 4 * i) ?v" using t s1(4) by (simp add: st_def)
  have far: "pgdir + 4 * i + 4 \<le> x + 4 * l \<or> x + 4 * l + 4 \<le> pgdir + 4 * i" if "l < 1024" for l
    using word_apart [OF D(2) x(1) _ i(1) that] x(2) by auto
  have out: "kmem t a = kmem s a" if "\<not> in_page a x" "\<not> in_page a pgdir" for a
    unfolding m by (subst st32_other) (use that i(1) in \<open>auto simp: in_page_def PGSIZE_def memset_bytes\<close>)
  have zero: "ld32 (kmem t) (x + 4 * l) = 0" if "l < 1024" for l
    unfolding m ld32_st32_other [OF far [OF that, THEN disj_commute [THEN iffD1]]]
    by (rule ld32_zero) (use that in \<open>auto simp: memset_bytes PGSIZE_def\<close>)
  have other: "ld32 (kmem t) (p + 4 * l) = ld32 (kmem s) (p + 4 * l)"
    if "page_ok s p" "p \<noteq> x" "p = pgdir \<longrightarrow> l \<noteq> i" "l < 1024" for p l
  proof -
    have "ld32 (kmem t) (p + 4 * l) = ld32 (memset (kmem s) x 0 PGSIZE) (p + 4 * l)"
      unfolding m by (rule ld32_st32_other) (use word_apart [OF D(2) that(1) _ i(1) that(4)] that(3) in \<open>cases "p = pgdir"; auto\<close>)
    also have "\<dots> = ld32 (kmem s) (p + 4 * l)"
    proof (rule ld32_same_page [OF _ that(4)])
      show "memset (kmem s) x 0 PGSIZE a = kmem s a" if "in_page a p" for a
        using that page_apart [OF page_ok_dvd [OF x(1)] page_ok_dvd [OF \<open>page_ok s p\<close>]] \<open>p \<noteq> x\<close>
        by (auto simp: memset_bytes in_page_def)
    qed
    finally show ?thesis .
  qed
  have P: "pde (kmem t) pgdir k = (if k = i then ?v else pde (kmem s) pgdir k)" if "k < 1024" for k
    using other [OF D(2) x(2) [symmetric] _ that] vl by (cases "k = i") (simp_all add: pde_def m)
  show odd_i: "odd (pde (kmem t) pgdir i)"
    using P [OF i(1)] or_present [of "V2P x OR PTE_W OR PTE_U"] by (simp add: ac_simps)
  have "PTE_ADDR ?v = V2P x" unfolding v7 by (rule or_flags) (use V2P_page [OF x(1)] in simp_all)
  then show tx: "tab (kmem t) pgdir i = x" using P [OF i(1)] P2V_V2P [OF x(1)] by (simp add: tab_def)
  have tb: "tab (kmem t) pgdir k = tab (kmem s) pgdir k" if "k < 1024" "k \<noteq> i" for k
    using P [OF that(1)] that(2) by (simp add: tab_def)
  have ok: "page_ok t = page_ok s" "kend t = kend s" using t s1(2) by (auto simp: st_def intro: page_ok_kend)
  have "ld32 (kmem t) y = ld32 (kmem s) y" if "y \<in> set xs" for y
    using other [of y 0] that x(3) D(1,3) by (auto simp: kmem_inv_def)
  then have "kmem_inv t xs" by (intro kmem_inv_frame [OF s1(1)]) (use t s1 in \<open>simp_all add: st_def\<close>)
  moreover have new: "tab (kmem s) pgdir k \<noteq> x \<and> tab (kmem s) pgdir k \<notin> set xs" if "k < 1024" "odd (pde (kmem s) pgdir k)" for k
    using D(5) [OF that] by auto
  have "page_ok s (tab (kmem t) pgdir k) \<and> tab (kmem t) pgdir k \<notin> set xs \<and> tab (kmem t) pgdir k \<noteq> pgdir"
    if "k < 1024" "odd (pde (kmem t) pgdir k)" for k
    using that P tb tx x new D(4,6) [of k] by (cases "k = i") auto
  moreover have "tab (kmem t) pgdir j \<noteq> tab (kmem t) pgdir k"
    if "k < 1024" "odd (pde (kmem t) pgdir k)" "j < 1024" "j \<noteq> k" "odd (pde (kmem t) pgdir j)" for j k
    using that P tb tx new [of j] new [of k] D(7) [of k j] by (cases "k = i"; cases "j = i") auto
  ultimately have vi: "vm_inv t pgdir xs"
    unfolding vm_inv_def ok using D(2,3) by auto
  have "tables (kmem t) pgdir \<subseteq> tables (kmem s) pgdir \<union> set [x]"
    using P tb tx by (auto simp: tables_def split: if_splits)
  moreover have "kmem t a = kmem s a" if "\<forall>p \<in> tables (kmem s) pgdir \<union> set [x]. \<not> in_page a p" for a
    by (rule out) (use that in \<open>auto simp: tables_def\<close>)
  ultimately show "vm_ext pgdir s (x # xs) t xs"
    unfolding vm_ext_def using vi ok(2) t s1(3) by (auto simp: st_def intro!: exI [of _ "[x]"])
  show "entry (kmem t) pgdir vb = entry (kmem s) pgdir vb" for vb
  proof (cases "PDX vb = i")
    case True
    then show ?thesis using i zero [of "PTX vb"] tx by (simp add: entry_def)
  next
    case False
    then show ?thesis
      using P [of "PDX vb"] tb [of "PDX vb"] D(4-6) [of "PDX vb"] other [of _ "PTX vb"] by (auto simp: entry_def)
  qed
qed

lemma walk_present:
  assumes "odd (pde (kmem s) pgdir (PDX va))"
  shows "walkpgdir pgdir va al s = (tab (kmem s) pgdir (PDX va) + 4 * PTX va, s)"
  using assms by (simp add: walkpgdir_def present_odd [simplified] pde_def tab_def Let_def)

lemma walk_absent:
  assumes "even (pde (kmem s) pgdir (PDX va))"
  shows "walkpgdir pgdir va False s = (0, s)"
  using assms by (simp add: walkpgdir_def present_odd [simplified] pde_def Let_def)

text \<open>
  The walk with allocation: it fails only when the free list is empty, and otherwise gives the
  address of the entry and keeps every entry's value.
\<close>

lemma walk_alloc:
  assumes inv: "vm_inv s pgdir xs"
  shows "walkpgdir pgdir va True s = (0, s) \<and> xs = [] \<and> even (pde (kmem s) pgdir (PDX va)) \<or>
    (\<exists>t ys. walkpgdir pgdir va True s = (tab (kmem t) pgdir (PDX va) + 4 * PTX va, t) \<and>
      odd (pde (kmem t) pgdir (PDX va)) \<and> vm_ext pgdir s xs t ys \<and> length xs \<le> length ys + 1 \<and>
      (\<forall>vb. entry (kmem t) pgdir vb = entry (kmem s) pgdir vb))"
proof (cases "odd (pde (kmem s) pgdir (PDX va))")
  case True
  then show ?thesis using walk_present [OF True] vm_ext_refl [OF inv] le_add1 by blast
next
  case e: False
  show ?thesis
  proof (cases xs)
    case Nil
    then have "kalloc s = (0, s)" using vm_invD(1) [OF inv] kalloc_none by simp
    then show ?thesis using Nil e by (simp add: walkpgdir_def present_odd [simplified] pde_def Let_def)
  next
    case (Cons x ys)
    then obtain s1 where s1: "kalloc s = (x, s1)" "kmem_inv s1 ys" "kend s1 = kend s" "kmem s1 = kmem s"
      using kalloc_ok [of s x ys] vm_invD(1) [OF inv] by auto
    have kd: "kdata s1 = kdata s" using s1(1) by (auto simp: kalloc_def Let_def split: if_splits)
    have x0: "x \<noteq> 0" using vm_invD(1) [OF inv] Cons by (auto simp: kmem_inv_def page_ok_def)
    let ?t = "st (pgdir + 4 * PDX va) (V2P x OR PTE_P OR PTE_W OR PTE_U) (s1\<lparr>kmem := memset (kmem s1) x 0 PGSIZE\<rparr>)"
    have w: "walkpgdir pgdir va True s = (x + 4 * PTX va, ?t)"
      using e x0 s1(1) by (simp add: walkpgdir_def present_odd [simplified] pde_def Let_def)
    note n = new_table [OF inv [unfolded Cons] PDX_less _ s1(2,3) kd s1(4) refl, of va]
    show ?thesis using w n e Cons by auto
  qed
qed

section \<open>mappages\<close>

definition maps_to :: "nat \<Rightarrow> mem \<Rightarrow> mem \<Rightarrow> nat \<Rightarrow> nat \<Rightarrow> nat \<Rightarrow> nat \<Rightarrow> bool" where
  "maps_to pgdir m m' a pa perm k \<longleftrightarrow> (\<forall>vb < 2 ^ 32. entry m' pgdir vb =
     (if a \<le> vb \<and> vb < a + k * PGSIZE then (pa + (PGROUNDDOWN vb - a)) OR perm OR PTE_P else entry m pgdir vb))"

lemma PGROUNDDOWN_in:
  assumes "PGSIZE dvd a" "a \<le> vb" "vb < a + PGSIZE"
  shows "PGROUNDDOWN vb = a"
proof -
  obtain i where i: "a = 4096 * i" using assms(1) by (auto simp: PGSIZE_def)
  have "vb div 4096 = i" using assms(2,3) i by (intro div_nat_eqI) (auto simp: PGSIZE_def)
  then show ?thesis using i by (simp add: PGROUNDDOWN_def PGSIZE_def)
qed

lemma same_page_iff:
  assumes "PGSIZE dvd a" "a < 2 ^ 32" "vb < 2 ^ 32"
  shows "PDX vb = PDX a \<and> PTX vb = PTX a \<longleftrightarrow> a \<le> vb \<and> vb < a + PGSIZE"
proof
  assume "PDX vb = PDX a \<and> PTX vb = PTX a"
  then have "vb div PGSIZE = a div PGSIZE" using same_entry_page assms by blast
  then have "vb div 4096 = a div 4096" by (simp add: PGSIZE_def)
  moreover have "a div 4096 * 4096 = a" using assms(1) by (simp add: PGSIZE_def dvd_div_mult_self)
  moreover have "vb div 4096 * 4096 + vb mod 4096 = vb" "vb mod 4096 < 4096"
    by (simp_all only: div_mult_mod_eq mod_less_divisor zero_less_numeral)
  ultimately show "a \<le> vb \<and> vb < a + PGSIZE" unfolding PGSIZE_def by linarith
next
  assume "a \<le> vb \<and> vb < a + PGSIZE"
  then have "PGROUNDDOWN vb = a" using PGROUNDDOWN_in assms(1) by blast
  then have "a = vb div 4096 * 4096" by (simp add: PGROUNDDOWN_def PGSIZE_def)
  then have "a div 4096 = vb div 4096" by simp
  moreover have "v div 2 ^ 22 = v div 4096 div 1024" for v :: nat by (simp add: div_mult2_eq [symmetric])
  ultimately show "PDX vb = PDX a \<and> PTX vb = PTX a" unfolding PDX_def PTX_def by simp
qed

text \<open>One round of the loop: the entry is written, everything else about the table stays.\<close>

lemma map_one:
  assumes inv: "vm_inv s pgdir xs" and a: "PGSIZE dvd a" "a < 2 ^ 32" and pa: "pa < 2 ^ 32" "perm < 4096"
    and free: "even (entry (kmem s) pgdir a)"
  shows "walkpgdir pgdir a True s = (0, s) \<and> xs = [] \<or>
    (\<exists>t u ys. walkpgdir pgdir a True s = (tab (kmem t) pgdir (PDX a) + 4 * PTX a, t) \<and>
      tab (kmem t) pgdir (PDX a) \<noteq> 0 \<and> even (ld32 (kmem t) (tab (kmem t) pgdir (PDX a) + 4 * PTX a)) \<and>
      u = st (tab (kmem t) pgdir (PDX a) + 4 * PTX a) (pa OR perm OR PTE_P) t \<and>
      vm_ext pgdir s xs u ys \<and> length xs \<le> length ys + 1 \<and> maps_to pgdir (kmem s) (kmem u) a pa perm 1)"
  using walk_alloc [OF inv, of a]
proof (elim disjE exE conjE)
  fix t ys
  assume w: "walkpgdir pgdir a True s = (tab (kmem t) pgdir (PDX a) + 4 * PTX a, t)"
    and o: "odd (pde (kmem t) pgdir (PDX a))" and ext: "vm_ext pgdir s xs t ys" and len: "length xs \<le> length ys + 1"
    and ent: "\<forall>vb. entry (kmem t) pgdir vb = entry (kmem s) pgdir vb"
  have it: "vm_inv t pgdir ys" using ext by (simp add: vm_ext_def)
  let ?e = "pa OR perm OR PTE_P"
  let ?u = "st (tab (kmem t) pgdir (PDX a) + 4 * PTX a) ?e t"
  have "perm < 2 ^ 32" using pa(2) by simp
  then have "?e < 2 ^ 32" using pa(1) by (intro or_less) (auto simp: PTE_P_def)
  note se = set_entry [OF it o PDX_less PTX_less this]
  have "vm_ext pgdir t ys ?u ys"
    using se(1,2,5) o by (auto simp: vm_ext_def st_def tables_def)
  then have "vm_ext pgdir s xs ?u ys" by (rule vm_ext_trans [OF ext])
  moreover have "maps_to pgdir (kmem s) (kmem ?u) a pa perm 1"
    unfolding maps_to_def using se(4) ent same_page_iff [OF a] PGROUNDDOWN_in [OF a(1)] by auto
  moreover have "even (ld32 (kmem t) (tab (kmem t) pgdir (PDX a) + 4 * PTX a))"
    using free ent o by (metis entry_def)
  moreover have "tab (kmem t) pgdir (PDX a) \<noteq> 0"
    using vm_invD(4) [OF it PDX_less o] by (auto simp: page_ok_def)
  ultimately show ?thesis using w len by blast
qed blast

lemma maps_to_trans:
  assumes "maps_to pgdir m m1 a pa perm 1" "maps_to pgdir m1 m2 (a + PGSIZE) (pa + PGSIZE) perm k" "PGSIZE dvd a"
  shows "maps_to pgdir m m2 a pa perm (Suc k)"
proof -
  have "a + PGSIZE \<le> PGROUNDDOWN vb" if "a + PGSIZE \<le> vb" for vb
  proof -
    obtain i where i: "a = 4096 * i" using assms(3) by (auto simp: PGSIZE_def)
    then have "(4096 * (i + 1)) div 4096 \<le> vb div 4096" using that by (intro div_le_mono) (simp add: PGSIZE_def)
    then show ?thesis using i by (simp add: PGROUNDDOWN_def PGSIZE_def)
  qed
  then have shift: "pa + PGSIZE + (PGROUNDDOWN vb - (a + PGSIZE)) = pa + (PGROUNDDOWN vb - a)" if "a + PGSIZE \<le> vb" for vb
    using that by fastforce
  have "entry m2 pgdir vb = (if a \<le> vb \<and> vb < a + Suc k * PGSIZE then (pa + (PGROUNDDOWN vb - a)) OR perm OR PTE_P
      else entry m pgdir vb)" if vb: "vb < 2 ^ 32" for vb
  proof (cases "vb < a + PGSIZE")
    case True
    then show ?thesis using assms(1,2) vb by (auto simp: maps_to_def)
  next
    case False
    have "entry m2 pgdir vb = (if a + PGSIZE \<le> vb \<and> vb < a + PGSIZE + k * PGSIZE
        then (pa + PGSIZE + (PGROUNDDOWN vb - (a + PGSIZE))) OR perm OR PTE_P else entry m1 pgdir vb)"
      using assms(2) vb unfolding maps_to_def by blast
    then show ?thesis
      using False assms(1) vb shift [of vb] unfolding maps_to_def by (simp only: not_less) auto
  qed
  then show ?thesis by (simp add: maps_to_def)
qed

lemma mappages_loop_ok:
  assumes "vm_inv s pgdir xs" "PGSIZE dvd a" "a + n * PGSIZE < 2 ^ 32" "pa + n * PGSIZE < 2 ^ 32" "perm < 4096"
    "\<forall>k \<le> n. even (entry (kmem s) pgdir (a + k * PGSIZE))"
  shows "okP (mappages_loop pgdir a pa perm n s) (\<lambda>(r, t). \<exists>ys k. vm_ext pgdir s xs t ys \<and>
    maps_to pgdir (kmem s) (kmem t) a pa perm k \<and> length xs \<le> length ys + k \<and>
    (r = 0 \<and> k = Suc n \<or> r = -1 \<and> k \<le> n \<and> ys = []))"
  using assms
proof (induction n arbitrary: a pa s xs)
  case 0
  have "a < 2 ^ 32" "pa < 2 ^ 32" "even (entry (kmem s) pgdir a)" using 0 by auto
  from map_one [OF "0.prems"(1,2) this(1,2) "0.prems"(5) this(3)] show ?case
  proof (elim disjE exE conjE)
    assume "walkpgdir pgdir a True s = (0, s)" "xs = []"
    then show ?thesis using vm_ext_refl [OF "0.prems"(1)]
      by (subst mappages_loop.simps) (auto simp: maps_to_def intro!: exI [of _ "0::nat"])
  next
    fix t u ys
    assume w: "walkpgdir pgdir a True s = (tab (kmem t) pgdir (PDX a) + 4 * PTX a, t)"
      "tab (kmem t) pgdir (PDX a) \<noteq> 0" "even (ld32 (kmem t) (tab (kmem t) pgdir (PDX a) + 4 * PTX a))"
      "u = st (tab (kmem t) pgdir (PDX a) + 4 * PTX a) (pa OR perm OR PTE_P) t"
      and u: "vm_ext pgdir s xs u ys" "length xs \<le> length ys + 1" "maps_to pgdir (kmem s) (kmem u) a pa perm 1"
    have "mappages_loop pgdir a pa perm 0 s = Ok (0, u)"
      by (subst mappages_loop.simps) (use w in \<open>simp add: present_odd [simplified]\<close>)
    then show ?thesis using u by (auto intro!: exI [of _ ys] exI [of _ "1::nat"] simp: One_nat_def)
  qed
next
  case (Suc n)
  have a: "a < 2 ^ 32" "pa < 2 ^ 32" "even (entry (kmem s) pgdir a)"
    using Suc.prems(3,4) Suc.prems(6) [rule_format, of 0] by auto
  from map_one [OF Suc.prems(1,2) a(1,2) Suc.prems(5) a(3)] show ?case
  proof (elim disjE exE conjE)
    assume "walkpgdir pgdir a True s = (0, s)" "xs = []"
    then show ?thesis using vm_ext_refl [OF Suc.prems(1)]
      by (subst mappages_loop.simps) (auto simp: maps_to_def intro!: exI [of _ "0::nat"])
  next
    fix t u ys
    assume w: "walkpgdir pgdir a True s = (tab (kmem t) pgdir (PDX a) + 4 * PTX a, t)"
      "tab (kmem t) pgdir (PDX a) \<noteq> 0" "even (ld32 (kmem t) (tab (kmem t) pgdir (PDX a) + 4 * PTX a))"
      "u = st (tab (kmem t) pgdir (PDX a) + 4 * PTX a) (pa OR perm OR PTE_P) t"
      and ext: "vm_ext pgdir s xs u ys" and len: "length xs \<le> length ys + 1" and one: "maps_to pgdir (kmem s) (kmem u) a pa perm 1"
    have mod: "(a + PGSIZE) mod 2 ^ 32 = a + PGSIZE" "(pa + PGSIZE) mod 2 ^ 32 = pa + PGSIZE"
      using Suc.prems(3,4) by (auto simp: PGSIZE_def)
    have unf: "mappages_loop pgdir a pa perm (Suc n) s = mappages_loop pgdir (a + PGSIZE) (pa + PGSIZE) perm n u"
      by (subst mappages_loop.simps) (use w mod in \<open>simp add: present_odd [simplified] Let_def\<close>)
    have un: "even (entry (kmem u) pgdir (a + PGSIZE + k * PGSIZE))" if "k \<le> n" for k
    proof -
      have "a + PGSIZE + k * PGSIZE < 2 ^ 32" using Suc.prems(3) that by (auto simp: PGSIZE_def)
      then have "entry (kmem u) pgdir (a + PGSIZE + k * PGSIZE) = entry (kmem s) pgdir (a + Suc k * PGSIZE)"
        using one by (simp add: maps_to_def add.assoc)
      then show ?thesis using Suc.prems(6) [rule_format, of "Suc k"] that by simp
    qed
    have "okP (mappages_loop pgdir (a + PGSIZE) (pa + PGSIZE) perm n u) (\<lambda>(r, t). \<exists>zs k. vm_ext pgdir u ys t zs \<and>
      maps_to pgdir (kmem u) (kmem t) (a + PGSIZE) (pa + PGSIZE) perm k \<and> length ys \<le> length zs + k \<and>
      (r = 0 \<and> k = Suc n \<or> r = -1 \<and> k \<le> n \<and> zs = []))"
      by (rule Suc.IH) (use ext Suc.prems un in \<open>auto simp: vm_ext_def\<close>)
    then show ?thesis unfolding unf
    proof (rule okP_weaken, clarify, goal_cases)
      case (1 r t zs k)
      have "maps_to pgdir (kmem s) (kmem t) a pa perm (Suc k)" by (rule maps_to_trans [OF one 1(3) Suc.prems(2)])
      then show ?case using vm_ext_trans [OF ext 1(2)] 1(4,5) len by (intro exI [of _ zs] exI [of _ "Suc k"]) auto
    qed
  qed
qed

text \<open>The number of pages that the range touches.\<close>

definition npages :: "nat \<Rightarrow> nat \<Rightarrow> nat" where
  "npages va sz = (PGROUNDDOWN (va + sz - 1) - PGROUNDDOWN va) div PGSIZE + 1"

lemma PGROUNDDOWN_le: "PGROUNDDOWN a \<le> a" and PGROUNDDOWN_dvd [simp]: "PGSIZE dvd PGROUNDDOWN a"
  by (simp_all add: PGROUNDDOWN_def)

lemma PGROUNDDOWN_mono: "a \<le> b \<Longrightarrow> PGROUNDDOWN a \<le> PGROUNDDOWN b"
  by (simp add: PGROUNDDOWN_def div_le_mono)

lemma PGROUNDDOWN_page [simp]: "PGSIZE dvd a \<Longrightarrow> PGROUNDDOWN a = a"
  by (simp add: PGROUNDDOWN_def)

lemma u32_id: "0 \<le> x \<Longrightarrow> x < 2 ^ 32 \<Longrightarrow> u32 x = nat x"
  by (simp add: u32_def)

lemma mappages_unfold:
  assumes "0 < sz" "va + sz \<le> 2 ^ 32"
  shows "mappages pgdir va sz pa perm s = mappages_loop pgdir (PGROUNDDOWN va) pa perm (npages va sz - 1) s"
    "PGROUNDDOWN va + (npages va sz - 1) * PGSIZE = PGROUNDDOWN (va + sz - 1)"
proof -
  have le: "PGROUNDDOWN va \<le> PGROUNDDOWN (va + sz - 1)" using assms(1) by (intro PGROUNDDOWN_mono) simp
  have "int va + int sz - 1 = int (va + sz - 1)" using assms(1) by auto
  then have u: "u32 (int va + int sz - 1) = va + sz - 1" using assms by (simp add: u32_id)
  have "u32 (int (PGROUNDDOWN (va + sz - 1)) - int (PGROUNDDOWN va)) = PGROUNDDOWN (va + sz - 1) - PGROUNDDOWN va"
    using le assms PGROUNDDOWN_le [of "va + sz - 1"] by (subst u32_id) auto
  then show "mappages pgdir va sz pa perm s = mappages_loop pgdir (PGROUNDDOWN va) pa perm (npages va sz - 1) s"
    by (simp add: mappages_def u Let_def npages_def)
  have "PGSIZE dvd PGROUNDDOWN (va + sz - 1) - PGROUNDDOWN va" by (simp add: dvd_diff_nat)
  then show "PGROUNDDOWN va + (npages va sz - 1) * PGSIZE = PGROUNDDOWN (va + sz - 1)"
    using le by (simp add: npages_def)
qed

lemma mappages_ok:
  assumes inv: "vm_inv s pgdir xs" and r: "0 < sz" "va + sz \<le> 2 ^ 32" "pa + npages va sz * PGSIZE \<le> 2 ^ 32" "perm < 4096"
    and free: "\<forall>k < npages va sz. even (entry (kmem s) pgdir (PGROUNDDOWN va + k * PGSIZE))"
  shows "okP (mappages pgdir va sz pa perm s) (\<lambda>(r, t). \<exists>ys k. vm_ext pgdir s xs t ys \<and>
    maps_to pgdir (kmem s) (kmem t) (PGROUNDDOWN va) pa perm k \<and> length xs \<le> length ys + k \<and>
    (r = 0 \<and> k = npages va sz \<or> r = -1 \<and> k < npages va sz \<and> ys = []))"
proof -
  obtain n where n: "npages va sz = Suc n" by (auto simp: npages_def One_nat_def)
  have "PGROUNDDOWN va + n * PGSIZE < 2 ^ 32"
    using mappages_unfold(2) [OF r(1,2)] n PGROUNDDOWN_le [of "va + sz - 1"] r(1,2) by auto
  moreover have "pa + n * PGSIZE < 2 ^ 32" using r(3) n by (auto simp: PGSIZE_def)
  ultimately have "okP (mappages_loop pgdir (PGROUNDDOWN va) pa perm n s) (\<lambda>(r, t). \<exists>ys k. vm_ext pgdir s xs t ys \<and>
    maps_to pgdir (kmem s) (kmem t) (PGROUNDDOWN va) pa perm k \<and> length xs \<le> length ys + k \<and> (r = 0 \<and> k = Suc n \<or> r = -1 \<and> k \<le> n \<and> ys = []))"
    using free n by (intro mappages_loop_ok [OF inv]) (auto simp: r(4))
  then show ?thesis using mappages_unfold(1) [OF r(1,2)] n by (simp add: less_Suc_eq_le)
qed

lemma mappages_remap:
  assumes inv: "vm_inv s pgdir xs" and r: "0 < sz" "va + sz \<le> 2 ^ 32" and pr: "odd (entry (kmem s) pgdir (PGROUNDDOWN va))"
  shows "mappages pgdir va sz pa perm s = Panic ''remap''"
proof -
  let ?a = "PGROUNDDOWN va"
  have p: "odd (pde (kmem s) pgdir (PDX ?a))" using pr by (auto simp: entry_def split: if_splits)
  then have "tab (kmem s) pgdir (PDX ?a) \<noteq> 0" using vm_invD(4) [OF inv PDX_less] by (fastforce simp: page_ok_def)
  moreover have "odd (ld32 (kmem s) (tab (kmem s) pgdir (PDX ?a) + 4 * PTX ?a))" using pr p by (simp add: entry_def)
  ultimately show ?thesis unfolding mappages_unfold(1) [OF r]
    by (subst mappages_loop.simps) (simp add: walk_present [OF p] present_odd [simplified])
qed

end
