(* ===== verification/Vm_User.thy ===== *)
theory Vm_User
  imports Vm_Map
begin

text \<open>
  User memory: \<^verbatim>\<open>uva2ka\<close> and \<^verbatim>\<open>copyout\<close> through a page table, and
  growing a process with \<^verbatim>\<open>allocuvm\<close>.
\<close>

section \<open>Address translation\<close>

definition frame :: "mem \<Rightarrow> nat \<Rightarrow> nat \<Rightarrow> nat" where
  "frame m pgdir va = P2V (PTE_ADDR (entry m pgdir va))"

definition xlate :: "mem \<Rightarrow> nat \<Rightarrow> nat \<Rightarrow> nat" where
  "xlate m pgdir va = frame m pgdir va + va mod PGSIZE"

definition user_page :: "kmem_st \<Rightarrow> nat \<Rightarrow> nat \<Rightarrow> bool" where
  "user_page s pgdir va \<longleftrightarrow> odd (entry (kmem s) pgdir va) \<and> entry (kmem s) pgdir va AND PTE_U \<noteq> 0 \<and>
     page_ok s (frame (kmem s) pgdir va) \<and> frame (kmem s) pgdir va \<notin> tables (kmem s) pgdir"

lemma entry_page:
  assumes "va < 2 ^ 32"
  shows "entry m pgdir (PGROUNDDOWN va) = entry m pgdir va"
proof -
  have "PGROUNDDOWN va \<le> va" "va < PGROUNDDOWN va + PGSIZE"
    using PGROUNDDOWN_le [of va] PGROUNDDOWN_gap [of va] by linarith+
  then show ?thesis
    using same_page_iff [of "PGROUNDDOWN va" va] assms by (simp add: entry_def)
qed

lemma walk_entry:
  assumes "odd (entry (kmem s) pgdir va)" "vm_inv s pgdir xs"
  shows "\<exists>pte. walkpgdir pgdir va al s = (pte, s) \<and> pte \<noteq> 0 \<and> ld32 (kmem s) pte = entry (kmem s) pgdir va"
proof -
  have p: "odd (pde (kmem s) pgdir (PDX va))" using assms(1) by (auto simp: entry_def split: if_splits)
  then have "tab (kmem s) pgdir (PDX va) \<noteq> 0" using vm_invD(4) [OF assms(2) PDX_less] by (fastforce simp: page_ok_def)
  then show ?thesis using walk_present [OF p] p by (simp add: entry_def)
qed

lemma uva2ka_ok:
  assumes "vm_inv s pgdir xs" "user_page s pgdir va"
  shows "uva2ka pgdir va s = Ok (frame (kmem s) pgdir va)"
  using walk_entry [of s pgdir va xs False] assms
  by (auto simp: uva2ka_def user_page_def absent_even Let_def frame_def)

text \<open>Memory that changes outside the tables leaves every entry alone.\<close>

lemma entry_frame:
  assumes "vm_inv s pgdir xs" "\<And>p a. p \<in> tables (kmem s) pgdir \<Longrightarrow> in_page a p \<Longrightarrow> m' a = kmem s a"
  shows "entry m' pgdir va = entry (kmem s) pgdir va" "tables m' pgdir = tables (kmem s) pgdir"
    "\<And>k. k < 1024 \<Longrightarrow> pde m' pgdir k = pde (kmem s) pgdir k"
proof -
  show P: "pde m' pgdir k = pde (kmem s) pgdir k" if "k < 1024" for k
    unfolding pde_def by (rule ld32_same_page) (use assms(2) that in \<open>auto simp: tables_def\<close>)
  then show "tables m' pgdir = tables (kmem s) pgdir" by (auto simp: tables_def tab_def)
  have "ld32 m' (tab (kmem s) pgdir k + 4 * l) = ld32 (kmem s) (tab (kmem s) pgdir k + 4 * l)"
    if "k < 1024" "odd (pde (kmem s) pgdir k)" "l < 1024" for k l
    by (rule ld32_same_page) (use assms(2) that in \<open>auto simp: tables_def\<close>)
  then show "entry m' pgdir va = entry (kmem s) pgdir va" using P [of "PDX va"] by (simp add: entry_def tab_def)
qed

lemma vm_inv_frame:
  assumes inv: "vm_inv s pgdir xs" and t: "freelist t = freelist s" "kend t = kend s"
    and eq: "\<And>p a. p \<in> tables (kmem s) pgdir \<union> set xs \<Longrightarrow> in_page a p \<Longrightarrow> kmem t a = kmem s a"
  shows "vm_inv t pgdir xs"
proof -
  have P: "pde (kmem t) pgdir k = pde (kmem s) pgdir k" if "k < 1024" for k
    using entry_frame(3) [OF inv _ that, of "kmem t"] eq by auto
  have "ld32 (kmem t) x = ld32 (kmem s) x" if "x \<in> set xs" for x
    using ld32_same_page [of x "kmem t" "kmem s" 0] eq that by auto
  then have "kmem_inv t xs" by (intro kmem_inv_frame [OF vm_invD(1) [OF inv] t]) auto
  moreover have "page_ok t = page_ok s" by (rule page_ok_kend [OF t(2)])
  ultimately show ?thesis using inv P by (auto simp: vm_inv_def tab_def)
qed

section \<open>copyout\<close>

definition user_range :: "kmem_st \<Rightarrow> nat \<Rightarrow> nat list \<Rightarrow> nat \<Rightarrow> nat \<Rightarrow> bool" where
  "user_range s pgdir xs va n \<longleftrightarrow> vm_inv s pgdir xs \<and> va + n \<le> 2 ^ 32 \<and>
     (\<forall>v. va \<le> v \<and> v < va + n \<longrightarrow> user_page s pgdir v \<and> frame (kmem s) pgdir v \<notin> set xs) \<and>
     (\<forall>v w. va \<le> v \<and> v < va + n \<and> va \<le> w \<and> w < va + n \<and> frame (kmem s) pgdir v = frame (kmem s) pgdir w \<longrightarrow>
        PGROUNDDOWN v = PGROUNDDOWN w)"

lemma user_rangeD:
  assumes "user_range s pgdir xs va n" "va \<le> v" "v < va + n"
  shows "user_page s pgdir v" "frame (kmem s) pgdir v \<notin> set xs" "v < 2 ^ 32"
  using assms by (auto simp: user_range_def)

lemma in_page_unique: "page_ok s p \<Longrightarrow> page_ok s q \<Longrightarrow> in_page a p \<Longrightarrow> in_page a q \<Longrightarrow> p = q"
  using page_apart [OF page_ok_dvd page_ok_dvd, of s p s q] by (auto simp: in_page_def)

lemma tables_ok: "vm_inv s pgdir xs \<Longrightarrow> p \<in> tables (kmem s) pgdir \<Longrightarrow> page_ok s p"
  by (auto simp: tables_def vm_invD(2) intro: vm_invD(4))

lemma copy_chunk:
  assumes ur: "user_range s pgdir xs va n" and n: "0 < n" and k: "k \<le> PGSIZE - va mod PGSIZE" "length bs = k"
  defines "t \<equiv> s\<lparr>kmem := store (kmem s) (frame (kmem s) pgdir va + va mod PGSIZE) bs\<rparr>"
  shows "vm_inv t pgdir xs" "\<And>v. entry (kmem t) pgdir v = entry (kmem s) pgdir v"
    "tables (kmem t) pgdir = tables (kmem s) pgdir"
    "\<And>a. \<not> in_page a (frame (kmem s) pgdir va) \<Longrightarrow> kmem t a = kmem s a"
proof -
  note u = user_rangeD [OF ur order_refl, unfolded less_add_same_cancel1, OF n]
  have inv: "vm_inv s pgdir xs" using ur by (simp add: user_range_def)
  let ?q = "frame (kmem s) pgdir va"
  have q: "page_ok s ?q" "?q \<notin> tables (kmem s) pgdir" using u(1) by (auto simp: user_page_def)
  have lt: "va mod PGSIZE < PGSIZE" by (simp add: PGSIZE_def)
  show out: "kmem t a = kmem s a" if "\<not> in_page a ?q" for a
    using that k lt by (auto simp: t_def in_page_def intro!: store_other)
  have keep: "kmem t a = kmem s a" if "p \<in> tables (kmem s) pgdir \<union> set xs" "in_page a p" for p a
  proof (rule out, rule notI)
    assume "in_page a ?q"
    moreover have "page_ok s p" using that(1) tables_ok [OF inv] vm_invD(1) [OF inv] by (auto simp: kmem_inv_def)
    ultimately have "p = ?q" using in_page_unique that(2) q(1) by blast
    then show False using that(1) q(2) u(2) by auto
  qed
  show "vm_inv t pgdir xs" by (rule vm_inv_frame [OF inv]) (use keep in \<open>auto simp: t_def\<close>)
  show "entry (kmem t) pgdir v = entry (kmem s) pgdir v" for v by (rule entry_frame [OF inv]) (use keep in auto)
  show "tables (kmem t) pgdir = tables (kmem s) pgdir" by (rule entry_frame [OF inv]) (use keep in auto)
qed

lemma same_page_add:
  assumes "va mod PGSIZE + i < PGSIZE" "va + i < 2 ^ 32"
  shows "frame m pgdir (va + i) = frame m pgdir va" "xlate m pgdir (va + i) = frame m pgdir va + va mod PGSIZE + i"
    "PGROUNDDOWN (va + i) = PGROUNDDOWN va"
proof -
  have "(va + i) div PGSIZE = va div PGSIZE"
  proof (rule div_nat_eqI)
    show "PGSIZE * (va div PGSIZE) \<le> va + i" using mult_div_mod_eq [of PGSIZE va] by linarith
    show "va + i < PGSIZE * Suc (va div PGSIZE)"
      unfolding mult_Suc_right using mult_div_mod_eq [of PGSIZE va] assms(1) by linarith
  qed
  then show r: "PGROUNDDOWN (va + i) = PGROUNDDOWN va" by (simp add: PGROUNDDOWN_def)
  then have "entry m pgdir (va + i) = entry m pgdir va"
    using entry_page [of "va + i" m pgdir] entry_page [of va m pgdir] assms(2) by simp
  then show "frame m pgdir (va + i) = frame m pgdir va" by (simp add: frame_def)
  moreover have "(va + i) mod PGSIZE = va mod PGSIZE + i" using assms(1) by (metis mod_add_left_eq mod_less)
  ultimately show "xlate m pgdir (va + i) = frame m pgdir va + va mod PGSIZE + i" by (simp add: xlate_def)
qed

text \<open>Different addresses of the range translate to different places.\<close>

lemma range_inj:
  assumes ur: "user_range s pgdir xs va n" and ij: "i < n" "j < n" "xlate (kmem s) pgdir (va + i) = xlate (kmem s) pgdir (va + j)"
  shows "i = j"
proof -
  have u: "user_page s pgdir (va + i)" "user_page s pgdir (va + j)" using user_rangeD [OF ur] ij by auto
  have "in_page (xlate (kmem s) pgdir v) (frame (kmem s) pgdir v)" for v
    by (simp add: in_page_def xlate_def PGSIZE_def)
  then have "frame (kmem s) pgdir (va + i) = frame (kmem s) pgdir (va + j)"
    using in_page_unique u ij(3) by (metis user_page_def)
  moreover from this have "PGROUNDDOWN (va + i) = PGROUNDDOWN (va + j)" using ur ij by (simp add: user_range_def)
  ultimately have "(va + i) div PGSIZE = (va + j) div PGSIZE" "(va + i) mod PGSIZE = (va + j) mod PGSIZE"
    using ij(3) by (simp_all add: xlate_def PGROUNDDOWN_def PGSIZE_def)
  then have "va + i = va + j" by (metis div_mult_mod_eq)
  then show ?thesis by simp
qed

definition copied :: "mem \<Rightarrow> nat \<Rightarrow> nat \<Rightarrow> byte list \<Rightarrow> mem \<Rightarrow> bool" where
  "copied m pgdir va bs m' \<longleftrightarrow> (\<forall>i < length bs. m' (xlate m pgdir (va + i)) = bs ! i) \<and>
     (\<forall>a. (\<forall>i < length bs. a \<noteq> xlate m pgdir (va + i)) \<longrightarrow> m' a = m a)"

lemma copied_append:
  assumes ur: "user_range s pgdir xs va (length bs)" and n: "n \<le> length bs"
    and c1: "copied (kmem s) pgdir va (take n bs) m1" and x: "\<And>v. xlate m1 pgdir v = xlate (kmem s) pgdir v"
    and c2: "copied m1 pgdir (va + n) (drop n bs) m2"
  shows "copied (kmem s) pgdir va bs m2"
proof -
  let ?x = "\<lambda>i. xlate (kmem s) pgdir (va + i)"
  have f: "m1 (?x i) = bs ! i" if "i < n" for i using c1 that n by (simp add: copied_def)
  have g: "m1 a = kmem s a" if "\<forall>i < n. a \<noteq> ?x i" for a using c1 that n by (simp add: copied_def)
  have h: "m2 (?x (n + i)) = bs ! (n + i)" if "n + i < length bs" for i
    using c2 that n x by (simp add: copied_def add.assoc)
  have k: "m2 a = m1 a" if "\<forall>i. n + i < length bs \<longrightarrow> a \<noteq> ?x (n + i)" for a
    using c2 that n x by (auto simp: copied_def add.assoc)
  have "m2 (?x i) = bs ! i" if "i < length bs" for i
  proof (cases "i < n")
    case True
    then have "m2 (?x i) = m1 (?x i)" using range_inj [OF ur that] by (intro k) force
    then show ?thesis using f True by simp
  next
    case False
    then show ?thesis using h [of "i - n"] that by simp
  qed
  moreover have "m2 a = kmem s a" if "\<forall>i < length bs. a \<noteq> ?x i" for a
    using that n k [of a] g [of a] by simp
  ultimately show ?thesis by (simp add: copied_def)
qed

lemma copied_chunk:
  assumes "va mod PGSIZE + length bs \<le> PGSIZE" "va + length bs \<le> 2 ^ 32"
  shows "copied m pgdir va bs (store m (frame m pgdir va + va mod PGSIZE) bs)"
proof -
  let ?q = "frame m pgdir va + va mod PGSIZE"
  have eq: "xlate m pgdir (va + i) = ?q + i" if "i < length bs" for i
    using same_page_add(2) [of va i m pgdir] that assms by simp
  have "store m ?q bs a = m a" if "\<forall>i < length bs. a \<noteq> ?q + i" for a
    using that [rule_format, of "a - ?q"] by (intro store_other) linarith
  then show ?thesis using eq by (auto simp: copied_def store_def)
qed

text \<open>One round of the loop.\<close>

lemma copyout_step:
  assumes ur: "user_range s pgdir xs va (length buf)" and len: "0 < length buf"
  defines "n \<equiv> min (PGSIZE - va mod PGSIZE) (length buf)"
  defines "t \<equiv> s\<lparr>kmem := store (kmem s) (frame (kmem s) pgdir va + va mod PGSIZE) (take n buf)\<rparr>"
  shows "copyout pgdir va buf s = copyout pgdir ((PGROUNDDOWN va + PGSIZE) mod 2 ^ 32) (drop n buf) t"
    "0 < n" "n < length buf \<Longrightarrow> (PGROUNDDOWN va + PGSIZE) mod 2 ^ 32 = va + n"
    "copied (kmem s) pgdir va (take n buf) (kmem t)" "xlate (kmem t) pgdir v = xlate (kmem s) pgdir v"
    "user_range t pgdir xs (va + n) (length buf - n)"
    "uva2ka pgdir (PGROUNDDOWN va) s = Ok (frame (kmem s) pgdir va)" "frame (kmem s) pgdir va \<noteq> 0"
proof -
  have inv: "vm_inv s pgdir xs" and top: "va + length buf \<le> 2 ^ 32" using ur by (simp_all add: user_range_def)
  have va: "va < 2 ^ 32" "user_page s pgdir va" using user_rangeD [OF ur, of va] len by auto
  have gap: "va - PGROUNDDOWN va = va mod PGSIZE" by (simp add: PGROUNDDOWN_def minus_div_mult_eq_mod)
  have q: "frame (kmem s) pgdir (PGROUNDDOWN va) = frame (kmem s) pgdir va"
    using entry_page [OF va(1)] by (simp add: frame_def)
  have "user_page s pgdir (PGROUNDDOWN va)" using va(2) entry_page [OF va(1)] by (simp add: user_page_def frame_def)
  from uva2ka_ok [OF inv this] show ka: "uva2ka pgdir (PGROUNDDOWN va) s = Ok (frame (kmem s) pgdir va)" by (simp add: q)
  show q0: "frame (kmem s) pgdir va \<noteq> 0" using va(2) by (auto simp: user_page_def page_ok_def)
  show "copyout pgdir va buf s = copyout pgdir ((PGROUNDDOWN va + PGSIZE) mod 2 ^ 32) (drop n buf) t"
    using len ka q0 by (subst copyout.simps) (simp add: Let_def gap n_def t_def)
  have lt: "va mod PGSIZE < PGSIZE" by (simp add: PGSIZE_def)
  then show "0 < n" using len by (simp add: n_def)
  have np: "va mod PGSIZE + n \<le> PGSIZE" "n \<le> length buf" using lt by (auto simp: n_def)
  have "PGROUNDDOWN va + va mod PGSIZE = va" by (simp add: PGROUNDDOWN_def)
  then show "(PGROUNDDOWN va + PGSIZE) mod 2 ^ 32 = va + n" if "n < length buf"
    using that lt top unfolding n_def by (simp add: min_def split: if_splits)
  show "copied (kmem s) pgdir va (take n buf) (kmem t)"
    using copied_chunk [of va "take n buf" "kmem s" pgdir] np top by (simp add: t_def)
  have "length (take n buf) = n" "n \<le> PGSIZE - va mod PGSIZE" using np by simp_all
  note c = copy_chunk [OF ur len this(2,1), folded t_def]
  have fr: "frame (kmem t) pgdir v = frame (kmem s) pgdir v" for v using c(2) by (simp add: frame_def)
  then show "xlate (kmem t) pgdir v = xlate (kmem s) pgdir v" by (simp add: xlate_def)
  have "page_ok t = page_ok s" by (rule page_ok_kend) (simp add: t_def)
  then show "user_range t pgdir xs (va + n) (length buf - n)"
    using ur np(2) c(1-3) unfolding user_range_def user_page_def fr by auto
qed

lemma copyout_ok:
  "user_range s pgdir xs va (length buf) \<Longrightarrow>
    okP (copyout pgdir va buf s) (\<lambda>(r, t). r = 0 \<and> copied (kmem s) pgdir va buf (kmem t))"
proof (induction pgdir va buf s rule: copyout.induct)
  case (1 pgdir va buf s)
  show ?case
  proof (cases "buf = []")
    case True
    then show ?thesis by (simp add: copyout.simps copied_def)
  next
    case False
    then have len: "0 < length buf" by simp
    let ?n = "min (PGSIZE - va mod PGSIZE) (length buf)"
    let ?t = "s\<lparr>kmem := store (kmem s) (frame (kmem s) pgdir va + va mod PGSIZE) (take ?n buf)\<rparr>"
    note st = copyout_step [OF "1.prems" len]
    show ?thesis
    proof (cases "?n < length buf")
      case True
      have gap: "va - PGROUNDDOWN va = va mod PGSIZE" by (simp add: PGROUNDDOWN_def minus_div_mult_eq_mod)
      have "okP (copyout pgdir (va + ?n) (drop ?n buf) ?t) (\<lambda>(r, t). r = 0 \<and> copied (kmem ?t) pgdir (va + ?n) (drop ?n buf) (kmem t))"
        using "1.IH" [OF len refl st(7,8) refl, unfolded gap st(3) [OF True]] st(6) by simp
      then show ?thesis unfolding st(1) st(3) [OF True]
        by (rule okP_weaken) (auto intro: copied_append [OF "1.prems" _ st(4,5)])
    next
      case False
      then have "?n = length buf" by simp
      then show ?thesis unfolding st(1) using st(4) by (simp add: copyout.simps)
    qed
  qed
qed

section \<open>allocuvm\<close>

text \<open>
  \<open>vm_grown\<close>: the addresses in \<open>A\<close> now have user pages of their own, writable, taken from the
  free list and full of zeros; all other entries and the memory of all other pages are as before.
\<close>

definition vm_grown :: "nat \<Rightarrow> kmem_st \<Rightarrow> nat list \<Rightarrow> kmem_st \<Rightarrow> nat list \<Rightarrow> nat set \<Rightarrow> bool" where
  "vm_grown pgdir s xs t ys A \<longleftrightarrow> vm_ext pgdir s xs t ys \<and>
     (\<forall>vb < 2 ^ 32. vb \<notin> A \<longrightarrow> entry (kmem t) pgdir vb = entry (kmem s) pgdir vb) \<and>
     (\<forall>vb \<in> A. PTE_FLAGS (entry (kmem t) pgdir vb) = 7 \<and> frame (kmem t) pgdir vb \<in> set xs \<and>
        frame (kmem t) pgdir vb \<notin> set ys \<union> tables (kmem t) pgdir \<and>
        (\<forall>a. in_page a (frame (kmem t) pgdir vb) \<longrightarrow> kmem t a = 0)) \<and>
     (\<forall>v \<in> A. \<forall>w \<in> A. frame (kmem t) pgdir v = frame (kmem t) pgdir w \<longrightarrow> PGROUNDDOWN v = PGROUNDDOWN w)"

lemma vm_inv_distinct: "vm_inv s pgdir xs \<Longrightarrow> distinct xs \<and> (\<forall>x \<in> set xs. page_ok s x \<and> x \<notin> tables (kmem s) pgdir)"
  by (auto simp: vm_inv_def kmem_inv_def tables_def)

text \<open>A page that is neither a table nor free keeps its contents.\<close>

lemma vm_ext_keeps:
  assumes inv: "vm_inv s pgdir xs" and ext: "vm_ext pgdir s xs t ys"
    and p: "page_ok s p" "p \<notin> set xs" "p \<notin> tables (kmem s) pgdir"
  shows "p \<notin> tables (kmem t) pgdir" "in_page a p \<Longrightarrow> kmem t a = kmem s a"
proof -
  obtain zs where zs: "xs = zs @ ys" "tables (kmem t) pgdir \<subseteq> tables (kmem s) pgdir \<union> set zs"
    "\<And>a. (\<forall>p \<in> tables (kmem s) pgdir \<union> set zs. \<not> in_page a p) \<Longrightarrow> kmem t a = kmem s a"
    using ext unfolding vm_ext_def by blast
  show "p \<notin> tables (kmem t) pgdir" using zs(1,2) p by auto
  show "kmem t a = kmem s a" if "in_page a p"
  proof (rule zs(3), rule ballI, rule notI)
    fix q assume q: "q \<in> tables (kmem s) pgdir \<union> set zs" "in_page a q"
    have "page_ok s q" using q(1) zs(1) tables_ok [OF inv] vm_inv_distinct [OF inv] by auto
    then have "q = p" using in_page_unique that q(2) p(1) by blast
    then show False using q(1) zs(1) p by auto
  qed
qed

lemma vm_grown_trans:
  assumes inv: "vm_inv s pgdir xs" and g1: "vm_grown pgdir s xs t ys A" and g2: "vm_grown pgdir t ys u zs B"
    and AB: "A \<subseteq> {..<2 ^ 32}" "A \<inter> B = {}"
  shows "vm_grown pgdir s xs u zs (A \<union> B)"
proof -
  have e1: "vm_ext pgdir s xs t ys" and e2: "vm_ext pgdir t ys u zs" using g1 g2 by (auto simp: vm_grown_def)
  have it: "vm_inv t pgdir ys" using e1 by (simp add: vm_ext_def)
  have sub: "set ys \<subseteq> set xs" "set zs \<subseteq> set ys" using e1 e2 by (auto simp: vm_ext_def)
  have kend: "page_ok t = page_ok s" using e1 by (intro page_ok_kend) (simp add: vm_ext_def)
  have same: "frame (kmem u) pgdir v = frame (kmem t) pgdir v" "entry (kmem u) pgdir v = entry (kmem t) pgdir v" if "v \<in> A" for v
    using g2 that AB by (auto simp: vm_grown_def frame_def)
  have A: "frame (kmem t) pgdir v \<in> set xs" "frame (kmem t) pgdir v \<notin> set ys \<union> tables (kmem t) pgdir"
    "\<And>a. in_page a (frame (kmem t) pgdir v) \<Longrightarrow> kmem t a = 0" if "v \<in> A" for v
    using g1 that by (auto simp: vm_grown_def)
  have keep: "frame (kmem t) pgdir v \<notin> tables (kmem u) pgdir" "in_page a (frame (kmem t) pgdir v) \<Longrightarrow> kmem u a = 0"
    if "v \<in> A" for v a
    using vm_ext_keeps [OF it e2, of "frame (kmem t) pgdir v"] A [OF that] vm_inv_distinct [OF inv] kend by auto
  have B: "frame (kmem u) pgdir w \<in> set ys" if "w \<in> B" for w using g2 that by (simp add: vm_grown_def)
  have "PGROUNDDOWN v = PGROUNDDOWN w" if "v \<in> A" "w \<in> A" "frame (kmem t) pgdir v = frame (kmem t) pgdir w" for v w
    using that g1 unfolding vm_grown_def by blast
  moreover have "PGROUNDDOWN v = PGROUNDDOWN w" if "v \<in> B" "w \<in> B" "frame (kmem u) pgdir v = frame (kmem u) pgdir w" for v w
    using that g2 unfolding vm_grown_def by blast
  moreover have "frame (kmem u) pgdir v \<noteq> frame (kmem u) pgdir w" if "v \<in> A" "w \<in> B" for v w
    using B [OF that(2)] A(2) [OF that(1)] same(1) [OF that(1)] by auto
  ultimately have inj: "PGROUNDDOWN v = PGROUNDDOWN w"
    if "v \<in> A \<union> B" "w \<in> A \<union> B" "frame (kmem u) pgdir v = frame (kmem u) pgdir w" for v w
    using that same(1) by (metis UnE)
  have out: "entry (kmem u) pgdir v = entry (kmem s) pgdir v" if "v < 2 ^ 32" "v \<notin> A \<union> B" for v
    using g1 g2 that by (simp add: vm_grown_def)
  have "PTE_FLAGS (entry (kmem u) pgdir v) = 7 \<and> frame (kmem u) pgdir v \<in> set xs \<and>
      frame (kmem u) pgdir v \<notin> set zs \<union> tables (kmem u) pgdir \<and> (\<forall>a. in_page a (frame (kmem u) pgdir v) \<longrightarrow> kmem u a = 0)"
    if "v \<in> A \<union> B" for v
  proof (cases "v \<in> A")
    case True
    have "PTE_FLAGS (entry (kmem t) pgdir v) = 7" using g1 True by (simp add: vm_grown_def)
    then show ?thesis using same [OF True] A [OF True] keep [OF True] sub by auto
  next
    case False
    then have "v \<in> B" using that by simp
    then show ?thesis using g2 sub(1) by (auto simp: vm_grown_def)
  qed
  then show ?thesis
    unfolding vm_grown_def using vm_ext_trans [OF e1 e2] inj out by blast
qed

lemma alloc_step:
  assumes inv: "vm_inv s pgdir xs" and two: "2 \<le> length xs" and a: "PGSIZE dvd a" "a + PGSIZE \<le> 2 ^ 32"
    and free: "even (entry (kmem s) pgdir a)"
  shows "\<exists>x s1 t ys. kalloc s = (x, s1) \<and> x \<noteq> 0 \<and>
    mappages pgdir a PGSIZE (V2P x) (PTE_W OR PTE_U) (s1\<lparr>kmem := memset (kmem s1) x 0 PGSIZE\<rparr>) = Ok (0, t) \<and>
    vm_grown pgdir s xs t ys {a..<a + PGSIZE} \<and> length xs \<le> length ys + 2"
proof -
  obtain x xs' where xs: "xs = x # xs'" "xs' \<noteq> []" using two by (cases xs; cases "tl xs") auto
  obtain s1 where s1: "kalloc s = (x, s1)" "kmem_inv s1 xs'" "kend s1 = kend s" "kmem s1 = kmem s"
    using kalloc_ok [of s x xs'] vm_invD(1) [OF inv] xs(1) by auto
  have kd: "kdata s1 = kdata s" using s1(1) by (auto simp: kalloc_def Let_def split: if_splits)
  have x: "page_ok s x" "x \<notin> tables (kmem s) pgdir" "x \<notin> set xs'" using vm_inv_distinct [OF inv] xs(1) by auto
  define s2 where "s2 = s1\<lparr>kmem := memset (kmem s1) x 0 PGSIZE\<rparr>"
  have out: "kmem s2 b = kmem s b" if "\<not> in_page b x" for b
    using that s1(4) by (auto simp: s2_def in_page_def memset_bytes)
  have zero: "kmem s2 b = 0" if "in_page b x" for b using that by (simp add: s2_def in_page_def memset_bytes)
  have keep: "kmem s2 b = kmem s b" if "p \<in> tables (kmem s) pgdir \<union> set xs'" "in_page b p" for p b
  proof (rule out, rule notI)
    assume "in_page b x"
    moreover have "page_ok s p" using that(1) tables_ok [OF inv] vm_inv_distinct [OF inv] xs(1) by auto
    ultimately have "p = x" using in_page_unique that(2) x(1) by blast
    then show False using that(1) x by auto
  qed
  have i1: "vm_inv s1 pgdir xs'"
    using inv s1 page_ok_kend [OF s1(3)] xs(1) by (auto simp: vm_inv_def)
  have i2: "vm_inv s2 pgdir xs'" by (rule vm_inv_frame [OF i1]) (use keep s1(4) in \<open>auto simp: s2_def\<close>)
  have ent: "entry (kmem s2) pgdir v = entry (kmem s) pgdir v" for v by (rule entry_frame [OF inv]) (use keep in auto)
  have tb: "tables (kmem s2) pgdir = tables (kmem s) pgdir" by (rule entry_frame [OF inv]) (use keep in auto)
  have fl: "PTE_W OR PTE_U = (6::nat)" by (simp add: PTE_W_def PTE_U_def)
  have np: "npages a PGSIZE = 1"
    using PGROUNDDOWN_in [OF a(1), of "a + PGSIZE - 1"] a(1) by (simp add: npages_def PGSIZE_def)
  have "V2P x + 1 * PGSIZE \<le> 2 ^ 32"
    using V2P_high [of x] x(1) by (auto simp: page_ok_def param_defs)
  then have "okP (mappages pgdir a PGSIZE (V2P x) 6 s2) (\<lambda>(r, t). \<exists>ys k. vm_ext pgdir s2 xs' t ys \<and>
    maps_to pgdir (kmem s2) (kmem t) a (V2P x) 6 k \<and> length xs' \<le> length ys + k \<and> (r = 0 \<and> k = 1 \<or> r = -1 \<and> k < 1 \<and> ys = []))"
    using mappages_ok [OF i2, of PGSIZE a "V2P x" 6] a free ent np by (simp add: PGSIZE_def)
  then obtain t ys where t: "mappages pgdir a PGSIZE (V2P x) 6 s2 = Ok (0, t)" "vm_ext pgdir s2 xs' t ys"
    "maps_to pgdir (kmem s2) (kmem t) a (V2P x) 6 1" "length xs' \<le> length ys + 1"
    using xs(2) by (auto simp: okP_iff)
  have "page_ok s2 = page_ok s" by (rule page_ok_kend) (simp add: s2_def s1(3))
  then have xt: "x \<notin> tables (kmem t) pgdir" "\<And>b. in_page b x \<Longrightarrow> kmem t b = 0"
    using vm_ext_keeps [OF i2 t(2), of x] x tb zero by auto
  have "vm_ext pgdir s2 xs' t ys \<Longrightarrow> vm_ext pgdir s xs t ys"
    unfolding vm_ext_def tb
  proof (elim conjE exE, intro conjI, goal_cases)
    case (4 zs)
    then show ?case using xs(1) out by (intro exI [of _ "x # zs"]) auto
  qed (use s1(3) kd in \<open>auto simp: s2_def\<close>)
  then have ext: "vm_ext pgdir s xs t ys" using t(2) .
  have "V2P x OR 6 OR PTE_P = V2P x OR 7" by (simp add: PTE_P_def)
  then have "entry (kmem t) pgdir v = V2P x OR 7" if "v \<in> {a..<a + PGSIZE}" for v
    using t(3) that a PGROUNDDOWN_in [OF a(1), of v] by (auto simp: maps_to_def)
  then have fr: "PTE_FLAGS (entry (kmem t) pgdir v) = 7 \<and> frame (kmem t) pgdir v = x" if "v \<in> {a..<a + PGSIZE}" for v
    using that or_flags [OF V2P_page [OF x(1)], of 7] P2V_V2P [OF x(1)] by (simp add: frame_def)
  have "x \<notin> set ys" using t(2) x(3) by (auto simp: vm_ext_def)
  have "vm_grown pgdir s xs t ys {a..<a + PGSIZE}"
    unfolding vm_grown_def
  proof (intro conjI allI ballI impI ext, goal_cases)
    case (1 v)
    then show ?case using t(3) ent by (auto simp: maps_to_def)
  next
    case (4 v)
    then show ?case using fr [OF 4] xt(1) \<open>x \<notin> set ys\<close> by simp
  next
    case (6 v w)
    then show ?case using PGROUNDDOWN_in [OF a(1), of v] PGROUNDDOWN_in [OF a(1), of w] by simp
  qed (use fr xt(2) xs(1) in auto)
  moreover have "x \<noteq> 0" using x(1) by (auto simp: page_ok_def)
  ultimately show ?thesis using s1(1) t(1,4) xs(1) fl s2_def by auto
qed

lemma allocuvm_loop_ok:
  assumes "vm_inv s pgdir xs" "PGSIZE dvd a" "newsz < KERNBASE" "2 * ((newsz + PGSIZE - 1 - a) div PGSIZE) \<le> length xs"
    "\<forall>v. a \<le> v \<and> v < PGROUNDUP newsz \<longrightarrow> even (entry (kmem s) pgdir v)"
  shows "okP (allocuvm_loop pgdir a oldsz newsz s) (\<lambda>(r, t). r = newsz \<and>
    (\<exists>ys. vm_grown pgdir s xs t ys {a..<PGROUNDUP newsz}))"
  using assms
proof (induction pgdir a oldsz newsz s arbitrary: xs rule: allocuvm_loop.induct)
  case (1 pgdir a oldsz newsz s)
  note up = PGROUNDUP_props [of newsz]
  show ?case
  proof (cases "a < newsz")
    case True
    have top: "newsz + PGSIZE \<le> 2 ^ 32" using "1.prems"(3) by (simp add: param_defs)
    have d: "(newsz + PGSIZE - 1 - a) div PGSIZE = Suc ((newsz + PGSIZE - 1 - (a + PGSIZE)) div PGSIZE)"
      using True by (subst div_if) (auto simp: PGSIZE_def)
    have "a < PGROUNDUP newsz" using up(2) [OF top] True by simp
    then have a: "a + PGSIZE \<le> PGROUNDUP newsz"
      using page_less "1.prems"(2) up(1) [OF top] by (simp add: mod_eq_0_iff_dvd)
    have two: "2 \<le> length xs" "a + PGSIZE \<le> 2 ^ 32" "even (entry (kmem s) pgdir a)"
      using "1.prems" d True \<open>a < PGROUNDUP newsz\<close> by (auto simp: param_defs)
    obtain x s1 t ys where st: "kalloc s = (x, s1)" "x \<noteq> 0"
      "mappages pgdir a PGSIZE (V2P x) (PTE_W OR PTE_U) (s1\<lparr>kmem := memset (kmem s1) x 0 PGSIZE\<rparr>) = Ok (0, t)"
      "vm_grown pgdir s xs t ys {a..<a + PGSIZE}" "length xs \<le> length ys + 2"
      using alloc_step [OF "1.prems"(1) two(1) "1.prems"(2) two(2,3)] by blast
    have it: "vm_inv t pgdir ys" using st(4) by (simp add: vm_grown_def vm_ext_def)
    have fresh: "\<forall>v. a + PGSIZE \<le> v \<and> v < PGROUNDUP newsz \<longrightarrow> even (entry (kmem t) pgdir v)"
      using st(4) "1.prems"(5) top up(3) [OF top] by (auto simp: vm_grown_def)
    have IH: "okP (allocuvm_loop pgdir (a + PGSIZE) oldsz newsz t) (\<lambda>(r, u). r = newsz \<and>
        (\<exists>zs. vm_grown pgdir t ys u zs {a + PGSIZE..<PGROUNDUP newsz}))"
      by (rule "1.IH" [OF True st(1) [symmetric] st(2) refl st(3) refl])
        (use it "1.prems" st(5) d fresh in auto)
    have un: "{a..<a + PGSIZE} \<union> {a + PGSIZE..<PGROUNDUP newsz} = {a..<PGROUNDUP newsz}" using a by auto
    have "vm_grown pgdir s xs u zs {a..<PGROUNDUP newsz}"
      if "vm_grown pgdir t ys u zs {a + PGSIZE..<PGROUNDUP newsz}" for u zs
      using vm_grown_trans [OF "1.prems"(1) st(4) that] two(2) unfolding un by (auto simp: subset_iff)
    then show ?thesis
      using IH True st(1-3) by (subst allocuvm_loop.simps) (auto simp: Let_def elim!: okP_weaken)
  next
    case False
    moreover have "newsz + PGSIZE \<le> 2 ^ 32" "a mod PGSIZE = 0" using "1.prems"(2,3) by (simp_all add: param_defs)
    ultimately have "PGROUNDUP newsz \<le> a" using PGROUNDUP_least by simp
    then have "{a..<PGROUNDUP newsz} = {}" by simp
    then show ?thesis using False vm_ext_refl [OF "1.prems"(1)]
      by (subst allocuvm_loop.simps) (auto simp: vm_grown_def)
  qed
qed

section \<open>A small address space\<close>

text \<open>An empty page directory at \<open>0x80108000\<close> and two free pages behind it.\<close>

definition sample_vm :: kmem_st where
  "sample_vm = \<lparr>kmem = st32 (\<lambda>_. 0) 0x80109000 0x8010A000, freelist = 0x80109000, use_lock = True,
     kend = 0x80108000, kdata = 0x80107000\<rparr>"

lemma ld32_zeros: "ld32 (\<lambda>_. 0) a = 0"
  by (simp add: ld32_def)

lemma sample_pde: "i < 1024 \<Longrightarrow> pde (kmem sample_vm) 0x80108000 i = 0"
  by (simp add: pde_def sample_vm_def ld32_st32_other ld32_zeros)

lemma sample_entry: "entry (kmem sample_vm) 0x80108000 v = 0"
  using sample_pde [of "PDX v"] by (simp add: entry_def)

lemma sample_vm_inv: "vm_inv sample_vm 0x80108000 [0x80109000, 0x8010A000]"
proof -
  have "kmem_inv sample_vm [0x80109000, 0x8010A000]"
    by (simp add: kmem_inv_def sample_vm_def page_ok_def param_defs ld32_st32_other ld32_zeros)
  then show ?thesis using sample_pde by (simp add: vm_inv_def page_ok_def sample_vm_def param_defs)
qed

lemma user_flags:
  assumes "PTE_FLAGS e = 7"
  shows "odd e" "e AND PTE_U \<noteq> 0"
proof -
  have "e = e div 4096 * 4096 + 7" using assms div_mult_mod_eq [of e 4096] by (simp add: PTE_FLAGS_def)
  then show "odd e" by (metis even_add even_mult_iff even_numeral odd_numeral)
  have "take_bit 12 e = 7" using assms by (simp add: PTE_FLAGS_def take_bit_eq_mod)
  then have "take_bit 12 (e AND 4) = 4" by simp
  then show "e AND PTE_U \<noteq> 0" by (metis PTE_U_def take_bit_of_0 zero_neq_numeral)
qed

lemma sample_grown:
  obtains t ys where "vm_grown 0x80108000 sample_vm [0x80109000, 0x8010A000] t ys {0..<PGSIZE}"
  using alloc_step [OF sample_vm_inv, of 0] sample_entry by (auto simp: PGSIZE_def)

lemma sample_range:
  obtains t ys where "user_range t 0x80108000 ys 0 PGSIZE"
proof -
  obtain t ys where g: "vm_grown 0x80108000 sample_vm [0x80109000, 0x8010A000] t ys {0..<PGSIZE}"
    by (rule sample_grown)
  have inv: "vm_inv t 0x80108000 ys" "page_ok t = page_ok sample_vm"
    using g by (auto simp: vm_grown_def vm_ext_def intro!: page_ok_kend)
  have "user_page t 0x80108000 v \<and> frame (kmem t) 0x80108000 v \<notin> set ys" if "v < PGSIZE" for v
  proof -
    have v: "PTE_FLAGS (entry (kmem t) 0x80108000 v) = 7" "frame (kmem t) 0x80108000 v \<in> set [0x80109000, 0x8010A000]"
      "frame (kmem t) 0x80108000 v \<notin> set ys \<union> tables (kmem t) 0x80108000"
      using g that unfolding vm_grown_def by auto
    moreover have "page_ok t (frame (kmem t) 0x80108000 v)" using v(2) vm_inv_distinct [OF sample_vm_inv] inv(2) by auto
    ultimately show ?thesis using user_flags [OF v(1)] by (simp add: user_page_def)
  qed
  moreover have "PGROUNDDOWN v = PGROUNDDOWN w" if "v < PGSIZE" "w < PGSIZE" for v w
    using that by (simp add: PGROUNDDOWN_def)
  ultimately have "user_range t 0x80108000 ys 0 PGSIZE" using inv(1) by (simp add: user_range_def PGSIZE_def)
  then show ?thesis by (rule that)
qed

section \<open>Properties\<close>

text \<open>
  C7. \<^verbatim>\<open>mappages\<close> on a range none of whose pages is mapped returns. With 0 it has given
  page \<open>i\<close> of the range the entry \<open>pa + i * PGSIZE\<close> with the permissions and
  \<^verbatim>\<open>PTE_P\<close>, and left every other entry of the 4 GB space as it was; with -1 the free
  list is empty. It took pages only from the free list, at most one for each page it mapped, its page tables are pages of their
  own, and memory that is neither a table of this directory nor was free is unchanged.
\<close>

theorem mappages_correct:
  assumes "vm_inv s pgdir xs" "0 < sz" "va + sz \<le> 2 ^ 32" "pa + npages va sz * PGSIZE \<le> 2 ^ 32" "perm < 4096"
    "\<forall>k < npages va sz. even (entry (kmem s) pgdir (PGROUNDDOWN va + k * PGSIZE))"
  shows "\<exists>r t ys k. mappages pgdir va sz pa perm s = Ok (r, t) \<and> vm_ext pgdir s xs t ys \<and>
    length xs \<le> length ys + k \<and> (r = 0 \<and> k = npages va sz \<or> r = -1 \<and> k < npages va sz \<and> ys = []) \<and>
    (\<forall>vb < 2 ^ 32. entry (kmem t) pgdir vb =
      (if PGROUNDDOWN va \<le> vb \<and> vb < PGROUNDDOWN va + k * PGSIZE
       then (pa + (PGROUNDDOWN vb - PGROUNDDOWN va)) OR perm OR PTE_P else entry (kmem s) pgdir vb))"
  using mappages_ok [OF assms] unfolding okP_iff maps_to_def by fast

theorem mappages_correct_witness:
  "\<exists>t. mappages 0x80108000 0x400000 PGSIZE 0x20000 6 sample_vm = Ok (0, t) \<and>
     entry (kmem t) 0x80108000 0x400123 = 0x20007 \<and> entry (kmem t) 0x80108000 0x401000 = 0"
proof -
  have n: "npages 0x400000 PGSIZE = 1" by (simp add: npages_def PGROUNDDOWN_def PGSIZE_def)
  obtain r t ys k where t: "mappages 0x80108000 0x400000 PGSIZE 0x20000 6 sample_vm = Ok (r, t)"
    "length [0x80109000, 0x8010A000::nat] \<le> length ys + k" "r = 0 \<and> k = 1 \<or> r = -1 \<and> k < 1 \<and> ys = ([] :: nat list)"
    and e: "\<forall>vb < 2 ^ 32. entry (kmem t) 0x80108000 vb =
      (if PGROUNDDOWN 0x400000 \<le> vb \<and> vb < PGROUNDDOWN 0x400000 + k * PGSIZE
       then (0x20000 + (PGROUNDDOWN vb - PGROUNDDOWN 0x400000)) OR 6 OR PTE_P else entry (kmem sample_vm) 0x80108000 vb)"
    using mappages_correct [OF sample_vm_inv, of PGSIZE "0x400000" "0x20000" 6] sample_entry unfolding n
    by (auto simp: PGSIZE_def)
  have "k = 1" "r = 0" using t(2,3) by auto
  then show ?thesis using t(1) e sample_entry
    by (simp add: PGROUNDDOWN_def PGSIZE_def PTE_P_def)
qed

text \<open>
  C8. \<^verbatim>\<open>allocuvm\<close> with enough free memory returns the new size. Every address from the
  old size, rounded up, to the end of the page of the new size then has a present, writable user
  page of its own that was free before and is full of zeros; every other entry, and all memory
  outside the taken pages and the tables of this directory, is unchanged.
\<close>

theorem allocuvm_correct:
  assumes "vm_inv s pgdir xs" "oldsz \<le> newsz" "newsz < KERNBASE"
    "2 * ((newsz + PGSIZE - 1 - PGROUNDUP oldsz) div PGSIZE) \<le> length xs"
    "\<forall>v. PGROUNDUP oldsz \<le> v \<and> v < PGROUNDUP newsz \<longrightarrow> even (entry (kmem s) pgdir v)"
  shows "\<exists>t ys. allocuvm pgdir oldsz newsz s = Ok (newsz, t) \<and>
    vm_grown pgdir s xs t ys {PGROUNDUP oldsz..<PGROUNDUP newsz}"
proof -
  have "PGSIZE dvd PGROUNDUP oldsz" by (simp add: PGROUNDUP_def)
  then show ?thesis
    using allocuvm_loop_ok [OF assms(1) _ assms(3-5), of oldsz] assms(2,3)
    by (auto simp: allocuvm_def okP_iff)
qed

theorem allocuvm_correct_witness:
  "\<exists>t ys. allocuvm 0x80108000 0 100 sample_vm = Ok (100, t) \<and>
     vm_grown 0x80108000 sample_vm [0x80109000, 0x8010A000] t ys {0..<PGSIZE}"
  using allocuvm_correct [OF sample_vm_inv, of 0 100] sample_entry by (simp add: PGROUNDUP_def param_defs)

text \<open>
  C9. \<^verbatim>\<open>copyout\<close> to a range of user pages returns 0, byte \<open>i\<close> of the buffer is at
  the place to which the page table translates \<open>va + i\<close>, across page boundaries, and no other
  byte of memory has changed.
\<close>

theorem copyout_correct:
  assumes "user_range s pgdir xs va (length buf)"
  shows "\<exists>t. copyout pgdir va buf s = Ok (0, t) \<and>
    (\<forall>i < length buf. kmem t (xlate (kmem s) pgdir (va + i)) = buf ! i) \<and>
    (\<forall>a. (\<forall>i < length buf. a \<noteq> xlate (kmem s) pgdir (va + i)) \<longrightarrow> kmem t a = kmem s a)"
  using copyout_ok [OF assms] by (auto simp: okP_iff copied_def)

theorem copyout_correct_witness:
  "\<exists>s t. copyout 0x80108000 0 (replicate 4096 7) s = Ok (0, t) \<and> kmem t (xlate (kmem s) 0x80108000 5) = 7"
proof -
  obtain s ys where u: "user_range s 0x80108000 ys 0 PGSIZE" by (rule sample_range)
  obtain t where "copyout 0x80108000 0 (replicate 4096 7) s = Ok (0, t)"
    "\<forall>i < length (replicate 4096 (7::byte)). kmem t (xlate (kmem s) 0x80108000 (0 + i)) = replicate 4096 7 ! i"
    using copyout_correct [of s "0x80108000" ys 0 "replicate 4096 7"] u by (auto simp: PGSIZE_def)
  then show ?thesis by (intro exI [of _ s] exI [of _ t]) simp
qed

end
