(* ===== verification/Proc.thy ===== *)
theory Proc
  imports File Frame Vm_User
begin

text \<open>
  Processes (\<^verbatim>\<open>proc.c\<close>). Every routine is one atomic section of the code, from the point
  where \<^verbatim>\<open>ptable.lock\<close> is taken or the call starts to the point where it returns or calls
  \<^verbatim>\<open>sched\<close>; the switch itself is a step of the relation \<open>sched_step\<close> between the
  processor's scheduler loop and the running process. One processor is modelled here; several of
  them are in theory \<open>Spinlock\<close>.
\<close>

section \<open>Allocation and the first process\<close>

definition INT_MAX :: int where "INT_MAX = 2 ^ 31 - 1"

text \<open>\<^verbatim>\<open>nextpid++\<close> overflows after \<open>2 ^ 31 - 2\<close> processes; the behaviour of the code is then undefined.\<close>

definition allocproc :: "'a kern_st_scheme \<Rightarrow> (nat option \<times> 'a kern_st_scheme) res" where
  "allocproc s =
     (case find (\<lambda>i. p_state (ptable s ! i) = UNUSED) [0..<NPROC] of
        None \<Rightarrow> Ok (None, s)
      | Some i \<Rightarrow>
          if nextpid s = INT_MAX then Undef
          else
          let s = upd_proc i (\<lambda>p. p\<lparr>p_state := EMBRYO, p_pid := nextpid s, p_priority := 10\<rparr>) (s\<lparr>nextpid := nextpid s + 1\<rparr>) in
          case kalloc (km s) of (stk, k) \<Rightarrow>
            let s = upd_proc i (\<lambda>p. p\<lparr>p_kstack := stk\<rparr>) (s\<lparr>km := k\<rparr>) in
            if stk = 0 then Ok (None, upd_proc i (\<lambda>p. p\<lparr>p_state := UNUSED\<rparr>) s)
            else Ok (Some i, upd_proc i (\<lambda>p. p\<lparr>p_kret := Trapret, p_context := zero_context\<lparr>cx_eip := Forkret\<rparr>,
                    p_start_ticks := ticks s\<rparr>) s))"

text \<open>A name of at most 15 characters and a NUL, as \<^verbatim>\<open>safestrcpy\<close> writes it into \<^verbatim>\<open>p->name\<close>.\<close>

definition set_name :: "byte list \<Rightarrow> byte list \<Rightarrow> byte list" where
  "set_name new old = map (safestrcpy (\<lambda>a. if a < 16 then old ! a else if a - 100 < length new then new ! (a - 100) else 0) 0 100 16) [0..<16]"

definition FL_IF :: nat where "FL_IF = 0x200"
definition SEG_UCODE_USER :: nat where "SEG_UCODE_USER = 3 * 8 + 3"
definition SEG_UDATA_USER :: nat where "SEG_UDATA_USER = 4 * 8 + 3"

definition userinit :: "'a kern_st_scheme devsw \<Rightarrow> byte list \<Rightarrow> 'a kern_st_scheme \<Rightarrow> 'a kern_st_scheme res" where
  "userinit dv initcode s =
     bnd (allocproc s) (\<lambda>(p, s).
      case p of
        None \<Rightarrow> Undef
      | Some i \<Rightarrow>
          let s = s\<lparr>initproc := Some i\<rparr> in
          bnd (in_km setupkvm s) (\<lambda>(pgdir, s).
          let s = upd_proc i (\<lambda>p. p\<lparr>p_pgdir := pgdir\<rparr>) s in
          if pgdir = 0 then Panic ''userinit: out of memory?''
          else
            bnd (km_do (inituvm pgdir initcode) s) (\<lambda>s.
            let s = upd_proc i (\<lambda>p. p\<lparr>p_sz := PGSIZE,
                  p_tf := zero_tf\<lparr>tf_cs := SEG_UCODE_USER, tf_ds := SEG_UDATA_USER, tf_es := SEG_UDATA_USER,
                    tf_ss := SEG_UDATA_USER, tf_eflags := FL_IF, tf_esp := PGSIZE, tf_eip := 0\<rparr>,
                  p_name := set_name [105, 110, 105, 116, 99, 111, 100, 101] (p_name p)\<rparr>) s in
            bnd (namei dv 0 [47] s) (\<lambda>(ip, s).
            Ok (upd_proc i (\<lambda>p. p\<lparr>p_cwd := ip, p_state := RUNNABLE\<rparr>) s)))))"

section \<open>Address spaces\<close>

definition switchkvm :: "'a kern_st_scheme \<Rightarrow> 'a kern_st_scheme" where
  "switchkvm s = s\<lparr>cr3 := V2P (kpgdir s)\<rparr>"

definition kvmalloc :: "'a kern_st_scheme \<Rightarrow> 'a kern_st_scheme res" where
  "kvmalloc s = bnd (in_km setupkvm s) (\<lambda>(d, s). Ok (switchkvm (s\<lparr>kpgdir := d\<rparr>)))"

definition switchuvm :: "nat option \<Rightarrow> 'a kern_st_scheme \<Rightarrow> 'a kern_st_scheme res" where
  "switchuvm po s =
     (case po of
        None \<Rightarrow> Panic ''switchuvm: no process''
      | Some i \<Rightarrow>
          if p_kstack (ptable s ! i) = 0 then Panic ''switchuvm: no kstack''
          else if p_pgdir (ptable s ! i) = 0 then Panic ''switchuvm: no pgdir''
          else Ok (s\<lparr>esp0 := p_kstack (ptable s ! i) + KSTACKSIZE, cr3 := V2P (p_pgdir (ptable s ! i))\<rparr>))"

definition growproc :: "int \<Rightarrow> 'a kern_st_scheme \<Rightarrow> (int \<times> 'a kern_st_scheme) res" where
  "growproc n s =
     bnd (myproc s) (\<lambda>i.
     let sz = p_sz (ptable s ! i); pgdir = p_pgdir (ptable s ! i) in
     bnd (if n > 0 then bnd (in_km (allocuvm pgdir sz (u32 (int sz + n))) s) (\<lambda>(r, s). Ok (if r = 0 then None else Some r, s))
          else if n < 0 then bnd (in_km (deallocuvm pgdir sz (u32 (int sz + n))) s) (\<lambda>(r, s). Ok (if r = 0 then None else Some r, s))
          else Ok (Some sz, s)) (\<lambda>(r, s).
     case r of
       None \<Rightarrow> Ok (-1, s)
     | Some sz \<Rightarrow>
         bnd (switchuvm (Some i) (upd_proc i (\<lambda>p. p\<lparr>p_sz := sz\<rparr>) s)) (\<lambda>s. Ok (0, s))))"

section \<open>fork, exit, wait\<close>

fun fork_files :: "nat list \<Rightarrow> nat \<Rightarrow> nat \<Rightarrow> 'a kern_st_scheme \<Rightarrow> 'a kern_st_scheme res" where
  "fork_files [] i np s = Ok s"
| "fork_files (fd # fds) i np s =
     (case p_ofile (ptable s ! i) ! fd of
        None \<Rightarrow> fork_files fds i np s
      | Some f \<Rightarrow>
          bnd (filedup f s) (\<lambda>s.
          fork_files fds i np (upd_proc np (\<lambda>p. p\<lparr>p_ofile := (p_ofile p)[fd := Some f]\<rparr>) s)))"

definition fork :: "'a kern_st_scheme \<Rightarrow> (int \<times> 'a kern_st_scheme) res" where
  "fork s =
     bnd (myproc s) (\<lambda>i.
     bnd (allocproc s) (\<lambda>(p, s).
     case p of
       None \<Rightarrow> Ok (-1, s)
     | Some np \<Rightarrow>
         bnd (in_km (copyuvm (p_pgdir (ptable s ! i)) (p_sz (ptable s ! i))) s) (\<lambda>(pgdir, s).
         let s = upd_proc np (\<lambda>p. p\<lparr>p_pgdir := pgdir\<rparr>) s in
         if pgdir = 0 then
           bnd (km_do (kfree (p_kstack (ptable s ! np))) s) (\<lambda>s.
           Ok (-1, upd_proc np (\<lambda>p. p\<lparr>p_kstack := 0, p_state := UNUSED\<rparr>) s))
         else
           let cp = ptable s ! i;
               s = upd_proc np (\<lambda>p. p\<lparr>p_sz := p_sz cp, p_parent := Some i, p_tf := (p_tf cp)\<lparr>tf_eax := 0\<rparr>\<rparr>) s in
           bnd (fork_files [0..<NOFILE] i np s) (\<lambda>s.
           case p_cwd (ptable s ! i) of
             None \<Rightarrow> Undef
           | Some c \<Rightarrow>
               (case idup c s of (d, s) \<Rightarrow>
                let s = upd_proc np (\<lambda>p. p\<lparr>p_cwd := Some d, p_name := set_name (takeWhile (\<lambda>b. b \<noteq> 0) (p_name cp)) (p_name p)\<rparr>) s;
                    pid = p_pid (ptable s ! np)
                in Ok (pid, upd_proc np (\<lambda>p. p\<lparr>p_state := RUNNABLE\<rparr>) s))))))"

fun exit_files :: "nat list \<Rightarrow> nat \<Rightarrow> 'a kern_st_scheme \<Rightarrow> 'a kern_st_scheme res" where
  "exit_files [] i s = Ok s"
| "exit_files (fd # fds) i s =
     (case p_ofile (ptable s ! i) ! fd of
        None \<Rightarrow> exit_files fds i s
      | Some f \<Rightarrow>
          bnd (fileclose f s) (\<lambda>s.
          exit_files fds i (upd_proc i (\<lambda>p. p\<lparr>p_ofile := (p_ofile p)[fd := None]\<rparr>) s)))"

definition wakeup_opt :: "nat option \<Rightarrow> 'a kern_st_scheme \<Rightarrow> 'a kern_st_scheme" where
  "wakeup_opt po s = wakeup1 (map_option ChProc po) s"

fun exit_children :: "nat list \<Rightarrow> nat \<Rightarrow> 'a kern_st_scheme \<Rightarrow> 'a kern_st_scheme" where
  "exit_children [] i s = s"
| "exit_children (j # js) i s =
     exit_children js i
       (if p_parent (ptable s ! j) = Some i then
          let s = upd_proc j (\<lambda>p. p\<lparr>p_parent := initproc s\<rparr>) s in
          if p_state (ptable s ! j) = ZOMBIE then wakeup_opt (initproc s) s else s
        else s)"

text \<open>Up to the call of \<^verbatim>\<open>sched\<close>, from which a zombie does not return.\<close>

definition exit :: "'a kern_st_scheme \<Rightarrow> 'a kern_st_scheme res" where
  "exit s =
     bnd (myproc s) (\<lambda>i.
     if Some i = initproc s then Panic ''init exiting''
     else
       bnd (exit_files [0..<NOFILE] i s) (\<lambda>s.
       bnd (begin_op s) (\<lambda>s.
       case p_cwd (ptable s ! i) of
         None \<Rightarrow> Undef
       | Some c \<Rightarrow>
           bnd (iput c s) (\<lambda>s.
           bnd (end_op s) (\<lambda>s.
           let s = upd_proc i (\<lambda>p. p\<lparr>p_cwd := None\<rparr>) s;
               s = wakeup_opt (p_parent (ptable s ! i)) s;
               s = exit_children [0..<NPROC] i s
           in Ok (upd_proc i (\<lambda>p. p\<lparr>p_state := ZOMBIE\<rparr>) s))))))"

text \<open>Taking the exit status of the zombie in slot \<open>j\<close>.\<close>

definition reap :: "nat \<Rightarrow> 'a kern_st_scheme \<Rightarrow> (int \<times> 'a kern_st_scheme) res" where
  "reap j s =
     (let p = ptable s ! j in
      bnd (km_do (kfree (p_kstack p)) s) (\<lambda>s.
      bnd (km_do (freevm (p_pgdir p)) (upd_proc j (\<lambda>p. p\<lparr>p_kstack := 0\<rparr>) s)) (\<lambda>s.
      Ok (p_pid p, upd_proc j (\<lambda>p. p\<lparr>p_pid := 0, p_parent := None, p_name := (p_name p)[0 := 0],
            p_killed := False, p_state := UNUSED\<rparr>) s))))"

text \<open>One round of the loop of \<^verbatim>\<open>wait\<close>: it returns, or sleeps on the process itself.\<close>

definition wait :: "'a kern_st_scheme \<Rightarrow> (int pipe_ret \<times> 'a kern_st_scheme) res" where
  "wait s =
     bnd (myproc s) (\<lambda>i.
     case find (\<lambda>j. p_parent (ptable s ! j) = Some i \<and> p_state (ptable s ! j) = ZOMBIE) [0..<NPROC] of
       Some j \<Rightarrow> bnd (reap j s) (\<lambda>(pid, s). Ok (Ret pid, s))
     | None \<Rightarrow>
         if (\<forall>j \<in> set [0..<NPROC]. p_parent (ptable s ! j) \<noteq> Some i) \<or> p_killed (ptable s ! i) then Ok (Ret (-1), s)
         else bnd (sleep (ChProc i) s) (\<lambda>s. Ok (Sleep, s)))"

section \<open>Scheduling\<close>

definition highest :: "proc list \<Rightarrow> nat \<Rightarrow> nat" where
  "highest ps p = fold (\<lambda>p1 h. if p_state (ps ! p1) = RUNNABLE \<and> p_priority (ps ! h) > p_priority (ps ! p1) then p1 else h)
     [0..<NPROC] p"

text \<open>The scan of the table from slot \<open>pos\<close>: the process to switch to, if any is runnable from there on.\<close>

definition scheduler_pick :: "nat \<Rightarrow> 'a kern_st_scheme \<Rightarrow> nat option" where
  "scheduler_pick pos s =
     map_option (highest (ptable s)) (find (\<lambda>i. p_state (ptable s ! i) = RUNNABLE) [pos..<NPROC])"

definition scheduler_run :: "nat \<Rightarrow> 'a kern_st_scheme \<Rightarrow> 'a kern_st_scheme res" where
  "scheduler_run h s =
     bnd (switchuvm (Some h) (s\<lparr>cur := Some h, mypid := nat (p_pid (ptable s ! h))\<rparr>)) (\<lambda>s. Ok (upd_proc h (\<lambda>p. p\<lparr>p_state := RUNNING\<rparr>) s))"

text \<open>Back in the scheduler after \<^verbatim>\<open>swtch\<close>.\<close>

definition scheduler_back :: "'a kern_st_scheme \<Rightarrow> 'a kern_st_scheme" where
  "scheduler_back s = (switchkvm s)\<lparr>cur := None\<rparr>"

text \<open>The checks of \<^verbatim>\<open>sched\<close> on the processor (lock held, nesting depth, interrupt flag) and the process.\<close>

definition sched :: "bool \<Rightarrow> int \<Rightarrow> bool \<Rightarrow> 'a kern_st_scheme \<Rightarrow> 'a kern_st_scheme res" where
  "sched held_lock ncli ifl s =
     bnd (myproc s) (\<lambda>i.
     if \<not> held_lock then Panic ''sched ptable.lock''
     else if ncli \<noteq> 1 then Panic ''sched locks''
     else if p_state (ptable s ! i) = RUNNING then Panic ''sched running''
     else if ifl then Panic ''sched interruptible''
     else Ok (scheduler_back s))"

definition yield :: "'a kern_st_scheme \<Rightarrow> 'a kern_st_scheme res" where
  "yield s = bnd (myproc s) (\<lambda>i. Ok (upd_proc i (\<lambda>p. p\<lparr>p_state := RUNNABLE\<rparr>) s))"

definition forkret :: "'a kern_st_scheme \<Rightarrow> 'a kern_st_scheme res" where
  "forkret s =
     (if forkret_first s then
        bnd (iinit ROOTDEV (s\<lparr>forkret_first := False\<rparr>)) (initlog ROOTDEV)
      else Ok s)"

definition kill :: "int \<Rightarrow> 'a kern_st_scheme \<Rightarrow> int \<times> 'a kern_st_scheme" where
  "kill pid s =
     (case find (\<lambda>i. p_pid (ptable s ! i) = pid) [0..<NPROC] of
        Some i \<Rightarrow> (0, upd_proc i (\<lambda>p. p\<lparr>p_killed := True,
            p_state := (if p_state p = SLEEPING then RUNNABLE else p_state p)\<rparr>) s)
      | None \<Rightarrow> (-1, s))"

section \<open>Steps of the system\<close>

text \<open>
  The processor is in its scheduler loop, at slot \<open>pos\<close> of the scan (\<open>cur = None\<close>), or runs a
  process, which makes kernel calls. A call that gives up the processor goes back to the
  scheduler; interrupts wake processes at any time.
\<close>

inductive sched_step :: "nat \<times> 'a kern_st_scheme \<Rightarrow> nat \<times> 'a kern_st_scheme \<Rightarrow> bool" where
  dispatch: "cur s = None \<Longrightarrow> scheduler_pick pos s = Some h \<Longrightarrow> scheduler_run h s = Ok t \<Longrightarrow> sched_step (pos, s) (h + 1, t)"
| rescan: "cur s = None \<Longrightarrow> scheduler_pick pos s = None \<Longrightarrow> sched_step (pos, s) (0, s)"
| yields: "yield s = Ok t \<Longrightarrow> sched_step (pos, s) (pos, scheduler_back t)"
| sleeps: "sleep ch s = Ok t \<Longrightarrow> sched_step (pos, s) (pos, scheduler_back t)"
| resumes: "cur s = Some i \<Longrightarrow> sched_step (pos, s) (pos, resume_sleep i s)"
| wakes: "sched_step (pos, s) (pos, wakeup ch s)"
| kills: "kill pid s = (r, t) \<Longrightarrow> sched_step (pos, s) (pos, t)"
| grows: "growproc n s = Ok (r, t) \<Longrightarrow> sched_step (pos, s) (pos, t)"
| forks: "fork s = Ok (r, t) \<Longrightarrow> sched_step (pos, s) (pos, t)"
| exits: "exit s = Ok t \<Longrightarrow> sched_step (pos, s) (pos, scheduler_back t)"
| waits: "wait s = Ok (Ret r, t) \<Longrightarrow> sched_step (pos, s) (pos, t)"
| waits_on: "wait s = Ok (Sleep, t) \<Longrightarrow> sched_step (pos, s) (pos, scheduler_back t)"

section \<open>The invariant of the process table\<close>

text \<open>
  At most one process is running, and it is the processor's; live processes have different pids,
  all handed out before; a sleeping process has a channel.
\<close>

definition pinv :: "proc list \<Rightarrow> nat option \<Rightarrow> int \<Rightarrow> bool" where
  "pinv ps c n \<longleftrightarrow> length ps = NPROC \<and> 0 < n \<and> n \<le> INT_MAX \<and>
     (\<forall>i < NPROC. p_state (ps ! i) = RUNNING \<longleftrightarrow> c = Some i) \<and> (\<forall>i. c = Some i \<longrightarrow> i < NPROC) \<and>
     (\<forall>i < NPROC. p_state (ps ! i) \<noteq> UNUSED \<longrightarrow> 0 < p_pid (ps ! i) \<and> p_pid (ps ! i) < n) \<and>
     (\<forall>i < NPROC. \<forall>j < NPROC. p_state (ps ! i) \<noteq> UNUSED \<and> p_state (ps ! j) \<noteq> UNUSED \<and> p_pid (ps ! i) = p_pid (ps ! j) \<longrightarrow> i = j) \<and>
     (\<forall>i < NPROC. p_state (ps ! i) = SLEEPING \<longrightarrow> p_chan (ps ! i) \<noteq> None)"

definition proc_inv :: "'a kern_st_scheme \<Rightarrow> bool" where
  "proc_inv s \<longleftrightarrow> pinv (ptable s) (cur s) (nextpid s)"

lemma pinvD:
  assumes "pinv ps c n"
  shows "length ps = NPROC" "0 < n" "i < NPROC \<Longrightarrow> p_state (ps ! i) = RUNNING \<longleftrightarrow> c = Some i" "c = Some i \<Longrightarrow> i < NPROC"
    "i < NPROC \<Longrightarrow> p_state (ps ! i) \<noteq> UNUSED \<Longrightarrow> 0 < p_pid (ps ! i) \<and> p_pid (ps ! i) < n"
    "i < NPROC \<Longrightarrow> j < NPROC \<Longrightarrow> p_state (ps ! i) \<noteq> UNUSED \<Longrightarrow> p_state (ps ! j) \<noteq> UNUSED \<Longrightarrow> p_pid (ps ! i) = p_pid (ps ! j) \<Longrightarrow> i = j"
    "i < NPROC \<Longrightarrow> p_state (ps ! i) = SLEEPING \<Longrightarrow> p_chan (ps ! i) \<noteq> None" "n \<le> INT_MAX"
  using assms unfolding pinv_def by blast+

lemma pinvI:
  assumes "length ps = NPROC" "0 < n" "\<And>i. i < NPROC \<Longrightarrow> p_state (ps ! i) = RUNNING \<longleftrightarrow> c = Some i" "\<And>i. c = Some i \<Longrightarrow> i < NPROC"
    "\<And>i. i < NPROC \<Longrightarrow> p_state (ps ! i) \<noteq> UNUSED \<Longrightarrow> 0 < p_pid (ps ! i) \<and> p_pid (ps ! i) < n"
    "\<And>i j. i < NPROC \<Longrightarrow> j < NPROC \<Longrightarrow> p_state (ps ! i) \<noteq> UNUSED \<Longrightarrow> p_state (ps ! j) \<noteq> UNUSED \<Longrightarrow> p_pid (ps ! i) = p_pid (ps ! j) \<Longrightarrow> i = j"
    "\<And>i. i < NPROC \<Longrightarrow> p_state (ps ! i) = SLEEPING \<Longrightarrow> p_chan (ps ! i) \<noteq> None" "n \<le> INT_MAX"
  shows "pinv ps c n"
  using assms unfolding pinv_def by blast

text \<open>
  Two tables agree on what the invariant reads, except that some sleepers may have been woken. 
\<close>

definition wk :: "proc \<Rightarrow> proc \<Rightarrow> bool" where
  "wk p q \<longleftrightarrow> p_pid q = p_pid p \<and> (p_state q = p_state p \<and> p_chan q = p_chan p \<or>
      p_state p = SLEEPING \<and> p_state q = RUNNABLE)"

definition woken :: "proc list \<Rightarrow> proc list \<Rightarrow> bool" where
  "woken ps qs \<longleftrightarrow> length qs = length ps \<and> (\<forall>i < length ps. wk (ps ! i) (qs ! i))"

lemma wk_trans: "wk p q \<Longrightarrow> wk q r \<Longrightarrow> wk p r"
  by (auto simp: wk_def)

lemma woken_refl [simp]: "woken ps ps"
  by (simp add: woken_def wk_def)

lemma woken_trans: "woken ps qs \<Longrightarrow> woken qs rs \<Longrightarrow> woken ps rs"
  by (auto simp: woken_def intro: wk_trans)

lemma pinv_woken:
  assumes "pinv ps c n" "woken ps qs"
  shows "pinv qs c n"
proof -
  have l: "length ps = NPROC" using assms(1) by (simp add: pinv_def)
  have s: "p_state (qs ! i) = RUNNING \<longleftrightarrow> p_state (ps ! i) = RUNNING" "p_state (qs ! i) = UNUSED \<longleftrightarrow> p_state (ps ! i) = UNUSED"
    "p_pid (qs ! i) = p_pid (ps ! i)" "p_state (qs ! i) = SLEEPING \<longrightarrow> p_state (ps ! i) = SLEEPING \<and> p_chan (qs ! i) = p_chan (ps ! i)"
    if "i < NPROC" for i
    using assms(2) that l unfolding woken_def wk_def by (metis procstate.distinct)+
  show ?thesis unfolding pinv_def using pinvD [OF assms(1)] assms(2) s l by (auto simp: woken_def)
qed

section \<open>What the calls do to the table\<close>

definition keeps :: "'a kern_st_scheme \<Rightarrow> 'a kern_st_scheme \<Rightarrow> bool" where
  "keeps s t \<longleftrightarrow> woken (ptable s) (ptable t) \<and> cur t = cur s \<and> nextpid t = nextpid s \<and> initproc t = initproc s"

lemma keeps_refl [simp]: "keeps s s"
  by (simp add: keeps_def)

lemma keeps_trans: "keeps s t \<Longrightarrow> keeps t u \<Longrightarrow> keeps s u"
  by (auto simp: keeps_def intro: woken_trans)

lemma keeps_inv: "keeps s t \<Longrightarrow> proc_inv s \<Longrightarrow> proc_inv t"
  by (auto simp: keeps_def proc_inv_def intro: pinv_woken)

lemma keeps_upd:
  "(\<And>p. p_pid (f p) = p_pid p \<and> p_state (f p) = p_state p \<and> p_chan (f p) = p_chan p) \<Longrightarrow> keeps s (upd_proc i f s)"
  by (auto simp: keeps_def woken_def wk_def nth_upd_proc) (simp_all add: upd_proc_def)

lemma keeps_wakeup1 [simp]: "keeps s (wakeup1 ch s)"
  by (auto simp: keeps_def wakeup1_def woken_def wk_def)

lemma keeps_wakeup [simp]: "keeps s (wakeup ch s)" "keeps s (wakeup_opt po s)"
  by (simp_all add: wakeup_def wakeup_opt_def)

lemma kern_more: "fs_st.more t = fs_st.more s \<Longrightarrow> ptable t = ptable s \<and> cur t = cur s \<and> nextpid t = nextpid s \<and>
    initproc t = initproc s \<and> ftable t = ftable s \<and> pipes t = pipes s \<and> km t = km s \<and> ticks t = ticks s"
  for s t :: "'a kern_st_scheme"
  by (cases s; cases t) (auto simp: kern_st.defs fs_st.defs)

lemma keeps_more: "fs_st.more t = fs_st.more s \<Longrightarrow> keeps s t"
  for s t :: "'a kern_st_scheme"
  by (drule kern_more) (simp add: keeps_def)

lemma keeps_file [simp]: "keeps s (upd_file i f s)"
  by (simp add: keeps_def upd_file_def)

lemma keeps_pipe [simp]: "keeps s (upd_pipe a f s)"
  by (simp add: keeps_def upd_pipe_def)

lemma keeps_km: "km_do f s = Ok t \<Longrightarrow> keeps s t" "in_km g s = Ok (r, t) \<Longrightarrow> keeps s t"
  by (auto simp: km_do_def in_km_def bnd_eq_Ok keeps_def)

lemma keeps_filedup: "filedup f s = Ok t \<Longrightarrow> keeps s t"
  by (auto simp: filedup_def split: if_splits)

lemma keeps_pipeclose:
  assumes "pipeclose p w s = Ok t"
  shows "keeps s t"
proof -
  let ?u = "if w then wakeup (ChNread p) (upd_pipe p (\<lambda>q. q\<lparr>pi_writeopen := False\<rparr>) s)
    else wakeup (ChNwrite p) (upd_pipe p (\<lambda>q. q\<lparr>pi_readopen := False\<rparr>) s)"
  have "keeps s ?u" by (auto intro: keeps_trans [OF keeps_pipe keeps_wakeup(1)])
  moreover have "keeps ?u t" using assms by (auto simp: pipeclose_def Let_def split: if_splits dest: keeps_km)
  ultimately show ?thesis by (rule keeps_trans)
qed

lemma keeps_fileclose:
  assumes "fileclose f s = Ok t"
  shows "keeps s t"
proof -
  define u where "u = upd_file f (\<lambda>f. f\<lparr>f_ref := f_ref f - 1\<rparr>) s"
  define v where "v = upd_file f (\<lambda>f. f\<lparr>f_ref := 0, f_type := FD_NONE\<rparr>) u"
  have uv: "keeps s u" "keeps u v" by (simp_all add: u_def v_def)
  have "keeps u t"
  proof (cases "f_ref (ftable u ! f) > 0")
    case True
    then show ?thesis using assms by (auto simp: fileclose_def Let_def u_def split: if_splits)
  next
    case False
    have "keeps v t"
    proof (cases "f_type (ftable u ! f)")
      case FD_NONE
      then show ?thesis using assms False by (auto simp: fileclose_def Let_def u_def v_def split: if_splits)
    next
      case FD_PIPE
      then show ?thesis using assms False
        by (auto simp: fileclose_def Let_def u_def v_def split: if_splits intro: keeps_pipeclose)
    next
      case FD_INODE
      then obtain x y where "begin_op v = Ok x" "iput (f_ip (ftable u ! f)) x = Ok y" "end_op y = Ok t"
        using assms False by (auto simp: fileclose_def Let_def u_def v_def bnd_eq_Ok split: if_splits)
      then have "fs_st.more t = fs_st.more v" using begin_op_more iput_more end_op_more by metis
      then show ?thesis by (rule keeps_more)
    qed
    with uv(2) show ?thesis by (rule keeps_trans)
  qed
  with uv(1) show ?thesis by (rule keeps_trans)
qed

lemma keeps_exit_files: "exit_files fds i s = Ok t \<Longrightarrow> keeps s t"
proof (induction fds arbitrary: s)
  case (Cons fd fds)
  show ?case
  proof (cases "p_ofile (ptable s ! i) ! fd")
    case None
    then show ?thesis using Cons by simp
  next
    case (Some f)
    then obtain u where u: "fileclose f s = Ok u"
      "exit_files fds i (upd_proc i (\<lambda>p. p\<lparr>p_ofile := (p_ofile p)[fd := None]\<rparr>) u) = Ok t"
      using Cons.prems by (auto simp: bnd_eq_Ok)
    show ?thesis
      by (rule keeps_trans [OF keeps_fileclose [OF u(1)] keeps_trans [OF keeps_upd Cons.IH [OF u(2)]]]) simp
  qed
qed simp

section \<open>State changes\<close>

lemma pinv_slot:
  assumes "pinv ps c n" "i < NPROC" "n' = n \<or> n < n' \<and> n' \<le> INT_MAX" "p_state q = RUNNING \<longleftrightarrow> c' = Some i"
    "\<And>j. j \<noteq> i \<Longrightarrow> (c' = Some j) = (c = Some j)"
    "p_state q \<noteq> UNUSED \<Longrightarrow> p_state (ps ! i) \<noteq> UNUSED \<and> p_pid q = p_pid (ps ! i) \<or> p_pid q = n \<and> n < n'"
    "p_state q = SLEEPING \<Longrightarrow> p_chan q \<noteq> None"
  shows "pinv (ps[i := q]) c' n'"
proof -
  note D = pinvD [OF assms(1)]
  have n: "n \<le> n'" "n' \<le> INT_MAX" using assms(3) D(8) by auto
  have pid: "0 < p_pid q" "p_pid q < n'" "j < NPROC \<Longrightarrow> j \<noteq> i \<Longrightarrow> p_state (ps ! j) \<noteq> UNUSED \<Longrightarrow> p_pid (ps ! j) \<noteq> p_pid q"
    if "p_state q \<noteq> UNUSED" for j
    using assms(6) [OF that] assms(2) n D(2) D(5) [of i] D(5) [of j] D(6) [of j i] by auto
  have "p_state (ps[i := q] ! j) = RUNNING \<longleftrightarrow> c' = Some j" if "j < NPROC" for j
    using assms(4,5) D(3) [OF that] that D(1) by (cases "j = i") auto
  moreover have "j < NPROC" if "c' = Some j" for j
    using that assms(2,5) D(4) by (cases "j = i") auto
  moreover have "0 < p_pid (ps[i := q] ! j) \<and> p_pid (ps[i := q] ! j) < n'" if "j < NPROC" "p_state (ps[i := q] ! j) \<noteq> UNUSED" for j
    using that pid D(1) D(5) [of j] n by (cases "j = i") auto
  moreover have "j = k" if "j < NPROC" "k < NPROC" "p_state (ps[i := q] ! j) \<noteq> UNUSED" "p_state (ps[i := q] ! k) \<noteq> UNUSED"
    "p_pid (ps[i := q] ! j) = p_pid (ps[i := q] ! k)" for j k
    using that pid(3) [of j] pid(3) [of k] D(1) D(6) [of j k] by (cases "j = i"; cases "k = i") auto
  moreover have "p_chan (ps[i := q] ! j) \<noteq> None" if "j < NPROC" "p_state (ps[i := q] ! j) = SLEEPING" for j
    using that assms(7) D(1) D(7) [of j] by (cases "j = i") auto
  ultimately show ?thesis
    using D(1,2) n by (intro pinvI) simp_all
qed

lemma upd_proc_inv:
  assumes "proc_inv s" "i < NPROC" "p_state (f (ptable s ! i)) \<noteq> RUNNING" "cur s \<noteq> Some i"
    "p_state (f (ptable s ! i)) \<noteq> UNUSED \<Longrightarrow> p_state (ptable s ! i) \<noteq> UNUSED \<and> p_pid (f (ptable s ! i)) = p_pid (ptable s ! i)"
    "p_state (f (ptable s ! i)) = SLEEPING \<Longrightarrow> p_chan (f (ptable s ! i)) \<noteq> None"
  shows "proc_inv (upd_proc i f s)"
  using assms unfolding proc_inv_def by (auto simp: upd_proc_def intro!: pinv_slot)

lemma leave_inv:
  assumes "proc_inv s" "cur s = Some i" "p_state (f (ptable s ! i)) \<notin> {RUNNING, UNUSED}" "p_pid (f (ptable s ! i)) = p_pid (ptable s ! i)"
    "p_state (f (ptable s ! i)) = SLEEPING \<Longrightarrow> p_chan (f (ptable s ! i)) \<noteq> None"
  shows "proc_inv (scheduler_back (upd_proc i f s))"
proof -
  note inv = assms(1) [unfolded proc_inv_def]
  have i: "i < NPROC" using pinvD(4) [OF inv] assms(2) by simp
  then have "p_state (ptable s ! i) = RUNNING" using pinvD(3) [OF inv] assms(2) by simp
  then show ?thesis
    using assms i unfolding proc_inv_def by (auto simp: scheduler_back_def switchkvm_def upd_proc_def intro!: pinv_slot)
qed

lemma cur_inv: "proc_inv s \<Longrightarrow> cur s = Some i \<Longrightarrow> i < NPROC \<and> p_state (ptable s ! i) = RUNNING \<and> length (ptable s) = NPROC"
  unfolding proc_inv_def using pinvD(1,3,4) by metis

lemma highest_fold:
  "fold (\<lambda>p1 h. if p_state (ps ! p1) = RUNNABLE \<and> p_priority (ps ! h) > p_priority (ps ! p1) then p1 else h) xs p = h \<Longrightarrow>
   p_state (ps ! p) = RUNNABLE \<Longrightarrow>
   p_state (ps ! h) = RUNNABLE \<and> h \<in> insert p (set xs) \<and> p_priority (ps ! h) \<le> p_priority (ps ! p) \<and>
   (\<forall>j \<in> set xs. p_state (ps ! j) = RUNNABLE \<longrightarrow> p_priority (ps ! h) \<le> p_priority (ps ! j))"
proof (induction xs arbitrary: p)
  case (Cons x xs)
  show ?case
  proof (cases "p_state (ps ! x) = RUNNABLE \<and> p_priority (ps ! p) > p_priority (ps ! x)")
    case True
    then show ?thesis using Cons.IH [of x] Cons.prems by auto
  next
    case False
    then show ?thesis using Cons.IH [of p] Cons.prems by auto
  qed
qed simp

lemma scheduler_pick_ok:
  assumes "scheduler_pick pos s = Some h"
  shows "h < NPROC" "p_state (ptable s ! h) = RUNNABLE"
    "j < NPROC \<Longrightarrow> p_state (ptable s ! j) = RUNNABLE \<Longrightarrow> p_priority (ptable s ! h) \<le> p_priority (ptable s ! j)"
proof -
  obtain p where p: "find (\<lambda>i. p_state (ptable s ! i) = RUNNABLE) [pos..<NPROC] = Some p" and h: "highest (ptable s) p = h"
    using assms by (auto simp: scheduler_pick_def)
  have "p < NPROC" "p_state (ptable s ! p) = RUNNABLE" using p by (auto simp: find_upt_Some)
  then show "h < NPROC" "p_state (ptable s ! h) = RUNNABLE"
    "j < NPROC \<Longrightarrow> p_state (ptable s ! j) = RUNNABLE \<Longrightarrow> p_priority (ptable s ! h) \<le> p_priority (ptable s ! j)"
    using highest_fold [OF h [unfolded highest_def]] by auto
qed

section \<open>Every step keeps the invariant\<close>

lemma allocproc_None:
  assumes a: "proc_inv s" "allocproc s = Ok (None, t)"
  shows "proc_inv t \<and> cur t = cur s"
proof (cases "find (\<lambda>i. p_state (ptable s ! i) = UNUSED) [0..<NPROC]")
  case None
  then show ?thesis using a by (simp add: allocproc_def)
next
  case (Some i)
  have m: "nextpid s + 1 \<le> INT_MAX" using a Some pinvD(8) [of "ptable s" "cur s" "nextpid s"]
    by (cases "nextpid s = INT_MAX") (simp_all add: allocproc_def proc_inv_def)
  obtain stk k where k: "kalloc (km s) = (stk, k)" by force
  have i: "i < NPROC" "p_state (ptable s ! i) = UNUSED" "length (ptable s) = NPROC"
    using Some a(1) pinvD(1) by (auto simp: find_upt_Some proc_inv_def)
  have c: "cur s \<noteq> Some i" using cur_inv a(1) i(2) by (metis procstate.distinct(7))
  have q: "p_state (ptable t ! i) = UNUSED" and t: "ptable t = (ptable s)[i := ptable t ! i]" "cur t = cur s" "nextpid t = nextpid s + 1"
    using a(2) Some k i by (auto simp: allocproc_def upd_proc_def Let_def split: if_splits)
  have "pinv ((ptable s)[i := ptable t ! i]) (cur s) (nextpid s + 1)"
    using a(1) i c q m unfolding proc_inv_def by (intro pinv_slot) auto
  then show ?thesis using t by (simp add: proc_inv_def)
qed

lemma allocproc_Some:
  assumes "proc_inv s" "allocproc s = Ok (Some np, t)"
  shows "proc_inv t \<and> cur t = cur s \<and> np < NPROC \<and> p_state (ptable s ! np) = UNUSED \<and> p_state (ptable t ! np) = EMBRYO \<and>
    cur s \<noteq> Some np \<and> p_pid (ptable t ! np) = nextpid s \<and> p_killed (ptable t ! np) = p_killed (ptable s ! np)"
proof (cases "find (\<lambda>i. p_state (ptable s ! i) = UNUSED) [0..<NPROC]")
  case None
  then show ?thesis using assms(2) by (simp add: allocproc_def)
next
  case (Some i)
  have m: "nextpid s + 1 \<le> INT_MAX" using assms Some pinvD(8) [of "ptable s" "cur s" "nextpid s"]
    by (cases "nextpid s = INT_MAX") (simp_all add: allocproc_def proc_inv_def)
  obtain stk k where k: "kalloc (km s) = (stk, k)" by force
  have i: "i < NPROC" "p_state (ptable s ! i) = UNUSED" "length (ptable s) = NPROC"
    using Some assms(1) pinvD(1) by (auto simp: find_upt_Some proc_inv_def)
  have c: "cur s \<noteq> Some i" using cur_inv assms(1) i(2) by (metis procstate.distinct(7))
  have np: "np = i" and q: "p_state (ptable t ! i) = EMBRYO \<and> p_pid (ptable t ! i) = nextpid s \<and>
      p_killed (ptable t ! i) = p_killed (ptable s ! i)" and t: "ptable t = (ptable s)[i := ptable t ! i]" "cur t = cur s"
      "nextpid t = nextpid s + 1"
    using assms(2) Some k i by (auto simp: allocproc_def upd_proc_def Let_def split: if_splits)
  have "pinv ((ptable s)[i := ptable t ! i]) (cur s) (nextpid s + 1)"
    using assms(1) i c q m unfolding proc_inv_def by (intro pinv_slot) auto
  then have "proc_inv t" using t by (simp add: proc_inv_def)
  then show ?thesis using q t i np c by simp
qed

lemma keeps_state: "keeps s t \<Longrightarrow> i < length (ptable s) \<Longrightarrow> p_state (ptable s ! i) \<noteq> SLEEPING \<Longrightarrow>
    p_state (ptable t ! i) = p_state (ptable s ! i) \<and> p_pid (ptable t ! i) = p_pid (ptable s ! i)"
  by (auto simp: keeps_def woken_def wk_def)

lemma keeps_fork_files: "fork_files fds i np s = Ok t \<Longrightarrow> keeps s t"
proof (induction fds arbitrary: s)
  case (Cons fd fds)
  show ?case
  proof (cases "p_ofile (ptable s ! i) ! fd")
    case None
    then show ?thesis using Cons by simp
  next
    case (Some f)
    then obtain u where u: "filedup f s = Ok u"
      "fork_files fds i np (upd_proc np (\<lambda>p. p\<lparr>p_ofile := (p_ofile p)[fd := Some f]\<rparr>) u) = Ok t"
      using Cons.prems by (auto simp: bnd_eq_Ok)
    show ?thesis
      by (rule keeps_trans [OF keeps_filedup [OF u(1)] keeps_trans [OF keeps_upd Cons.IH [OF u(2)]]]) simp
  qed
qed simp

lemma keeps_idup: "idup i s = (j, t) \<Longrightarrow> keeps s t"
  by (auto simp: idup_def intro!: keeps_more)

text \<open>The new slot is an embryo until the end of the call.\<close>

lemma embryo_done:
  assumes "proc_inv u" "cur u \<noteq> Some np" "np < NPROC" "p_state (ptable u ! np) = EMBRYO" "keeps u v"
    "\<And>p. p_pid (f p) = p_pid p" "\<And>p. p_state (f p) \<in> {UNUSED, RUNNABLE}"
  shows "proc_inv (upd_proc np f v) \<and> cur (upd_proc np f v) = cur u"
proof -
  have l: "np < length (ptable u)" using assms(1,3) pinvD(1) by (auto simp: proc_inv_def)
  have "proc_inv v" "p_state (ptable v ! np) = EMBRYO" "cur v = cur u"
    using keeps_inv [OF assms(5,1)] keeps_state [OF assms(5) l] assms(4,5) by (auto simp: keeps_def)
  then show ?thesis using assms(2,3,6) assms(7) [of "ptable v ! np"] by (auto intro!: upd_proc_inv)
qed

lemma fork_inv: "proc_inv s \<Longrightarrow> ifOk (fork s) (\<lambda>(r, t). proc_inv t \<and> cur t = cur s)"
  unfolding fork_def
proof (intro ifOk_intros, goal_cases)
  case (1 i q a u)
  then show ?case using allocproc_None by auto
next
  case (2 i q a u np pu pgdir v w x)
  have A: "proc_inv u" "cur u = cur s" "cur u \<noteq> Some np" "np < NPROC" "p_state (ptable u ! np) = EMBRYO"
    using allocproc_Some [of s np u] 2(1,3-5) by auto
  have "keeps u w"
    unfolding 2(8) by (rule keeps_trans [OF keeps_km(2) [OF 2(6) [unfolded 2(7)]] keeps_upd]) simp
  then have "keeps u x" using keeps_km(1) [OF 2(10)] keeps_trans by blast
  then show ?case using embryo_done [OF A(1,3-5), of x "\<lambda>p. p\<lparr>p_kstack := 0, p_state := UNUSED\<rparr>"] A(2) by simp
next
  case (3 i q a u np pu pgdir v w cp x y c d z e pid)
  have A: "proc_inv u" "cur u = cur s" "cur u \<noteq> Some np" "np < NPROC" "p_state (ptable u ! np) = EMBRYO"
    using allocproc_Some [of s np u] 3(1,3-5) by auto
  have "keeps u w"
    unfolding 3(8) by (rule keeps_trans [OF keeps_km(2) [OF 3(6) [unfolded 3(7)]] keeps_upd]) simp
  then have "keeps u x" unfolding 3(11) by (rule keeps_trans [OF _ keeps_upd]) simp
  then have "keeps u z" using keeps_fork_files [OF 3(12)] keeps_idup [OF 3(14)] keeps_trans by blast
  then have "keeps u e" unfolding 3(15) by (rule keeps_trans [OF _ keeps_upd]) simp
  then show ?case using embryo_done [OF A(1,3-5), of e "\<lambda>p. p\<lparr>p_state := RUNNABLE\<rparr>"] A(2) by simp
qed

lemma keeps_exit_children: "keeps s (exit_children js i s)"
proof (induction js arbitrary: s)
  case (Cons j js)
  let ?u = "upd_proc j (\<lambda>p. p\<lparr>p_parent := initproc s\<rparr>) s"
  have u: "keeps s ?u" by (rule keeps_upd) simp
  have "keeps s (if p_parent (ptable s ! j) = Some i then
          let s = upd_proc j (\<lambda>p. p\<lparr>p_parent := initproc s\<rparr>) s in
          if p_state (ptable s ! j) = ZOMBIE then wakeup_opt (initproc s) s else s
        else s)"
    using u keeps_trans [OF u keeps_wakeup(2)] by (simp add: Let_def)
  then show ?case unfolding exit_children.simps by (rule keeps_trans [OF _ Cons.IH])
qed simp

lemma exit_inv: "proc_inv s \<Longrightarrow> ifOk (exit s) (\<lambda>t. proc_inv (scheduler_back t))"
  unfolding exit_def
proof (intro ifOk_intros, goal_cases)
  case (1 i u v c w x y z e)
  have "keeps s u" by (rule keeps_exit_files [OF 1(4)])
  moreover have "keeps u x"
    using begin_op_more [OF 1(5)] iput_more [OF 1(7)] end_op_more [OF 1(8)] by (intro keeps_more) simp
  moreover have "keeps x e" unfolding 1(9-11)
    by (intro keeps_trans [OF keeps_trans [OF keeps_upd keeps_wakeup(2)] keeps_exit_children]) simp
  ultimately have k: "keeps s e" using keeps_trans by blast
  then have "proc_inv e" "cur e = Some i" using keeps_inv [OF k 1(1)] 1(2) by (auto simp: keeps_def myproc_Ok)
  then show ?case by (intro leave_inv) simp_all
qed

lemma reap_inv: "proc_inv s \<Longrightarrow> j < NPROC \<Longrightarrow> p_state (ptable s ! j) = ZOMBIE \<Longrightarrow> ifOk (reap j s) (\<lambda>(r, t). proc_inv t)"
  unfolding reap_def
proof (intro ifOk_intros, goal_cases)
  case (1 p u v)
  have k: "keeps s v"
    by (rule keeps_trans [OF keeps_km(1) [OF 1(5)] keeps_trans [OF keeps_upd keeps_km(1) [OF 1(6)]]]) simp
  have l: "j < length (ptable s)" using 1(1,2) pinvD(1) by (auto simp: proc_inv_def)
  have "p_state (ptable v ! j) = ZOMBIE" using keeps_state [OF k l] 1(3) by simp
  then have "cur v \<noteq> Some j" using cur_inv [OF keeps_inv [OF k 1(1)]] by auto
  then show ?case using keeps_inv [OF k 1(1)] 1(2) by (auto intro!: upd_proc_inv)
qed

lemma sleep_inv: "proc_inv s \<Longrightarrow> sleep ch s = Ok t \<Longrightarrow> proc_inv (scheduler_back t)"
  by (auto simp: sleep_def split: option.splits intro!: leave_inv)

lemma wait_inv: "proc_inv s \<Longrightarrow> ifOk (wait s) (\<lambda>(r, t). case r of Ret x \<Rightarrow> proc_inv t | Sleep \<Rightarrow> proc_inv (scheduler_back t))"
  unfolding wait_def
proof (intro ifOk_intros, goal_cases)
  case (3 i j ru r t)
  then show ?case using reap_inv [THEN ifOkD, of s j "(r, t)"] by (auto simp: find_upt_Some)
qed (auto intro: sleep_inv)

lemma keeps_switchuvm: "switchuvm po s = Ok t \<Longrightarrow> keeps s t"
  by (auto simp: switchuvm_def keeps_def split: option.splits if_splits)

lemma growproc_inv: "ifOk (growproc n s) (\<lambda>(r, t). keeps s t)"
  unfolding growproc_def
proof (intro ifOk_intros, goal_cases)
  case (1 i sz pgdir x r u)
  then show ?case by (auto simp: bnd_eq_Ok dest!: keeps_km(2) split: if_splits)
next
  case (2 i sz pgdir x r u sz' v)
  then have "keeps s u" by (auto simp: bnd_eq_Ok dest!: keeps_km(2) split: if_splits)
  then have "keeps s (upd_proc i (\<lambda>p. p\<lparr>p_sz := sz'\<rparr>) u)" by (rule keeps_trans [OF _ keeps_upd]) simp
  then show ?case using keeps_switchuvm [OF 2(7)] keeps_trans by auto
qed

lemma dispatch_inv:
  assumes "proc_inv s" "cur s = None" "scheduler_pick pos s = Some h" "scheduler_run h s = Ok t"
  shows "proc_inv t \<and> cur t = Some h \<and> p_state (ptable t ! h) = RUNNING"
proof -
  note P = scheduler_pick_ok [OF assms(3)]
  have l: "length (ptable s) = NPROC" using assms(1) pinvD(1) by (auto simp: proc_inv_def)
  have m: "nextpid s \<le> INT_MAX" using assms(1) pinvD(8) by (auto simp: proc_inv_def)
  have t: "ptable t = (ptable s)[h := (ptable s ! h)\<lparr>p_state := RUNNING\<rparr>]" "cur t = Some h" "nextpid t = nextpid s"
    using assms(4) by (auto simp: scheduler_run_def switchuvm_def upd_proc_def split: if_splits)
  have "pinv ((ptable s)[h := (ptable s ! h)\<lparr>p_state := RUNNING\<rparr>]) (Some h) (nextpid s)"
    using assms(1,2) P(1,2) unfolding proc_inv_def by (intro pinv_slot) auto
  then show ?thesis using t P(1) l by (simp add: proc_inv_def)
qed

lemma kill_keeps: "kill pid s = (r, t) \<Longrightarrow> keeps s t"
  by (auto simp: kill_def keeps_def woken_def wk_def nth_upd_proc split: option.splits) (simp_all add: upd_proc_def)

lemma yield_inv: "proc_inv s \<Longrightarrow> yield s = Ok t \<Longrightarrow> proc_inv (scheduler_back t)"
  by (auto simp: yield_def bnd_eq_Ok myproc_Ok intro!: leave_inv)

lemma resume_inv: "proc_inv s \<Longrightarrow> cur s = Some i \<Longrightarrow> proc_inv (resume_sleep i s)"
  using cur_inv [of s i] unfolding proc_inv_def resume_sleep_def by (auto simp: upd_proc_def intro!: pinv_slot)

lemma sched_step_inv: "sched_step (pos, s) (pos', t) \<Longrightarrow> proc_inv s \<Longrightarrow> proc_inv t"
proof (induction "(pos, s)" "(pos', t)" rule: sched_step.induct)
  case (dispatch h)
  then show ?case using dispatch_inv by blast
next
  case (grows n r)
  then show ?case using growproc_inv [THEN ifOkD, of n s "(r, t)"] keeps_inv by auto
next
  case (forks r)
  then show ?case using fork_inv [THEN ifOkD, of s "(r, t)"] by auto
next
  case (exits t)
  then show ?case using exit_inv [THEN ifOkD, of s t] by auto
next
  case (waits r)
  then show ?case using wait_inv [THEN ifOkD, of s "(Ret r, t)"] by auto
next
  case (waits_on t)
  then show ?case using wait_inv [THEN ifOkD, of s "(Sleep, t)"] by auto
qed (auto intro: yield_inv sleep_inv resume_inv keeps_inv [OF keeps_wakeup(1)] keeps_inv [OF kill_keeps])

lemma sched_steps_inv: "sched_step\<^sup>*\<^sup>* c c' \<Longrightarrow> proc_inv (snd c) \<Longrightarrow> proc_inv (snd c')"
proof (induction rule: rtranclp_induct)
  case (step y z)
  then show ?case using sched_step_inv [of "fst y" "snd y" "fst z" "snd z"] by simp
qed

section \<open>Freeing an empty address space\<close>

lemma deallocuvm_loop_empty:
  "(\<And>i. i < 1024 \<Longrightarrow> even (pde (kmem s) pgdir i)) \<Longrightarrow> oldsz \<le> KERNBASE \<Longrightarrow> deallocuvm_loop pgdir a oldsz s = Ok s"
proof (induction pgdir a oldsz s rule: deallocuvm_loop.induct)
  case (1 pgdir a oldsz s)
  have w: "walkpgdir pgdir a False s = (0, s)" using 1(4) by (simp add: walk_absent)
  have "a div 2 ^ 22 < 1023" if "a < oldsz" using that 1(5) by (simp add: KERNBASE_def less_mult_imp_div_less)
  then have "PDX a \<noteq> 1023" if "a < oldsz" using that by (simp add: PDX_def)
  then show ?case using 1(1) [OF _ refl] w 1(4,5) by (subst deallocuvm_loop.simps) (simp add: Let_def)
qed

lemma freevm_loop_empty:
  "(\<And>i. i \<in> set is \<Longrightarrow> even (pde (kmem s) pgdir i)) \<Longrightarrow> freevm_loop pgdir is s = Ok s"
  by (induction "is") (simp_all add: pde_def absent_even)

lemma freevm_empty:
  "(\<And>i. i < 1024 \<Longrightarrow> even (pde (kmem s) pgdir i)) \<Longrightarrow> pgdir \<noteq> 0 \<Longrightarrow> freevm pgdir s = kfree pgdir s"
  using freevm_loop_empty [of "[0..<1024]" s pgdir]
  by (simp add: freevm_def deallocuvm_def deallocuvm_loop_empty KERNBASE_def param_defs)

section \<open>Properties\<close>

text \<open>A small system: process 1 runs, process 2 is ready with a better (lower) priority value, process 3 sleeps.\<close>

definition sample_procs :: kern_st where
  "sample_procs = (boot_kern (\<lambda>_. []) 0 empty_kmem)\<lparr>cur := Some 0, nextpid := 4,
     ptable := (replicate NPROC zero_proc)[
       0 := zero_proc\<lparr>p_state := RUNNING, p_pid := 1, p_priority := 10, p_kstack := 0x80200000, p_pgdir := 0x80201000\<rparr>,
       1 := zero_proc\<lparr>p_state := RUNNABLE, p_pid := 2, p_priority := 2, p_kstack := 0x80202000, p_pgdir := 0x80203000\<rparr>,
       2 := zero_proc\<lparr>p_state := SLEEPING, p_chan := Some ChTicks, p_pid := 3, p_priority := 10,
              p_kstack := 0x80204000, p_pgdir := 0x80205000\<rparr>]\<rparr>"

lemma sample_procs_nth:
  "i < NPROC \<Longrightarrow> ptable sample_procs ! i =
     (if i = 0 then zero_proc\<lparr>p_state := RUNNING, p_pid := 1, p_priority := 10, p_kstack := 0x80200000, p_pgdir := 0x80201000\<rparr>
      else if i = 1 then zero_proc\<lparr>p_state := RUNNABLE, p_pid := 2, p_priority := 2, p_kstack := 0x80202000, p_pgdir := 0x80203000\<rparr>
      else if i = 2 then zero_proc\<lparr>p_state := SLEEPING, p_chan := Some ChTicks, p_pid := 3, p_priority := 10,
              p_kstack := 0x80204000, p_pgdir := 0x80205000\<rparr>
      else zero_proc)"
  by (simp add: sample_procs_def nth_list_update param_defs)

lemma sample_procs_inv: "proc_inv sample_procs" "cur sample_procs = Some 0" "length (ptable sample_procs) = NPROC"
proof -
  show l: "cur sample_procs = Some 0" "length (ptable sample_procs) = NPROC"
    by (simp_all add: sample_procs_def)
  have n: "nextpid sample_procs = 4" by (simp add: sample_procs_def)
  show "proc_inv sample_procs"
    unfolding proc_inv_def using l n
    by (intro pinvI) (auto simp: sample_procs_nth zero_proc_def param_defs INT_MAX_def split: if_splits)
qed

text \<open>
  C11. In every state that is reached from a well-formed one by any sequence of scheduler decisions,
  yields, sleeps, wakeups, kills, growproc, fork, exit and wait calls: exactly the processor's
  current process is RUNNING, the processes in use have different positive pids below the next pid, which is at
  most \<open>2 ^ 31 - 1\<close>, and a sleeping process has the channel that will wake it. A \<^verbatim>\<open>fork\<close> that would increment the largest
  \<^verbatim>\<open>int\<close> is undefined behaviour of the code and is not a step.
\<close>

theorem process_table_invariant:
  assumes "sched_step\<^sup>*\<^sup>* (pos, s) (pos', t)" "proc_inv s"
  shows "(\<forall>i < NPROC. p_state (ptable t ! i) = RUNNING \<longleftrightarrow> cur t = Some i) \<and>
    (\<forall>i < NPROC. p_state (ptable t ! i) \<noteq> UNUSED \<longrightarrow> 0 < p_pid (ptable t ! i) \<and> p_pid (ptable t ! i) < nextpid t) \<and>
    nextpid t \<le> 2 ^ 31 - 1 \<and>
    (\<forall>i < NPROC. \<forall>j < NPROC. p_state (ptable t ! i) \<noteq> UNUSED \<and> p_state (ptable t ! j) \<noteq> UNUSED \<and>
       p_pid (ptable t ! i) = p_pid (ptable t ! j) \<longrightarrow> i = j) \<and>
    (\<forall>i < NPROC. p_state (ptable t ! i) = SLEEPING \<longrightarrow> p_chan (ptable t ! i) \<noteq> None)"
  using sched_steps_inv [OF assms(1)] assms(2) unfolding proc_inv_def pinv_def INT_MAX_def by simp

definition sample_yielded :: kern_st where
  "sample_yielded = scheduler_back (upd_proc 0 (\<lambda>p. p\<lparr>p_state := RUNNABLE\<rparr>) sample_procs)"

lemma sample_yields: "sched_step\<^sup>*\<^sup>* (0, sample_procs) (0, sample_yielded)"
  unfolding sample_yielded_def
  by (intro r_into_rtranclp sched_step.yields) (simp add: yield_def myproc_def sample_procs_inv)

theorem process_table_invariant_witness:
  "sched_step\<^sup>*\<^sup>* (0, sample_procs) (0, sample_yielded) \<and> proc_inv sample_procs \<and>
   p_state (ptable sample_yielded ! 0) \<noteq> RUNNING"
  using process_table_invariant [OF sample_yields sample_procs_inv(1)] sample_yields sample_procs_inv(1)
  by (auto simp: param_defs sample_yielded_def scheduler_back_def)

text \<open>
  C12. The process the scheduler switches to is runnable, and no runnable process of the table has a lower
  priority value.
\<close>

theorem scheduler_picks_highest_priority:
  assumes "scheduler_pick pos s = Some h"
  shows "h < NPROC \<and> p_state (ptable s ! h) = RUNNABLE \<and>
    (\<forall>j < NPROC. p_state (ptable s ! j) = RUNNABLE \<longrightarrow> p_priority (ptable s ! h) \<le> p_priority (ptable s ! j))"
  using scheduler_pick_ok [OF assms] by blast

lemma sample_yielded_nth: "i < NPROC \<Longrightarrow> ptable sample_yielded ! i =
    (if i = 0 then (ptable sample_procs ! 0)\<lparr>p_state := RUNNABLE\<rparr> else ptable sample_procs ! i)"
  by (simp add: sample_yielded_def scheduler_back_def switchkvm_def nth_upd_proc sample_procs_inv)

lemma sample_pick: "scheduler_pick 0 sample_yielded = Some 1"
proof -
  have "find (\<lambda>i. p_state (ptable sample_yielded ! i) = RUNNABLE) [0..<NPROC] = Some 0"
    by (simp add: find_upt_Some sample_yielded_nth param_defs)
  then obtain h where h: "scheduler_pick 0 sample_yielded = Some h" by (simp add: scheduler_pick_def)
  note P = scheduler_pick_ok [OF h]
  have "p_priority (ptable sample_yielded ! h) \<le> 2" using P(3) [of 1] by (simp add: sample_yielded_nth sample_procs_nth param_defs)
  then have "h = 1" using P(1,2)
    by (cases "h = 0"; cases "h = 1"; cases "h = 2") (simp_all add: sample_yielded_nth sample_procs_nth zero_proc_def)
  then show ?thesis using h by simp
qed

theorem scheduler_picks_highest_priority_witness:
  "scheduler_pick 0 sample_yielded = Some 1 \<and> p_priority (ptable sample_yielded ! 1) \<le> p_priority (ptable sample_yielded ! 0)"
  using scheduler_picks_highest_priority [OF sample_pick] sample_pick
  by (auto simp: param_defs sample_yielded_nth sample_procs_nth)

text \<open>
  C13. The scheduler makes progress: when the processor is idle and some process is runnable, then
  either the scan that is under way or the next one finds a process, the switch to it succeeds, and it is then the only
  one RUNNING.
\<close>

theorem scheduler_progress:
  assumes "proc_inv s" "cur s = None" "j < NPROC" "p_state (ptable s ! j) = RUNNABLE"
    "\<And>i. i < NPROC \<Longrightarrow> p_state (ptable s ! i) = RUNNABLE \<Longrightarrow> p_kstack (ptable s ! i) \<noteq> 0 \<and> p_pgdir (ptable s ! i) \<noteq> 0"
  shows "\<exists>h t. (scheduler_pick pos s = Some h \<or> scheduler_pick pos s = None \<and> scheduler_pick 0 s = Some h) \<and>
    scheduler_run h s = Ok t \<and> cur t = Some h \<and> (\<forall>i < NPROC. p_state (ptable t ! i) = RUNNING \<longleftrightarrow> i = h)"
proof -
  have "scheduler_pick 0 s \<noteq> None" using assms(3,4) by (auto simp: scheduler_pick_def find_upt_None)
  then obtain pos' h where h: "scheduler_pick pos' s = Some h"
    "scheduler_pick pos s = Some h \<or> scheduler_pick pos s = None \<and> scheduler_pick 0 s = Some h"
    by (cases "scheduler_pick pos s") auto
  have "p_kstack (ptable s ! h) \<noteq> 0" "p_pgdir (ptable s ! h) \<noteq> 0" using assms(5) scheduler_pick_ok [OF h(1)] by blast+
  then obtain t where t: "scheduler_run h s = Ok t" by (simp add: scheduler_run_def switchuvm_def)
  have "proc_inv t" "cur t = Some h" using dispatch_inv [OF assms(1,2) h(1) t] by auto
  then have "\<forall>i < NPROC. p_state (ptable t ! i) = RUNNING \<longleftrightarrow> i = h" unfolding proc_inv_def using pinvD(3) by fastforce
  with h(2) t \<open>cur t = Some h\<close> show ?thesis by blast
qed

lemma sample_yielded_inv: "proc_inv sample_yielded" "cur sample_yielded = None"
  using sched_steps_inv [OF sample_yields] sample_procs_inv(1) by (simp_all add: sample_yielded_def scheduler_back_def)

theorem scheduler_progress_witness:
  "\<exists>h t. (scheduler_pick 5 sample_yielded = Some h \<or> scheduler_pick 5 sample_yielded = None \<and> scheduler_pick 0 sample_yielded = Some h) \<and>
    scheduler_run h sample_yielded = Ok t \<and> cur t = Some h \<and> (\<forall>i < NPROC. p_state (ptable t ! i) = RUNNING \<longleftrightarrow> i = h)"
  by (rule scheduler_progress [OF sample_yielded_inv, of 1])
    (auto simp: sample_yielded_nth sample_procs_nth param_defs zero_proc_def split: if_splits)

text \<open>
  C14. A call of \<^verbatim>\<open>wait\<close> that returns a pid has found a child of the caller that was a zombie, returns that
  child's pid and frees its slot: afterwards the slot is UNUSED, with no pid, parent or kill mark.
\<close>

theorem wait_reaps_zombie_child:
  assumes "wait s = Ok (Ret r, t)" "r \<noteq> -1" "length (ptable s) = NPROC"
  shows "\<exists>i j. cur s = Some i \<and> j < NPROC \<and> p_parent (ptable s ! j) = Some i \<and> p_state (ptable s ! j) = ZOMBIE \<and>
    r = p_pid (ptable s ! j) \<and> p_state (ptable t ! j) = UNUSED \<and> p_pid (ptable t ! j) = 0 \<and>
    p_parent (ptable t ! j) = None \<and> \<not> p_killed (ptable t ! j)"
proof -
  have "ifOk (wait s) (\<lambda>(x, t). x = Ret r \<longrightarrow> r \<noteq> -1 \<longrightarrow> (\<exists>i j. cur s = Some i \<and> j < NPROC \<and> p_parent (ptable s ! j) = Some i \<and>
      p_state (ptable s ! j) = ZOMBIE \<and> reap j s = Ok (r, t)))"
    unfolding wait_def by (intro ifOk_intros) (auto simp: find_upt_Some myproc_Ok)
  then obtain i j where ij: "cur s = Some i" "j < NPROC" "p_parent (ptable s ! j) = Some i" "p_state (ptable s ! j) = ZOMBIE" "reap j s = Ok (r, t)"
    using assms(1,2) by (auto dest!: ifOkD)
  have "ifOk (reap j s) (\<lambda>(r, t). r = p_pid (ptable s ! j) \<and> p_state (ptable t ! j) = UNUSED \<and> p_pid (ptable t ! j) = 0 \<and>
    p_parent (ptable t ! j) = None \<and> \<not> p_killed (ptable t ! j))"
    unfolding reap_def
    by (intro ifOk_intros) (use ij(2) assms(3) in \<open>auto simp: km_do_def bnd_eq_Ok nth_upd_proc\<close>)
  from ifOkD [OF this ij(5)] show ?thesis using ij by auto
qed

definition sample_zombie :: kern_st where
  "sample_zombie = (boot_kern (\<lambda>_. []) 0 empty_kmem)\<lparr>cur := Some 0, nextpid := 3,
     ptable := (replicate NPROC zero_proc)[
       0 := zero_proc\<lparr>p_state := RUNNING, p_pid := 1\<rparr>,
       1 := zero_proc\<lparr>p_state := ZOMBIE, p_pid := 2, p_parent := Some 0, p_kstack := 0x80300000, p_pgdir := 0x80301000\<rparr>]\<rparr>"

lemma sample_zombie_simps:
  "i < NPROC \<Longrightarrow> ptable sample_zombie ! i = (if i = 0 then zero_proc\<lparr>p_state := RUNNING, p_pid := 1\<rparr> else if i = 1 then
     zero_proc\<lparr>p_state := ZOMBIE, p_pid := 2, p_parent := Some 0, p_kstack := 0x80300000, p_pgdir := 0x80301000\<rparr> else zero_proc)"
  "km sample_zombie = empty_kmem" "cur sample_zombie = Some 0" "length (ptable sample_zombie) = NPROC"
  by (simp_all add: sample_zombie_def boot_kern_def nth_list_update param_defs)

lemma sample_reap: "\<exists>t. reap 1 sample_zombie = Ok (2, t)"
proof -
  have inv: "kmem_inv empty_kmem []" "page_ok empty_kmem 0x80300000" "page_ok empty_kmem 0x80301000"
    by (simp_all add: kmem_inv_def page_ok_def empty_kmem_def param_defs)
  then obtain k where k: "kfree 0x80300000 empty_kmem = Ok k" "kmem_inv k [0x80300000]" "page_ok k = page_ok empty_kmem"
    "\<forall>a. a < 0x80300000 \<or> 0x80300000 + PGSIZE \<le> a \<longrightarrow> kmem k a = kmem empty_kmem a"
    using pages.free_law [of empty_kmem "[]" "0x80300000"] by auto
  have "even (pde (kmem k) 0x80301000 i)" for i
    using k(4) by (simp add: pde_def ld32_def empty_kmem_def PGSIZE_def)
  then have f: "freevm 0x80301000 k = kfree 0x80301000 k" by (intro freevm_empty) simp_all
  obtain k' where "kfree 0x80301000 k = Ok k'" using pages.free_law [OF k(2), of "0x80301000"] inv(3) k(3) by auto
  with f k(1) show ?thesis by (simp add: reap_def km_do_def sample_zombie_simps param_defs zero_proc_def)
qed

lemma sample_wait: "\<exists>t. wait sample_zombie = Ok (Ret 2, t)"
proof -
  have "find (\<lambda>j. p_parent (ptable sample_zombie ! j) = Some 0 \<and> p_state (ptable sample_zombie ! j) = ZOMBIE) [0..<NPROC] = Some 1"
    by (auto simp: find_upt_Some sample_zombie_simps param_defs zero_proc_def)
  then show ?thesis using sample_reap by (auto simp: wait_def myproc_def sample_zombie_simps(3))
qed

theorem wait_reaps_zombie_child_witness:
  "\<exists>t i j. wait sample_zombie = Ok (Ret 2, t) \<and> cur sample_zombie = Some i \<and> p_parent (ptable sample_zombie ! j) = Some i \<and>
     p_pid (ptable sample_zombie ! j) = 2 \<and> p_state (ptable t ! j) = UNUSED"
proof -
  obtain t where t: "wait sample_zombie = Ok (Ret 2, t)" using sample_wait by blast
  from wait_reaps_zombie_child [OF this _ sample_zombie_simps(4)] show ?thesis using t by fastforce
qed

text \<open>
  C15. Killing pid 0. No process has pid 0, but an UNUSED slot does, and \<^verbatim>\<open>kill\<close> does not look at the
  state: \<^verbatim>\<open>kill(0)\<close> reports success and marks the first such slot. \<^verbatim>\<open>allocproc\<close> never clears
  \<^verbatim>\<open>killed\<close>, so when that slot is the next one to be used, the next process is born killed.
\<close>

theorem kill_zero_marks_next_process:
  assumes "i < NPROC" "length (ptable s) = NPROC" "p_state (ptable s ! i) = UNUSED" "p_pid (ptable s ! i) = 0"
    "\<And>j. j < i \<Longrightarrow> p_state (ptable s ! j) \<noteq> UNUSED \<and> p_pid (ptable s ! j) \<noteq> 0" "fst (kalloc (km s)) \<noteq> 0" "nextpid s < 2 ^ 31 - 1"
  shows "\<exists>t u. kill 0 s = (0, t) \<and> allocproc t = Ok (Some i, u) \<and> p_state (ptable u ! i) = EMBRYO \<and> p_killed (ptable u ! i)"
proof -
  define t where "t = upd_proc i (\<lambda>p. p\<lparr>p_killed := True, p_state := (if p_state p = SLEEPING then RUNNABLE else p_state p)\<rparr>) s"
  have f: "find (\<lambda>i. p_pid (ptable s ! i) = 0) [0..<NPROC] = Some i" using assms(1,4,5) by (simp add: find_upt_Some)
  have "p_state (ptable t ! j) = UNUSED \<longleftrightarrow> p_state (ptable s ! j) = UNUSED" if "j < NPROC" for j
    using that assms(2,3) by (auto simp: t_def nth_upd_proc)
  then have g: "find (\<lambda>i. p_state (ptable t ! i) = UNUSED) [0..<NPROC] = Some i"
    using assms(1,3,5) by (simp add: find_upt_Some)
  obtain a k where k: "kalloc (km t) = (a, k)" "a \<noteq> 0" using assms(6) by (cases "kalloc (km s)") (simp add: t_def)
  have "kill 0 s = (0, t)" by (simp add: kill_def f t_def)
  moreover have "\<exists>u. allocproc t = Ok (Some i, u) \<and> p_state (ptable u ! i) = EMBRYO \<and> p_killed (ptable u ! i)"
    using g k assms(1,2,7) by (auto simp: allocproc_def Let_def upd_proc_def t_def INT_MAX_def)
  ultimately show ?thesis by blast
qed

theorem kill_zero_marks_next_process_witness:
  "\<exists>t u. kill 0 (sample_procs\<lparr>km := sample_vm\<rparr>) = (0, t) \<and> allocproc t = Ok (Some 3, u) \<and>
     p_state (ptable u ! 3) = EMBRYO \<and> p_killed (ptable u ! 3)"
  by (rule kill_zero_marks_next_process)
    (auto simp: sample_procs_nth sample_procs_inv param_defs zero_proc_def kalloc_def sample_vm_def sample_procs_def [THEN arg_cong, of nextpid])

end
