(* ===== verification/Console.thy ===== *)
theory Console
  imports Proc
begin

text \<open>
  The console (\<^verbatim>\<open>console.c\<close>) and the keyboard driver's decoder (\<^verbatim>\<open>kbd.c\<close>): formatted
  output, the screen, the line editor over the input ring, and the device routines. Output is
  recorded in the history \<open>cons_out\<close> of the arguments of \<^verbatim>\<open>consputc\<close>; what the screen and the
  serial line get from it are the functions \<open>cgaputc\<close> and \<open>uart_bytes\<close>. The also modelled
  listings \<^verbatim>\<open>procdump\<close>, \<^verbatim>\<open>cps\<close> and \<^verbatim>\<open>date\<close> of \<^verbatim>\<open>proc.c\<close> only print.
\<close>

section \<open>Formatted output\<close>

text \<open>A value of type \<^verbatim>\<open>char\<close> passed as an \<^verbatim>\<open>int\<close> is sign-extended.\<close>

definition schar :: "byte \<Rightarrow> int" where
  "schar b = sint b"

definition digits :: "byte list" where
  "digits = ascii ''0123456789abcdef''"

text \<open>The do-while loop: the digits from the least significant one. The bases in use are 10 and 16.\<close>

function printint_loop :: "nat \<Rightarrow> nat \<Rightarrow> byte list" where
  "printint_loop x base = digits ! (x mod base) # (if x div base \<noteq> 0 \<and> 2 \<le> base then printint_loop (x div base) base else [])"
  by auto
termination
  by (relation "measure fst") (auto simp: dual_order.strict_implies_not_eq div_greater_zero_iff intro!: div_less_dividend)

declare printint_loop.simps [simp del]

text \<open>\<open>xx\<close> is the argument's 32-bit pattern; with \<open>sg\<close> set it is read as a signed number.\<close>

definition printint :: "nat \<Rightarrow> nat \<Rightarrow> bool \<Rightarrow> byte list" where
  "printint xx base sg =
     (let neg = (sg \<and> 2 ^ 31 \<le> xx);
          x = (if neg then 2 ^ 32 - xx else xx)
      in rev (printint_loop x base @ (if neg then [45] else [])))"

text \<open>Arguments of \<^verbatim>\<open>cprintf\<close>: a word, or a pointer to a string, which may be null.\<close>

datatype carg = Num nat | Str "byte list option"

text \<open>The characters that a call prints. A conversion that finds no argument, or one of the wrong kind, is undefined.\<close>

fun cprintf_loop :: "byte list \<Rightarrow> carg list \<Rightarrow> int list res" where
  "cprintf_loop [] args = Ok []"
| "cprintf_loop (c # fmt) args =
     (if c \<noteq> 37 then bnd (cprintf_loop fmt args) (\<lambda>r. Ok (uint c # r))
      else case fmt of
        [] \<Rightarrow> Ok []
      | d # fmt' \<Rightarrow>
          if d = 100 then
            (case args of Num x # as \<Rightarrow> bnd (cprintf_loop fmt' as) (\<lambda>r. Ok (map schar (printint x 10 True) @ r)) | _ \<Rightarrow> Undef)
          else if d = 120 \<or> d = 112 then
            (case args of Num x # as \<Rightarrow> bnd (cprintf_loop fmt' as) (\<lambda>r. Ok (map schar (printint x 16 False) @ r)) | _ \<Rightarrow> Undef)
          else if d = 115 then
            (case args of
               Str p # as \<Rightarrow>
                 bnd (cprintf_loop fmt' as) (\<lambda>r. Ok (map schar (case p of None \<Rightarrow> ascii ''(null)'' | Some bs \<Rightarrow> bs) @ r))
             | _ \<Rightarrow> Undef)
          else if d = 37 then bnd (cprintf_loop fmt' args) (\<lambda>r. Ok (37 # r))
          else bnd (cprintf_loop fmt' args) (\<lambda>r. Ok (37 # uint d # r)))"

definition cprintf :: "byte list option \<Rightarrow> carg list \<Rightarrow> 'a kern_st_scheme \<Rightarrow> 'a kern_st_scheme res" where
  "cprintf fmt args s =
     (case fmt of
        None \<Rightarrow> Panic ''null fmt''
      | Some f \<Rightarrow> bnd (cprintf_loop f args) (\<lambda>cs. Ok (s\<lparr>cons_out := cons_out s @ cs\<rparr>)))"

section \<open>Screen and serial line\<close>

definition BACKSPACE :: int where "BACKSPACE = 0x100"

text \<open>What \<^verbatim>\<open>consputc\<close> sends to the serial port for one character.\<close>

definition uart_bytes :: "int \<Rightarrow> byte list" where
  "uart_bytes c = (if c = BACKSPACE then [8, 32, 8] else [word_of_int c])"

text \<open>
  The text screen: 25 rows of 80 cells of 16 bits and the cursor position held by the CRT controller.
\<close>

record cga =
  crt :: "nat list"
  crt_pos :: int

text \<open>A store to a cell, and to a run of cells; outside the screen it is undefined.\<close>

definition crt_store :: "int \<Rightarrow> nat \<Rightarrow> cga \<Rightarrow> cga res" where
  "crt_store pos v g = (if 0 \<le> pos \<and> pos < int (length (crt g)) then Ok (g\<lparr>crt := (crt g)[nat pos := v]\<rparr>) else Undef)"

definition crt_stores :: "int \<Rightarrow> nat list \<Rightarrow> cga \<Rightarrow> cga res" where
  "crt_stores pos vs g =
     (if 0 \<le> pos \<and> pos + int (length vs) \<le> int (length (crt g))
      then Ok (g\<lparr>crt := take (nat pos) (crt g) @ vs @ drop (nat pos + length vs) (crt g)\<rparr>) else Undef)"

text \<open>The character goes to its cell, or moves the cursor only.\<close>

definition cga_put :: "int \<Rightarrow> int \<Rightarrow> cga \<Rightarrow> (int \<times> cga) res" where
  "cga_put c pos g =
     (if c = 10 then Ok (pos + (80 - pos mod 80), g)
      else if c = BACKSPACE then Ok (if pos > 0 then pos - 1 else pos, g)
      else bnd (crt_store pos (nat (c mod 256) + 0x700) g) (\<lambda>g. Ok (pos + 1, g)))"

text \<open>
  Row 24 is not used: reaching it scrolls up by one row. \<^verbatim>\<open>memmove\<close> reads rows 1 to 23; a negative length of \<^verbatim>\<open>memset\<close>
  would be a huge one, past the end of the screen.
\<close>

definition cga_scroll :: "int \<Rightarrow> cga \<Rightarrow> (int \<times> cga) res" where
  "cga_scroll pos g =
     (if 24 \<le> pos div 80 then
        if length (crt g) < 24 * 80 then Undef
        else
          bnd (crt_stores 0 (take (23 * 80) (drop 80 (crt g))) g) (\<lambda>g.
          let pos = pos - 80 in
          if 24 * 80 < pos then Undef
          else bnd (crt_stores pos (replicate (nat (24 * 80 - pos)) 0) g) (\<lambda>g. Ok (pos, g)))
      else Ok (pos, g))"

text \<open>The position is read from two byte registers and written back to them.\<close>

definition cgaputc :: "int \<Rightarrow> cga \<Rightarrow> cga res" where
  "cgaputc c g =
     bnd (cga_put c (crt_pos g) g) (\<lambda>(pos, g).
     if pos < 0 \<or> pos > 25 * 80 then Panic ''pos under/overflow''
     else
       bnd (cga_scroll pos g) (\<lambda>(pos, g).
       crt_store pos 0x720 (g\<lparr>crt_pos := pos mod 2 ^ 16\<rparr>)))"

definition consputc :: "int \<Rightarrow> 'a kern_st_scheme \<Rightarrow> 'a kern_st_scheme" where
  "consputc c s = s\<lparr>cons_out := cons_out s @ [c]\<rparr>"

section \<open>Keyboard\<close>

text \<open>Scan-code tables of \<^verbatim>\<open>kbd.h\<close>: 256 entries, zero where the initialiser says nothing.\<close>

definition SHIFT :: uint32 where "SHIFT = 1"
definition CTL :: uint32 where "CTL = 2"
definition ALT :: uint32 where "ALT = 4"
definition CAPSLOCK :: uint32 where "CAPSLOCK = 8"
definition NUMLOCK :: uint32 where "NUMLOCK = 16"
definition SCROLLLOCK :: uint32 where "SCROLLLOCK = 32"
definition E0ESC :: uint32 where "E0ESC = 64"

definition shiftcode :: "nat \<Rightarrow> uint32" where
  "shiftcode d = (if d = 0x1D then CTL else if d = 0x2A then SHIFT else if d = 0x36 then SHIFT else if d = 0x38 then ALT
     else if d = 0x9D then CTL else if d = 0xB8 then ALT else 0)"

definition togglecode :: "nat \<Rightarrow> uint32" where
  "togglecode d = (if d = 0x3A then CAPSLOCK else if d = 0x45 then NUMLOCK else if d = 0x46 then SCROLLLOCK else 0)"

text \<open>The keys behind an E0 escape, common to the three maps.\<close>

definition extmap :: "nat \<Rightarrow> nat" where
  "extmap d = (if d = 0xC8 then 0xE2 else if d = 0xD0 then 0xE3 else if d = 0xC9 then 0xE6 else if d = 0xD1 then 0xE7
     else if d = 0xCB then 0xE4 else if d = 0xCD then 0xE5 else if d = 0x97 then 0xE0 else if d = 0xCF then 0xE1
     else if d = 0xD2 then 0xE8 else if d = 0xD3 then 0xE9 else 0)"

definition normalmap :: "nat \<Rightarrow> nat" where
  "normalmap d =
     (let t = [0, 0x1B] @ map unat (ascii ''1234567890-='') @ [8, 9] @ map unat (ascii ''qwertyuiop[]'') @ [10, 0]
            @ map unat (ascii ''asdfghjkl;'') @ [39, 96, 0, 92] @ map unat (ascii ''zxcvbnm,./'') @ [0, 42, 0, 32]
            @ replicate 13 0 @ map unat (ascii ''789-456+1230.'')
      in if d < length t then t ! d else if d = 0x9C then 10 else if d = 0xB5 then 47 else extmap d)"

definition shiftmap :: "nat \<Rightarrow> nat" where
  "shiftmap d =
     (let t = [0, 27] @ map unat (ascii ''!@#$%^&*()_+'') @ [8, 9] @ map unat (ascii ''QWERTYUIOP{}'') @ [10, 0]
            @ map unat (ascii ''ASDFGHJKL:'') @ [34, 126, 0, 124] @ map unat (ascii ''ZXCVBNM<>?'') @ [0, 42, 0, 32]
            @ replicate 13 0 @ map unat (ascii ''789-456+1230.'')
      in if d < length t then t ! d else if d = 0x9C then 10 else if d = 0xB5 then 47 else extmap d)"

text \<open>\<open>C x\<close> is control-x.\<close>

definition ctlchar :: "char \<Rightarrow> nat" where
  "ctlchar c = (of_char c - 64)"

definition ctlmap :: "nat \<Rightarrow> nat" where
  "ctlmap d =
     (let t = replicate 16 0 @ map ctlchar ''QWERTYUIOP'' @ [0, 0, 13, 0] @ map ctlchar ''ASDFGHJKL'' @ [0, 0, 0, 0, 28]
            @ map ctlchar ''ZXCVBNM'' @ [0, 0, 0xEF, 0, 0]
      in if d < length t then t ! d else if d = 0x9C then 13 else if d = 0xB5 then 0xEF else extmap d)"

text \<open>
  One call of \<^verbatim>\<open>kbdgetc\<close>, on what the two ports read: \<open>None\<close> when no data is waiting. The second
  component is the static modifier state.
\<close>

definition kbdgetc :: "nat option \<Rightarrow> uint32 \<Rightarrow> int \<times> uint32" where
  "kbdgetc port shift =
     (case port of
        None \<Rightarrow> (-1, shift)
      | Some data \<Rightarrow>
          if data = 0xE0 then (0, shift OR E0ESC)
          else if data AND 0x80 \<noteq> 0 then
            let data = (if shift AND E0ESC \<noteq> 0 then data else data AND 0x7F)
            in (0, shift AND NOT (shiftcode data OR E0ESC))
          else
            let (data, shift) = (if shift AND E0ESC \<noteq> 0 then (data OR 0x80, shift AND NOT E0ESC) else (data, shift));
                shift = (shift OR shiftcode data) XOR togglecode data;
                m = shift AND (CTL OR SHIFT);
                c = (if m = 0 then normalmap data else if m = 1 then shiftmap data else ctlmap data);
                c = (if shift AND CAPSLOCK \<noteq> 0 then
                       if 97 \<le> c \<and> c \<le> 122 then c - 32 else if 65 \<le> c \<and> c \<le> 90 then c + 32 else c
                     else c)
            in (int c, shift))"

section \<open>Input\<close>

definition upd_input :: "(input_buf \<Rightarrow> input_buf) \<Rightarrow> 'a kern_st_scheme \<Rightarrow> 'a kern_st_scheme" where
  "upd_input f s = s\<lparr>input := f (input s)\<rparr>"

definition in_at :: "input_buf \<Rightarrow> uint32 \<Rightarrow> byte" where
  "in_at b i = in_buf b ! (unat i mod INPUT_BUF)"

text \<open>Control-U: drop characters back to the last newline or to the committed part.\<close>

lemma unat_pred: "x \<noteq> 0 \<Longrightarrow> unat (x - 1) < unat x" for x :: uint32
proof -
  assume "x \<noteq> 0"
  then have "0 < unat x" by (simp add: unat_gt_0)
  moreover have "unat (x - 1) = unat x - 1" using calculation by (subst unat_minus_one) (use \<open>x \<noteq> 0\<close> in auto)
  ultimately show ?thesis by simp
qed

function kill_line :: "'a kern_st_scheme \<Rightarrow> 'a kern_st_scheme" where
  "kill_line s =
     (let b = input s in
      if in_e b \<noteq> in_w b \<and> in_at b (in_e b - 1) \<noteq> 10 then
        kill_line (consputc BACKSPACE (upd_input (\<lambda>b. b\<lparr>in_e := in_e b - 1\<rparr>) s))
      else s)"
  by auto
termination
proof (relation "measure (\<lambda>s. unat (in_e (input s) - in_w (input s)))", goal_cases)
  case (2 s b)
  then show ?case using unat_pred [of "in_e b - in_w b"] by (simp add: consputc_def upd_input_def algebra_simps)
qed simp

declare kill_line.simps [simp del]

text \<open>One character from the keyboard or the serial line; the flag asks for a process listing afterwards.\<close>

definition console_char :: "int \<Rightarrow> bool \<times> 'a kern_st_scheme \<Rightarrow> bool \<times> 'a kern_st_scheme" where
  "console_char c = (\<lambda>(dump, s).
     if c = 16 then (True, s)
     else if c = 21 then (dump, kill_line s)
     else if c = 8 \<or> c = 127 then
       (dump, if in_e (input s) \<noteq> in_w (input s) then consputc BACKSPACE (upd_input (\<lambda>b. b\<lparr>in_e := in_e b - 1\<rparr>) s) else s)
     else if c \<noteq> 0 \<and> unat (in_e (input s) - in_r (input s)) < INPUT_BUF then
       let c = (if c = 13 then 10 else c);
           s = upd_input (\<lambda>b. b\<lparr>in_buf := (in_buf b)[unat (in_e b) mod INPUT_BUF := word_of_int c], in_e := in_e b + 1\<rparr>) s;
           s = consputc c s
       in (dump, if c = 10 \<or> c = 4 \<or> in_e (input s) = in_r (input s) + word_of_nat INPUT_BUF
            then wakeup ChInput (upd_input (\<lambda>b. b\<lparr>in_w := in_e b\<rparr>) s) else s)
     else (dump, s))"

section \<open>Process listings\<close>

definition state_name :: "procstate \<Rightarrow> string" where
  "state_name sta = (case sta of UNUSED \<Rightarrow> ''unused'' | EMBRYO \<Rightarrow> ''embryo'' | SLEEPING \<Rightarrow> ''sleep ''
     | RUNNABLE \<Rightarrow> ''runble'' | RUNNING \<Rightarrow> ''run   '' | ZOMBIE \<Rightarrow> ''zombie'')"

definition name_str :: "proc \<Rightarrow> byte list" where
  "name_str p = takeWhile (\<lambda>b. b \<noteq> 0) (p_name p)"

fun print_pcs :: "nat list \<Rightarrow> 'a kern_st_scheme \<Rightarrow> 'a kern_st_scheme res" where
  "print_pcs [] s = Ok s"
| "print_pcs (pc # pcs) s =
     (if pc \<noteq> 0 then bnd (cprintf (Some (ascii '' %p'')) [Num pc] s) (print_pcs pcs) else Ok s)"

definition procdump_line :: "proc \<Rightarrow> 'a kern_st_scheme \<Rightarrow> 'a kern_st_scheme res" where
  "procdump_line p s =
     (if p_state p = UNUSED then Ok s
      else
        let t = u32 (int (ticks s) - int (p_start_ticks p)); e2 = t div 1000; e1 = t - e2 * 1000 in
        bnd (cprintf (Some (ascii ''%d'' @ [9] @ ascii '' %s'' @ [9] @ ascii '' %d.%d'' @ [9] @ ascii '' %s'' @ [9] @ ascii '' %d'' @ [9]))
              [Num (u32 (p_pid p)), Str (Some (name_str p)), Num e2, Num e1, Str (Some (ascii (state_name (p_state p)))), Num (p_sz p)] s) (\<lambda>s.
        bnd (if p_state p = SLEEPING then
               print_pcs (getcallerpcs (ld32 (kmem (km s))) ((cx_ebp (p_context p) + 8) mod 2 ^ 32)) s
             else Ok s) (\<lambda>s.
        cprintf (Some [10]) [] s)))"

fun procdump_loop :: "proc list \<Rightarrow> 'a kern_st_scheme \<Rightarrow> 'a kern_st_scheme res" where
  "procdump_loop [] s = cprintf (Some [10]) [] s"
| "procdump_loop (p # ps) s = bnd (procdump_line p s) (procdump_loop ps)"

definition procdump :: "'a kern_st_scheme \<Rightarrow> 'a kern_st_scheme res" where
  "procdump s =
     bnd (cprintf (Some (ascii ''-PID- -STATE- -ELAPSE- -NAME- -SIZE- -PCs- '' @ [10])) [] s) (\<lambda>s.
     procdump_loop (ptable s) s)"

definition cps_fmt :: "string \<Rightarrow> byte list" where
  "cps_fmt st_name = ascii ''%s '' @ [9] @ ascii '' %d  '' @ [9] @ ascii '' '' @ ascii st_name @ ascii '' '' @ [9] @ ascii '' %d'' @ [10] @ ascii '' ''"

fun cps_loop :: "proc list \<Rightarrow> 'a kern_st_scheme \<Rightarrow> 'a kern_st_scheme res" where
  "cps_loop [] s = Ok s"
| "cps_loop (p # ps) s =
     (let args = [Str (Some (name_str p)), Num (u32 (p_pid p)), Num (u32 (p_priority p))] in
      bnd (if p_state p = SLEEPING then cprintf (Some (cps_fmt ''SLEEPING'')) args s
           else if p_state p = RUNNING then cprintf (Some (cps_fmt ''RUNNING'')) args s
           else if p_state p = RUNNABLE then cprintf (Some (cps_fmt ''RUNNABLE'')) args s
           else Ok s) (cps_loop ps))"

definition cps :: "'a kern_st_scheme \<Rightarrow> (int \<times> 'a kern_st_scheme) res" where
  "cps s =
     bnd (cprintf (Some (ascii ''name '' @ [9] @ ascii '' pid '' @ [9] @ ascii '' state '' @ [9] @ ascii '' priority '' @ [10])) [] s) (\<lambda>s.
     bnd (cps_loop (ptable s) s) (\<lambda>s. Ok (22, s)))"

section \<open>The clock chip\<close>

record rtcdate =
  r_second :: nat
  r_minute :: nat
  r_hour :: nat
  r_day :: nat
  r_month :: nat
  r_year :: nat

definition SECS :: nat where "SECS = 0"
definition MINS :: nat where "MINS = 2"
definition HOURS :: nat where "HOURS = 4"
definition DAY :: nat where "DAY = 7"
definition MONTH :: nat where "MONTH = 8"
definition YEAR :: nat where "YEAR = 9"
definition CMOS_STATA :: nat where "CMOS_STATA = 10"
definition CMOS_STATB :: nat where "CMOS_STATB = 11"
definition CMOS_UIP :: nat where "CMOS_UIP = 128"

text \<open>
  The chip is a function from the number of reads made so far and the register to the byte read: its registers may change between any
  two reads. Each read below takes the counter and returns it advanced.
\<close>

type_synonym chip = "nat \<Rightarrow> nat \<Rightarrow> nat"

definition cmos_read :: "chip \<Rightarrow> nat \<Rightarrow> nat \<Rightarrow> nat \<times> nat" where
  "cmos_read ch reg t = (ch t reg, t + 1)"

definition fill_rtcdate :: "chip \<Rightarrow> nat \<Rightarrow> rtcdate \<times> nat" where
  "fill_rtcdate ch t =
     (case cmos_read ch SECS t of (se, t) \<Rightarrow>
      case cmos_read ch MINS t of (mi, t) \<Rightarrow>
      case cmos_read ch HOURS t of (ho, t) \<Rightarrow>
      case cmos_read ch DAY t of (da, t) \<Rightarrow>
      case cmos_read ch MONTH t of (mo, t) \<Rightarrow>
      case cmos_read ch YEAR t of (ye, t) \<Rightarrow>
      (\<lparr>r_second = se, r_minute = mi, r_hour = ho, r_day = da, r_month = mo, r_year = ye\<rparr>, t))"

text \<open>The loop has no bound in the code: it ends when two readings agree with no update in progress.\<close>

partial_function (option) cmos_loop :: "chip \<Rightarrow> nat \<Rightarrow> (rtcdate \<times> nat) option" where
  "cmos_loop ch t =
     (case fill_rtcdate ch t of (t1, t) \<Rightarrow>
      case cmos_read ch CMOS_STATA t of (sa, t) \<Rightarrow>
      if sa AND CMOS_UIP \<noteq> 0 then cmos_loop ch t
      else case fill_rtcdate ch t of (t2, t) \<Rightarrow>
        if t1 = t2 then Some (t1, t) else cmos_loop ch t)"

definition conv :: "nat \<Rightarrow> nat" where
  "conv x = drop_bit 4 x * 10 + (x AND 0xf)"

definition cmostime :: "chip \<Rightarrow> nat \<Rightarrow> rtcdate option" where
  "cmostime ch t =
     (case cmos_read ch CMOS_STATB t of (sb, t) \<Rightarrow>
      map_option (\<lambda>(t1, t).
        let bcd = (sb AND 4 = 0);
            r = (if bcd then \<lparr>r_second = conv (r_second t1), r_minute = conv (r_minute t1), r_hour = conv (r_hour t1),
                   r_day = conv (r_day t1), r_month = conv (r_month t1), r_year = conv (r_year t1)\<rparr> else t1)
        in r\<lparr>r_year := r_year r + 2000\<rparr>) (cmos_loop ch t))"

definition date :: "chip \<Rightarrow> nat \<Rightarrow> 'a kern_st_scheme \<Rightarrow> (int \<times> 'a kern_st_scheme) res option" where
  "date ch t s =
     map_option (\<lambda>r.
       bnd (cprintf (Some (ascii ''%d/%d/%d %d:%d:%d'' @ [10]))
             [Num (r_day r), Num (r_month r), Num (r_year r), Num (r_hour r), Num (r_minute r), Num (r_second r)] s) (\<lambda>s.
       Ok (25, s))) (cmostime ch t)"

section \<open>Device routines\<close>

definition consoleintr :: "int list \<Rightarrow> 'a kern_st_scheme \<Rightarrow> 'a kern_st_scheme res" where
  "consoleintr cs s =
     (case fold console_char cs (False, s) of (dump, s) \<Rightarrow> if dump then procdump s else Ok s)"

text \<open>
  The read loop for \<open>n\<close> more bytes: it stops at a newline, at control-D or when all were read (the first result is then
  \<open>True\<close>), or to wait for input. The other results are the bytes stored and the count still wanted.
\<close>

fun consoleread_loop :: "nat \<Rightarrow> nat \<Rightarrow> 'a kern_st_scheme \<Rightarrow> bool \<times> byte list \<times> nat \<times> 'a kern_st_scheme" where
  "consoleread_loop target 0 s = (True, [], 0, s)"
| "consoleread_loop target (Suc n) s =
     (let b = input s in
      if in_r b = in_w b then (False, [], Suc n, s)
      else
        let c = in_at b (in_r b); s' = upd_input (\<lambda>b. b\<lparr>in_r := in_r b + 1\<rparr>) s in
        if c = 4 then (True, [], Suc n, if Suc n < target then upd_input (\<lambda>b. b\<lparr>in_r := in_r b - 1\<rparr>) s' else s')
        else if c = 10 then (True, [c], n, s')
        else case consoleread_loop target n s' of (d, bs, k, s) \<Rightarrow> (d, c # bs, k, s))"

definition consoleread :: "'a kern_st_scheme dev_read" where
  "consoleread ip n s =
     bnd (iunlock ip s) (\<lambda>s.
     case consoleread_loop n n s of (d, bs, k, s) \<Rightarrow>
       if d then bnd (ilock ip s) (\<lambda>s. Ok ((int (n - k), bs), s))
       else if killed s then bnd (ilock ip s) (\<lambda>s. Ok ((-1, bs), s))
       else Blocks)"

definition consolewrite :: "'a kern_st_scheme dev_write" where
  "consolewrite ip buf s =
     bnd (iunlock ip s) (\<lambda>s.
     bnd (ilock ip (fold (\<lambda>b. consputc (uint b)) buf s)) (\<lambda>s. Ok (int (length buf), s)))"

definition CONSOLE :: int where "CONSOLE = 1"

text \<open>The device switch table after \<^verbatim>\<open>consoleinit\<close>.\<close>

definition consoleinit :: "'a kern_st_scheme devsw" where
  "consoleinit = (\<lambda>m. if m = CONSOLE then (Some consoleread, Some consolewrite) else (None, None))"

end
