(* ===== verification/Tty.thy ===== *)
theory Tty
  imports Console
begin

text \<open>
  Correctness of the console: numbers print as what \<^verbatim>\<open>atoi\<close> reads back and fit the
  conversion buffer, the cursor never leaves the screen, and the input ring, with its three
  wrapping indices, refines a line editor on lists.
\<close>

section \<open>Numbers\<close>

lemma digits_nth: "k < 10 \<Longrightarrow> uint (digits ! k) = 48 + int k \<and> isdig (digits ! k)"
proof -
  assume "k < 10"
  then have "k \<in> {0, 1, 2, 3, 4, 5, 6, 7, 8, 9}" by auto
  then show ?thesis by (auto simp: digits_def ascii_def isdig_def)
qed

lemma printint_loop_digits: "\<forall>c \<in> set (printint_loop x 10). isdig c"
proof (induction x "10 :: nat" rule: printint_loop.induct)
  case (1 x)
  then show ?case using digits_nth [of "x mod 10"] by (subst printint_loop.simps) auto
qed

lemma printint_loop_value: "foldl (\<lambda>n c. n * 10 + (uint c - 48)) 0 (rev (printint_loop x 10)) = int x"
proof (induction x "10 :: nat" rule: printint_loop.induct)
  case (1 x)
  have d: "uint (digits ! (x mod 10)) - 48 = int (x mod 10)" using digits_nth [of "x mod 10"] by simp
  show ?case
  proof (cases "x div 10 = 0")
    case True
    then show ?thesis using d by (subst printint_loop.simps) (simp add: mod_eq_self_iff_div_eq_0)
  next
    case False
    then have "foldl (\<lambda>n c. n * 10 + (uint c - 48)) 0 (rev (printint_loop x 10)) = int (x div 10) * 10 + int (x mod 10)"
      using 1 d by (subst printint_loop.simps) simp
    also have "\<dots> = int x" by presburger
    finally show ?thesis .
  qed
qed

lemma printint_loop_length: "x < base ^ Suc k \<Longrightarrow> 2 \<le> base \<Longrightarrow> length (printint_loop x base) \<le> Suc k"
proof (induction k arbitrary: x)
  case 0
  then show ?case by (subst printint_loop.simps) simp
next
  case (Suc k)
  then have "x div base < base ^ Suc k" by (simp add: less_mult_imp_div_less mult.commute)
  then show ?case using Suc by (subst printint_loop.simps) (simp del: power_Suc)
qed

section \<open>The cursor\<close>

definition cga_ok :: "cga \<Rightarrow> bool" where
  "cga_ok g \<longleftrightarrow> length (crt g) = 25 * 80 \<and> 0 \<le> crt_pos g \<and> crt_pos g < 24 * 80"

lemma newline_pos:
  assumes "0 \<le> p" "p < 24 * 80"
  shows "p < p + (80 - p mod 80) \<and> p + (80 - p mod 80) \<le> (24 * 80 :: int)"
proof -
  have "p mod 80 < 80" "p div 80 * 80 + p mod 80 = p" by simp_all
  moreover have "p div 80 < 24" using assms by (simp add: div_less_iff_less_mult)
  ultimately show ?thesis by linarith
qed

lemma cga_put_ok:
  assumes "cga_ok g"
  shows "\<exists>pos h. cga_put c (crt_pos g) g = Ok (pos, h) \<and> length (crt h) = 25 * 80 \<and> 0 \<le> pos \<and> pos \<le> 24 * 80"
  using assms newline_pos [of "crt_pos g"] unfolding cga_put_def crt_store_def cga_ok_def by auto

lemma cga_scroll_ok:
  assumes "length (crt g) = 25 * 80" "0 \<le> pos" "pos \<le> 24 * 80"
  shows "\<exists>p h. cga_scroll pos g = Ok (p, h) \<and> length (crt h) = 25 * 80 \<and> 0 \<le> p \<and> p < 24 * 80"
proof (cases "24 \<le> pos div 80")
  case True
  then have "pos = 24 * 80" using assms(3) by linarith
  then show ?thesis using assms(1) by (simp add: cga_scroll_def crt_stores_def Let_def)
next
  case False
  then have "pos < 24 * 80" by (simp add: not_le div_less_iff_less_mult)
  then show ?thesis using False assms by (simp add: cga_scroll_def)
qed

lemma cgaputc_ok:
  assumes "cga_ok g"
  shows "\<exists>h. cgaputc c g = Ok h \<and> cga_ok h"
proof -
  obtain pos g1 where g1: "cga_put c (crt_pos g) g = Ok (pos, g1)" "length (crt g1) = 25 * 80" "0 \<le> pos" "pos \<le> 24 * 80"
    using cga_put_ok [OF assms] by blast
  from cga_scroll_ok [OF this(2-4)] obtain p g2 where
    g2: "cga_scroll pos g1 = Ok (p, g2)" "length (crt g2) = 25 * 80" "0 \<le> p" "p < 24 * 80" by blast
  then have "cgaputc c g = Ok (g2\<lparr>crt_pos := p, crt := (crt g2)[nat p := 0x720]\<rparr>)"
    using g1 by (simp add: cgaputc_def crt_store_def)
  then show ?thesis using g2 by (simp add: cga_ok_def)
qed

text \<open>What is shown: the cell under the cursor gets the character, the next one the cursor.\<close>

lemma cgaputc_shows:
  assumes "cga_ok g" "c \<noteq> 10" "c \<noteq> BACKSPACE" "crt_pos g + 1 < 24 * 80"
  shows "cgaputc c g = Ok \<lparr>crt = (crt g)[nat (crt_pos g) := nat (c mod 256) + 0x700, nat (crt_pos g + 1) := 0x720], crt_pos = crt_pos g + 1\<rparr>"
proof -
  have "\<not> 24 \<le> (crt_pos g + 1) div 80" using assms(4) by (simp add: not_le div_less_iff_less_mult)
  then show ?thesis using assms by (simp add: cgaputc_def cga_put_def cga_scroll_def crt_store_def cga_ok_def)
qed

section \<open>The input ring\<close>

text \<open>The characters between two indices of the ring.\<close>

definition ring :: "input_buf \<Rightarrow> uint32 \<Rightarrow> uint32 \<Rightarrow> byte list" where
  "ring b i j = map (\<lambda>k. in_at b (i + word_of_nat k)) [0..<unat (j - i)]"

definition inp_inv :: "input_buf \<Rightarrow> bool" where
  "inp_inv b \<longleftrightarrow> length (in_buf b) = INPUT_BUF \<and> unat (in_e b - in_r b) \<le> INPUT_BUF \<and>
     unat (in_e b - in_r b) = unat (in_w b - in_r b) + unat (in_e b - in_w b)"

text \<open>The committed lines, which readers may take, and the line being edited.\<close>

definition inp_abs :: "input_buf \<Rightarrow> byte list \<times> byte list" where
  "inp_abs b = (ring b (in_r b) (in_w b), ring b (in_w b) (in_e b))"

lemma length_ring [simp]: "length (ring b i j) = unat (j - i)"
  by (simp add: ring_def)

lemma ring_Nil_iff: "ring b i j = [] \<longleftrightarrow> i = j"
  by (auto simp: ring_def unat_eq_0)

lemma ring_nth: "k < unat (j - i) \<Longrightarrow> ring b i j ! k = in_at b (i + word_of_nat k)"
  by (simp add: ring_def)

lemma unat_ring_mod: "unat (i + word_of_nat k :: uint32) mod INPUT_BUF = (unat i + k) mod INPUT_BUF"
proof -
  have "unat (i + word_of_nat k) = (unat i + k) mod 2 ^ 32" by (simp add: unat_word_ariths unat_of_nat mod_simps)
  then show ?thesis by (simp add: INPUT_BUF_def mod_mod_cancel)
qed

lemma unat_succ: "unat x + 1 < 2 ^ 32 \<Longrightarrow> unat (x + 1) = unat x + 1" for x :: uint32
  by (simp add: unat_word_ariths)

lemma unat_less_1: "x \<noteq> 0 \<Longrightarrow> unat (x - 1) + 1 = unat x" for x :: uint32
  using unat_gt_0 [of x] by (simp add: unat_minus_one)

lemma ring_snoc:
  assumes "unat (j - i) + 1 < 2 ^ 32"
  shows "ring b i (j + 1) = ring b i j @ [in_at b j]"
proof -
  have "unat (j + 1 - i) = unat (j - i) + 1" using unat_succ [OF assms] by (simp add: algebra_simps)
  then show ?thesis by (simp add: ring_def One_nat_def)
qed

lemma ring_last:
  assumes "i \<noteq> j"
  shows "ring b i j = ring b i (j - 1) @ [in_at b (j - 1)]"
proof -
  have "unat (j - i - 1) + 1 = unat (j - i)" using unat_less_1 [of "j - i"] assms by simp
  then have "unat (j - 1 - i) + 1 < 2 ^ 32" using unsigned_less [of "j - i"] by (simp add: algebra_simps)
  from ring_snoc [OF this, of b] show ?thesis by simp
qed

lemma ring_first:
  assumes "i \<noteq> j"
  shows "ring b i j = in_at b i # ring b (i + 1) j"
proof -
  have n: "unat (j - i) = Suc (unat (j - (i + 1)))" using unat_less_1 [of "j - i"] assms by (simp add: algebra_simps)
  show ?thesis unfolding ring_def n
    by (simp add: upt_conv_Cons map_Suc_upt [symmetric] comp_def algebra_simps del: upt_Suc)
qed

lemma ring_append:
  assumes "unat (e - r) = unat (w - r) + unat (e - w)"
  shows "ring b r e = ring b r w @ ring b w e"
proof (rule nth_equalityI)
  show "length (ring b r e) = length (ring b r w @ ring b w e)" using assms by simp
next
  fix k assume "k < length (ring b r e)"
  then have k: "k < unat (w - r) + unat (e - w)" using assms by simp
  have "w + word_of_nat (k - unat (w - r)) = r + word_of_nat k" if "\<not> k < unat (w - r)"
    using that by (simp add: of_nat_diff not_less)
  then show "ring b r e ! k = (ring b r w @ ring b w e) ! k" using k assms by (auto simp: nth_append ring_nth add.commute)
qed

lemma ring_store:
  assumes "unat (e - i) < INPUT_BUF" "length (in_buf b) = INPUT_BUF"
  shows "ring (b\<lparr>in_buf := (in_buf b)[unat e mod INPUT_BUF := c]\<rparr>) i e = ring b i e"
proof -
  have e: "unat e mod INPUT_BUF = (unat i + unat (e - i)) mod INPUT_BUF"
    using unat_ring_mod [of i "unat (e - i)"] by simp
  have ne: "(unat i + k) mod INPUT_BUF \<noteq> (unat i + unat (e - i)) mod INPUT_BUF" if k: "k < unat (e - i)" for k
  proof
    assume "(unat i + k) mod INPUT_BUF = (unat i + unat (e - i)) mod INPUT_BUF"
    then have "INPUT_BUF dvd unat (e - i) - k"
      using k mod_eq_dvd_iff_nat [of "unat i + k" "unat i + unat (e - i)" INPUT_BUF] by simp
    then show False using k assms(1) dvd_imp_le [of INPUT_BUF "unat (e - i) - k"] by simp
  qed
  show ?thesis unfolding ring_def in_at_def
    by (rule map_cong) (simp_all add: unat_ring_mod e ne [symmetric])
qed

section \<open>A line editor on lists\<close>

text \<open>
  The specification of \<^verbatim>\<open>consoleintr\<close>: the state is the committed input and the line being edited, a step also
  tells what is echoed.
\<close>

definition kill_spec :: "byte list \<Rightarrow> byte list" where
  "kill_spec l = rev (dropWhile (\<lambda>c. c \<noteq> 10) (rev l))"

definition edit :: "int \<Rightarrow> byte list \<times> byte list \<Rightarrow> int list \<times> byte list \<times> byte list" where
  "edit c = (\<lambda>(q, l).
     if c = 16 then ([], q, l)
     else if c = 21 then (replicate (length l - length (kill_spec l)) BACKSPACE, q, kill_spec l)
     else if c = 8 \<or> c = 127 then (if l = [] then [] else [BACKSPACE], q, butlast l)
     else if c \<noteq> 0 \<and> length q + length l < INPUT_BUF then
       let c = (if c = 13 then 10 else c); l = l @ [word_of_int c] in
       if c = 10 \<or> c = 4 \<or> length q + length l = INPUT_BUF then ([c], q @ l, []) else ([c], q, l)
     else ([], q, l))"

text \<open>The routine on one input meets the specification.\<close>

definition edits_to :: "'a kern_st_scheme \<Rightarrow> int list \<times> byte list \<times> byte list \<Rightarrow> 'a kern_st_scheme \<Rightarrow> bool" where
  "edits_to s r t \<longleftrightarrow> inp_inv (input t) \<and> inp_abs (input t) = snd r \<and> cons_out t = cons_out s @ fst r"

lemma back_step:
  assumes "inp_inv b" "in_e b \<noteq> in_w b"
  shows "inp_inv (b\<lparr>in_e := in_e b - 1\<rparr>)" "inp_abs (b\<lparr>in_e := in_e b - 1\<rparr>) = (fst (inp_abs b), butlast (snd (inp_abs b)))"
    "snd (inp_abs b) = butlast (snd (inp_abs b)) @ [in_at b (in_e b - 1)]"
proof -
  have w: "unat (in_e b - in_w b - 1) + 1 = unat (in_e b - in_w b)" using unat_less_1 [of "in_e b - in_w b"] assms(2) by simp
  then have "in_e b \<noteq> in_r b" using assms(1) by (auto simp: inp_inv_def)
  then have r: "unat (in_e b - in_r b - 1) + 1 = unat (in_e b - in_r b)" using unat_less_1 [of "in_e b - in_r b"] by simp
  have eq: "in_e b - 1 - in_r b = in_e b - in_r b - 1" "in_e b - 1 - in_w b = in_e b - in_w b - 1" by simp_all
  show "inp_inv (b\<lparr>in_e := in_e b - 1\<rparr>)"
    using assms(1) r w by (auto simp: inp_inv_def eq simp del: diff_diff_eq)
  have f: "ring (b\<lparr>in_e := x\<rparr>) i j = ring b i j" for x i j by (simp add: ring_def in_at_def)
  have l: "ring b (in_w b) (in_e b) = ring b (in_w b) (in_e b - 1) @ [in_at b (in_e b - 1)]"
    using assms(2) by (intro ring_last) simp
  then show "inp_abs (b\<lparr>in_e := in_e b - 1\<rparr>) = (fst (inp_abs b), butlast (snd (inp_abs b)))"
    "snd (inp_abs b) = butlast (snd (inp_abs b)) @ [in_at b (in_e b - 1)]"
    by (simp_all add: inp_abs_def f)
qed

lemma kill_line_ok:
  "inp_inv (input s) \<Longrightarrow> inp_abs (input s) = (q, l) \<Longrightarrow>
   edits_to s (replicate (length l - length (kill_spec l)) BACKSPACE, q, kill_spec l) (kill_line s)"
proof (induction s arbitrary: l rule: kill_line.induct)
  case (1 s)
  let ?b = "input s" and ?u = "consputc BACKSPACE (upd_input (\<lambda>b. b\<lparr>in_e := in_e b - 1\<rparr>) s)"
  show ?case
  proof (cases "in_e ?b \<noteq> in_w ?b \<and> in_at ?b (in_e ?b - 1) \<noteq> 10")
    case True
    note B = back_step [OF 1(2)]
    have l: "l = butlast l @ [in_at ?b (in_e ?b - 1)]" using B(3) True 1(3) by simp
    have k: "kill_spec l = kill_spec (butlast l)" using True by (subst l) (simp add: kill_spec_def)
    have n: "length (kill_spec (butlast l)) \<le> length (butlast l)"
      unfolding kill_spec_def by (metis length_dropWhile_le length_rev)
    have u: "input ?u = ?b\<lparr>in_e := in_e ?b - 1\<rparr>" "cons_out ?u = cons_out s @ [BACKSPACE]"
      by (simp_all add: consputc_def upd_input_def)
    have "edits_to ?u (replicate (length (butlast l) - length (kill_spec (butlast l))) BACKSPACE, q, kill_spec (butlast l)) (kill_line ?u)"
      using True B(1,2) 1(3) u by (intro 1(1) [OF refl]) auto
    moreover have "length l - length (kill_spec l) = Suc (length (butlast l) - length (kill_spec (butlast l)))"
      using n k by (subst (1 2) l) simp
    ultimately show ?thesis using True u(2) k by (subst kill_line.simps) (simp add: edits_to_def Let_def)
  next
    case False
    have "kill_spec l = l"
    proof (cases "in_e ?b = in_w ?b")
      case True
      then have "l = []" using 1(3) ring_Nil_iff by (auto simp: inp_abs_def)
      then show ?thesis by (simp add: kill_spec_def)
    next
      case f: False
      then have "last l = 10" "l \<noteq> []" using back_step(3) [OF 1(2)] 1(3) False by (metis last_snoc snd_conv snoc_eq_iff_butlast)+
      then show ?thesis by (cases l rule: rev_cases) (simp_all add: kill_spec_def)
    qed
    moreover have "kill_line s = s" using False by (subst kill_line.simps) (auto simp: Let_def)
    ultimately show ?thesis using 1(2,3) by (simp add: edits_to_def)
  qed
qed

lemma store_step:
  fixes c :: byte
  assumes "inp_inv b" "unat (in_e b - in_r b) < INPUT_BUF"
  defines "b' \<equiv> b\<lparr>in_buf := (in_buf b)[unat (in_e b) mod INPUT_BUF := c], in_e := in_e b + 1\<rparr>"
  shows "inp_inv b'" "inp_abs b' = (fst (inp_abs b), snd (inp_abs b) @ [c])"
    "in_e b' = in_r b + word_of_nat INPUT_BUF \<longleftrightarrow> length (fst (inp_abs b)) + length (snd (inp_abs b)) + 1 = INPUT_BUF"
    "inp_inv (b'\<lparr>in_w := in_e b'\<rparr>)" "inp_abs (b'\<lparr>in_w := in_e b'\<rparr>) = (fst (inp_abs b) @ snd (inp_abs b) @ [c], [])"
proof -
  let ?r = "in_r b" and ?w = "in_w b" and ?e = "in_e b"
  have n: "unat (?e - ?r) = unat (?w - ?r) + unat (?e - ?w)" "length (in_buf b) = INPUT_BUF" using assms(1) by (auto simp: inp_inv_def)
  have le: "unat (?e - ?r) + 1 < 2 ^ 32" "unat (?e - ?w) + 1 < 2 ^ 32" "unat (?e - ?w) < INPUT_BUF" "unat (?w - ?r) < INPUT_BUF"
    using assms(2) n by (simp_all add: INPUT_BUF_def)
  have er: "unat (?e + 1 - ?r) = unat (?e - ?r) + 1" and ew: "unat (?e + 1 - ?w) = unat (?e - ?w) + 1"
    using unat_succ [OF le(1)] unat_succ [OF le(2)] by (simp_all add: algebra_simps)
  show i: "inp_inv b'" using assms(2) n er ew by (simp add: inp_inv_def b'_def)
  let ?m = "b\<lparr>in_buf := (in_buf b)[unat ?e mod INPUT_BUF := c]\<rparr>"
  have f: "ring b' i j = ring ?m i j" "ring (b'\<lparr>in_w := x\<rparr>) i j = ring ?m i j" for i j x by (simp_all add: ring_def in_at_def b'_def)
  have c: "in_at ?m ?e = c" using n(2) by (simp add: in_at_def INPUT_BUF_def)
  have re: "ring ?m ?r ?e = ring b ?r ?e" "ring ?m ?w ?e = ring b ?w ?e" using ring_store le(3) assms(2) n(2) by blast+
  then have rw: "ring ?m ?r ?w = ring b ?r ?w"
    using ring_append [OF n(1), of ?m] ring_append [OF n(1), of b] by simp
  have we: "ring ?m ?w (?e + 1) = ring b ?w ?e @ [c]" and re1: "ring ?m ?r (?e + 1) = ring b ?r ?e @ [c]"
    using ring_snoc [OF le(2), of ?m] ring_snoc [OF le(1), of ?m] re c by simp_all
  show "inp_abs b' = (fst (inp_abs b), snd (inp_abs b) @ [c])" using rw we by (simp add: inp_abs_def f) (simp add: b'_def)
  have "?e + 1 = ?r + word_of_nat INPUT_BUF \<longleftrightarrow> unat (?e + 1 - ?r) = unat (word_of_nat INPUT_BUF :: uint32)"
    by (metis add_diff_cancel_left' diff_add_cancel add.commute word_unat_eq_iff)
  then show "in_e b' = ?r + word_of_nat INPUT_BUF \<longleftrightarrow> length (fst (inp_abs b)) + length (snd (inp_abs b)) + 1 = INPUT_BUF"
    using er n(1) by (simp add: b'_def inp_abs_def INPUT_BUF_def)
  show "inp_inv (b'\<lparr>in_w := in_e b'\<rparr>)" using i by (simp add: inp_inv_def)
  show "inp_abs (b'\<lparr>in_w := in_e b'\<rparr>) = (fst (inp_abs b) @ snd (inp_abs b) @ [c], [])"
    using re1 ring_append [OF n(1), of b] by (simp add: inp_abs_def f ring_Nil_iff) (simp add: b'_def)
qed

lemma wakeup_input [simp]: "input (wakeup ch s) = input s" "cons_out (wakeup ch s) = cons_out s"
  by (simp_all add: wakeup_def wakeup1_def)

lemma upd_input_simps [simp]: "input (upd_input f s) = f (input s)" "cons_out (upd_input f s) = cons_out s"
  by (simp_all add: upd_input_def)

lemma consputc_simps [simp]: "input (consputc c s) = input s" "cons_out (consputc c s) = cons_out s @ [c]"
  by (simp_all add: consputc_def)

lemma edits_refl: "inp_inv (input s) \<Longrightarrow> edits_to s ([], inp_abs (input s)) s"
  by (simp add: edits_to_def)

lemma console_char_store:
  assumes inv: "inp_inv (input s)" and c: "c \<noteq> 16" "c \<noteq> 21" "c \<noteq> 8" "c \<noteq> 127" "c \<noteq> 0"
    and room: "unat (in_e (input s) - in_r (input s)) < INPUT_BUF"
  shows "edits_to s (edit c (inp_abs (input s))) (snd (console_char c (d, s)))"
proof -
  obtain q l where ql: "inp_abs (input s) = (q, l)" by force
  define c' where "c' = (if c = 13 then 10 else c)"
  define b' where "b' = (input s)\<lparr>in_buf := (in_buf (input s))[unat (in_e (input s)) mod INPUT_BUF := word_of_int c'], in_e := in_e (input s) + 1\<rparr>"
  have n: "length q + length l = unat (in_e (input s) - in_r (input s))" using inv ql by (auto simp: inp_abs_def inp_inv_def)
  note S = store_step [OF inv room, where c = "word_of_int c'", folded b'_def, unfolded ql fst_conv snd_conv]
  have e: "edit c (q, l) = (if c' = 10 \<or> c' = 4 \<or> length q + length l + 1 = INPUT_BUF then ([c'], q @ l @ [word_of_int c'], [])
      else ([c'], q, l @ [word_of_int c']))"
    using c room n by (simp add: edit_def Let_def c'_def)
  let ?u = "consputc c' (upd_input (\<lambda>_. b') s)"
  have t: "snd (console_char c (d, s)) = (if c' = 10 \<or> c' = 4 \<or> length q + length l + 1 = INPUT_BUF
      then wakeup ChInput (upd_input (\<lambda>b. b\<lparr>in_w := in_e b\<rparr>) ?u) else ?u)"
    using c room S(3) by (simp add: console_char_def Let_def c'_def b'_def upd_input_def consputc_def)
  show ?thesis unfolding ql e t using S by (simp add: edits_to_def)
qed

lemma console_char_ok:
  assumes inv: "inp_inv (input s)"
  shows "edits_to s (edit c (inp_abs (input s))) (snd (console_char c (d, s)))"
proof -
  obtain q l where ql: "inp_abs (input s) = (q, l)" by force
  have n: "length q + length l = unat (in_e (input s) - in_r (input s))" using inv ql by (auto simp: inp_abs_def inp_inv_def)
  have l: "l = [] \<longleftrightarrow> in_e (input s) = in_w (input s)" using ql ring_Nil_iff by (auto simp: inp_abs_def)
  consider "c = 16" | "c = 21" | "c = 8 \<or> c = 127" | "c \<notin> {16, 21, 8, 127}" by blast
  then show ?thesis
  proof cases
    case 1
    then show ?thesis using edits_refl [OF inv] ql by (simp add: console_char_def edit_def)
  next
    case 2
    then show ?thesis using kill_line_ok [OF inv ql] ql by (simp add: console_char_def edit_def)
  next
    case 3
    show ?thesis
    proof (cases "l = []")
      case True
      then show ?thesis using 3 l edits_refl [OF inv] ql by (auto simp: console_char_def edit_def)
    next
      case False
      then show ?thesis using 3 l back_step(1,2) [OF inv] ql by (auto simp: console_char_def edit_def edits_to_def)
    qed
  next
    case 4
    show ?thesis
    proof (cases "c \<noteq> 0 \<and> unat (in_e (input s) - in_r (input s)) < INPUT_BUF")
      case True
      then show ?thesis using 4 by (intro console_char_store [OF inv]) auto
    next
      case False
      then show ?thesis using 4 n edits_refl [OF inv] ql by (auto simp: console_char_def edit_def)
    qed
  qed
qed

fun edit_all :: "int list \<Rightarrow> byte list \<times> byte list \<Rightarrow> int list \<times> byte list \<times> byte list" where
  "edit_all [] x = ([], x)"
| "edit_all (c # cs) x = (fst (edit c x) @ fst (edit_all cs (snd (edit c x))), snd (edit_all cs (snd (edit c x))))"

lemma console_chars_ok: "inp_inv (input s) \<Longrightarrow> edits_to s (edit_all cs (inp_abs (input s))) (snd (fold console_char cs (d, s)))"
proof (induction cs arbitrary: s d)
  case Nil
  then show ?case by (simp add: edits_refl)
next
  case (Cons c cs)
  obtain d' u where u: "console_char c (d, s) = (d', u)" by force
  have "edits_to s (edit c (inp_abs (input s))) u" using console_char_ok [OF Cons.prems, of c d] u by simp
  then show ?case using Cons.IH [of u d'] u by (auto simp: edits_to_def)
qed

section \<open>Reading\<close>

fun read_spec :: "nat \<Rightarrow> nat \<Rightarrow> byte list \<Rightarrow> bool \<times> byte list \<times> nat \<times> byte list" where
  "read_spec target 0 q = (True, [], 0, q)"
| "read_spec target (Suc n) [] = (False, [], Suc n, [])"
| "read_spec target (Suc n) (c # q) =
     (if c = 4 then (True, [], Suc n, if Suc n < target then c # q else q)
      else if c = 10 then (True, [c], n, q)
      else case read_spec target n q of (d, bs, k, q') \<Rightarrow> (d, c # bs, k, q'))"

lemma get_step:
  assumes "inp_inv b" "in_r b \<noteq> in_w b" "inp_abs b = (q, l)"
  shows "inp_inv (b\<lparr>in_r := in_r b + 1\<rparr>)" "q = in_at b (in_r b) # tl q" "inp_abs (b\<lparr>in_r := in_r b + 1\<rparr>) = (tl q, l)"
proof -
  have w: "unat (in_w b - in_r b - 1) + 1 = unat (in_w b - in_r b)" using unat_less_1 [of "in_w b - in_r b"] assms(2) by simp
  then have "in_e b \<noteq> in_r b" using assms(1) by (auto simp: inp_inv_def)
  then have r: "unat (in_e b - in_r b - 1) + 1 = unat (in_e b - in_r b)" using unat_less_1 [of "in_e b - in_r b"] by simp
  have eq: "in_e b - (in_r b + 1) = in_e b - in_r b - 1" "in_w b - (in_r b + 1) = in_w b - in_r b - 1" by simp_all
  show "inp_inv (b\<lparr>in_r := in_r b + 1\<rparr>)" using assms(1) r w by (auto simp: inp_inv_def eq simp del: diff_diff_eq)
  have f: "ring (b\<lparr>in_r := x\<rparr>) i j = ring b i j" for x i j by (simp add: ring_def in_at_def)
  have q: "q = in_at b (in_r b) # ring b (in_r b + 1) (in_w b)" using assms(2,3) ring_first by (auto simp: inp_abs_def)
  then show "q = in_at b (in_r b) # tl q" by simp
  show "inp_abs (b\<lparr>in_r := in_r b + 1\<rparr>) = (tl q, l)" using q assms(3) by (simp add: inp_abs_def f)
qed

lemma consoleread_loop_ok:
  "inp_inv (input s) \<Longrightarrow> inp_abs (input s) = (q, l) \<Longrightarrow> consoleread_loop target n s = (d, bs, k, t) \<Longrightarrow>
   inp_inv (input t) \<and> read_spec target n q = (d, bs, k, fst (inp_abs (input t))) \<and> snd (inp_abs (input t)) = l"
proof (induction target n s arbitrary: q d bs k t rule: consoleread_loop.induct)
  case (2 target n s)
  show ?case
  proof (cases "in_r (input s) = in_w (input s)")
    case True
    then have "q = []" using 2(3) ring_Nil_iff by (auto simp: inp_abs_def)
    then show ?thesis using True 2(2-4) by auto
  next
    case False
    let ?c = "in_at (input s) (in_r (input s))" and ?s = "upd_input (\<lambda>b. b\<lparr>in_r := in_r b + 1\<rparr>) s"
    note G = get_step [OF 2(2) False 2(3)]
    obtain q' where q: "q = ?c # q'" using G(2) by metis
    have G': "inp_inv (input ?s)" "inp_abs (input ?s) = (q', l)" using G(1,3) arg_cong [OF q, of tl] by simp_all
    have bk: "input (upd_input (\<lambda>b. b\<lparr>in_r := in_r b - 1\<rparr>) ?s) = input s" by simp
    consider "?c = 4" | "?c = 10" | "?c \<noteq> 4" "?c \<noteq> 10" by blast
    then show ?thesis
    proof cases
      case 1
      then have "bs = [] \<and> d \<and> k = Suc n \<and> t = (if Suc n < target then upd_input (\<lambda>b. b\<lparr>in_r := in_r b - 1\<rparr>) ?s else ?s)"
        using False 2(4) by (auto simp: Let_def)
      then show ?thesis using 1 2(2,3) G' bk q by auto
    next
      case c: 2
      then have "bs = [?c] \<and> d \<and> k = n \<and> t = ?s" using False 2(4) by (simp add: Let_def)
      then show ?thesis using c G' q by simp
    next
      case 3
      obtain bs' where l: "consoleread_loop target n ?s = (d, bs', k, t)" "bs = ?c # bs'"
        using 3 False 2(4) by (auto simp: Let_def split: prod.splits)
      have "inp_inv (input t) \<and> read_spec target n q' = (d, bs', k, fst (inp_abs (input t))) \<and> snd (inp_abs (input t)) = l"
        by (rule 2(1) [OF refl False refl refl 3 G' l(1)])
      then show ?thesis using 3 l(2) q by simp
    qed
  qed
qed simp

section \<open>A typed line\<close>

text \<open>Characters without a special meaning.\<close>

definition plain :: "int \<Rightarrow> bool" where
  "plain c \<longleftrightarrow> 0 < c \<and> c < 256 \<and> c \<notin> {4, 8, 10, 13, 16, 21, 127}"

lemma edit_plain:
  "(\<forall>c \<in> set cs. plain c) \<Longrightarrow> length q + length l + length cs < INPUT_BUF \<Longrightarrow>
   edit_all cs (q, l) = (cs, q, l @ map word_of_int cs)"
proof (induction cs arbitrary: l)
  case (Cons c cs)
  then have "edit c (q, l) = ([c], q, l @ [word_of_int c])" by (auto simp: edit_def plain_def Let_def)
  then show ?case using Cons by simp
qed simp

lemma edit_all_append: "edit_all (cs @ ds) x =
   (fst (edit_all cs x) @ fst (edit_all ds (snd (edit_all cs x))), snd (edit_all ds (snd (edit_all cs x))))"
  by (induction cs arbitrary: x) simp_all

lemma plain_byte: "plain c \<Longrightarrow> (word_of_int c :: byte) \<noteq> 4 \<and> (word_of_int c :: byte) \<noteq> 10"
proof -
  assume c: "plain c"
  then have "uint (word_of_int c :: byte) = c" by (simp add: uint_word_of_int plain_def)
  moreover have "uint (4 :: byte) = 4" "uint (10 :: byte) = 10" by simp_all
  moreover have "c \<noteq> 4" "c \<noteq> 10" using c by (auto simp: plain_def)
  ultimately show ?thesis by metis
qed

lemma read_line:
  "(\<forall>b \<in> set l. b \<noteq> 4 \<and> b \<noteq> 10) \<Longrightarrow> length l < n \<Longrightarrow>
   read_spec target n (l @ 10 # q) = (True, l @ [10], n - length l - 1, q)"
proof (induction l arbitrary: n)
  case Nil
  then show ?case by (cases n) (simp_all add: One_nat_def)
next
  case (Cons b l)
  then show ?case by (cases n) (simp_all add: One_nat_def)
qed

lemma no_dump: "16 \<notin> set cs \<Longrightarrow> fst (fold console_char cs (d, s)) = d"
proof (induction cs arbitrary: s)
  case (Cons c cs)
  then show ?case by (cases "console_char c (d, s)") (auto simp: console_char_def Let_def split: if_splits)
qed simp

section \<open>The lock of the inode\<close>

lemma console_icache: "icache (snd (fold console_char cs (d, s))) = icache s"
proof (induction cs arbitrary: d s)
  case (Cons c cs)
  obtain e t where t: "console_char c (d, s) = (e, t)" by force
  have k: "icache (kill_line u) = icache u" for u :: "'a kern_st_scheme"
    by (induction u rule: kill_line.induct) (subst kill_line.simps, auto simp: upd_input_def consputc_def Let_def)
  have "icache t = icache s" using t k [of s] by (auto simp: console_char_def Let_def upd_input_def consputc_def wakeup_def wakeup1_def split: if_splits)
  then show ?case using Cons.IH [of e t] t by simp
qed simp

lemma consoleread_loop_icache: "icache (snd (snd (snd (consoleread_loop target n s)))) = icache s"
proof (induction target n s rule: consoleread_loop.induct)
  case (2 target n s)
  then show ?case by (auto simp: Let_def upd_input_def split: prod.splits)
qed simp

lemma iunlock_console:
  assumes "ip < length (icache s)" "i_valid (icache s ! ip)" "sl_locked (i_lock (icache s ! ip))" "i_ref (icache s ! ip) \<ge> 1"
  shows "\<exists>v. iunlock ip s = Ok v \<and> input v = input s \<and> length (icache v) = length (icache s) \<and>
    i_valid (icache v ! ip) \<and> \<not> sl_locked (i_lock (icache v ! ip)) \<and> i_ref (icache v ! ip) \<ge> 1"
  using assms by (simp add: iunlock_def sleeplock_defs upd_inode_def)

lemma ilock_console:
  assumes "ip < length (icache s)" "i_valid (icache s ! ip)" "\<not> sl_locked (i_lock (icache s ! ip))" "i_ref (icache s ! ip) \<ge> 1"
  shows "\<exists>v. ilock ip s = Ok v \<and> input v = input s \<and> sl_locked (i_lock (icache v ! ip))"
  using assms by (simp add: ilock_def sleeplock_defs upd_inode_def Let_def)

section \<open>Properties\<close>

text \<open>A console with nothing typed, whose indices are about to wrap around, and its inode, locked, in slot 0.\<close>

definition sample_tty :: kern_st where
  "sample_tty = (boot_kern (\<lambda>_. []) 0 empty_kmem)\<lparr>input := \<lparr>in_buf = replicate INPUT_BUF 0, in_r = -2, in_w = -2, in_e = -2\<rparr>,
     icache := (replicate NINODE zero_inode)[0 := zero_inode\<lparr>i_valid := True, i_ref := 1, i_lock := \<lparr>sl_locked = True, sl_pid = 1\<rparr>\<rparr>]\<rparr>"

lemma sample_tty_inode: "0 < length (icache sample_tty)" "i_valid (icache sample_tty ! 0)" "sl_locked (i_lock (icache sample_tty ! 0))"
  "i_ref (icache sample_tty ! 0) \<ge> 1"
  by (simp_all add: sample_tty_def NINODE_def)

lemma u32_signed: "- (2 ^ 31) \<le> x \<Longrightarrow> x < 2 ^ 31 \<Longrightarrow> u32 x = (if x < 0 then nat (x + 2 ^ 32) else nat x)"
proof -
  assume x: "- (2 ^ 31) \<le> x" "x < 2 ^ 31"
  have "x mod 2 ^ 32 = (x + 2 ^ 32) mod 2 ^ 32" by simp
  then have "x mod 2 ^ 32 = x + 2 ^ 32" if "x < 0" using x(1) that mod_pos_pos_trivial [of "x + 2 ^ 32" "2 ^ 32"] by simp
  then show ?thesis using x by (simp add: u32_def)
qed

lemma sample_tty_inv: "inp_inv (input sample_tty)" "inp_abs (input sample_tty) = ([], [])"
  by (simp_all add: sample_tty_def inp_inv_def inp_abs_def ring_def)

text \<open>
  C16. The console's input routine refines a line editor on lists. From a consistent ring, whatever characters arrive: the ring
  stays consistent, committed input and current line are those of the editor (with erasing, line kill, carriage
  return and a full buffer), and exactly the editor's echo is printed. This includes the wrap-around of the three 32-bit indices.
\<close>

theorem console_refines_line_editor:
  assumes "inp_inv (input s)"
  shows "inp_inv (input (snd (fold console_char cs (d, s)))) \<and>
    inp_abs (input (snd (fold console_char cs (d, s)))) = snd (edit_all cs (inp_abs (input s))) \<and>
    cons_out (snd (fold console_char cs (d, s))) = cons_out s @ fst (edit_all cs (inp_abs (input s)))"
  using console_chars_ok [OF assms, of cs d] by (simp add: edits_to_def)

theorem console_refines_line_editor_witness:
  "inp_inv (input sample_tty) \<and>
   inp_abs (input (snd (fold console_char [108, 120, 8, 115, 13] (False, sample_tty)))) = ([108, 115, 10], [])"
  using console_refines_line_editor [OF sample_tty_inv(1), of "[108, 120, 8, 115, 13]" False] sample_tty_inv
  by (simp add: edit_def INPUT_BUF_def)

text \<open>
  C17. A typed line arrives at the reader. When nothing is pending and a line of ordinary characters and a carriage return is
  typed, the line is echoed, and \<^verbatim>\<open>consoleread\<close>, called with the locked inode of the console and asking for more than the length of the
  line, returns its length and the line, ended by a newline. It leaves nothing behind in the ring and the inode locked as before.
\<close>

theorem typed_line_is_read:
  assumes "inp_inv (input s)" "inp_abs (input s) = ([], [])" "\<forall>c \<in> set cs. plain c" "length cs + 1 < INPUT_BUF" "length cs < n"
    and "ip < length (icache s)" "i_valid (icache s ! ip)" "sl_locked (i_lock (icache s ! ip))" "i_ref (icache s ! ip) \<ge> 1"
  shows "\<exists>t u. consoleintr (cs @ [13]) s = Ok t \<and> cons_out t = cons_out s @ cs @ [10] \<and>
    consoleread ip n t = Ok ((int (length cs) + 1, map word_of_int cs @ [10]), u) \<and> inp_abs (input u) = ([], []) \<and>
    sl_locked (i_lock (icache u ! ip))"
proof -
  obtain dm t where t: "fold console_char (cs @ [13]) (False, s) = (dm, t)" by force
  have "16 \<notin> set (cs @ [13])" using assms(3) by (auto simp: plain_def)
  then have "\<not> dm" using no_dump [of "cs @ [13]" False s] t by simp
  then have i: "consoleintr (cs @ [13]) s = Ok t" unfolding consoleintr_def t by simp
  have c: "icache t = icache s" using console_icache [of "cs @ [13]" False s] t by simp
  have "edit_all (cs @ [13]) ([], []) = (cs @ [10], map word_of_int cs @ [10], [])"
    using edit_plain [OF assms(3), of "[]" "[]"] assms(4) by (simp add: edit_all_append edit_def)
  then have e: "inp_inv (input t)" "inp_abs (input t) = (map word_of_int cs @ [10], [])" "cons_out t = cons_out s @ cs @ [10]"
    using console_chars_ok [OF assms(1), of "cs @ [13]" False] assms(2) t by (simp_all add: edits_to_def)
  obtain v where v: "iunlock ip t = Ok v" "input v = input t" "length (icache v) = length (icache s)"
      "i_valid (icache v ! ip)" "\<not> sl_locked (i_lock (icache v ! ip))" "i_ref (icache v ! ip) \<ge> 1"
    using iunlock_console [of ip t] assms(6-9) c by auto
  obtain d bs k u where u: "consoleread_loop n n v = (d, bs, k, u)" by (metis prod_cases4)
  have "read_spec n n (map word_of_int cs @ [10]) = (True, map word_of_int cs @ [10], n - length cs - 1, [])"
    using read_line [of "map word_of_int cs" n n "[]"] plain_byte assms(3,5) by simp
  then have r: "d" "bs = map word_of_int cs @ [10]" "k = n - length cs - 1" "inp_abs (input u) = ([], [])"
    using consoleread_loop_ok [of v "map word_of_int cs @ [10]" "[]" n n d bs k u] e u v(2) by (auto simp: prod_eq_iff)
  have "icache u = icache v" using consoleread_loop_icache [of n n v] u by simp
  then obtain w where w: "ilock ip u = Ok w" "input w = input u" "sl_locked (i_lock (icache w ! ip))"
    using ilock_console [of ip u] v assms(6) by auto
  have "consoleread ip n t = Ok ((int (n - k), bs), w)" using v(1) u r(1) w(1) by (simp add: consoleread_def)
  moreover have "int (n - k) = int (length cs) + 1" using r(3) assms(5) by simp
  ultimately show ?thesis using i e(3) r w by (intro exI [of _ t] exI [of _ w]) simp
qed

theorem typed_line_is_read_witness:
  "\<exists>t u. consoleintr [108, 115, 13] sample_tty = Ok t \<and> cons_out t = cons_out sample_tty @ [108, 115, 10] \<and>
    consoleread 0 100 t = Ok ((3, [108, 115, 10]), u) \<and> inp_abs (input u) = ([], [])"
  using typed_line_is_read [OF sample_tty_inv, of "[108, 115]" 100 0] sample_tty_inode by (auto simp: plain_def INPUT_BUF_def)

text \<open>
  C18. Printing and reading numbers are inverse. For every value of a signed \<^verbatim>\<open>int\<close> the kernel's \<^verbatim>\<open>printint\<close> prints, in decimal, a minus sign
  when it is negative, and then digits that denote its absolute value; the user library's \<^verbatim>\<open>atoi\<close> reads those back as
  the same number, for all but the 48 largest, where a sum it computes overflows.
\<close>

theorem printint_atoi_roundtrip:
  assumes "- (2 ^ 31) \<le> x" "x < 2 ^ 31"
  shows "\<exists>ds. printint (u32 x) 10 True = (if x < 0 then [45] else []) @ ds \<and> (\<forall>c \<in> set ds. isdig c) \<and> decimal ds = \<bar>x\<bar> \<and>
    (\<bar>x\<bar> < 2 ^ 31 - 48 \<longrightarrow> atoi (padded ds) = Some (Ok \<bar>x\<bar>))"
proof -
  let ?ds = "rev (printint_loop (nat \<bar>x\<bar>) 10)"
  have "u32 x = (if x < 0 then nat (x + 2 ^ 32) else nat x)" using assms by (rule u32_signed)
  moreover have d: "4294967296 - nat (x + 4294967296) = nat (- x)" if "x < 0"
    using that assms nat_diff_distrib [of "x + 4294967296" 4294967296] by simp
  ultimately have p: "printint (u32 x) 10 True = (if x < 0 then [45] else []) @ ?ds"
    using assms by (auto simp: printint_def Let_def d)
  have g: "\<forall>c \<in> set ?ds. isdig c" using printint_loop_digits by simp
  have v: "decimal ?ds = \<bar>x\<bar>" using printint_loop_value [of "nat \<bar>x\<bar>"] by (simp add: decimal_def)
  have "atoi_loop (padded ?ds) 0 0 = Some (Ok (decimal ?ds))" if "\<bar>x\<bar> < 2 ^ 31 - 48"
    unfolding decimal_def using g v that by (intro atoi_loop_ok) (auto simp: padded_def isdig_def decimal_def)
  then show ?thesis using p g v by (intro exI [of _ ?ds]) (simp add: atoi_def)
qed

theorem printint_atoi_roundtrip_witness:
  "\<exists>ds. printint (u32 (-12345)) 10 True = 45 # ds \<and> atoi (padded ds) = Some (Ok 12345)"
  using printint_atoi_roundtrip [of "-12345"] by auto

text \<open>
  The conversion buffer of \<^verbatim>\<open>printint\<close> is large enough: for any 32-bit argument and any base from 10 on, at most
  11 of its 16 characters are used, sign included.
\<close>

lemma printint_fits_buffer:
  assumes "x < 2 ^ 32" "10 \<le> base"
  shows "length (printint x base sg) \<le> 11"
proof -
  have "length (printint_loop y base) \<le> 10" if "y < 2 ^ 32" for y
  proof -
    have "(10 :: nat) ^ 10 \<le> base ^ 10" using assms(2) by (rule power_mono) simp
    then have "y < base ^ Suc 9" using that by simp
    from printint_loop_length [OF this] show ?thesis using assms(2) by simp
  qed
  from this [of x] this [of "2 ^ 32 - x"] show ?thesis using assms(1) by (auto simp: printint_def Let_def)
qed

text \<open>
  C19. The screen driver never panics and never stores outside the screen: from a cursor within the first 24 rows, every
  character, newline or backspace succeeds and leaves the cursor there. A character that does not reach the end of the last of these rows
  changes its own cell and, for the cursor, the next one, and no other.
\<close>

theorem cgaputc_stays_on_screen:
  assumes "length (crt g) = 25 * 80" "0 \<le> crt_pos g" "crt_pos g < 24 * 80"
  shows "(\<exists>h. cgaputc c g = Ok h \<and> length (crt h) = 25 * 80 \<and> 0 \<le> crt_pos h \<and> crt_pos h < 24 * 80) \<and>
    (c \<noteq> 10 \<and> c \<noteq> BACKSPACE \<and> crt_pos g + 1 < 24 * 80 \<longrightarrow>
     cgaputc c g = Ok \<lparr>crt = (crt g)[nat (crt_pos g) := nat (c mod 256) + 0x700, nat (crt_pos g + 1) := 0x720], crt_pos = crt_pos g + 1\<rparr>)"
proof -
  have "cga_ok g" using assms by (simp add: cga_ok_def)
  from cgaputc_ok [OF this, of c] cgaputc_shows [OF this, of c] show ?thesis unfolding cga_ok_def by blast
qed

theorem cgaputc_stays_on_screen_witness:
  "\<exists>h. cgaputc 10 \<lparr>crt = replicate 2000 0, crt_pos = 1919\<rparr> = Ok h \<and> length (crt h) = 25 * 80 \<and> 0 \<le> crt_pos h \<and> crt_pos h < 24 * 80"
  using cgaputc_stays_on_screen [of "\<lparr>crt = replicate 2000 0, crt_pos = 1919\<rparr>" 10] by simp

end
