(* ===== verification/Syscall.thy ===== *)
theory Syscall
  imports Proc
begin

text \<open>
  Access to user memory and to the arguments of a system call (\<^verbatim>\<open>syscall.c\<close>). The kernel
  reads and writes user addresses through the page table that is loaded in \<open>cr3\<close>; an
  access to a page that is not there faults in the kernel, where the trap handler panics. Values of type \<^verbatim>\<open>int\<close> are
  integers read from their 32-bit pattern.
\<close>

section \<open>User memory\<close>

definition s32 :: "nat \<Rightarrow> int" where
  "s32 v = (if v < 2 ^ 31 then int v else int v - 2 ^ 32)"

text \<open>The kernel address of a user byte, as the paging hardware translates it.\<close>

definition uaddr :: "bool \<Rightarrow> nat \<Rightarrow> 'a kern_st_scheme \<Rightarrow> nat res" where
  "uaddr wr va s =
     (let pte = fst (walkpgdir (P2V (cr3 s)) va False (km s)); e = ld32 (kmem (km s)) pte in
      if pte = 0 \<or> e AND PTE_P = 0 \<or> wr \<and> e AND PTE_W = 0 then Panic ''trap''
      else Ok (P2V (PTE_ADDR e) + va mod PGSIZE))"

fun uload :: "nat \<Rightarrow> nat \<Rightarrow> 'a kern_st_scheme \<Rightarrow> byte list res" where
  "uload va 0 s = Ok []"
| "uload va (Suc n) s =
     bnd (uaddr False va s) (\<lambda>a. bnd (uload (va + 1) n s) (\<lambda>bs. Ok (kmem (km s) a # bs)))"

fun ustore :: "nat \<Rightarrow> byte list \<Rightarrow> 'a kern_st_scheme \<Rightarrow> 'a kern_st_scheme res" where
  "ustore va [] s = Ok s"
| "ustore va (b # bs) s =
     bnd (uaddr True va s) (\<lambda>a. ustore (va + 1) bs (s\<lparr>km := (km s)\<lparr>kmem := (kmem (km s))(a := b)\<rparr>\<rparr>))"

definition le32 :: "nat \<Rightarrow> byte list" where
  "le32 v = put32 0 v [0, 0, 0, 0]"

section \<open>Arguments\<close>

definition fetchint :: "nat \<Rightarrow> 'a kern_st_scheme \<Rightarrow> int option res" where
  "fetchint addr s =
     bnd (myproc s) (\<lambda>i.
     let sz = p_sz (ptable s ! i) in
     if sz \<le> addr \<or> sz < (addr + 4) mod 2 ^ 32 then Ok None
     else bnd (uload addr 4 s) (\<lambda>bs. Ok (Some (s32 (get32 bs 0)))))"

text \<open>The string is returned by value: its bytes before the NUL.\<close>

function fetchstr_loop :: "nat \<Rightarrow> nat \<Rightarrow> 'a kern_st_scheme \<Rightarrow> byte list option res" where
  "fetchstr_loop p ep s =
     (if p < ep then
        bnd (uload p 1 s) (\<lambda>bs.
        if hd bs = 0 then Ok (Some [])
        else bnd (fetchstr_loop (p + 1) ep s) (\<lambda>r. Ok (map_option (Cons (hd bs)) r)))
      else Ok None)"
  by auto
termination
  by (relation "measure (\<lambda>(p, ep, s). ep - p)") auto

declare fetchstr_loop.simps [simp del]

definition fetchstr :: "nat \<Rightarrow> 'a kern_st_scheme \<Rightarrow> byte list option res" where
  "fetchstr addr s =
     bnd (myproc s) (\<lambda>i.
     let sz = p_sz (ptable s ! i) in
     if sz \<le> addr then Ok None else fetchstr_loop addr sz s)"

definition argint :: "nat \<Rightarrow> 'a kern_st_scheme \<Rightarrow> int option res" where
  "argint n s = bnd (myproc s) (\<lambda>i. fetchint ((tf_esp (p_tf (ptable s ! i)) + 4 + 4 * n) mod 2 ^ 32) s)"

definition argptr :: "nat \<Rightarrow> int \<Rightarrow> 'a kern_st_scheme \<Rightarrow> nat option res" where
  "argptr n sze s =
     bnd (myproc s) (\<lambda>i.
     bnd (argint n s) (\<lambda>a.
     case a of
       None \<Rightarrow> Ok None
     | Some a \<Rightarrow>
         let sz = p_sz (ptable s ! i) in
         if sze < 0 \<or> sz \<le> u32 a \<or> sz < u32 (int (u32 a) + sze) then Ok None
         else Ok (Some (u32 a))))"

definition argstr :: "nat \<Rightarrow> 'a kern_st_scheme \<Rightarrow> byte list option res" where
  "argstr n s = bnd (argint n s) (\<lambda>a. case a of None \<Rightarrow> Ok None | Some a \<Rightarrow> fetchstr (u32 a) s)"

section \<open>Bounds\<close>

text \<open>\<open>user_sized s\<close>: the current process has at most the memory below the kernel, as \<^verbatim>\<open>allocuvm\<close> ensures.\<close>

definition user_sized :: "'a kern_st_scheme \<Rightarrow> bool" where
  "user_sized s \<longleftrightarrow> (\<forall>i. cur s = Some i \<longrightarrow> p_sz (ptable s ! i) \<le> KERNBASE)"

lemma argptr_bounds:
  assumes "user_sized s" "cur s = Some i" "sze < 2 ^ 31" "argptr n sze s = Ok (Some p)"
  shows "0 \<le> sze" "int p + sze \<le> int (p_sz (ptable s ! i))"
proof -
  let ?sz = "p_sz (ptable s ! i)"
  have "ifOk (argptr n sze s) (\<lambda>r. \<forall>p. r = Some p \<longrightarrow> 0 \<le> sze \<and> p < ?sz \<and> u32 (int p + sze) \<le> ?sz)"
    unfolding argptr_def by (intro ifOk_intros) (use assms(2) in \<open>auto simp: myproc_Ok\<close>)
  from ifOkD [OF this assms(4)] have p: "0 \<le> sze" "p < ?sz" "u32 (int p + sze) \<le> ?sz" by auto
  have "?sz \<le> 2 ^ 31" using assms(1,2) by (simp add: user_sized_def KERNBASE_def)
  then have "u32 (int p + sze) = nat (int p + sze)" using p(1,2) assms(3) by (intro u32_id) auto
  then show "0 \<le> sze" "int p + sze \<le> int ?sz" using p by auto
qed

lemma uload_snoc: "uload va n s = Ok bs \<Longrightarrow> length bs = n"
  by (induction n arbitrary: va bs) (auto simp: bnd_eq_Ok)

lemma fetchstr_loop_ok:
  "fetchstr_loop p ep s = Ok (Some str) \<Longrightarrow>
   p + length str < ep \<and> 0 \<notin> set str \<and> uload p (length str + 1) s = Ok (str @ [0])"
proof (induction p ep s arbitrary: str rule: fetchstr_loop.induct)
  case (1 p ep s)
  have lt: "p < ep" using 1(2) by (subst (asm) fetchstr_loop.simps) (simp split: if_splits)
  then obtain bs where bs: "uload p 1 s = Ok bs"
    "(if hd bs = 0 then Ok (Some []) else bnd (fetchstr_loop (p + 1) ep s) (\<lambda>r. Ok (map_option (Cons (hd bs)) r))) = Ok (Some str)"
    using 1(2) by (subst (asm) fetchstr_loop.simps) (auto simp: bnd_eq_Ok)
  obtain b where b: "bs = [b]" using uload_snoc [OF bs(1)] by (auto simp: length_Suc_conv One_nat_def)
  show ?case
  proof (cases "b = 0")
    case True
    then show ?thesis using bs b lt by auto
  next
    case False
    then obtain str' where r: "fetchstr_loop (p + 1) ep s = Ok (Some str')" "str = b # str'"
      using bs(2) b by (auto simp: bnd_eq_Ok)
    have "p + 1 + length str' < ep \<and> 0 \<notin> set str' \<and> uload (p + 1) (length str' + 1) s = Ok (str' @ [0])"
      using 1(1) [OF lt bs(1) _ r(1)] False b by simp
    then show ?thesis using r(2) False bs(1) b by (auto simp: bnd_eq_Ok One_nat_def)
  qed
qed

lemma ifOk_fetchint:
  "ifOk (fetchint a s) (\<lambda>r. \<forall>v. r = Some v \<longrightarrow> (\<exists>i bs. cur s = Some i \<and> a < p_sz (ptable s ! i) \<and> (a + 4) mod 2 ^ 32 \<le> p_sz (ptable s ! i) \<and>
     uload a 4 s = Ok bs \<and> v = s32 (get32 bs 0)))"
  unfolding fetchint_def by (intro ifOk_intros) (auto simp: myproc_Ok)

section \<open>Properties\<close>

text \<open>
  A process of one page: the page directory at \<open>0x80108000\<close>, one page table behind it, and the user page at \<open>0x8010A000\<close>. The stack
  pointer is 16; the first argument is the pointer 100, the second one the number 9. The string at 100 is \<open>ab\<close>.
\<close>

definition sample_page :: mem where
  "sample_page = st32 (st32 (st32 (st32 (\<lambda>a. if a = 0x8010A064 then 0x61 else if a = 0x8010A065 then 0x62 else 0)
     0x80108000 0x109007) 0x80109000 0x10A007) 0x8010A014 100) 0x8010A018 9"

definition sample_user :: kern_st where
  "sample_user = (boot_kern (\<lambda>_. []) 0 (empty_kmem\<lparr>kmem := sample_page\<rparr>))\<lparr>cur := Some 0, cr3 := 0x108000,
     ptable := (replicate NPROC zero_proc)[0 := zero_proc\<lparr>p_state := RUNNING, p_pid := 1, p_sz := 4096, p_pgdir := 0x80108000,
       p_tf := zero_tf\<lparr>tf_esp := 16\<rparr>\<rparr>]\<rparr>"

lemma sample_user_simps:
  "cur sample_user = Some 0" "cr3 sample_user = 0x108000" "kmem (km sample_user) = sample_page"
  "ptable sample_user ! 0 = zero_proc\<lparr>p_state := RUNNING, p_pid := 1, p_sz := 4096, p_pgdir := 0x80108000, p_tf := zero_tf\<lparr>tf_esp := 16\<rparr>\<rparr>"
  "user_sized sample_user"
  by (simp_all add: sample_user_def boot_kern_def user_sized_def param_defs zero_proc_def)

lemma sample_page_words: "ld32 sample_page 0x80108000 = 0x109007" "ld32 sample_page 0x80109000 = 0x10A007"
  "ld32 sample_page 0x8010A014 = 100" "ld32 sample_page 0x8010A018 = 9"
  by (simp_all add: sample_page_def ld32_st32_other)

lemma sample_uaddr: "va < 4096 \<Longrightarrow> uaddr w va sample_user = Ok (0x8010A000 + va)"
proof -
  assume va: "va < 4096"
  have P: "P2V 0x108000 = 0x80108000" "P2V 0x109000 = 0x80109000" "P2V 0x10A000 = 0x8010A000" "PDX va = 0" "PTX va = 0"
    using va by (simp_all add: P2V_def PDX_def PTX_def param_defs u32_def)
  have A: "PTE_ADDR 0x109007 = 0x109000" "PTE_ADDR 0x10A007 = 0x10A000" by (simp_all add: PTE_ADDR_def)
  have B: "(0x109007 :: nat) AND PTE_P \<noteq> 0" "(0x10A007 :: nat) AND PTE_P \<noteq> 0" "(0x10A007 :: nat) AND PTE_W \<noteq> 0"
    by (simp_all add: PTE_P_def PTE_W_def)
  show ?thesis using va P A B sample_page_words(1,2)
    by (simp add: uaddr_def walkpgdir_def sample_user_simps Let_def PGSIZE_def)
qed

lemma sample_uload: "va + n \<le> 4096 \<Longrightarrow> uload va n sample_user = Ok (map (\<lambda>k. sample_page (0x8010A000 + va + k)) [0..<n])"
proof (induction n arbitrary: va)
  case (Suc n)
  then have "uload (va + 1) n sample_user = Ok (map (\<lambda>k. sample_page (0x8010A000 + (va + 1) + k)) [0..<n])"
    by (intro Suc.IH) simp
  then show ?case using Suc.prems sample_uaddr [of va False]
    by (simp add: sample_user_simps(3) upt_conv_Cons map_Suc_upt [symmetric] One_nat_def add.assoc del: upt_Suc)
qed simp

lemma sample_argint: "argint 0 sample_user = Ok (Some 100)" "argint 1 sample_user = Ok (Some 9)"
proof -
  have w: "get32 (map (\<lambda>k. sample_page (0x8010A000 + va + k)) [0..<4]) 0 = ld32 sample_page (0x8010A000 + va)" for va
    by (simp add: get32_def get16_def ld32_def upt_rec)
  show "argint 0 sample_user = Ok (Some 100)" "argint 1 sample_user = Ok (Some 9)"
    using w [of 20] w [of 24] sample_page_words(3,4)
    by (simp_all add: argint_def fetchint_def myproc_def sample_user_simps sample_uload zero_proc_def zero_tf_def s32_def)
qed

text \<open>
  C24. A pointer that \<^verbatim>\<open>argptr\<close> accepts lies, with all of the block it points to, in the memory of the calling process: no
  wrap-around of the 32-bit sum can hide a block that reaches into the kernel.
\<close>

theorem argptr_within_process:
  assumes "user_sized s" "cur s = Some i" "- (2 ^ 31) \<le> sze" "sze < 2 ^ 31" "argptr n sze s = Ok (Some p)"
  shows "0 \<le> sze \<and> int p + sze \<le> int (p_sz (ptable s ! i)) \<and> int p + sze \<le> int KERNBASE"
  using argptr_bounds [OF assms(1,2,4,5)] assms(1,2) by (auto simp: user_sized_def)

theorem argptr_within_process_witness:
  "argptr 0 8 sample_user = Ok (Some 100) \<and> (100 :: int) + 8 \<le> int KERNBASE"
proof -
  have "argptr 0 8 sample_user = Ok (Some 100)"
    using sample_argint(1) by (simp add: argptr_def myproc_def sample_user_simps u32_def zero_proc_def)
  then show ?thesis using argptr_within_process [OF sample_user_simps(5,1), of 8 0 100] by simp
qed

text \<open>
  C25. A string argument that is accepted is a NUL-terminated string that lies, NUL included, in the memory of the process; the kernel
  gets exactly its bytes.
\<close>

theorem argstr_within_process:
  assumes "argstr n s = Ok (Some str)"
  shows "\<exists>i a. cur s = Some i \<and> a + length str < p_sz (ptable s ! i) \<and> 0 \<notin> set str \<and> uload a (length str + 1) s = Ok (str @ [0])"
proof -
  have "ifOk (argstr n s) (\<lambda>r. \<forall>str. r = Some str \<longrightarrow> (\<exists>i a. cur s = Some i \<and> fetchstr_loop a (p_sz (ptable s ! i)) s = Ok (Some str)))"
    unfolding argstr_def fetchstr_def by (intro ifOk_intros) (auto simp: myproc_Ok ifOk_def bnd_eq_Ok Let_def split: if_splits)
  from ifOkD [OF this assms] show ?thesis using fetchstr_loop_ok by blast
qed

lemma sample_argstr: "argstr 0 sample_user = Ok (Some [0x61, 0x62])"
proof -
  have b: "sample_page 0x8010A064 = 0x61" "sample_page 0x8010A065 = 0x62" "sample_page 0x8010A066 = 0"
    by (simp_all add: sample_page_def st32_other)
  have l: "fetchstr_loop 102 4096 sample_user = Ok (Some [])" by (subst fetchstr_loop.simps) (simp add: sample_uload b upt_rec)
  have "fetchstr_loop 101 4096 sample_user = Ok (Some [0x62])" by (subst fetchstr_loop.simps) (simp add: sample_uload b l upt_rec)
  then have "fetchstr_loop 100 4096 sample_user = Ok (Some [0x61, 0x62])" by (subst fetchstr_loop.simps) (simp add: sample_uload b upt_rec)
  then show ?thesis using sample_argint(1) by (simp add: argstr_def fetchstr_def myproc_def sample_user_simps u32_def zero_proc_def)
qed

theorem argstr_within_process_witness:
  "\<exists>a. a + length [0x61 :: byte, 0x62] < p_sz (ptable sample_user ! 0) \<and> uload a 3 sample_user = Ok [0x61, 0x62, 0]"
  using argstr_within_process [OF sample_argstr] by (auto simp: sample_user_simps)

end
