(* ===== verification/Sysfile.thy ===== *)
theory Sysfile
  imports Syscall
begin

text \<open>
  The file-system calls (\<^verbatim>\<open>sysfile.c\<close>): argument checking, then the routines of theories
  \<open>Fs\<close> and \<open>File\<close>. Every error path of the code is here, with the transaction and the locks it
  gives back. A call returns its value and the state; \<open>Blocks\<close> when it waits inside. The device switch table
  is the argument \<open>dv\<close>. The local buffers for names start as zeros: \<^verbatim>\<open>skipelem\<close> ends every shorter
  name with a NUL, and nothing reads past it.
\<close>

section \<open>File descriptors\<close>

definition argfd :: "nat \<Rightarrow> 'a kern_st_scheme \<Rightarrow> (nat \<times> nat) option res" where
  "argfd n s =
     bnd (myproc s) (\<lambda>i.
     bnd (argint n s) (\<lambda>a.
     case a of
       None \<Rightarrow> Ok None
     | Some fd \<Rightarrow>
         if fd < 0 \<or> int NOFILE \<le> fd then Ok None
         else Ok (map_option (\<lambda>f. (nat fd, f)) (p_ofile (ptable s ! i) ! nat fd))))"

definition fdalloc :: "nat \<Rightarrow> 'a kern_st_scheme \<Rightarrow> (nat option \<times> 'a kern_st_scheme) res" where
  "fdalloc f s =
     bnd (myproc s) (\<lambda>i.
     case find (\<lambda>fd. p_ofile (ptable s ! i) ! fd = None) [0..<NOFILE] of
       Some fd \<Rightarrow> Ok (Some fd, upd_proc i (\<lambda>p. p\<lparr>p_ofile := (p_ofile p)[fd := Some f]\<rparr>) s)
     | None \<Rightarrow> Ok (None, s))"

definition fdclear :: "nat \<Rightarrow> 'a kern_st_scheme \<Rightarrow> 'a kern_st_scheme res" where
  "fdclear fd s = bnd (myproc s) (\<lambda>i. Ok (upd_proc i (\<lambda>p. p\<lparr>p_ofile := (p_ofile p)[fd := None]\<rparr>) s))"

definition sys_dup :: "'a kern_st_scheme \<Rightarrow> (int \<times> 'a kern_st_scheme) res" where
  "sys_dup s =
     bnd (argfd 0 s) (\<lambda>a.
     case a of
       None \<Rightarrow> Ok (-1, s)
     | Some (_, f) \<Rightarrow>
         bnd (fdalloc f s) (\<lambda>(r, s).
         case r of None \<Rightarrow> Ok (-1, s) | Some fd \<Rightarrow> bnd (filedup f s) (\<lambda>s. Ok (int fd, s))))"

definition sys_read :: "'a kern_st_scheme devsw \<Rightarrow> 'a kern_st_scheme \<Rightarrow> (int \<times> 'a kern_st_scheme) res" where
  "sys_read dv s =
     bnd (argfd 0 s) (\<lambda>a. case a of None \<Rightarrow> Ok (-1, s) | Some (_, f) \<Rightarrow>
     bnd (argint 2 s) (\<lambda>a. case a of None \<Rightarrow> Ok (-1, s) | Some n \<Rightarrow>
     bnd (argptr 1 n s) (\<lambda>a. case a of None \<Rightarrow> Ok (-1, s) | Some p \<Rightarrow>
     bnd (fileread dv f (nat n) s) (\<lambda>((r, ds), s).
     bnd (ustore p ds s) (\<lambda>s. Ok (r, s))))))"

definition sys_write :: "'a kern_st_scheme devsw \<Rightarrow> 'a kern_st_scheme \<Rightarrow> (int \<times> 'a kern_st_scheme) res" where
  "sys_write dv s =
     bnd (argfd 0 s) (\<lambda>a. case a of None \<Rightarrow> Ok (-1, s) | Some (_, f) \<Rightarrow>
     bnd (argint 2 s) (\<lambda>a. case a of None \<Rightarrow> Ok (-1, s) | Some n \<Rightarrow>
     bnd (argptr 1 n s) (\<lambda>a. case a of None \<Rightarrow> Ok (-1, s) | Some p \<Rightarrow>
     bnd (uload p (nat n) s) (\<lambda>ds. filewrite dv f ds s))))"

definition sys_close :: "'a kern_st_scheme \<Rightarrow> (int \<times> 'a kern_st_scheme) res" where
  "sys_close s =
     bnd (argfd 0 s) (\<lambda>a.
     case a of
       None \<Rightarrow> Ok (-1, s)
     | Some (fd, f) \<Rightarrow> bnd (fdclear fd s) (\<lambda>s. bnd (fileclose f s) (\<lambda>s. Ok (0, s))))"

text \<open>The layout of \<^verbatim>\<open>struct stat\<close>, 20 bytes with two gaps that keep what was there.\<close>

definition enc_stat :: "stat \<Rightarrow> byte list \<Rightarrow> byte list" where
  "enc_stat x d = put32 16 (st_size x) (puts16 12 (st_nlink x) (put32 8 (st_ino x) (put32 4 (st_dev x) (puts16 0 (st_type x) d))))"

definition sys_fstat :: "'a kern_st_scheme \<Rightarrow> (int \<times> 'a kern_st_scheme) res" where
  "sys_fstat s =
     bnd (argfd 0 s) (\<lambda>a. case a of None \<Rightarrow> Ok (-1, s) | Some (_, f) \<Rightarrow>
     bnd (argptr 1 20 s) (\<lambda>a. case a of None \<Rightarrow> Ok (-1, s) | Some p \<Rightarrow>
     bnd (filestat f s) (\<lambda>((r, x), s).
     case x of
       None \<Rightarrow> Ok (r, s)
     | Some x \<Rightarrow> bnd (uload p 20 s) (\<lambda>d. bnd (ustore p (enc_stat x d) s) (\<lambda>s. Ok (r, s))))))"

section \<open>Names\<close>

text \<open>Conversion of an \<^verbatim>\<open>int\<close> to a \<^verbatim>\<open>short\<close>.\<close>

definition s16 :: "int \<Rightarrow> int" where
  "s16 x = sint16 (nat (x mod 2 ^ 16))"

text \<open>Path lookup from the current directory of the calling process.\<close>

definition with_cwd :: "byte list \<Rightarrow> (nat \<Rightarrow> 'a kern_st_scheme \<Rightarrow> 'r res) \<Rightarrow> 'a kern_st_scheme \<Rightarrow> 'r res" where
  "with_cwd path f s =
     (if path \<noteq> [] \<and> hd path = 47 then f 0 s
      else bnd (myproc s) (\<lambda>i. case p_cwd (ptable s ! i) of Some c \<Rightarrow> f c s | None \<Rightarrow> Undef))"

definition p_namei :: "'a kern_st_scheme devsw \<Rightarrow> byte list \<Rightarrow> 'a kern_st_scheme \<Rightarrow> (nat option \<times> 'a kern_st_scheme) res" where
  "p_namei dv path s = with_cwd path (\<lambda>c. namei dv c path) s"

definition p_nameiparent :: "'a kern_st_scheme devsw \<Rightarrow> byte list \<Rightarrow> 'a kern_st_scheme
    \<Rightarrow> ((nat option \<times> byte list) \<times> 'a kern_st_scheme) res" where
  "p_nameiparent dv path s = with_cwd path (\<lambda>c. nameiparent dv c path (replicate DIRSIZ 0)) s"

text \<open>The pattern \<open>end_op(); return -1;\<close>, and the one that also gives back a locked inode.\<close>

definition fail_op :: "'a kern_st_scheme \<Rightarrow> (int \<times> 'a kern_st_scheme) res" where
  "fail_op s = bnd (end_op s) (\<lambda>s. Ok (-1, s))"

definition fail_put :: "nat \<Rightarrow> 'a kern_st_scheme \<Rightarrow> (int \<times> 'a kern_st_scheme) res" where
  "fail_put ip s = bnd (iunlockput ip s) fail_op"

text \<open>The label \<open>bad\<close> of \<^verbatim>\<open>sys_link\<close>: the link count is taken back.\<close>

definition link_bad :: "nat \<Rightarrow> 'a kern_st_scheme \<Rightarrow> (int \<times> 'a kern_st_scheme) res" where
  "link_bad ip s =
     bnd (ilock ip s) (\<lambda>s.
     bnd (iupdate ip (upd_inode ip (\<lambda>n. n\<lparr>i_nlink := s16 (i_nlink n - 1)\<rparr>) s)) (fail_put ip))"

definition link :: "'a kern_st_scheme devsw \<Rightarrow> byte list \<Rightarrow> byte list \<Rightarrow> 'a kern_st_scheme \<Rightarrow> (int \<times> 'a kern_st_scheme) res" where
  "link dv old new s =
     bnd (begin_op s) (\<lambda>s.
     bnd (p_namei dv old s) (\<lambda>(r, s).
     case r of
       None \<Rightarrow> fail_op s
     | Some ip \<Rightarrow>
         bnd (ilock ip s) (\<lambda>s.
         if i_type (icache s ! ip) = T_DIR then fail_put ip s
         else
           bnd (iupdate ip (upd_inode ip (\<lambda>n. n\<lparr>i_nlink := s16 (i_nlink n + 1)\<rparr>) s)) (\<lambda>s.
           bnd (iunlock ip s) (\<lambda>s.
           bnd (p_nameiparent dv new s) (\<lambda>((d, name), s).
           case d of
             None \<Rightarrow> link_bad ip s
           | Some dp \<Rightarrow>
               bnd (ilock dp s) (\<lambda>s.
               bnd (if i_dev (icache s ! dp) \<noteq> i_dev (icache s ! ip) then Ok (-1, s)
                    else dirlink dv dp (\<lambda>k. name ! k) (i_inum (icache s ! ip)) s) (\<lambda>(r, s).
               if r < 0 then bnd (iunlockput dp s) (link_bad ip)
               else bnd (iunlockput dp s) (\<lambda>s. bnd (iput ip s) (\<lambda>s. bnd (end_op s) (\<lambda>s. Ok (0, s))))))))))))"

definition sys_link :: "'a kern_st_scheme devsw \<Rightarrow> 'a kern_st_scheme \<Rightarrow> (int \<times> 'a kern_st_scheme) res" where
  "sys_link dv s =
     bnd (argstr 0 s) (\<lambda>a. case a of None \<Rightarrow> Ok (-1, s) | Some old \<Rightarrow>
     bnd (argstr 1 s) (\<lambda>a. case a of None \<Rightarrow> Ok (-1, s) | Some new \<Rightarrow> link dv old new s))"

fun isdirempty_loop :: "'a kern_st_scheme devsw \<Rightarrow> nat \<Rightarrow> nat list \<Rightarrow> 'a kern_st_scheme \<Rightarrow> (bool \<times> 'a kern_st_scheme) res" where
  "isdirempty_loop dv dp [] s = Ok (True, s)"
| "isdirempty_loop dv dp (off # offs) s =
     bnd (readi dv dp off DIRENT_SIZE s) (\<lambda>((r, de), s).
     if r \<noteq> int DIRENT_SIZE then Panic ''isdirempty: readi''
     else if de_inum de \<noteq> 0 then Ok (False, s)
     else isdirempty_loop dv dp offs s)"

definition isdirempty :: "'a kern_st_scheme devsw \<Rightarrow> nat \<Rightarrow> 'a kern_st_scheme \<Rightarrow> (bool \<times> 'a kern_st_scheme) res" where
  "isdirempty dv dp s = isdirempty_loop dv dp (drop 2 (dir_offsets (i_size (icache s ! dp)))) s"

definition unlink :: "'a kern_st_scheme devsw \<Rightarrow> byte list \<Rightarrow> 'a kern_st_scheme \<Rightarrow> (int \<times> 'a kern_st_scheme) res" where
  "unlink dv path s =
     bnd (begin_op s) (\<lambda>s.
     bnd (p_nameiparent dv path s) (\<lambda>((d, name), s).
     case d of
       None \<Rightarrow> fail_op s
     | Some dp \<Rightarrow>
         bnd (ilock dp s) (\<lambda>s.
         if namecmp (\<lambda>k. name ! k) (padded [46]) = 0 \<or> namecmp (\<lambda>k. name ! k) (padded [46, 46]) = 0 then fail_put dp s
         else
           bnd (dirlookup dv dp (\<lambda>k. name ! k) s) (\<lambda>(r, s).
           case r of
             None \<Rightarrow> fail_put dp s
           | Some (ip, off) \<Rightarrow>
               bnd (ilock ip s) (\<lambda>s.
               if i_nlink (icache s ! ip) < 1 then Panic ''unlink: nlink < 1''
               else
                 bnd (if i_type (icache s ! ip) = T_DIR then isdirempty dv ip s else Ok (True, s)) (\<lambda>(e, s).
                 if \<not> e then bnd (iunlockput ip s) (fail_put dp)
                 else
                   bnd (writei dv dp (replicate DIRENT_SIZE 0) off s) (\<lambda>(r, s).
                   if r \<noteq> int DIRENT_SIZE then Panic ''unlink: writei''
                   else
                     bnd (if i_type (icache s ! ip) = T_DIR
                          then iupdate dp (upd_inode dp (\<lambda>n. n\<lparr>i_nlink := s16 (i_nlink n - 1)\<rparr>) s) else Ok s) (\<lambda>s.
                     bnd (iunlockput dp s) (\<lambda>s.
                     bnd (iupdate ip (upd_inode ip (\<lambda>n. n\<lparr>i_nlink := s16 (i_nlink n - 1)\<rparr>) s)) (\<lambda>s.
                     bnd (iunlockput ip s) (\<lambda>s.
                     bnd (end_op s) (\<lambda>s. Ok (0, s)))))))))))))"

definition sys_unlink :: "'a kern_st_scheme devsw \<Rightarrow> 'a kern_st_scheme \<Rightarrow> (int \<times> 'a kern_st_scheme) res" where
  "sys_unlink dv s = bnd (argstr 0 s) (\<lambda>a. case a of None \<Rightarrow> Ok (-1, s) | Some path \<Rightarrow> unlink dv path s)"

text \<open>The new inode of \<^verbatim>\<open>create\<close>, its dot entries and its entry in the parent.\<close>

definition create_new :: "'a kern_st_scheme devsw \<Rightarrow> nat \<Rightarrow> byte list \<Rightarrow> int \<Rightarrow> int \<Rightarrow> int \<Rightarrow> 'a kern_st_scheme
    \<Rightarrow> (nat option \<times> 'a kern_st_scheme) res" where
  "create_new dv dp name type major minor s =
     bnd (ialloc (i_dev (icache s ! dp)) type s) (\<lambda>(ip, s).
     bnd (ilock ip s) (\<lambda>s.
     bnd (iupdate ip (upd_inode ip (\<lambda>n. n\<lparr>i_major := major, i_minor := minor, i_nlink := 1\<rparr>) s)) (\<lambda>s.
     bnd (if type = T_DIR then
            bnd (iupdate dp (upd_inode dp (\<lambda>n. n\<lparr>i_nlink := s16 (i_nlink n + 1)\<rparr>) s)) (\<lambda>s.
            bnd (dirlink dv ip (padded [46]) (i_inum (icache s ! ip)) s) (\<lambda>(r, s).
            if r < 0 then Panic ''create dots''
            else
              bnd (dirlink dv ip (padded [46, 46]) (i_inum (icache s ! dp)) s) (\<lambda>(r, s).
              if r < 0 then Panic ''create dots'' else Ok s)))
          else Ok s) (\<lambda>s.
     bnd (dirlink dv dp (\<lambda>k. name ! k) (i_inum (icache s ! ip)) s) (\<lambda>(r, s).
     if r < 0 then Panic ''create: dirlink''
     else bnd (iunlockput dp s) (\<lambda>s. Ok (Some ip, s)))))))"

definition create :: "'a kern_st_scheme devsw \<Rightarrow> byte list \<Rightarrow> int \<Rightarrow> int \<Rightarrow> int \<Rightarrow> 'a kern_st_scheme
    \<Rightarrow> (nat option \<times> 'a kern_st_scheme) res" where
  "create dv path type major minor s =
     bnd (p_nameiparent dv path s) (\<lambda>((d, name), s).
     case d of
       None \<Rightarrow> Ok (None, s)
     | Some dp \<Rightarrow>
         bnd (ilock dp s) (\<lambda>s.
         bnd (dirlookup dv dp (\<lambda>k. name ! k) s) (\<lambda>(r, s).
         case r of
           Some (ip, off) \<Rightarrow>
             bnd (iunlockput dp s) (\<lambda>s.
             bnd (ilock ip s) (\<lambda>s.
             if type = T_FILE \<and> i_type (icache s ! ip) = T_FILE then Ok (Some ip, s)
             else bnd (iunlockput ip s) (\<lambda>s. Ok (None, s))))
         | None \<Rightarrow> create_new dv dp name type major minor s)))"

definition O_RDONLY :: int where "O_RDONLY = 0"
definition O_WRONLY :: int where "O_WRONLY = 1"
definition O_RDWR :: int where "O_RDWR = 2"
definition O_CREATE :: int where "O_CREATE = 0x200"

text \<open>A descriptor for the locked inode.\<close>

definition open_inode :: "nat \<Rightarrow> int \<Rightarrow> 'a kern_st_scheme \<Rightarrow> (int \<times> 'a kern_st_scheme) res" where
  "open_inode ip omode s =
     (case filealloc s of
        (None, s) \<Rightarrow> fail_put ip s
      | (Some f, s) \<Rightarrow>
          bnd (fdalloc f s) (\<lambda>(r, s).
          case r of
            None \<Rightarrow> bnd (fileclose f s) (fail_put ip)
          | Some fd \<Rightarrow>
              bnd (iunlock ip s) (\<lambda>s.
              bnd (end_op s) (\<lambda>s.
              Ok (int fd, upd_file f (\<lambda>x. x\<lparr>f_type := FD_INODE, f_ip := ip, f_off := 0,
                    f_readable := (omode AND O_WRONLY = 0),
                    f_writable := (omode AND O_WRONLY \<noteq> 0 \<or> omode AND O_RDWR \<noteq> 0)\<rparr>) s)))))"

definition open_path :: "'a kern_st_scheme devsw \<Rightarrow> byte list \<Rightarrow> int \<Rightarrow> 'a kern_st_scheme \<Rightarrow> (int \<times> 'a kern_st_scheme) res" where
  "open_path dv path omode s =
     bnd (begin_op s) (\<lambda>s.
     if omode AND O_CREATE \<noteq> 0 then
       bnd (create dv path T_FILE 0 0 s) (\<lambda>(r, s). case r of None \<Rightarrow> fail_op s | Some ip \<Rightarrow> open_inode ip omode s)
     else
       bnd (p_namei dv path s) (\<lambda>(r, s).
       case r of
         None \<Rightarrow> fail_op s
       | Some ip \<Rightarrow>
           bnd (ilock ip s) (\<lambda>s.
           if i_type (icache s ! ip) = T_DIR \<and> omode \<noteq> O_RDONLY then fail_put ip s
           else open_inode ip omode s)))"

definition sys_open :: "'a kern_st_scheme devsw \<Rightarrow> 'a kern_st_scheme \<Rightarrow> (int \<times> 'a kern_st_scheme) res" where
  "sys_open dv s =
     bnd (argstr 0 s) (\<lambda>a. case a of None \<Rightarrow> Ok (-1, s) | Some path \<Rightarrow>
     bnd (argint 1 s) (\<lambda>a. case a of None \<Rightarrow> Ok (-1, s) | Some omode \<Rightarrow> open_path dv path omode s))"

definition sys_mkdir :: "'a kern_st_scheme devsw \<Rightarrow> 'a kern_st_scheme \<Rightarrow> (int \<times> 'a kern_st_scheme) res" where
  "sys_mkdir dv s =
     bnd (begin_op s) (\<lambda>s.
     bnd (argstr 0 s) (\<lambda>a. case a of None \<Rightarrow> fail_op s | Some path \<Rightarrow>
     bnd (create dv path T_DIR 0 0 s) (\<lambda>(r, s).
     case r of
       None \<Rightarrow> fail_op s
     | Some ip \<Rightarrow> bnd (iunlockput ip s) (\<lambda>s. bnd (end_op s) (\<lambda>s. Ok (0, s))))))"

definition sys_mknod :: "'a kern_st_scheme devsw \<Rightarrow> 'a kern_st_scheme \<Rightarrow> (int \<times> 'a kern_st_scheme) res" where
  "sys_mknod dv s =
     bnd (begin_op s) (\<lambda>s.
     bnd (argstr 0 s) (\<lambda>a. case a of None \<Rightarrow> fail_op s | Some path \<Rightarrow>
     bnd (argint 1 s) (\<lambda>a. case a of None \<Rightarrow> fail_op s | Some major \<Rightarrow>
     bnd (argint 2 s) (\<lambda>a. case a of None \<Rightarrow> fail_op s | Some minor \<Rightarrow>
     bnd (create dv path T_DEV (s16 major) (s16 minor) s) (\<lambda>(r, s).
     case r of
       None \<Rightarrow> fail_op s
     | Some ip \<Rightarrow> bnd (iunlockput ip s) (\<lambda>s. bnd (end_op s) (\<lambda>s. Ok (0, s))))))))"

definition sys_chdir :: "'a kern_st_scheme devsw \<Rightarrow> 'a kern_st_scheme \<Rightarrow> (int \<times> 'a kern_st_scheme) res" where
  "sys_chdir dv s =
     bnd (myproc s) (\<lambda>i.
     bnd (begin_op s) (\<lambda>s.
     bnd (argstr 0 s) (\<lambda>a. case a of None \<Rightarrow> fail_op s | Some path \<Rightarrow>
     bnd (p_namei dv path s) (\<lambda>(r, s).
     case r of
       None \<Rightarrow> fail_op s
     | Some ip \<Rightarrow>
         bnd (ilock ip s) (\<lambda>s.
         if i_type (icache s ! ip) \<noteq> T_DIR then fail_put ip s
         else
           bnd (iunlock ip s) (\<lambda>s.
           case p_cwd (ptable s ! i) of
             None \<Rightarrow> Undef
           | Some c \<Rightarrow>
               bnd (iput c s) (\<lambda>s.
               bnd (end_op s) (\<lambda>s.
               Ok (0, upd_proc i (\<lambda>p. p\<lparr>p_cwd := Some ip\<rparr>) s)))))))))"

definition sys_pipe :: "'a kern_st_scheme \<Rightarrow> (int \<times> 'a kern_st_scheme) res" where
  "sys_pipe s =
     bnd (argptr 0 8 s) (\<lambda>a. case a of None \<Rightarrow> Ok (-1, s) | Some fd \<Rightarrow>
     bnd (pipealloc s) (\<lambda>(r, s).
     case r of
       None \<Rightarrow> Ok (-1, s)
     | Some (rfile, wfile) \<Rightarrow>
         bnd (fdalloc rfile s) (\<lambda>(r0, s).
         case r0 of
           None \<Rightarrow> bnd (fileclose rfile s) (\<lambda>s. bnd (fileclose wfile s) (\<lambda>s. Ok (-1, s)))
         | Some fd0 \<Rightarrow>
             bnd (fdalloc wfile s) (\<lambda>(r1, s).
             case r1 of
               None \<Rightarrow> bnd (fdclear fd0 s) (\<lambda>s. bnd (fileclose rfile s) (\<lambda>s. bnd (fileclose wfile s) (\<lambda>s. Ok (-1, s))))
             | Some fd1 \<Rightarrow> bnd (ustore fd (le32 fd0 @ le32 fd1) s) (\<lambda>s. Ok (0, s))))))"

end
