(* ===== verification/Exec.thy ===== *)
theory Exec
  imports Sysfile Console
begin

text \<open>
  Loading a program (\<^verbatim>\<open>exec.c\<close>, and \<^verbatim>\<open>loaduvm\<close> of \<^verbatim>\<open>vm.c\<close>). The structures of \<^verbatim>\<open>elf.h\<close> are read from
  their bytes; the new image is built in a page table of its own and the process is switched to it only at
  the end, so that every failure before leaves the process as it was.
\<close>

section \<open>ELF files\<close>

definition ELF_MAGIC :: nat where "ELF_MAGIC = 0x464C457F"
definition ELF_PROG_LOAD :: nat where "ELF_PROG_LOAD = 1"
definition ELFHDR_SIZE :: nat where "ELFHDR_SIZE = 52"
definition PROGHDR_SIZE :: nat where "PROGHDR_SIZE = 32"

record elfhdr =
  e_magic :: nat
  e_entry :: nat
  e_phoff :: nat
  e_phnum :: nat

definition dec_elfhdr :: "byte list \<Rightarrow> elfhdr" where
  "dec_elfhdr d = \<lparr>e_magic = get32 d 0, e_entry = get32 d 24, e_phoff = get32 d 28, e_phnum = get16 d 44\<rparr>"

record proghdr =
  ph_type :: nat
  ph_off :: nat
  ph_vaddr :: nat
  ph_filesz :: nat
  ph_memsz :: nat

definition dec_proghdr :: "byte list \<Rightarrow> proghdr" where
  "dec_proghdr d = \<lparr>ph_type = get32 d 0, ph_off = get32 d 4, ph_vaddr = get32 d 8, ph_filesz = get32 d 16, ph_memsz = get32 d 20\<rparr>"

section \<open>Loading segments\<close>

text \<open>
  The loop counter \<open>i\<close> is a multiple of the page size below \<open>sz\<close>. Were it to wrap around at the top of the
  address space the loop would start again; that is \<open>Undef\<close> here. Segments end below \<^verbatim>\<open>KERNBASE\<close>.
\<close>

function loaduvm_loop :: "'a kern_st_scheme devsw \<Rightarrow> nat \<Rightarrow> nat \<Rightarrow> nat \<Rightarrow> nat \<Rightarrow> nat \<Rightarrow> nat \<Rightarrow> 'a kern_st_scheme
    \<Rightarrow> (int \<times> 'a kern_st_scheme) res" where
  "loaduvm_loop dv pgdir addr ip offset i sz s =
     (if i < sz then
        let pte = fst (walkpgdir pgdir ((addr + i) mod 2 ^ 32) False (km s)) in
        if pte = 0 then Panic ''loaduvm: address should exist''
        else
          let pa = PTE_ADDR (ld32 (kmem (km s)) pte);
              n = (if sz - i < PGSIZE then sz - i else PGSIZE) in
          bnd (readi dv ip ((offset + i) mod 2 ^ 32) n s) (\<lambda>((r, ds), s).
          let s = s\<lparr>km := (km s)\<lparr>kmem := store (kmem (km s)) (P2V pa) ds\<rparr>\<rparr> in
          if r \<noteq> int n then Ok (-1, s)
          else if 2 ^ 32 \<le> i + PGSIZE then Undef
          else loaduvm_loop dv pgdir addr ip offset (i + PGSIZE) sz s)
      else Ok (0, s))"
  by auto
termination
  by (relation "measure (\<lambda>(dv, pgdir, addr, ip, offset, i, sz, s). sz - i)") (auto simp: param_defs)

declare loaduvm_loop.simps [simp del]

definition loaduvm :: "'a kern_st_scheme devsw \<Rightarrow> nat \<Rightarrow> nat \<Rightarrow> nat \<Rightarrow> nat \<Rightarrow> nat \<Rightarrow> 'a kern_st_scheme
    \<Rightarrow> (int \<times> 'a kern_st_scheme) res" where
  "loaduvm dv pgdir addr ip offset sz s =
     (if addr mod PGSIZE \<noteq> 0 then Panic ''loaduvm: addr must be page aligned''
      else loaduvm_loop dv pgdir addr ip offset 0 sz s)"

text \<open>The loop over the program headers; \<open>None\<close> is the jump to \<open>bad\<close>.\<close>

fun exec_load :: "'a kern_st_scheme devsw \<Rightarrow> nat \<Rightarrow> nat \<Rightarrow> nat \<Rightarrow> nat \<Rightarrow> nat \<Rightarrow> 'a kern_st_scheme
    \<Rightarrow> (nat option \<times> 'a kern_st_scheme) res" where
  "exec_load dv pgdir ip off 0 sz s = Ok (Some sz, s)"
| "exec_load dv pgdir ip off (Suc k) sz s =
     bnd (readi dv ip off PROGHDR_SIZE s) (\<lambda>((r, d), s).
     let ph = dec_proghdr d; off' = (off + PROGHDR_SIZE) mod 2 ^ 32 in
     if r \<noteq> int PROGHDR_SIZE then Ok (None, s)
     else if ph_type ph \<noteq> ELF_PROG_LOAD then exec_load dv pgdir ip off' k sz s
     else if ph_memsz ph < ph_filesz ph then Ok (None, s)
     else if (ph_vaddr ph + ph_memsz ph) mod 2 ^ 32 < ph_vaddr ph then Ok (None, s)
     else
       bnd (in_km (allocuvm pgdir sz ((ph_vaddr ph + ph_memsz ph) mod 2 ^ 32)) s) (\<lambda>(sz, s).
       if sz = 0 then Ok (None, s)
       else if ph_vaddr ph mod PGSIZE \<noteq> 0 then Ok (None, s)
       else
         bnd (loaduvm dv pgdir (ph_vaddr ph) ip (ph_off ph) (ph_filesz ph) s) (\<lambda>(r, s).
         if r < 0 then Ok (None, s) else exec_load dv pgdir ip off' k sz s)))"

section \<open>The stack\<close>

text \<open>Argument strings, each with its NUL, word-aligned downwards from \<open>sp\<close>; the addresses are collected in order.\<close>

fun exec_args :: "nat \<Rightarrow> byte list list \<Rightarrow> nat \<Rightarrow> nat list \<Rightarrow> 'a kern_st_scheme
    \<Rightarrow> ((nat \<times> nat list) option \<times> 'a kern_st_scheme) res" where
  "exec_args pgdir [] sp us s = Ok (Some (sp, us), s)"
| "exec_args pgdir (a # as) sp us s =
     (if MAXARG \<le> length us then Ok (None, s)
      else
        let sp = u32 (int sp - int (length a + 1)) div 4 * 4 in
        bnd (in_km (copyout pgdir sp (a @ [0])) s) (\<lambda>(r, s).
        if r < 0 then Ok (None, s) else exec_args pgdir as sp (us @ [sp]) s))"

definition exec_ustack :: "nat \<Rightarrow> nat list \<Rightarrow> byte list" where
  "exec_ustack sp us = concat (map le32 ([0xffffffff, length us, u32 (int sp - (int (length us) + 1) * 4)] @ us @ [0]))"

fun last_elem :: "byte list \<Rightarrow> byte list \<Rightarrow> byte list" where
  "last_elem [] l = l"
| "last_elem (c # cs) l = last_elem cs (if c = 47 then cs else l)"

section \<open>exec\<close>

text \<open>The label \<open>bad\<close>.\<close>

definition exec_bad :: "nat \<Rightarrow> nat option \<Rightarrow> 'a kern_st_scheme \<Rightarrow> (int \<times> 'a kern_st_scheme) res" where
  "exec_bad pgdir ipo s =
     bnd (if pgdir \<noteq> 0 then km_do (freevm pgdir) s else Ok s) (\<lambda>s.
     case ipo of
       None \<Rightarrow> Ok (-1, s)
     | Some ip \<Rightarrow> bnd (iunlockput ip s) (\<lambda>s. bnd (end_op s) (\<lambda>s. Ok (-1, s))))"

text \<open>The commit to the new image.\<close>

definition exec_commit :: "nat \<Rightarrow> byte list \<Rightarrow> nat \<Rightarrow> nat \<Rightarrow> nat \<Rightarrow> nat \<Rightarrow> 'a kern_st_scheme \<Rightarrow> (int \<times> 'a kern_st_scheme) res" where
  "exec_commit i path pgdir sz ent sp s =
     (let oldpgdir = p_pgdir (ptable s ! i);
          s = upd_proc i (\<lambda>p. p\<lparr>p_name := set_name (last_elem path path) (p_name p), p_pgdir := pgdir, p_sz := sz,
                p_tf := (p_tf p)\<lparr>tf_eip := ent, tf_esp := sp\<rparr>, p_priority := 2\<rparr>) s in
      bnd (switchuvm (Some i) s) (\<lambda>s.
      bnd (km_do (freevm oldpgdir) s) (\<lambda>s. Ok (0, s))))"

text \<open>From the loaded segments on: the guard page, the stack and the commit.\<close>

definition exec_stack :: "nat \<Rightarrow> byte list \<Rightarrow> byte list list \<Rightarrow> nat \<Rightarrow> nat \<Rightarrow> nat \<Rightarrow> 'a kern_st_scheme \<Rightarrow> (int \<times> 'a kern_st_scheme) res" where
  "exec_stack i path argv pgdir sz ent s =
     (let sz = PGROUNDUP sz in
      bnd (in_km (allocuvm pgdir sz (u32 (int sz + 2 * int PGSIZE))) s) (\<lambda>(sz, s).
      if sz = 0 then exec_bad pgdir None s
      else
        bnd (km_do (clearpteu pgdir (u32 (int sz - 2 * int PGSIZE))) s) (\<lambda>s.
        bnd (exec_args pgdir argv sz [] s) (\<lambda>(r, s).
        case r of
          None \<Rightarrow> exec_bad pgdir None s
        | Some (sp, us) \<Rightarrow>
            let sp' = u32 (int sp - (3 + int (length us) + 1) * 4) in
            bnd (in_km (copyout pgdir sp' (exec_ustack sp us)) s) (\<lambda>(r, s).
            if r < 0 then exec_bad pgdir None s
            else exec_commit i path pgdir sz ent sp' s)))))"

definition exec :: "'a kern_st_scheme devsw \<Rightarrow> byte list \<Rightarrow> byte list list \<Rightarrow> 'a kern_st_scheme \<Rightarrow> (int \<times> 'a kern_st_scheme) res" where
  "exec dv path argv s =
     bnd (myproc s) (\<lambda>i.
     bnd (begin_op s) (\<lambda>s.
     bnd (p_namei dv path s) (\<lambda>(r, s).
     case r of
       None \<Rightarrow> bnd (end_op s) (\<lambda>s. bnd (cprintf (Some (ascii ''exec: fail'' @ [10])) [] s) (\<lambda>s. Ok (-1, s)))
     | Some ip \<Rightarrow>
         bnd (ilock ip s) (\<lambda>s.
         bnd (readi dv ip 0 ELFHDR_SIZE s) (\<lambda>((r, d), s).
         let elf = dec_elfhdr d in
         if r \<noteq> int ELFHDR_SIZE then exec_bad 0 (Some ip) s
         else if e_magic elf \<noteq> ELF_MAGIC then exec_bad 0 (Some ip) s
         else
           bnd (in_km setupkvm s) (\<lambda>(pgdir, s).
           if pgdir = 0 then exec_bad 0 (Some ip) s
           else
             bnd (exec_load dv pgdir ip (e_phoff elf) (e_phnum elf) 0 s) (\<lambda>(r, s).
             case r of
               None \<Rightarrow> exec_bad pgdir (Some ip) s
             | Some sz \<Rightarrow>
                 bnd (iunlockput ip s) (\<lambda>s.
                 bnd (end_op s) (\<lambda>s.
                 exec_stack i path argv pgdir sz (e_entry elf) s)))))))))"

text \<open>The pointers of \<^verbatim>\<open>argv\<close>, at most \<^verbatim>\<open>MAXARG\<close> with the terminating null.\<close>

fun sys_exec_args :: "nat \<Rightarrow> nat \<Rightarrow> 'a kern_st_scheme \<Rightarrow> byte list list option res" where
  "sys_exec_args uargv 0 s = Ok None"
| "sys_exec_args uargv (Suc k) s =
     bnd (fetchint uargv s) (\<lambda>a.
     case a of
       None \<Rightarrow> Ok None
     | Some uarg \<Rightarrow>
         if uarg = 0 then Ok (Some [])
         else
           bnd (fetchstr (u32 uarg) s) (\<lambda>r.
           case r of
             None \<Rightarrow> Ok None
           | Some x \<Rightarrow> bnd (sys_exec_args ((uargv + 4) mod 2 ^ 32) k s) (\<lambda>r. Ok (map_option (Cons x) r))))"

definition sys_exec :: "'a kern_st_scheme devsw \<Rightarrow> 'a kern_st_scheme \<Rightarrow> (int \<times> 'a kern_st_scheme) res" where
  "sys_exec dv s =
     bnd (argstr 0 s) (\<lambda>a. case a of None \<Rightarrow> Ok (-1, s) | Some path \<Rightarrow>
     bnd (argint 1 s) (\<lambda>a. case a of None \<Rightarrow> Ok (-1, s) | Some uargv \<Rightarrow>
     bnd (sys_exec_args (u32 uargv) MAXARG s) (\<lambda>r.
     case r of None \<Rightarrow> Ok (-1, s) | Some argv \<Rightarrow> exec dv path argv s)))"

end
