(* ===== verification/Trap.thy ===== *)
theory Trap
  imports Exec
begin

text \<open>
  Process calls (\<^verbatim>\<open>sysproc.c\<close>), the system call dispatcher (\<^verbatim>\<open>syscall.c\<close>) and the trap handler
  (\<^verbatim>\<open>trap.c\<close>). The devices are arguments: the switch table \<open>dv\<close>, the clock chip \<open>rtc\<close> with the number \<open>t\<close> of
  its reads so far, and the characters that the keyboard and the serial line have ready. A call that waits is \<open>Blocks\<close>, as is the
  loop over the clock chip when it never ends. The disk of this kernel is the one of \<^verbatim>\<open>memide.c\<close>, whose interrupt handler is empty;
  the handler of \<^verbatim>\<open>ide.c\<close> is in theory \<open>Ide\<close>. The acknowledgements to the interrupt controller are not modelled.
\<close>

section \<open>Process calls\<close>

definition sys_fork :: "'a kern_st_scheme \<Rightarrow> (int \<times> 'a kern_st_scheme) res" where
  "sys_fork s = fork s"

text \<open>A handler that does not return has no result.\<close>

definition sys_exit :: "'a kern_st_scheme \<Rightarrow> (int option \<times> 'a kern_st_scheme) res" where
  "sys_exit s = bnd (exit s) (\<lambda>s. Ok (None, s))"

definition sys_cps :: "'a kern_st_scheme \<Rightarrow> (int \<times> 'a kern_st_scheme) res" where
  "sys_cps s = cps s"

definition sys_kill :: "'a kern_st_scheme \<Rightarrow> (int \<times> 'a kern_st_scheme) res" where
  "sys_kill s = bnd (argint 0 s) (\<lambda>a. case a of None \<Rightarrow> Ok (-1, s) | Some pid \<Rightarrow> Ok (kill pid s))"

definition sys_getpid :: "'a kern_st_scheme \<Rightarrow> (int \<times> 'a kern_st_scheme) res" where
  "sys_getpid s = bnd (myproc s) (\<lambda>i. Ok (p_pid (ptable s ! i), s))"

definition sys_sbrk :: "'a kern_st_scheme \<Rightarrow> (int \<times> 'a kern_st_scheme) res" where
  "sys_sbrk s =
     bnd (argint 0 s) (\<lambda>a. case a of None \<Rightarrow> Ok (-1, s) | Some n \<Rightarrow>
     bnd (myproc s) (\<lambda>i.
     let addr = s32 (p_sz (ptable s ! i)) in
     bnd (growproc n s) (\<lambda>(r, s). Ok (if r < 0 then -1 else addr, s))))"

definition sys_wait :: "'a kern_st_scheme \<Rightarrow> (int \<times> 'a kern_st_scheme) res" where
  "sys_wait s = bnd (wait s) (\<lambda>(r, s). case r of Ret x \<Rightarrow> Ok (x, s) | Sleep \<Rightarrow> Blocks)"

text \<open>One test of the loop of \<^verbatim>\<open>sys_sleep\<close>: the difference of ticks and \<open>n\<close> are compared as unsigned numbers.\<close>

definition sleep_loop :: "int \<Rightarrow> nat \<Rightarrow> 'a kern_st_scheme \<Rightarrow> (int pipe_ret \<times> 'a kern_st_scheme) res" where
  "sleep_loop n ticks0 s =
     (if u32 (int (ticks s) - int ticks0) < u32 n then
        if killed s then Ok (Ret (-1), s) else bnd (sleep ChTicks s) (\<lambda>s. Ok (Sleep, s))
      else Ok (Ret 0, s))"

text \<open>The call up to its return or its first sleep; a process that was resumed goes on with \<open>sleep_loop\<close>.\<close>

definition sys_sleep_run :: "'a kern_st_scheme \<Rightarrow> (int pipe_ret \<times> 'a kern_st_scheme) res" where
  "sys_sleep_run s =
     bnd (argint 0 s) (\<lambda>a. case a of None \<Rightarrow> Ok (Ret (-1), s) | Some n \<Rightarrow> sleep_loop n (ticks s) s)"

definition sys_sleep :: "'a kern_st_scheme \<Rightarrow> (int \<times> 'a kern_st_scheme) res" where
  "sys_sleep s = bnd (sys_sleep_run s) (\<lambda>(r, s). case r of Ret x \<Rightarrow> Ok (x, s) | Sleep \<Rightarrow> Blocks)"

definition sys_uptime :: "'a kern_st_scheme \<Rightarrow> (int \<times> 'a kern_st_scheme) res" where
  "sys_uptime s = Ok (s32 (ticks s), s)"

definition sys_date :: "chip \<Rightarrow> nat \<Rightarrow> 'a kern_st_scheme \<Rightarrow> (int \<times> 'a kern_st_scheme) res" where
  "sys_date rtc t s = (case date rtc t s of None \<Rightarrow> Blocks | Some r \<Rightarrow> r)"

section \<open>Dispatch\<close>

text \<open>The table, a null pointer being \<open>None\<close>, and an access to it.\<close>

type_synonym 'a handler = "'a kern_st_scheme \<Rightarrow> (int option \<times> 'a kern_st_scheme) res"

definition returning :: "('a kern_st_scheme \<Rightarrow> (int \<times> 'a kern_st_scheme) res) \<Rightarrow> 'a handler option" where
  "returning f = Some (\<lambda>s. bnd (f s) (\<lambda>(r, s). Ok (Some r, s)))"

definition syscalls :: "'a kern_st_scheme devsw \<Rightarrow> chip \<Rightarrow> nat \<Rightarrow> 'a handler option list" where
  "syscalls dv rtc t =
     [None, returning sys_fork, Some sys_exit, returning sys_wait, returning sys_pipe, returning (sys_read dv),
      returning sys_kill, returning (sys_exec dv), returning sys_fstat, returning (sys_chdir dv), returning sys_dup,
      returning sys_getpid, returning sys_sbrk, returning sys_sleep, returning sys_uptime, returning (sys_open dv),
      returning (sys_write dv), returning (sys_mknod dv), returning (sys_unlink dv), returning (sys_link dv),
      returning (sys_mkdir dv), returning sys_close, returning sys_cps, None, None, returning (sys_date rtc t)]"

definition table_at :: "int \<Rightarrow> 'a handler option list \<Rightarrow> 'a handler option res" where
  "table_at num table = (if 0 \<le> num \<and> num < int (length table) then Ok (table ! nat num) else Undef)"

text \<open>How a trap ends: back to where it came from, with the process gone, or after giving up the processor.\<close>

datatype after = Back | Dead | Switched

definition set_eax :: "int \<Rightarrow> 'a kern_st_scheme \<Rightarrow> 'a kern_st_scheme res" where
  "set_eax r s = bnd (myproc s) (\<lambda>i. Ok (upd_proc i (\<lambda>p. p\<lparr>p_tf := (p_tf p)\<lparr>tf_eax := u32 r\<rparr>\<rparr>) s))"

definition syscall :: "'a kern_st_scheme devsw \<Rightarrow> chip \<Rightarrow> nat \<Rightarrow> 'a kern_st_scheme \<Rightarrow> (after \<times> 'a kern_st_scheme) res" where
  "syscall dv rtc t s =
     bnd (myproc s) (\<lambda>i.
     let num = s32 (tf_eax (p_tf (ptable s ! i))) in
     bnd (if num > 0 \<and> num < int (length (syscalls dv rtc t)) then table_at num (syscalls dv rtc t) else Ok None) (\<lambda>h.
     case h of
       Some f \<Rightarrow>
         bnd (f s) (\<lambda>(r, s).
         case r of
           None \<Rightarrow> Ok (Dead, s)
         | Some r \<Rightarrow> bnd (set_eax r s) (\<lambda>s. Ok (Back, s)))
     | None \<Rightarrow>
         bnd (cprintf (Some (ascii ''%d %s: unknown sys call %d'' @ [10]))
               [Num (u32 (p_pid (ptable s ! i))), Str (Some (name_str (ptable s ! i))), Num (u32 num)] s) (\<lambda>s.
         bnd (set_eax (-1) s) (\<lambda>s. Ok (Back, s)))))"

section \<open>Traps\<close>

definition T_SYSCALL :: nat where "T_SYSCALL = 64"
definition T_IRQ0 :: nat where "T_IRQ0 = 32"
definition IRQ_TIMER :: nat where "IRQ_TIMER = 0"
definition IRQ_KBD :: nat where "IRQ_KBD = 1"
definition IRQ_COM1 :: nat where "IRQ_COM1 = 4"
definition IRQ_IDE :: nat where "IRQ_IDE = 14"
definition IRQ_SPURIOUS :: nat where "IRQ_SPURIOUS = 31"

text \<open>\<^verbatim>\<open>if(myproc()->killed) exit();\<close>\<close>

definition exit_if_killed :: "'a kern_st_scheme \<Rightarrow> (after \<times> 'a kern_st_scheme) res" where
  "exit_if_killed s =
     (if killed s then bnd (exit s) (\<lambda>s. Ok (Dead, s)) else Ok (Back, s))"

text \<open>The same for an interrupted process, only when it was in user space.\<close>

definition trap_check :: "trapframe \<Rightarrow> 'a kern_st_scheme \<Rightarrow> (after \<times> 'a kern_st_scheme) res" where
  "trap_check tf s = (if tf_cs tf mod 4 = 3 then exit_if_killed s else Ok (Back, s))"

text \<open>An exception: the kernel's own is fatal, a process is marked killed.\<close>

definition trap_fault :: "nat \<Rightarrow> nat \<Rightarrow> trapframe \<Rightarrow> 'a kern_st_scheme \<Rightarrow> 'a kern_st_scheme res" where
  "trap_fault cpuid cr2 tf s =
     (if cur s = None \<or> tf_cs tf mod 4 = 0 then
        bnd (cprintf (Some (ascii ''unexpected trap %d from cpu %d eip %x (cr2=0x%x)'' @ [10]))
              [Num (tf_trapno tf), Num cpuid, Num (tf_eip tf), Num cr2] s) (\<lambda>s. Panic ''trap'')
      else
        bnd (myproc s) (\<lambda>i.
        bnd (cprintf (Some (ascii ''pid %d %s: trap %d err %d on cpu %d eip 0x%x addr 0x%x--kill proc'' @ [10]))
              [Num (u32 (p_pid (ptable s ! i))), Str (Some (name_str (ptable s ! i))), Num (tf_trapno tf), Num (tf_err tf),
               Num cpuid, Num (tf_eip tf), Num cr2] s) (\<lambda>s.
        Ok (upd_proc i (\<lambda>p. p\<lparr>p_killed := True\<rparr>) s))))"

text \<open>The interrupt handler of \<^verbatim>\<open>memide.c\<close>.\<close>

definition memide_ideintr :: "'a kern_st_scheme \<Rightarrow> 'a kern_st_scheme" where
  "memide_ideintr s = s"

definition trap_dev :: "nat \<Rightarrow> nat \<Rightarrow> int list \<Rightarrow> int list \<Rightarrow> trapframe \<Rightarrow> 'a kern_st_scheme \<Rightarrow> 'a kern_st_scheme res" where
  "trap_dev cpuid cr2 kbd uart tf s =
     (let n = tf_trapno tf in
      if n = T_IRQ0 + IRQ_TIMER then
        Ok (if cpuid = 0 then wakeup ChTicks (s\<lparr>ticks := (ticks s + 1) mod 2 ^ 32\<rparr>) else s)
      else if n = T_IRQ0 + IRQ_IDE then Ok (memide_ideintr s)
      else if n = T_IRQ0 + IRQ_IDE + 1 then Ok s
      else if n = T_IRQ0 + IRQ_KBD then consoleintr kbd s
      else if n = T_IRQ0 + IRQ_COM1 then consoleintr uart s
      else if n = T_IRQ0 + 7 \<or> n = T_IRQ0 + IRQ_SPURIOUS then
        cprintf (Some (ascii ''cpu%d: spurious interrupt at %x:%x'' @ [10])) [Num cpuid, Num (tf_cs tf), Num (tf_eip tf)] s
      else trap_fault cpuid cr2 tf s)"

definition running :: "'a kern_st_scheme \<Rightarrow> bool" where
  "running s = (case cur s of Some i \<Rightarrow> p_state (ptable s ! i) = RUNNING | None \<Rightarrow> False)"

text \<open>Up to the switch when the processor is given up; on return from it the handler ends with \<open>trap_check tf\<close> again.\<close>

definition trap :: "'a kern_st_scheme devsw \<Rightarrow> chip \<Rightarrow> nat \<Rightarrow> nat \<Rightarrow> nat \<Rightarrow> int list \<Rightarrow> int list \<Rightarrow> trapframe \<Rightarrow> 'a kern_st_scheme
    \<Rightarrow> (after \<times> 'a kern_st_scheme) res" where
  "trap dv rtc t cpuid cr2 kbd uart tf s =
     (if tf_trapno tf = T_SYSCALL then
        bnd (myproc s) (\<lambda>i.
        bnd (exit_if_killed s) (\<lambda>(a, s).
        if a = Dead then Ok (a, s)
        else
          bnd (syscall dv rtc t (upd_proc i (\<lambda>p. p\<lparr>p_tf := tf\<rparr>) s)) (\<lambda>(a, s).
          if a = Dead then Ok (a, s) else exit_if_killed s)))
      else
        bnd (trap_dev cpuid cr2 kbd uart tf s) (\<lambda>s.
        bnd (trap_check tf s) (\<lambda>(a, s).
        if a = Dead then Ok (a, s)
        else if running s \<and> tf_trapno tf = T_IRQ0 + IRQ_TIMER then bnd (yield s) (\<lambda>s. Ok (Switched, s))
        else trap_check tf s)))"

section \<open>A process that can exit\<close>

text \<open>
  The log has room for an operation, and nothing to commit when none is under way; an inode is not locked and has a
  name, so that dropping a reference does not free it; a page can be given back.
\<close>

definition quiet :: "'a kern_st_scheme \<Rightarrow> bool" where
  "quiet s \<longleftrightarrow> \<not> committing s \<and> lh_n s + (outstanding s + 1) * int MAXOPBLOCKS \<le> int LOGSIZE \<and> (outstanding s = 0 \<longrightarrow> lh_n s = 0)"

definition inode_ok :: "nat \<Rightarrow> 'a kern_st_scheme \<Rightarrow> bool" where
  "inode_ok k s \<longleftrightarrow> k < length (icache s) \<and> \<not> sl_locked (i_lock (icache s ! k)) \<and> (i_valid (icache s ! k) \<longrightarrow> i_nlink (icache s ! k) \<noteq> 0)"

definition file_ok :: "kfile \<Rightarrow> 'a kern_st_scheme \<Rightarrow> bool" where
  "file_ok f s = (case f_type f of
     FD_NONE \<Rightarrow> True
   | FD_PIPE \<Rightarrow> f_pipe f mod PGSIZE = 0 \<and> kend (km s) \<le> f_pipe f \<and> V2P (f_pipe f) < PHYSTOP
   | FD_INODE \<Rightarrow> inode_ok (f_ip f) s)"

text \<open>The descriptors \<open>fds\<close> of process \<open>i\<close> can be closed one after the other.\<close>

definition closable :: "nat list \<Rightarrow> nat \<Rightarrow> 'a kern_st_scheme \<Rightarrow> bool" where
  "closable fds i s \<longleftrightarrow> (\<forall>fd \<in> set fds. \<forall>f. p_ofile (ptable s ! i) ! fd = Some f \<longrightarrow>
     f < length (ftable s) \<and> file_ok (ftable s ! f) s \<and>
     int (length (filter (\<lambda>fd. p_ofile (ptable s ! i) ! fd = Some f) fds)) \<le> f_ref (ftable s ! f))"

definition may_exit :: "nat \<Rightarrow> 'a kern_st_scheme \<Rightarrow> bool" where
  "may_exit i s \<longleftrightarrow> i < length (ptable s) \<and> initproc s \<noteq> Some i \<and> quiet s \<and> closable [0..<NOFILE] i s \<and>
     (case p_cwd (ptable s ! i) of None \<Rightarrow> False | Some c \<Rightarrow> inode_ok c s)"

text \<open>What closing leaves alone.\<close>

definition calm :: "'a kern_st_scheme \<Rightarrow> 'a kern_st_scheme \<Rightarrow> bool" where
  "calm s t \<longleftrightarrow> keeps s t \<and> quiet t \<and> (\<forall>k. inode_ok k s \<longrightarrow> inode_ok k t) \<and> kend (km t) = kend (km s) \<and>
     (\<forall>j < length (ptable s). p_ofile (ptable t ! j) = p_ofile (ptable s ! j) \<and> p_cwd (ptable t ! j) = p_cwd (ptable s ! j)) \<and>
     length (ftable t) = length (ftable s)"

lemma calm_file: "calm s t \<Longrightarrow> file_ok f s \<Longrightarrow> file_ok f t"
  by (auto simp: calm_def file_ok_def split: ftype.splits)

lemma calm_len: "calm s t \<Longrightarrow> length (ptable t) = length (ptable s)"
  by (simp add: calm_def keeps_def woken_def)

lemma calm_trans: "calm s t \<Longrightarrow> calm t u \<Longrightarrow> calm s u"
  using keeps_trans [of s t u] calm_len [of s t] unfolding calm_def by simp

lemma iput_quiet:
  assumes "inode_ok k s"
  shows "\<exists>t. iput k s = Ok t \<and> (\<forall>j. inode_ok j s \<longrightarrow> inode_ok j t) \<and>
    committing t = committing s \<and> lh_n t = lh_n s \<and> outstanding t = outstanding s"
  using assms unfolding iput_def inode_ok_def
  by (auto simp: sleeplock_defs upd_inode_def Let_def nth_list_update)

lemma op_iput:
  assumes "quiet s" "inode_ok k s"
  shows "\<exists>t. bnd (begin_op s) (\<lambda>s. bnd (iput k s) end_op) = Ok t \<and> calm s t \<and> ftable t = ftable s"
proof -
  let ?b = "s\<lparr>outstanding := outstanding s + 1\<rparr>"
  have b: "begin_op s = Ok ?b" using assms(1) by (simp add: begin_op_def quiet_def)
  have I: "inode_ok j ?b = inode_ok j s" for j by (simp add: inode_ok_def)
  obtain t where t: "iput k ?b = Ok t" "\<And>j. inode_ok j s \<Longrightarrow> inode_ok j t"
      "committing t = committing s" "lh_n t = lh_n s" "outstanding t = outstanding s + 1"
    using iput_quiet [of k ?b] assms(2) unfolding I by auto
  let ?e = "t\<lparr>outstanding := outstanding s, committing := False\<rparr>"
  have e: "end_op t = Ok ?e" using t(3-5) assms(1) by (auto simp: end_op_def quiet_def commit_def Let_def)
  have m: "fs_st.more ?e = fs_st.more s" using begin_op_more [OF b] iput_more [OF t(1)] end_op_more [OF e] by simp
  note K = kern_more [OF m]
  have "quiet ?e" using assms(1) t by (simp add: quiet_def)
  moreover have "inode_ok j s \<Longrightarrow> inode_ok j ?e" for j using t(2) [of j] by (simp add: inode_ok_def)
  ultimately have "calm s ?e" using keeps_more [OF m] K unfolding calm_def by auto
  then show ?thesis using b t(1) e K by auto
qed

lemma calm_refl: "quiet s \<Longrightarrow> calm s s"
  by (simp add: calm_def)

lemma calm_wakeup: "quiet s \<Longrightarrow> calm s (wakeup ch s)"
  by (auto simp: calm_def quiet_def inode_ok_def wakeup_def wakeup1_def keeps_def woken_def wk_def)

lemma calm_pipe: "quiet s \<Longrightarrow> calm s (upd_pipe p f s)"
  by (simp add: calm_def quiet_def inode_ok_def upd_pipe_def keeps_def)

lemma calm_quiet: "calm s t \<Longrightarrow> quiet t"
  by (simp add: calm_def)

lemma kfree_calm:
  assumes "quiet s" "p mod PGSIZE = 0" "kend (km s) \<le> p" "V2P p < PHYSTOP"
  shows "\<exists>t. km_do (kfree p) s = Ok t \<and> calm s t \<and> ftable t = ftable s"
  using assms by (simp add: km_do_def kfree_def Let_def calm_def quiet_def inode_ok_def keeps_def)

lemma pipeclose_calm:
  assumes "quiet s" "p mod PGSIZE = 0" "kend (km s) \<le> p" "V2P p < PHYSTOP"
  shows "\<exists>t. pipeclose p w s = Ok t \<and> calm s t \<and> ftable t = ftable s"
proof -
  define u where "u = (if w then wakeup (ChNread p) (upd_pipe p (\<lambda>q. q\<lparr>pi_writeopen := False\<rparr>) s)
    else wakeup (ChNwrite p) (upd_pipe p (\<lambda>q. q\<lparr>pi_readopen := False\<rparr>) s))"
  have c: "calm s u" unfolding u_def
    using calm_trans [OF calm_pipe [OF assms(1)] calm_wakeup [OF calm_quiet [OF calm_pipe [OF assms(1)]]]] by simp
  have k: "kend (km u) = kend (km s)" and f: "ftable u = ftable s" by (simp_all add: u_def)
  have "pipeclose p w s = (if \<not> pi_readopen (pipes u p) \<and> \<not> pi_writeopen (pipes u p) then km_do (kfree p) u else Ok u)"
    by (simp add: pipeclose_def u_def)
  moreover obtain t where "km_do (kfree p) u = Ok t" "calm u t" "ftable t = ftable u"
    using kfree_calm [OF calm_quiet [OF c]] assms(2-4) k by metis
  ultimately show ?thesis using c f calm_trans [OF c] by (cases "\<not> pi_readopen (pipes u p) \<and> \<not> pi_writeopen (pipes u p)") auto
qed

lemma calm_upd_file: "quiet s \<Longrightarrow> calm s (upd_file f g s)"
  by (simp add: calm_def quiet_def inode_ok_def upd_file_def keeps_def)

lemma fileclose_calm:
  assumes "quiet s" "f < length (ftable s)" "file_ok (ftable s ! f) s" "1 \<le> f_ref (ftable s ! f)"
  shows "\<exists>t g. fileclose f s = Ok t \<and> calm s t \<and> ftable t = (ftable s)[f := g] \<and> f_ref g = f_ref (ftable s ! f) - 1 \<and>
    (2 \<le> f_ref (ftable s ! f) \<longrightarrow> g = (ftable s ! f)\<lparr>f_ref := f_ref (ftable s ! f) - 1\<rparr>)"
proof -
  define ff where "ff = (ftable s ! f)\<lparr>f_ref := f_ref (ftable s ! f) - 1\<rparr>"
  define u where "u = upd_file f (\<lambda>f. f\<lparr>f_ref := f_ref f - 1\<rparr>) s"
  have u: "calm s u" "ftable u ! f = ff" "ftable u = (ftable s)[f := ff]"
    using calm_upd_file [OF assms(1)] assms(2) by (simp_all add: u_def ff_def upd_file_def)
  show ?thesis
  proof (cases "f_ref ff > 0")
    case True
    then have "fileclose f s = Ok u" using assms(4) u(2) by (simp add: fileclose_def u_def Let_def)
    then show ?thesis using u by (auto simp: ff_def)
  next
    case False
    then have z: "f_ref (ftable s ! f) = 1" using assms(4) by (simp add: ff_def)
    define v where "v = upd_file f (\<lambda>f. f\<lparr>f_ref := 0, f_type := FD_NONE\<rparr>) u"
    have v: "calm s v" unfolding v_def by (rule calm_trans [OF u(1) calm_upd_file [OF calm_quiet [OF u(1)]]])
    have vf: "ftable v = (ftable s)[f := ff\<lparr>f_ref := 0, f_type := FD_NONE\<rparr>]" using u(2,3) by (simp add: v_def upd_file_def)
    have c: "fileclose f s = (case f_type ff of FD_PIPE \<Rightarrow> pipeclose (f_pipe ff) (f_writable ff) v
        | FD_INODE \<Rightarrow> bnd (begin_op v) (\<lambda>s. bnd (iput (f_ip ff) s) end_op) | FD_NONE \<Rightarrow> Ok v)"
      using assms(4) False u(2) by (simp add: fileclose_def u_def [symmetric] v_def [symmetric] Let_def split: ftype.splits)
    have o: "file_ok ff v" using calm_file [OF v assms(3)] by (simp add: file_ok_def ff_def split: ftype.splits)
    have "\<exists>t. fileclose f s = Ok t \<and> calm v t \<and> ftable t = ftable v"
    proof (cases "f_type ff")
      case FD_NONE
      then show ?thesis using c calm_refl [OF calm_quiet [OF v]] by simp
    next
      case FD_PIPE
      then show ?thesis unfolding c using o pipeclose_calm [OF calm_quiet [OF v], of "f_pipe ff" "f_writable ff"]
        by (simp add: file_ok_def)
    next
      case FD_INODE
      then show ?thesis unfolding c using o op_iput [OF calm_quiet [OF v], of "f_ip ff"] by (simp add: file_ok_def)
    qed
    then obtain t where "fileclose f s = Ok t" "calm v t" "ftable t = ftable v" by blast
    then show ?thesis using calm_trans [OF v] vf z
      by (intro exI [of _ t] exI [of _ "ff\<lparr>f_ref := 0, f_type := FD_NONE\<rparr>"]) simp
  qed
qed

lemma file_ok_ref: "file_ok (f\<lparr>f_ref := n\<rparr>) s = file_ok f s"
  by (simp add: file_ok_def split: ftype.splits)

lemma file_ok_upd: "file_ok f (upd_proc i g s) = file_ok f s"
  by (simp add: file_ok_def inode_ok_def upd_proc_def split: ftype.splits)

lemma closableD:
  assumes "closable fds i s" "fd \<in> set fds" "p_ofile (ptable s ! i) ! fd = Some f"
  shows "f < length (ftable s)" "file_ok (ftable s ! f) s"
    "int (length (filter (\<lambda>fd. p_ofile (ptable s ! i) ! fd = Some f) fds)) \<le> f_ref (ftable s ! f)"
  using assms unfolding closable_def by blast+

text \<open>After the first descriptor is closed, the others still are closable.\<close>

lemma closable_next:
  assumes "closable (fd # fds) i s" "fd \<notin> set fds" "p_ofile (ptable s ! i) ! fd = Some f"
    and "calm s t" "i < length (ptable s)" "ftable t = (ftable s)[f := g]" "f_ref g = f_ref (ftable s ! f) - 1"
    and "2 \<le> f_ref (ftable s ! f) \<Longrightarrow> g = (ftable s ! f)\<lparr>f_ref := f_ref (ftable s ! f) - 1\<rparr>"
  shows "closable fds i (upd_proc i (\<lambda>p. p\<lparr>p_ofile := (p_ofile p)[fd := None]\<rparr>) t)" (is "closable fds i ?u")
  unfolding closable_def
proof (intro ballI allI impI)
  fix fd' f'
  assume a: "fd' \<in> set fds" "p_ofile (ptable ?u ! i) ! fd' = Some f'"
  have o: "p_ofile (ptable ?u ! i) ! x = p_ofile (ptable s ! i) ! x" if "x \<in> set fds" for x
  proof -
    have "fd \<noteq> x" using that assms(2) by blast
    then show ?thesis using assms(4,5) calm_len [OF assms(4)] by (simp add: nth_upd_proc calm_def)
  qed
  have s': "p_ofile (ptable s ! i) ! fd' = Some f'" using a o by simp
  note D = closableD [OF assms(1) list.set_intros(2) [OF a(1)] s']
  have n: "filter (\<lambda>x. p_ofile (ptable ?u ! i) ! x = Some f') fds = filter (\<lambda>x. p_ofile (ptable s ! i) ! x = Some f') fds"
    using o by (intro filter_cong) simp_all
  have len: "length (ftable ?u) = length (ftable s)" using assms(4) by (simp add: calm_def)
  have "file_ok (ftable ?u ! f') ?u \<and> int (length (filter (\<lambda>x. p_ofile (ptable s ! i) ! x = Some f') fds)) \<le> f_ref (ftable ?u ! f')"
  proof (cases "f' = f")
    case False
    then show ?thesis using D(2,3) assms(3,6) calm_file [OF assms(4)] by (simp add: file_ok_upd)
  next
    case True
    have p: "0 < length (filter (\<lambda>x. p_ofile (ptable s ! i) ! x = Some f') fds)" using a(1) s' by (auto simp: filter_empty_conv)
    then have r: "2 \<le> f_ref (ftable s ! f)" using D(3) assms(3) unfolding True by (simp del: length_greater_0_conv)
    have "file_ok (ftable s ! f) t" using D(2) True calm_file [OF assms(4)] by simp
    then show ?thesis using r D(1,3) assms(3,6,7) assms(8) [OF r] True by (simp add: file_ok_upd file_ok_ref)
  qed
  then show "f' < length (ftable ?u) \<and> file_ok (ftable ?u ! f') ?u \<and>
      int (length (filter (\<lambda>x. p_ofile (ptable ?u ! i) ! x = Some f') fds)) \<le> f_ref (ftable ?u ! f')"
    using D(1) n len by simp
qed

lemma closable_tl: "closable (fd # fds) i s \<Longrightarrow> closable fds i s"
  unfolding closable_def by (force split: if_splits)

lemma exit_files_ok:
  "closable fds i s \<Longrightarrow> distinct fds \<Longrightarrow> quiet s \<Longrightarrow> i < length (ptable s) \<Longrightarrow>
   \<exists>t. exit_files fds i s = Ok t \<and> quiet t \<and> (\<forall>k. inode_ok k s \<longrightarrow> inode_ok k t) \<and> p_cwd (ptable t ! i) = p_cwd (ptable s ! i)"
proof (induction fds arbitrary: s)
  case (Cons fd fds)
  show ?case
  proof (cases "p_ofile (ptable s ! i) ! fd")
    case None
    then show ?thesis using Cons.IH [OF closable_tl [OF Cons.prems(1)]] Cons.prems by simp
  next
    case (Some f)
    note D = closableD [OF Cons.prems(1) list.set_intros(1) Some]
    have "1 \<le> f_ref (ftable s ! f)" using D(3) Some by simp
    from fileclose_calm [OF Cons.prems(3) D(1,2) this] obtain t g where t: "fileclose f s = Ok t" "calm s t"
      "ftable t = (ftable s)[f := g]" "f_ref g = f_ref (ftable s ! f) - 1"
      "2 \<le> f_ref (ftable s ! f) \<Longrightarrow> g = (ftable s ! f)\<lparr>f_ref := f_ref (ftable s ! f) - 1\<rparr>" by blast
    let ?u = "upd_proc i (\<lambda>p. p\<lparr>p_ofile := (p_ofile p)[fd := None]\<rparr>) t"
    have "closable fds i ?u"
      using Cons.prems(2) by (intro closable_next [OF Cons.prems(1) _ Some t(2) Cons.prems(4) t(3,4) t(5)]) simp_all
    moreover have q: "quiet ?u" using calm_quiet [OF t(2)] by (simp add: quiet_def upd_proc_def)
    moreover have l: "i < length (ptable ?u)" using calm_len [OF t(2)] Cons.prems(4) by simp
    ultimately obtain v where v: "exit_files fds i ?u = Ok v" "quiet v" "\<forall>k. inode_ok k ?u \<longrightarrow> inode_ok k v"
      "p_cwd (ptable v ! i) = p_cwd (ptable ?u ! i)"
      using Cons.IH [of ?u] Cons.prems(2) by auto
    have "inode_ok k s \<Longrightarrow> inode_ok k ?u" for k using t(2) by (simp add: calm_def inode_ok_def upd_proc_def)
    moreover have "p_cwd (ptable ?u ! i) = p_cwd (ptable s ! i)" using t(2) l Cons.prems(4) by (simp add: nth_upd_proc calm_def)
    ultimately show ?thesis using Some t(1) v by simp
  qed
qed simp

lemma wakeup_opt_cwd: "j < length (ptable s) \<Longrightarrow> p_cwd (ptable (wakeup_opt po s) ! j) = p_cwd (ptable s ! j)"
  "length (ptable (wakeup_opt po s)) = length (ptable s)"
  by (simp_all add: wakeup_opt_def wakeup1_def)

lemma exit_children_cwd: "j < length (ptable s) \<Longrightarrow> p_cwd (ptable (exit_children js i s) ! j) = p_cwd (ptable s ! j)"
proof (induction js arbitrary: s)
  case (Cons k js)
  let ?u = "upd_proc k (\<lambda>p. p\<lparr>p_parent := initproc s\<rparr>) s"
  have u: "p_cwd (ptable ?u ! j) = p_cwd (ptable s ! j)" "j < length (ptable ?u)" using Cons.prems by (simp_all add: nth_upd_proc)
  show ?case using Cons u Cons.IH [of ?u] Cons.IH [of "wakeup_opt (initproc ?u) ?u"]
    by (simp add: Let_def wakeup_opt_cwd)
qed simp

lemma exit_ok:
  assumes "cur s = Some i" "may_exit i s"
  shows "\<exists>t. exit s = Ok t \<and> p_state (ptable t ! i) = ZOMBIE \<and> p_cwd (ptable t ! i) = None \<and> cur t = Some i"
proof -
  obtain c where c: "i < length (ptable s)" "initproc s \<noteq> Some i" "quiet s" "closable [0..<NOFILE] i s"
      "p_cwd (ptable s ! i) = Some c" "inode_ok c s"
    using assms(2) by (auto simp: may_exit_def split: option.splits)
  obtain t where t: "exit_files [0..<NOFILE] i s = Ok t" "quiet t" "inode_ok c t" "p_cwd (ptable t ! i) = Some c"
    using exit_files_ok [OF c(4) _ c(3,1)] c(5,6) by auto
  obtain u where u: "bnd (begin_op t) (\<lambda>s. bnd (iput c s) end_op) = Ok u" "calm t u" using op_iput [OF t(2,3)] by blast
  obtain a b where ab: "begin_op t = Ok a" "iput c a = Ok b" "end_op b = Ok u" using u(1) by (auto simp: bnd_eq_Ok)
  have "ptable a = ptable t" using kern_more [OF begin_op_more [OF ab(1)]] by simp
  then have w: "p_cwd (ptable a ! i) = Some c" using t(4) by simp
  define v where "v = upd_proc i (\<lambda>p. p\<lparr>p_cwd := None\<rparr>) u"
  define x where "x = exit_children [0..<NPROC] i (wakeup_opt (p_parent (ptable v ! i)) v)"
  have e: "exit s = Ok (upd_proc i (\<lambda>p. p\<lparr>p_state := ZOMBIE\<rparr>) x)"
    using assms(1) c(2) t(1) ab w by (simp add: exit_def myproc_def v_def x_def Let_def)
  have k: "keeps s t" by (rule keeps_exit_files [OF t(1)])
  have l: "i < length (ptable v)" "cur v = Some i"
    using k u(2) c(1) assms(1) by (simp_all add: v_def calm_def keeps_def woken_def)
  have "keeps v x" unfolding x_def by (rule keeps_trans [OF keeps_wakeup(2) keeps_exit_children])
  then have "i < length (ptable x)" "cur x = Some i" using l by (simp_all add: keeps_def woken_def)
  moreover have "p_cwd (ptable x ! i) = None"
    unfolding x_def using exit_children_cwd [of i "wakeup_opt (p_parent (ptable v ! i)) v" "[0..<NPROC]" i] l
    by (simp add: wakeup_opt_cwd v_def nth_upd_proc)
  ultimately show ?thesis using e by (simp add: nth_upd_proc)
qed

section \<open>Properties\<close>

lemma cprintf_fault: "\<exists>out. cprintf (Some (ascii ''pid %d %s: trap %d err %d on cpu %d eip 0x%x addr 0x%x--kill proc'' @ [10]))
    [Num a, Str (Some b), Num c, Num d, Num e, Num f, Num g] s = Ok (s\<lparr>cons_out := cons_out s @ out\<rparr>)"
  by (simp add: cprintf_def ascii_def) blast

lemma cprintf_kernel: "\<exists>t. cprintf (Some (ascii ''unexpected trap %d from cpu %d eip %x (cr2=0x%x)'' @ [10]))
    [Num a, Num b, Num c, Num d] s = Ok t"
  by (simp add: cprintf_def ascii_def)

lemma cprintf_unknown: "\<exists>out. cprintf (Some (ascii ''%d %s: unknown sys call %d'' @ [10])) [Num a, Str (Some b), Num c] s =
    Ok (s\<lparr>cons_out := cons_out s @ out\<rparr>)"
  by (simp add: cprintf_def ascii_def) blast

lemma may_exit_fault: "may_exit i (upd_proc i (\<lambda>p. p\<lparr>p_killed := True\<rparr>) (s\<lparr>cons_out := out\<rparr>)) = may_exit i s"
proof (cases "i < length (ptable s)")
  case True
  let ?u = "upd_proc i (\<lambda>p. p\<lparr>p_killed := True\<rparr>) (s\<lparr>cons_out := out\<rparr>)"
  have p: "p_ofile (ptable ?u ! i) = p_ofile (ptable s ! i)" "p_cwd (ptable ?u ! i) = p_cwd (ptable s ! i)"
    "initproc ?u = initproc s" "ftable ?u = ftable s"
    using True by (simp_all add: nth_upd_proc) (simp_all add: upd_proc_def)
  have q: "quiet ?u = quiet s" "inode_ok k ?u = inode_ok k s" "file_ok f ?u = file_ok f s" for k f
    by (simp_all add: quiet_def inode_ok_def file_ok_def upd_proc_def split: ftype.splits)
  show ?thesis unfolding may_exit_def closable_def p q by simp
qed (simp add: may_exit_def)

text \<open>
  C20. An exception, that is a trap that is neither the system call nor a device interrupt. From kernel code it is a panic. From user
  code it ends the running process and nothing else: the handler prints a message and marks the process killed, and the process closes its files,
  gives up its directory and is a zombie, while the kernel goes on. This is for a process that can exit without waiting: the
  log has room, the inodes it refers to are not locked and have names. Only when the process is init, the kernel panics.
\<close>

theorem exception_kills_user_process:
  assumes "cur s = Some i" "i < length (ptable s)" "tf_trapno tf \<notin> {64, 32, 46, 47, 33, 36, 39, 63}"
  shows "(tf_cs tf mod 4 = 0 \<longrightarrow> trap dv rtc t c cr2 kbd uart tf s = Panic ''trap'') \<and>
    (tf_cs tf mod 4 = 3 \<and> may_exit i s \<longrightarrow>
     (\<exists>u. trap dv rtc t c cr2 kbd uart tf s = Ok (Dead, u) \<and> p_state (ptable u ! i) = ZOMBIE \<and> p_cwd (ptable u ! i) = None)) \<and>
    (tf_cs tf mod 4 = 3 \<and> initproc s = Some i \<longrightarrow> trap dv rtc t c cr2 kbd uart tf s = Panic ''init exiting'')"
proof -
  have d: "trap_dev c cr2 kbd uart tf s = trap_fault c cr2 tf s"
    using assms(3) by (simp add: trap_dev_def Let_def T_IRQ0_def IRQ_TIMER_def IRQ_IDE_def IRQ_KBD_def IRQ_COM1_def IRQ_SPURIOUS_def)
  have t: "trap dv rtc t c cr2 kbd uart tf s = bnd (trap_fault c cr2 tf s) (\<lambda>s. bnd (trap_check tf s) (\<lambda>(a, s).
        if a = Dead then Ok (a, s)
        else if running s \<and> tf_trapno tf = T_IRQ0 + IRQ_TIMER then bnd (yield s) (\<lambda>s. Ok (Switched, s))
        else trap_check tf s))"
    using assms(3) by (simp add: trap_def d T_SYSCALL_def)
  obtain k where k: "cprintf (Some (ascii ''unexpected trap %d from cpu %d eip %x (cr2=0x%x)'' @ [10]))
      [Num (tf_trapno tf), Num c, Num (tf_eip tf), Num cr2] s = Ok k" using cprintf_kernel by blast
  obtain out where out: "cprintf (Some (ascii ''pid %d %s: trap %d err %d on cpu %d eip 0x%x addr 0x%x--kill proc'' @ [10]))
      [Num (u32 (p_pid (ptable s ! i))), Str (Some (name_str (ptable s ! i))), Num (tf_trapno tf), Num (tf_err tf), Num c, Num (tf_eip tf), Num cr2] s =
      Ok (s\<lparr>cons_out := cons_out s @ out\<rparr>)"
    using cprintf_fault by blast
  let ?u = "upd_proc i (\<lambda>p. p\<lparr>p_killed := True\<rparr>) (s\<lparr>cons_out := cons_out s @ out\<rparr>)"
  have "killed ?u" using assms(1,2) by (simp add: killed_def nth_upd_proc)
  then have e: "trap dv rtc t c cr2 kbd uart tf s = bnd (exit ?u) (\<lambda>s. Ok (Dead, s))" if "tf_cs tf mod 4 = 3"
    using that assms(1) out unfolding t by (simp add: trap_fault_def myproc_def trap_check_def exit_if_killed_def bnd_assoc)
  have "\<exists>u. exit ?u = Ok u \<and> p_state (ptable u ! i) = ZOMBIE \<and> p_cwd (ptable u ! i) = None" if "may_exit i s"
    using exit_ok [of ?u i] that assms(1) may_exit_fault by auto
  moreover have "exit ?u = Panic ''init exiting''" if "initproc s = Some i"
    using that assms(1) by (simp add: exit_def myproc_def upd_proc_def)
  moreover have "trap dv rtc t c cr2 kbd uart tf s = Panic ''trap''" if "tf_cs tf mod 4 = 0"
    unfolding t using that k by (simp add: trap_fault_def)
  ultimately show ?thesis using e by auto
qed

text \<open>A process with an open file and a directory.\<close>

definition sample_fault :: kern_st where
  "sample_fault = (boot_kern (\<lambda>_. []) 0 empty_kmem)\<lparr>cur := Some 0, initproc := Some 1,
     ftable := (replicate NFILE zero_file)[0 := zero_file\<lparr>f_type := FD_INODE, f_ref := 1, f_ip := 1\<rparr>],
     ptable := (replicate NPROC zero_proc)[0 := zero_proc\<lparr>p_state := RUNNING, p_pid := 2, p_cwd := Some 0,
       p_ofile := (replicate NOFILE None)[0 := Some 0]\<rparr>]\<rparr>"

lemma sample_fault_exit: "may_exit 0 sample_fault" "cur sample_fault = Some 0" "0 < length (ptable sample_fault)"
proof -
  show "cur sample_fault = Some 0" and l: "0 < length (ptable sample_fault)" by (simp_all add: sample_fault_def param_defs)
  have p: "p_ofile (ptable sample_fault ! 0) = (replicate NOFILE None)[0 := Some 0]" "p_cwd (ptable sample_fault ! 0) = Some 0"
    "ftable sample_fault = (replicate NFILE zero_file)[0 := zero_file\<lparr>f_type := FD_INODE, f_ref := 1, f_ip := 1\<rparr>]"
    "initproc sample_fault = Some 1" "icache sample_fault = replicate NINODE zero_inode"
    by (simp_all add: sample_fault_def boot_kern_def param_defs)
  have q: "quiet sample_fault" by (simp add: quiet_def sample_fault_def boot_kern_def param_defs)
  have k: "inode_ok 0 sample_fault" "inode_ok 1 sample_fault" using p(5) by (simp_all add: inode_ok_def param_defs zero_inode_def)
  have "(replicate NOFILE None)[0 := Some 0] ! fd = Some f \<longleftrightarrow> fd = 0 \<and> f = (0 :: nat)" if "fd < NOFILE" for fd f
    using that by (auto simp: nth_list_update param_defs)
  moreover from this have "filter (\<lambda>fd. (replicate NOFILE None)[0 := Some 0] ! fd = Some (0 :: nat)) [0..<NOFILE] = [0]"
    by (simp add: param_defs upt_rec)
  ultimately have "closable [0..<NOFILE] 0 sample_fault"
    using k(2) unfolding closable_def p by (auto simp: file_ok_def param_defs)
  then show "may_exit 0 sample_fault" using l p q k by (simp add: may_exit_def)
qed

theorem exception_kills_user_process_witness:
  "\<exists>u. trap consoleinit (\<lambda>_ _. 0) 0 0 0 [] [] (zero_tf\<lparr>tf_trapno := 14, tf_cs := 27\<rparr>) sample_fault = Ok (Dead, u) \<and>
     p_state (ptable u ! 0) = ZOMBIE \<and> p_cwd (ptable u ! 0) = None"
  using exception_kills_user_process [OF sample_fault_exit(2,3), of "zero_tf\<lparr>tf_trapno := 14, tf_cs := 27\<rparr>" consoleinit "\<lambda>_ _. 0" 0 0 0 "[]" "[]"]
    sample_fault_exit(1) by (simp add: zero_tf_def)

text \<open>
  C21. A system call number outside the table, negative ones included, or of an empty entry of it, is answered with -1 in the process's
  \<^verbatim>\<open>eax\<close> and a message; nothing else changes. The table is never read outside its bounds.
\<close>

theorem unknown_syscall_is_refused:
  assumes "cur s = Some i" "tf_eax (p_tf (ptable s ! i)) \<notin> {1..22} \<union> {25}" "tf_eax (p_tf (ptable s ! i)) < 2 ^ 32"
  shows "\<exists>out. syscall dv rtc t s =
    Ok (Back, upd_proc i (\<lambda>p. p\<lparr>p_tf := (p_tf p)\<lparr>tf_eax := 2 ^ 32 - 1\<rparr>\<rparr>) (s\<lparr>cons_out := cons_out s @ out\<rparr>))"
proof -
  let ?n = "s32 (tf_eax (p_tf (ptable s ! i)))" and ?tab = "syscalls dv rtc t"
  have n: "?n \<notin> {1..22} \<union> {25}" using assms(2,3) by (auto simp: s32_def split: if_splits)
  have l: "int (length ?tab) = 26" by (simp add: syscalls_def)
  have "(if ?n > 0 \<and> ?n < int (length ?tab) then table_at ?n ?tab else Ok None) = Ok None"
  proof (cases "?n > 0 \<and> ?n < 26")
    case True
    then have "?n = 23 \<or> ?n = 24" using n by auto
    then have "table_at ?n ?tab = Ok None" by (auto simp: table_at_def syscalls_def)
    then show ?thesis using True l by simp
  qed (use l in auto)
  moreover obtain out where out: "cprintf (Some (ascii ''%d %s: unknown sys call %d'' @ [10]))
      [Num (u32 (p_pid (ptable s ! i))), Str (Some (name_str (ptable s ! i))), Num (u32 ?n)] s = Ok (s\<lparr>cons_out := cons_out s @ out\<rparr>)"
    using cprintf_unknown by blast
  ultimately have "syscall dv rtc t s = bnd (set_eax (-1) (s\<lparr>cons_out := cons_out s @ out\<rparr>)) (\<lambda>s. Ok (Back, s))"
    using assms(1) by (simp add: syscall_def myproc_def Let_def)
  then show ?thesis using assms(1) by (auto simp: set_eax_def myproc_def u32_def)
qed

text \<open>A process that calls with the number -1.\<close>

definition sample_call :: kern_st where
  "sample_call = sample_procs\<lparr>ptable := (ptable sample_procs)[0 := (ptable sample_procs ! 0)\<lparr>p_tf := zero_tf\<lparr>tf_eax := 2 ^ 32 - 1\<rparr>\<rparr>]\<rparr>"

theorem unknown_syscall_is_refused_witness:
  "\<exists>out. syscall consoleinit (\<lambda>_ _. 0) 0 sample_call =
    Ok (Back, upd_proc 0 (\<lambda>p. p\<lparr>p_tf := (p_tf p)\<lparr>tf_eax := 2 ^ 32 - 1\<rparr>\<rparr>) (sample_call\<lparr>cons_out := cons_out sample_call @ out\<rparr>))"
  by (rule unknown_syscall_is_refused) (simp_all add: sample_call_def sample_procs_inv param_defs)

text \<open>
  C22. The timer interrupt on the first processor: the tick count goes up by one, every process that sleeps on it
  becomes runnable, and the process that was running, unless it was killed, gives up the processor and is runnable.
\<close>

theorem timer_interrupt_preempts:
  assumes "proc_inv s" "cur s = Some i" "\<not> p_killed (ptable s ! i)" "tf_trapno tf = 32"
  shows "\<exists>u. trap dv rtc t 0 cr2 kbd uart tf s = Ok (Switched, u) \<and> ticks u = (ticks s + 1) mod 2 ^ 32 \<and>
    p_state (ptable u ! i) = RUNNABLE \<and>
    (\<forall>j < NPROC. p_state (ptable s ! j) = SLEEPING \<and> p_chan (ptable s ! j) = Some ChTicks \<longrightarrow> p_state (ptable u ! j) = RUNNABLE)"
proof -
  have i: "i < NPROC" "p_state (ptable s ! i) = RUNNING" "length (ptable s) = NPROC" using cur_inv [OF assms(1,2)] by auto
  define w where "w = wakeup ChTicks (s\<lparr>ticks := (ticks s + 1) mod 2 ^ 32\<rparr>)"
  have w: "ptable w ! j = (if p_state (ptable s ! j) = SLEEPING \<and> p_chan (ptable s ! j) = Some ChTicks
      then (ptable s ! j)\<lparr>p_state := RUNNABLE\<rparr> else ptable s ! j)" if "j < NPROC" for j
    using that i(3) by (simp add: w_def wakeup_def wakeup1_def)
  have c: "cur w = Some i" "ticks w = (ticks s + 1) mod 2 ^ 32" "length (ptable w) = NPROC"
    using assms(2) i(3) by (simp_all add: w_def wakeup_def wakeup1_def)
  have "\<not> killed w" "running w" using c w [OF i(1)] i(2) assms(3) by (simp_all add: killed_def running_def)
  moreover have "trap_dev 0 cr2 kbd uart tf s = Ok w" using assms(4) by (simp add: trap_dev_def w_def T_IRQ0_def IRQ_TIMER_def)
  ultimately have "trap dv rtc t 0 cr2 kbd uart tf s = Ok (Switched, upd_proc i (\<lambda>p. p\<lparr>p_state := RUNNABLE\<rparr>) w)"
    using assms(4) c(1) by (simp add: trap_def trap_check_def exit_if_killed_def yield_def myproc_def T_SYSCALL_def T_IRQ0_def IRQ_TIMER_def)
  moreover have "ticks (upd_proc i f w) = ticks w" for f by (simp add: upd_proc_def)
  ultimately show ?thesis using c w i by (auto simp: nth_upd_proc)
qed

theorem timer_interrupt_preempts_witness:
  "\<exists>u. trap consoleinit (\<lambda>_ _. 0) 0 0 0 [] [] (zero_tf\<lparr>tf_trapno := 32\<rparr>) sample_procs = Ok (Switched, u) \<and>
     p_state (ptable u ! 0) = RUNNABLE \<and> p_state (ptable u ! 2) = RUNNABLE"
  using timer_interrupt_preempts [OF sample_procs_inv(1,2), of "zero_tf\<lparr>tf_trapno := 32\<rparr>" consoleinit "\<lambda>_ _. 0" 0 0 "[]" "[]"]
  by (auto simp: sample_procs_nth param_defs zero_proc_def zero_tf_def)

text \<open>
  C23. A negative argument of \<^verbatim>\<open>sys_sleep\<close> is not an error: the comparison with the elapsed ticks is unsigned, so the call
  puts the process to sleep on the tick count, and whenever it is resumed within \<open>2 ^ 31\<close> ticks it goes back to sleep.
\<close>

theorem negative_sleep_sleeps:
  fixes s :: "'a kern_st_scheme"
  assumes "argint 0 s = Ok (Some n)" "n < 0" "\<not> killed s" "cur s = Some i" "i < length (ptable s)"
  shows "(\<exists>t. sys_sleep_run s = Ok (Sleep, t) \<and> p_state (ptable t ! i) = SLEEPING \<and> p_chan (ptable t ! i) = Some ChTicks) \<and>
    sys_sleep s = Blocks \<and>
    (\<forall>u :: 'a kern_st_scheme. cur u = Some i \<and> i < length (ptable u) \<and> \<not> killed u \<and> u32 (int (ticks u) - int (ticks s)) < 2 ^ 31 \<longrightarrow>
      (\<exists>t. sleep_loop n (ticks s) u = Ok (Sleep, t) \<and> p_state (ptable t ! i) = SLEEPING \<and> p_chan (ptable t ! i) = Some ChTicks))"
proof -
  have r: "- (2 ^ 31) \<le> n"
    using assms(1,2) by (auto simp: argint_def fetchint_def bnd_eq_Ok Let_def s32_def split: if_splits)
  have "n mod 2 ^ 32 = (n + 2 ^ 32) mod 2 ^ 32" by simp
  also have "\<dots> = n + 2 ^ 32" using r assms(2) by (intro mod_pos_pos_trivial) auto
  finally have n: "2 ^ 31 \<le> u32 n" using r by (simp add: u32_def)
  have L: "\<exists>t. sleep_loop n (ticks s) u = Ok (Sleep, t) \<and> p_state (ptable t ! i) = SLEEPING \<and> p_chan (ptable t ! i) = Some ChTicks"
    if "cur u = Some i" "i < length (ptable u)" "\<not> killed u" "u32 (int (ticks u) - int (ticks s)) < 2 ^ 31" for u :: "'a kern_st_scheme"
    using that n by (simp add: sleep_loop_def sleep_def nth_upd_proc)
  have "u32 (int (ticks s) - int (ticks s)) < 2 ^ 31" by (simp add: u32_def)
  from L [OF assms(4,5,3) this] obtain t where t: "sleep_loop n (ticks s) s = Ok (Sleep, t)" "p_state (ptable t ! i) = SLEEPING"
    "p_chan (ptable t ! i) = Some ChTicks" by blast
  have "sys_sleep_run s = Ok (Sleep, t)" using assms(1) t(1) by (simp add: sys_sleep_run_def)
  then show ?thesis using t(2,3) L by (simp add: sys_sleep_def)
qed

text \<open>The process of one page with the argument -1.\<close>

definition sample_nap :: kern_st where
  "sample_nap = sample_user\<lparr>km := (km sample_user)\<lparr>kmem := st32 sample_page 0x8010A014 (2 ^ 32 - 1)\<rparr>\<rparr>"

lemma nap_uaddr: "va < 4096 \<Longrightarrow> uaddr w va sample_nap = Ok (0x8010A000 + va)"
proof -
  assume va: "va < 4096"
  have P: "P2V 0x108000 = 0x80108000" "P2V 0x109000 = 0x80109000" "P2V 0x10A000 = 0x8010A000" "PDX va = 0" "PTX va = 0"
    using va by (simp_all add: P2V_def PDX_def PTX_def param_defs u32_def)
  have A: "PTE_ADDR 0x109007 = 0x109000" "PTE_ADDR 0x10A007 = 0x10A000" by (simp_all add: PTE_ADDR_def)
  have B: "(0x109007 :: nat) AND PTE_P \<noteq> 0" "(0x10A007 :: nat) AND PTE_P \<noteq> 0" "(0x10A007 :: nat) AND PTE_W \<noteq> 0"
    by (simp_all add: PTE_P_def PTE_W_def)
  show ?thesis using va P A B sample_page_words(1,2)
    by (simp add: uaddr_def walkpgdir_def sample_nap_def sample_user_simps Let_def PGSIZE_def ld32_st32_other)
qed

lemma nap_uload: "va + n \<le> 4096 \<Longrightarrow>
    uload va n sample_nap = Ok (map (\<lambda>k. st32 sample_page 0x8010A014 (2 ^ 32 - 1) (0x8010A000 + va + k)) [0..<n])"
proof (induction n arbitrary: va)
  case (Suc n)
  have m: "kmem (km sample_nap) = st32 sample_page 0x8010A014 (2 ^ 32 - 1)" by (simp add: sample_nap_def)
  have "uload (va + 1) n sample_nap = Ok (map (\<lambda>k. st32 sample_page 0x8010A014 (2 ^ 32 - 1) (0x8010A000 + (va + 1) + k)) [0..<n])"
    using Suc.prems by (intro Suc.IH) simp
  then show ?case using Suc.prems nap_uaddr [of va False]
    by (simp add: m upt_conv_Cons map_Suc_upt [symmetric] One_nat_def add.assoc del: upt_Suc)
qed simp

lemma nap_argint: "argint 0 sample_nap = Ok (Some (-1))"
proof -
  let ?m = "st32 sample_page 0x8010A014 (2 ^ 32 - 1)"
  have "get32 (map (\<lambda>k. ?m (0x8010A000 + 20 + k)) [0..<4]) 0 = ld32 ?m 0x8010A014"
    by (simp add: get32_def get16_def ld32_def upt_rec)
  then have "get32 (map (\<lambda>k. ?m (0x8010A000 + 20 + k)) [0..<4]) 0 = 2 ^ 32 - 1" by simp
  moreover have "ptable sample_nap = ptable sample_user" "cur sample_nap = Some 0" by (simp_all add: sample_nap_def sample_user_simps)
  ultimately show ?thesis using nap_uload [of 20 4]
    by (simp add: argint_def fetchint_def myproc_def sample_user_simps zero_proc_def zero_tf_def s32_def)
qed

theorem negative_sleep_sleeps_witness:
  "argint 0 sample_nap = Ok (Some (-1)) \<and> sys_sleep sample_nap = Blocks \<and>
   (\<exists>t. sys_sleep_run sample_nap = Ok (Sleep, t) \<and> p_state (ptable t ! 0) = SLEEPING \<and> p_chan (ptable t ! 0) = Some ChTicks)"
proof -
  have "cur sample_nap = Some 0" "\<not> killed sample_nap" "0 < length (ptable sample_nap)"
    by (simp_all add: sample_nap_def killed_def sample_user_simps zero_proc_def) (simp add: sample_user_def param_defs)
  then show ?thesis using negative_sleep_sleeps [OF nap_argint, of 0] nap_argint by simp
qed

end
