(* ===== verification/Exec_Atomic.thy ===== *)
theory Exec_Atomic
  imports Exec
begin

text \<open>
  \<^verbatim>\<open>exec\<close> is all or nothing for the process table: a call that fails has changed no process, one that succeeds has changed only the
  calling process, and there only its image. The device routines are required not to touch the process table and the file table; the
  console's are shown to meet that.
\<close>

section \<open>Routines that keep the process table and the file table\<close>

definition kp :: "'a kern_st_scheme \<Rightarrow> 'a kern_st_scheme \<Rightarrow> bool" where
  "kp s t \<longleftrightarrow> ptable t = ptable s \<and> cur t = cur s \<and> ftable t = ftable s"

definition dv_keeps :: "'a kern_st_scheme devsw \<Rightarrow> bool" where
  "dv_keeps dv \<longleftrightarrow> (\<forall>m rd ip n s x t. fst (dv m) = Some rd \<and> rd ip n s = Ok (x, t) \<longrightarrow> kp s t) \<and>
     (\<forall>m wr ip src s x t. snd (dv m) = Some wr \<and> wr ip src s = Ok (x, t) \<longrightarrow> kp s t)"

lemma kp_refl [simp]: "kp s s"
  by (simp add: kp_def)

lemma kp_trans: "kp s t \<Longrightarrow> kp t u \<Longrightarrow> kp s u"
  by (simp add: kp_def)

lemma kp_more: "fs_st.more t = fs_st.more s \<Longrightarrow> kp s t"
  for s t :: "'a kern_st_scheme"
  by (drule kern_more) (simp add: kp_def)

lemmas kp_fs = begin_op_more [THEN kp_more] end_op_more [THEN kp_more] ilock_more [THEN kp_more] iunlock_more [THEN kp_more]
  iput_more [THEN kp_more] iunlockput_more [THEN kp_more] iget_more [THEN kp_more] idup_more [THEN kp_more]

lemma kp_km: "km_do f s = Ok t \<Longrightarrow> kp s t" "in_km g s = Ok (r, t) \<Longrightarrow> kp s t"
  by (auto simp: km_do_def in_km_def bnd_eq_Ok kp_def)

declare readi_loop.simps [simp del] namex_loop.simps [simp del]

lemma readi_loop_more: "readi_loop i off n s = Ok (ds, t) \<Longrightarrow> fs_st.more t = fs_st.more s"
proof (induction i off n s arbitrary: ds t rule: readi_loop.induct)
  case (1 i off n s)
  show ?case
  proof (cases "n = 0")
    case True
    then show ?thesis using 1(2) by (subst (asm) readi_loop.simps) simp
  next
    case False
    then obtain a u bp v w rest where r: "bmap i (off div BSIZE) s = Ok (a, u)" "bread (i_dev (icache u ! i)) a u = Ok (bp, v)"
      "brelse bp v = Ok w" "readi_loop i (off + chunk off n) (n - chunk off n) w = Ok (rest, t)"
      using 1(2) by (subst (asm) readi_loop.simps) (auto simp: bnd_eq_Ok Let_def)
    then show ?thesis using 1(1) [OF False r(1) refl r(2) refl refl refl r(3,4)] bmap_more bread_more brelse_more by metis
  qed
qed

lemma kp_readi:
  assumes "dv_keeps dv"
  shows "ifOk (readi dv i off n s) (\<lambda>(x, t). kp s t)"
  unfolding readi_def
proof (intro ifOk_intros, goal_cases)
  case (3 ip rd)
  then show ?case using assms by (auto simp: ifOk_def dv_keeps_def)
next
  case (5 ip n' p ds t)
  then show ?case using readi_loop_more [THEN kp_more, of i off n' s] by auto
qed simp_all

text \<open>Sequencing.\<close>

lemma kp_seq: "ifOk r (\<lambda>(x, u). kp s u) \<Longrightarrow> (\<And>x u. r = Ok (x, u) \<Longrightarrow> kp s u \<Longrightarrow> ifOk (f (x, u)) Q) \<Longrightarrow> ifOk (bnd r f) Q"
  by (auto simp: ifOk_def bnd_eq_Ok)

lemma kp_weaken: "kp s u \<Longrightarrow> ifOk r (\<lambda>(x, t). kp u t) \<Longrightarrow> ifOk r (\<lambda>(x, t). kp s t)"
  by (auto simp: ifOk_def intro: kp_trans)

lemma kp_dirlookup_loop: "dv_keeps dv \<Longrightarrow> ifOk (dirlookup_loop dv dp name offs s) (\<lambda>(x, t). kp s t)"
proof (induction offs arbitrary: s)
  case Nil
  then show ?case by (auto simp: ifOk_def)
next
  case (Cons off offs)
  have IH: "ifOk (dirlookup_loop dv dp name offs u) (\<lambda>(x, t). kp s t)" if "kp s u" for u
    using Cons.IH [OF Cons.prems, of u] that kp_trans by (fastforce simp: ifOk_def)
  show ?case unfolding dirlookup_loop.simps
  proof (rule kp_seq [OF kp_readi [OF Cons.prems]], goal_cases)
    case (1 x u)
    obtain r de where x: "x = (r, de)" by force
    show ?case unfolding x prod.case
      by (intro ifOk_intros IH 1(2)) (auto dest: kp_fs(7) intro: kp_trans [OF 1(2)])
  qed
qed

lemma kp_dirlookup: "dv_keeps dv \<Longrightarrow> ifOk (dirlookup dv dp name s) (\<lambda>(x, t). kp s t)"
  unfolding dirlookup_def by (intro ifOk_intros kp_dirlookup_loop)

lemma kp_namex_loop: "dv_keeps dv \<Longrightarrow> ifOk (namex_loop dv par ip path name s) (\<lambda>(x, t). kp s t)"
proof (induction dv par ip path name s rule: namex_loop.induct)
  case (1 dv par ip path name s)
  show ?case
  proof (subst namex_loop.simps, intro ifOk_intros, goal_cases)
    case (1 u)
    then show ?case by (auto dest: kp_fs)
  next
    case 2
    then show ?case by simp
  next
    case (3 p path' name' u v)
    then show ?case by (auto dest!: kp_fs intro: kp_trans)
  next
    case (4 p path' name' u v)
    then show ?case by (auto dest!: kp_fs intro: kp_trans)
  next
    case (5 p path' name' u x r v w)
    then have "kp s u" "kp u v" "kp v w" using kp_dirlookup [OF 1(2), THEN ifOkD, OF 5(6)] by (auto dest!: kp_fs)
    then show ?case using kp_trans [of s u v] kp_trans [of s v w] by auto
  next
    case (6 p path' name' u x r v w y nxt off)
    then have "kp s u" "kp u v" "kp v w" using kp_dirlookup [OF 1(2), THEN ifOkD, OF 6(6)] by (auto dest!: kp_fs)
    moreover have "ifOk (namex_loop dv par nxt path' name' w) (\<lambda>(x, t). kp w t)"
      using 6 by (intro 1(1) [OF 6(1) 6(2) [symmetric] 6(3-6) 6(7) [symmetric] 6(8,9) 6(10) [symmetric] 1(2)])
    ultimately show ?case using kp_weaken kp_trans by blast
  qed
qed

lemma kp_namex: "dv_keeps dv \<Longrightarrow> ifOk (namex dv c path par name s) (\<lambda>(x, t). kp s t)"
  unfolding namex_def
proof (intro ifOk_intros, goal_cases)
  case (1 y ip u)
  have "kp s u" using 1(2,3) by (auto split: if_splits dest!: kp_fs(7) intro: kp_fs(8) [of c])
  then show ?case using kp_weaken kp_namex_loop [OF 1(1)] by blast
qed

lemma kp_namei: "dv_keeps dv \<Longrightarrow> ifOk (namei dv c path s) (\<lambda>(x, t). kp s t)"
  unfolding namei_def by (rule kp_seq [OF kp_namex]) (auto simp: ifOk_def)

lemma kp_p_namei: "dv_keeps dv \<Longrightarrow> ifOk (p_namei dv path s) (\<lambda>(x, t). kp s t)"
  unfolding p_namei_def with_cwd_def by (intro ifOk_intros kp_namei)

lemma kp_loaduvm_loop: "dv_keeps dv \<Longrightarrow> ifOk (loaduvm_loop dv pgdir addr ip off i sz s) (\<lambda>(x, t). kp s t)"
proof (induction dv pgdir addr ip off i sz s rule: loaduvm_loop.induct)
  case (1 dv pgdir addr ip off i sz s)
  have k: "kp s (v\<lparr>km := x\<rparr>)" if "readi dv ip o' n s = Ok (y, v)" for o' n y v x
    using kp_readi [OF 1(2), THEN ifOkD, OF that] by (simp add: kp_def)
  show ?case
  proof (subst loaduvm_loop.simps, intro ifOk_intros, goal_cases)
    case (1 pte pa n y x v r ds t)
    then show ?case using k by auto
  next
    case (2 pte pa n y x v r ds t)
    have "ifOk (loaduvm_loop dv pgdir addr ip off (i + PGSIZE) sz t) (\<lambda>(x, y). kp t y)"
      by (rule 1(1) [OF 2(1-6) 2(7) [symmetric] 2(8) [symmetric] 2(9-11) 1(2)])
    moreover have "kp s t" using k [OF 2(6) [unfolded 2(7)]] unfolding 2(9) .
    ultimately show ?case using kp_weaken by blast
  qed simp_all
qed

lemma kp_loaduvm: "dv_keeps dv \<Longrightarrow> ifOk (loaduvm dv pgdir addr ip off sz s) (\<lambda>(x, t). kp s t)"
  unfolding loaduvm_def by (intro ifOk_intros kp_loaduvm_loop)

lemma kp_exec_load: "dv_keeps dv \<Longrightarrow> ifOk (exec_load dv pgdir ip off k sz s) (\<lambda>(x, t). kp s t)"
proof (induction k arbitrary: off sz s)
  case (Suc k)
  have IH: "ifOk (exec_load dv pgdir ip off' k sz' t) (\<lambda>(x, y). kp s y)" if "kp s t" for off' sz' t
    using kp_weaken [OF that Suc.IH [OF Suc.prems]] .
  show ?case unfolding exec_load.simps
  proof (rule kp_seq [OF kp_readi [OF Suc.prems]], goal_cases)
    case (1 x u)
    obtain r d where x: "x = (r, d)" by force
    have v: "kp s v" if "in_km g u = Ok (y, v)" for g v and y :: nat using kp_trans [OF 1(2) kp_km(2) [OF that]] .
    have w: "kp s w" if "in_km g u = Ok (y, v)" "loaduvm dv pgdir a ip o' z v = Ok (r', w)" for g v a o' z r' w and y :: nat
      using kp_trans [OF v [OF that(1)]] kp_loaduvm [OF Suc.prems, THEN ifOkD, OF that(2)] by simp
    show ?case unfolding x prod.case
      by (intro ifOk_intros IH) (use 1(2) v w in \<open>auto\<close>)
  qed
qed (simp add: ifOk_def)

lemma kp_exec_args: "ifOk (exec_args pgdir as sp us s) (\<lambda>(x, t). kp s t)"
proof (induction as arbitrary: sp us s)
  case (Cons a as)
  have IH: "ifOk (exec_args pgdir as sp' us' t) (\<lambda>(x, y). kp s y)" if "kp s t" for sp' us' t
    using kp_weaken [OF that Cons.IH] .
  show ?case unfolding exec_args.simps by (intro ifOk_intros IH) (auto dest: kp_km)
qed (simp add: ifOk_def)

lemma kp_exec_bad: "ifOk (exec_bad pgdir ipo s) (\<lambda>(r, t). r = -1 \<and> kp s t)"
  unfolding exec_bad_def
proof (intro ifOk_intros, goal_cases)
  case (1 u)
  then show ?case by (auto split: if_splits dest: kp_km)
next
  case (2 u ip v w)
  have "kp s u" using 2(1) by (auto split: if_splits dest: kp_km)
  then show ?case using kp_fs(6) [OF 2(3)] kp_fs(2) [OF 2(4)] by (simp add: kp_def)
qed

text \<open>The result: nothing, or a new image for process \<open>i\<close>.\<close>

definition exec_post :: "nat \<Rightarrow> 'a kern_st_scheme \<Rightarrow> int \<times> 'a kern_st_scheme \<Rightarrow> bool" where
  "exec_post i s = (\<lambda>(r, t). r = -1 \<and> kp s t \<or>
     r = 0 \<and> cur t = cur s \<and> (\<exists>q. ptable t = (ptable s)[i := q] \<and>
       q = (ptable s ! i)\<lparr>p_name := p_name q, p_pgdir := p_pgdir q, p_sz := p_sz q, p_tf := p_tf q, p_priority := 2\<rparr>))"

lemma exec_post_bad: "kp s u \<Longrightarrow> ifOk (exec_bad pgdir ipo u) (exec_post i s)"
  using kp_exec_bad [of pgdir ipo u] kp_trans [of s u] by (auto simp: ifOk_def exec_post_def)

lemma exec_post_commit: "kp s u \<Longrightarrow> ifOk (exec_commit i path pgdir sz ent sp u) (exec_post i s)"
  unfolding exec_commit_def
  by (intro ifOk_intros)
    (auto simp: exec_post_def kp_def switchuvm_def upd_proc_def km_do_def bnd_eq_Ok split: if_splits)

lemma exec_post_stack: "kp s u \<Longrightarrow> ifOk (exec_stack i path argv pgdir sz ent u) (exec_post i s)"
  unfolding exec_stack_def
proof (intro ifOk_intros exec_post_bad exec_post_commit, goal_cases)
  case (1 z x sz' v)
  then show ?case using kp_km(2) by (fastforce simp: kp_def)
next
  case (2 z x sz' v w y r t)
  have "kp u v" "kp v w" "kp w t" using kp_km(2) [OF 2(3) [unfolded 2(4)]] kp_km(1) [OF 2(6)] kp_exec_args [THEN ifOkD, OF 2(7)] 2(8) by auto
  then show ?case using 2(1) by (simp add: kp_def)
next
  case (3 z x sz' v w y r t p sp us sp' c r' t')
  have "kp u v" "kp v w" "kp w t" "kp t t'"
    using kp_km(2) [OF 3(3) [unfolded 3(4)]] kp_km(1) [OF 3(6)] kp_exec_args [THEN ifOkD, OF 3(7)] 3(8) kp_km(2) [OF 3(12) [unfolded 3(13)]] by auto
  then show ?case using 3(1) by (simp add: kp_def)
next
  case (4 z x sz' v w y r t p sp us sp' c r' t')
  have "kp u v" "kp v w" "kp w t" "kp t t'"
    using kp_km(2) [OF 4(3) [unfolded 4(4)]] kp_km(1) [OF 4(6)] kp_exec_args [THEN ifOkD, OF 4(7)] 4(8) kp_km(2) [OF 4(12) [unfolded 4(13)]] by auto
  then show ?case using 4(1) by (simp add: kp_def)
qed

lemma kp_cprintf: "cprintf f as s = Ok t \<Longrightarrow> kp s t"
  by (auto simp: cprintf_def kp_def bnd_eq_Ok split: option.splits)

lemma exec_post_exec:
  assumes dv: "dv_keeps dv" and c: "cur s = Some i"
  shows "ifOk (exec dv path argv s) (exec_post i s)"
proof -
  have A: "kp s sa" if "begin_op s = Ok xa" "p_namei dv path xa = Ok (r, sa)" for xa r sa
    using kp_fs(1) [OF that(1)] kp_p_namei [OF dv, THEN ifOkD, OF that(2)] kp_trans by auto
  have B: "kp s b" if "begin_op s = Ok xa" "p_namei dv path xa = Ok (r, sa)" "ilock ip sa = Ok xc" "readi dv ip o' n xc = Ok (a, b)"
    for xa r sa ip xc o' n a b
    using A [OF that(1,2)] kp_fs(3) [OF that(3)] kp_readi [OF dv, THEN ifOkD, OF that(4)] by (simp add: kp_def)
  have C: "kp s d" if "begin_op s = Ok xa" "p_namei dv path xa = Ok (r, sa)" "ilock ip sa = Ok xc" "readi dv ip o' n xc = Ok (a, b)"
      "in_km setupkvm b = Ok (pgdir, v)" "exec_load dv pgdir ip off k sz v = Ok (x, d)"
    for xa r sa ip xc o' n a b pgdir v off k sz x d
    using B [OF that(1-4)] kp_km(2) [OF that(5)] kp_exec_load [OF dv, THEN ifOkD, OF that(6)] by (simp add: kp_def)
  show ?thesis unfolding exec_def myproc_def c option.case bnd.simps
  proof (intro ifOk_intros exec_post_bad exec_post_stack, goal_cases)
    case (1 u x r v w y)
    then show ?case using A [OF 1(1)] kp_fs(2) [OF 1(5)] kp_cprintf [OF 1(6)] by (auto simp: exec_post_def kp_def)
  next
    case (2 xa xb r sa ip xc xd a b ra d elf)
    then show ?case using B [OF 2(1) 2(2) [unfolded 2(3)] 2(5) 2(6) [unfolded 2(7)]] by simp
  next
    case (3 xa xb r sa ip xc xd a b ra d elf)
    then show ?case using B [OF 3(1) 3(2) [unfolded 3(3)] 3(5) 3(6) [unfolded 3(7)]] by simp
  next
    case (4 xa xb r sa ip xc xd a b ra d elf p pgdir v)
    then show ?case using kp_trans [OF B [OF 4(1) 4(2) [unfolded 4(3)] 4(5) 4(6) [unfolded 4(7)]] kp_km(2) [OF 4(12) [unfolded 4(13)]]] by simp
  next
    case (5 xa xb r sa ip xc xd a b ra d elf p pgdir v q x t)
    then show ?case
      using C [OF 5(1) 5(2) [unfolded 5(3)] 5(5) 5(6) [unfolded 5(7)] 5(12) [unfolded 5(13)] 5(15) [unfolded 5(16)]] by simp
  next
    case (6 xa xb r sa ip xc xd a b ra d elf p pgdir v q x t sz e g)
    have "kp s t" using C [OF 6(1) 6(2) [unfolded 6(3)] 6(5) 6(6) [unfolded 6(7)] 6(12) [unfolded 6(13)] 6(15) [unfolded 6(16)]] .
    then show ?case using kp_fs(6) [OF 6(18)] kp_fs(2) [OF 6(19)] by (simp add: kp_def)
  qed
qed

lemma kp_upd_input [simp]: "kp s (upd_input f s)"
  by (simp add: kp_def upd_input_def)

lemma kp_consoleread_loop: "kp s (snd (snd (snd (consoleread_loop target n s))))"
proof (induction target n s rule: consoleread_loop.induct)
  case (2 target n s)
  let ?u = "upd_input (\<lambda>b. b\<lparr>in_r := in_r b + 1\<rparr>) s"
  have "kp s (snd (snd (snd (consoleread_loop target n ?u))))"
    if "in_r (input s) \<noteq> in_w (input s)" "in_at (input s) (in_r (input s)) \<noteq> 4" "in_at (input s) (in_r (input s)) \<noteq> 10"
    using kp_trans [OF kp_upd_input 2 [OF refl that(1) refl refl that(2,3)]] .
  moreover have "kp s (upd_input f ?u)" for f by (rule kp_trans [OF kp_upd_input kp_upd_input])
  ultimately show ?case by (simp add: Let_def case_prod_beta)
qed simp

lemma kp_consoleread: "ifOk (consoleread ip n s) (\<lambda>(x, t). kp s t)"
  unfolding consoleread_def
proof (intro ifOk_intros, goal_cases)
  case (1 u d y bs z k v w)
  have "kp u v" using kp_consoleread_loop [of u n n] 1(2-4) by simp
  then show ?case using kp_fs(4) [OF 1(1)] kp_fs(3) [OF 1(6)] by (simp add: kp_def)
next
  case (2 u d y bs z k v w)
  have "kp u v" using kp_consoleread_loop [of u n n] 2(2-4) by simp
  then show ?case using kp_fs(4) [OF 2(1)] kp_fs(3) [OF 2(7)] by (simp add: kp_def)
qed

lemma kp_consputc: "kp s (fold (\<lambda>b. consputc (uint b)) bs s)"
proof (induction bs arbitrary: s)
  case (Cons b bs)
  have "kp s (consputc (uint b) s)" by (simp add: consputc_def kp_def)
  from kp_trans [OF this Cons] show ?case by simp
qed simp

lemma kp_consolewrite: "ifOk (consolewrite ip src s) (\<lambda>(x, t). kp s t)"
  unfolding consolewrite_def
proof (intro ifOk_intros, goal_cases)
  case (1 u v)
  then show ?case using kp_trans [OF kp_trans [OF kp_fs(4) [OF 1(1)] kp_consputc] kp_fs(3) [OF 1(2)]] by simp
qed

lemma dv_keeps_console: "dv_keeps consoleinit"
  using kp_consoleread [THEN ifOkD] kp_consolewrite [THEN ifOkD]
  unfolding dv_keeps_def consoleinit_def by (fastforce split: if_splits)

section \<open>Properties\<close>

text \<open>
  C26. \<^verbatim>\<open>exec\<close> is all or nothing: a call that returns -1, at whichever of its checks, has changed no process; a call that
  returns 0 has changed only the caller, and of it only name, address space, size, trap frame and priority: its pid, parent, open files,
  directory, state and kill mark are kept.
\<close>

theorem exec_all_or_nothing:
  assumes "dv_keeps dv" "cur s = Some i" "exec dv path argv s = Ok (r, t)"
  shows "r = -1 \<and> ptable t = ptable s \<or>
    r = 0 \<and> (\<exists>q. ptable t = (ptable s)[i := q] \<and>
      q = (ptable s ! i)\<lparr>p_name := p_name q, p_pgdir := p_pgdir q, p_sz := p_sz q, p_tf := p_tf q, p_priority := 2\<rparr>)"
  using ifOkD [OF exec_post_exec [OF assms(1,2)] assms(3)] by (auto simp: exec_post_def kp_def)

text \<open>A process whose current directory is a plain file: every relative path fails.\<close>

definition sample_exec :: kern_st where
  "sample_exec = (boot_kern (\<lambda>_. []) 0 empty_kmem)\<lparr>cur := Some 0,
     icache := (replicate NINODE zero_inode)[0 := zero_inode\<lparr>i_ref := 1, i_valid := True, i_type := T_FILE\<rparr>],
     ptable := (replicate NPROC zero_proc)[0 := zero_proc\<lparr>p_state := RUNNING, p_pid := 1, p_cwd := Some 0\<rparr>]\<rparr>"

lemma sample_exec_fails: "\<exists>t. exec consoleinit [120] [] sample_exec = Ok (-1, t)"
  by (simp add: exec_def sample_exec_def boot_kern_def myproc_def p_namei_def with_cwd_def namei_def namex_def begin_op_def end_op_def
      namex_loop.simps skipelem_def idup_def ilock_def iunlockput_def iunlock_def iput_def upd_inode_def acquiresleep_def releasesleep_def
      holdingsleep_def commit_def cprintf_def ascii_def T_DIR_def T_FILE_def zero_inode_def zero_proc_def param_defs Let_def)

theorem exec_all_or_nothing_witness:
  "\<exists>t. exec consoleinit [120] [] sample_exec = Ok (-1, t) \<and> ptable t = ptable sample_exec"
proof -
  obtain t where t: "exec consoleinit [120] [] sample_exec = Ok (-1, t)" using sample_exec_fails by blast
  moreover have "cur sample_exec = Some 0" by (simp add: sample_exec_def)
  ultimately show ?thesis using exec_all_or_nothing [OF dv_keeps_console _ t, of 0] by auto
qed

end
