(* ===== verification/Fd.thy ===== *)
theory Fd
  imports Exec_Atomic
begin

text \<open>
  Descriptors and reference counts. An open file is shared by all the descriptors that name it,
  in any number of processes; its reference count decides when it is closed. The theory shows that the count is exactly the
  number of descriptors, through \<^verbatim>\<open>open\<close>, \<^verbatim>\<open>dup\<close>, \<^verbatim>\<open>close\<close>, \<^verbatim>\<open>pipe\<close>, \<^verbatim>\<open>fork\<close>,
  \<^verbatim>\<open>exit\<close> and everything the scheduler does in between. Inside a call the code may hold references that no descriptor accounts for
  yet: \<open>e f\<close> is their number.
\<close>

section \<open>The invariant\<close>

definition fds :: "proc list \<Rightarrow> nat \<Rightarrow> nat" where
  "fds ps f = (\<Sum>p \<leftarrow> ps. count_list (p_ofile p) (Some f))"

definition dead :: "proc \<Rightarrow> bool" where
  "dead p \<longleftrightarrow> p_state p \<in> {UNUSED, ZOMBIE}"

definition no_files :: "proc \<Rightarrow> bool" where
  "no_files p \<longleftrightarrow> p_ofile p = replicate NOFILE None"

definition fd_inv :: "(nat \<Rightarrow> int) \<Rightarrow> 'a kern_st_scheme \<Rightarrow> bool" where
  "fd_inv e s \<longleftrightarrow> length (ptable s) = NPROC \<and> length (ftable s) = NFILE \<and>
     (\<forall>i < NPROC. length (p_ofile (ptable s ! i)) = NOFILE \<and> (dead (ptable s ! i) \<longrightarrow> no_files (ptable s ! i)) \<and>
        (\<forall>f. Some f \<in> set (p_ofile (ptable s ! i)) \<longrightarrow> f < NFILE)) \<and>
     (\<forall>f < NFILE. f_ref (ftable s ! f) = int (fds (ptable s) f) + e f)"

text \<open>Steps that change neither descriptors nor counts, and make no process dead.\<close>

definition fq :: "proc \<Rightarrow> proc \<Rightarrow> bool" where
  "fq p q \<longleftrightarrow> p_ofile q = p_ofile p \<and> (dead q \<longrightarrow> dead p)"

definition fk :: "'a kern_st_scheme \<Rightarrow> 'a kern_st_scheme \<Rightarrow> bool" where
  "fk s t \<longleftrightarrow> list_all2 fq (ptable s) (ptable t) \<and> map f_ref (ftable t) = map f_ref (ftable s)"

lemma fq_refl [simp]: "fq p p"
  by (simp add: fq_def)

lemma fk_refl [simp]: "fk s s"
  by (simp add: fk_def list.rel_refl)

lemma fk_trans: "fk s t \<Longrightarrow> fk t u \<Longrightarrow> fk s u"
  unfolding fk_def by (auto intro: list_all2_trans [of fq fq fq] simp: fq_def)

lemma fk_kp: "kp s t \<Longrightarrow> fk s t"
  by (simp add: kp_def fk_def list.rel_refl)

lemma fk_upd: "fq (ptable s ! i) (f (ptable s ! i)) \<Longrightarrow> fk s (upd_proc i f s)"
  using list_all2_update_cong [of fq "ptable s" "ptable s" "ptable s ! i" "f (ptable s ! i)" i]
  by (simp add: fk_def upd_proc_def list.rel_refl)

lemma fk_file: "f_ref (g (ftable s ! f)) = f_ref (ftable s ! f) \<Longrightarrow> fk s (upd_file f g s)"
proof -
  assume g: "f_ref (g (ftable s ! f)) = f_ref (ftable s ! f)"
  have "map f_ref ((ftable s)[f := g (ftable s ! f)]) = map f_ref (ftable s)"
  proof (rule nth_equalityI)
    show "map f_ref ((ftable s)[f := g (ftable s ! f)]) ! i = map f_ref (ftable s) ! i"
      if "i < length (map f_ref ((ftable s)[f := g (ftable s ! f)]))" for i
      using that g by (cases "i = f") auto
  qed simp
  then show ?thesis by (simp add: fk_def upd_file_def list.rel_refl)
qed

lemma fk_wakeup1 [simp]: "fk s (wakeup1 ch s)"
  by (auto simp: fk_def wakeup1_def list_all2_conv_all_nth fq_def dead_def)

lemma fk_wakeup [simp]: "fk s (wakeup ch s)" "fk s (wakeup_opt po s)"
  by (simp_all add: wakeup_def wakeup_opt_def)

lemma fk_pipe [simp]: "fk s (upd_pipe a f s)"
  by (simp add: fk_def upd_pipe_def list.rel_refl)

lemma fk_fds: "list_all2 fq ps qs \<Longrightarrow> fds qs f = fds ps f"
  by (induction ps qs rule: list_all2_induct) (auto simp: fds_def fq_def)

lemma fk_inv:
  assumes "fk s t" "fd_inv e s"
  shows "fd_inv e t"
proof -
  have l: "length (ptable t) = length (ptable s)" "length (ftable t) = length (ftable s)"
    using assms(1) by (auto simp: fk_def dest: list_all2_lengthD map_eq_imp_length_eq)
  have q: "fq (ptable s ! i) (ptable t ! i)" if "i < length (ptable s)" for i
    using assms(1) that by (auto simp: fk_def list_all2_conv_all_nth)
  have r: "f_ref (ftable t ! f) = f_ref (ftable s ! f)" if "f < length (ftable s)" for f
    using assms(1) that l(2) unfolding fk_def by (metis nth_map)
  show ?thesis
    using assms(2) l q r fk_fds [of "ptable s" "ptable t"] assms(1)
    unfolding fd_inv_def fk_def fq_def no_files_def by simp
qed

section \<open>Counting\<close>

lemma count_list_update:
  "i < length xs \<Longrightarrow> count_list (xs[i := v]) x + (if xs ! i = x then 1 else 0) = count_list xs x + (if v = x then 1 else 0)"
proof (induction xs arbitrary: i)
  case (Cons y xs)
  show ?case
  proof (cases i)
    case (Suc k)
    then show ?thesis using Cons.IH [of k] Cons.prems by (simp split: if_splits)
  qed simp
qed simp

lemma fds_update:
  assumes "i < length ps"
  shows "fds (ps[i := q]) f + count_list (p_ofile (ps ! i)) (Some f) = fds ps f + count_list (p_ofile q) (Some f)"
  using assms
proof (induction ps arbitrary: i)
  case (Cons p ps)
  then show ?case by (cases i) (auto simp: fds_def)
qed simp

lemma fds_set:
  assumes "i < length ps" "fd < length (p_ofile (ps ! i))"
  shows "int (fds (ps[i := (ps ! i)\<lparr>p_ofile := (p_ofile (ps ! i))[fd := v]\<rparr>]) f) =
    int (fds ps f) + (if v = Some f then 1 else 0) - (if p_ofile (ps ! i) ! fd = Some f then 1 else 0)"
  using fds_update [OF assms(1), of "(ps ! i)\<lparr>p_ofile := (p_ofile (ps ! i))[fd := v]\<rparr>" f]
    count_list_update [OF assms(2), of v "Some f"] by (auto split: if_splits)

section \<open>Files\<close>

text \<open>The current process exists and is alive.\<close>

definition cur_ok :: "'a kern_st_scheme \<Rightarrow> bool" where
  "cur_ok s \<longleftrightarrow> (\<forall>i. cur s = Some i \<longrightarrow> i < NPROC \<and> \<not> dead (ptable s ! i))"

lemma fk_cur: "fk s t \<Longrightarrow> cur t = cur s \<Longrightarrow> length (ptable s) = NPROC \<Longrightarrow> cur_ok s \<Longrightarrow> cur_ok t"
  by (auto simp: cur_ok_def fk_def list_all2_conv_all_nth fq_def)

lemma fd_inv_ref:
  assumes "fd_inv e s" "f < NFILE"
  shows "fd_inv (e(f := e f + k)) (upd_file f (\<lambda>x. x\<lparr>f_ref := f_ref x + k\<rparr>) s)"
  using assms by (auto simp: fd_inv_def upd_file_def nth_list_update)

lemma filealloc_inv:
  assumes "fd_inv e s" "filealloc s = (r, t)"
  shows "case r of None \<Rightarrow> t = s | Some f \<Rightarrow> f < NFILE \<and> fd_inv (e(f := e f + 1)) t \<and> ptable t = ptable s \<and> cur t = cur s"
proof (cases r)
  case None
  then show ?thesis using assms(2) by (auto simp: filealloc_def split: option.splits)
next
  case (Some f)
  then have f: "f < NFILE" "f_ref (ftable s ! f) = 0" "t = upd_file f (\<lambda>x. x\<lparr>f_ref := 1\<rparr>) s"
    using assms(2) by (auto simp: filealloc_def find_upt_Some split: option.splits)
  then have "t = upd_file f (\<lambda>x. x\<lparr>f_ref := f_ref x + 1\<rparr>) s" by (simp add: upd_file_def)
  then show ?thesis using fd_inv_ref [OF assms(1) f(1), of 1] f(1) Some by (simp add: upd_file_def)
qed

lemma filedup_inv:
  "fd_inv e s \<Longrightarrow> f < NFILE \<Longrightarrow> filedup f s = Ok t \<Longrightarrow> fd_inv (e(f := e f + 1)) t \<and> ptable t = ptable s \<and> cur t = cur s"
  using fd_inv_ref [of e s f 1] by (auto simp: filedup_def upd_file_def split: if_splits)

lemma fk_pipeclose: "pipeclose p w s = Ok t \<Longrightarrow> fk s t \<and> cur t = cur s"
proof -
  assume a: "pipeclose p w s = Ok t"
  let ?u = "if w then wakeup (ChNread p) (upd_pipe p (\<lambda>q. q\<lparr>pi_writeopen := False\<rparr>) s)
    else wakeup (ChNwrite p) (upd_pipe p (\<lambda>q. q\<lparr>pi_readopen := False\<rparr>) s)"
  have "fk s ?u" by (auto intro: fk_trans [OF fk_pipe fk_wakeup(1)])
  moreover have "?u = t \<or> kp ?u t" using a by (auto simp: pipeclose_def Let_def split: if_splits dest: kp_km(1))
  then have "fk ?u t" using fk_kp by auto
  moreover have "cur t = cur s" using keeps_pipeclose [OF a] by (simp add: keeps_def)
  ultimately show ?thesis using fk_trans by blast
qed

lemma fileclose_inv:
  assumes inv: "fd_inv e s" and f: "f < NFILE" and c: "fileclose f s = Ok t"
  shows "fd_inv (e(f := e f - 1)) t" "list_all2 fq (ptable s) (ptable t)" "cur t = cur s"
proof -
  define u where "u = upd_file f (\<lambda>x. x\<lparr>f_ref := f_ref x - 1\<rparr>) s"
  define v where "v = upd_file f (\<lambda>x. x\<lparr>f_ref := 0, f_type := FD_NONE\<rparr>) u"
  have u: "fd_inv (e(f := e f - 1)) u" using fd_inv_ref [OF inv f, of "-1"] by (simp add: u_def)
  have k: "fk u t"
  proof (cases "f_ref (ftable u ! f) > 0")
    case True
    then show ?thesis using c by (auto simp: fileclose_def Let_def u_def split: if_splits)
  next
    case False
    then have z: "f_ref (ftable u ! f) = 0" using c f inv
      by (auto simp: fileclose_def u_def upd_file_def fd_inv_def split: if_splits)
    have uv: "fk u v" unfolding v_def by (rule fk_file) (simp add: z)
    have "fk v t"
    proof (cases "f_type (ftable u ! f)")
      case FD_NONE
      then show ?thesis using c False by (auto simp: fileclose_def Let_def u_def v_def split: if_splits)
    next
      case FD_PIPE
      then show ?thesis using c False fk_pipeclose
        by (auto simp: fileclose_def Let_def u_def v_def split: if_splits)
    next
      case FD_INODE
      then obtain x y where "begin_op v = Ok x" "iput (f_ip (ftable u ! f)) x = Ok y" "end_op y = Ok t"
        using c False by (auto simp: fileclose_def Let_def u_def v_def bnd_eq_Ok split: if_splits)
      then have "fs_st.more t = fs_st.more v" using begin_op_more iput_more end_op_more by metis
      then show ?thesis by (intro fk_kp kp_more)
    qed
    with uv show ?thesis by (rule fk_trans)
  qed
  show "fd_inv (e(f := e f - 1)) t" by (rule fk_inv [OF k u])
  show "list_all2 fq (ptable s) (ptable t)" using k by (simp add: fk_def u_def upd_file_def)
  show "cur t = cur s" using keeps_fileclose [OF c] by (simp add: keeps_def)
qed

section \<open>Descriptors\<close>

abbreviation set_fd :: "nat \<Rightarrow> nat \<Rightarrow> nat option \<Rightarrow> 'a kern_st_scheme \<Rightarrow> 'a kern_st_scheme" where
  "set_fd i fd v s \<equiv> upd_proc i (\<lambda>p. p\<lparr>p_ofile := (p_ofile p)[fd := v]\<rparr>) s"

lemma set_fd_inv:
  assumes inv: "fd_inv e s" and i: "i < NPROC" "fd < NOFILE" and v: "v = None \<or> \<not> dead (ptable s ! i)" "\<And>f. v = Some f \<Longrightarrow> f < NFILE"
    and e': "\<And>f. f < NFILE \<Longrightarrow> e' f = e f - (if v = Some f then 1 else 0) + (if p_ofile (ptable s ! i) ! fd = Some f then 1 else 0)"
  shows "fd_inv e' (set_fd i fd v s)"
proof -
  let ?p = "ptable s ! i" and ?t = "set_fd i fd v s"
  have I: "length (ptable s) = NPROC" "length (ftable s) = NFILE" "length (p_ofile ?p) = NOFILE" "dead ?p \<longrightarrow> no_files ?p"
    "\<And>f. f < NFILE \<Longrightarrow> f_ref (ftable s ! f) = int (fds (ptable s) f) + e f"
    using inv i(1) by (simp_all add: fd_inv_def)
  have T: "ptable ?t = (ptable s)[i := ?p\<lparr>p_ofile := (p_ofile ?p)[fd := v]\<rparr>]" "ftable ?t = ftable s" by (simp_all add: upd_proc_def)
  have "length (p_ofile (ptable ?t ! j)) = NOFILE \<and> (dead (ptable ?t ! j) \<longrightarrow> no_files (ptable ?t ! j)) \<and>
      (\<forall>f. Some f \<in> set (p_ofile (ptable ?t ! j)) \<longrightarrow> f < NFILE)" if j: "j < NPROC" for j
  proof (cases "j = i")
    case True
    have "no_files (?p\<lparr>p_ofile := (p_ofile ?p)[fd := v]\<rparr>)" if "dead ?p"
      using I(4) v(1) that by (auto simp: no_files_def list_update_same_conv i(2))
    moreover have "f < NFILE" if "Some f \<in> set ((p_ofile ?p)[fd := v])" for f
      using that v(2) inv i(1) set_update_subset_insert [of "p_ofile ?p" fd v] by (auto simp: fd_inv_def)
    ultimately show ?thesis using True I(1,3) i(1) by (simp add: T(1) dead_def)
  qed (use inv j in \<open>simp add: T(1) fd_inv_def\<close>)
  moreover have "f_ref (ftable ?t ! f) = int (fds (ptable ?t) f) + e' f" if "f < NFILE" for f
    using fds_set [of i "ptable s" fd v f] I(1,3) I(5) [OF that] i e' [OF that] by (auto simp: T)
  ultimately show ?thesis using I(1,2) by (simp add: fd_inv_def T)
qed

lemma fdalloc_inv:
  assumes inv: "fd_inv e s" "cur_ok s" and f: "f < NFILE" and a: "fdalloc f s = Ok (r, t)"
  shows "case r of None \<Rightarrow> t = s | Some fd \<Rightarrow> fd < NOFILE \<and> fd_inv (e(f := e f - 1)) t \<and> cur_ok t \<and> cur t = cur s \<and>
    (\<exists>i. cur s = Some i \<and> p_ofile (ptable t ! i) ! fd = Some f)"
proof (cases r)
  case None
  then show ?thesis using a by (auto simp: fdalloc_def bnd_eq_Ok split: option.splits)
next
  case (Some fd)
  then obtain i where i: "cur s = Some i" "fd < NOFILE" "p_ofile (ptable s ! i) ! fd = None" "t = set_fd i fd (Some f) s"
    using a by (auto simp: fdalloc_def bnd_eq_Ok find_upt_Some myproc_def split: option.splits)
  have c: "i < NPROC" "\<not> dead (ptable s ! i)" using inv(2) i(1) by (auto simp: cur_ok_def)
  have l: "length (ptable s) = NPROC" "length (p_ofile (ptable s ! i)) = NOFILE" using inv(1) c by (simp_all add: fd_inv_def)
  have "fd_inv (e(f := e f - 1)) t" unfolding i(4) by (rule set_fd_inv [OF inv(1) c(1) i(2)]) (use c f i(3) in auto)
  moreover have "cur_ok t" "cur t = cur s" "p_ofile (ptable t ! i) ! fd = Some f"
    using c i(1,2) l unfolding i(4) by (auto simp: cur_ok_def upd_proc_def dead_def)
  ultimately show ?thesis using Some i(1,2) by simp
qed

lemma fdclear_inv:
  assumes inv: "fd_inv e s" "cur_ok s" and i: "cur s = Some i" "fd < NOFILE" "p_ofile (ptable s ! i) ! fd = Some f" and c: "fdclear fd s = Ok t"
  shows "fd_inv (e(f := e f + 1)) t" "cur_ok t" "f < NFILE" "cur t = cur s"
proof -
  have t: "t = set_fd i fd None s" using c i(1) by (simp add: fdclear_def myproc_def)
  have c: "i < NPROC" "\<not> dead (ptable s ! i)" using inv(2) i(1) by (auto simp: cur_ok_def)
  have l: "length (ptable s) = NPROC" "length (p_ofile (ptable s ! i)) = NOFILE" using inv(1) c by (simp_all add: fd_inv_def)
  then show "f < NFILE" using inv(1) c(1) i(2,3) by (metis fd_inv_def nth_mem)
  show "fd_inv (e(f := e f + 1)) t" unfolding t by (rule set_fd_inv [OF inv(1) c(1) i(2)]) (use i(3) in auto)
  show "cur_ok t" "cur t = cur s" using c i(1,2) l unfolding t by (auto simp: cur_ok_def upd_proc_def dead_def)
qed

lemma argfd_ok:
  assumes "argfd n s = Ok (Some (fd, f))" "fd_inv e s" "cur_ok s"
  shows "\<exists>i. cur s = Some i \<and> fd < NOFILE \<and> p_ofile (ptable s ! i) ! fd = Some f \<and> f < NFILE \<and> 1 \<le> fds (ptable s) f"
proof -
  obtain i where i: "cur s = Some i" "fd < NOFILE" "p_ofile (ptable s ! i) ! fd = Some f"
    using assms(1) by (auto simp: argfd_def bnd_eq_Ok myproc_def split: option.splits if_splits)
  have c: "i < NPROC" using assms(3) i(1) by (simp add: cur_ok_def)
  have l: "length (p_ofile (ptable s ! i)) = NOFILE" "length (ptable s) = NPROC" using assms(2) c by (simp_all add: fd_inv_def)
  then have m: "Some f \<in> set (p_ofile (ptable s ! i))" using i(2,3) by (metis nth_mem)
  then have "f < NFILE" using assms(2) c by (auto simp: fd_inv_def)
  moreover have "1 \<le> count_list (p_ofile (ptable s ! i)) (Some f)" using m using count_list_0_iff [of "p_ofile (ptable s ! i)" "Some f"] by linarith
  then have "1 \<le> fds (ptable s) f"
    unfolding fds_def using c l(2) by (metis (no_types, lifting) elem_le_sum_list length_map nth_map order_trans)
  ultimately show ?thesis using i by blast
qed

section \<open>The system calls\<close>

lemma sys_dup_inv:
  assumes inv: "fd_inv (\<lambda>_. 0) s" "cur_ok s" and d: "sys_dup s = Ok (r, t)"
  shows "fd_inv (\<lambda>_. 0) t \<and> cur_ok t"
proof (cases "argfd 0 s = Ok None")
  case True
  then show ?thesis using d inv by (auto simp: sys_dup_def)
next
  case False
  then obtain fd f r' u where a: "argfd 0 s = Ok (Some (fd, f))" "fdalloc f s = Ok (r', u)"
    and k: "(case r' of None \<Rightarrow> Ok (-1, u) | Some fd \<Rightarrow> bnd (filedup f u) (\<lambda>s. Ok (int fd, s))) = Ok (r, t)"
    using d by (auto simp: sys_dup_def bnd_eq_Ok split: option.splits)
  have f: "f < NFILE" using argfd_ok [OF a(1) inv] by blast
  show ?thesis
  proof (cases r')
    case None
    then show ?thesis using fdalloc_inv [OF inv f a(2)] k inv by simp
  next
    case (Some fd')
    then have u: "fd_inv ((\<lambda>_. 0)(f := -1)) u" "cur_ok u" using fdalloc_inv [OF inv f a(2)] by simp_all
    obtain v where "filedup f u = Ok v" "t = v" using k Some by (auto simp: bnd_eq_Ok)
    then show ?thesis using filedup_inv [OF u(1) f] u(2) by (auto simp: cur_ok_def fun_upd_idem)
  qed
qed

lemma sys_close_inv:
  assumes inv: "fd_inv (\<lambda>_. 0) s" "cur_ok s" and d: "sys_close s = Ok (r, t)"
  shows "fd_inv (\<lambda>_. 0) t \<and> cur_ok t"
proof (cases "argfd 0 s = Ok None")
  case True
  then show ?thesis using d inv by (auto simp: sys_close_def)
next
  case False
  then obtain fd f u where a: "argfd 0 s = Ok (Some (fd, f))" "fdclear fd s = Ok u" "fileclose f u = Ok t"
    using d by (auto simp: sys_close_def bnd_eq_Ok split: option.splits)
  obtain i where i: "cur s = Some i" "fd < NOFILE" "p_ofile (ptable s ! i) ! fd = Some f" using argfd_ok [OF a(1) inv] by blast
  note u = fdclear_inv [OF inv i a(2)]
  note t = fileclose_inv [OF u(1,3) a(3)]
  have "length (ptable u) = NPROC" using u(1) by (simp add: fd_inv_def)
  then have "cur_ok t" using u(2) t(2,3) by (auto simp: cur_ok_def list_all2_conv_all_nth fq_def)
  then show ?thesis using t(1) by (simp add: fun_upd_idem)
qed

section \<open>Files by name\<close>

text \<open>Creating a file leaves both tables alone.\<close>

declare writei_loop.simps [simp del]

lemma writei_loop_more: "writei_loop i off src s = Ok (o', t) \<Longrightarrow> fs_st.more t = fs_st.more s"
proof (induction i off src s arbitrary: o' t rule: writei_loop.induct)
  case (1 i off src s)
  show ?case
  proof (cases "src = []")
    case True
    then show ?thesis using 1(2) by (subst (asm) writei_loop.simps) simp
  next
    case False
    let ?m = "chunk off (length src)"
    obtain a u bp v w x where r: "bmap i (off div BSIZE) s = Ok (a, u)" "bread (i_dev (icache u ! i)) a u = Ok (bp, v)"
      "log_write bp (set_bdata bp (mem_put (bdata bp v) (off mod BSIZE) (take ?m src)) v) = Ok w"
      "brelse bp w = Ok x" "writei_loop i (off + ?m) (drop ?m src) x = Ok (o', t)"
      using 1(2) False by (subst (asm) writei_loop.simps) (auto simp: bnd_eq_Ok Let_def)
    then show ?thesis
      using 1(1) [OF False r(1) refl r(2) refl refl r(3,4,5)] bmap_more [OF r(1)] bread_more [OF r(2)] log_write_more [OF r(3)] brelse_more [OF r(4)] by simp
  qed
qed

lemmas kp_fs2 = iupdate_more [THEN kp_more] ialloc_more [THEN kp_more] writei_loop_more [THEN kp_more]

lemma kp_upd_inode [simp]: "kp s (upd_inode i f s)" "kp (upd_inode i f s) t = kp s t"
  by (simp_all add: kp_def upd_inode_def)

lemma kp_writei:
  assumes "dv_keeps dv"
  shows "ifOk (writei dv i src off s) (\<lambda>(x, t). kp s t)"
  unfolding writei_def
proof (intro ifOk_intros, goal_cases)
  case (3 ip n wr)
  then show ?case using assms by (auto simp: ifOk_def dv_keeps_def)
next
  case (6 ip n p off' u v)
  then show ?case by (auto split: if_splits dest!: kp_fs2 intro: kp_trans)
qed simp_all

lemma kp_dirlink_loop: "dv_keeps dv \<Longrightarrow> ifOk (dirlink_loop dv dp offs off s) (\<lambda>(x, t). kp s t)"
proof (induction offs arbitrary: off s)
  case (Cons o' offs)
  have IH: "ifOk (dirlink_loop dv dp offs o'' u) (\<lambda>(x, t). kp s t)" if "kp s u" for u o''
    by (rule kp_weaken [OF that Cons.IH [OF Cons.prems]])
  show ?case unfolding dirlink_loop.simps
  proof (rule kp_seq [OF kp_readi [OF Cons.prems]], goal_cases)
    case (1 x u)
    obtain r de where x: "x = (r, de)" by force
    show ?case unfolding x prod.case by (intro ifOk_intros IH 1(2)) (use 1(2) in simp)
  qed
qed (simp add: ifOk_def)

text \<open>The same facts as destruction rules, for calls that chain many of them.\<close>

lemma kp_ok:
  "readi dv i off n s = Ok (x, t) \<Longrightarrow> dv_keeps dv \<Longrightarrow> kp s t"
  "writei dv i src off s = Ok (y, t) \<Longrightarrow> dv_keeps dv \<Longrightarrow> kp s t"
  "dirlookup dv i nm s = Ok (z, t) \<Longrightarrow> dv_keeps dv \<Longrightarrow> kp s t"
  "dirlink_loop dv i offs off s = Ok (k, t) \<Longrightarrow> dv_keeps dv \<Longrightarrow> kp s t"
  "p_namei dv path s = Ok (r, t) \<Longrightarrow> dv_keeps dv \<Longrightarrow> kp s t"
  "namex dv c path par name s = Ok (w, t) \<Longrightarrow> dv_keeps dv \<Longrightarrow> kp s t"
  using kp_readi [of dv i off n s] kp_writei [of dv i src off s] kp_dirlookup [of dv i nm s] kp_dirlink_loop [of dv i offs off s]
    kp_p_namei [of dv path s] kp_namex [of dv c path par name s] by (simp_all add: ifOk_def)

lemma kp_dirlink: "dirlink dv dp name inum s = Ok (x, t) \<Longrightarrow> dv_keeps dv \<Longrightarrow> kp s t"
  by (auto simp: dirlink_def bnd_eq_Ok kp_def split: option.splits if_splits dest!: kp_ok kp_fs(5))

lemma kp_p_nameiparent: "p_nameiparent dv path s = Ok (x, t) \<Longrightarrow> dv_keeps dv \<Longrightarrow> kp s t"
  by (auto simp: p_nameiparent_def with_cwd_def nameiparent_def bnd_eq_Ok split: option.splits if_splits dest!: kp_ok)

lemma kp_create_new: "create_new dv dp name type major minor s = Ok (x, t) \<Longrightarrow> dv_keeps dv \<Longrightarrow> kp s t"
  by (auto simp: create_new_def bnd_eq_Ok kp_def upd_inode_def split: if_splits dest!: kp_dirlink kp_fs kp_fs2)

lemma kp_create: "create dv path type major minor s = Ok (x, t) \<Longrightarrow> dv_keeps dv \<Longrightarrow> kp s t"
  by (auto simp: create_def bnd_eq_Ok kp_def split: option.splits if_splits dest!: kp_p_nameiparent kp_create_new kp_ok kp_fs)

section \<open>open and pipe\<close>

definition fd_ok :: "'a kern_st_scheme \<Rightarrow> bool" where
  "fd_ok s \<longleftrightarrow> fd_inv (\<lambda>_. 0) s \<and> cur_ok s"

lemma fd_ok_fk: "fk s t \<Longrightarrow> cur t = cur s \<Longrightarrow> fd_ok s \<Longrightarrow> fd_ok t"
proof (unfold fd_ok_def, elim conjE, intro conjI)
  assume "fk s t" "cur t = cur s" "fd_inv (\<lambda>_. 0) s" "cur_ok s"
  then show "fd_inv (\<lambda>_. 0) t" "cur_ok t" using fk_cur fk_inv by (blast, simp add: fd_inv_def fk_cur)
qed

lemma fd_inv_e: "fd_inv e s \<Longrightarrow> (\<And>f. e' f = e f) \<Longrightarrow> fd_inv e' s"
  by (simp add: fd_inv_def)

lemma fd_ok_kp: "kp s t \<Longrightarrow> fd_ok s \<Longrightarrow> fd_ok t"
  using fd_ok_fk fk_kp by (auto simp: kp_def)

lemma kp_fail: "fail_op s = Ok (r, t) \<Longrightarrow> kp s t" "fail_put ip s = Ok (r, t) \<Longrightarrow> kp s t"
  by (auto simp: fail_op_def fail_put_def bnd_eq_Ok kp_def dest!: kp_fs)

text \<open>Giving back a reference that no descriptor holds.\<close>

lemma fileclose_extra:
  assumes "fd_inv e s" "cur_ok s" "f < NFILE" "fileclose f s = Ok t"
  shows "fd_inv (e(f := e f - 1)) t" "cur_ok t"
proof -
  note t = fileclose_inv [OF assms(1,3,4)]
  have "length (ptable s) = NPROC" using assms(1) by (simp add: fd_inv_def)
  then show "cur_ok t" using assms(2) t(2,3) by (auto simp: cur_ok_def list_all2_conv_all_nth fq_def)
  show "fd_inv (e(f := e f - 1)) t" by (rule t(1))
qed

lemma open_inode_inv:
  assumes ok: "fd_ok s" and d: "open_inode ip omode s = Ok (r, t)"
  shows "fd_ok t"
proof (cases "filealloc s")
  case (Pair fo u)
  show ?thesis
  proof (cases fo)
    case None
    then have "u = s" using filealloc_inv [OF _ Pair] ok by (auto simp: fd_ok_def)
    then have "fail_put ip s = Ok (r, t)" using d Pair None by (simp add: open_inode_def)
    then show ?thesis using fd_ok_kp [OF kp_fail(2) ok] by blast
  next
    case (Some f)
    have u: "f < NFILE" "fd_inv ((\<lambda>_. 0)(f := 1)) u" "cur_ok u"
      using filealloc_inv [OF _ Pair, of "\<lambda>_. 0"] ok Some by (auto simp: fd_ok_def cur_ok_def)
    obtain r' v where v: "fdalloc f u = Ok (r', v)" using d Pair Some by (auto simp: open_inode_def bnd_eq_Ok)
    note V = fdalloc_inv [OF u(2,3,1) v]
    show ?thesis
    proof (cases r')
      case None
      then obtain x where x: "fileclose f u = Ok x" "fail_put ip x = Ok (r, t)"
        using d Pair Some v V by (auto simp: open_inode_def bnd_eq_Ok)
      have "fd_ok x" using fileclose_extra [OF u(2,3,1) x(1)] by (simp add: fd_ok_def fun_upd_idem)
      then show ?thesis using kp_fail(2) [OF x(2)] fd_ok_kp by blast
    next
      case (Some fd)
      then have "fd_ok v" using V by (simp add: fd_ok_def fun_upd_idem)
      moreover obtain x y where xy: "iunlock ip v = Ok x" "end_op x = Ok y" and t: "t = upd_file f (\<lambda>x. x\<lparr>f_type := FD_INODE, f_ip := ip, f_off := 0,
          f_readable := (omode AND O_WRONLY = 0), f_writable := (omode AND O_WRONLY \<noteq> 0 \<or> omode AND O_RDWR \<noteq> 0)\<rparr>) y"
        using d Pair \<open>fo = Some f\<close> v Some by (auto simp: open_inode_def bnd_eq_Ok)
      ultimately have "fd_ok y" using fd_ok_kp [OF kp_fs(2) [OF xy(2)] fd_ok_kp [OF kp_fs(4) [OF xy(1)]]] by blast
      then show ?thesis unfolding t by (rule fd_ok_fk [OF fk_file, rotated -1]) (simp_all add: upd_file_def)
    qed
  qed
qed

lemma open_path_inv:
  assumes ok: "fd_ok s" and d: "open_path dv path omode s = Ok (r, t)" and dv: "dv_keeps dv"
  shows "fd_ok t"
proof -
  obtain u where u: "begin_op s = Ok u" using d by (auto simp: open_path_def bnd_eq_Ok)
  have uo: "fd_ok u" by (rule fd_ok_kp [OF kp_fs(1) [OF u] ok])
  have fin: "fd_ok t" if "fd_ok v" "fail_op v = Ok (r, t) \<or> fail_put ip v = Ok (r, t) \<or> open_inode ip omode v = Ok (r, t)" for v ip
    using that fd_ok_kp [OF kp_fail(1)] fd_ok_kp [OF kp_fail(2)] open_inode_inv by blast
  show ?thesis
  proof (cases "omode AND O_CREATE = 0")
    case True
    then obtain x v where v: "p_namei dv path u = Ok (x, v)" using d u by (auto simp: open_path_def bnd_eq_Ok)
    have vo: "fd_ok v" by (rule fd_ok_kp [OF kp_ok(5) [OF v dv] uo])
    show ?thesis
    proof (cases x)
      case (Some ip)
      then obtain w where w: "ilock ip v = Ok w" "fail_put ip w = Ok (r, t) \<or> open_inode ip omode w = Ok (r, t)"
        using d u v True by (auto simp: open_path_def bnd_eq_Ok split: if_splits)
      show ?thesis by (rule fin [OF fd_ok_kp [OF kp_fs(3) [OF w(1)] vo]]) (use w(2) in blast)
    qed (use d u v True vo fin in \<open>auto simp: open_path_def\<close>)
  next
    case False
    then obtain x v where v: "create dv path T_FILE 0 0 u = Ok (x, v)" "fail_op v = Ok (r, t) \<or> (\<exists>ip. open_inode ip omode v = Ok (r, t))"
      using d u by (auto simp: open_path_def bnd_eq_Ok split: option.splits)
    then show ?thesis using fin fd_ok_kp [OF kp_create [OF v(1) dv] uo] by blast
  qed
qed

lemma sys_open_inv: "fd_ok s \<Longrightarrow> sys_open dv s = Ok (r, t) \<Longrightarrow> dv_keeps dv \<Longrightarrow> fd_ok t"
  by (auto simp: sys_open_def bnd_eq_Ok split: option.splits intro: open_path_inv)

lemma pipealloc_inv:
  assumes inv: "fd_inv (\<lambda>_. 0) s" "cur_ok s" and a: "pipealloc s = Ok (r, t)"
  shows "case r of None \<Rightarrow> fd_ok t | Some (f, g) \<Rightarrow> f < NFILE \<and> g < NFILE \<and> cur_ok t \<and>
    fd_inv (\<lambda>x. (if x = f then 1 else 0) + (if x = g then 1 else 0)) t"
proof (cases "filealloc s")
  case (Pair fo u)
  show ?thesis
  proof (cases fo)
    case None
    then show ?thesis using a Pair filealloc_inv [OF inv(1) Pair] inv by (auto simp: pipealloc_def fd_ok_def)
  next
    case (Some f)
    have u: "f < NFILE" "fd_inv ((\<lambda>_. 0)(f := 1)) u" "cur_ok u"
      using filealloc_inv [OF inv(1) Pair] inv(2) Some by (auto simp: cur_ok_def)
    obtain go v where v: "filealloc u = (go, v)" by force
    note V = filealloc_inv [OF u(2) v]
    show ?thesis
    proof (cases go)
      case None
      then obtain x where x: "fileclose f u = Ok x" "t = x" "r = None"
        using a Pair Some v V by (auto simp: pipealloc_def bnd_eq_Ok)
      show ?thesis using fileclose_extra [OF u(2,3,1) x(1)] x by (simp add: fd_ok_def fun_upd_idem)
    next
      case (Some g)
      let ?e = "\<lambda>x. (if x = f then 1 else 0) + (if x = g then 1 else 0) :: int"
      have "fd_inv ?e v" using V Some by (auto intro: fd_inv_e)
      moreover obtain p k where k: "kalloc (km v) = (p, k)" by force
      ultimately have w: "g < NFILE" "fd_inv ?e (v\<lparr>km := k\<rparr>)" "cur_ok (v\<lparr>km := k\<rparr>)"
        using V Some u(3) by (simp_all add: cur_ok_def fd_inv_def)
      show ?thesis
      proof (cases "p = 0")
        case True
        then obtain x where x: "fileclose f (v\<lparr>km := k\<rparr>) = Ok x" "fileclose g x = Ok t" "r = None"
          using a Pair \<open>fo = Some f\<close> v Some k by (auto simp: pipealloc_def bnd_eq_Ok)
        note X = fileclose_extra [OF w(2,3) u(1) x(1)]
        note Y = fileclose_extra [OF X w(1) x(2)]
        have "fd_inv (\<lambda>_. 0) t" by (rule fd_inv_e [OF Y(1)]) auto
        then show ?thesis using Y(2) x(3) by (simp add: fd_ok_def)
      next
        case False
        let ?a = "upd_pipe p (\<lambda>q. q\<lparr>pi_readopen := True, pi_writeopen := True, pi_nwrite := 0, pi_nread := 0\<rparr>) (v\<lparr>km := k\<rparr>)"
        let ?b = "upd_file f (\<lambda>f. f\<lparr>f_type := FD_PIPE, f_readable := True, f_writable := False, f_pipe := p\<rparr>) ?a"
        let ?c = "upd_file g (\<lambda>f. f\<lparr>f_type := FD_PIPE, f_readable := False, f_writable := True, f_pipe := p\<rparr>) ?b"
        have t: "t = ?c" "r = Some (f, g)"
          using False a Pair \<open>fo = Some f\<close> v Some k by (auto simp: pipealloc_def Let_def)
        have "fk (v\<lparr>km := k\<rparr>) ?c" by (intro fk_trans [OF fk_trans [OF fk_pipe fk_file] fk_file]) simp_all
        moreover have "cur_ok ?c" using w(3) by (simp add: cur_ok_def upd_pipe_def upd_file_def)
        ultimately show ?thesis using fk_inv w(1,2) u(1) unfolding t by simp
      qed
    qed
  qed
qed

lemma kp_ustore: "ustore va bs s = Ok t \<Longrightarrow> kp s t"
  by (induction va bs s rule: ustore.induct) (fastforce simp: bnd_eq_Ok kp_def)+

lemma close_two:
  assumes "fd_inv (\<lambda>x. (if x = f then 1 else 0) + (if x = g then 1 else 0)) s" "cur_ok s" "f < NFILE" "g < NFILE"
    and "fileclose f s = Ok u" "fileclose g u = Ok t"
  shows "fd_ok t"
proof -
  note U = fileclose_extra [OF assms(1-3,5)]
  note T = fileclose_extra [OF U assms(4,6)]
  have "fd_inv (\<lambda>_. 0) t" by (rule fd_inv_e [OF T(1)]) auto
  then show ?thesis using T(2) by (simp add: fd_ok_def)
qed

lemma sys_pipe_inv:
  assumes ok: "fd_ok s" and d: "sys_pipe s = Ok (r, t)"
  shows "fd_ok t"
proof (cases "argptr 0 8 s = Ok None")
  case True
  then show ?thesis using d ok by (auto simp: sys_pipe_def)
next
  case False
  then obtain p pr u where a: "argptr 0 8 s = Ok (Some p)" "pipealloc s = Ok (pr, u)"
    using d by (auto simp: sys_pipe_def bnd_eq_Ok split: option.splits)
  note P = pipealloc_inv [OF _ _ a(2)]
  show ?thesis
  proof (cases pr)
    case None
    then show ?thesis using d a P ok by (simp add: sys_pipe_def fd_ok_def)
  next
    case (Some fg)
    obtain f g where fg: "pr = Some (f, g)" using Some by (cases fg) simp
    have u: "f < NFILE" "g < NFILE" "cur_ok u" "fd_inv (\<lambda>x. (if x = f then 1 else 0) + (if x = g then 1 else 0)) u"
      using P ok fg by (simp_all add: fd_ok_def)
    obtain r0 v where v: "fdalloc f u = Ok (r0, v)" using d a fg by (auto simp: sys_pipe_def bnd_eq_Ok)
    note V = fdalloc_inv [OF u(4,3,1) v]
    show ?thesis
    proof (cases r0)
      case None
      then obtain x where "fileclose f u = Ok x" "fileclose g x = Ok t"
        using d a fg v V by (auto simp: sys_pipe_def bnd_eq_Ok)
      then show ?thesis by (rule close_two [OF u(4,3,1,2)])
    next
      case (Some fd0)
      have v': "fd_inv (\<lambda>x. if x = g then 1 else 0) v" "cur_ok v" using V Some by (auto intro: fd_inv_e)
      obtain r1 w where w: "fdalloc g v = Ok (r1, w)" using d a fg v Some by (auto simp: sys_pipe_def bnd_eq_Ok)
      note W = fdalloc_inv [OF v' u(2) w]
      show ?thesis
      proof (cases r1)
        case None
        then obtain x y where x: "fdclear fd0 v = Ok x" "fileclose f x = Ok y" "fileclose g y = Ok t"
          using d a fg v w W Some by (auto simp: sys_pipe_def bnd_eq_Ok)
        obtain i where i: "cur v = Some i" "fd0 < NOFILE" "p_ofile (ptable v ! i) ! fd0 = Some f" using V Some by auto
        note X = fdclear_inv [OF v' i x(1)]
        have "fd_inv (\<lambda>x. (if x = f then 1 else 0) + (if x = g then 1 else 0)) x" by (rule fd_inv_e [OF X(1)]) auto
        then show ?thesis by (rule close_two [OF _ X(2) u(1,2) x(2,3)])
      next
        case (Some fd1)
        have "fd_inv (\<lambda>_. 0) w" "cur_ok w" using W Some by (auto intro: fd_inv_e)
        then have "fd_ok w" by (simp add: fd_ok_def)
        moreover have "\<exists>bs. ustore p bs w = Ok t" using d a fg v w \<open>r0 = Some fd0\<close> Some by (auto simp: sys_pipe_def bnd_eq_Ok)
        ultimately show ?thesis using kp_ustore fd_ok_kp by blast
      qed
    qed
  qed
qed

section \<open>fork, exit and wait\<close>

lemma upd_proc_fd:
  assumes "fd_inv e s" "p_ofile (f (ptable s ! i)) = p_ofile (ptable s ! i)"
    and "dead (f (ptable s ! i)) \<Longrightarrow> i < NPROC \<Longrightarrow> dead (ptable s ! i) \<or> no_files (ptable s ! i)"
  shows "fd_inv e (upd_proc i f s)"
proof (cases "i < NPROC")
  case True
  have l: "length (ptable s) = NPROC" using assms(1) by (simp add: fd_inv_def)
  have "fds ((ptable s)[i := f (ptable s ! i)]) x = fds (ptable s) x" for x
    using fds_update [of i "ptable s" "f (ptable s ! i)" x] True l assms(2) by simp
  moreover have "no_files (f (ptable s ! i))" if "dead (f (ptable s ! i))"
    using assms that True unfolding fd_inv_def no_files_def by metis
  ultimately show ?thesis using assms(1,2) True l
    unfolding fd_inv_def upd_proc_def by (auto simp: nth_list_update)
next
  case False
  then have "upd_proc i f s = s" using assms(1) by (simp add: fd_inv_def upd_proc_def list_update_beyond)
  then show ?thesis using assms(1) by simp
qed

lemma exit_files_inv:
  assumes "fd_inv (\<lambda>_. 0) s" "i < NPROC" "\<forall>fd \<in> set xs. fd < NOFILE" "exit_files xs i s = Ok t"
  shows "fd_inv (\<lambda>_. 0) t \<and> (\<forall>fd < NOFILE. fd \<in> set xs \<or> p_ofile (ptable s ! i) ! fd = None \<longrightarrow> p_ofile (ptable t ! i) ! fd = None)"
  using assms
proof (induction xs arbitrary: s)
  case (Cons fd xs)
  show ?case
  proof (cases "p_ofile (ptable s ! i) ! fd")
    case None
    then show ?thesis using Cons by fastforce
  next
    case (Some f)
    then obtain u where u: "fileclose f s = Ok u" "exit_files xs i (set_fd i fd None u) = Ok t"
      using Cons.prems(4) by (auto simp: bnd_eq_Ok)
    have I: "length (ptable s) = NPROC" "length (p_ofile (ptable s ! i)) = NOFILE" "fd < NOFILE" using Cons.prems by (simp_all add: fd_inv_def)
    then have f: "f < NFILE" using Cons.prems(1,2) Some by (metis fd_inv_def nth_mem)
    note U = fileclose_inv [OF Cons.prems(1) f u(1)]
    have o: "p_ofile (ptable u ! i) = p_ofile (ptable s ! i)" "length (ptable u) = NPROC"
      using U(2) I(1) Cons.prems(2) by (auto simp: list_all2_conv_all_nth fq_def)
    have "fd_inv (\<lambda>_. 0) (set_fd i fd None u)"
      by (rule set_fd_inv [OF U(1) Cons.prems(2) I(3)]) (use o Some in auto)
    from Cons.IH [OF this Cons.prems(2) _ u(2)] Cons.prems(2,3) o I(2) show ?thesis
      by (auto simp: upd_proc_def nth_list_update)
  qed
qed simp

lemma fk_exit_children: "fk s (exit_children js i s)"
proof (induction js arbitrary: s)
  case (Cons j js)
  define u where "u = upd_proc j (\<lambda>p. p\<lparr>p_parent := initproc s\<rparr>) s"
  have "fk s u" unfolding u_def by (rule fk_upd) (simp add: fq_def dead_def)
  then have "fk s (if p_parent (ptable s ! j) = Some i then if p_state (ptable u ! j) = ZOMBIE then wakeup_opt (initproc u) u else u else s)"
    using fk_trans [OF _ fk_wakeup(2)] by auto
  from fk_trans [OF this Cons] show ?case unfolding exit_children.simps Let_def u_def .
qed simp

lemma exit_fd:
  assumes ok: "fd_ok s" and e: "exit s = Ok t"
  shows "fd_inv (\<lambda>_. 0) t"
proof -
  obtain i where i: "cur s = Some i" using e by (auto simp: exit_def bnd_eq_Ok myproc_def split: option.splits)
  have n: "i < NPROC" using ok i by (simp add: fd_ok_def cur_ok_def)
  obtain u v c w x where u: "exit_files [0..<NOFILE] i s = Ok u" "begin_op u = Ok v" "iput c v = Ok w" "end_op w = Ok x"
    and t: "t = (let s = upd_proc i (\<lambda>p. p\<lparr>p_cwd := None\<rparr>) x; s = wakeup_opt (p_parent (ptable s ! i)) s; s = exit_children [0..<NPROC] i s
      in upd_proc i (\<lambda>p. p\<lparr>p_state := ZOMBIE\<rparr>) s)"
    using e i by (auto simp: exit_def myproc_def bnd_eq_Ok Let_def split: if_splits option.splits)
  have U: "fd_inv (\<lambda>_. 0) u" "\<forall>fd < NOFILE. p_ofile (ptable u ! i) ! fd = None"
    using exit_files_inv [OF _ n _ u(1)] ok by (auto simp: fd_ok_def)
  then have "no_files (ptable u ! i)" using n by (auto simp: no_files_def fd_inv_def list_eq_iff_nth_eq)
  moreover have ux: "fk u x" using fk_kp [OF kp_trans [OF kp_trans [OF kp_fs(1) [OF u(2)] kp_fs(5) [OF u(3)]] kp_fs(2) [OF u(4)]]] .
  define y where "y = upd_proc i (\<lambda>p. p\<lparr>p_cwd := None\<rparr>) x"
  define z where "z = exit_children [0..<NPROC] i (wakeup_opt (p_parent (ptable y ! i)) y)"
  have "fk x y" unfolding y_def by (rule fk_upd) (simp add: fq_def dead_def)
  then have uz: "fk u z" unfolding z_def using fk_trans [OF ux] fk_trans [OF _ fk_trans [OF fk_wakeup(2) fk_exit_children]] by blast
  have l: "length (ptable u) = NPROC" using U(1) by (simp add: fd_inv_def)
  ultimately have "no_files (ptable z ! i)" using n uz by (auto simp: fk_def list_all2_conv_all_nth fq_def no_files_def)
  then show ?thesis unfolding t Let_def y_def [symmetric] z_def [symmetric]
    by (intro upd_proc_fd fk_inv [OF uz U(1)]) auto
qed

lemma fork_files_inv:
  assumes "fd_inv (\<lambda>_. 0) s" "i < NPROC" "np < NPROC" "i \<noteq> np" "\<not> dead (ptable s ! np)" "distinct xs"
    "\<forall>fd \<in> set xs. fd < NOFILE \<and> p_ofile (ptable s ! np) ! fd = None" "fork_files xs i np s = Ok t"
  shows "fd_inv (\<lambda>_. 0) t \<and> map p_state (ptable t) = map p_state (ptable s)"
  using assms
proof (induction xs arbitrary: s)
  case (Cons fd xs)
  show ?case
  proof (cases "p_ofile (ptable s ! i) ! fd")
    case None
    then show ?thesis using Cons by simp
  next
    case (Some f)
    then obtain u where u: "filedup f s = Ok u" "fork_files xs i np (set_fd np fd (Some f) u) = Ok t"
      using Cons.prems(8) by (auto simp: bnd_eq_Ok)
    have I: "length (ptable s) = NPROC" "length (p_ofile (ptable s ! i)) = NOFILE" "fd < NOFILE" "length (p_ofile (ptable s ! np)) = NOFILE"
      using Cons.prems by (simp_all add: fd_inv_def)
    then have f: "f < NFILE" using Cons.prems(1,2) Some by (metis fd_inv_def nth_mem)
    have U: "fd_inv ((\<lambda>_. 0)(f := 1)) u" "ptable u = ptable s" using filedup_inv [OF Cons.prems(1) f u(1)] by simp_all
    let ?v = "set_fd np fd (Some f) u"
    have v: "fd_inv (\<lambda>_. 0) ?v"
      by (rule set_fd_inv [OF U(1) Cons.prems(3) I(3)]) (use Cons.prems(5,7) f in \<open>auto simp: U(2)\<close>)
    have V: "ptable ?v = (ptable s)[np := (ptable s ! np)\<lparr>p_ofile := (p_ofile (ptable s ! np))[fd := Some f]\<rparr>]"
      by (simp add: upd_proc_def U(2))
    then have ms: "map p_state (ptable ?v) = map p_state (ptable s)" using I(1) Cons.prems(3) by (simp add: map_update) (metis list_update_id map_update)
    have "\<forall>fd' \<in> set xs. fd' < NOFILE \<and> p_ofile (ptable ?v ! np) ! fd' = None"
      using Cons.prems(3,6,7) I(1,4) by (auto simp: V nth_list_update)
    then have "fd_inv (\<lambda>_. 0) t \<and> map p_state (ptable t) = map p_state (ptable ?v)"
      using Cons.prems I(1) u(2) by (intro Cons.IH [OF v]) (auto simp: V dead_def)
    then show ?thesis using ms by simp
  qed
qed simp

lemma allocproc_fd:
  assumes ok: "fd_ok s" and a: "allocproc s = Ok (r, t)"
  shows "fd_ok t \<and> cur t = cur s \<and> (\<forall>np. r = Some np \<longrightarrow> np < NPROC \<and> cur s \<noteq> Some np \<and> \<not> dead (ptable t ! np) \<and> no_files (ptable t ! np))"
proof (cases "find (\<lambda>i. p_state (ptable s ! i) = UNUSED) [0..<NPROC]")
  case None
  then show ?thesis using a ok by (simp add: allocproc_def)
next
  case (Some i)
  obtain stk k where k: "kalloc (km s) = (stk, k)" by force
  have i: "i < NPROC" "p_state (ptable s ! i) = UNUSED" using Some by (auto simp: find_upt_Some)
  have I: "length (ptable s) = NPROC" "no_files (ptable s ! i)" "cur s \<noteq> Some i"
    using ok i by (auto simp: fd_ok_def fd_inv_def cur_ok_def dead_def)
  have t: "ptable t = (ptable s)[i := ptable t ! i]" "p_ofile (ptable t ! i) = p_ofile (ptable s ! i)" "cur t = cur s" "ftable t = ftable s"
    and r: "r = None \<or> r = Some i \<and> p_state (ptable t ! i) = EMBRYO"
    using a Some k i(1) I(1) by (auto simp: allocproc_def upd_proc_def Let_def split: if_splits)
  have "fd_inv (\<lambda>_. 0) (upd_proc i (\<lambda>_. ptable t ! i) s)"
    using ok t(2) I(2) by (intro upd_proc_fd) (auto simp: fd_ok_def)
  then have "fd_inv (\<lambda>_. 0) t" using t(1,4) by (simp add: fd_inv_def upd_proc_def)
  moreover have "cur_ok t"
    using ok I(3) t(1,3) unfolding fd_ok_def cur_ok_def by (metis nth_list_update_neq)
  ultimately show ?thesis using r t(2,3) I(2,3) i(1) by (auto simp: fd_ok_def no_files_def dead_def)
qed

lemma embryo_fd:
  assumes "fd_ok u" "fk u x" "cur x = cur u" "cur u \<noteq> Some np" "np < NPROC" "p_ofile (f (ptable x ! np)) = p_ofile (ptable x ! np)"
    and "no_files (ptable u ! np) \<or> \<not> dead (f (ptable x ! np))"
  shows "fd_ok (upd_proc np f x)"
proof -
  have x: "fd_ok x" by (rule fd_ok_fk [OF assms(2,3,1)])
  have l: "length (ptable u) = NPROC" using assms(1) by (simp add: fd_ok_def fd_inv_def)
  have "no_files (ptable u ! np) \<Longrightarrow> no_files (ptable x ! np)"
    using assms(2,5) l by (auto simp: fk_def list_all2_conv_all_nth fq_def no_files_def)
  then have "fd_inv (\<lambda>_. 0) (upd_proc np f x)" using x assms(6,7) by (intro upd_proc_fd) (auto simp: fd_ok_def)
  moreover have "cur_ok (upd_proc np f x)" using x assms(3,4) by (auto simp: fd_ok_def cur_ok_def upd_proc_def)
  ultimately show ?thesis by (simp add: fd_ok_def)
qed

lemma fork_fd: "fd_ok s \<Longrightarrow> ifOk (fork s) (\<lambda>(r, t). fd_ok t)"
  unfolding fork_def
proof (intro ifOk_intros, goal_cases)
  case (1 i q a u)
  then show ?case using allocproc_fd by auto
next
  case (2 i q a u np pu pgdir v w x)
  have A: "fd_ok u" "np < NPROC" "cur u \<noteq> Some np" "no_files (ptable u ! np)" using allocproc_fd [of s a u] 2(1,3-5) by auto
  have kv: "kp u v" using kp_km(2) 2(6,7) by auto
  have "fk v w" unfolding 2(8) by (rule fk_upd) (simp add: fq_def dead_def)
  then have "fk u x" using fk_trans [OF fk_trans [OF fk_kp [OF kv]] fk_kp [OF kp_km(1) [OF 2(10)]]] by blast
  moreover have "cur x = cur u" using kv kp_km(1) [OF 2(10)] unfolding 2(8) by (simp add: kp_def upd_proc_def)
  ultimately show ?case using embryo_fd [OF A(1) _ _ A(3,2), of x "\<lambda>p. p\<lparr>p_kstack := 0, p_state := UNUSED\<rparr>"] A(4) by simp
next
  case (3 i q a u np pu pgdir v w cp x y c d z e pid)
  have A: "fd_ok u" "np < NPROC" "cur u \<noteq> Some np" "no_files (ptable u ! np)" "\<not> dead (ptable u ! np)" "cur u = cur s"
    using allocproc_fd [of s a u] 3(1,3-5) by auto
  have i: "cur u = Some i" using 3(2) A(6) by (simp add: myproc_Ok)
  have kv: "kp u v" using kp_km(2) 3(6,7) by auto
  have "fk v w" unfolding 3(8) by (rule fk_upd) (simp add: fq_def dead_def)
  moreover have "fk w x" unfolding 3(11) by (rule fk_upd) (simp add: fq_def dead_def)
  ultimately have ux: "fk u x" using fk_trans [OF fk_trans [OF fk_kp [OF kv]]] by blast
  have cx: "cur x = cur u" using kv unfolding 3(8,11) by (simp add: kp_def upd_proc_def)
  have X: "fd_ok x" by (rule fd_ok_fk [OF ux cx A(1)])
  have l: "length (ptable u) = NPROC" using A(1) by (simp add: fd_ok_def fd_inv_def)
  have np: "\<not> dead (ptable x ! np)" "no_files (ptable x ! np)"
    using ux A(2,4,5) l by (auto simp: fk_def list_all2_conv_all_nth fq_def no_files_def)
  have "i < NPROC" using A(1) i by (simp add: fd_ok_def cur_ok_def)
  then have Y: "fd_inv (\<lambda>_. 0) y" "map p_state (ptable y) = map p_state (ptable x)"
    using fork_files_inv [OF _ _ A(2) _ np(1) _ _ 3(12)] X i A(3) np(2) by (auto simp: fd_ok_def no_files_def)
  have cy: "cur y = cur x" using keeps_fork_files [OF 3(12)] by (simp add: keeps_def)
  have "dead (ptable y ! j) = dead (ptable x ! j)" if "j < NPROC" for j
    using Y that X unfolding dead_def fd_ok_def fd_inv_def by (metis nth_map)
  then have yo: "fd_ok y" using Y(1) X cy by (auto simp: fd_ok_def cur_ok_def)
  have kz: "kp y z" by (rule kp_fs(8) [OF 3(14)])
  have "fk z e" unfolding 3(15) by (rule fk_upd) (simp add: fq_def dead_def)
  then have "fk y e" using fk_trans [OF fk_kp [OF kz]] by blast
  moreover have "cur e = cur y" using kz unfolding 3(15) by (simp add: kp_def upd_proc_def)
  ultimately show ?case
    using embryo_fd [OF yo _ _ _ A(2), of e "\<lambda>p. p\<lparr>p_state := RUNNABLE\<rparr>"] cy cx A(3) by (simp add: dead_def)
qed

lemma reap_fd:
  assumes ok: "fd_ok s" and j: "j < NPROC" "p_state (ptable s ! j) = ZOMBIE"
  shows "ifOk (reap j s) (\<lambda>(r, t). fd_ok t)"
  unfolding reap_def
proof (intro ifOk_intros, goal_cases)
  case (1 p u v)
  have su: "kp s u" by (rule kp_km(1) [OF 1(2)])
  have "fk u (upd_proc j (\<lambda>p. p\<lparr>p_kstack := 0\<rparr>) u)" by (rule fk_upd) (simp add: fq_def dead_def)
  then have "fk s v" using fk_trans [OF fk_trans [OF fk_kp [OF su]] fk_kp [OF kp_km(1) [OF 1(3)]]] by blast
  moreover have "cur v = cur s" using su kp_km(1) [OF 1(3)] by (simp add: kp_def upd_proc_def)
  moreover have "no_files (ptable s ! j)" "cur s \<noteq> Some j" using ok j by (auto simp: fd_ok_def fd_inv_def cur_ok_def dead_def)
  ultimately show ?case using embryo_fd [OF ok _ _ _ j(1), of v] by simp
qed

section \<open>Reading and writing\<close>

lemma fk_upd_pipe_trans: "fk (upd_pipe p f s) t \<Longrightarrow> fk s t"
  using fk_trans [OF fk_pipe] by blast

lemma cur_frame [simp]: "cur (wakeup ch s) = cur s" "cur (upd_pipe p f s) = cur s" "cur (upd_file i g s) = cur s"
  by (simp_all add: wakeup_def wakeup1_def upd_pipe_def upd_file_def)

lemma piperead_copy_fk: "piperead_copy p n s = (bs, t) \<Longrightarrow> fk s t \<and> cur t = cur s"
proof (induction p n s arbitrary: bs t rule: piperead_copy.induct)
  case (2 p n s)
  show ?case
  proof (cases "pi_nread (pipes s p) = pi_nwrite (pipes s p)")
    case False
    obtain b q where q: "pipe_get (pipes s p) = (b, q)" by force
    obtain bs' where "piperead_copy p n (upd_pipe p (\<lambda>_. q) s) = (bs', t)" using 2(2) False q by (auto split: prod.splits)
    from 2(1) [OF False q [symmetric] this] show ?thesis using fk_upd_pipe_trans by auto
  qed (use 2(2) in simp)
qed simp

lemma piperead_fk: "piperead p n s = Ok (Ret x, t) \<Longrightarrow> fk s t \<and> cur t = cur s"
proof -
  assume a: "piperead p n s = Ok (Ret x, t)"
  obtain bs u where u: "piperead_copy p n s = (bs, u)" by force
  have "t = s \<or> t = wakeup (ChNwrite p) u" using a u by (auto simp: piperead_def bnd_eq_Ok split: if_splits)
  then show ?thesis using piperead_copy_fk [OF u] fk_trans [OF _ fk_wakeup(1)] by auto
qed

lemma pipewrite_fk: "pipewrite_loop n p bs s = Ok (Ret x, r, t) \<Longrightarrow> fk s t \<and> cur t = cur s"
proof (induction n p bs s rule: pipewrite_loop.induct)
  case (2 n p b bs s)
  then show ?case using fk_upd_pipe_trans by (auto simp: bnd_eq_Ok split: if_splits)
qed auto

text \<open>Moving the offset of a file.\<close>

lemma fd_ok_off: "fd_ok s \<Longrightarrow> fd_ok (if b then upd_file f (\<lambda>x. x\<lparr>f_off := g x\<rparr>) s else s)"
  using fd_ok_fk [OF fk_file, of "\<lambda>x. x\<lparr>f_off := g x\<rparr>" s f] by simp

lemma fileread_fd: "dv_keeps dv \<Longrightarrow> fd_ok s \<Longrightarrow> ifOk (fileread dv f n s) (\<lambda>(x, t). fd_ok t)"
  unfolding fileread_def
proof (intro ifOk_intros, goal_cases)
  case (1 ff)
  then show ?case by simp
next
  case (2 ff)
  show ?case
  proof (cases "f_type ff")
    case FD_PIPE
    have "fd_ok t" if "piperead (f_pipe ff) n s = Ok (Ret x, t)" for x t
      using piperead_fk [OF that] fd_ok_fk 2(2) by blast
    then have "ifOk (case r of Ret x \<Rightarrow> Ok (x, t) | Sleep \<Rightarrow> Blocks) (\<lambda>(x, t). fd_ok t)" if "piperead (f_pipe ff) n s = Ok (r, t)" for r t
      using that by (cases r) (auto simp: ifOk_def)
    then show ?thesis unfolding FD_PIPE ftype.case by (intro ifOk_intros) simp
  next
    case FD_INODE
    show ?thesis unfolding FD_INODE ftype.case
    proof (intro ifOk_intros, goal_cases)
      case (1 u p q v r ds w x)
      have "fd_ok v" using fd_ok_kp [OF kp_trans [OF kp_fs(3) [OF 1(1)] kp_ok(1) [OF 1(2) [unfolded 1(3)] 2(1)]] 2(2)] .
      then have "fd_ok w" unfolding 1(5) by (rule fd_ok_off)
      then show ?case using fd_ok_kp [OF kp_fs(4) [OF 1(6)]] by simp
    qed
  qed (simp add: ifOk_def)
qed

lemma filewrite_loop_fd: "dv_keeps dv \<Longrightarrow> fd_ok s \<Longrightarrow> ifOk (filewrite_loop dv f bs s) (\<lambda>(x, t). fd_ok t)"
proof (induction dv f bs s rule: filewrite_loop.induct)
  case (1 dv f bs s)
  show ?case
  proof (subst filewrite_loop.simps, intro ifOk_intros, goal_cases)
    case 1
    then show ?case using \<open>fd_ok s\<close> by simp
  next
    case (2 n1 ip u v p r w x y z)
    have "fd_ok w" using fd_ok_kp [OF kp_trans [OF kp_trans [OF kp_fs(1) [OF 2(4)] kp_fs(3) [OF 2(5)]] kp_ok(2) [OF 2(6) [unfolded 2(7)] 1(2)]] 1(3)] .
    then have "fd_ok x" unfolding 2(8) by (rule fd_ok_off)
    then show ?case using fd_ok_kp [OF kp_trans [OF kp_fs(4) [OF 2(9)] kp_fs(2) [OF 2(10)]]] by simp
  next
    case (3 n1 ip u v p r w x y z)
    have "fd_ok w" using fd_ok_kp [OF kp_trans [OF kp_trans [OF kp_fs(1) [OF 3(4)] kp_fs(3) [OF 3(5)]] kp_ok(2) [OF 3(6) [unfolded 3(7)] 1(2)]] 1(3)] .
    then have "fd_ok x" unfolding 3(8) by (rule fd_ok_off)
    then have "fd_ok z" using fd_ok_kp [OF kp_trans [OF kp_fs(4) [OF 3(9)] kp_fs(2) [OF 3(10)]]] by simp
    then show ?case by (rule 1(1) [OF 3(1-6) 3(7) [symmetric] 3(8-12) 1(2)])
  qed
qed

lemma filewrite_fd: "dv_keeps dv \<Longrightarrow> fd_ok s \<Longrightarrow> ifOk (filewrite dv f bs s) (\<lambda>(x, t). fd_ok t)"
  unfolding filewrite_def
proof (intro ifOk_intros, goal_cases)
  case (2 ff)
  show ?case
  proof (cases "f_type ff")
    case FD_PIPE
    have "fd_ok t" if "pipewrite (f_pipe ff) bs s = Ok (Ret x, rest, t)" for x rest t
      using pipewrite_fk [OF that [unfolded pipewrite_def]] fd_ok_fk 2(2) by blast
    then have "ifOk (case r of Ret x \<Rightarrow> Ok (x, t) | Sleep \<Rightarrow> Blocks) (\<lambda>(x, t). fd_ok t)"
      if "pipewrite (f_pipe ff) bs s = Ok (r, rest, t)" for r rest t
      using that by (cases r) (auto simp: ifOk_def)
    then show ?thesis unfolding FD_PIPE ftype.case by (intro ifOk_intros) simp
  next
    case FD_INODE
    show ?thesis unfolding FD_INODE ftype.case
      by (intro ifOk_intros) (use filewrite_loop_fd [OF 2(1,2), THEN ifOkD] in force)
  qed (simp add: ifOk_def)
qed simp

lemma sys_read_fd: "dv_keeps dv \<Longrightarrow> fd_ok s \<Longrightarrow> sys_read dv s = Ok (r, t) \<Longrightarrow> fd_ok t"
  using fd_ok_kp [OF kp_ustore] fileread_fd [THEN ifOkD]
  by (fastforce simp: sys_read_def bnd_eq_Ok split: option.splits)

lemma sys_write_fd: "dv_keeps dv \<Longrightarrow> fd_ok s \<Longrightarrow> sys_write dv s = Ok (r, t) \<Longrightarrow> fd_ok t"
  using filewrite_fd [THEN ifOkD] by (fastforce simp: sys_write_def bnd_eq_Ok split: option.splits)

section \<open>Every step\<close>

lemma scheduler_back_fd: "fd_inv (\<lambda>_. 0) s \<Longrightarrow> fd_ok (scheduler_back s)"
  by (simp add: fd_ok_def cur_ok_def scheduler_back_def switchkvm_def fd_inv_def)

lemma sleep_fd: "fd_ok s \<Longrightarrow> sleep ch s = Ok t \<Longrightarrow> fd_inv (\<lambda>_. 0) t"
  by (auto simp: sleep_def fd_ok_def dead_def split: option.splits intro!: upd_proc_fd)

lemma growproc_fd: "ifOk (growproc n s) (\<lambda>(r, t). fk s t \<and> cur t = cur s)"
  unfolding growproc_def
proof (intro ifOk_intros, goal_cases)
  case (1 i sz pgdir x r u)
  then have "kp s u" by (auto simp: bnd_eq_Ok dest!: kp_km(2) split: if_splits)
  then show ?case using fk_kp by (simp add: kp_def)
next
  case (2 i sz pgdir x r u sz' v)
  then have k: "kp s u" by (auto simp: bnd_eq_Ok dest!: kp_km(2) split: if_splits)
  have "fk u (upd_proc i (\<lambda>p. p\<lparr>p_sz := sz'\<rparr>) u)" by (rule fk_upd) (simp add: fq_def dead_def)
  moreover have "kp (upd_proc i (\<lambda>p. p\<lparr>p_sz := sz'\<rparr>) u) v" using 2(7) by (auto simp: switchuvm_def kp_def split: if_splits)
  ultimately have "fk s v" using fk_trans [OF fk_trans [OF fk_kp [OF k]] fk_kp] by blast
  moreover have "cur v = cur s"
    using k \<open>kp (upd_proc i _ u) v\<close> by (simp add: kp_def upd_proc_def)
  ultimately show ?case by simp
qed

lemma dispatch_fd:
  assumes "fd_ok s" "scheduler_pick pos s = Some h" "scheduler_run h s = Ok t"
  shows "fd_ok t"
proof -
  note P = scheduler_pick_ok [OF assms(2)]
  have t: "ptable t = (ptable s)[h := (ptable s ! h)\<lparr>p_state := RUNNING\<rparr>]" "cur t = Some h" "ftable t = ftable s"
    using assms(3) by (auto simp: scheduler_run_def switchuvm_def upd_proc_def split: if_splits)
  have "fd_inv (\<lambda>_. 0) (upd_proc h (\<lambda>p. p\<lparr>p_state := RUNNING\<rparr>) s)"
    using assms(1) by (intro upd_proc_fd) (auto simp: fd_ok_def dead_def)
  then show ?thesis using t P(1) assms(1) by (auto simp: fd_ok_def fd_inv_def upd_proc_def cur_ok_def dead_def)
qed

lemma wait_fd: "fd_ok s \<Longrightarrow> wait s = Ok (r, t) \<Longrightarrow> (case r of Ret x \<Rightarrow> fd_ok t | Sleep \<Rightarrow> fd_ok (scheduler_back t))"
  using reap_fd [THEN ifOkD] sleep_fd scheduler_back_fd
  by (fastforce simp: wait_def bnd_eq_Ok find_upt_Some split: option.splits if_splits)

lemma sched_fd: "sched_step c d \<Longrightarrow> fd_ok (snd c) \<Longrightarrow> fd_ok (snd d)"
proof (induction rule: sched_step.induct)
  case (yields s t pos)
  then have "fd_inv (\<lambda>_. 0) t" by (auto simp: yield_def bnd_eq_Ok fd_ok_def dead_def intro!: upd_proc_fd)
  then show ?case by (simp add: scheduler_back_fd)
next
  case (resumes s i pos)
  then show ?case by (auto simp: resume_sleep_def intro!: fd_ok_fk [OF fk_upd] simp: fq_def dead_def)
next
  case (kills pid s r t pos)
  then show ?case
    by (auto simp: kill_def fq_def dead_def split: option.splits intro!: fd_ok_fk [OF fk_upd])
next
  case (grows n s r t pos)
  then show ?case using growproc_fd [THEN ifOkD, of n s] fd_ok_fk by fastforce
next
  case (exits s t pos)
  then show ?case using scheduler_back_fd [OF exit_fd] by auto
qed (auto dest: dispatch_fd sleep_fd scheduler_back_fd wait_fd fork_fd [THEN ifOkD] intro: fd_ok_fk [OF fk_wakeup(1)])

text \<open>A step of the system: the scheduler and process calls, or a system call on descriptors.\<close>

inductive fd_step :: "'a kern_st_scheme devsw \<Rightarrow> 'a kern_st_scheme \<Rightarrow> 'a kern_st_scheme \<Rightarrow> bool" for dv where
  scheds: "sched_step (pos, s) (pos', t) \<Longrightarrow> fd_step dv s t"
| dups: "sys_dup s = Ok (r, t) \<Longrightarrow> fd_step dv s t"
| closes: "sys_close s = Ok (r, t) \<Longrightarrow> fd_step dv s t"
| pipes_new: "sys_pipe s = Ok (r, t) \<Longrightarrow> fd_step dv s t"
| opens: "sys_open dv s = Ok (r, t) \<Longrightarrow> fd_step dv s t"
| reads: "sys_read dv s = Ok (r, t) \<Longrightarrow> fd_step dv s t"
| writes: "sys_write dv s = Ok (r, t) \<Longrightarrow> fd_step dv s t"

lemma fd_step_ok:
  assumes "fd_step dv s t" "dv_keeps dv" "fd_ok s"
  shows "fd_ok t"
  using assms(1)
proof cases
  case (scheds pos pos')
  then show ?thesis using sched_fd [OF scheds] assms(3) by simp
next
  case (dups r)
  then show ?thesis using sys_dup_inv assms(3) by (auto simp: fd_ok_def)
next
  case (closes r)
  then show ?thesis using sys_close_inv assms(3) by (auto simp: fd_ok_def)
qed (use assms sys_pipe_inv sys_open_inv sys_read_fd sys_write_fd in blast)+

lemma fd_steps_ok: "(fd_step dv)\<^sup>*\<^sup>* s t \<Longrightarrow> dv_keeps dv \<Longrightarrow> fd_ok s \<Longrightarrow> fd_ok t"
  by (induction rule: rtranclp_induct) (auto intro: fd_step_ok)

lemma fds_pos:
  assumes "i < length ps" "Some f \<in> set (p_ofile (ps ! i))"
  shows "1 \<le> fds ps f"
proof -
  have "1 \<le> count_list (p_ofile (ps ! i)) (Some f)" using assms(2) count_list_0_iff [of "p_ofile (ps ! i)" "Some f"] by linarith
  then show ?thesis unfolding fds_def using assms(1) by (metis (no_types, lifting) elem_le_sum_list length_map nth_map order_trans)
qed

text \<open>
  C27. From a state whose counts are right, such as the one the kernel starts in, any sequence of scheduler steps, forks, exits,
  waits and of open, dup, close, pipe, read and write calls leads to a state in which the reference count of every
  entry of the file table is the number of descriptors of all processes that name it. So a file is
  closed exactly when its last descriptor goes, and no descriptor names a closed entry.
\<close>

theorem reference_counts_exact:
  assumes "(fd_step dv)\<^sup>*\<^sup>* s t" "dv_keeps dv" "fd_ok s"
  shows "(\<forall>f < NFILE. f_ref (ftable t ! f) = int (fds (ptable t) f)) \<and>
    (\<forall>i < NPROC. \<forall>f. Some f \<in> set (p_ofile (ptable t ! i)) \<longrightarrow> f < NFILE \<and> 1 \<le> f_ref (ftable t ! f))"
proof -
  have I: "fd_inv (\<lambda>_. 0) t" using fd_steps_ok [OF assms] by (simp add: fd_ok_def)
  have "f < NFILE \<and> 1 \<le> f_ref (ftable t ! f)" if "i < NPROC" "Some f \<in> set (p_ofile (ptable t ! i))" for i f
    using I that fds_pos [of i "ptable t" f] by (auto simp: fd_inv_def)
  moreover have "\<forall>f < NFILE. f_ref (ftable t ! f) = int (fds (ptable t) f)" using I by (simp add: fd_inv_def)
  ultimately show ?thesis by blast
qed

text \<open>A process with one file open under two descriptors, which then yields.\<close>

definition fd_sample :: kern_st where
  "fd_sample = (boot_kern (\<lambda>_. []) 0 empty_kmem)\<lparr>cur := Some 0,
     ftable := (replicate NFILE zero_file)[3 := zero_file\<lparr>f_ref := 2\<rparr>],
     ptable := (replicate NPROC zero_proc)[0 := zero_proc\<lparr>p_state := RUNNING, p_pid := 1,
       p_ofile := (replicate NOFILE None)[0 := Some 3, 1 := Some 3]\<rparr>]\<rparr>"

lemma fd_sample_ok: "fd_ok fd_sample"
proof -
  let ?o = "replicate NOFILE None :: nat option list"
  have n: "count_list ?o (Some f) = 0" for f by (simp add: count_list_0_iff)
  have "count_list (?o[0 := Some 3]) (Some f) = (if f = 3 then 1 else 0)" for f
    using count_list_update [of 0 ?o "Some 3" "Some f"] n [of f] by (simp add: param_defs split: if_splits)
  then have q: "count_list (?o[0 := Some 3, 1 := Some 3]) (Some f) = (if f = 3 then 2 else 0)" for f
    using count_list_update [of 1 "?o[0 := Some 3]" "Some 3" "Some f"] by (simp add: param_defs split: if_splits)
  have z: "fds (replicate NPROC zero_proc) f = 0" for f
    using n [of f] by (simp add: fds_def zero_proc_def sum_list_replicate map_replicate)
  have c: "fds (ptable fd_sample) f = (if f = 3 then 2 else 0)" for f
    using fds_update [of 0 "replicate NPROC zero_proc" "ptable fd_sample ! 0" f] z [of f] n [of f] q [of f]
    by (simp add: fd_sample_def zero_proc_def param_defs)
  have t: "ptable fd_sample ! i = (if i = 0 then ptable fd_sample ! 0 else zero_proc)" if "i < NPROC" for i
    using that by (auto simp: fd_sample_def)
  have t0: "p_state (ptable fd_sample ! 0) = RUNNING" "p_ofile (ptable fd_sample ! 0) = ?o[0 := Some 3, 1 := Some 3]"
    by (simp_all add: fd_sample_def param_defs)
  have "f < 100" if "Some f \<in> set (?o[0 := Some 3, 1 := Some 3])" for f
    using that q [of f] count_list_0_iff [of "?o[0 := Some 3, 1 := Some 3]" "Some f"] by (auto split: if_splits)
  then have p: "length (p_ofile (ptable fd_sample ! i)) = NOFILE \<and> (dead (ptable fd_sample ! i) \<longrightarrow> no_files (ptable fd_sample ! i)) \<and>
      (\<forall>f. Some f \<in> set (p_ofile (ptable fd_sample ! i)) \<longrightarrow> f < NFILE)" if "i < NPROC" for i
    using t [OF that] t0 by (cases "i = 0") (auto simp: dead_def no_files_def zero_proc_def NFILE_def)
  have r: "f_ref (ftable fd_sample ! f) = (if f = 3 then 2 else 0)" if "f < NFILE" for f
    using that by (auto simp: fd_sample_def zero_file_def nth_list_update)
  have "length (ptable fd_sample) = NPROC" "length (ftable fd_sample) = NFILE" by (simp_all add: fd_sample_def)
  then have "fd_inv (\<lambda>_. 0) fd_sample" unfolding fd_inv_def using p r c by simp
  then show ?thesis using t0 by (simp add: fd_ok_def cur_ok_def dead_def) (simp add: fd_sample_def param_defs)
qed

theorem reference_counts_exact_witness:
  "\<exists>t. (fd_step consoleinit)\<^sup>*\<^sup>* fd_sample t \<and> cur t = None \<and> f_ref (ftable t ! 3) = int (fds (ptable t) 3)"
proof -
  let ?t = "scheduler_back (upd_proc 0 (\<lambda>p. p\<lparr>p_state := RUNNABLE\<rparr>) fd_sample)"
  have "yield fd_sample = Ok (upd_proc 0 (\<lambda>p. p\<lparr>p_state := RUNNABLE\<rparr>) fd_sample)" by (simp add: yield_def myproc_def fd_sample_def)
  then have "fd_step consoleinit fd_sample ?t" by (rule fd_step.scheds [OF sched_step.yields])
  then have s: "(fd_step consoleinit)\<^sup>*\<^sup>* fd_sample ?t" by blast
  have "cur ?t = None" by (simp add: scheduler_back_def)
  moreover have "3 < NFILE" by (simp add: param_defs)
  ultimately show ?thesis using reference_counts_exact [OF s dv_keeps_console fd_sample_ok] s by blast
qed

end
