(* ===== verification/Sh.thy ===== *)
theory Sh
  imports Sysfile
begin

text \<open>
  The command parser of the shell (\<^verbatim>\<open>sh.c\<close>). A command line is the byte list \<open>cs\<close> before its
  NUL; the pointers \<^verbatim>\<open>s\<close> and \<^verbatim>\<open>es\<close> are positions in it, \<open>es\<close> being \<open>length cs\<close>, where the NUL
  is. A word of the command is kept, as in the code, by its two end positions. The four mutually
  recursive routines take fuel, and \<open>None\<close> stands for running out of it; \<open>Panic\<close> is the shell's
  own \<^verbatim>\<open>panic\<close>, which prints the message and exits. Memory for the tree is assumed to be available:
  the code does not test the result of \<^verbatim>\<open>malloc\<close>.
\<close>

section \<open>Commands\<close>

definition MAXARGS :: nat where "MAXARGS = 10"

datatype cmd =
    EXEC "(nat \<times> nat) list"
  | REDIR cmd nat nat int nat
  | PIPE cmd cmd
  | LIST cmd cmd
  | BACK cmd

text \<open>
  \<^verbatim>\<open>parseexec\<close> stores arguments into the \<^verbatim>\<open>execcmd\<close> it made first, while its result may already
  be a chain of redirections that ends in that node: the store goes through the chain.
\<close>

fun add_arg :: "nat \<times> nat \<Rightarrow> cmd \<Rightarrow> cmd" where
  "add_arg w (EXEC ws) = EXEC (ws @ [w])"
| "add_arg w (REDIR c q e mode fd) = REDIR (add_arg w c) q e mode fd"
| "add_arg w c = c"

section \<open>Scanning\<close>

definition whitespace :: "byte list" where
  "whitespace = [32, 9, 13, 10, 11]"

definition symbols :: "byte list" where
  "symbols = ascii ''<|>&;()''"

definition ch_at :: "byte list \<Rightarrow> nat \<Rightarrow> byte" where
  "ch_at cs s = (if s < length cs then cs ! s else 0)"

text \<open>The scanning loops: advance while a condition on the current byte holds.\<close>

function skip :: "(byte \<Rightarrow> bool) \<Rightarrow> byte list \<Rightarrow> nat \<Rightarrow> nat" where
  "skip P cs s = (if s < length cs \<and> P (cs ! s) then skip P cs (Suc s) else s)"
  by auto
termination
  by (relation "measure (\<lambda>(P, cs, s). length cs - s)") auto

declare skip.simps [simp del]

definition is_ws :: "byte \<Rightarrow> bool" where
  "is_ws c \<longleftrightarrow> c \<in> set whitespace"

definition is_word :: "byte \<Rightarrow> bool" where
  "is_word c \<longleftrightarrow> c \<notin> set whitespace \<and> c \<notin> set symbols"

text \<open>The result holds the token, the bounds \<^verbatim>\<open>q\<close> and \<^verbatim>\<open>eq\<close>, and the position after the token.\<close>

definition gettoken :: "byte list \<Rightarrow> nat \<Rightarrow> byte \<times> nat \<times> nat \<times> nat" where
  "gettoken cs ps =
     (let q = skip is_ws cs ps;
          c = ch_at cs q;
          (ret, eq) =
            (if c = 0 then (0, q)
             else if c \<in> set (ascii ''|();&<'') then (c, q + 1)
             else if c = of_char CHR ''>'' then
               (if ch_at cs (q + 1) = of_char CHR ''>'' then (of_char CHR ''+'', q + 2) else (c, q + 1))
             else (of_char CHR ''a'', skip is_word cs q))
      in (ret, q, eq, skip is_ws cs eq))"

definition peek :: "byte list \<Rightarrow> nat \<Rightarrow> string \<Rightarrow> bool \<times> nat" where
  "peek cs ps toks =
     (let s = skip is_ws cs ps in (ch_at cs s \<noteq> 0 \<and> ch_at cs s \<in> set (ascii toks), s))"

text \<open>\<open>eat\<close>: a call of \<^verbatim>\<open>gettoken\<close> with null pointers for the bounds, after a successful \<^verbatim>\<open>peek\<close>.\<close>

definition eat :: "byte list \<Rightarrow> nat \<Rightarrow> nat" where
  "eat cs ps = (case gettoken cs ps of (ret, q, eq, p) \<Rightarrow> p)"

text \<open>Scanning moves forward and stays within the line.\<close>

lemma skip_ge: "s \<le> skip P cs s"
  by (induction P cs s rule: skip.induct) (subst skip.simps, auto)

lemma skip_le: "s \<le> length cs \<Longrightarrow> skip P cs s \<le> length cs"
  by (induction P cs s rule: skip.induct) (subst skip.simps, auto)

lemma skip_stop: "skip P cs s < length cs \<Longrightarrow> \<not> P (cs ! skip P cs s)"
  by (induction P cs s rule: skip.induct) (metis skip.simps)

lemma skip_id: "s < length cs \<Longrightarrow> \<not> P (cs ! s) \<Longrightarrow> skip P cs s = s"
  by (subst skip.simps) simp

lemma skip_skip: "skip P cs (skip P cs s) = skip P cs s"
  by (subst skip.simps) (use skip_stop [of P cs s] in auto)

lemma ch_at_range: "ch_at cs s \<noteq> 0 \<Longrightarrow> s < length cs"
  by (auto simp: ch_at_def split: if_splits)

lemma eat_progress:
  assumes "peek cs s toks = (True, p)" "set (ascii toks) \<subseteq> set symbols"
  shows "p < eat cs p" "p < length cs" "s \<le> p"
proof -
  have p: "p = skip is_ws cs s" "ch_at cs p \<noteq> 0" "ch_at cs p \<in> set symbols"
    using assms by (auto simp: peek_def Let_def)
  then have l: "p < length cs" and q: "skip is_ws cs p = p" by (auto simp: ch_at_range skip_skip)
  show "p < length cs" by (rule l)
  show "s \<le> p" using p(1) by (simp add: skip_ge)
  have "ch_at cs p \<in> set (ascii ''|();&<'') \<or> ch_at cs p = of_char CHR ''>''"
    using p(3) by (auto simp: symbols_def ascii_def)
  then show "p < eat cs p"
    using p(2) skip_ge [of "p + 1" is_ws cs] skip_ge [of "p + 2" is_ws cs]
    by (auto simp: eat_def gettoken_def Let_def q)
qed

lemma gettoken_forward: "gettoken cs s = (ret, q, eq, p) \<Longrightarrow> s \<le> q \<and> q \<le> eq \<and> eq \<le> p"
  using skip_ge [of s is_ws cs] skip_ge [of _ is_word cs] skip_ge [of _ is_ws cs]
  by (auto simp: gettoken_def Let_def split: if_splits)

section \<open>Parsing\<close>

lemma redir_syms [simp]: "set (ascii ''<>'') \<subseteq> set symbols" "set (ascii ''&'') \<subseteq> set symbols"
  by (simp_all add: symbols_def ascii_def)

lemma redir_progress:
  assumes "(True, p) = peek cs s ''<>''" "(tok, q1, e1, p1) = gettoken cs p" "(ret, q, e, p2) = gettoken cs p1"
  shows "length cs - p2 < length cs - s"
proof -
  have "p < eat cs p" "p < length cs" "s \<le> p"
    using eat_progress [of cs s "''<>''" p] assms(1) by auto
  moreover have "eat cs p = p1" by (simp add: eat_def assms(2) [symmetric])
  moreover have "p1 \<le> p2" using gettoken_forward [OF assms(3) [symmetric]] by simp
  ultimately show ?thesis by simp
qed

text \<open>The mode and the descriptor of a redirection; \<^verbatim>\<open>>>\<close> has those of \<^verbatim>\<open>>\<close>.\<close>

definition redir_of :: "byte \<Rightarrow> (int \<times> nat) option" where
  "redir_of tok =
     (if tok = of_char CHR ''<'' then Some (O_RDONLY, 0)
      else if tok = of_char CHR ''>'' then Some (or O_WRONLY O_CREATE, 1)
      else if tok = of_char CHR ''+'' then Some (or O_WRONLY O_CREATE, 1)
      else None)"

function parseredirs :: "cmd \<Rightarrow> byte list \<Rightarrow> nat \<Rightarrow> (cmd \<times> nat) res" where
  "parseredirs c cs s =
     (let (b, p) = peek cs s ''<>'' in
      if \<not> b then Ok (c, p)
      else
        let (tok, _, _, p1) = gettoken cs p;
            (ret, q, eq, p2) = gettoken cs p1
        in if ret \<noteq> of_char CHR ''a'' then Panic ''missing file for redirection''
           else case redir_of tok of
               Some (mode, fd) \<Rightarrow> parseredirs (REDIR c q eq mode fd) cs p2
             | None \<Rightarrow> parseredirs c cs p2)"
  by auto
termination
proof (relation "measure (\<lambda>(c, cs, s). length cs - s)", goal_cases)
  case 1 show ?case by simp
qed (clarsimp, erule (2) redir_progress)+

declare parseredirs.simps [simp del]

text \<open>The argument loop of \<^verbatim>\<open>parseexec\<close>, with \<open>argc\<close> arguments stored so far.\<close>

function parseargs :: "cmd \<Rightarrow> nat \<Rightarrow> byte list \<Rightarrow> nat \<Rightarrow> (cmd \<times> nat) res" where
  "parseargs ret argc cs s =
     (let (b, p) = peek cs s ''|)&;'' in
      if b then Ok (ret, p)
      else
        let (tok, q, eq, p1) = gettoken cs p in
        if tok = 0 then Ok (ret, p1)
        else if tok \<noteq> of_char CHR ''a'' then Panic ''syntax''
        else if argc + 1 \<ge> MAXARGS then Panic ''too many args''
        else bnd (parseredirs (add_arg (q, eq) ret) cs p1) (\<lambda>(ret, p2). parseargs ret (argc + 1) cs p2))"
  by auto
termination
  by (relation "measure (\<lambda>(ret, argc, cs, s). MAXARGS - argc)") auto

declare parseargs.simps [simp del]

text \<open>The loop of \<^verbatim>\<open>parseline\<close> over \<^verbatim>\<open>&\<close>.\<close>

function parsebacks :: "cmd \<Rightarrow> byte list \<Rightarrow> nat \<Rightarrow> cmd \<times> nat" where
  "parsebacks c cs s =
     (let (b, p) = peek cs s ''&'' in if b then parsebacks (BACK c) cs (eat cs p) else (c, p))"
  by auto
termination
proof (relation "measure (\<lambda>(c, cs, s). length cs - s)", goal_cases)
  case 1 show ?case by simp
next
  case (2 c cs s b b' p)
  then show ?case using eat_progress [of cs s "''&''" p] by auto
qed

declare parsebacks.simps [simp del]

primrec pbnd :: "'a res option \<Rightarrow> ('a \<Rightarrow> 'b res option) \<Rightarrow> 'b res option" where
  "pbnd None f = None"
| "pbnd (Some r) f = (case r of Ok x \<Rightarrow> f x | Panic m \<Rightarrow> Some (Panic m) | Blocks \<Rightarrow> Some Blocks | Undef \<Rightarrow> Some Undef)"

fun parseline :: "nat \<Rightarrow> byte list \<Rightarrow> nat \<Rightarrow> (cmd \<times> nat) res option"
and parsepipe :: "nat \<Rightarrow> byte list \<Rightarrow> nat \<Rightarrow> (cmd \<times> nat) res option"
and parseblock :: "nat \<Rightarrow> byte list \<Rightarrow> nat \<Rightarrow> (cmd \<times> nat) res option"
and parseexec :: "nat \<Rightarrow> byte list \<Rightarrow> nat \<Rightarrow> (cmd \<times> nat) res option" where
  "parseline 0 cs s = None"
| "parseline (Suc n) cs s =
     pbnd (parsepipe n cs s) (\<lambda>(c, p).
       let (c, p) = parsebacks c cs p; (b, p) = peek cs p '';'' in
       if b then pbnd (parseline n cs (eat cs p)) (\<lambda>(d, p). Some (Ok (LIST c d, p)))
       else Some (Ok (c, p)))"
| "parsepipe 0 cs s = None"
| "parsepipe (Suc n) cs s =
     pbnd (parseexec n cs s) (\<lambda>(c, p).
       let (b, p) = peek cs p ''|'' in
       if b then pbnd (parsepipe n cs (eat cs p)) (\<lambda>(d, p). Some (Ok (PIPE c d, p)))
       else Some (Ok (c, p)))"
| "parseblock 0 cs s = None"
| "parseblock (Suc n) cs s =
     (let (b, p) = peek cs s ''('' in
      if \<not> b then Some (Panic ''parseblock'')
      else pbnd (parseline n cs (eat cs p)) (\<lambda>(c, p).
        let (b, p) = peek cs p '')'' in
        if \<not> b then Some (Panic ''syntax - missing )'')
        else Some (parseredirs c cs (eat cs p))))"
| "parseexec 0 cs s = None"
| "parseexec (Suc n) cs s =
     (let (b, p) = peek cs s ''('' in
      if b then parseblock n cs p
      else Some (bnd (parseredirs (EXEC []) cs p) (\<lambda>(ret, p). parseargs ret 0 cs p)))"

declare parseline.simps [simp del] parsepipe.simps [simp del] parseblock.simps [simp del] parseexec.simps [simp del]

text \<open>
  \<^verbatim>\<open>nulterminate\<close> on the buffer. The position after a word is at most that of the line's NUL.
\<close>

fun nulterminate :: "cmd \<Rightarrow> byte list \<Rightarrow> byte list" where
  "nulterminate (EXEC ws) buf = foldl (\<lambda>buf (q, eq). buf[eq := 0]) buf ws"
| "nulterminate (REDIR c q eq mode fd) buf = (nulterminate c buf)[eq := 0]"
| "nulterminate (PIPE l r) buf = nulterminate r (nulterminate l buf)"
| "nulterminate (LIST l r) buf = nulterminate r (nulterminate l buf)"
| "nulterminate (BACK c) buf = nulterminate c buf"

definition parse_fuel :: "byte list \<Rightarrow> nat" where
  "parse_fuel cs = 4 * length cs + 4"

text \<open>
  \<^verbatim>\<open>parsecmd\<close> on a buffer that holds a NUL: the tree, and the buffer with the words terminated.
\<close>

definition parsecmd :: "byte list \<Rightarrow> (cmd \<times> byte list) res option" where
  "parsecmd buf =
     (if 0 \<notin> set buf then Some Undef
      else let cs = takeWhile (\<lambda>c. c \<noteq> 0) buf in
        pbnd (parseline (parse_fuel cs) cs 0) (\<lambda>(c, p).
          let (_, p) = peek cs p [] in
          if p \<noteq> length cs then Some (Panic ''syntax'')
          else Some (Ok (c, nulterminate c buf))))"

end
