(* ===== verification/Sh_Grammar.thy ===== *)
theory Sh_Grammar
  imports Sh
begin

text \<open>
  The language of the shell's command lines and the proof that \<^verbatim>\<open>parsecmd\<close> parses it: an
  independent tokenizer on lists, a grammar over tokens as inductive predicates that give each
  line its tree, and the soundness, completeness and termination of the parser.
\<close>

section \<open>Tokens and grammar\<close>

datatype tok = Word nat nat | Op byte

function lexs :: "nat \<Rightarrow> byte list \<Rightarrow> tok list" where
  "lexs i [] = []"
| "lexs i (c # cs) =
     (if is_ws c then lexs (Suc i) cs
      else if c = of_char CHR ''>'' \<and> cs \<noteq> [] \<and> hd cs = of_char CHR ''>'' then Op (of_char CHR ''+'') # lexs (i + 2) (tl cs)
      else if c \<in> set symbols then Op c # lexs (Suc i) cs
      else let n = Suc (length (takeWhile is_word cs)) in Word i (i + n) # lexs (i + n) (dropWhile is_word cs))"
  by pat_completeness auto
termination
  by (relation "measure (\<lambda>(i, cs). length cs)") (auto simp: length_dropWhile_le le_imp_less_Suc)

text \<open>Redirections and words of a simple command, in any order.\<close>

type_synonym redir = "nat \<times> nat \<times> int \<times> nat"

inductive g_items :: "tok list \<Rightarrow> (nat \<times> nat) list \<Rightarrow> redir list \<Rightarrow> bool" where
  g_end: "g_items [] [] []"
| g_word: "g_items ts ws rs \<Longrightarrow> g_items (Word q e # ts) ((q, e) # ws) rs"
| g_redir: "g_items ts ws rs \<Longrightarrow> redir_of t = Some (mode, fd) \<Longrightarrow>
     g_items (Op t # Word q e # ts) ws ((q, e, mode, fd) # rs)"

definition wraps :: "cmd \<Rightarrow> redir list \<Rightarrow> cmd" where
  "wraps c rs = foldl (\<lambda>c (q, e, mode, fd). REDIR c q e mode fd) c rs"

inductive g_exec :: "tok list \<Rightarrow> cmd \<Rightarrow> bool"
and g_pipe :: "tok list \<Rightarrow> cmd \<Rightarrow> bool"
and g_line :: "tok list \<Rightarrow> cmd \<Rightarrow> bool" where
  g_simple: "g_items ts ws rs \<Longrightarrow> length ws < MAXARGS \<Longrightarrow> g_exec ts (wraps (EXEC ws) rs)"
| g_block: "g_line ts c \<Longrightarrow> g_items us [] rs \<Longrightarrow>
     g_exec (Op (of_char CHR ''('') # ts @ Op (of_char CHR '')'') # us) (wraps c rs)"
| g_last: "g_exec ts c \<Longrightarrow> g_pipe ts c"
| g_bar: "g_exec ts c \<Longrightarrow> g_pipe us d \<Longrightarrow> g_pipe (ts @ Op (of_char CHR ''|'') # us) (PIPE c d)"
| g_one: "g_pipe ts c \<Longrightarrow> g_line (ts @ replicate k (Op (of_char CHR ''&''))) ((BACK ^^ k) c)"
| g_seq: "g_pipe ts c \<Longrightarrow> g_line us d \<Longrightarrow>
     g_line (ts @ replicate k (Op (of_char CHR ''&'')) @ Op (of_char CHR '';'') # us) (LIST ((BACK ^^ k) c) d)"

section \<open>The scanner produces the tokens\<close>

definition L :: "byte list \<Rightarrow> nat \<Rightarrow> tok list" where
  "L cs p = lexs p (drop p cs)"

definition headc :: "tok list \<Rightarrow> byte" where
  "headc ts = (case ts of Op t # _ \<Rightarrow> if t = of_char CHR ''+'' then of_char CHR ''>'' else t | _ \<Rightarrow> 0)"

lemma headc_simps [simp]:
  "headc [] = 0" "headc (Word q e # ts) = 0"
  "headc (Op t # ts) = (if t = of_char CHR ''+'' then of_char CHR ''>'' else t)"
  by (simp_all add: headc_def)

lemma skip_length: "s \<le> length cs \<Longrightarrow> skip P cs s = s + length (takeWhile P (drop s cs))"
proof (induction P cs s rule: skip.induct)
  case (1 P cs s)
  show ?case
  proof (cases "s < length cs")
    case True
    then show ?thesis using 1 by (subst skip.simps) (simp flip: Cons_nth_drop_Suc)
  next
    case False
    then show ?thesis by (subst skip.simps) simp
  qed
qed

lemma skip_drop: "s \<le> length cs \<Longrightarrow> drop (skip P cs s) cs = dropWhile P (drop s cs)"
  by (simp add: skip_length dropWhile_eq_drop add.commute)

lemma lexs_ws: "lexs i xs = lexs (i + length (takeWhile is_ws xs)) (dropWhile is_ws xs)"
  by (induction xs arbitrary: i) auto

lemma L_skip: "s \<le> length cs \<Longrightarrow> L cs (skip is_ws cs s) = L cs s"
  unfolding L_def by (subst (2) lexs_ws) (simp add: skip_length dropWhile_eq_drop add.commute)

lemma sym_not_ws: "c \<in> set symbols \<Longrightarrow> \<not> is_ws c"
  by (auto simp: symbols_def ascii_def is_ws_def whitespace_def)

lemma sym_not_zero: "(0 :: byte) \<notin> set symbols"
  by (simp add: symbols_def ascii_def)

lemma plus_not_sym: "of_char CHR ''+'' \<notin> set symbols"
  by (simp add: symbols_def ascii_def)

lemma ch_at_eq: "0 \<notin> set cs \<Longrightarrow> ch_at cs s = 0 \<longleftrightarrow> length cs \<le> s"
  by (auto simp: ch_at_def in_set_conv_nth)

lemma L_end: "L cs (length cs) = []"
  by (simp add: L_def)

lemma L_cons:
  assumes "q < length cs" "\<not> is_ws (cs ! q)"
  shows "L cs q =
    (if cs ! q = of_char CHR ''>'' \<and> ch_at cs (q + 1) = of_char CHR ''>'' then Op (of_char CHR ''+'') # L cs (q + 2)
     else if cs ! q \<in> set symbols then Op (cs ! q) # L cs (q + 1)
     else Word q (skip is_word cs q) # L cs (skip is_word cs q))"
proof -
  have d: "drop q cs = cs ! q # drop (Suc q) cs" using assms(1) by (simp add: Cons_nth_drop_Suc)
  have h: "(drop (Suc q) cs \<noteq> [] \<and> hd (drop (Suc q) cs) = of_char CHR ''>'') \<longleftrightarrow> ch_at cs (q + 1) = of_char CHR ''>''"
    by (auto simp: ch_at_def hd_drop_conv_nth One_nat_def)
  have "cs ! q \<notin> set symbols \<Longrightarrow> is_word (cs ! q)" using assms(2) by (simp add: is_word_def is_ws_def)
  then have w: "skip is_word cs q = q + Suc (length (takeWhile is_word (drop (Suc q) cs)))"
    "drop (skip is_word cs q) cs = dropWhile is_word (drop (Suc q) cs)" if "cs ! q \<notin> set symbols"
    using that assms(1) skip_length [of q cs is_word] skip_drop [of q cs is_word] by (simp_all add: d)
  show ?thesis unfolding L_def d
    using h w assms(2) by (auto simp: Let_def tl_drop drop_Suc [symmetric] numeral_2_eq_2 One_nat_def simp del: drop_eq_Nil)
qed

lemma peek_lex:
  assumes "0 \<notin> set cs" "s \<le> length cs" "set (ascii toks) \<subseteq> set symbols"
  shows "peek cs s toks = (headc (L cs s) \<in> set (ascii toks), skip is_ws cs s)"
proof -
  let ?q = "skip is_ws cs s"
  have q: "?q \<le> length cs" "L cs ?q = L cs s" using assms by (simp_all add: skip_le L_skip)
  have "0 \<notin> set (ascii toks)" using assms(3) sym_not_zero by blast
  moreover have "ch_at cs ?q \<noteq> 0 \<and> ch_at cs ?q \<in> set (ascii toks) \<longleftrightarrow> headc (L cs ?q) \<in> set (ascii toks)" if "?q < length cs"
    using that L_cons [of ?q cs] skip_stop [of is_ws cs s] assms(3) calculation plus_not_sym
    by (auto simp: ch_at_def)
  ultimately show ?thesis
    using q by (cases "?q = length cs") (auto simp: peek_def Let_def ch_at_def L_end)
qed

definition tok_ok :: "byte list \<Rightarrow> nat \<Rightarrow> byte \<times> nat \<times> nat \<times> nat \<Rightarrow> bool" where
  "tok_ok cs s = (\<lambda>(ret, q, e, p). p \<le> length cs \<and> s \<le> p \<and>
     (case L cs s of
        [] \<Rightarrow> ret = 0 \<and> L cs p = []
      | Op t # ts \<Rightarrow> ret = t \<and> t \<noteq> 0 \<and> t \<noteq> of_char CHR ''a'' \<and> L cs p = ts
      | Word a b # ts \<Rightarrow> ret = of_char CHR ''a'' \<and> q = a \<and> e = b \<and> L cs p = ts))"

lemma tok_okI:
  assumes "e \<le> length cs" "s \<le> e"
    and "L cs s = Op ret # L cs e \<and> ret \<in> set (ascii ''|();&<>+'') \<or> L cs s = Word q e # L cs e \<and> ret = of_char CHR ''a''"
  shows "tok_ok cs s (ret, q, e, skip is_ws cs e)"
proof -
  have "s \<le> skip is_ws cs e" using assms(2) skip_ge [of e is_ws cs] by linarith
  then show ?thesis using assms by (auto simp: tok_ok_def skip_le L_skip ascii_def)
qed

lemma sym_cases: "c \<in> set symbols \<longleftrightarrow> c \<in> set (ascii ''|();&<'') \<or> c = of_char CHR ''>''"
  by (auto simp: symbols_def ascii_def)

lemma gettoken_lex:
  assumes "0 \<notin> set cs" "s \<le> length cs"
  shows "tok_ok cs s (gettoken cs s)"
proof -
  let ?q = "skip is_ws cs s"
  let ?c = "cs ! ?q"
  have q: "?q \<le> length cs" "L cs s = L cs ?q" "s \<le> ?q" using assms by (simp_all add: skip_le L_skip skip_ge)
  consider "?q = length cs" | "?q < length cs" using q by linarith
  then show ?thesis
  proof cases
    case 1
    then show ?thesis using q by (simp add: tok_ok_def gettoken_def Let_def ch_at_def L_end skip_id skip.simps)
  next
    case 2
    have nz: "ch_at cs ?q = ?c" "?c \<noteq> 0" using 2 assms(1) by (auto simp: in_set_conv_nth ch_at_def)
    note lc = L_cons [OF 2 skip_stop [OF 2], unfolded q(2) [symmetric]]
    have s1: "?q + 1 \<le> length cs" "s \<le> ?q + 1" using 2 q(3) by simp_all
    consider "?c \<in> set (ascii ''|();&<'')" | "?c = of_char CHR ''>''" "ch_at cs (?q + 1) = of_char CHR ''>''"
      | "?c = of_char CHR ''>''" "ch_at cs (?q + 1) \<noteq> of_char CHR ''>''" | "?c \<notin> set symbols"
      by (metis sym_cases)
    then show ?thesis
    proof cases
      case 1
      then have "L cs s = Op ?c # L cs (?q + 1)" using lc by (auto simp: sym_cases ascii_def)
      moreover have "gettoken cs s = (?c, ?q, ?q + 1, skip is_ws cs (?q + 1))" using nz 1 by (simp add: gettoken_def Let_def)
      ultimately show ?thesis using 1 s1 by (auto intro!: tok_okI simp: ascii_def)
    next
      case two: 2
      have "?q + 2 \<le> length cs" using two(2) ch_at_range [of cs "?q + 1"] by simp
      moreover have "gettoken cs s = (of_char CHR ''+'', ?q, ?q + 2, skip is_ws cs (?q + 2))"
        using nz two by (simp add: gettoken_def Let_def ascii_def)
      ultimately show ?thesis using two lc q(3) by (auto intro!: tok_okI simp: ascii_def)
    next
      case 3
      have "gettoken cs s = (?c, ?q, ?q + 1, skip is_ws cs (?q + 1))" using nz 3 by (simp add: gettoken_def Let_def ascii_def)
      then show ?thesis using 3 lc s1 by (auto intro!: tok_okI simp: ascii_def sym_cases)
    next
      case 4
      have "gettoken cs s = (of_char CHR ''a'', ?q, skip is_word cs ?q, skip is_ws cs (skip is_word cs ?q))"
        using nz 4 by (simp add: gettoken_def Let_def sym_cases)
      moreover have "skip is_word cs ?q \<le> length cs" "s \<le> skip is_word cs ?q"
        using q skip_ge [of ?q is_word cs] by (simp_all add: skip_le)
      moreover have "L cs s = Word ?q (skip is_word cs ?q) # L cs (skip is_word cs ?q)" using lc 4 by (simp add: sym_cases)
      ultimately show ?thesis by (simp add: tok_okI)
    qed
  qed
qed

lemma eat_lex:
  assumes "0 \<notin> set cs" "p \<le> length cs" "L cs p = Op t # ts"
  shows "L cs (eat cs p) = ts" "eat cs p \<le> length cs"
  using gettoken_lex [OF assms(1,2)] assms(3) by (auto simp: eat_def tok_ok_def split: prod.splits)

section \<open>Redirections and simple commands\<close>

lemma wraps_simps [simp]:
  "wraps c [] = c" "wraps c ((q, e, mode, fd) # rs) = wraps (REDIR c q e mode fd) rs"
  "wraps c (rs @ rs') = wraps (wraps c rs) rs'"
  by (simp_all add: wraps_def)

lemma add_arg_wraps: "add_arg w (wraps c rs) = wraps (add_arg w c) rs"
  by (induction rs arbitrary: c) auto

definition at_redir :: "tok list \<Rightarrow> bool" where
  "at_redir ts \<longleftrightarrow> headc ts \<in> set (ascii ''<>'')"

lemma at_redir_iff: "at_redir ts \<longleftrightarrow> (\<exists>t us mode fd. ts = Op t # us \<and> redir_of t = Some (mode, fd))"
  by (auto simp: at_redir_def headc_def redir_of_def ascii_def split: list.splits tok.splits)

lemma parseredirs_none:
  assumes "0 \<notin> set cs" "s \<le> length cs" "\<not> at_redir (L cs s)"
  shows "parseredirs c cs s = Ok (c, skip is_ws cs s)"
  using assms by (subst parseredirs.simps) (simp add: peek_lex at_redir_def)

lemma parseredirs_some:
  assumes "0 \<notin> set cs" "s \<le> length cs" "L cs s = Op t # ts" "redir_of t = Some (mode, fd)"
  obtains (named) q e us p where "ts = Word q e # us" "p \<le> length cs" "L cs p = us"
      "parseredirs c cs s = parseredirs (REDIR c q e mode fd) cs p"
    | (none) "\<nexists>q e us. ts = Word q e # us" "parseredirs c cs s = Panic ''missing file for redirection''"
proof -
  let ?p = "skip is_ws cs s"
  have p: "?p \<le> length cs" "L cs ?p = Op t # ts" using assms by (simp_all add: skip_le L_skip)
  have h: "peek cs s ''<>'' = (True, ?p)" using assms at_redir_iff [of "L cs s"] by (simp add: peek_lex at_redir_def)
  obtain tok q1 e1 p1 where g1: "gettoken cs ?p = (tok, q1, e1, p1)" by (metis prod_cases4)
  have 1: "tok = t" "p1 \<le> length cs" "L cs p1 = ts" using gettoken_lex [OF assms(1) p(1)] p(2) by (auto simp: g1 tok_ok_def)
  obtain ret q e p2 where g2: "gettoken cs p1 = (ret, q, e, p2)" by (metis prod_cases4)
  note 2 = gettoken_lex [OF assms(1) 1(2), unfolded g2 tok_ok_def 1(3)]
  show thesis
  proof (cases "\<exists>q e us. ts = Word q e # us")
    case True
    then show thesis using named 2 by (subst (asm) parseredirs.simps) (auto simp: h g1 g2 1 assms(4))
  next
    case False
    then have "ret \<noteq> of_char CHR ''a''" using 2 by (auto split: list.splits tok.splits)
    then have "parseredirs c cs s = Panic ''missing file for redirection''"
      by (subst parseredirs.simps) (simp add: h g1 g2)
    then show thesis using none False by blast
  qed
qed

inductive_cases g_items_Nil [elim!]: "g_items [] ws rs"
inductive_cases g_items_Op: "g_items (Op t # ts) ws rs"
inductive_cases g_items_Word: "g_items (Word q e # ts) ws rs"

lemma parseredirs_sound:
  assumes "0 \<notin> set cs" "s \<le> length cs" "parseredirs c cs s = Ok (c', p)"
  shows "\<exists>ts rs. L cs s = ts @ L cs p \<and> g_items ts [] rs \<and> c' = wraps c rs \<and> p \<le> length cs \<and> \<not> at_redir (L cs p)"
  using assms(2,3)
proof (induction "length (L cs s)" arbitrary: s c rule: less_induct)
  case less
  show ?case
  proof (cases "at_redir (L cs s)")
    case False
    then have "c' = c" "p = skip is_ws cs s" using less.prems assms(1) by (simp_all add: parseredirs_none)
    then show ?thesis using less.prems(1) False by (auto intro!: exI [of _ "[]"] g_end simp: skip_le L_skip)
  next
    case True
    then obtain t ts mode fd where t: "L cs s = Op t # ts" "redir_of t = Some (mode, fd)" by (auto simp: at_redir_iff)
    show ?thesis
    proof (cases rule: parseredirs_some [OF assms(1) less.prems(1) t, of c])
      case (1 q e us p1)
      obtain vs rs where "L cs p1 = vs @ L cs p" "g_items vs [] rs" "c' = wraps (REDIR c q e mode fd) rs" "p \<le> length cs" "\<not> at_redir (L cs p)"
        using less.hyps [of p1 "REDIR c q e mode fd"] less.prems t 1 by auto
      then show ?thesis using t 1
        by (intro exI [of _ "Op t # Word q e # vs"] exI [of _ "(q, e, mode, fd) # rs"]) (auto intro: g_redir)
    next
      case 2
      then show ?thesis using less.prems by simp
    qed
  qed
qed

lemma parseredirs_complete:
  assumes "0 \<notin> set cs" "g_items ts ws rs" "ws = []" "s \<le> length cs" "L cs s = ts @ rest" "\<not> at_redir rest"
  shows "\<exists>p \<le> length cs. parseredirs c cs s = Ok (wraps c rs, p) \<and> L cs p = rest"
  using assms(2-)
proof (induction arbitrary: s c rule: g_items.induct)
  case g_end
  then show ?case using assms(1) by (simp add: parseredirs_none skip_le L_skip)
next
  case (g_redir ts ws rs t mode fd q e)
  have "L cs s = Op t # Word q e # ts @ rest" using g_redir.prems by simp
  from parseredirs_some [OF assms(1) g_redir.prems(2) this g_redir.hyps(2), of c]
  obtain p where p: "p \<le> length cs" "L cs p = ts @ rest" "parseredirs c cs s = parseredirs (REDIR c q e mode fd) cs p" by auto
  then show ?case using g_redir.IH [OF g_redir.prems(1) p(1,2) g_redir.prems(4)] by simp
qed simp

definition after_exec :: "tok list \<Rightarrow> bool" where
  "after_exec ts \<longleftrightarrow> ts = [] \<or> headc ts \<in> set (ascii ''|)&;'')"

lemma exec_syms [simp]:
  "set (ascii ''|)&;'') \<subseteq> set symbols" "set (ascii ''|'') \<subseteq> set symbols" "set (ascii '';'') \<subseteq> set symbols"
  "set (ascii ''('') \<subseteq> set symbols" "set (ascii '')'') \<subseteq> set symbols" "set (ascii []) \<subseteq> set symbols"
  by (simp_all add: symbols_def ascii_def)

lemma syms_no_zero [simp]: "set (ascii toks) \<subseteq> set symbols \<Longrightarrow> 0 \<notin> set (ascii toks)"
  using sym_not_zero by blast

lemma after_exec_not_redir: "after_exec ts \<Longrightarrow> \<not> at_redir ts"
  by (auto simp: after_exec_def at_redir_def ascii_def)

lemma parseargs_stop:
  assumes "0 \<notin> set cs" "s \<le> length cs" "after_exec (L cs s)"
  obtains p where "p \<le> length cs" "L cs p = L cs s" "parseargs c n cs s = Ok (c, p)"
proof (cases "L cs s")
  case Nil
  obtain tok q e p where g: "gettoken cs (skip is_ws cs s) = (tok, q, e, p)" by (metis prod_cases4)
  have "tok = 0" "p \<le> length cs" "L cs p = []"
    using gettoken_lex [OF assms(1), of "skip is_ws cs s"] assms(2) Nil by (auto simp: g tok_ok_def skip_le L_skip)
  moreover from this have "parseargs c n cs s = Ok (c, p)"
    using assms Nil by (subst parseargs.simps) (simp add: peek_lex g)
  ultimately show thesis using that Nil by simp
next
  case Cons
  then have "parseargs c n cs s = Ok (c, skip is_ws cs s)"
    using assms by (subst parseargs.simps) (simp add: peek_lex after_exec_def)
  then show thesis using that [of "skip is_ws cs s"] assms by (simp add: skip_le L_skip)
qed

lemma parseargs_word:
  assumes "0 \<notin> set cs" "s \<le> length cs" "L cs s = Word q e # ts"
  obtains p where "p \<le> length cs" "L cs p = ts"
    "parseargs c n cs s = (if n + 1 \<ge> MAXARGS then Panic ''too many args''
       else bnd (parseredirs (add_arg (q, e) c) cs p) (\<lambda>(c, p). parseargs c (n + 1) cs p))"
proof -
  obtain tok q' e' p where g: "gettoken cs (skip is_ws cs s) = (tok, q', e', p)" by (metis prod_cases4)
  have "tok = of_char CHR ''a''" "q' = q" "e' = e" "p \<le> length cs" "L cs p = ts"
    using gettoken_lex [OF assms(1), of "skip is_ws cs s"] assms(2,3) by (auto simp: g tok_ok_def skip_le L_skip)
  moreover from this have "parseargs c n cs s = (if n + 1 \<ge> MAXARGS then Panic ''too many args''
       else bnd (parseredirs (add_arg (q, e) c) cs p) (\<lambda>(c, p). parseargs c (n + 1) cs p))"
    using assms by (subst parseargs.simps) (simp add: peek_lex g)
  ultimately show thesis using that by blast
qed

lemma parseargs_bad:
  assumes "0 \<notin> set cs" "s \<le> length cs" "L cs s = Op t # ts" "\<not> after_exec (L cs s)"
  shows "parseargs c n cs s = Panic ''syntax''"
proof -
  obtain tok q' e' p where g: "gettoken cs (skip is_ws cs s) = (tok, q', e', p)" by (metis prod_cases4)
  have "tok \<noteq> of_char CHR ''a''" "tok \<noteq> 0"
    using gettoken_lex [OF assms(1), of "skip is_ws cs s"] assms(2,3) by (auto simp: g tok_ok_def skip_le L_skip)
  then show ?thesis using assms by (subst parseargs.simps) (simp add: peek_lex g after_exec_def)
qed

lemma g_items_append: "g_items ts ws rs \<Longrightarrow> g_items us ws' rs' \<Longrightarrow> g_items (ts @ us) (ws @ ws') (rs @ rs')"
  by (induction rule: g_items.induct) (auto intro: g_items.intros)

lemma parseargs_sound:
  assumes "0 \<notin> set cs" "s \<le> length cs" "parseargs (wraps (EXEC ws) rs) (length ws) cs s = Ok (c', p)" "length ws < MAXARGS"
  shows "\<exists>ts ws' rs'. L cs s = ts @ L cs p \<and> g_items ts ws' rs' \<and> c' = wraps (EXEC (ws @ ws')) (rs @ rs') \<and>
    length (ws @ ws') < MAXARGS \<and> p \<le> length cs \<and> after_exec (L cs p)"
  using assms(2-)
proof (induction "length (L cs s)" arbitrary: s ws rs rule: less_induct)
  case less
  consider "after_exec (L cs s)" | t ts where "L cs s = Op t # ts" "\<not> after_exec (L cs s)" | q e ts where "L cs s = Word q e # ts"
    by (metis after_exec_def list.exhaust tok.exhaust)
  then show ?case
  proof cases
    case 1
    obtain p1 where "p1 \<le> length cs" "L cs p1 = L cs s" "parseargs (wraps (EXEC ws) rs) (length ws) cs s = Ok (wraps (EXEC ws) rs, p1)"
      by (rule parseargs_stop [OF assms(1) less.prems(1) 1])
    then have "p \<le> length cs" "L cs p = L cs s" "c' = wraps (EXEC ws) rs" using less.prems(2) by simp_all
    then show ?thesis using 1 less.prems(3) by (intro exI [of _ "[]"]) (simp add: g_end)
  next
    case 2
    then show ?thesis using parseargs_bad [OF assms(1) less.prems(1) 2] less.prems(2) by simp
  next
    case (3 q e ts)
    obtain p1 where p1: "p1 \<le> length cs" "L cs p1 = ts"
      and w: "parseargs (wraps (EXEC ws) rs) (length ws) cs s = (if length ws + 1 \<ge> MAXARGS then Panic ''too many args''
        else bnd (parseredirs (add_arg (q, e) (wraps (EXEC ws) rs)) cs p1) (\<lambda>(c, p). parseargs c (length ws + 1) cs p))"
      by (rule parseargs_word [OF assms(1) less.prems(1) 3])
    then have n: "length ws + 1 < MAXARGS" using less.prems(2) by (simp split: if_splits)
    then obtain c1 p2 where r: "parseredirs (wraps (EXEC (ws @ [(q, e)])) rs) cs p1 = Ok (c1, p2)"
      and a: "parseargs c1 (length ws + 1) cs p2 = Ok (c', p)"
      using less.prems(2) w by (auto simp: bnd_eq_Ok add_arg_wraps)
    obtain us rs1 where us: "ts = us @ L cs p2" "g_items us [] rs1" "c1 = wraps (EXEC (ws @ [(q, e)])) (rs @ rs1)" "p2 \<le> length cs"
      using parseredirs_sound [OF assms(1) p1(1) r] p1(2) by auto
    have "length (L cs p2) < length (L cs s)" "length (ws @ [(q, e)]) < MAXARGS" using 3 us n by simp_all
    from less.hyps [OF this(1) us(4) _ this(2), of "rs @ rs1"] us(3) a
    obtain vs ws2 rs2 where "L cs p2 = vs @ L cs p" "g_items vs ws2 rs2" "c' = wraps (EXEC ((ws @ [(q, e)]) @ ws2)) ((rs @ rs1) @ rs2)"
      "length ((ws @ [(q, e)]) @ ws2) < MAXARGS" "p \<le> length cs" "after_exec (L cs p)"
      by (auto simp: One_nat_def)
    then show ?thesis using 3 us g_word [OF g_items_append [OF us(2)], of vs ws2 rs2 q e]
      by (intro exI [of _ "Word q e # us @ vs"] exI [of _ "(q, e) # ws2"] exI [of _ "rs1 @ rs2"]) simp
  qed
qed

lemma g_items_split:
  assumes "g_items ts ws rs"
  shows "\<exists>t1 r1 t2 r2. ts = t1 @ t2 \<and> rs = r1 @ r2 \<and> g_items t1 [] r1 \<and> g_items t2 ws r2 \<and> (t2 = [] \<or> (\<exists>q e us. t2 = Word q e # us))"
  using assms
proof (induction rule: g_items.induct)
  case g_end
  then show ?case by (intro exI [of _ "[]"]) (simp add: g_items.g_end)
next
  case (g_word ts ws rs q e)
  then show ?case
    by (intro exI [of _ "[]"] exI [of _ "Word q e # ts"] exI [of _ rs]) (simp add: g_items.g_end g_items.g_word)
next
  case (g_redir ts ws rs t mode fd q e)
  obtain t1 r1 t2 r2 where *: "ts = t1 @ t2" "rs = r1 @ r2" "g_items t1 [] r1" "g_items t2 ws r2"
    "t2 = [] \<or> (\<exists>q e us. t2 = Word q e # us)" using g_redir.IH by (elim exE conjE)
  then show ?case using g_items.g_redir [OF *(3) g_redir.hyps(2), of q e]
    by (intro exI [of _ "Op t # Word q e # t1"] exI [of _ "(q, e, mode, fd) # r1"] exI [of _ t2] exI [of _ r2]) simp
qed

lemma parseargs_complete:
  assumes "0 \<notin> set cs" "s \<le> length cs" "g_items ts ws' rs'" "ts = [] \<or> (\<exists>q e us. ts = Word q e # us)"
    "L cs s = ts @ rest" "after_exec rest" "length (ws @ ws') < MAXARGS"
  shows "\<exists>p \<le> length cs. parseargs (wraps (EXEC ws) rs) (length ws) cs s = Ok (wraps (EXEC (ws @ ws')) (rs @ rs'), p) \<and> L cs p = rest"
  using assms(2-)
proof (induction "length ts" arbitrary: s ts ws ws' rs rs' rule: less_induct)
  case less
  show ?case
  proof (cases ts)
    case Nil
    then have e: "ws' = []" "rs' = []" "L cs s = rest" using less.prems by auto
    obtain p1 where "p1 \<le> length cs" "L cs p1 = L cs s" "parseargs (wraps (EXEC ws) rs) (length ws) cs s = Ok (wraps (EXEC ws) rs, p1)"
      using parseargs_stop [OF assms(1) less.prems(1), of "wraps (EXEC ws) rs" "length ws"] less.prems(5) e by metis
    then show ?thesis using e by auto
  next
    case (Cons t us)
    then obtain q e w2 where t: "t = Word q e" "ws' = (q, e) # w2" "g_items us w2 rs'"
      using less.prems(2,3) by (auto elim: g_items_Word)
    obtain t1 r1 t2 r2 where u: "us = t1 @ t2" "rs' = r1 @ r2" "g_items t1 [] r1" "g_items t2 w2 r2" "t2 = [] \<or> (\<exists>q e us. t2 = Word q e # us)"
      using g_items_split [OF t(3)] by (elim exE conjE)
    obtain p1 where p1: "p1 \<le> length cs" "L cs p1 = us @ rest"
      and w: "parseargs (wraps (EXEC ws) rs) (length ws) cs s = (if length ws + 1 \<ge> MAXARGS then Panic ''too many args''
        else bnd (parseredirs (add_arg (q, e) (wraps (EXEC ws) rs)) cs p1) (\<lambda>(c, p). parseargs c (length ws + 1) cs p))"
      using parseargs_word [OF assms(1) less.prems(1), of q e "us @ rest"] less.prems(4) Cons t(1) by (metis append_Cons)
    have n: "length ws + 1 < MAXARGS" using less.prems(6) t(2) by simp
    have "\<not> at_redir (t2 @ rest)" using u(5) less.prems(5) after_exec_not_redir by (auto simp: at_redir_def ascii_def)
    then obtain p2 where p2: "p2 \<le> length cs" "L cs p2 = t2 @ rest"
      "parseredirs (wraps (EXEC (ws @ [(q, e)])) rs) cs p1 = Ok (wraps (EXEC (ws @ [(q, e)])) (rs @ r1), p2)"
      using parseredirs_complete [OF assms(1) u(3) refl p1(1), of "t2 @ rest"] p1(2) u(1) by fastforce
    have "length t2 < length ts" "length ((ws @ [(q, e)]) @ w2) < MAXARGS" using Cons u(1) less.prems(6) t(2) by simp_all
    from less.hyps [OF this(1) p2(1) u(4,5) p2(2) less.prems(5) this(2), of "rs @ r1"]
    show ?thesis using w n p2(3) u(2) t(2) by (simp add: add_arg_wraps One_nat_def)
  qed
qed

section \<open>The parser and the grammar\<close>

lemma pbnd_eq_Ok: "pbnd r f = Some (Ok y) \<longleftrightarrow> (\<exists>x. r = Some (Ok x) \<and> f x = Some (Ok y))"
  by (cases r) (auto split: res.splits)

lemma peek_one:
  assumes "0 \<notin> set cs" "s \<le> length cs" "set (ascii [c]) \<subseteq> set symbols"
  shows "peek cs s [c] = (headc (L cs s) = of_char c, skip is_ws cs s)"
  using peek_lex [OF assms] by (simp add: ascii_def)

lemma parsebacks_step:
  assumes "0 \<notin> set cs" "s \<le> length cs"
  shows "parsebacks c cs s =
    (if headc (L cs s) = of_char CHR ''&'' then parsebacks (BACK c) cs (eat cs (skip is_ws cs s)) else (c, skip is_ws cs s))"
  using assms by (subst parsebacks.simps) (simp add: peek_one)

lemma headc_Op: "headc ts = c \<Longrightarrow> c \<noteq> 0 \<Longrightarrow> c \<noteq> of_char CHR ''>'' \<Longrightarrow> \<exists>us. ts = Op c # us"
  by (auto simp: headc_def split: list.splits tok.splits if_splits)

lemma parsebacks_lex:
  assumes "0 \<notin> set cs" "s \<le> length cs"
  shows "\<exists>k p. parsebacks c cs s = ((BACK ^^ k) c, p) \<and> p \<le> length cs \<and> L cs s = replicate k (Op (of_char CHR ''&'')) @ L cs p \<and>
    headc (L cs p) \<noteq> of_char CHR ''&''"
  using assms(2)
proof (induction "length (L cs s)" arbitrary: s c rule: less_induct)
  case less
  let ?p = "skip is_ws cs s"
  have p: "?p \<le> length cs" "L cs ?p = L cs s" using less.prems by (simp_all add: skip_le L_skip)
  show ?case
  proof (cases "headc (L cs s) = of_char CHR ''&''")
    case True
    then obtain us where us: "L cs s = Op (of_char CHR ''&'') # us" using headc_Op by fastforce
    note e = eat_lex [OF assms(1) p(1), unfolded p(2), OF us]
    from less.hyps [of "eat cs ?p" "BACK c"] e us obtain k p' where
      "parsebacks (BACK c) cs (eat cs ?p) = ((BACK ^^ k) (BACK c), p')" "p' \<le> length cs"
      "us = replicate k (Op (of_char CHR ''&'')) @ L cs p'" "headc (L cs p') \<noteq> of_char CHR ''&''" by auto
    then show ?thesis using us True parsebacks_step [OF assms(1) less.prems, of c]
      by (intro exI [of _ "Suc k"] exI [of _ p']) (simp add: funpow_swap1)
  next
    case False
    then show ?thesis using p parsebacks_step [OF assms(1) less.prems, of c] by (intro exI [of _ 0] exI [of _ ?p]) simp
  qed
qed

lemma backs_exact:
  assumes "0 \<notin> set cs" "s \<le> length cs" "L cs s = replicate k (Op (of_char CHR ''&'')) @ rest" "headc rest \<noteq> of_char CHR ''&''"
  shows "\<exists>p \<le> length cs. parsebacks c cs s = ((BACK ^^ k) c, p) \<and> L cs p = rest"
proof -
  have uniq: "k = j \<and> rest = us" if "replicate k (Op (of_char CHR ''&'')) @ rest = replicate j (Op (of_char CHR ''&'')) @ us"
    "headc rest \<noteq> of_char CHR ''&''" "headc us \<noteq> of_char CHR ''&''" for k j and rest us :: "tok list"
    using that
  proof (induction k arbitrary: j)
    case 0
    then show ?case by (cases j) auto
  next
    case (Suc k)
    then show ?case by (cases j) auto
  qed
  obtain j p where "parsebacks c cs s = ((BACK ^^ j) c, p)" "p \<le> length cs" "L cs s = replicate j (Op (of_char CHR ''&'')) @ L cs p"
    "headc (L cs p) \<noteq> of_char CHR ''&''" using parsebacks_lex [OF assms(1,2)] by blast
  then show ?thesis using uniq [of k rest j "L cs p"] assms(3,4) by auto
qed

lemma eat_headc:
  assumes "0 \<notin> set cs" "s \<le> length cs" "headc (L cs s) = c" "c \<noteq> 0" "c \<noteq> of_char CHR ''>''"
  shows "L cs s = Op c # L cs (eat cs (skip is_ws cs s))" "eat cs (skip is_ws cs s) \<le> length cs"
proof -
  obtain us where us: "L cs s = Op c # us" using headc_Op [OF assms(3-5)] by auto
  have p: "skip is_ws cs s \<le> length cs" "L cs (skip is_ws cs s) = Op c # us" using assms(2) us by (simp_all add: skip_le L_skip)
  show "L cs s = Op c # L cs (eat cs (skip is_ws cs s))" "eat cs (skip is_ws cs s) \<le> length cs"
    using eat_lex [OF assms(1) p] us by simp_all
qed

text \<open>What a parser routine promises: the tokens it consumed form a phrase with the tree it returns.\<close>

definition sound :: "(tok list \<Rightarrow> cmd \<Rightarrow> bool) \<Rightarrow> byte list \<Rightarrow> nat \<Rightarrow> (cmd \<times> nat) res option \<Rightarrow> bool" where
  "sound G cs s r \<longleftrightarrow> (\<forall>c p. r = Some (Ok (c, p)) \<longrightarrow> (\<exists>ts. L cs s = ts @ L cs p \<and> G ts c \<and> p \<le> length cs))"

lemma soundD: "sound G cs s r \<Longrightarrow> r = Some (Ok (c, p)) \<Longrightarrow> \<exists>ts. L cs s = ts @ L cs p \<and> G ts c \<and> p \<le> length cs"
  by (simp add: sound_def)

lemma parseline_sound:
  assumes z: "0 \<notin> set cs" "s \<le> length cs"
    and ih: "\<And>s. s \<le> length cs \<Longrightarrow> sound g_pipe cs s (parsepipe n cs s)" "\<And>s. s \<le> length cs \<Longrightarrow> sound g_line cs s (parseline n cs s)"
  shows "sound g_line cs s (parseline (Suc n) cs s)"
  unfolding sound_def
proof (intro allI impI)
  fix c p assume a: "parseline (Suc n) cs s = Some (Ok (c, p))"
  then obtain c1 p1 where 1: "parsepipe n cs s = Some (Ok (c1, p1))" by (auto simp: parseline.simps pbnd_eq_Ok)
  obtain ts where ts: "L cs s = ts @ L cs p1" "g_pipe ts c1" "p1 \<le> length cs" using soundD [OF ih(1) [OF z(2)] 1] by auto
  obtain k p2 where b: "parsebacks c1 cs p1 = ((BACK ^^ k) c1, p2)" "p2 \<le> length cs" "L cs p1 = replicate k (Op (of_char CHR ''&'')) @ L cs p2"
    using parsebacks_lex [OF z(1) ts(3), of c1] by auto
  let ?p = "skip is_ws cs p2"
  show "\<exists>ts. L cs s = ts @ L cs p \<and> g_line ts c \<and> p \<le> length cs"
  proof (cases "headc (L cs p2) = of_char CHR '';''")
    case False
    then have "c = (BACK ^^ k) c1" "p = ?p" using a b 1 z by (simp_all add: parseline.simps peek_one)
    then show ?thesis using ts b g_one [OF ts(2), of k] by (auto simp: skip_le L_skip)
  next
    case True
    note e = eat_headc [OF z(1) b(2) True]
    obtain d where d: "parseline n cs (eat cs ?p) = Some (Ok (d, p))" "c = LIST ((BACK ^^ k) c1) d"
      using a b 1 z True by (auto simp: parseline.simps peek_one pbnd_eq_Ok)
    obtain us where "L cs (eat cs ?p) = us @ L cs p" "g_line us d" "p \<le> length cs" using soundD [OF ih(2) [OF e(2)] d(1)] by auto
    then show ?thesis using ts b e(1) d(2) g_seq [OF ts(2), of us d k]
      by (intro exI [of _ "ts @ replicate k (Op (of_char CHR ''&'')) @ Op (of_char CHR '';'') # us"]) simp
  qed
qed

lemma parsepipe_sound:
  assumes z: "0 \<notin> set cs" "s \<le> length cs"
    and ih: "\<And>s. s \<le> length cs \<Longrightarrow> sound g_exec cs s (parseexec n cs s)" "\<And>s. s \<le> length cs \<Longrightarrow> sound g_pipe cs s (parsepipe n cs s)"
  shows "sound g_pipe cs s (parsepipe (Suc n) cs s)"
  unfolding sound_def
proof (intro allI impI)
  fix c p assume a: "parsepipe (Suc n) cs s = Some (Ok (c, p))"
  then obtain c1 p1 where 1: "parseexec n cs s = Some (Ok (c1, p1))" by (auto simp: parsepipe.simps pbnd_eq_Ok)
  obtain ts where ts: "L cs s = ts @ L cs p1" "g_exec ts c1" "p1 \<le> length cs" using soundD [OF ih(1) [OF z(2)] 1] by auto
  let ?p = "skip is_ws cs p1"
  show "\<exists>ts. L cs s = ts @ L cs p \<and> g_pipe ts c \<and> p \<le> length cs"
  proof (cases "headc (L cs p1) = of_char CHR ''|''")
    case False
    then have "c = c1" "p = ?p" using a ts 1 z by (simp_all add: parsepipe.simps peek_one)
    then show ?thesis using ts g_last [OF ts(2)] by (auto simp: skip_le L_skip)
  next
    case True
    note e = eat_headc [OF z(1) ts(3) True]
    obtain d where d: "parsepipe n cs (eat cs ?p) = Some (Ok (d, p))" "c = PIPE c1 d"
      using a ts 1 z True by (auto simp: parsepipe.simps peek_one pbnd_eq_Ok)
    obtain us where "L cs (eat cs ?p) = us @ L cs p" "g_pipe us d" "p \<le> length cs" using soundD [OF ih(2) [OF e(2)] d(1)] by auto
    then show ?thesis using ts e(1) d(2) g_bar [OF ts(2), of us d]
      by (intro exI [of _ "ts @ Op (of_char CHR ''|'') # us"]) simp
  qed
qed

lemma parseblock_sound:
  assumes z: "0 \<notin> set cs" "s \<le> length cs"
    and ih: "\<And>s. s \<le> length cs \<Longrightarrow> sound g_line cs s (parseline n cs s)"
  shows "sound g_exec cs s (parseblock (Suc n) cs s)"
  unfolding sound_def
proof (intro allI impI)
  fix c p assume a: "parseblock (Suc n) cs s = Some (Ok (c, p))"
  let ?p = "skip is_ws cs s"
  have h: "headc (L cs s) = of_char CHR ''(''" using a z by (auto simp: parseblock.simps peek_one split: if_splits)
  note e = eat_headc [OF z h]
  obtain c1 p1 where 1: "parseline n cs (eat cs ?p) = Some (Ok (c1, p1))"
    using a z h by (auto simp: parseblock.simps peek_one pbnd_eq_Ok)
  obtain ts where ts: "L cs (eat cs ?p) = ts @ L cs p1" "g_line ts c1" "p1 \<le> length cs" using soundD [OF ih [OF e(2)] 1] by auto
  have h2: "headc (L cs p1) = of_char CHR '')''" using a 1 ts z h by (auto simp: parseblock.simps peek_one split: if_splits)
  note e2 = eat_headc [OF z(1) ts(3) h2]
  have "parseredirs c1 cs (eat cs (skip is_ws cs p1)) = Ok (c, p)" using a 1 ts z h h2 by (simp add: parseblock.simps peek_one)
  from parseredirs_sound [OF z(1) e2(2) this] obtain us rs where
    "L cs (eat cs (skip is_ws cs p1)) = us @ L cs p" "g_items us [] rs" "c = wraps c1 rs" "p \<le> length cs" by auto
  then show "\<exists>ts. L cs s = ts @ L cs p \<and> g_exec ts c \<and> p \<le> length cs"
    using e(1) e2(1) ts g_block [OF ts(2), of us rs]
    by (intro exI [of _ "Op (of_char CHR ''('') # ts @ Op (of_char CHR '')'') # us"]) simp
qed

lemma parseexec_sound:
  assumes z: "0 \<notin> set cs" "s \<le> length cs"
    and ih: "\<And>s. s \<le> length cs \<Longrightarrow> sound g_exec cs s (parseblock n cs s)"
  shows "sound g_exec cs s (parseexec (Suc n) cs s)"
  unfolding sound_def
proof (intro allI impI)
  fix c p assume a: "parseexec (Suc n) cs s = Some (Ok (c, p))"
  let ?p = "skip is_ws cs s"
  have p: "?p \<le> length cs" "L cs ?p = L cs s" using z by (simp_all add: skip_le L_skip)
  show "\<exists>ts. L cs s = ts @ L cs p \<and> g_exec ts c \<and> p \<le> length cs"
  proof (cases "headc (L cs s) = of_char CHR ''(''")
    case True
    then have "parseblock n cs ?p = Some (Ok (c, p))" using a z by (simp add: parseexec.simps peek_one)
    then show ?thesis using soundD [OF ih [OF p(1)]] p(2) by simp
  next
    case False
    then obtain c1 p1 where r: "parseredirs (EXEC []) cs ?p = Ok (c1, p1)" and g: "parseargs c1 0 cs p1 = Ok (c, p)"
      using a z by (auto simp: parseexec.simps peek_one bnd_eq_Ok)
    obtain us rs where us: "L cs s = us @ L cs p1" "g_items us [] rs" "c1 = wraps (EXEC []) rs" "p1 \<le> length cs"
      using parseredirs_sound [OF z(1) p(1) r] p(2) by auto
    obtain vs ws' rs' where vs: "L cs p1 = vs @ L cs p" "g_items vs ws' rs'" "c = wraps (EXEC ws') (rs @ rs')" "length ws' < MAXARGS" "p \<le> length cs"
      using parseargs_sound [OF z(1) us(4), of "[]" rs c p] g us(3) by (auto simp: MAXARGS_def)
    show ?thesis using us(1) vs g_simple [OF g_items_append [OF us(2) vs(2)]] by (intro exI [of _ "us @ vs"]) simp
  qed
qed

lemma parse_sound:
  assumes "0 \<notin> set cs"
  shows "(\<forall>s \<le> length cs. sound g_line cs s (parseline n cs s)) \<and> (\<forall>s \<le> length cs. sound g_pipe cs s (parsepipe n cs s)) \<and>
    (\<forall>s \<le> length cs. sound g_exec cs s (parseblock n cs s)) \<and> (\<forall>s \<le> length cs. sound g_exec cs s (parseexec n cs s))"
proof (induction n)
  case 0
  show ?case by (simp add: sound_def parseline.simps parsepipe.simps parseblock.simps parseexec.simps)
next
  case (Suc n)
  then show ?case
    using parseline_sound [OF assms] parsepipe_sound [OF assms] parseblock_sound [OF assms] parseexec_sound [OF assms] by auto
qed

text \<open>
  Termination: a level of the recursion either consumes a token or goes one of four routines
  down, so four units of fuel for each token, and four more, are enough.
\<close>

lemma pbnd_not_None: "r \<noteq> None \<Longrightarrow> (\<And>x. r = Some (Ok x) \<Longrightarrow> f x \<noteq> None) \<Longrightarrow> pbnd r f \<noteq> None"
  by (cases r) (auto split: res.splits)

lemma eat_shorter:
  assumes "0 \<notin> set cs" "s \<le> length cs" "headc (L cs s) = c" "c \<noteq> 0" "c \<noteq> of_char CHR ''>''"
  shows "length (L cs s) = Suc (length (L cs (eat cs (skip is_ws cs s))))"
  using eat_headc(1) [OF assms] by simp

lemma parse_returns:
  assumes z: "0 \<notin> set cs"
  shows "(\<forall>s \<le> length cs. 4 * length (L cs s) + 4 \<le> n \<longrightarrow> parseline n cs s \<noteq> None) \<and>
    (\<forall>s \<le> length cs. 4 * length (L cs s) + 3 \<le> n \<longrightarrow> parsepipe n cs s \<noteq> None) \<and>
    (\<forall>s \<le> length cs. 4 * length (L cs s) + 1 \<le> n \<longrightarrow> parseblock n cs s \<noteq> None) \<and>
    (\<forall>s \<le> length cs. 4 * length (L cs s) + 2 \<le> n \<longrightarrow> parseexec n cs s \<noteq> None)"
proof (induction n)
  case 0
  show ?case by simp
next
  case (Suc n)
  note line = Suc.IH [THEN conjunct1, rule_format] and pipe = Suc.IH [THEN conjunct2, THEN conjunct1, rule_format]
    and block = Suc.IH [THEN conjunct2, THEN conjunct2, THEN conjunct1, rule_format]
    and exec = Suc.IH [THEN conjunct2, THEN conjunct2, THEN conjunct2, rule_format]
  note sound = parse_sound [OF z, of n, THEN conjunct2, THEN conjunct1, rule_format]
    parse_sound [OF z, of n, THEN conjunct2, THEN conjunct2, THEN conjunct2, rule_format]
  have l: "parseline (Suc n) cs s \<noteq> None" if s: "s \<le> length cs" "4 * length (L cs s) + 4 \<le> Suc n" for s
    unfolding parseline.simps
  proof (rule pbnd_not_None, goal_cases)
    case 1 then show ?case using pipe [OF s(1)] s(2) by simp
  next
    case (2 x)
    obtain c1 p1 where x: "x = (c1, p1)" by (cases x)
    obtain ts where ts: "L cs s = ts @ L cs p1" "p1 \<le> length cs" using soundD [OF sound(1) [OF s(1)]] 2 x by auto
    obtain k p2 where b: "parsebacks c1 cs p1 = ((BACK ^^ k) c1, p2)" "p2 \<le> length cs" "L cs p1 = replicate k (Op (of_char CHR ''&'')) @ L cs p2"
      using parsebacks_lex [OF z ts(2), of c1] by auto
    have "parseline n cs (eat cs (skip is_ws cs p2)) \<noteq> None" if "headc (L cs p2) = of_char CHR '';''"
      using eat_shorter [OF z b(2) that] eat_headc(2) [OF z b(2) that] ts(1) b(3) s(2) by (intro line) auto
    then show ?case using b z by (auto simp: x peek_one split: res.splits)
  qed
  have p: "parsepipe (Suc n) cs s \<noteq> None" if s: "s \<le> length cs" "4 * length (L cs s) + 3 \<le> Suc n" for s
    unfolding parsepipe.simps
  proof (rule pbnd_not_None, goal_cases)
    case 1 then show ?case using exec [OF s(1)] s(2) by simp
  next
    case (2 x)
    obtain c1 p1 where x: "x = (c1, p1)" by (cases x)
    obtain ts where ts: "L cs s = ts @ L cs p1" "p1 \<le> length cs" using soundD [OF sound(2) [OF s(1)]] 2 x by auto
    have "parsepipe n cs (eat cs (skip is_ws cs p1)) \<noteq> None" if "headc (L cs p1) = of_char CHR ''|''"
      using eat_shorter [OF z ts(2) that] eat_headc(2) [OF z ts(2) that] ts(1) s(2) by (intro pipe) auto
    then show ?case using ts z by (auto simp: x peek_one split: res.splits)
  qed
  have b: "parseblock (Suc n) cs s \<noteq> None" if s: "s \<le> length cs" "4 * length (L cs s) + 1 \<le> Suc n" for s
  proof -
    have "parseline n cs (eat cs (skip is_ws cs s)) \<noteq> None" if "headc (L cs s) = of_char CHR ''(''"
      using eat_shorter [OF z s(1) that] eat_headc(2) [OF z s(1) that] s(2) by (intro line) auto
    then show ?thesis using s z by (auto simp: parseblock.simps peek_one split: res.splits prod.splits)
  qed
  have "parseexec (Suc n) cs s \<noteq> None" if s: "s \<le> length cs" "4 * length (L cs s) + 2 \<le> Suc n" for s
    using block [of "skip is_ws cs s"] s z by (auto simp: parseexec.simps peek_one skip_le L_skip)
  then show ?case using l p b by simp
qed

lemma lexs_length: "length (lexs i xs) \<le> length xs"
proof (induction i xs rule: lexs.induct)
  case (2 i c cs)
  have "length (dropWhile is_word cs) \<le> length cs" "length (tl cs) \<le> length cs" by (simp_all add: length_dropWhile_le)
  then show ?case using 2 by (auto simp: Let_def intro: le_trans le_SucI)
qed simp

lemma L_length: "length (L cs 0) \<le> length cs"
  by (simp add: L_def lexs_length)

lemma parseline_returns: "0 \<notin> set cs \<Longrightarrow> parseline (parse_fuel cs) cs 0 \<noteq> None"
  using parse_returns [of cs "parse_fuel cs"] L_length [of cs] by (simp add: parse_fuel_def)

text \<open>Completeness: a phrase followed by what may follow it is parsed to its tree.\<close>

definition after_pipe :: "tok list \<Rightarrow> bool" where
  "after_pipe ts \<longleftrightarrow> ts = [] \<or> headc ts \<in> set (ascii '')&;'')"

definition after_line :: "tok list \<Rightarrow> bool" where
  "after_line ts \<longleftrightarrow> ts = [] \<or> headc ts = of_char CHR '')''"

lemmas after_defs = after_exec_def after_pipe_def after_line_def ascii_def

lemma after_pipeD: "after_pipe ts \<Longrightarrow> after_exec ts \<and> headc ts \<noteq> of_char CHR ''|''"
  by (auto simp: after_defs)

lemma after_lineD: "after_line ts \<Longrightarrow> after_pipe ts \<and> headc ts \<noteq> of_char CHR ''&'' \<and> headc ts \<noteq> of_char CHR '';''"
  by (auto simp: after_defs)

lemma after_intros [simp]:
  "after_exec (Op (of_char CHR ''|'') # ts)" "after_line (Op (of_char CHR '')'') # ts)"
  "after_pipe (Op (of_char CHR ''&'') # ts)" "after_pipe (Op (of_char CHR '';'') # ts)"
  by (simp_all add: after_defs)

lemma pbnd_arg: "pbnd r f \<noteq> None \<Longrightarrow> r \<noteq> None"
  by (cases r) simp_all

definition parses :: "(nat \<Rightarrow> byte list \<Rightarrow> nat \<Rightarrow> (cmd \<times> nat) res option) \<Rightarrow> byte list \<Rightarrow> (tok list \<Rightarrow> bool) \<Rightarrow> tok list \<Rightarrow> cmd \<Rightarrow> bool" where
  "parses f cs after ts c \<longleftrightarrow> (\<forall>n s rest. s \<le> length cs \<longrightarrow> L cs s = ts @ rest \<longrightarrow> after rest \<longrightarrow> f n cs s \<noteq> None \<longrightarrow>
     (\<exists>p \<le> length cs. f n cs s = Some (Ok (c, p)) \<and> L cs p = rest))"

lemma parsesI:
  assumes "\<And>s. f 0 cs s = None"
    and "\<And>n s rest. s \<le> length cs \<Longrightarrow> L cs s = ts @ rest \<Longrightarrow> after rest \<Longrightarrow> f (Suc n) cs s \<noteq> None \<Longrightarrow>
      \<exists>p \<le> length cs. f (Suc n) cs s = Some (Ok (c, p)) \<and> L cs p = rest"
  shows "parses f cs after ts c"
  unfolding parses_def using assms by (metis not0_implies_Suc)

lemma parsesD:
  "parses f cs after ts c \<Longrightarrow> s \<le> length cs \<Longrightarrow> L cs s = ts @ rest \<Longrightarrow> after rest \<Longrightarrow> f n cs s \<noteq> None \<Longrightarrow>
    \<exists>p \<le> length cs. f n cs s = Some (Ok (c, p)) \<and> L cs p = rest"
  by (simp add: parses_def)

lemma g_items_head: "g_items ts ws rs \<Longrightarrow> after_exec rest \<Longrightarrow> headc (ts @ rest) \<noteq> of_char CHR ''(''"
  by (erule g_items.cases) (auto simp: after_defs redir_of_def split: if_splits)

lemma parseexec_simple:
  assumes z: "0 \<notin> set cs" and g: "g_items ts ws rs" "length ws < MAXARGS"
  shows "parses parseexec cs after_exec ts (wraps (EXEC ws) rs)"
proof (rule parsesI)
  fix n s rest assume a: "s \<le> length cs" "L cs s = ts @ rest" "after_exec rest"
  obtain t1 r1 t2 r2 where u: "ts = t1 @ t2" "rs = r1 @ r2" "g_items t1 [] r1" "g_items t2 ws r2" "t2 = [] \<or> (\<exists>q e us. t2 = Word q e # us)"
    using g_items_split [OF g(1)] by (elim exE conjE)
  let ?p = "skip is_ws cs s"
  have p: "?p \<le> length cs" "L cs ?p = t1 @ t2 @ rest" using a u(1) by (simp_all add: skip_le L_skip)
  have "\<not> at_redir (t2 @ rest)" using u(5) a(3) after_exec_not_redir by (auto simp: at_redir_def ascii_def)
  then obtain p2 where p2: "p2 \<le> length cs" "L cs p2 = t2 @ rest" "parseredirs (EXEC []) cs ?p = Ok (wraps (EXEC []) r1, p2)"
    using parseredirs_complete [OF z u(3) refl p] by blast
  obtain p3 where p3: "p3 \<le> length cs" "L cs p3 = rest" "parseargs (wraps (EXEC []) r1) 0 cs p2 = Ok (wraps (EXEC ws) rs, p3)"
    using parseargs_complete [OF z p2(1) u(4,5) p2(2) a(3), of "[]" r1] g(2) u(2) by auto
  have "headc (L cs s) \<noteq> of_char CHR ''(''" using g_items_head [OF g(1) a(3)] a(2) by simp
  then show "\<exists>p \<le> length cs. parseexec (Suc n) cs s = Some (Ok (wraps (EXEC ws) rs, p)) \<and> L cs p = rest"
    using z a(1) p2(3) p3 by (simp add: parseexec.simps peek_one)
qed (simp add: parseexec.simps)

lemma parseexec_block:
  assumes z: "0 \<notin> set cs" and g: "parses parseline cs after_line ts c" "g_items us [] rs"
  shows "parses parseexec cs after_exec (Op (of_char CHR ''('') # ts @ Op (of_char CHR '')'') # us) (wraps c rs)"
proof (rule parsesI)
  fix n s rest
  assume a: "s \<le> length cs" "L cs s = (Op (of_char CHR ''('') # ts @ Op (of_char CHR '')'') # us) @ rest" "after_exec rest" "parseexec (Suc n) cs s \<noteq> None"
  let ?p = "skip is_ws cs s"
  have h: "headc (L cs s) = of_char CHR ''(''" using a(2) by simp
  have p: "?p \<le> length cs" "headc (L cs ?p) = of_char CHR ''(''" "skip is_ws cs ?p = ?p" using a h by (simp_all add: skip_le L_skip skip_skip)
  have e: "L cs (eat cs ?p) = ts @ Op (of_char CHR '')'') # us @ rest" "eat cs ?p \<le> length cs" using eat_headc [OF z a(1) h] a(2) by simp_all
  obtain m where m: "n = Suc m" "parseexec (Suc n) cs s = parseblock (Suc m) cs ?p"
    using a(1,4) z h by (cases n) (auto simp: parseexec.simps parseblock.simps peek_one)
  have "parseblock (Suc m) cs ?p \<noteq> None" using a(4) m by simp
  then have "parseline m cs (eat cs ?p) \<noteq> None" using p z by (cases "parseline m cs (eat cs ?p)") (simp_all add: parseblock.simps peek_one)
  then obtain p1 where p1: "p1 \<le> length cs" "parseline m cs (eat cs ?p) = Some (Ok (c, p1))" "L cs p1 = Op (of_char CHR '')'') # us @ rest"
    using parsesD [OF g(1) e(2,1) after_intros(2)] by blast
  have h1: "headc (L cs p1) = of_char CHR '')''" using p1 by simp
  have e1: "L cs (eat cs (skip is_ws cs p1)) = us @ rest" "eat cs (skip is_ws cs p1) \<le> length cs" using eat_headc [OF z p1(1) h1] p1(3) by simp_all
  obtain p2 where "p2 \<le> length cs" "parseredirs c cs (eat cs (skip is_ws cs p1)) = Ok (wraps c rs, p2)" "L cs p2 = rest"
    using parseredirs_complete [OF z g(2) refl e1(2,1) after_exec_not_redir [OF a(3)]] by blast
  then show "\<exists>p \<le> length cs. parseexec (Suc n) cs s = Some (Ok (wraps c rs, p)) \<and> L cs p = rest"
    using m p p1 h1 z by (simp add: parseblock.simps peek_one)
qed (simp add: parseexec.simps)

lemma parsepipe_last:
  assumes z: "0 \<notin> set cs" and g: "parses parseexec cs after_exec ts c"
  shows "parses parsepipe cs after_pipe ts c"
proof (rule parsesI)
  fix n s rest assume a: "s \<le> length cs" "L cs s = ts @ rest" "after_pipe rest" "parsepipe (Suc n) cs s \<noteq> None"
  have "parseexec n cs s \<noteq> None" "after_exec rest" "headc rest \<noteq> of_char CHR ''|''"
    using pbnd_arg [OF a(4) [unfolded parsepipe.simps]] after_pipeD [OF a(3)] by simp_all
  then obtain p1 where "p1 \<le> length cs" "parseexec n cs s = Some (Ok (c, p1))" "L cs p1 = rest" "headc rest \<noteq> of_char CHR ''|''"
    using parsesD [OF g a(1,2)] by blast
  then show "\<exists>p \<le> length cs. parsepipe (Suc n) cs s = Some (Ok (c, p)) \<and> L cs p = rest"
    using z by (auto simp: parsepipe.simps peek_one skip_le L_skip)
qed (simp add: parsepipe.simps)

lemma parsepipe_bar:
  assumes z: "0 \<notin> set cs" and g: "parses parseexec cs after_exec ts c" "parses parsepipe cs after_pipe us d"
  shows "parses parsepipe cs after_pipe (ts @ Op (of_char CHR ''|'') # us) (PIPE c d)"
proof (rule parsesI)
  fix n s rest assume a: "s \<le> length cs" "L cs s = (ts @ Op (of_char CHR ''|'') # us) @ rest" "after_pipe rest" "parsepipe (Suc n) cs s \<noteq> None"
  have "parseexec n cs s \<noteq> None" by (rule pbnd_arg [OF a(4) [unfolded parsepipe.simps]])
  then obtain p1 where p1: "p1 \<le> length cs" "parseexec n cs s = Some (Ok (c, p1))" "L cs p1 = Op (of_char CHR ''|'') # us @ rest"
    using parsesD [OF g(1) a(1) _ after_intros(1)] a(2) by auto
  have h1: "headc (L cs p1) = of_char CHR ''|''" using p1 by simp
  have e1: "L cs (eat cs (skip is_ws cs p1)) = us @ rest" "eat cs (skip is_ws cs p1) \<le> length cs" using eat_headc [OF z p1(1) h1] p1(3) by simp_all
  have "parsepipe n cs (eat cs (skip is_ws cs p1)) \<noteq> None"
    using a(4) p1 h1 z by (cases "parsepipe n cs (eat cs (skip is_ws cs p1))") (simp_all add: parsepipe.simps peek_one)
  then obtain p2 where "p2 \<le> length cs" "parsepipe n cs (eat cs (skip is_ws cs p1)) = Some (Ok (d, p2))" "L cs p2 = rest"
    using parsesD [OF g(2) e1(2,1) a(3)] by blast
  then show "\<exists>p \<le> length cs. parsepipe (Suc n) cs s = Some (Ok (PIPE c d, p)) \<and> L cs p = rest"
    using p1 h1 z by (simp add: parsepipe.simps peek_one)
qed (simp add: parsepipe.simps)

lemma parseline_one:
  assumes z: "0 \<notin> set cs" and g: "parses parsepipe cs after_pipe ts c"
  shows "parses parseline cs after_line (ts @ replicate k (Op (of_char CHR ''&''))) ((BACK ^^ k) c)"
proof (rule parsesI)
  fix n s rest
  assume a: "s \<le> length cs" "L cs s = (ts @ replicate k (Op (of_char CHR ''&''))) @ rest" "after_line rest" "parseline (Suc n) cs s \<noteq> None"
  have "after_pipe (replicate k (Op (of_char CHR ''&'')) @ rest)" using after_lineD [OF a(3)] by (cases k) (auto simp: after_defs)
  moreover have "parsepipe n cs s \<noteq> None" by (rule pbnd_arg [OF a(4) [unfolded parseline.simps]])
  ultimately obtain p1 where p1: "p1 \<le> length cs" "parsepipe n cs s = Some (Ok (c, p1))" "L cs p1 = replicate k (Op (of_char CHR ''&'')) @ rest"
    using parsesD [OF g a(1)] a(2) by (metis append_assoc)
  from backs_exact [OF z p1(1,3)] after_lineD [OF a(3)] obtain p2 where
    "p2 \<le> length cs" "parsebacks c cs p1 = ((BACK ^^ k) c, p2)" "L cs p2 = rest" "headc rest \<noteq> of_char CHR '';''" by auto
  then show "\<exists>p \<le> length cs. parseline (Suc n) cs s = Some (Ok ((BACK ^^ k) c, p)) \<and> L cs p = rest"
    using p1 z by (auto simp: parseline.simps peek_one skip_le L_skip)
qed (simp add: parseline.simps)

lemma parseline_seq:
  assumes z: "0 \<notin> set cs" and g: "parses parsepipe cs after_pipe ts c" "parses parseline cs after_line us d"
  shows "parses parseline cs after_line (ts @ replicate k (Op (of_char CHR ''&'')) @ Op (of_char CHR '';'') # us) (LIST ((BACK ^^ k) c) d)"
proof (rule parsesI)
  let ?r = "\<lambda>rest. Op (of_char CHR '';'') # us @ rest"
  fix n s rest
  assume a: "s \<le> length cs" "L cs s = (ts @ replicate k (Op (of_char CHR ''&'')) @ Op (of_char CHR '';'') # us) @ rest" "after_line rest"
    "parseline (Suc n) cs s \<noteq> None"
  have "after_pipe (replicate k (Op (of_char CHR ''&'')) @ ?r rest)" by (cases k) (simp_all add: after_defs)
  moreover have "parsepipe n cs s \<noteq> None" by (rule pbnd_arg [OF a(4) [unfolded parseline.simps]])
  ultimately obtain p1 where p1: "p1 \<le> length cs" "parsepipe n cs s = Some (Ok (c, p1))" "L cs p1 = replicate k (Op (of_char CHR ''&'')) @ ?r rest"
    using parsesD [OF g(1) a(1)] a(2) by (metis append_assoc append_Cons)
  obtain p2 where p2: "p2 \<le> length cs" "parsebacks c cs p1 = ((BACK ^^ k) c, p2)" "L cs p2 = ?r rest"
    using backs_exact [OF z p1(1,3)] by auto
  have h: "headc (L cs p2) = of_char CHR '';''" using p2 by simp
  have e: "L cs (eat cs (skip is_ws cs p2)) = us @ rest" "eat cs (skip is_ws cs p2) \<le> length cs" using eat_headc [OF z p2(1) h] p2(3) by simp_all
  have "parseline n cs (eat cs (skip is_ws cs p2)) \<noteq> None"
    using a(4) p1 p2 h z by (cases "parseline n cs (eat cs (skip is_ws cs p2))") (simp_all add: parseline.simps peek_one)
  then obtain p3 where "p3 \<le> length cs" "parseline n cs (eat cs (skip is_ws cs p2)) = Some (Ok (d, p3))" "L cs p3 = rest"
    using parsesD [OF g(2) e(2,1) a(3)] by blast
  then show "\<exists>p \<le> length cs. parseline (Suc n) cs s = Some (Ok (LIST ((BACK ^^ k) c) d, p)) \<and> L cs p = rest"
    using p1 p2 h z by (simp add: parseline.simps peek_one)
qed (simp add: parseline.simps)

lemma parse_complete:
  assumes "0 \<notin> set cs"
  shows "g_exec ts c \<Longrightarrow> parses parseexec cs after_exec ts c" "g_pipe ts c \<Longrightarrow> parses parsepipe cs after_pipe ts c"
    "g_line ts c \<Longrightarrow> parses parseline cs after_line ts c"
  by (induction rule: g_exec_g_pipe_g_line.inducts)
    (rule parseexec_simple [OF assms] parseexec_block [OF assms] parsepipe_last [OF assms] parsepipe_bar [OF assms]
      parseline_one [OF assms] parseline_seq [OF assms], assumption+)+

section \<open>Words after the parse\<close>

fun cmd_words :: "cmd \<Rightarrow> (nat \<times> nat) list" where
  "cmd_words (EXEC ws) = ws"
| "cmd_words (REDIR c q e mode fd) = cmd_words c @ [(q, e)]"
| "cmd_words (PIPE l r) = cmd_words l @ cmd_words r"
| "cmd_words (LIST l r) = cmd_words l @ cmd_words r"
| "cmd_words (BACK c) = cmd_words c"

fun redir_words :: "redir list \<Rightarrow> (nat \<times> nat) list" where
  "redir_words [] = []"
| "redir_words ((q, e, mode, fd) # rs) = (q, e) # redir_words rs"

lemma cmd_words_wraps [simp]: "cmd_words (wraps c rs) = cmd_words c @ redir_words rs"
  by (induction rs arbitrary: c rule: redir_words.induct) auto

lemma cmd_words_backs [simp]: "cmd_words ((BACK ^^ k) c) = cmd_words c"
  by (induction k) auto

lemma g_items_words: "g_items ts ws rs \<Longrightarrow> (q, e) \<in> set ws \<union> set (redir_words rs) \<Longrightarrow> Word q e \<in> set ts"
  by (induction rule: g_items.induct) auto

lemma g_words:
  "g_exec ts c \<Longrightarrow> \<forall>(q, e) \<in> set (cmd_words c). Word q e \<in> set ts"
  "g_pipe ts c \<Longrightarrow> \<forall>(q, e) \<in> set (cmd_words c). Word q e \<in> set ts"
  "g_line ts c \<Longrightarrow> \<forall>(q, e) \<in> set (cmd_words c). Word q e \<in> set ts"
  by (induction rule: g_exec_g_pipe_g_line.inducts) (auto dest: g_items_words)

text \<open>A word of the tokenizer is a maximal run of word characters.\<close>

definition is_run :: "byte list \<Rightarrow> nat \<Rightarrow> nat \<Rightarrow> bool" where
  "is_run cs q e \<longleftrightarrow> q < e \<and> e \<le> length cs \<and> (\<forall>i. q \<le> i \<longrightarrow> i < e \<longrightarrow> is_word (cs ! i)) \<and> (e < length cs \<longrightarrow> \<not> is_word (cs ! e))"

lemma is_run_shift: "is_run xs q e \<Longrightarrow> is_run (ys @ xs) (length ys + q) (length ys + e)"
proof -
  assume r: "is_run xs q e"
  have "is_word ((ys @ xs) ! i)" if "length ys + q \<le> i" "i < length ys + e" for i
    using r that is_run_def [of xs q e] by (auto simp: nth_append dest!: spec [of _ "i - length ys"])
  then show ?thesis using r by (simp add: is_run_def)
qed

lemma run_head:
  assumes "is_word c"
  shows "is_run (c # cs) 0 (Suc (length (takeWhile is_word cs)))"
proof -
  have t: "takeWhile is_word (c # cs) = c # takeWhile is_word cs" using assms by simp
  have "is_word ((c # cs) ! i)" if "i < Suc (length (takeWhile is_word cs))" for i
    using nth_mem [of i "takeWhile is_word (c # cs)"] takeWhile_nth [of i is_word "c # cs"] that set_takeWhileD [of _ is_word "c # cs"]
    unfolding t by (metis length_Cons)
  moreover have "\<not> is_word ((c # cs) ! Suc (length (takeWhile is_word cs)))" if "length (takeWhile is_word cs) < length cs"
    using nth_length_takeWhile [OF that] by simp
  ultimately show ?thesis by (simp add: is_run_def length_takeWhile_le le_imp_less_Suc)
qed

lemma lexs_run: "Word q e \<in> set (lexs i xs) \<Longrightarrow> i \<le> q \<and> is_run xs (q - i) (e - i)"
proof (induction i xs rule: lexs.induct)
  case (2 i c cs)
  have shift: "is_run (c # cs) (q - i) (e - i)" if "i + Suc (length ys) \<le> q" "is_run xs (q - (i + Suc (length ys))) (e - (i + Suc (length ys)))" "cs = ys @ xs" for xs ys
  proof -
    have "q - i = length (c # ys) + (q - (i + Suc (length ys)))" "e - i = length (c # ys) + (e - (i + Suc (length ys)))"
      using that(1,2) by (auto simp: is_run_def)
    then show ?thesis using is_run_shift [OF that(2), of "c # ys"] that(3) by simp
  qed
  consider (ws) "is_ws c" | (app) "\<not> is_ws c" "c = of_char CHR ''>''" "cs \<noteq> []" "hd cs = of_char CHR ''>''"
    | (sym) "\<not> is_ws c" "\<not> (c = of_char CHR ''>'' \<and> cs \<noteq> [] \<and> hd cs = of_char CHR ''>'')" "c \<in> set symbols"
    | (word) "is_word c" "\<not> is_ws c" "c \<notin> set symbols"
    by (auto simp: is_word_def is_ws_def)
  then show ?case
  proof cases
    case ws
    then show ?thesis using 2 shift [of "[]" cs] by simp
  next
    case app
    then show ?thesis using 2 shift [of "[hd cs]" "tl cs"] by (cases cs) simp_all
  next
    case sym
    then show ?thesis using 2 shift [of "[]" cs] by auto
  next
    case word
    let ?w = "takeWhile is_word cs"
    have "c \<noteq> of_char CHR ''>''" using word(3) by (auto simp: sym_cases)
    then have "Word q e = Word i (i + Suc (length ?w)) \<or> Word q e \<in> set (lexs (i + Suc (length ?w)) (dropWhile is_word cs))"
      using 2(5) word by (simp add: Let_def)
    then show ?thesis
      using 2(4) word shift [of ?w "dropWhile is_word cs"] run_head [OF word(1), of cs] \<open>c \<noteq> of_char CHR ''>''\<close> by auto
  qed
qed simp

text \<open>Writing NULs after words leaves the words, which end there, readable as strings.\<close>

lemma nulterminate_update:
  "nulterminate c buf = foldl (\<lambda>buf (q, e). buf[e := 0]) buf (cmd_words c)"
  by (induction c arbitrary: buf) simp_all

lemma foldl_nul_length [simp]: "length (foldl (\<lambda>buf (q, e). buf[e := 0]) buf ws) = length buf"
  by (induction ws arbitrary: buf) auto

lemma foldl_nul:
  "i < length buf \<Longrightarrow> foldl (\<lambda>buf (q, e). buf[e := 0]) buf ws ! i = (if i \<in> set (map snd ws) then 0 else buf ! i)"
  by (induction ws arbitrary: buf) (auto simp: nth_list_update simp del: set_map)

lemma takeWhile_no_zero: "0 \<notin> set (takeWhile (\<lambda>c. c \<noteq> 0) (buf :: byte list))"
  by (metis set_takeWhileD)

text \<open>C29. \<^verbatim>\<open>parsecmd\<close> returns on every line: the parser's recursion ends, whatever the nesting.\<close>

theorem parsecmd_terminates: "\<exists>r. parsecmd buf = Some r"
proof -
  obtain r where "parseline (parse_fuel cs) cs 0 = Some r" if "cs = takeWhile (\<lambda>c. c \<noteq> 0) buf" for cs
    using parseline_returns [OF takeWhile_no_zero] by blast
  then show ?thesis by (cases r) (simp_all add: parsecmd_def Let_def split: prod.splits)
qed

lemma parsecmd_Ok:
  assumes "0 \<in> set buf" and cs: "cs = takeWhile (\<lambda>c. c \<noteq> 0) buf"
  shows "parsecmd buf = Some (Ok (c, buf')) \<longleftrightarrow> g_line (lexs 0 cs) c \<and> buf' = nulterminate c buf"
proof -
  have z: "0 \<notin> set cs" by (simp add: cs takeWhile_no_zero)
  have L0: "L cs 0 = lexs 0 cs" by (simp add: L_def)
  let ?r = "parseline (parse_fuel cs) cs 0"
  have sd: "sound g_line cs 0 ?r" using parse_sound [OF z, of "parse_fuel cs"] by simp
  then have sound_range: "p \<le> length cs" if "?r = Some (Ok (c, p))" for c p using soundD [OF _ that] by blast
  have e: "skip is_ws cs p = length cs \<longleftrightarrow> L cs p = []" if "p \<le> length cs" for p
  proof (cases "skip is_ws cs p = length cs")
    case True
    then show ?thesis using L_skip [OF that] by (simp add: L_end)
  next
    case False
    then have q: "skip is_ws cs p < length cs" using skip_le [OF that, of is_ws] by simp
    show ?thesis using L_cons [OF q skip_stop [OF q]] L_skip [OF that] q by (auto split: if_splits)
  qed
  have "parsecmd buf = Some (Ok (c, buf')) \<longleftrightarrow> (\<exists>p. ?r = Some (Ok (c, p)) \<and> L cs p = [] \<and> buf' = nulterminate c buf)"
  proof
    assume "parsecmd buf = Some (Ok (c, buf'))"
    then show "\<exists>p. ?r = Some (Ok (c, p)) \<and> L cs p = [] \<and> buf' = nulterminate c buf"
      using assms(1) e sound_range by (auto simp: parsecmd_def pbnd_eq_Ok peek_def Let_def cs [symmetric] split: if_splits)
  next
    assume "\<exists>p. ?r = Some (Ok (c, p)) \<and> L cs p = [] \<and> buf' = nulterminate c buf"
    then show "parsecmd buf = Some (Ok (c, buf'))"
      using assms(1) e sound_range by (auto simp: parsecmd_def peek_def Let_def cs [symmetric])
  qed
  also have "\<dots> \<longleftrightarrow> g_line (lexs 0 cs) c \<and> buf' = nulterminate c buf"
  proof
    assume "\<exists>p. ?r = Some (Ok (c, p)) \<and> L cs p = [] \<and> buf' = nulterminate c buf"
    then obtain p where p: "?r = Some (Ok (c, p))" "L cs p = []" "buf' = nulterminate c buf" by auto
    from soundD [OF sd p(1)] p(2,3) L0 show "g_line (lexs 0 cs) c \<and> buf' = nulterminate c buf" by auto
  next
    assume g: "g_line (lexs 0 cs) c \<and> buf' = nulterminate c buf"
    show "\<exists>p. ?r = Some (Ok (c, p)) \<and> L cs p = [] \<and> buf' = nulterminate c buf"
      using parsesD [OF parse_complete(3) [OF z], of "lexs 0 cs" c 0 "[]" "parse_fuel cs"] g L0 parseline_returns [OF z]
      by (auto simp: after_line_def)
  qed
  finally show ?thesis .
qed

text \<open>
  C28. \<^verbatim>\<open>parsecmd\<close> accepts a line exactly when the grammar gives it a tree, and returns that
  tree: pipelines and lists to the right, each \<^verbatim>\<open>&\<close> around the pipeline before it, redirections
  around the command they follow in their order, arguments in the innermost node.
\<close>

theorem parsecmd_accepts_grammar:
  assumes "0 \<in> set buf"
  shows "(\<exists>buf'. parsecmd buf = Some (Ok (c, buf'))) \<longleftrightarrow> g_line (lexs 0 (takeWhile (\<lambda>c. c \<noteq> 0) buf)) c"
  using parsecmd_Ok [OF assms refl] by simp

definition sample_line :: "byte list" where
  "sample_line = ascii ''ls<f|wc&'' @ [0]"

lemma sample_line_lexs: "lexs 0 (takeWhile (\<lambda>c. c \<noteq> 0) sample_line) =
    [Word 0 2] @ [Op (of_char CHR ''<''), Word 3 4] @ [Op (of_char CHR ''|''), Word 5 7, Op (of_char CHR ''&'')]"
  by (simp add: sample_line_def ascii_def is_ws_def is_word_def whitespace_def symbols_def Let_def)

lemma sample_line_tree:
  "g_line (lexs 0 (takeWhile (\<lambda>c. c \<noteq> 0) sample_line)) (BACK (PIPE (REDIR (EXEC [(0, 2)]) 3 4 O_RDONLY 0) (EXEC [(5, 7)])))"
proof -
  have "g_items [Word 0 2, Op (of_char CHR ''<''), Word 3 4] [(0, 2)] [(3, 4, O_RDONLY, 0)]"
    by (intro g_items.intros) (simp add: redir_of_def)
  from g_simple [OF this] have l: "g_exec [Word 0 2, Op (of_char CHR ''<''), Word 3 4] (REDIR (EXEC [(0, 2)]) 3 4 O_RDONLY 0)"
    by (simp add: MAXARGS_def)
  have "g_items [Word 5 7] [(5, 7)] []" by (intro g_items.intros)
  from g_simple [OF this] have "g_exec [Word 5 7] (EXEC [(5, 7)])" by (simp add: MAXARGS_def)
  from g_one [OF g_bar [OF l g_last [OF this]], of 1] show ?thesis by (simp add: sample_line_lexs One_nat_def)
qed

theorem parsecmd_accepts_grammar_witness:
  "0 \<in> set sample_line \<and>
   (\<exists>buf'. parsecmd sample_line = Some (Ok (BACK (PIPE (REDIR (EXEC [(0, 2)]) 3 4 O_RDONLY 0) (EXEC [(5, 7)])), buf')))"
proof -
  have z: "0 \<in> set sample_line" by (simp add: sample_line_def)
  show ?thesis using parsecmd_accepts_grammar [OF z] sample_line_tree z by blast
qed

text \<open>
  C30. After \<^verbatim>\<open>parsecmd\<close> each argument and file name of the command is a NUL-terminated string
  equal to the word of the line it came from, although words are terminated by overwriting the
  byte after them, which may be a symbol of the line.
\<close>

theorem parsecmd_words_are_strings:
  assumes "parsecmd buf = Some (Ok (c, buf'))" "(q, e) \<in> set (cmd_words c)"
  shows "takeWhile (\<lambda>b. b \<noteq> 0) (drop q buf') = take (e - q) (drop q buf) \<and>
    q < e \<and> (\<forall>b \<in> set (take (e - q) (drop q buf)). is_word b)"
proof -
  let ?cs = "takeWhile (\<lambda>c. c \<noteq> 0) buf"
  have z: "0 \<in> set buf" using assms(1) by (auto simp: parsecmd_def split: if_splits)
  have g: "g_line (lexs 0 ?cs) c" and b: "buf' = nulterminate c buf" using assms(1) parsecmd_Ok [OF z refl] by blast+
  have run: "is_run ?cs q' e'" if "(q', e') \<in> set (cmd_words c)" for q' e'
    using g_words(3) [OF g] that lexs_run [of q' e' 0 ?cs] by auto
  have l: "length ?cs < length buf" 
    using z takeWhile_no_zero [of buf] takeWhile_eq_take [of "\<lambda>c. c \<noteq> 0" buf] length_takeWhile_le [of "\<lambda>c. c \<noteq> 0" buf]
    by (metis le_neq_implies_less take_all_iff le_refl)
  note r = run [OF assms(2), unfolded is_run_def]
  have nth: "buf' ! i = (if i \<in> set (map snd (cmd_words c)) then 0 else buf ! i)" if "i < length buf" for i
    using that by (simp only: b nulterminate_update foldl_nul)
  have len: "length buf' = length buf" by (simp add: b nulterminate_update)
  have mid: "buf' ! i = ?cs ! i \<and> buf ! i = ?cs ! i \<and> ?cs ! i \<noteq> 0" if i: "q \<le> i" "i < e" for i
  proof -
    have "i \<notin> set (map snd (cmd_words c))" using run r i unfolding is_run_def by force
    moreover have "?cs ! i \<in> set ?cs" using r i by (intro nth_mem) simp
    then have "?cs ! i \<noteq> 0" using takeWhile_no_zero [of buf] by (cases "?cs ! i = 0") simp_all
    ultimately show ?thesis using nth [of i] r i l by (simp add: takeWhile_nth)
  qed
  have en: "buf' ! e = 0" using nth [of e] assms(2) r l by force
  have "takeWhile (\<lambda>b. b \<noteq> 0) (drop q buf') = take (e - q) (drop q buf')"
    using mid en r l len by (intro takeWhile_eq_take_P_nth) auto
  also have "\<dots> = take (e - q) (drop q buf)" using mid r l len by (intro nth_equalityI) auto
  finally have "takeWhile (\<lambda>b. b \<noteq> 0) (drop q buf') = take (e - q) (drop q buf)" .
  moreover have "\<forall>b \<in> set (take (e - q) (drop q buf)). is_word b" using mid r l by (auto simp: in_set_conv_nth)
  ultimately show ?thesis using r by simp
qed

theorem parsecmd_words_are_strings_witness:
  "\<exists>c buf'. parsecmd sample_line = Some (Ok (c, buf')) \<and> (3, 4) \<in> set (cmd_words c) \<and>
    takeWhile (\<lambda>b. b \<noteq> 0) (drop 3 buf') = ascii ''f''"
proof -
  have "0 \<in> set sample_line" by (simp add: sample_line_def)
  from parsecmd_Ok [OF this refl] sample_line_tree obtain c buf' where
    p: "parsecmd sample_line = Some (Ok (c, buf'))" and w: "(3, 4) \<in> set (cmd_words c)" by force
  show ?thesis using p w parsecmd_words_are_strings [OF p w]
    by (intro exI [of _ c] exI [of _ buf']) (simp add: sample_line_def ascii_def)
qed

end
