(* ===== verification/User.thy ===== *)
theory User
  imports Console
begin

text \<open>
  User programs that filter their input: \<^verbatim>\<open>printf.c\<close>, \<^verbatim>\<open>echo.c\<close>, \<^verbatim>\<open>cat.c\<close> and \<^verbatim>\<open>wc.c\<close>. A
  descriptor that is read is a list of pieces: a piece is what one \<^verbatim>\<open>read\<close> can deliver at most
  (a regular file is one piece, a pipe or the console has one for each write or line), and the
  absent piece \<open>None\<close> is a read that fails. What a program writes is the list of its \<^verbatim>\<open>write\<close>
  calls, descriptor and bytes. The result of a \<^verbatim>\<open>write\<close> is a parameter, a function of the calls
  made so far, of the call and of its bytes; opening a file is a parameter that gives its pieces.
\<close>

section \<open>Reading\<close>

type_synonym pieces = "byte list option list"

fun uread :: "nat \<Rightarrow> pieces \<Rightarrow> byte list option \<times> pieces" where
  "uread k [] = (Some [], [])"
| "uread k (None # ps) = (None, ps)"
| "uread k (Some x # ps) = (Some (take k x), if length x \<le> k then ps else Some (drop k x) # ps)"

definition psize :: "pieces \<Rightarrow> nat" where
  "psize ps = sum_list (map (\<lambda>p. case p of None \<Rightarrow> 1 | Some x \<Rightarrow> Suc (length x)) ps)"

lemma uread_psize: "uread k ps = (Some x, qs) \<Longrightarrow> x \<noteq> [] \<Longrightarrow> psize qs < psize ps"
  by (cases "(k, ps)" rule: uread.cases) (auto simp: psize_def split: if_splits)

text \<open>The bytes that repeated reads deliver before the end of the data.\<close>

fun pdata :: "pieces \<Rightarrow> byte list" where
  "pdata [] = []"
| "pdata (None # ps) = []"
| "pdata (Some x # ps) = (if x = [] then [] else x @ pdata ps)"

fun perror :: "pieces \<Rightarrow> bool" where
  "perror [] = False"
| "perror (None # ps) = True"
| "perror (Some x # ps) = (x \<noteq> [] \<and> perror ps)"

lemma uread_data:
  assumes "uread k ps = (Some x, qs)" "0 < k"
  shows "x = [] \<Longrightarrow> pdata ps = [] \<and> \<not> perror ps" "x \<noteq> [] \<Longrightarrow> pdata ps = x @ pdata qs \<and> perror ps = perror qs"
  using assms by (cases "(k, ps)" rule: uread.cases; auto split: if_splits)+

lemma uread_error: "uread k ps = (None, qs) \<Longrightarrow> pdata ps = [] \<and> perror ps"
  by (cases "(k, ps)" rule: uread.cases) auto

section \<open>Formatted output\<close>

type_synonym writes = "(nat \<times> byte list) list"

definition udigits :: "byte list" where
  "udigits = ascii ''0123456789ABCDEF''"

function uprintint_loop :: "nat \<Rightarrow> nat \<Rightarrow> byte list" where
  "uprintint_loop x base = udigits ! (x mod base) # (if x div base \<noteq> 0 \<and> 2 \<le> base then uprintint_loop (x div base) base else [])"
  by auto
termination
  by (relation "measure fst") (auto simp: dual_order.strict_implies_not_eq div_greater_zero_iff intro!: div_less_dividend)

declare uprintint_loop.simps [simp del]

definition uprintint :: "nat \<Rightarrow> nat \<Rightarrow> bool \<Rightarrow> byte list" where
  "uprintint xx base sg =
     (let neg = (sg \<and> 2 ^ 31 \<le> xx);
          x = (if neg then 2 ^ 32 - xx else xx)
      in rev (uprintint_loop x base @ (if neg then [45] else [])))"

text \<open>The bytes put one by one; \<open>pct\<close> is the state variable of the loop, set after a percent sign.\<close>

fun uprintf_loop :: "bool \<Rightarrow> byte list \<Rightarrow> carg list \<Rightarrow> byte list res" where
  "uprintf_loop pct [] args = Ok []"
| "uprintf_loop False (c # fmt) args =
     (if c = 37 then uprintf_loop True fmt args
      else bnd (uprintf_loop False fmt args) (\<lambda>r. Ok (c # r)))"
| "uprintf_loop True (c # fmt) args =
     (if c = 100 then
        (case args of Num x # as \<Rightarrow> bnd (uprintf_loop False fmt as) (\<lambda>r. Ok (uprintint x 10 True @ r)) | _ \<Rightarrow> Undef)
      else if c = 120 \<or> c = 112 then
        (case args of Num x # as \<Rightarrow> bnd (uprintf_loop False fmt as) (\<lambda>r. Ok (uprintint x 16 False @ r)) | _ \<Rightarrow> Undef)
      else if c = 115 then
        (case args of
           Str p # as \<Rightarrow> bnd (uprintf_loop False fmt as) (\<lambda>r. Ok ((case p of None \<Rightarrow> ascii ''(null)'' | Some s \<Rightarrow> s) @ r))
         | _ \<Rightarrow> Undef)
      else if c = 99 then
        (case args of Num x # as \<Rightarrow> bnd (uprintf_loop False fmt as) (\<lambda>r. Ok (word_of_nat x # r)) | _ \<Rightarrow> Undef)
      else if c = 37 then bnd (uprintf_loop False fmt args) (\<lambda>r. Ok (c # r))
      else bnd (uprintf_loop False fmt args) (\<lambda>r. Ok (37 # c # r)))"

definition uprintf :: "nat \<Rightarrow> string \<Rightarrow> carg list \<Rightarrow> writes res" where
  "uprintf fd fmt args = bnd (uprintf_loop False (ascii fmt) args) (\<lambda>bs. Ok (map (\<lambda>b. (fd, [b])) bs))"

section \<open>echo, cat and wc\<close>

text \<open>The arguments after the program's name.\<close>

fun echo_main :: "byte list list \<Rightarrow> writes res" where
  "echo_main [] = Ok []"
| "echo_main (a # as) =
     bnd (uprintf 1 ''%s%s'' [Str (Some a), Str (Some (if as \<noteq> [] then ascii '' '' else [10]))]) (\<lambda>w.
     bnd (echo_main as) (\<lambda>ws. Ok (w @ ws)))"

type_synonym write_result = "writes \<Rightarrow> nat \<Rightarrow> byte list \<Rightarrow> int"

text \<open>
  The loop of \<^verbatim>\<open>cat\<close>, from the writes made so far; the flag tells whether the routine returned
  (\<open>True\<close>) or called \<^verbatim>\<open>exit\<close> after an error.
\<close>

function cat :: "write_result \<Rightarrow> writes \<Rightarrow> pieces \<Rightarrow> (bool \<times> writes) res" where
  "cat wr out ps =
     (case uread 512 ps of
        (None, qs) \<Rightarrow> bnd (uprintf 1 ''cat: read error\<newline>'' []) (\<lambda>w. Ok (False, out @ w))
      | (Some x, qs) \<Rightarrow>
          if x = [] then Ok (True, out)
          else if wr out 1 x \<noteq> int (length x) then
            bnd (uprintf 1 ''cat: write error\<newline>'' []) (\<lambda>w. Ok (False, out @ [(1, x)] @ w))
          else cat wr (out @ [(1, x)]) qs)"
  by auto
termination
  by (relation "measure (\<lambda>(wr, out, ps). psize ps)") (auto intro: uread_psize [OF sym])

declare cat.simps [simp del]

text \<open>\<^verbatim>\<open>main\<close> over the files after the program's name; no file means standard input.\<close>

fun cat_files :: "write_result \<Rightarrow> (byte list \<Rightarrow> pieces option) \<Rightarrow> byte list list \<Rightarrow> writes \<Rightarrow> writes res" where
  "cat_files wr fs [] out = Ok out"
| "cat_files wr fs (a # as) out =
     (case fs a of
        None \<Rightarrow> bnd (uprintf 1 ''cat: cannot open %s\<newline>'' [Str (Some a)]) (\<lambda>w. Ok (out @ w))
      | Some ps \<Rightarrow> bnd (cat wr out ps) (\<lambda>(go, out). if go then cat_files wr fs as out else Ok out))"

definition cat_main :: "write_result \<Rightarrow> (byte list \<Rightarrow> pieces option) \<Rightarrow> pieces \<Rightarrow> byte list list \<Rightarrow> writes res" where
  "cat_main wr fs stdin args =
     (if args = [] then bnd (cat wr [] stdin) (\<lambda>(go, out). Ok out) else cat_files wr fs args [])"

text \<open>The counters of \<^verbatim>\<open>wc\<close> are 32 bits wide.\<close>

record wcount =
  wc_l :: uint32
  wc_w :: uint32
  wc_c :: uint32
  wc_inword :: bool

definition wc_space :: "byte list" where
  "wc_space = [32, 13, 9, 10, 11]"

definition wc_byte :: "byte \<Rightarrow> wcount \<Rightarrow> wcount" where
  "wc_byte b s =
     (let s = s\<lparr>wc_c := wc_c s + 1\<rparr>;
          s = (if b = 10 then s\<lparr>wc_l := wc_l s + 1\<rparr> else s)
      in if b \<in> set wc_space then s\<lparr>wc_inword := False\<rparr>
         else if \<not> wc_inword s then s\<lparr>wc_w := wc_w s + 1, wc_inword := True\<rparr>
         else s)"

text \<open>The read loop; the flag tells whether it ended by a read error.\<close>

function wc_loop :: "wcount \<Rightarrow> pieces \<Rightarrow> bool \<times> wcount" where
  "wc_loop s ps =
     (case uread 512 ps of
        (None, qs) \<Rightarrow> (True, s)
      | (Some x, qs) \<Rightarrow> if x = [] then (False, s) else wc_loop (fold wc_byte x s) qs)"
  by auto
termination
  by (relation "measure (\<lambda>(s, ps). psize ps)") (auto intro: uread_psize [OF sym])

declare wc_loop.simps [simp del]

definition wc_init :: wcount where
  "wc_init = \<lparr>wc_l = 0, wc_w = 0, wc_c = 0, wc_inword = False\<rparr>"

definition wc :: "byte list \<Rightarrow> pieces \<Rightarrow> (bool \<times> writes) res" where
  "wc name ps =
     (let (err, s) = wc_loop wc_init ps
      in if err then bnd (uprintf 1 ''wc: read error\<newline>'' []) (\<lambda>w. Ok (False, w))
         else bnd (uprintf 1 ''%d %d %d %s\<newline>'' [Num (unat (wc_l s)), Num (unat (wc_w s)), Num (unat (wc_c s)), Str (Some name)])
           (\<lambda>w. Ok (True, w)))"

fun wc_files :: "(byte list \<Rightarrow> pieces option) \<Rightarrow> byte list list \<Rightarrow> writes \<Rightarrow> writes res" where
  "wc_files fs [] out = Ok out"
| "wc_files fs (a # as) out =
     (case fs a of
        None \<Rightarrow> bnd (uprintf 1 ''wc: cannot open %s\<newline>'' [Str (Some a)]) (\<lambda>w. Ok (out @ w))
      | Some ps \<Rightarrow> bnd (wc a ps) (\<lambda>(go, w). if go then wc_files fs as (out @ w) else Ok (out @ w)))"

definition wc_main :: "(byte list \<Rightarrow> pieces option) \<Rightarrow> pieces \<Rightarrow> byte list list \<Rightarrow> writes res" where
  "wc_main fs stdin args = (if args = [] then bnd (wc [] stdin) (\<lambda>(go, w). Ok w) else wc_files fs args [])"

section \<open>What the filters compute\<close>

text \<open>A word starts at a byte that is not a space and follows a space or the beginning.\<close>

definition word_starts :: "byte list \<Rightarrow> nat set" where
  "word_starts bs = {i. i < length bs \<and> bs ! i \<notin> set wc_space \<and> (i = 0 \<or> bs ! (i - 1) \<in> set wc_space)}"

lemma word_starts_snoc:
  "word_starts (bs @ [b]) =
    (if b \<notin> set wc_space \<and> (bs = [] \<or> last bs \<in> set wc_space) then insert (length bs) (word_starts bs) else word_starts bs)"
  by (cases "bs = []") (auto simp: word_starts_def nth_append last_conv_nth less_Suc_eq One_nat_def)

lemma word_starts_Nil [simp]: "word_starts [] = {}"
  by (simp add: word_starts_def)

lemma word_starts_finite: "finite (word_starts bs)" "length bs \<notin> word_starts bs"
  by (auto simp: word_starts_def)

lemma wc_fold:
  "fold wc_byte bs wc_init =
    \<lparr>wc_l = of_nat (length (filter (\<lambda>b. b = 10) bs)), wc_w = of_nat (card (word_starts bs)), wc_c = of_nat (length bs),
     wc_inword = (bs \<noteq> [] \<and> last bs \<notin> set wc_space)\<rparr>"
proof (induction bs rule: rev_induct)
  case Nil
  show ?case by (simp add: wc_init_def word_starts_def)
next
  case (snoc b bs)
  have f: "fold wc_byte (bs @ [b]) wc_init = wc_byte b (fold wc_byte bs wc_init)" by simp
  show ?case unfolding f snoc.IH
    by (cases "bs = []") (simp_all add: wc_byte_def Let_def word_starts_snoc word_starts_snoc [of "[]" b, simplified] word_starts_finite add.commute)
qed

lemma wc_loop_data: "wc_loop s ps = (perror ps, fold wc_byte (pdata ps) s)"
proof (induction s ps rule: wc_loop.induct)
  case (1 s ps)
  obtain r qs where u: "uread 512 ps = (r, qs)" by (cases "uread 512 ps")
  show ?case
  proof (cases r)
    case None
    then show ?thesis using u uread_error [of 512 ps qs] by (subst wc_loop.simps) simp
  next
    case (Some x)
    then show ?thesis using 1 u uread_data [of 512 ps x qs] by (subst wc_loop.simps) auto
  qed
qed

text \<open>
  C34. However its input is cut into reads, \<^verbatim>\<open>wc\<close> counts the newlines, the words and the bytes
  of the data as a whole, modulo the width of its counters: a word that continues in the next
  buffer is counted once.
\<close>

theorem wc_counts_whole_input:
  assumes "\<not> perror ps"
  shows "\<exists>s. wc_loop wc_init ps = (False, s) \<and>
    wc_l s = of_nat (length (filter (\<lambda>b. b = 10) (pdata ps))) \<and>
    wc_w s = of_nat (card (word_starts (pdata ps))) \<and>
    wc_c s = of_nat (length (pdata ps))"
  using assms by (simp add: wc_loop_data wc_fold)

theorem wc_counts_whole_input_witness:
  "\<not> perror [Some (ascii ''ab''), Some (ascii ''c d'' @ [10])] \<and>
   (\<exists>s. wc_loop wc_init [Some (ascii ''ab''), Some (ascii ''c d'' @ [10])] = (False, s) \<and> wc_l s = 1 \<and> wc_c s = 6)"
  using wc_counts_whole_input [of "[Some (ascii ''ab''), Some (ascii ''c d'' @ [10])]"]
  by (auto simp: ascii_def)

lemma cat_data:
  assumes "\<And>out x. wr out 1 x = int (length x)" "\<not> perror ps"
  shows "\<exists>ws. cat wr out ps = Ok (True, out @ ws) \<and> concat (map snd ws) = pdata ps \<and> (\<forall>w \<in> set ws. fst w = 1)"
  using assms(2)
proof (induction "psize ps" arbitrary: out ps rule: less_induct)
  case less
  obtain r qs where u: "uread 512 ps = (r, qs)" by (cases "uread 512 ps")
  then obtain x where x: "r = Some x" using uread_error [of 512 ps qs] less.prems by (cases r) auto
  show ?case
  proof (cases "x = []")
    case True
    then show ?thesis using u x uread_data(1) [of 512 ps x qs] by (subst cat.simps) simp
  next
    case False
    then have "psize qs < psize ps" "\<not> perror qs" and d: "pdata ps = x @ pdata qs"
      using u x uread_psize [of 512 ps x qs] uread_data(2) [of 512 ps x qs] less.prems by simp_all
    from less.hyps [OF this(1,2), of "out @ [(1, x)]"] obtain ws where
      "cat wr (out @ [(1, x)]) qs = Ok (True, (out @ [(1, x)]) @ ws)" "concat (map snd ws) = pdata qs" "\<forall>w \<in> set ws. fst w = 1" by auto
    then show ?thesis using u x False d assms(1) by (subst cat.simps) (intro exI [of _ "(1, x) # ws"], simp)
  qed
qed

text \<open>
  When its writes succeed, \<^verbatim>\<open>cat\<close> writes to standard output exactly the bytes of its input,
  in order, and returns.
\<close>

lemma cat_copies_input:
  assumes "\<And>out x. wr out 1 x = int (length x)" "\<not> perror ps"
  shows "\<exists>ws. cat wr [] ps = Ok (True, ws) \<and> concat (map snd ws) = pdata ps \<and> (\<forall>w \<in> set ws. fst w = 1)"
  using cat_data [of wr ps "[]"] assms by simp

end
