(* ===== verification/Grep.thy ===== *)
theory Grep
  imports User
begin

text \<open>
  \<^verbatim>\<open>grep.c\<close>: the regular expression matcher of Kernighan and Pike and the loop that cuts the
  input into lines. Pattern and text are the bytes before the NUL. The matcher is compared with
  the language of the pattern, the loop with the filter on the lines of the input.
\<close>

section \<open>The matcher\<close>

definition ok_char :: "byte \<Rightarrow> byte \<Rightarrow> bool" where
  "ok_char c b \<longleftrightarrow> c = of_char CHR ''.'' \<or> c = b"

function matchhere :: "byte list \<Rightarrow> byte list \<Rightarrow> bool"
and matchstar :: "byte \<Rightarrow> byte list \<Rightarrow> byte list \<Rightarrow> bool" where
  "matchhere re text =
     (case re of
        [] \<Rightarrow> True
      | c # re' \<Rightarrow>
          if re' \<noteq> [] \<and> hd re' = of_char CHR ''*'' then matchstar c (tl re') text
          else if c = of_char CHR ''$'' \<and> re' = [] then text = []
          else if text \<noteq> [] \<and> ok_char c (hd text) then matchhere re' (tl text)
          else False)"
| "matchstar c re text =
     (if matchhere re text then True
      else if text \<noteq> [] \<and> ok_char c (hd text) then matchstar c re (tl text)
      else False)"
  by pat_completeness auto
termination
  by (relation "measure (\<lambda>x. case x of Inl (re, t) \<Rightarrow> 2 * (length re + length t) | Inr (c, re, t) \<Rightarrow> Suc (2 * (length re + length t)))")
    (auto simp: neq_Nil_conv)

declare matchhere.simps [simp del] matchstar.simps [simp del]

text \<open>The loop of \<^verbatim>\<open>match\<close> over the suffixes of the text, the empty one included.\<close>

fun match_from :: "byte list \<Rightarrow> byte list \<Rightarrow> bool" where
  "match_from re [] = matchhere re []"
| "match_from re (b # text) = (matchhere re (b # text) \<or> match_from re text)"

definition match :: "byte list \<Rightarrow> byte list \<Rightarrow> bool" where
  "match re text =
     (if re \<noteq> [] \<and> hd re = of_char CHR ''^'' then matchhere (tl re) text else match_from re text)"

section \<open>The input loop\<close>

lemma newline_progress: "10 \<in> set (takeWhile (\<lambda>b. b \<noteq> 0) (p :: byte list)) \<Longrightarrow> length p - (n + 1) < length p"
  by (cases p) auto

text \<open>
  The inner loop over the string from \<^verbatim>\<open>p\<close>: the bytes from \<^verbatim>\<open>p\<close> to the end of the buffer's
  data, and the NUL after it. Result: the lines written and what is left at \<^verbatim>\<open>p\<close>.
\<close>

function grep_lines :: "byte list \<Rightarrow> byte list \<Rightarrow> writes \<times> byte list" where
  "grep_lines re p =
     (let s = takeWhile (\<lambda>b. b \<noteq> 0) p in
      if 10 \<in> set s then
        let line = takeWhile (\<lambda>b. b \<noteq> 10) s;
            (ws, rest) = grep_lines re (drop (length line + 1) p)
        in ((if match re line then [(1, line @ [10])] else []) @ ws, rest)
      else ([], p))"
  by auto
termination
  by (relation "measure (\<lambda>(re, p). length p)") (auto simp: newline_progress)

declare grep_lines.simps [simp del]

text \<open>The buffer has 1024 bytes, one kept for the NUL; \<open>buf\<close> holds the \<^verbatim>\<open>m\<close> bytes carried over.\<close>

function grep :: "byte list \<Rightarrow> byte list \<Rightarrow> pieces \<Rightarrow> writes" where
  "grep re buf ps =
     (case uread (1024 - length buf - 1) ps of
        (None, qs) \<Rightarrow> []
      | (Some x, qs) \<Rightarrow>
          if x = [] then []
          else let (ws, p) = grep_lines re (buf @ x)
               in ws @ grep re (if length p = length (buf @ x) then [] else p) qs)"
  by auto
termination
  by (relation "measure (\<lambda>(re, buf, ps). psize ps)") (auto intro: uread_psize [OF sym])

declare grep.simps [simp del]

fun grep_files :: "(byte list \<Rightarrow> pieces option) \<Rightarrow> byte list \<Rightarrow> byte list list \<Rightarrow> writes \<Rightarrow> writes res" where
  "grep_files fs re [] out = Ok out"
| "grep_files fs re (a # as) out =
     (case fs a of
        None \<Rightarrow> bnd (uprintf 1 ''grep: cannot open %s\<newline>'' [Str (Some a)]) (\<lambda>w. Ok (out @ w))
      | Some ps \<Rightarrow> grep_files fs re as (out @ grep re [] ps))"

definition grep_main :: "(byte list \<Rightarrow> pieces option) \<Rightarrow> pieces \<Rightarrow> byte list list \<Rightarrow> writes res" where
  "grep_main fs stdin args =
     (case args of
        [] \<Rightarrow> uprintf 2 ''usage: grep pattern [file ...]\<newline>'' []
      | re # as \<Rightarrow> if as = [] then Ok (grep re [] stdin) else grep_files fs re as [])"

section \<open>The language of a pattern\<close>

datatype item = One byte | Many byte

fun items :: "byte list \<Rightarrow> item list" where
  "items [] = []"
| "items [c] = (if c = of_char CHR ''$'' then [] else [One c])"
| "items (c # d # re) = (if d = of_char CHR ''*'' then Many c # items re else One c # items (d # re))"

fun dollar :: "byte list \<Rightarrow> bool" where
  "dollar [] = False"
| "dollar [c] = (c = of_char CHR ''$'')"
| "dollar (c # d # re) = (if d = of_char CHR ''*'' then dollar re else dollar (d # re))"

fun lang :: "item list \<Rightarrow> byte list set" where
  "lang [] = {[]}"
| "lang (One c # is) = {b # v | b v. ok_char c b \<and> v \<in> lang is}"
| "lang (Many c # is) = {u @ v | u v. (\<forall>b \<in> set u. ok_char c b) \<and> v \<in> lang is}"

definition here :: "byte list \<Rightarrow> byte list \<Rightarrow> bool" where
  "here re t \<longleftrightarrow> (\<exists>v w. t = v @ w \<and> v \<in> lang (items re) \<and> (dollar re \<longrightarrow> w = []))"

text \<open>The words the pattern describes: a factor of the text in its language, at the anchored ends.\<close>

definition in_pattern :: "byte list \<Rightarrow> byte list \<Rightarrow> bool" where
  "in_pattern re t \<longleftrightarrow>
     (let caret = (re \<noteq> [] \<and> hd re = of_char CHR ''^''); body = (if caret then tl re else re)
      in \<exists>u v w. t = u @ v @ w \<and> v \<in> lang (items body) \<and> (caret \<longrightarrow> u = []) \<and> (dollar body \<longrightarrow> w = []))"

lemma matchhere_Nil [simp]: "matchhere [] t"
  by (subst matchhere.simps) simp

lemma matchstar_iff:
  "matchstar c re t \<longleftrightarrow> (\<exists>u v. t = u @ v \<and> (\<forall>b \<in> set u. ok_char c b) \<and> matchhere re v)"
proof (induction t)
  case Nil
  then show ?case by (subst matchstar.simps) auto
next
  case (Cons b t)
  have "(\<exists>u v. b # t = u @ v \<and> (\<forall>x \<in> set u. ok_char c x) \<and> matchhere re v) \<longleftrightarrow>
    matchhere re (b # t) \<or> ok_char c b \<and> (\<exists>u v. t = u @ v \<and> (\<forall>x \<in> set u. ok_char c x) \<and> matchhere re v)"
    (is "?l \<longleftrightarrow> ?r")
  proof
    assume ?l
    then obtain u v where "b # t = u @ v" "\<forall>x \<in> set u. ok_char c x" "matchhere re v" by auto
    then show ?r by (cases u) auto
  next
    assume ?r
    then show ?l
    proof
      assume "matchhere re (b # t)"
      then show ?l by (intro exI [of _ "[]"] exI [of _ "b # t"]) simp
    next
      assume "ok_char c b \<and> (\<exists>u v. t = u @ v \<and> (\<forall>x \<in> set u. ok_char c x) \<and> matchhere re v)"
      then obtain u v where "ok_char c b" "t = u @ v" "\<forall>x \<in> set u. ok_char c x" "matchhere re v" by auto
      then show ?l by (intro exI [of _ "b # u"] exI [of _ v]) simp
    qed
  qed
  then show ?case using Cons by (subst matchstar.simps) auto
qed

lemma here_Many: "d = of_char CHR ''*'' \<Longrightarrow> here (c # d # re) t \<longleftrightarrow> (\<exists>u v. t = u @ v \<and> (\<forall>b \<in> set u. ok_char c b) \<and> here re v)"
proof
  assume d: "d = of_char CHR ''*''"
  { assume "here (c # d # re) t"
    then obtain x w where x: "t = x @ w" "x \<in> lang (items (c # d # re))" "dollar (c # d # re) \<longrightarrow> w = []"
      unfolding here_def by blast
    then obtain u v where "x = u @ v" "\<forall>b \<in> set u. ok_char c b" "v \<in> lang (items re)" using d by auto
    with x d have "t = (u @ v) @ w" "\<forall>b \<in> set u. ok_char c b" "v \<in> lang (items re)" "dollar re \<longrightarrow> w = []" by simp_all
    then show "\<exists>u v. t = u @ v \<and> (\<forall>b \<in> set u. ok_char c b) \<and> here re v"
      by (intro exI [of _ u] exI [of _ "v @ w"]) (auto simp: here_def) }
  { assume "\<exists>u v. t = u @ v \<and> (\<forall>b \<in> set u. ok_char c b) \<and> here re v"
    then obtain u v w where "t = u @ v @ w" "\<forall>b \<in> set u. ok_char c b" "v \<in> lang (items re)" "dollar re \<longrightarrow> w = []"
      by (auto simp: here_def)
    then show "here (c # d # re) t" unfolding here_def
      using d by (intro exI [of _ "u @ v"] exI [of _ w]) auto }
qed

lemma here_One:
  "d \<noteq> of_char CHR ''*'' \<Longrightarrow> here (c # d # re) t \<longleftrightarrow> t \<noteq> [] \<and> ok_char c (hd t) \<and> here (d # re) (tl t)"
  by (cases t) (auto simp: here_def Cons_eq_append_conv)

lemma here_single: "here [c] t \<longleftrightarrow> (if c = of_char CHR ''$'' then t = [] else t \<noteq> [] \<and> ok_char c (hd t))"
proof (cases t)
  case (Cons b t')
  have "here [c] t" if "c \<noteq> of_char CHR ''$''" "ok_char c b"
    unfolding here_def using that Cons by (intro exI [of _ "[b]"] exI [of _ t']) simp
  then show ?thesis using Cons by (auto simp: here_def)
qed (auto simp: here_def)

lemma matchhere_lang: "matchhere re t \<longleftrightarrow> here re t"
proof (induction re arbitrary: t rule: items.induct)
  case 1
  then show ?case by (simp add: here_def)
next
  case (2 c)
  show ?case by (subst matchhere.simps) (simp add: here_single)
next
  case (3 c d re)
  show ?case
  proof (cases "d = of_char CHR ''*''")
    case True
    then show ?thesis using 3 by (subst matchhere.simps) (simp add: matchstar_iff here_Many)
  next
    case False
    then show ?thesis using 3 by (subst matchhere.simps) (simp add: here_One)
  qed
qed

lemma match_from_iff: "match_from re t \<longleftrightarrow> (\<exists>u v. t = u @ v \<and> matchhere re v)"
proof (induction t)
  case (Cons b t)
  have "(\<exists>u v. b # t = u @ v \<and> matchhere re v) \<longleftrightarrow> matchhere re (b # t) \<or> (\<exists>u v. t = u @ v \<and> matchhere re v)"
    by (auto simp: Cons_eq_append_conv)
  then show ?case using Cons by simp
qed simp

text \<open>
  C31. The matcher decides the language of the pattern: \<^verbatim>\<open>match\<close> answers 1 exactly when some factor
  of the text, at the start of the text after a leading \<^verbatim>\<open>^\<close> and at its end before a final
  \<^verbatim>\<open>$\<close>, is a word of the concatenation of the pattern's items.
\<close>

theorem match_decides_pattern: "match re text \<longleftrightarrow> in_pattern re text"
proof (cases "re \<noteq> [] \<and> hd re = of_char CHR ''^''")
  case True
  then show ?thesis by (simp add: match_def in_pattern_def Let_def matchhere_lang here_def)
next
  case False
  then show ?thesis
    by (auto simp: match_def in_pattern_def Let_def match_from_iff matchhere_lang here_def)
qed

section \<open>The input loop filters lines\<close>

definition nl :: "byte list \<Rightarrow> byte list" where
  "nl l = l @ [10]"

definition good_line :: "byte list \<Rightarrow> bool" where
  "good_line l \<longleftrightarrow> 0 \<notin> set l \<and> 10 \<notin> set l \<and> length l < 1023"

lemma takeWhile_nl: "10 \<notin> set l \<Longrightarrow> takeWhile (\<lambda>b. b \<noteq> 10) (l @ 10 # (xs :: byte list)) = l"
  by (induction l) auto

lemma grep_lines_nl:
  assumes "good_line l" "0 \<notin> set p"
  shows "grep_lines re (nl l @ p) =
    ((if match re l then [(1, nl l)] else []) @ fst (grep_lines re p), snd (grep_lines re p))"
proof -
  have s: "takeWhile (\<lambda>b. b \<noteq> 0) (nl l @ p) = l @ 10 # p"
    using assms by (subst takeWhile_eq_all_conv [THEN iffD2]) (auto simp: nl_def good_line_def)
  have t: "takeWhile (\<lambda>b. b \<noteq> 10) (l @ 10 # p) = l" using assms by (simp add: takeWhile_nl good_line_def)
  show ?thesis by (subst grep_lines.simps) (simp add: Let_def s t, simp add: nl_def split: prod.splits)
qed

lemma grep_lines_all:
  assumes "\<forall>l \<in> set ls. good_line l" "0 \<notin> set p" "10 \<notin> set p"
  shows "grep_lines re (concat (map nl ls) @ p) = (map (\<lambda>l. (1, nl l)) (filter (match re) ls), p)"
  using assms(1)
proof (induction ls)
  case Nil
  have "10 \<notin> set (takeWhile (\<lambda>b. b \<noteq> 0) p)" using assms(3) by (meson set_takeWhileD)
  then show ?case by (subst grep_lines.simps) (simp add: Let_def)
next
  case (Cons l ls)
  have "0 \<notin> set (concat (map nl ls) @ p)" using Cons.prems assms(2) by (auto simp: nl_def good_line_def)
  then show ?case using Cons grep_lines_nl [of l "concat (map nl ls) @ p" re] by simp
qed

text \<open>A buffer of the input cut at \<open>n\<close> bytes: whole lines, and the start of the next line.\<close>

definition cuts :: "nat \<Rightarrow> byte list list \<Rightarrow> byte list list \<Rightarrow> byte list list \<Rightarrow> byte list \<Rightarrow> bool" where
  "cuts n ls ls1 ls2 p \<longleftrightarrow> ls = ls1 @ ls2 \<and> take n (concat (map nl ls)) = concat (map nl ls1) @ p \<and>
     p @ drop n (concat (map nl ls)) = concat (map nl ls2) \<and> 10 \<notin> set p \<and>
     (ls \<noteq> [] \<longrightarrow> length (nl (hd ls)) \<le> n \<longrightarrow> ls1 \<noteq> [])"

lemma take_lines: "\<forall>l \<in> set ls. good_line l \<Longrightarrow> \<exists>ls1 ls2 p. cuts n ls ls1 ls2 p"
proof (induction ls arbitrary: n)
  case Nil
  have "cuts n [] [] [] []" by (simp add: cuts_def)
  then show ?case by blast
next
  case (Cons l ls)
  show ?case
  proof (cases "length (nl l) \<le> n")
    case True
    obtain ls1 ls2 p where "cuts (n - length (nl l)) ls ls1 ls2 p" using Cons.IH [of "n - length (nl l)"] Cons.prems by auto
    then have "cuts n (l # ls) (l # ls1) ls2 p" using True by (auto simp: cuts_def)
    then show ?thesis by blast
  next
    case False
    have "10 \<notin> set (take n (nl l))" using False Cons.prems by (auto simp: nl_def good_line_def dest: in_set_takeD)
    then have "cuts n (l # ls) [] (l # ls) (take n (nl l))" using False by (simp add: cuts_def flip: append_assoc)
    then show ?thesis by blast
  qed
qed

lemma grep_filter:
  assumes "buf @ r = concat (map nl ls)" "\<forall>l \<in> set ls. good_line l" "10 \<notin> set buf" "length buf < 1023"
  shows "grep re buf (if r = [] then [] else [Some r]) = map (\<lambda>l. (1, nl l)) (filter (match re) ls)"
  using assms
proof (induction "length ls" arbitrary: buf r ls rule: less_induct)
  case less
  show ?case
  proof (cases "r = []")
    case True
    then have "ls = []" using less.prems by (cases ls) (auto simp: nl_def)
    then show ?thesis using True by (subst grep.simps) simp
  next
    case False
    let ?k = "1024 - length buf - 1"
    have k: "?k = 1023 - length buf" "0 < ?k" using less.prems(4) by simp_all
    obtain l ls' where ls: "ls = l # ls'" using False less.prems(1) by (cases ls) auto
    have "buf @ take ?k r = take 1023 (concat (map nl ls))" "drop ?k r = drop 1023 (concat (map nl ls))"
      using less.prems(4) by (simp_all flip: less.prems(1) add: k)
    moreover have "length (nl (hd ls)) \<le> 1023" using less.prems(2) ls by (simp add: nl_def good_line_def)
    moreover obtain ls1 ls2 p where c: "cuts 1023 ls ls1 ls2 p" using take_lines [OF less.prems(2)] by blast
    ultimately have t: "ls = ls1 @ ls2" "10 \<notin> set p" "ls1 \<noteq> []"
      and x: "buf @ take ?k r = concat (map nl ls1) @ p" "p @ drop ?k r = concat (map nl ls2)"
      using ls by (simp_all add: cuts_def)
    have "0 \<notin> set p"
    proof -
      have "0 \<notin> set (concat (map nl ls2))" using less.prems(2) t(1) by (auto simp: nl_def good_line_def)
      then show ?thesis using x(2) by (metis UnI1 set_append)
    qed
    then have g: "grep_lines re (buf @ take ?k r) = (map (\<lambda>l. (1, nl l)) (filter (match re) ls1), p)"
      using grep_lines_all [of ls1 p re] less.prems(2) t x by simp
    have "length p < length (buf @ take ?k r)" using x(1) t(3) by (cases ls1) (simp_all add: nl_def)
    moreover have "length p < 1023"
    proof -
      have "length (buf @ take ?k r) \<le> 1023" using less.prems(4) by simp
      then show ?thesis using \<open>length p < length (buf @ take ?k r)\<close> by linarith
    qed
    moreover have "length ls2 < length ls" using t by simp
    ultimately have "grep re p (if drop ?k r = [] then [] else [Some (drop ?k r)]) = map (\<lambda>l. (1, nl l)) (filter (match re) ls2)"
      using less.hyps [of ls2 p "drop ?k r"] x(2) less.prems(2) t(1,2) by simp
    moreover have "uread ?k [Some r] = (Some (take ?k r), if drop ?k r = [] then [] else [Some (drop ?k r)])" by simp
    ultimately show ?thesis using False k g \<open>length p < length (buf @ take ?k r)\<close> t(1)
      by (subst grep.simps) (simp only: if_False prod.case option.case, simp)
  qed
qed

text \<open>
  C32. On a file of NUL-free lines that fit in its buffer, \<^verbatim>\<open>grep\<close> writes exactly the lines that
  match, in order and complete, wherever the buffer boundaries fall in the file.
\<close>

theorem grep_prints_matching_lines:
  assumes "\<forall>l \<in> set ls. good_line l"
  shows "grep re [] [Some (concat (map nl ls))] = map (\<lambda>l. (1, nl l)) (filter (match re) ls)"
proof (cases "concat (map nl ls) = []")
  case True
  then have "ls = []" by (cases ls) (simp_all add: nl_def)
  then show ?thesis by (subst grep.simps) simp
next
  case False
  then show ?thesis using grep_filter [of "[]" "concat (map nl ls)" ls re] assms by (simp only: if_False) simp
qed

theorem grep_prints_matching_lines_witness:
  "good_line (ascii ''ab'') \<and> good_line (ascii ''c'') \<and>
   grep (ascii ''a*b'') [] [Some (concat (map nl [ascii ''ab'', ascii ''c'']))] = map (\<lambda>l. (1, nl l)) (filter (match (ascii ''a*b'')) [ascii ''ab'', ascii ''c''])"
proof -
  have g: "good_line (ascii ''ab'')" "good_line (ascii ''c'')" by (simp_all add: good_line_def ascii_def)
  then have "\<forall>l \<in> set [ascii ''ab'', ascii ''c'']. good_line l" by simp
  from grep_prints_matching_lines [OF this] show ?thesis using g by blast
qed

text \<open>
  C33. A read that delivers no newline is thrown away: a line that arrives in two reads, as from a
  pipe or a console, loses its first part and is matched and printed without it.
\<close>

theorem grep_drops_partial_line:
  assumes "x \<noteq> []" "10 \<notin> set x" "length x \<le> 1023"
  shows "grep re [] (Some x # ps) = grep re [] ps"
proof -
  have "10 \<notin> set (takeWhile (\<lambda>b. b \<noteq> 0) x)" using assms(2) by (meson set_takeWhileD)
  then have "grep_lines re x = ([], x)" by (subst grep_lines.simps) (simp add: Let_def)
  then show ?thesis using assms by (subst grep.simps) simp
qed

theorem grep_drops_partial_line_witness:
  "grep (ascii ''ab'') [] [Some (ascii ''a''), Some (ascii ''b'' @ [10])] = grep (ascii ''ab'') [] [Some (ascii ''b'' @ [10])]"
  using grep_drops_partial_line [of "ascii ''a''" "ascii ''ab''"] by (simp add: ascii_def)

end
