(* ===== verification/Umalloc.thy ===== *)
theory Umalloc
  imports Prelude
begin

text \<open>
  The memory allocator of user programs (\<^verbatim>\<open>umalloc.c\<close>, after Kernighan and Ritchie): a circular list of free
  blocks in address order, starting at the static header \<^verbatim>\<open>base\<close>. A block is a header of eight bytes, holding
  the next free block and the size in units of eight bytes, followed by its payload. Addresses are
  byte addresses; \<open>uptr\<close> and \<open>usize\<close> are the two words of the header at an address. The process stays below
  \<open>2 ^ 31\<close> (\<^verbatim>\<open>KERNBASE\<close>), so pointer sums cannot wrap; the arithmetic on the caller's argument can, and
  its remainders are written out. \<^verbatim>\<open>sbrk\<close> is a system call: the kernel's decision to grant a request is the argument \<open>grow\<close>.

  The theorems show that the walks over the list end, that \<^verbatim>\<open>malloc\<close> returns a block of
  the size asked for that overlaps no block in use, and that \<^verbatim>\<open>free\<close> gives a block back.
\<close>

section \<open>The program\<close>

record um_st =
  uptr :: "nat \<Rightarrow> nat"
  usize :: "nat \<Rightarrow> nat"
  freep :: nat
  brk :: nat

text \<open>The loop of \<^verbatim>\<open>free\<close>: the block after which \<open>bp\<close> belongs.\<close>

partial_function (option) free_find :: "nat \<Rightarrow> nat \<Rightarrow> um_st \<Rightarrow> nat option" where
  "free_find bp p s =
     (if bp > p \<and> bp < uptr s p then Some p
      else if p \<ge> uptr s p \<and> (bp > p \<or> bp < uptr s p) then Some p
      else free_find bp (uptr s p) s)"

definition join_upper :: "nat \<Rightarrow> nat \<Rightarrow> um_st \<Rightarrow> um_st" where
  "join_upper bp p s =
     (if bp + 8 * usize s bp = uptr s p then
        s\<lparr>usize := (usize s)(bp := usize s bp + usize s (uptr s p)), uptr := (uptr s)(bp := uptr s (uptr s p))\<rparr>
      else s\<lparr>uptr := (uptr s)(bp := uptr s p)\<rparr>)"

definition join_lower :: "nat \<Rightarrow> nat \<Rightarrow> um_st \<Rightarrow> um_st" where
  "join_lower bp p s =
     (if p + 8 * usize s p = bp then
        s\<lparr>usize := (usize s)(p := usize s p + usize s bp), uptr := (uptr s)(p := uptr s bp)\<rparr>
      else s\<lparr>uptr := (uptr s)(p := bp)\<rparr>)"

definition free :: "nat \<Rightarrow> um_st \<Rightarrow> um_st option" where
  "free ap s =
     (let bp = ap - 8 in
      case free_find bp (freep s) s of None \<Rightarrow> None
      | Some p \<Rightarrow> Some ((join_lower bp p (join_upper bp p s))\<lparr>freep := p\<rparr>))"

text \<open>
  \<^verbatim>\<open>sbrk\<close> takes a signed number of bytes, here as its 32-bit pattern: from \<open>2 ^ 31\<close> on it is negative and makes the process
  smaller. Which requests the kernel grants (\<^verbatim>\<open>growproc\<close>, in theory \<open>Proc\<close>) is the parameter \<open>grow\<close>, a predicate on the end of the
  process and the request; when it grants one, the call returns the old end of the process.
\<close>

definition sbrk :: "(nat \<Rightarrow> nat \<Rightarrow> bool) \<Rightarrow> nat \<Rightarrow> um_st \<Rightarrow> nat option \<times> um_st" where
  "sbrk grow n s =
     (if grow (brk s) n then (Some (brk s), s\<lparr>brk := if n < 2 ^ 31 then brk s + n else brk s + n - 2 ^ 32\<rparr>)
      else (None, s))"

definition morecore :: "(nat \<Rightarrow> nat \<Rightarrow> bool) \<Rightarrow> nat \<Rightarrow> um_st \<Rightarrow> (nat \<times> um_st) option" where
  "morecore grow nu s =
     (let nu = (if nu < 4096 then 4096 else nu) in
      case sbrk grow (nu * 8 mod 2 ^ 32) s of
        (None, s) \<Rightarrow> Some (0, s)
      | (Some hp, s) \<Rightarrow>
          (case free (hp + 8) (s\<lparr>usize := (usize s)(hp := nu)\<rparr>) of None \<Rightarrow> None
           | Some s \<Rightarrow> Some (freep s, s)))"

text \<open>Cutting \<open>nunits\<close> units from the block at \<open>p\<close>, whose predecessor in the list is \<open>prevp\<close>.\<close>

definition take_block :: "nat \<Rightarrow> nat \<Rightarrow> nat \<Rightarrow> um_st \<Rightarrow> nat \<times> um_st" where
  "take_block nunits prevp p s =
     (if usize s p = nunits then (p + 8, s\<lparr>uptr := (uptr s)(prevp := uptr s p), freep := prevp\<rparr>)
      else
        let rest = usize s p - nunits; q = p + 8 * rest in
        (q + 8, s\<lparr>usize := (usize s)(p := rest, q := nunits), freep := prevp\<rparr>))"

partial_function (option) malloc_loop :: "(nat \<Rightarrow> nat \<Rightarrow> bool) \<Rightarrow> nat \<Rightarrow> nat \<Rightarrow> nat \<Rightarrow> um_st \<Rightarrow> (nat \<times> um_st) option" where
  "malloc_loop grow nunits prevp p s =
     (if usize s p \<ge> nunits then Some (take_block nunits prevp p s)
      else if p = freep s then
        Option.bind (morecore grow nunits s) (\<lambda>(p, s).
          if p = 0 then Some (0, s) else malloc_loop grow nunits p (uptr s p) s)
      else malloc_loop grow nunits p (uptr s p) s)"

definition units :: "nat \<Rightarrow> nat" where
  "units nbytes = (nbytes + 8 - 1) mod 2 ^ 32 div 8 + 1"

definition malloc :: "nat \<Rightarrow> (nat \<Rightarrow> nat \<Rightarrow> bool) \<Rightarrow> nat \<Rightarrow> um_st \<Rightarrow> (nat \<times> um_st) option" where
  "malloc base grow nbytes s =
     (let nunits = units nbytes;
          s = (if freep s = 0 then s\<lparr>uptr := (uptr s)(base := base), usize := (usize s)(base := 0), freep := base\<rparr> else s)
      in malloc_loop grow nunits (freep s) (uptr s (freep s)) s)"

section \<open>The list of free blocks\<close>

text \<open>From \<open>p\<close> the pointers lead through the list to \<open>z\<close>.\<close>

fun linked :: "(nat \<Rightarrow> nat) \<Rightarrow> nat \<Rightarrow> nat list \<Rightarrow> nat \<Rightarrow> bool" where
  "linked nx p [] z \<longleftrightarrow> nx p = z"
| "linked nx p (y # ys) z \<longleftrightarrow> nx p = y \<and> linked nx y ys z"

text \<open>
  The invariant: \<open>fs\<close> are the free blocks after \<open>base\<close>, in address order and none touching the next, and
  \<open>A\<close> the blocks handed out, as pairs of header address and size.
\<close>

abbreviation span :: "nat \<Rightarrow> nat \<Rightarrow> nat set" where
  "span a n \<equiv> {a..<a + 8 * n}"

abbreviation apart :: "um_st \<Rightarrow> nat \<Rightarrow> nat \<Rightarrow> bool" where
  "apart s \<equiv> \<lambda>a b. a + 8 * usize s a < b"

definition area :: "nat list \<Rightarrow> um_st \<Rightarrow> nat set" where
  "area fs s = (\<Union>f \<in> set fs. span f (usize s f))"

definition um_list :: "nat \<Rightarrow> nat list \<Rightarrow> um_st \<Rightarrow> bool" where
  "um_list base fs s \<longleftrightarrow> 0 < base \<and> base + 8 \<le> brk s \<and> brk s < 2 ^ 31 \<and> usize s base = 0 \<and>
     linked (uptr s) base fs base \<and> sorted_wrt (apart s) (base # fs) \<and> freep s \<in> set (base # fs) \<and>
     (\<forall>f \<in> set fs. 0 < usize s f \<and> base + 8 \<le> f \<and> f + 8 * usize s f \<le> brk s)"

definition um_used :: "nat \<Rightarrow> nat list \<Rightarrow> (nat \<times> nat) set \<Rightarrow> um_st \<Rightarrow> bool" where
  "um_used base fs A s \<longleftrightarrow>
     (\<forall>(a, n) \<in> A. 0 < n \<and> usize s a = n \<and> base + 8 \<le> a \<and> a + 8 * n \<le> brk s \<and> span a n \<inter> area fs s = {}) \<and>
     (\<forall>(a, n) \<in> A. \<forall>(b, m) \<in> A. a \<noteq> b \<longrightarrow> span a n \<inter> span b m = {})"

definition um_inv :: "nat \<Rightarrow> (nat \<times> nat) set \<Rightarrow> um_st \<Rightarrow> bool" where
  "um_inv base A s \<longleftrightarrow>
     freep s = 0 \<and> A = {} \<and> 0 < base \<and> base + 8 \<le> brk s \<and> brk s < 2 ^ 31 \<or>
     (\<exists>fs. um_list base fs s \<and> um_used base fs A s)"

lemma um_usedI:
  assumes "\<And>b m. (b, m) \<in> A \<Longrightarrow> 0 < m \<and> usize s b = m \<and> base + 8 \<le> b \<and> b + 8 * m \<le> brk s \<and> span b m \<inter> area fs s = {}"
    and "\<And>b m c k. (b, m) \<in> A \<Longrightarrow> (c, k) \<in> A \<Longrightarrow> b \<noteq> c \<Longrightarrow> span b m \<inter> span c k = {}"
  shows "um_used base fs A s"
proof (unfold um_used_def, intro conjI ballI, goal_cases)
  case (1 x)
  then show ?case using assms(1) [of "fst x" "snd x"] by (simp only: case_prod_beta prod.collapse)
next
  case (2 x)
  then show ?case using assms(2) [of "fst x" "snd x"] by (auto simp only: case_prod_beta prod.collapse)
qed

lemma linked_append: "linked nx p (xs @ y # ys) z \<longleftrightarrow> linked nx p xs y \<and> linked nx y ys z"
  by (induction xs arbitrary: p) auto

lemma linked_upd [simp]: "a \<notin> set (p # ys) \<Longrightarrow> linked (nx(a := v)) p ys z = linked nx p ys z"
  by (induction ys arbitrary: p) auto

lemma linked_last: "linked nx p xs z \<Longrightarrow> nx (last (p # xs)) = z"
  by (induction xs arbitrary: p) auto

text \<open>Redirecting the last pointer of a chain.\<close>

lemma linked_redirect:
  "linked nx p xs z \<Longrightarrow> distinct (p # xs) \<Longrightarrow> linked (nx(last (p # xs) := v)) p xs v"
proof (induction xs arbitrary: p)
  case (Cons x xs)
  then have "p \<noteq> last (x # xs)" by auto
  then show ?case using Cons by simp
qed simp

lemma apart_distinct: "sorted_wrt (apart s) L \<Longrightarrow> distinct L"
  by (induction L) auto

lemma apart_cong: "(\<And>x. x \<in> set L \<Longrightarrow> usize t x = usize s x) \<Longrightarrow> sorted_wrt (apart t) L = sorted_wrt (apart s) L"
  by (induction L) auto

lemma area_cong: "(\<And>x. x \<in> set L \<Longrightarrow> usize t x = usize s x) \<Longrightarrow> area L t = area L s"
  by (simp add: area_def)

lemma area_simps [simp]: "area [] s = {}" "area (x # xs) s = span x (usize s x) \<union> area xs s"
  "area (xs @ ys) s = area xs s \<union> area ys s"
  by (auto simp: area_def)

section \<open>free\<close>

text \<open>
  \<open>fits\<close>: the block at \<open>a\<close> lies behind the free blocks \<open>xs\<close> and before the free blocks \<open>ys\<close>.
\<close>

definition fits :: "nat \<Rightarrow> nat list \<Rightarrow> nat list \<Rightarrow> nat \<Rightarrow> um_st \<Rightarrow> bool" where
  "fits base xs ys a s \<longleftrightarrow> um_list base (xs @ ys) s \<and> 0 < usize s a \<and> base + 8 \<le> a \<and> a + 8 * usize s a \<le> brk s \<and>
     (\<forall>x \<in> set xs. x + 8 * usize s x \<le> a) \<and> (\<forall>y \<in> set ys. a + 8 * usize s a \<le> y)"

lemma join_upper_ok:
  assumes f: "fits base xs ys a s" and p: "p = last (base # xs)" and t: "t = join_upper a p s"
  shows "\<exists>ys'. linked (uptr t) a ys' base \<and> sorted_wrt (apart t) (a # ys') \<and> set ys' \<subseteq> set ys \<and>
    (\<forall>b. b \<noteq> a \<longrightarrow> usize t b = usize s b \<and> uptr t b = uptr s b) \<and> brk t = brk s \<and>
    0 < usize t a \<and> a + 8 * usize t a \<le> brk s \<and>
    span a (usize t a) \<union> area ys' s = span a (usize s a) \<union> area ys s"
proof (cases ys)
  case Nil
  have "uptr s p = base" using f p linked_last unfolding fits_def um_list_def Nil by force
  moreover have "a + 8 * usize s a \<noteq> base" using f by (simp add: fits_def)
  ultimately have "t = s\<lparr>uptr := (uptr s)(a := base)\<rparr>" using t by (simp add: join_upper_def)
  then show ?thesis using f Nil by (intro exI [of _ "[]"]) (simp add: fits_def)
next
  case (Cons q zs)
  have L: "linked (uptr s) base xs q" "linked (uptr s) q zs base" "sorted_wrt (apart s) (q # zs)" "0 < usize s q"
    "q + 8 * usize s q \<le> brk s"
    using f by (auto simp: fits_def um_list_def Cons linked_append sorted_wrt_append)
  have q: "uptr s p = q" using linked_last [OF L(1)] p by simp
  have le: "a + 8 * usize s a \<le> y" if "y \<in> set ys" for y using f that by (simp add: fits_def)
  have a: "a \<notin> set ys" "0 < usize s a" "a + 8 * usize s a \<le> brk s" using f le by (force simp: fits_def)+
  show ?thesis
  proof (cases "a + 8 * usize s a = q")
    case True
    then have T: "t = s\<lparr>usize := (usize s)(a := usize s a + usize s q), uptr := (uptr s)(a := uptr s q)\<rparr>"
      using t q by (simp add: join_upper_def)
    have "linked (uptr t) a zs base" using L(2) a(1) Cons T by (cases zs) auto
    moreover have "sorted_wrt (apart t) (a # zs)" using L(3) a(1) Cons True unfolding T
      by (auto intro: sorted_wrt_mono_rel [of zs "apart s"])
    moreover have "span a (usize s a + usize s q) = span a (usize s a) \<union> span q (usize s q)" using True by auto
    ultimately show ?thesis using T a L(5) True Cons by (intro exI [of _ zs]) (auto simp: area_def)
  next
    case False
    then have T: "t = s\<lparr>uptr := (uptr s)(a := q)\<rparr>" using t q by (simp add: join_upper_def)
    have "a + 8 * usize s a < y" if "y \<in> set ys" for y using le [of q] False L(3) that Cons by force
    then show ?thesis using T a L Cons by (intro exI [of _ ys]) auto
  qed
qed

lemma linked_move:
  "linked nx a ys z \<Longrightarrow> p \<notin> set ys \<Longrightarrow> linked (nx(p := nx a)) p ys z"
  by (cases ys) auto

lemma free_insert:
  assumes f: "fits base xs ys a s" and p: "p = last (base # xs)"
    and t: "t = (join_lower a p (join_upper a p s))\<lparr>freep := p\<rparr>"
  shows "\<exists>fs. um_list base fs t \<and> area fs t = area (xs @ ys) s \<union> span a (usize s a) \<and> brk t = brk s \<and>
    (\<forall>b. b \<notin> set (a # xs) \<longrightarrow> usize t b = usize s b)"
proof -
  define u where "u = join_upper a p s"
  obtain zs where Z: "linked (uptr u) a zs base" "sorted_wrt (apart u) (a # zs)" "set zs \<subseteq> set ys"
    "\<And>b. b \<noteq> a \<Longrightarrow> usize u b = usize s b" "\<And>b. b \<noteq> a \<Longrightarrow> uptr u b = uptr s b" "brk u = brk s"
    "0 < usize u a" "a + 8 * usize u a \<le> brk s"
    "span a (usize u a) \<union> area zs s = span a (usize s a) \<union> area ys s"
    using join_upper_ok [OF f p u_def] by auto
  have F: "0 < base" "base + 8 \<le> brk s" "brk s < 2 ^ 31" "usize s base = 0" "linked (uptr s) base (xs @ ys) base"
    "sorted_wrt (apart s) (base # xs @ ys)" "base + 8 \<le> a" "0 < usize s a"
    "\<And>x. x \<in> set xs \<Longrightarrow> x + 8 * usize s x \<le> a" "\<And>y. y \<in> set ys \<Longrightarrow> a + 8 * usize s a \<le> y"
    "\<And>x. x \<in> set (xs @ ys) \<Longrightarrow> 0 < usize s x \<and> base + 8 \<le> x \<and> x + 8 * usize s x \<le> brk s"
    using f by (auto simp: fits_def um_list_def)
  have d: "distinct (base # xs @ ys)" by (rule apart_distinct [OF F(6)])
  have na: "a \<notin> set (base # xs @ ys)" using F(7-11) by force
  have L: "linked (uptr u) base xs (hd (ys @ [base]))"
  proof -
    have "linked (uptr s) base xs (hd (ys @ [base]))" using F(5) by (cases ys) (simp_all add: linked_append)
    moreover have "linked (uptr u) b ws z = linked (uptr s) b ws z" if "a \<notin> set (b # ws)" for b ws z
      using that by (induction ws arbitrary: b) (auto simp: Z(5))
    ultimately show ?thesis using na by simp
  qed
  have "p \<in> set (base # xs)" using last_in_set [of "base # xs"] p by simp
  then have pm: "p \<in> set (base # xs)" "p \<noteq> a" "p \<notin> set zs" using d na Z(3) by auto
  have sz: "usize u x = usize s x" if "x \<in> set (base # xs @ zs)" for x
  proof -
    have "x \<noteq> a" using that na Z(3) by auto
    then show ?thesis by (rule Z(4))
  qed
  have S: "sorted_wrt (apart u) (base # xs)" "sorted_wrt (apart u) zs"
    "\<And>x y. x \<in> set (base # xs) \<Longrightarrow> y \<in> set zs \<Longrightarrow> x + 8 * usize u x < y" "\<And>y. y \<in> set zs \<Longrightarrow> a + 8 * usize u a < y"
    using F(6) Z(2,3) sz apart_cong [of "base # xs" u s] by (auto simp: sorted_wrt_append)
  have A: "span a (usize u a) \<union> area zs u = span a (usize s a) \<union> area ys s" "area xs u = area xs s"
    using Z(9) area_cong [of zs u s] area_cong [of xs u s] sz by simp_all
  show ?thesis
  proof (cases "p + 8 * usize u p = a")
    case True
    then have "p \<noteq> base" using sz [of base] F(4,7) by auto
    then obtain ws where ws: "xs = ws @ [p]" using p by (cases xs rule: rev_cases) auto
    have T: "t = u\<lparr>usize := (usize u)(p := usize u p + usize u a), uptr := (uptr u)(p := uptr u a), freep := p\<rparr>"
      using t True by (simp add: join_lower_def u_def [symmetric])
    have n: "p \<notin> set (base # ws)" using d ws by auto
    have "linked (uptr t) base (xs @ zs) base"
      using L n linked_move [OF Z(1) pm(3)] unfolding ws T by (simp add: linked_append)
    moreover have tz: "usize t x = usize u x" if "x \<noteq> p" for x using that by (simp add: T)
    have c: "sorted_wrt (apart t) (base # ws) = sorted_wrt (apart u) (base # ws)" "sorted_wrt (apart t) zs = sorted_wrt (apart u) zs"
      "area ws t = area ws u" "area zs t = area zs u"
      using n pm(3) tz by (intro apart_cong area_cong; metis list.set_intros(2))+
    have tp: "p + 8 * usize t p = a + 8 * usize u a" using True by (simp add: T)
    have "sorted_wrt (apart t) (base # ws)" "sorted_wrt (apart t) zs"
      "\<forall>x \<in> set (base # ws). x + 8 * usize t x < p \<and> (\<forall>y \<in> set zs. x + 8 * usize t x < y)"
      "\<forall>y \<in> set zs. p + 8 * usize t p < y"
      using S n c(1,2) tz tp by (auto simp: ws sorted_wrt_append)
    then have "sorted_wrt (apart t) (base # xs @ zs)" by (auto simp: ws sorted_wrt_append)
    moreover have "span p (usize t p) = span p (usize u p) \<union> span a (usize u a)" using True tp by auto
    then have "area (xs @ zs) t = area xs u \<union> (span a (usize u a) \<union> area zs u)" by (simp add: ws c Un_ac)
    then have "area (xs @ zs) t = area (xs @ ys) s \<union> span a (usize s a)" unfolding A by (simp add: Un_ac)
    ultimately show ?thesis
      using F(1-4,11) Z(3,6-8) pm sz True \<open>p \<noteq> base\<close> ws na Z(4)
      by (intro exI [of _ "xs @ zs"]) (auto simp: um_list_def T)
  next
    case False
    then have T: "t = u\<lparr>uptr := (uptr u)(p := a), freep := p\<rparr>" using t by (simp add: join_lower_def u_def [symmetric])
    have "linked (uptr t) base (xs @ a # zs) base"
      using linked_redirect [OF L] d Z(1) pm unfolding T p by (simp add: linked_append)
    moreover have "x + 8 * usize u x < a" if "x \<in> set (base # xs)" for x
    proof -
      have "p + 8 * usize u p < a" using False pm(1) sz F(4,7,9) by force
      moreover have "x = p \<or> x + 8 * usize u x < p" using that S(1) p by (cases xs rule: rev_cases) (auto simp: sorted_wrt_append)
      ultimately show ?thesis by auto
    qed
    then have "sorted_wrt (apart t) (base # xs @ a # zs)" using S unfolding T by (auto simp: sorted_wrt_append)
    moreover have "area (xs @ a # zs) t = area (xs @ ys) s \<union> span a (usize s a)"
      using A area_cong [of "xs @ a # zs" t u] unfolding T by auto
    ultimately show ?thesis
      using F(1-4,7,11) Z(3,6-8) pm sz na Z(4)
      by (intro exI [of _ "xs @ a # zs"]) (auto simp: um_list_def T)
  qed
qed

text \<open>The walk of \<^verbatim>\<open>free\<close>, from a block above \<open>a\<close> and from a block below it.\<close>

lemma find_above:
  "linked (uptr s) y zs base \<Longrightarrow> sorted_wrt (<) (y # zs) \<Longrightarrow> a < y \<Longrightarrow> base \<le> a \<Longrightarrow> free_find a y s = free_find a base s"
proof (induction zs arbitrary: y)
  case Nil
  then show ?case by (subst free_find.simps) simp
next
  case (Cons z zs)
  then show ?case by (subst free_find.simps) auto
qed

lemma find_below:
  "linked (uptr s) x ws q \<Longrightarrow> sorted_wrt (<) (x # ws) \<Longrightarrow> \<forall>w \<in> set (x # ws). w < a \<Longrightarrow> a < q \<or> q \<le> last (x # ws) \<Longrightarrow>
   free_find a x s = Some (last (x # ws))"
proof (induction ws arbitrary: x)
  case Nil
  then show ?case by (subst free_find.simps) auto
next
  case (Cons w ws)
  then show ?case by (subst free_find.simps) auto
qed

lemma apart_less: "sorted_wrt (apart s) L \<Longrightarrow> sorted_wrt (<) L"
  by (rule sorted_wrt_mono_rel) auto

lemma free_find_ok:
  assumes "fits base xs ys a s"
  shows "free_find a (freep s) s = Some (last (base # xs))"
proof -
  have L: "linked (uptr s) base (xs @ ys) base" "sorted_wrt (<) (base # xs @ ys)" "base < a" "freep s \<in> set (base # xs @ ys)"
    "\<forall>x \<in> set (base # xs). x < a" "\<forall>y \<in> set ys. a < y"
  proof -
    have f: "um_list base (xs @ ys) s" "0 < usize s a" "base + 8 \<le> a" "\<And>x. x \<in> set xs \<Longrightarrow> x + 8 * usize s x \<le> a"
      "\<And>y. y \<in> set ys \<Longrightarrow> a + 8 * usize s a \<le> y" using assms by (simp_all add: fits_def)
    show "sorted_wrt (<) (base # xs @ ys)" by (rule apart_less [of s]) (use f(1) in \<open>simp only: um_list_def\<close>)
    show "linked (uptr s) base (xs @ ys) base" "freep s \<in> set (base # xs @ ys)" "base < a"
      using f(1,3) by (simp_all add: um_list_def)
    have "0 < usize s x" if "x \<in> set xs" for x using f(1) that by (simp add: um_list_def)
    then have "x < a" if "x \<in> set xs" for x using f(4) [OF that] that by force
    then show "\<forall>x \<in> set (base # xs). x < a" using f(3) by simp
    show "\<forall>y \<in> set ys. a < y" using f(2,5) by force
  qed
  have below: "free_find a x s = Some (last (base # xs))" if x: "x \<in> set (base # xs)" for x
  proof -
    obtain us vs where s: "base # xs = us @ x # vs" using split_list [OF x] by blast
    have q: "linked (uptr s) base xs (hd (ys @ [base]))" using L(1) by (cases ys) (auto simp: linked_append)
    then have "linked (uptr s) x vs (hd (ys @ [base]))"
      using s by (cases us) (auto simp: linked_append)
    moreover have "sorted_wrt (<) (us @ (x # vs) @ ys)" using L(2) s by (metis append_Cons append_assoc)
    then have "sorted_wrt (<) (x # vs)" by (simp add: sorted_wrt_append)
    moreover have "a < hd (ys @ [base]) \<or> hd (ys @ [base]) \<le> last (x # vs)"
    proof (cases ys)
      case Nil
      have "base \<le> last (base # xs)" using L(2) last_in_set [of xs] by (auto simp: Nil less_imp_le)
      then show ?thesis using s Nil by simp
    qed (use L(6) in simp)
    moreover have "\<forall>w \<in> set (x # vs). w < a" using L(5) unfolding s by simp
    moreover have "last (base # xs) = last (x # vs)" unfolding s by simp
    ultimately show ?thesis using find_below by metis
  qed
  moreover have "free_find a y s = free_find a base s" if y: "y \<in> set ys" for y
  proof -
    obtain us vs where s: "ys = us @ y # vs" using split_list [OF y] by blast
    have "linked (uptr s) base ((xs @ us) @ y # vs) base" using L(1) s by simp
    then have "linked (uptr s) y vs base" by (simp only: linked_append)
    then show ?thesis using L(2,3,6) s by (intro find_above) (auto simp: sorted_wrt_append)
  qed
  ultimately show ?thesis using L(4) by auto
qed

lemma dropWhile_above: "sorted_wrt (apart s) fs \<Longrightarrow> y \<in> set (dropWhile (\<lambda>f. f < a) fs) \<Longrightarrow> a \<le> y"
  by (induction fs) (auto split: if_splits)

lemma used_fits:
  assumes l: "um_list base fs s" and u: "um_used base fs A s" and a: "(a, n) \<in> A"
  shows "fits base (takeWhile (\<lambda>f. f < a) fs) (dropWhile (\<lambda>f. f < a) fs) a s"
proof -
  have U: "0 < n" "usize s a = n" "base + 8 \<le> a" "a + 8 * n \<le> brk s" "span a n \<inter> area fs s = {}"
    using u a by (auto simp: um_used_def)
  have d: "span a n \<inter> span f (usize s f) = {}" "0 < usize s f" if "f \<in> set fs" for f
  proof -
    show "span a n \<inter> span f (usize s f) = {}" using U(5) that unfolding area_def by blast
    show "0 < usize s f" using l that by (simp add: um_list_def)
  qed
  have "x + 8 * usize s x \<le> a" if x: "x \<in> set (takeWhile (\<lambda>f. f < a) fs)" for x
  proof (rule ccontr)
    assume "\<not> ?thesis"
    then have "a \<in> span a n \<inter> span x (usize s x)" using set_takeWhileD [OF x] U(1) by simp
    then show False using d(1) set_takeWhileD [OF x] by blast
  qed
  moreover have "a + 8 * n \<le> y" if y: "y \<in> set (dropWhile (\<lambda>f. f < a) fs)" for y
  proof (rule ccontr)
    assume "\<not> ?thesis"
    moreover have "a \<le> y" using dropWhile_above y l by (auto simp: um_list_def)
    ultimately have "y \<in> span a n \<inter> span y (usize s y)" using d(2) set_dropWhileD [OF y] by simp
    then show False using d(1) set_dropWhileD [OF y] by blast
  qed
  ultimately show ?thesis using l U by (simp add: fits_def)
qed

lemma free_ok:
  assumes l: "um_list base fs s" and u: "um_used base fs A s" and a: "(a, n) \<in> A"
  shows "\<exists>t fs'. free (a + 8) s = Some t \<and> um_list base fs' t \<and> um_used base fs' (A - {(a, n)}) t \<and>
    brk t = brk s \<and> area fs' t = area fs s \<union> span a n"
proof -
  let ?xs = "takeWhile (\<lambda>f. f < a) fs" and ?ys = "dropWhile (\<lambda>f. f < a) fs"
  note f = used_fits [OF assms]
  define t where "t = (join_lower a (last (base # ?xs)) (join_upper a (last (base # ?xs)) s))\<lparr>freep := last (base # ?xs)\<rparr>"
  have n: "usize s a = n" using u a by (auto simp: um_used_def)
  obtain fs' where F: "um_list base fs' t" "area fs' t = area fs s \<union> span a n" "brk t = brk s"
    "\<And>b. b \<notin> set (a # ?xs) \<Longrightarrow> usize t b = usize s b"
    using free_insert [OF f refl t_def] n by auto
  have "free (a + 8) s = Some t" by (simp add: free_def free_find_ok [OF f] t_def)
  moreover have "um_used base fs' (A - {(a, n)}) t"
  proof -
    have U: "0 < m \<and> usize t b = m \<and> base + 8 \<le> b \<and> b + 8 * m \<le> brk t \<and> span b m \<inter> area fs' t = {}"
      if bm: "(b, m) \<in> A - {(a, n)}" for b m
    proof -
      have B: "0 < m" "usize s b = m" "base + 8 \<le> b" "b + 8 * m \<le> brk s" "span b m \<inter> area fs s = {}"
        using u bm by (auto simp: um_used_def)
      have "b \<noteq> a" using bm n B(2) by auto
      moreover have "b \<notin> set ?xs"
      proof
        assume "b \<in> set ?xs"
        then have "span b m \<subseteq> area fs s" using B(2) set_takeWhileD by (force simp: area_def)
        then show False using B(1,5) by force
      qed
      moreover have "span b m \<inter> span a n = {}" using u a bm \<open>b \<noteq> a\<close> unfolding um_used_def by blast
      ultimately show ?thesis using B F by auto
    qed
    then show ?thesis using u unfolding um_used_def by blast
  qed
  ultimately show ?thesis using F by blast
qed

section \<open>morecore\<close>

text \<open>An interval covered by free blocks lies inside one of them, since no two touch.\<close>

lemma one_block:
  assumes l: "um_list base fs t" and n: "0 < n" "span a n \<subseteq> area fs t"
  shows "\<exists>x \<in> set fs. n \<le> usize t x"
proof -
  obtain x where x: "x \<in> set fs" "x \<le> a" "a < x + 8 * usize t x" using n by (force simp: area_def)
  have sep: "x + 8 * usize t x < y \<or> y + 8 * usize t y < x \<or> y = x" if "y \<in> set fs" for y
  proof -
    obtain us vs where fs: "fs = us @ x # vs" using split_list [OF x(1)] by blast
    have "sorted_wrt (apart t) fs" using l by (simp add: um_list_def)
    then show ?thesis using that by (auto simp: fs sorted_wrt_append)
  qed
  have "a + 8 * n \<le> x + 8 * usize t x"
  proof (rule ccontr)
    assume "\<not> ?thesis"
    then have "x + 8 * usize t x \<in> area fs t" using x(2,3) n(2) by force
    then obtain y where "y \<in> set fs" "y \<le> x + 8 * usize t x" "x + 8 * usize t x < y + 8 * usize t y"
      by (auto simp: area_def)
    then show False using sep [of y] by auto
  qed
  then show ?thesis using x by (intro bexI [of _ x]) auto
qed

definition core_units :: "nat \<Rightarrow> nat" where
  "core_units nu = (if nu < 4096 then 4096 else nu)"

text \<open>The kernel never grows a process up to \<^verbatim>\<open>KERNBASE\<close> (the first test of \<^verbatim>\<open>allocuvm\<close>).\<close>

definition below_kernbase :: "(nat \<Rightarrow> nat \<Rightarrow> bool) \<Rightarrow> bool" where
  "below_kernbase grow \<longleftrightarrow> (\<forall>b k. grow b k \<longrightarrow> b + k < 2 ^ 31)"

lemma morecore_ok:
  assumes l: "um_list base fs s" and u: "um_used base fs A s"
    and g: "below_kernbase grow" and n: "8 * core_units nu < 2 ^ 31"
  shows "\<not> grow (brk s) (8 * core_units nu) \<and> morecore grow nu s = Some (0, s) \<or>
    (\<exists>t fs'. morecore grow nu s = Some (freep t, t) \<and> um_list base fs' t \<and> um_used base fs' A t \<and>
       (\<exists>x \<in> set fs'. nu \<le> usize t x))"
proof (cases "grow (brk s) (8 * core_units nu)")
  case False
  then show ?thesis using n by (simp add: morecore_def sbrk_def core_units_def [symmetric] mult.commute)
next
  case True
  let ?n = "core_units nu" and ?h = "brk s"
  let ?s = "s\<lparr>brk := ?h + 8 * ?n, usize := (usize s)(?h := ?n)\<rparr>"
  have n0: "0 < ?n" "nu \<le> ?n" by (simp_all add: core_units_def)
  have f: "f < ?h" if "f \<in> set (base # fs)" for f using l that by (fastforce simp: um_list_def)
  then have same: "usize ?s f = usize s f" if "f \<in> set (base # fs)" for f using that by auto
  have ar: "area fs ?s = area fs s" using same by (intro area_cong) simp
  have "sorted_wrt (apart ?s) (base # fs) = sorted_wrt (apart s) (base # fs)" by (rule apart_cong [OF same])
  then have l': "um_list base fs ?s"
    using l g [unfolded below_kernbase_def] True same unfolding um_list_def by auto
  have lo: "area fs s \<subseteq> {..<?h}" using l by (auto simp: area_def um_list_def)
  have A: "0 < m" "usize s b = m" "base + 8 \<le> b" "b + 8 * m \<le> ?h" "span b m \<inter> area fs s = {}" if "(b, m) \<in> A" for b m
    using u that by (auto simp: um_used_def)
  have un: "um_used base fs (insert (?h, ?n) A) ?s"
  proof -
    have "0 < m \<and> usize ?s b = m \<and> base + 8 \<le> b \<and> b + 8 * m \<le> brk ?s \<and> span b m \<inter> area fs s = {}"
      if "(b, m) \<in> insert (?h, ?n) A" for b m
    proof (cases "(b, m) \<in> A")
      case True
      then show ?thesis using A [OF True] by auto
    next
      case False
      then show ?thesis using that lo n0(1) l by (auto simp: um_list_def)
    qed
    moreover have "span b m \<inter> span c k = {}"
      if "(b, m) \<in> insert (?h, ?n) A" "(c, k) \<in> insert (?h, ?n) A" "b \<noteq> c" for b m c k
    proof (cases "(b, m) \<in> A \<and> (c, k) \<in> A")
      case True
      then show ?thesis using u that(3) unfolding um_used_def by blast
    next
      case False
      then show ?thesis using that A(4) [of b m] A(4) [of c k] by auto
    qed
    ultimately show ?thesis by (intro um_usedI) (simp_all add: ar)
  qed
  have nin: "insert (?h, ?n) A - {(?h, ?n)} = A" using u by (fastforce simp: um_used_def)
  obtain t fs' where t: "free (?h + 8) ?s = Some t" "um_list base fs' t" "um_used base fs' A t"
    "area fs' t = area fs s \<union> span ?h ?n"
    using free_ok [OF l' un insertI1] nin ar by auto
  have "\<exists>x \<in> set fs'. ?n \<le> usize t x" by (rule one_block [OF t(2) n0(1)]) (use t(4) in auto)
  moreover have "morecore grow nu s = Some (freep t, t)"
    using True n t(1) by (simp add: morecore_def sbrk_def core_units_def [symmetric] mult.commute)
  ultimately show ?thesis using t n0(2) le_trans by blast
qed

section \<open>malloc\<close>

lemma linked_next: "linked nx b xs z \<Longrightarrow> w \<in> set (b # xs) \<Longrightarrow> w = last (b # xs) \<or> nx w \<in> set xs"
proof (induction xs arbitrary: b)
  case (Cons x xs)
  then have x: "nx b = x" "linked nx x xs z" by simp_all
  then show ?case using Cons.IH [OF x(2)] Cons.prems(2) by (cases "w = b") auto
qed simp

lemma unique_prev:
  assumes "linked nx b (xs @ p # ys) b" "distinct (b # xs @ p # ys)" "w \<in> set (b # xs @ p # ys)" "nx w = p"
  shows "w = last (b # xs)"
proof (cases "w \<in> set (b # xs)")
  case True
  then show ?thesis using assms linked_next [of nx b xs p w] by (auto simp: linked_append)
next
  case False
  then have "w \<in> set (p # ys)" using assms(3) by auto
  then show ?thesis
    using assms linked_next [of nx p ys b w] linked_last [of nx p ys b] by (auto simp: linked_append)
qed

lemma take_whole:
  assumes l: "um_list base fs s" and fs: "fs = xs @ p # ys" and w: "w = last (base # xs)"
    and t: "t = s\<lparr>uptr := (uptr s)(w := uptr s p), freep := w\<rparr>"
  shows "um_list base (xs @ ys) t"
proof -
  have L: "linked (uptr s) base xs p" "linked (uptr s) p ys base" "sorted_wrt (apart s) (base # xs @ p # ys)"
    using l unfolding um_list_def fs linked_append by blast+
  have d: "distinct (base # xs @ p # ys)" by (rule apart_distinct [OF L(3)])
  have w': "w \<in> set (base # xs)" using last_in_set [of "base # xs"] w by simp
  have r: "linked (uptr t) base xs (uptr s p)" using linked_redirect [OF L(1)] d by (simp add: t w)
  have "linked (uptr t) base (xs @ ys) base"
  proof (cases ys)
    case Nil
    then show ?thesis using r L(2) by simp
  next
    case (Cons y zs)
    then have "w \<notin> set (y # zs)" using d w' by auto
    then show ?thesis using r L(2) Cons by (simp add: linked_append t)
  qed
  moreover have "sorted_wrt (apart t) (base # xs @ ys)"
    using L(3) apart_cong [of "base # xs @ ys" t s] by (auto simp: t sorted_wrt_append)
  ultimately show ?thesis using l w' by (auto simp: um_list_def t fs)
qed

lemma take_part:
  assumes l: "um_list base fs s" and p: "p \<in> set fs" "0 < k" "k < usize s p" and w: "w \<in> set (base # fs)"
    and t: "t = s\<lparr>usize := (usize s)(p := k, p + 8 * k := usize s p - k), freep := w\<rparr>"
  shows "um_list base fs t" "p + 8 * k \<notin> set (base # fs)" "area fs t \<union> span (p + 8 * k) (usize s p - k) = area fs s"
    "span (p + 8 * k) (usize s p - k) \<inter> area fs t = {}"
proof -
  obtain xs ys where fs: "fs = xs @ p # ys" using split_list [OF p(1)] by blast
  let ?q = "p + 8 * k"
  have L: "sorted_wrt (apart s) (base # xs @ p # ys)" using l by (simp only: um_list_def fs)
  have b: "base < p" using l p(1) by (auto simp: um_list_def)
  have lo: "x + 8 * usize s x < p" if "x \<in> set (base # xs)" for x using L that by (auto simp: sorted_wrt_append)
  have hi: "p + 8 * usize s p < y" if "y \<in> set ys" for y using L that by (auto simp: sorted_wrt_append)
  show q: "?q \<notin> set (base # fs)" using lo hi b p(2,3) by (force simp: fs)
  have same: "usize t x = usize s x" if "x \<in> set (base # fs)" "x \<noteq> p" for x using that q by (auto simp: t)
  have tp: "usize t p = k" using p(2) by (simp add: t)
  have d: "p \<notin> set (base # xs @ ys)" using apart_distinct [OF L] by auto
  have c: "sorted_wrt (apart t) (base # xs @ ys) = sorted_wrt (apart s) (base # xs @ ys)" "area xs t = area xs s" "area ys t = area ys s"
    using same d by (intro apart_cong area_cong; auto simp: fs)+
  have "sorted_wrt (apart s) (base # xs @ ys)" using L by (simp add: sorted_wrt_append)
  moreover have "x + 8 * usize t x < p" if "x \<in> set (base # xs)" for x
    using lo [OF that] same [of x] d that by (auto simp: fs)
  moreover have "p + 8 * usize t p < y" if "y \<in> set ys" for y using hi [OF that] tp p(3) by simp
  ultimately have "sorted_wrt (apart t) (base # xs @ p # ys)" using c(1) by (simp add: sorted_wrt_append)
  then show "um_list base fs t"
    using l w same tp p(2,3) by (auto simp: um_list_def fs t)
  have sp: "span p k \<union> span ?q (usize s p - k) = span p (usize s p)" using p(3) by auto
  then show "area fs t \<union> span ?q (usize s p - k) = area fs s" by (simp add: fs c tp Un_ac)
  have "span ?q (usize s p - k) \<inter> span f (usize t f) = {}" if f: "f \<in> set fs" for f
  proof (cases "f = p")
    case False
    then have "f + 8 * usize s f < p \<or> p + 8 * usize s p < f" using f lo hi by (auto simp: fs)
    then show ?thesis using same [of f] False f p(3) by auto
  qed (simp add: tp)
  then show "span ?q (usize s p - k) \<inter> area fs t = {}" unfolding area_def by blast
qed

text \<open>A new block cut out of the free area is disjoint from the blocks in use.\<close>

lemma used_insert:
  assumes u: "um_used base fs A s" and n: "0 < n"
    and t: "usize t a = n" "\<And>b. b \<notin> set fs \<Longrightarrow> b \<noteq> a \<Longrightarrow> usize t b = usize s b" "brk t = brk s" "base + 8 \<le> a" "a + 8 * n \<le> brk s"
    and ar: "area fs' t \<union> span a n = area fs s" "span a n \<inter> area fs' t = {}"
  shows "um_used base fs' (insert (a, n) A) t \<and> (\<forall>(b, m) \<in> A. span a n \<inter> span b m = {})"
proof -
  have A: "0 < m" "usize s b = m" "base + 8 \<le> b" "b + 8 * m \<le> brk s" "span b m \<inter> area fs s = {}" if "(b, m) \<in> A" for b m
    using u that by (auto simp: um_used_def)
  have dis: "span a n \<inter> span b m = {}" if "(b, m) \<in> A" for b m using ar(1) A(5) [OF that] by blast
  have nf: "b \<notin> set fs" if "(b, m) \<in> A" for b m
  proof
    assume "b \<in> set fs"
    then have "span b m \<subseteq> area fs s" using A(2) [OF that] by (auto simp: area_def)
    then show False using A(1,5) [OF that] by force
  qed
  have na: "b \<noteq> a" if "(b, m) \<in> A" for b m using dis [OF that] A(1) [OF that] n by force
  have "um_used base fs' (insert (a, n) A) t"
  proof (rule um_usedI)
    fix b m assume "(b, m) \<in> insert (a, n) A"
    then show "0 < m \<and> usize t b = m \<and> base + 8 \<le> b \<and> b + 8 * m \<le> brk t \<and> span b m \<inter> area fs' t = {}"
    proof (cases "(b, m) \<in> A")
      case True
      have "span b m \<inter> area fs' t = {}" using A(5) [OF True] ar(1) by blast
      then show ?thesis using A(1-4) [OF True] t(2) [OF nf [OF True] na [OF True]] t(3) by simp
    next
      case False
      then show ?thesis using \<open>(b, m) \<in> insert (a, n) A\<close> t(1,3-5) ar(2) n by simp
    qed
  next
    fix b m c k assume "(b, m) \<in> insert (a, n) A" "(c, k) \<in> insert (a, n) A" "b \<noteq> c"
    then show "span b m \<inter> span c k = {}"
      using u dis unfolding um_used_def by blast
  qed
  then show ?thesis using dis by blast
qed

lemma take_block_ok:
  assumes l: "um_list base fs s" and u: "um_used base fs A s" and n: "0 < n" "n \<le> usize s (uptr s w)"
    and w: "w \<in> set (base # fs)"
  shows "\<exists>a t fs'. take_block n w (uptr s w) s = (a + 8, t) \<and> um_list base fs' t \<and>
    um_used base fs' (insert (a, n) A) t \<and> (\<forall>(b, m) \<in> A. span a n \<inter> span b m = {})"
proof -
  let ?p = "uptr s w"
  have lk: "linked (uptr s) base fs base" "usize s base = 0" using l by (simp_all add: um_list_def)
  have "?p \<in> set fs \<or> ?p = base" using linked_next [OF lk(1) w] linked_last [OF lk(1)] by auto
  then have p: "?p \<in> set fs" using n lk(2) by auto
  obtain xs ys where fs: "fs = xs @ ?p # ys" using split_list [OF p] by blast
  have pb: "base + 8 \<le> ?p" "?p + 8 * usize s ?p \<le> brk s" using l p by (simp_all add: um_list_def)
  note new = used_insert [OF u n(1)]
  show ?thesis
  proof (cases "usize s ?p = n")
    case True
    have d: "distinct (base # fs)" using l apart_distinct by (metis um_list_def)
    have w': "w = last (base # xs)" using lk(1) d w unique_prev [of "uptr s" base xs ?p ys w] fs by metis
    let ?t = "s\<lparr>uptr := (uptr s)(w := uptr s ?p), freep := w\<rparr>"
    have "um_list base (xs @ ys) ?t" by (rule take_whole [OF l fs w' refl])
    moreover have "area (xs @ ys) ?t \<union> span ?p n = area fs s" using True by (subst fs) (simp add: area_def Un_ac)
    moreover have "span ?p n \<inter> span f (usize s f) = {}" if "f \<in> set (xs @ ys)" for f
    proof -
      have "sorted_wrt (apart s) (xs @ ?p # ys)" using l fs by (metis um_list_def sorted_wrt.simps(2))
      then have "f + 8 * usize s f < ?p \<or> ?p + 8 * usize s ?p < f" using that by (auto simp: sorted_wrt_append)
      then show ?thesis using True by auto
    qed
    then have "span ?p n \<inter> area (xs @ ys) s = {}" unfolding area_def by blast
    then have "span ?p n \<inter> area (xs @ ys) ?t = {}" by (simp add: area_def)
    ultimately have "um_list base (xs @ ys) ?t \<and> um_used base (xs @ ys) (insert (?p, n) A) ?t \<and> (\<forall>(b, m) \<in> A. span ?p n \<inter> span b m = {})"
      using new [of ?t ?p "xs @ ys"] pb True by simp
    moreover have "take_block n w ?p s = (?p + 8, ?t)" using True by (simp add: take_block_def)
    ultimately show ?thesis by blast
  next
    case False
    let ?k = "usize s ?p - n"
    let ?t = "s\<lparr>usize := (usize s)(?p := ?k, ?p + 8 * ?k := n), freep := w\<rparr>"
    have k: "0 < ?k" "?k < usize s ?p" "usize s ?p - ?k = n" using n False by auto
    note T = take_part [OF l p k(1,2) w refl, unfolded k(3)]
    have "?p + 8 * ?k + 8 * n = ?p + 8 * usize s ?p" using k by simp
    then have "um_used base fs (insert (?p + 8 * ?k, n) A) ?t \<and> (\<forall>(b, m) \<in> A. span (?p + 8 * ?k) n \<inter> span b m = {})"
      using pb p T(3,4) by (intro new) auto
    moreover have "take_block n w ?p s = (?p + 8 * ?k + 8, ?t)" using False by (simp add: take_block_def Let_def)
    ultimately show ?thesis using T(1) by blast
  qed
qed

lemma search:
  "linked (uptr s) prev rest (freep s) \<Longrightarrow> freep s \<notin> set rest \<Longrightarrow>
   (\<exists>w \<in> set (prev # rest). n \<le> usize s (uptr s w) \<and> malloc_loop grow n prev (uptr s prev) s = Some (take_block n w (uptr s w) s)) \<or>
   (\<forall>x \<in> set (rest @ [freep s]). usize s x < n) \<and> malloc_loop grow n prev (uptr s prev) s =
      Option.bind (morecore grow n s) (\<lambda>(p, s). if p = 0 then Some (0, s) else malloc_loop grow n p (uptr s p) s)"
proof (induction rest arbitrary: prev)
  case Nil
  then show ?case by (subst (1 2) malloc_loop.simps) auto
next
  case (Cons x rest)
  then have x: "uptr s prev = x" "linked (uptr s) x rest (freep s)" "x \<noteq> freep s" "freep s \<notin> set rest" by auto
  show ?case
  proof (cases "n \<le> usize s x")
    case True
    then have "malloc_loop grow n prev x s = Some (take_block n prev x s)" by (subst malloc_loop.simps) simp
    then show ?thesis using True x(1) by auto
  next
    case False
    then have "malloc_loop grow n prev x s = malloc_loop grow n x (uptr s x) s"
      using x(3) by (subst malloc_loop.simps) simp
    then show ?thesis using Cons.IH [OF x(2,4)] x(1) False by auto
  qed
qed

lemma um_ring:
  assumes l: "um_list base fs s"
  obtains rest where "linked (uptr s) (freep s) rest (freep s)" "set (freep s # rest) = set (base # fs)" "freep s \<notin> set rest"
proof -
  have L: "linked (uptr s) base fs base" "freep s \<in> set (base # fs)" "sorted_wrt (apart s) (base # fs)"
    using l unfolding um_list_def by blast+
  have d: "distinct (base # fs)" by (rule apart_distinct [OF L(3)])
  show thesis
  proof (cases "freep s = base")
    case True
    then show ?thesis using that [of fs] L(1) d by simp
  next
    case False
    then obtain us vs where fs: "fs = us @ freep s # vs" using L(2) split_list by force
    show ?thesis
    proof (rule that [of "vs @ base # us"])
      show "linked (uptr s) (freep s) (vs @ base # us) (freep s)" using L(1) fs by (metis linked_append)
      show "set (freep s # vs @ base # us) = set (base # fs)" unfolding fs by auto
      show "freep s \<notin> set (vs @ base # us)" using d False unfolding fs by auto
    qed
  qed
qed

lemma alloc_ok:
  assumes l: "um_list base fs s" and u: "um_used base fs A s" and n: "0 < n" "8 * core_units n < 2 ^ 31"
    and g: "below_kernbase grow"
  shows "(\<exists>a t fs'. malloc_loop grow n (freep s) (uptr s (freep s)) s = Some (a + 8, t) \<and> um_list base fs' t \<and>
      um_used base fs' (insert (a, n) A) t \<and> (\<forall>(b, m) \<in> A. span a n \<inter> span b m = {})) \<or>
    malloc_loop grow n (freep s) (uptr s (freep s)) s = Some (0, s) \<and> \<not> grow (brk s) (8 * core_units n) \<and>
      (\<forall>x \<in> set fs. usize s x < n)"
proof -
  obtain rest where r: "linked (uptr s) (freep s) rest (freep s)" "set (freep s # rest) = set (base # fs)" "freep s \<notin> set rest"
    using um_ring [OF l] .
  have eq: "set (rest @ [freep s]) = set (base # fs)" using r(2) by auto
  show ?thesis using search [OF r(1,3), of n grow]
  proof (elim disjE bexE conjE)
    fix w assume w: "w \<in> set (freep s # rest)" "n \<le> usize s (uptr s w)"
      "malloc_loop grow n (freep s) (uptr s (freep s)) s = Some (take_block n w (uptr s w) s)"
    have wb: "w \<in> set (base # fs)" using w(1) r(2) by blast
    show ?thesis using take_block_ok [OF l u n(1) w(2) wb] unfolding w(3) by (intro disjI1) simp
  next
    assume small: "\<forall>x \<in> set (rest @ [freep s]). usize s x < n" and m: "malloc_loop grow n (freep s) (uptr s (freep s)) s =
      Option.bind (morecore grow n s) (\<lambda>(p, s). if p = 0 then Some (0, s) else malloc_loop grow n p (uptr s p) s)"
    show ?thesis using morecore_ok [OF l u g n(2)]
    proof (elim disjE exE conjE bexE)
      fix t fs' x assume t: "morecore grow n s = Some (freep t, t)" "um_list base fs' t" "um_used base fs' A t"
        "x \<in> set fs'" "n \<le> usize t x"
      obtain rt where q: "linked (uptr t) (freep t) rt (freep t)" "set (freep t # rt) = set (base # fs')" "freep t \<notin> set rt"
        using um_ring [OF t(2)] .
      have "0 < freep t" using t(2) by (auto simp: um_list_def)
      then have m': "malloc_loop grow n (freep s) (uptr s (freep s)) s = malloc_loop grow n (freep t) (uptr t (freep t)) t"
        using m t(1) by simp
      have "\<not> (\<forall>x \<in> set (rt @ [freep t]). usize t x < n)" using t(4,5) q(2) by force
      then obtain w where w: "w \<in> set (base # fs')" "n \<le> usize t (uptr t w)"
        "malloc_loop grow n (freep t) (uptr t (freep t)) t = Some (take_block n w (uptr t w) t)"
        using search [OF q(1,3), of n grow] q(2) by metis
      show ?thesis using take_block_ok [OF t(2,3) n(1) w(2,1)] unfolding m' w(3) by (intro disjI1) simp
    next
      assume "\<not> grow (brk s) (8 * core_units n)" "morecore grow n s = Some (0, s)"
      moreover have "\<forall>x \<in> set fs. usize s x < n" using small unfolding eq by simp
      ultimately show ?thesis using m by simp
    qed
  qed
qed

lemma units_fit:
  assumes "nbytes + 16 \<le> 2 ^ 31"
  shows "0 < units nbytes" "8 * core_units (units nbytes) < 2 ^ 31" "nbytes \<le> 8 * (units nbytes - 1)"
proof -
  define q where "q = (nbytes + 7) div 8"
  have u: "units nbytes = q + 1" using assms by (simp add: units_def q_def)
  have q: "8 * q \<le> nbytes + 7" "nbytes + 7 < 8 * q + 8" unfolding q_def by presburger+
  show "0 < units nbytes" "nbytes \<le> 8 * (units nbytes - 1)" using u q by auto
  show "8 * core_units (units nbytes) < 2 ^ 31" using u q assms by (simp add: core_units_def)
qed

lemma malloc_ok:
  assumes "um_inv base A s" "nbytes + 16 \<le> 2 ^ 31" "below_kernbase grow"
  shows "\<exists>p t. malloc base grow nbytes s = Some (p, t) \<and>
    (if p = 0 then um_inv base A t \<and> \<not> grow (brk s) (8 * core_units (units nbytes))
     else \<exists>a n. p = a + 8 \<and> um_inv base (insert (a, n) A) t \<and> nbytes \<le> 8 * (n - 1) \<and>
       (\<forall>(b, m) \<in> A. span a n \<inter> span b m = {}))"
proof -
  define s' where "s' = (if freep s = 0 then s\<lparr>uptr := (uptr s)(base := base), usize := (usize s)(base := 0), freep := base\<rparr> else s)"
  have m: "malloc base grow nbytes s = malloc_loop grow (units nbytes) (freep s') (uptr s' (freep s')) s'"
    by (simp add: malloc_def s'_def Let_def)
  have b: "brk s' = brk s" by (simp add: s'_def)
  obtain fs where fs: "um_list base fs s'" "um_used base fs A s'"
  proof (cases "freep s = 0")
    case True
    moreover have "\<not> um_list base fs s" for fs using True by (auto simp: um_list_def)
    ultimately have "um_list base [] s'" "um_used base [] A s'"
      using assms(1) by (auto simp: um_inv_def s'_def um_list_def um_used_def)
    then show ?thesis by (rule that)
  next
    case False
    then show ?thesis using assms(1) that by (auto simp: um_inv_def s'_def)
  qed
  show ?thesis
    using alloc_ok [OF fs units_fit(1,2) [OF assms(2)] assms(3)]
  proof (elim disjE exE conjE)
    fix a t fs' assume t: "malloc_loop grow (units nbytes) (freep s') (uptr s' (freep s')) s' = Some (a + 8, t)"
      "um_list base fs' t" "um_used base fs' (insert (a, units nbytes) A) t" "\<forall>(b, c) \<in> A. span a (units nbytes) \<inter> span b c = {}"
    then have "um_inv base (insert (a, units nbytes) A) t" by (auto simp: um_inv_def)
    then show ?thesis using t(1,4) m units_fit(3) [OF assms(2)] by auto
  next
    assume "malloc_loop grow (units nbytes) (freep s') (uptr s' (freep s')) s' = Some (0, s')"
      "\<not> grow (brk s') (8 * core_units (units nbytes))"
    then show ?thesis using m b fs by (auto simp: um_inv_def)
  qed
qed


section \<open>Programs that allocate and free\<close>

text \<open>
  A program calls \<^verbatim>\<open>malloc\<close>, or \<^verbatim>\<open>free\<close> on a pointer it got and has not freed; \<open>A\<close> are the blocks it holds.
\<close>

datatype um_op = Malloc nat | Free nat

fun um_exec :: "nat \<Rightarrow> (nat \<Rightarrow> nat \<Rightarrow> bool) \<Rightarrow> um_op \<Rightarrow> (nat \<times> nat) set \<times> um_st \<Rightarrow> ((nat \<times> nat) set \<times> um_st) option" where
  "um_exec base grow (Malloc nbytes) (A, s) =
     (case malloc base grow nbytes s of None \<Rightarrow> None
      | Some (p, t) \<Rightarrow> Some (if p = 0 then A else insert (p - 8, usize t (p - 8)) A, t))"
| "um_exec base grow (Free p) (A, s) =
     (case free p s of None \<Rightarrow> None | Some t \<Rightarrow> Some (A - {(p - 8, usize s (p - 8))}, t))"

fun um_legal :: "um_op \<Rightarrow> (nat \<times> nat) set \<times> um_st \<Rightarrow> bool" where
  "um_legal (Malloc nbytes) (A, s) \<longleftrightarrow> nbytes + 16 \<le> 2 ^ 31"
| "um_legal (Free p) (A, s) \<longleftrightarrow> 8 \<le> p \<and> (p - 8, usize s (p - 8)) \<in> A"

fun um_run :: "nat \<Rightarrow> (nat \<Rightarrow> nat \<Rightarrow> bool) \<Rightarrow> um_op list \<Rightarrow> (nat \<times> nat) set \<times> um_st \<Rightarrow> ((nat \<times> nat) set \<times> um_st) option" where
  "um_run base grow [] c = Some c"
| "um_run base grow (e # es) c = (case um_exec base grow e c of None \<Rightarrow> None | Some c' \<Rightarrow> um_run base grow es c')"

fun um_legals :: "nat \<Rightarrow> (nat \<Rightarrow> nat \<Rightarrow> bool) \<Rightarrow> um_op list \<Rightarrow> (nat \<times> nat) set \<times> um_st \<Rightarrow> bool" where
  "um_legals base grow [] c \<longleftrightarrow> True"
| "um_legals base grow (e # es) c \<longleftrightarrow> um_legal e c \<and>
     (case um_exec base grow e c of None \<Rightarrow> True | Some c' \<Rightarrow> um_legals base grow es c')"

lemma um_exec_ok:
  assumes "um_inv base A s" "um_legal e (A, s)" "below_kernbase grow"
  shows "\<exists>A' t. um_exec base grow e (A, s) = Some (A', t) \<and> um_inv base A' t"
proof (cases e)
  case (Malloc nbytes)
  have n: "nbytes + 16 \<le> 2 ^ 31" using assms(2) Malloc by simp
  obtain p t where m: "malloc base grow nbytes s = Some (p, t)" "if p = 0 then um_inv base A t \<and> \<not> grow (brk s) (8 * core_units (units nbytes))
     else \<exists>a n. p = a + 8 \<and> um_inv base (insert (a, n) A) t \<and> nbytes \<le> 8 * (n - 1) \<and> (\<forall>(b, m) \<in> A. span a n \<inter> span b m = {})"
    using malloc_ok [OF assms(1) n assms(3)] by blast
  show ?thesis
  proof (cases "p = 0")
    case False
    then obtain a n where a: "p = a + 8" "um_inv base (insert (a, n) A) t" using m(2) by auto
    then have "usize t a = n" by (auto simp: um_inv_def um_used_def)
    then show ?thesis using m(1) a Malloc by simp
  qed (use m Malloc in simp)
next
  case (Free p)
  let ?a = "p - 8"
  have p: "p = ?a + 8" "(?a, usize s ?a) \<in> A" using assms(2) Free by auto
  then obtain fs where fs: "um_list base fs s" "um_used base fs A s" using assms(1) by (auto simp: um_inv_def)
  show ?thesis using free_ok [OF fs p(2)] p(1) Free by (auto simp: um_inv_def)
qed

lemma um_run_ok:
  "um_inv base A s \<Longrightarrow> um_legals base grow es (A, s) \<Longrightarrow> below_kernbase grow \<Longrightarrow>
   \<exists>A' t. um_run base grow es (A, s) = Some (A', t) \<and> um_inv base A' t"
proof (induction es arbitrary: A s)
  case (Cons e es)
  then obtain A' t where "um_exec base grow e (A, s) = Some (A', t)" "um_inv base A' t"
    using um_exec_ok by (metis um_legals.simps(2))
  then show ?case using Cons by simp
qed simp

section \<open>Properties\<close>

text \<open>
  C39. Whatever blocks are in use, \<^verbatim>\<open>malloc\<close> returns on every request of at most \<open>2 ^ 31 - 16\<close> bytes. It either returns a pointer behind the header of a new
  block whose payload has room for the bytes asked for and which overlaps no block in use, and keeps the
  invariant of the allocator, or it returns null, which happens only when the kernel refuses to
  grow the process.
\<close>

theorem malloc_returns_fresh_block:
  assumes "um_inv base A s" "nbytes + 16 \<le> 2 ^ 31" "below_kernbase grow"
  shows "\<exists>p t. malloc base grow nbytes s = Some (p, t) \<and>
    (if p = 0 then um_inv base A t \<and> \<not> grow (brk s) (8 * core_units (units nbytes))
     else \<exists>a n. p = a + 8 \<and> um_inv base (insert (a, n) A) t \<and> nbytes \<le> 8 * (n - 1) \<and>
       (\<forall>(b, m) \<in> A. span a n \<inter> span b m = {}))"
  by (rule malloc_ok [OF assms])

text \<open>
  C38. A program that makes any sequence of \<^verbatim>\<open>malloc\<close> calls and of \<^verbatim>\<open>free\<close> calls on pointers it
  holds is never caught in a loop of the allocator, and at the end any two blocks it holds are disjoint
  and inside the process.
\<close>

theorem allocator_keeps_blocks_apart:
  assumes "freep s = 0" "0 < base" "base + 8 \<le> brk s" "brk s < 2 ^ 31" "below_kernbase grow"
    and "um_legals base grow es ({}, s)"
  shows "\<exists>A t. um_run base grow es ({}, s) = Some (A, t) \<and> (\<forall>(a, n) \<in> A. a + 8 * n \<le> brk t \<and> usize t a = n) \<and>
    (\<forall>(a, n) \<in> A. \<forall>(b, m) \<in> A. a \<noteq> b \<longrightarrow> span a n \<inter> span b m = {})"
proof -
  have "um_inv base {} s" using assms by (simp add: um_inv_def)
  from um_run_ok [OF this assms(6,5)] obtain A t where "um_run base grow es ({}, s) = Some (A, t)" "um_inv base A t" by blast
  then show ?thesis by (intro exI [of _ A] exI [of _ t]) (auto simp: um_inv_def um_used_def)
qed

text \<open>
  The size computation wraps: a request within seven bytes of \<open>2 ^ 32\<close> is rounded to a single unit, the
  header alone, and \<^verbatim>\<open>malloc\<close> hands out a block with no payload.
\<close>

lemma units_wrap: "2 ^ 32 - 7 \<le> nbytes \<Longrightarrow> nbytes < 2 ^ 32 \<Longrightarrow> units nbytes = 1"
proof -
  assume n: "2 ^ 32 - 7 \<le> nbytes" "nbytes < 2 ^ 32"
  define d where "d = nbytes + 7 - 2 ^ 32"
  have d: "nbytes + 8 - 1 = d + 2 ^ 32" "d < 7" using n by (simp_all add: d_def)
  then show "units nbytes = 1" unfolding units_def d(1) by simp
qed

definition run_um :: um_st where
  "run_um = \<lparr>uptr = \<lambda>_. 0, usize = \<lambda>_. 0, freep = 0, brk = 0x4000\<rparr>"

definition run_grow :: "nat \<Rightarrow> nat \<Rightarrow> bool" where
  "run_grow b k \<longleftrightarrow> b + k < 0x1000000"

theorem malloc_returns_fresh_block_witness:
  "\<exists>p t. malloc 0x1000 run_grow 100 run_um = Some (p, t) \<and> p \<noteq> 0 \<and> (\<exists>n. um_inv 0x1000 {(p - 8, n)} t \<and> 100 \<le> 8 * (n - 1))"
proof -
  have u: "um_inv 0x1000 {} run_um" "below_kernbase run_grow" by (simp_all add: um_inv_def run_um_def below_kernbase_def run_grow_def)
  have "run_grow (brk run_um) (8 * core_units (units 100))" by (simp add: run_grow_def run_um_def core_units_def units_def)
  then show ?thesis using malloc_returns_fresh_block [OF u(1) _ u(2), of 100] by (fastforce split: if_splits)
qed

theorem allocator_keeps_blocks_apart_witness:
  "\<exists>A t. um_run 0x1000 run_grow [Malloc 100, Malloc 50, Free 49048, Malloc 20] ({}, run_um) = Some (A, t)"
proof -
  have l: "um_legals 0x1000 run_grow [Malloc 100, Malloc 50, Free 49048, Malloc 20] ({}, run_um)"
    by (simp add: malloc_def malloc_loop.simps run_um_def units_def morecore_def sbrk_def run_grow_def free_def free_find.simps
      join_upper_def join_lower_def take_block_def)
  have g: "below_kernbase run_grow" by (simp add: below_kernbase_def run_grow_def)
  have r: "freep run_um = 0" "(0 :: nat) < 0x1000" "0x1000 + 8 \<le> brk run_um" "brk run_um < 2 ^ 31" by (simp_all add: run_um_def)
  show ?thesis using allocator_keeps_blocks_apart [OF r g l] by blast
qed

end
