(* ===== verification/Mp.thy ===== *)
theory Mp
  imports Console CString
begin

text \<open>
  Detection of the processors (\<^verbatim>\<open>mp.c\<close>, structures of \<^verbatim>\<open>mp.h\<close>): the search for the floating pointer
  structure, the checks of the configuration table and the walk over its entries. The memory the
  firmware left is a function from kernel virtual addresses to bytes. The walk is a partial
  function, because it does not advance past an entry of unknown type.
\<close>

section \<open>The tables\<close>

definition MPPROC :: byte where "MPPROC = 0"
definition MPBUS :: byte where "MPBUS = 1"
definition MPIOAPIC :: byte where "MPIOAPIC = 2"
definition MPIOINTR :: byte where "MPIOINTR = 3"
definition MPLINTR :: byte where "MPLINTR = 4"

definition NCPU :: nat where "NCPU = 8"

text \<open>Sizes of the structures: \<^verbatim>\<open>struct mp\<close>, \<^verbatim>\<open>struct mpconf\<close>, \<^verbatim>\<open>struct mpproc\<close>, \<^verbatim>\<open>struct mpioapic\<close>.\<close>

definition MP_SIZE :: nat where "MP_SIZE = 16"
definition MPCONF_SIZE :: nat where "MPCONF_SIZE = 44"
definition MPPROC_SIZE :: nat where "MPPROC_SIZE = 20"
definition MPIOAPIC_SIZE :: nat where "MPIOAPIC_SIZE = 8"

lemmas mp_defs = MPPROC_def MPBUS_def MPIOAPIC_def MPIOINTR_def MPLINTR_def MP_SIZE_def MPCONF_SIZE_def MPPROC_SIZE_def MPIOAPIC_SIZE_def

definition load16 :: "view \<Rightarrow> nat \<Rightarrow> nat" where
  "load16 m a = unat (m a) + 256 * unat (m (a + 1))"

section \<open>Search and checks\<close>

definition mpsum :: "view \<Rightarrow> nat \<Rightarrow> nat \<Rightarrow> byte" where
  "mpsum m addr len = foldl (\<lambda>s i. s + m (addr + i)) 0 [0..<len]"

definition sig_at :: "view \<Rightarrow> nat \<Rightarrow> string \<Rightarrow> bool" where
  "sig_at m p sig \<longleftrightarrow> memcmp (\<lambda>i. m (p + i)) (\<lambda>i. ascii sig ! i) 4 = 0"

function mpsearch1_loop :: "view \<Rightarrow> nat \<Rightarrow> nat \<Rightarrow> nat option" where
  "mpsearch1_loop m p e =
     (if p < e then
        if sig_at m p ''_MP_'' \<and> mpsum m p MP_SIZE = 0 then Some p else mpsearch1_loop m (p + MP_SIZE) e
      else None)"
  by auto
termination
  by (relation "measure (\<lambda>(m, p, e). e - p)") (auto simp: MP_SIZE_def)

declare mpsearch1_loop.simps [simp del]

definition mpsearch1 :: "view \<Rightarrow> nat \<Rightarrow> nat \<Rightarrow> nat option" where
  "mpsearch1 m a len = mpsearch1_loop m (P2V a) (P2V a + len)"

definition mpsearch :: "view \<Rightarrow> nat option" where
  "mpsearch m =
     (let bda = P2V 0x400;
          p = load16 m (bda + 0x0E) * 16;
          rom = mpsearch1 m 0xF0000 0x10000
      in if p \<noteq> 0 then (case mpsearch1 m p 1024 of Some mp \<Rightarrow> Some mp | None \<Rightarrow> rom)
         else
           let p = load16 m (bda + 0x13) * 1024
           in case mpsearch1 m ((p + 2 ^ 32 - 1024) mod 2 ^ 32) 1024 of Some mp \<Rightarrow> Some mp | None \<Rightarrow> rom)"

text \<open>\<^verbatim>\<open>mpconfig\<close>: the addresses of the pointer structure and of the table.\<close>

definition mpconfig :: "view \<Rightarrow> (nat \<times> nat) option" where
  "mpconfig m =
     (case mpsearch m of
        None \<Rightarrow> None
      | Some mp \<Rightarrow>
          if ld32 m (mp + 4) = 0 then None
          else let conf = P2V (ld32 m (mp + 4)) in
            if \<not> sig_at m conf ''PCMP'' then None
            else if m (conf + 6) \<noteq> 1 \<and> m (conf + 6) \<noteq> 4 then None
            else if mpsum m conf (load16 m (conf + 4)) \<noteq> 0 then None
            else Some (mp, conf))"

section \<open>The walk over the table\<close>

record mp_st =
  mp_cpus :: "byte list"
  mp_ioapicid :: byte
  mp_lapic :: nat
  mp_ismp :: bool
  mp_imcr :: bool

partial_function (option) mp_walk :: "view \<Rightarrow> nat \<Rightarrow> nat \<Rightarrow> mp_st \<Rightarrow> mp_st option" where
  "mp_walk m p e s =
     (if p < e then
        if m p = MPPROC then
          mp_walk m (p + MPPROC_SIZE) e (if length (mp_cpus s) < NCPU then s\<lparr>mp_cpus := mp_cpus s @ [m (p + 1)]\<rparr> else s)
        else if m p = MPIOAPIC then mp_walk m (p + MPIOAPIC_SIZE) e (s\<lparr>mp_ioapicid := m (p + 1)\<rparr>)
        else if m p = MPBUS \<or> m p = MPIOINTR \<or> m p = MPLINTR then mp_walk m (p + 8) e s
        else mp_walk m p e (s\<lparr>mp_ismp := False\<rparr>)
      else Some s)"

text \<open>
  \<^verbatim>\<open>mpinit\<close> with no processor recorded before; \<open>None\<close> when the walk does not end. The field
  \<open>mp_imcr\<close> tells whether the interrupt mode register is written.
\<close>

definition mpinit :: "view \<Rightarrow> mp_st res option" where
  "mpinit m =
     (case mpconfig m of
        None \<Rightarrow> Some (Panic ''Expect to run on an SMP'')
      | Some (mp, conf) \<Rightarrow>
          (case mp_walk m (conf + MPCONF_SIZE) (conf + load16 m (conf + 4))
             \<lparr>mp_cpus = [], mp_ioapicid = 0, mp_lapic = ld32 m (conf + 36), mp_ismp = True, mp_imcr = False\<rparr> of
             None \<Rightarrow> None
           | Some s \<Rightarrow>
               Some (if \<not> mp_ismp s then Panic ''Didn't find a suitable machine''
                     else Ok (s\<lparr>mp_imcr := m (mp + 12) \<noteq> 0\<rparr>))))"

section \<open>What the walk computes\<close>

text \<open>A table as a list of entries, with the bytes of each.\<close>

datatype mpentry = Cpu byte "byte list" | Ioapic byte "byte list" | Other byte "byte list"

fun enc_entry :: "mpentry \<Rightarrow> byte list" where
  "enc_entry (Cpu i r) = MPPROC # i # r"
| "enc_entry (Ioapic i r) = MPIOAPIC # i # r"
| "enc_entry (Other t r) = t # r"

fun good_entry :: "mpentry \<Rightarrow> bool" where
  "good_entry (Cpu i r) \<longleftrightarrow> length r = 18"
| "good_entry (Ioapic i r) \<longleftrightarrow> length r = 6"
| "good_entry (Other t r) \<longleftrightarrow> (t = MPBUS \<or> t = MPIOINTR \<or> t = MPLINTR) \<and> length r = 7"

fun cpu_ids :: "mpentry list \<Rightarrow> byte list" where
  "cpu_ids [] = []"
| "cpu_ids (Cpu i r # es) = i # cpu_ids es"
| "cpu_ids (_ # es) = cpu_ids es"

definition holds_bytes :: "view \<Rightarrow> nat \<Rightarrow> byte list \<Rightarrow> bool" where
  "holds_bytes m p bs \<longleftrightarrow> (\<forall>i < length bs. m (p + i) = bs ! i)"

lemma holds_bytes_Nil [simp]: "holds_bytes m p []"
  by (simp add: holds_bytes_def)

lemma holds_bytes_append [simp]:
  "holds_bytes m p (as @ bs) \<longleftrightarrow> holds_bytes m p as \<and> holds_bytes m (p + length as) bs"
proof
  assume h: "holds_bytes m p (as @ bs)"
  have "m (p + i) = as ! i" if "i < length as" for i using h that by (auto simp: holds_bytes_def nth_append dest!: spec [of _ i])
  moreover have "m (p + length as + i) = bs ! i" if "i < length bs" for i
    using h that by (auto simp: holds_bytes_def nth_append add.assoc dest!: spec [of _ "length as + i"])
  ultimately show "holds_bytes m p as \<and> holds_bytes m (p + length as) bs" by (simp add: holds_bytes_def)
next
  assume h: "holds_bytes m p as \<and> holds_bytes m (p + length as) bs"
  have "m (p + i) = (as @ bs) ! i" if "i < length (as @ bs)" for i
  proof (cases "i < length as")
    case False
    then have "m (p + length as + (i - length as)) = bs ! (i - length as)"
      using h that unfolding holds_bytes_def by (auto dest!: spec [of _ "i - length as"])
    then show ?thesis using False by (simp add: nth_append)
  qed (use h in \<open>simp add: holds_bytes_def nth_append\<close>)
  then show "holds_bytes m p (as @ bs)" by (simp add: holds_bytes_def)
qed

lemma holds_bytes_Cons [simp]: "holds_bytes m p (b # bs) \<longleftrightarrow> m p = b \<and> holds_bytes m (p + 1) bs"
  using holds_bytes_append [of m p "[b]" bs] by (simp add: holds_bytes_def One_nat_def)

lemma mp_walk_end [simp]: "mp_walk m e e s = Some s"
  by (subst mp_walk.simps) simp

lemma mp_walk_step:
  assumes "good_entry x" "holds_bytes m p (enc_entry x)" "p < e"
  shows "mp_walk m p e s = mp_walk m (p + length (enc_entry x)) e
    (case x of Cpu i r \<Rightarrow> if length (mp_cpus s) < NCPU then s\<lparr>mp_cpus := mp_cpus s @ [i]\<rparr> else s
     | Ioapic i r \<Rightarrow> s\<lparr>mp_ioapicid := i\<rparr> | Other t r \<Rightarrow> s)"
  using assms by (subst mp_walk.simps) (cases x; force simp: mp_defs One_nat_def)

lemma mp_walk_table:
  assumes "\<forall>x \<in> set es. good_entry x" "holds_bytes m p (concat (map enc_entry es))" "length (mp_cpus s) \<le> NCPU"
    "e = p + length (concat (map enc_entry es))"
  shows "\<exists>s'. mp_walk m p e s = Some s' \<and>
    mp_cpus s' = take NCPU (mp_cpus s @ cpu_ids es) \<and> mp_ismp s' = mp_ismp s \<and> mp_lapic s' = mp_lapic s"
  using assms
proof (induction es arbitrary: p s)
  case Nil
  then show ?case by simp
next
  case (Cons x es)
  let ?q = "p + length (enc_entry x)"
  have g: "\<forall>x \<in> set es. good_entry x" "holds_bytes m ?q (concat (map enc_entry es))"
    "holds_bytes m p (enc_entry x)" "good_entry x" "e = ?q + length (concat (map enc_entry es))" using Cons.prems by simp_all
  have "p < e" using g(5) by (cases x) simp_all
  note step = mp_walk_step [OF g(4,3) this, of s]
  show ?case
  proof (cases x)
    case (Cpu i r)
    let ?s = "if length (mp_cpus s) < NCPU then s\<lparr>mp_cpus := mp_cpus s @ [i]\<rparr> else s"
    have "length (mp_cpus ?s) \<le> NCPU" using Cons.prems(3) by simp
    from Cons.IH [OF g(1,2) this g(5)] show ?thesis
      using step Cpu Cons.prems(3) by (auto simp: take_Cons' One_nat_def)
  next
    case (Ioapic i r)
    then show ?thesis using Cons.IH [OF g(1,2) _ g(5), of "s\<lparr>mp_ioapicid := i\<rparr>"] step Cons.prems(3) by simp
  next
    case (Other t r)
    then show ?thesis using Cons.IH [OF g(1,2) _ g(5), of s] step Cons.prems(3) by simp
  qed
qed

lemma mp_walk_Some:
  assumes "mp_walk m p e s = Some r"
  shows "e \<le> p \<or> m p \<in> {MPPROC, MPBUS, MPIOAPIC, MPIOINTR, MPLINTR}"
  using assms
proof (rule mp_walk.raw_induct [where P = "\<lambda>m p e s r. e \<le> p \<or> m p \<in> {MPPROC, MPBUS, MPIOAPIC, MPIOINTR, MPLINTR}", rotated], goal_cases)
  case (1 f m p e s r)
  show ?case
  proof (rule ccontr)
    assume n: "\<not> (e \<le> p \<or> m p \<in> {MPPROC, MPBUS, MPIOAPIC, MPIOINTR, MPLINTR})"
    then have "f m p e (s\<lparr>mp_ismp := False\<rparr>) = Some r" using 1(2) by simp
    from 1(1) [OF this] n show False by simp
  qed
qed

lemma mp_walk_stuck:
  assumes "p < e" "m p \<notin> {MPPROC, MPBUS, MPIOAPIC, MPIOINTR, MPLINTR}"
  shows "mp_walk m p e s = None"
  using mp_walk_Some [of m p e s] assms by (cases "mp_walk m p e s") auto

text \<open>The walk gets past any sequence of well-formed entries.\<close>

lemma mp_walk_prefix:
  assumes "\<forall>x \<in> set es. good_entry x" "holds_bytes m p (concat (map enc_entry es))" "p + length (concat (map enc_entry es)) \<le> e"
  shows "\<exists>s'. mp_walk m p e s = mp_walk m (p + length (concat (map enc_entry es))) e s'"
  using assms
proof (induction es arbitrary: p s)
  case Nil
  then show ?case by auto
next
  case (Cons x es)
  let ?q = "p + length (enc_entry x)"
  have g: "\<forall>x \<in> set es. good_entry x" "holds_bytes m ?q (concat (map enc_entry es))" "?q + length (concat (map enc_entry es)) \<le> e"
    "holds_bytes m p (enc_entry x)" "good_entry x" using Cons.prems by simp_all
  have "p < e" using g(3) by (cases x) simp_all
  then show ?case using mp_walk_step [OF g(5,4)] Cons.IH [OF g(1-3)] by (simp add: add.assoc)
qed

text \<open>
  C35. When the table of a machine is a sequence of well-formed entries, \<^verbatim>\<open>mpinit\<close> returns with the
  identifiers of the first \<^verbatim>\<open>NCPU\<close> processors of the table, in their order.
\<close>

theorem mpinit_collects_processors:
  assumes "mpconfig m = Some (mp, conf)" "\<forall>x \<in> set es. good_entry x"
    and "holds_bytes m (conf + MPCONF_SIZE) (concat (map enc_entry es))"
    and "load16 m (conf + 4) = MPCONF_SIZE + length (concat (map enc_entry es))"
  shows "\<exists>s. mpinit m = Some (Ok s) \<and> mp_cpus s = take NCPU (cpu_ids es) \<and> mp_lapic s = ld32 m (conf + 36)"
  using mp_walk_table [OF assms(2,3), of "\<lparr>mp_cpus = [], mp_ioapicid = 0, mp_lapic = ld32 m (conf + 36), mp_ismp = True, mp_imcr = False\<rparr>"
      "conf + load16 m (conf + 4)"] assms
  by (auto simp: mpinit_def)

text \<open>A firmware image: the pointer structure in the first kilobyte of the extended BIOS data area.\<close>

definition pointer_bytes :: "byte list" where
  "pointer_bytes = ascii ''_MP_'' @ [0, 0, 0xA, 0, 1, 4, 0x96, 0, 0, 0, 0, 0]"

definition firmware :: "byte list \<Rightarrow> view" where
  "firmware table a =
     (if a = P2V 0x40F then 0x90
      else if P2V 0x90000 \<le> a \<and> a < P2V 0x90010 then
        pointer_bytes ! (a - P2V 0x90000)
      else if P2V 0xA0000 \<le> a \<and> a < P2V 0xA0000 + length table then table ! (a - P2V 0xA0000)
      else 0)"

definition conf_header :: "byte \<Rightarrow> byte \<Rightarrow> byte list" where
  "conf_header len chk = ascii ''PCMP'' @ [len, 0, 4, chk] @ replicate 28 0 @ [0, 0, 0xE0, 0xFE] @ replicate 4 0"

definition one_cpu :: "byte list" where
  "one_cpu = conf_header 64 0xA7 @ enc_entry (Cpu 7 (replicate 18 0))"

definition odd_entry :: "byte list" where
  "odd_entry = conf_header 65 0x9D @ enc_entry (Cpu 7 (replicate 18 0)) @ [9]"

lemma mpsum_holds: "holds_bytes m p bs \<Longrightarrow> mpsum m p (length bs) = foldl (+) 0 bs"
proof -
  assume h: "holds_bytes m p bs"
  have "foldl (\<lambda>s i. s + m (p + i)) x [0..<length bs] = foldl (+) x bs" for x
    using h
  proof (induction bs arbitrary: x rule: rev_induct)
    case (snoc b bs)
    then show ?case by simp
  qed simp
  then show ?thesis by (simp add: mpsum_def)
qed

lemma memcmp_equal: "(\<And>i. i < n \<Longrightarrow> s1 i = s2 i) \<Longrightarrow> memcmp s1 s2 n = 0"
  by (induction n arbitrary: s1 s2) auto

lemma sig_holds: "holds_bytes m p (ascii sig @ bs) \<Longrightarrow> length sig = 4 \<Longrightarrow> sig_at m p sig"
  unfolding sig_at_def by (rule memcmp_equal) (simp add: holds_bytes_def ascii_def nth_append)

lemma pointer_length: "length pointer_bytes = 16"
  by (simp add: pointer_bytes_def ascii_def)

lemma firmware_addrs:
  "P2V 0x40F = 0x8000040F" "P2V 0x90000 = 0x80090000" "P2V 0x90010 = 0x80090010" "P2V 0xA0000 = 0x800A0000" "P2V 0x400 = 0x80000400"
  by (simp_all add: P2V_def KERNBASE_def One_nat_def)

lemma firmware_holds:
  "holds_bytes (firmware t) 0x80090000 pointer_bytes" "holds_bytes (firmware t) 0x800A0000 t"
  unfolding holds_bytes_def pointer_length firmware_def firmware_addrs by simp_all

lemma firmware_config:
  assumes "t = conf_header len chk @ rest" "length t = unat len" "foldl (+) 0 t = 0"
  shows "mpconfig (firmware t) = Some (0x80090000, 0x800A0000)"
proof -
  let ?m = "firmware t"
  have f: "?m 0x8000040E = 0" "?m 0x8000040F = 0x90"
    by (simp_all add: firmware_def firmware_addrs)
  have s: "sig_at ?m 0x80090000 ''_MP_''" using firmware_holds(1) [of t] unfolding pointer_bytes_def by (rule sig_holds) simp
  have m: "mpsum ?m 0x80090000 MP_SIZE = 0"
    using mpsum_holds [OF firmware_holds(1) [of t]] by (simp add: pointer_length MP_SIZE_def) (simp add: pointer_bytes_def ascii_def One_nat_def)
  have "mpsearch1_loop ?m 0x80090000 e = Some 0x80090000" if "0x80090000 < e" for e
    using s m that by (subst mpsearch1_loop.simps) simp
  then have search: "mpsearch ?m = Some 0x80090000"
    by (simp add: mpsearch_def mpsearch1_def load16_def P2V_def KERNBASE_def f Let_def One_nat_def)
  have a: "ld32 ?m 0x80090004 = 0xA0000"
    using firmware_holds(1) [of t] by (simp add: ld32_def pointer_bytes_def ascii_def One_nat_def)
  have c: "sig_at ?m 0x800A0000 ''PCMP''"
    using firmware_holds(2) [of t] unfolding assms(1) conf_header_def append_assoc by (rule sig_holds) simp
  have l: "?m 0x800A0004 = len" "?m 0x800A0005 = 0" "?m 0x800A0006 = 4"
    using firmware_holds(2) [of t] unfolding assms(1) conf_header_def by (simp_all add: ascii_def One_nat_def)
  have sum: "mpsum ?m 0x800A0000 (unat len) = 0" using mpsum_holds [OF firmware_holds(2) [of t]] assms(2,3) by simp
  show ?thesis using c l sum by (simp add: mpconfig_def search a P2V_def KERNBASE_def load16_def Let_def One_nat_def)
qed

lemma foldl_zeros: "foldl (+) x (replicate n 0) = (x :: byte)"
  by (induction n) simp_all

lemma one_cpu_config: "mpconfig (firmware one_cpu) = Some (0x80090000, 0x800A0000)"
  unfolding one_cpu_def by (rule firmware_config [OF refl]) (simp_all add: conf_header_def ascii_def MPPROC_def foldl_zeros One_nat_def)

lemma odd_entry_config: "mpconfig (firmware odd_entry) = Some (0x80090000, 0x800A0000)"
  unfolding odd_entry_def by (rule firmware_config [OF refl]) (simp_all add: conf_header_def ascii_def MPPROC_def foldl_zeros One_nat_def)

theorem mpinit_collects_processors_witness:
  "\<exists>s. mpinit (firmware one_cpu) = Some (Ok s) \<and> mp_cpus s = [7]"
proof -
  have t: "one_cpu = conf_header 64 0xA7 @ concat (map enc_entry [Cpu 7 (replicate 18 0)])" by (simp add: one_cpu_def)
  have c: "length (conf_header 64 0xA7) = MPCONF_SIZE" by (simp add: conf_header_def ascii_def MPCONF_SIZE_def)
  have h: "holds_bytes (firmware one_cpu) (0x800A0000 + MPCONF_SIZE) (concat (map enc_entry [Cpu 7 (replicate 18 0)]))"
    using firmware_holds(2) [of one_cpu] unfolding t holds_bytes_append c by blast
  have "holds_bytes (firmware one_cpu) 0x800A0000 (conf_header 64 0xA7)"
    using firmware_holds(2) [of one_cpu] unfolding t holds_bytes_append by blast
  then have "load16 (firmware one_cpu) (0x800A0000 + 4) = MPCONF_SIZE + length (concat (map enc_entry [Cpu 7 (replicate 18 0)]))"
    by (simp add: conf_header_def ascii_def load16_def MPCONF_SIZE_def One_nat_def)
  from mpinit_collects_processors [OF one_cpu_config _ h this] show ?thesis by (auto simp: NCPU_def)
qed

text \<open>
  C36. An entry of unknown type, after any sequence of well-formed ones, makes \<^verbatim>\<open>mpinit\<close> run forever: the \<^verbatim>\<open>break\<close>
  of the \<^verbatim>\<open>default\<close> arm leaves the \<^verbatim>\<open>switch\<close> only, \<^verbatim>\<open>p\<close> stays where it is, and the panic after the loop is never
  reached.
\<close>

theorem mpinit_hangs_on_unknown_entry:
  assumes "mpconfig m = Some (mp, conf)" "\<forall>x \<in> set es. good_entry x"
    and "holds_bytes m (conf + MPCONF_SIZE) (concat (map enc_entry es) @ [b])"
    and "MPCONF_SIZE + length (concat (map enc_entry es)) < load16 m (conf + 4)"
    and "b \<notin> {MPPROC, MPBUS, MPIOAPIC, MPIOINTR, MPLINTR}"
  shows "mpinit m = None"
proof -
  let ?p = "conf + MPCONF_SIZE" and ?e = "conf + load16 m (conf + 4)"
  let ?q = "?p + length (concat (map enc_entry es))"
  have h: "holds_bytes m ?p (concat (map enc_entry es))" "m ?q = b" using assms(3) by simp_all
  have "?q < ?e" using assms(4) by simp
  moreover have "m ?q \<notin> {MPPROC, MPBUS, MPIOAPIC, MPIOINTR, MPLINTR}" using assms(5) h(2) by simp
  ultimately have "mp_walk m ?q ?e s = None" for s by (rule mp_walk_stuck)
  then have "mp_walk m ?p ?e s = None" for s using mp_walk_prefix [OF assms(2) h(1), of ?e s] \<open>?q < ?e\<close> by auto
  then show ?thesis using assms(1) by (simp add: mpinit_def)
qed

theorem mpinit_hangs_on_unknown_entry_witness:
  "mpconfig (firmware odd_entry) = Some (0x80090000, 0x800A0000) \<and> mpinit (firmware odd_entry) = None"
proof -
  let ?es = "[Cpu 7 (replicate 18 0)]"
  have c: "length (conf_header 65 0x9D) = MPCONF_SIZE" by (simp add: conf_header_def ascii_def MPCONF_SIZE_def)
  have o: "odd_entry = conf_header 65 0x9D @ concat (map enc_entry ?es) @ [9]" by (simp add: odd_entry_def)
  have h: "holds_bytes (firmware odd_entry) 0x800A0000 (conf_header 65 0x9D)"
    "holds_bytes (firmware odd_entry) (0x800A0000 + MPCONF_SIZE) (concat (map enc_entry ?es) @ [9])"
    using firmware_holds(2) [of odd_entry] unfolding o holds_bytes_append [of _ _ "conf_header 65 0x9D"] c by blast+
  have "load16 (firmware odd_entry) (0x800A0000 + 4) = 65"
    using h(1) by (simp add: conf_header_def ascii_def load16_def One_nat_def)
  then have "mpinit (firmware odd_entry) = None"
    by (intro mpinit_hangs_on_unknown_entry [OF odd_entry_config _ h(2)]) (simp_all add: mp_defs)
  then show ?thesis using odd_entry_config by simp
qed

end
