(* ===== verification/Boot.thy ===== *)
theory Boot
  imports Exec CString
begin

text \<open>
  The boot loader (\<^verbatim>\<open>bootmain.c\<close>): reading sectors of the boot disk into physical memory and loading
  the segments of the kernel's ELF image. The disk is a parameter, the bytes of each sector by
  number; so is what its status port answers, the byte of each read of the port in turn, and the
  routines carry the number of reads made so far. \<open>None\<close> stands for a run that does not end: the disk is
  never ready, or a segment ends so close to the end of the address space that the pointer wraps
  and the loop starts again from address zero. A store or a header beyond the end of the address
  space is \<open>Undef\<close>.
\<close>

definition SECTSIZE :: nat where "SECTSIZE = 512"

text \<open>The bytes the status port delivers, read by read, and the sectors of the disk.\<close>

type_synonym status = "nat \<Rightarrow> byte"
type_synonym sectors = "nat \<Rightarrow> byte list"

text \<open>Sequencing of routines that may not return.\<close>

definition obnd :: "'a res option \<Rightarrow> ('a \<Rightarrow> 'b res option) \<Rightarrow> 'b res option" where
  "obnd r f = Option.bind r (\<lambda>x. case x of Ok a \<Rightarrow> f a | Panic e \<Rightarrow> Some (Panic e) | Blocks \<Rightarrow> Some Blocks | Undef \<Rightarrow> Some Undef)"

lemma obnd_simps [simp]: "obnd (Some (Ok a)) f = f a" "obnd None f = None" "obnd (Some Undef) f = Some Undef"
  by (simp_all add: obnd_def)

lemma obnd_mono [partial_function_mono]:
  assumes "mono_option B" "\<And>y. mono_option (\<lambda>f. C y f)"
  shows "mono_option (\<lambda>f. obnd (B f) (\<lambda>y. C y f))"
  unfolding obnd_def
proof (rule bind_mono [OF assms(1)])
  fix y
  show "mono_option (\<lambda>f. case y of Ok a \<Rightarrow> C a f | Panic e \<Rightarrow> Some (Panic e) | Blocks \<Rightarrow> Some Blocks | Undef \<Rightarrow> Some Undef)"
    using assms(2) by (cases y) (simp_all add: monotone_def option.leq_refl)
qed

text \<open>\<^verbatim>\<open>waitdisk\<close>, from the status read \<open>t\<close>: the number of the read after the one that shows the disk ready.\<close>

partial_function (option) waitdisk :: "status \<Rightarrow> nat \<Rightarrow> nat option" where
  "waitdisk status t = (if status t AND 0xC0 \<noteq> 0x40 then waitdisk status (t + 1) else Some (t + 1))"

text \<open>The sector the four address ports select: \<^verbatim>\<open>0x1F6\<close> takes four address bits and the mode bits \<^verbatim>\<open>0xE0\<close>.\<close>

definition lba :: "nat \<Rightarrow> nat" where
  "lba offset =
     (let p3 = (word_of_nat offset :: byte);
          p4 = (word_of_nat (offset div 256) :: byte);
          p5 = (word_of_nat (offset div 65536) :: byte);
          p6 = (word_of_nat (offset div 16777216) OR 0xE0 :: byte)
      in unat p3 + 256 * (unat p4 + 256 * (unat p5 + 256 * unat (p6 AND 0x0F))))"

definition readsect :: "status \<Rightarrow> sectors \<Rightarrow> nat \<Rightarrow> nat \<Rightarrow> nat \<times> mem \<Rightarrow> (nat \<times> mem) res option" where
  "readsect status disk dst offset tm =
     (case tm of (t, m) \<Rightarrow>
      Option.bind (waitdisk status t) (\<lambda>t.
      let sector = disk (lba offset) in
      Option.bind (waitdisk status t) (\<lambda>t.
      Some (if dst + SECTSIZE \<le> 2 ^ 32 then Ok (t, store m dst sector) else Undef))))"

partial_function (option) readseg_loop ::
    "status \<Rightarrow> sectors \<Rightarrow> nat \<Rightarrow> nat \<Rightarrow> nat \<Rightarrow> nat \<times> mem \<Rightarrow> (nat \<times> mem) res option" where
  "readseg_loop status disk pa epa offset tm =
     (if pa < epa then
        obnd (readsect status disk pa offset tm)
          (\<lambda>tm. readseg_loop status disk ((pa + SECTSIZE) mod 2 ^ 32) epa ((offset + 1) mod 2 ^ 32) tm)
      else Some (Ok tm))"

definition readseg :: "status \<Rightarrow> sectors \<Rightarrow> nat \<Rightarrow> nat \<Rightarrow> nat \<Rightarrow> nat \<times> mem \<Rightarrow> (nat \<times> mem) res option" where
  "readseg status disk pa count offset tm =
     (let epa = (pa + count) mod 2 ^ 32;
          pa = u32 (int pa - int (offset mod SECTSIZE))
      in readseg_loop status disk pa epa (offset div SECTSIZE + 1) tm)"

text \<open>The segment loop; the program headers are read from memory at each turn.\<close>

fun boot_segments :: "status \<Rightarrow> sectors \<Rightarrow> nat \<Rightarrow> nat \<Rightarrow> nat \<times> mem \<Rightarrow> (nat \<times> mem) res option" where
  "boot_segments status disk 0 ph tm = Some (Ok tm)"
| "boot_segments status disk (Suc n) ph tm =
     (let m = snd tm; pa = ld32 m (ph + 12) in
      if 2 ^ 32 < ph + PROGHDR_SIZE then Some Undef
      else
        obnd (readseg status disk pa (ld32 m (ph + 16)) (ld32 m (ph + 4)) tm) (\<lambda>(t, m).
        let filesz = ld32 m (ph + 16); memsz = ld32 m (ph + 20) in
        if filesz < memsz \<and> 2 ^ 32 < pa + memsz then Some Undef
        else
          let m = (if filesz < memsz then stosb m (pa + filesz) 0 (memsz - filesz) else m)
          in boot_segments status disk n (ph + PROGHDR_SIZE) (t, m)))"

text \<open>
  \<^verbatim>\<open>bootmain\<close> up to the call of the entry point, whose address is the first result; that is
  \<open>None\<close> when it returns to \<^verbatim>\<open>bootasm.S\<close>.
\<close>

definition bootmain :: "status \<Rightarrow> sectors \<Rightarrow> mem \<Rightarrow> (nat option \<times> mem) res option" where
  "bootmain status disk m =
     obnd (readseg status disk 0x10000 4096 0 (0, m)) (\<lambda>(t, m).
     if ld32 m 0x10000 \<noteq> ELF_MAGIC then Some (Ok (None, m))
     else
       let phnum = ld32 m (0x10000 + 44) mod 65536
       in obnd (boot_segments status disk phnum (0x10000 + ld32 m (0x10000 + 28)) (t, m)) (\<lambda>(t, m).
          Some (Ok (Some (ld32 m (0x10000 + 24)), m))))"

section \<open>Reading a segment\<close>

text \<open>The kernel image starts at sector 1.\<close>

definition kimage :: "(nat \<Rightarrow> byte list) \<Rightarrow> nat \<Rightarrow> byte" where
  "kimage disk j = disk (j div 512 + 1) ! (j mod 512)"

lemma low_nibble: "unat (((w :: byte) OR 0xE0) AND 0x0F) = unat w mod 16"
proof -
  have m: "(0x0F :: byte) = mask 4" by (simp add: mask_eq_exp_minus_1)
  have "(w OR 0xE0) AND mask 4 = take_bit 4 w OR take_bit 4 0xE0" by (simp only: take_bit_eq_mask [symmetric] take_bit_or)
  also have "take_bit 4 (0xE0 :: byte) = 0" by (simp add: One_nat_def)
  finally have "(w OR 0xE0) AND 0x0F = take_bit 4 w" by (simp only: m or.right_neutral)
  then have "unat ((w OR 0xE0) AND 0x0F) = take_bit 4 (unat w)" by (simp only: unsigned_take_bit_eq)
  then show ?thesis by (simp add: take_bit_eq_mod)
qed

lemma lba_id:
  assumes "x < 2 ^ 28"
  shows "lba x = x"
proof -
  have b: "unat (word_of_nat y :: byte) = y mod 256" for y by (simp add: unat_of_nat)
  have "x div 16777216 < 16" using assms by (simp add: less_mult_imp_div_less)
  then have "lba x = x mod 256 + 256 * (x div 256 mod 256 + 256 * (x div 256 div 256 mod 256 + 256 * (x div 256 div 256 div 256)))"
    by (simp add: lba_def Let_def b low_nibble div_mult2_eq [symmetric])
  also have "\<dots> = x" by (simp only: mod_mult_div_eq)
  finally show ?thesis .
qed

text \<open>A status byte that shows the disk ready, a disk that always becomes ready again, and the number of times it was.\<close>

definition ready :: "byte \<Rightarrow> bool" where
  "ready b \<longleftrightarrow> b AND 0xC0 = 0x40"

definition disk_ready :: "status \<Rightarrow> bool" where
  "disk_ready status \<longleftrightarrow> (\<forall>t. \<exists>u \<ge> t. ready (status u))"

definition waits :: "status \<Rightarrow> nat \<Rightarrow> nat \<Rightarrow> nat" where
  "waits status t u = length (filter (\<lambda>i. ready (status i)) [t..<u])"

lemma waits_refl [simp]: "waits status t t = 0"
  by (simp add: waits_def)

lemma waits_trans: "t \<le> u \<Longrightarrow> u \<le> v \<Longrightarrow> waits status t v = waits status t u + waits status u v"
  using upt_add_eq_append [of t u "v - u"] by (simp add: waits_def)

lemma waitdisk_ready:
  assumes "disk_ready status"
  shows "\<exists>u > t. waitdisk status t = Some u \<and> waits status t u = 1"
proof -
  obtain v where v: "t \<le> v" "ready (status v)" using assms by (auto simp: disk_ready_def)
  then show ?thesis
  proof (induction "v - t" arbitrary: t)
    case 0
    then have "t = v" by simp
    then show ?case using 0 by (subst waitdisk.simps) (simp add: ready_def waits_def One_nat_def)
  next
    case (Suc n)
    show ?case
    proof (cases "ready (status t)")
      case True
      then show ?thesis by (subst waitdisk.simps) (simp add: ready_def waits_def One_nat_def)
    next
      case False
      have "t + 1 \<le> v" "n = v - (t + 1)" using Suc.hyps(2) by simp_all
      from Suc.hyps(1) [OF this(2,1) Suc.prems(2)] obtain u where
        u: "t + 1 < u" "waitdisk status (t + 1) = Some u" "waits status (t + 1) u = 1" by blast
      moreover have "waits status t u = waits status t (t + 1) + waits status (t + 1) u" using u(1) by (intro waits_trans) simp_all
      moreover have "waits status t (t + 1) = 0" using False by (simp add: waits_def One_nat_def)
      ultimately show ?thesis using False by (subst waitdisk.simps) (auto simp: ready_def)
    qed
  qed
qed

lemma readsect_ok:
  assumes "disk_ready status" "dst + 512 \<le> 2 ^ 32"
  shows "\<exists>u \<ge> t. readsect status disk dst offset (t, m) = Some (Ok (u, store m dst (disk (lba offset)))) \<and> waits status t u = 2"
proof -
  obtain v where v: "t < v" "waitdisk status t = Some v" "waits status t v = 1" using waitdisk_ready [OF assms(1)] by blast
  obtain u where u: "v < u" "waitdisk status v = Some u" "waits status v u = 1" using waitdisk_ready [OF assms(1)] by blast
  have "waits status t u = 2" using waits_trans [of t v u status] v u by simp
  then show ?thesis using v u assms(2) by (intro exI [of _ u]) (simp add: readsect_def SECTSIZE_def Let_def)
qed

lemma readseg_loop_ok:
  assumes "\<And>n. length (disk n) = 512" "disk_ready status"
    and "pa \<le> epa + 511" "epa + 512 \<le> 2 ^ 32" "off + (epa + 511 - pa) div 512 < 2 ^ 28"
  shows "\<exists>u m'. readseg_loop status disk pa epa off (t, m) = Some (Ok (u, m')) \<and>
    t \<le> u \<and> waits status t u = 2 * ((epa + 511 - pa) div 512) \<and>
    (\<forall>a. pa \<le> a \<longrightarrow> a < epa \<longrightarrow> m' a = disk (off + (a - pa) div 512) ! ((a - pa) mod 512)) \<and>
    (\<forall>a. a < pa \<or> epa + 511 < a \<longrightarrow> m' a = m a)"
  using assms(3-)
proof (induction "epa - pa" arbitrary: pa off t m rule: less_induct)
  case less
  show ?case
  proof (cases "pa < epa")
    case False
    then have "(epa + 511 - pa) div 512 = 0" by simp
    then show ?thesis using False by (subst readseg_loop.simps) simp
  next
    case True
    let ?m = "store m pa (disk (lba off))"
    have d: "(epa + 511 - pa) div 512 = Suc ((epa + 511 - (pa + 512)) div 512)"
    proof -
      have "epa + 511 - pa = (epa + 511 - (pa + 512)) + 512" using True by simp
      then show ?thesis by simp
    qed
    have l: "lba off = off" "(off + 1) mod 2 ^ 32 = off + 1" "(pa + 512) mod 2 ^ 32 = pa + 512"
      using less.prems(2,3) d True by (simp_all add: lba_id)
    obtain v where v: "t \<le> v" "readsect status disk pa off (t, m) = Some (Ok (v, ?m))" "waits status t v = 2"
      using readsect_ok [OF assms(2), of pa t disk off m] True less.prems(2) by auto
    have "epa - (pa + 512) < epa - pa" "pa + 512 \<le> epa + 511" "off + 1 + (epa + 511 - (pa + 512)) div 512 < 2 ^ 28"
      using True less.prems(3) d by simp_all
    from less.hyps [OF this(1,2) less.prems(2) this(3), of v ?m] obtain u m' where
      m': "readseg_loop status disk (pa + 512) epa (off + 1) (v, ?m) = Some (Ok (u, m'))"
        "v \<le> u" "waits status v u = 2 * ((epa + 511 - (pa + 512)) div 512)"
        "\<And>a. pa + 512 \<le> a \<Longrightarrow> a < epa \<Longrightarrow> m' a = disk (off + 1 + (a - (pa + 512)) div 512) ! ((a - (pa + 512)) mod 512)"
        "\<And>a. a < pa + 512 \<or> epa + 511 < a \<Longrightarrow> m' a = ?m a" by blast
    have "m' a = disk (off + (a - pa) div 512) ! ((a - pa) mod 512)" if a: "pa \<le> a" "a < epa" for a
    proof (cases "a < pa + 512")
      case True
      then show ?thesis using m'(5) [of a] a by (simp add: store_def l assms(1))
    next
      case False
      define x where x: "x = a - (pa + 512)"
      have "a - pa = x + 512" using False by (simp add: x)
      moreover have "(x + 512) div 512 = Suc (x div 512)" by simp
      ultimately show ?thesis using m'(4) [of a] False a by (simp add: x [symmetric] One_nat_def)
    qed
    moreover have "m' a = m a" if "a < pa \<or> epa + 511 < a" for a
      using that m'(5) [of a] True by (auto simp: store_def assms(1))
    moreover have "readseg_loop status disk pa epa off (t, m) = Some (Ok (u, m'))"
      using True v(2) m'(1) l by (subst readseg_loop.simps) (simp add: SECTSIZE_def)
    moreover have "t \<le> u" "waits status t u = 2 * ((epa + 511 - pa) div 512)"
      using waits_trans [OF v(1) m'(2), of status] v m'(2,3) d by simp_all
    ultimately show ?thesis by blast
  qed
qed

text \<open>
  C37. On a disk that becomes ready again after every command, \<^verbatim>\<open>readseg\<close> returns with the requested bytes of
  the kernel image at the requested physical address, for every alignment of address and offset; it
  writes less than a sector before and after them, and it waits for the disk twice for each sector.
\<close>

theorem readseg_loads_image:
  assumes "\<And>n. length (disk n) = 512" "disk_ready status"
    and "offset mod 512 \<le> pa" "pa + count + 512 \<le> 2 ^ 32" "offset + count < 2 ^ 32"
  shows "\<exists>u m'. readseg status disk pa count offset (t, m) = Some (Ok (u, m')) \<and>
    (\<forall>i < count. m' (pa + i) = kimage disk (offset + i)) \<and>
    (\<forall>a. a < pa - offset mod 512 \<or> pa + count + 511 < a \<longrightarrow> m' a = m a) \<and>
    waits status t u = 2 * ((count + offset mod 512 + 511) div 512)"
proof -
  define k q where kq: "k = offset mod 512" "q = offset div 512"
  have k: "k \<le> pa" "k < 512" using assms(3) by (simp_all add: kq)
  define n where n: "n = (count + k + 511) div 512"
  have n': "(pa + count + 511 - (pa - k)) div 512 = n" using k by (simp add: n ac_simps)
  have "u32 (int x) = x" if "x < 2 ^ 32" for x using that by (simp add: u32_def)
  from this [of "pa - k"] have "u32 (int pa - int k) = pa - k" using assms(4) k(1) by (simp add: of_nat_diff)
  then have e: "(pa + count) mod 2 ^ 32 = pa + count" "u32 (int pa - int (offset mod SECTSIZE)) = pa - k"
    using assms(4) by (simp_all add: SECTSIZE_def kq)
  have "q < 2 ^ 23" using assms(5) by (simp add: kq less_mult_imp_div_less)
  moreover have "n < 2 ^ 24" using assms(5) k by (auto simp: n intro!: less_mult_imp_div_less)
  ultimately have b: "q + 1 + (pa + count + 511 - (pa - k)) div 512 < 2 ^ 28" by (simp add: n')
  have "pa - k \<le> pa + count + 511" using k by simp
  from readseg_loop_ok [where disk = disk and m = m and t = t, OF assms(1,2) this assms(4) b]
  obtain u m' where m': "readseg_loop status disk (pa - k) (pa + count) (q + 1) (t, m) = Some (Ok (u, m'))"
      "waits status t u = 2 * n"
      "\<And>a. pa - k \<le> a \<Longrightarrow> a < pa + count \<Longrightarrow> m' a = disk (q + 1 + (a - (pa - k)) div 512) ! ((a - (pa - k)) mod 512)"
      "\<And>a. a < pa - k \<or> pa + count + 511 < a \<Longrightarrow> m' a = m a" unfolding n' by blast
  have "m' (pa + i) = kimage disk (offset + i)" if "i < count" for i
  proof -
    have "pa + i - (pa - k) = k + i" "pa - k \<le> pa + i" using k by simp_all
    moreover have "(offset + i) div 512 = q + (k + i) div 512" "(offset + i) mod 512 = (k + i) mod 512"
      unfolding kq by (simp_all add: mod_add_left_eq div_add1_eq [of offset i] div_add1_eq [of "offset mod 512" i])
    ultimately show ?thesis using m'(3) [of "pa + i"] that by (simp add: kimage_def ac_simps)
  qed
  then show ?thesis using m'(1,2,4) e by (auto simp: readseg_def SECTSIZE_def Let_def kq n)
qed

text \<open>A disk that is ready at every second read of its status.\<close>

definition slow_status :: status where
  "slow_status t = (if t mod 2 = 0 then 0x80 else 0x40)"

definition sample_sectors :: sectors where
  "sample_sectors n = replicate 512 (word_of_nat n)"

lemma slow_ready: "disk_ready slow_status"
  unfolding disk_ready_def
proof
  fix t
  have "ready (slow_status (2 * t + 1))" by (simp add: ready_def slow_status_def One_nat_def)
  then show "\<exists>u \<ge> t. ready (slow_status u)" by (intro exI [of _ "2 * t + 1"]) simp
qed

theorem readseg_loads_image_witness:
  "\<exists>u m'. readseg slow_status sample_sectors 0x100000 3 1022 (0, \<lambda>a. 0) = Some (Ok (u, m')) \<and>
    m' 0x100000 = 2 \<and> m' 0x100002 = 3 \<and> waits slow_status 0 u = 4"
proof -
  have l: "length (sample_sectors n) = 512" for n by (simp add: sample_sectors_def)
  obtain u m' where m': "readseg slow_status sample_sectors 0x100000 3 1022 (0, \<lambda>a. 0) = Some (Ok (u, m'))"
    "\<forall>i < 3. m' (0x100000 + i) = kimage sample_sectors (1022 + i)" "waits slow_status 0 u = 4"
    using readseg_loads_image [where disk = sample_sectors, OF l slow_ready, where offset = 1022 and pa = "0x100000" and count = 3 and m = "\<lambda>a. 0" and t = 0] by auto
  from m'(2) [rule_format, of 0] m'(2) [rule_format, of 2] show ?thesis using m'(1,3) by (simp add: kimage_def sample_sectors_def)
qed

end
