(* ===== verification/Spec2Isabelle.thy ===== *)
theory Spec2Isabelle
  imports Samples CString Ide Mount Tty Trap Fd Sh_Grammar Grep Umalloc Mp Boot
begin

text \<open>
  A verification of the sources under \<^verbatim>\<open>src/\<close>: the xv6 kernel for the 32-bit PC in a fork with priority
  scheduling and a few more system calls, its boot loader, the program that builds its disk image, and its user
  programs.

  \<^bold>\<open>The program and its parts.\<close> From the bottom up: spin locks and sleep locks; a disk (in memory, or behind the IDE
  controller) under a cache of blocks; a log that makes groups of block writes atomic across a crash; a file system of
  inodes, directories and paths on the log; physical pages, page tables and user address spaces; processes, their
  scheduler, pipes and open files; the console with its line editor; system calls, traps and program loading; and, in
  user space, the string library, \<^verbatim>\<open>malloc\<close>, the shell, \<^verbatim>\<open>grep\<close>, \<^verbatim>\<open>wc\<close>, \<^verbatim>\<open>cat\<close>
  and \<^verbatim>\<open>echo\<close>. Each layer is entered only through the routines of the one below, and so are the theories.

  \<^bold>\<open>Style of the model.\<close> A routine of the code is a function on the state. The state is an extensible record that
  grows with the layers: \<open>disk_st\<close>, \<open>bio_st\<close>, \<open>log_st\<close>, \<open>fs_st\<close>, \<open>kern_st\<close>; a routine is
  polymorphic in the part above its own, so it is used unchanged by every layer over it. A fallible routine returns a
  \<open>res\<close>: \<open>Ok\<close>, \<open>Panic\<close> with the message the code prints, \<open>Blocks\<close> where it would sleep on a
  lock, and \<open>Undef\<close> where C gives no meaning. \<open>okP r Q\<close> is total correctness: \<open>r\<close> is \<open>Ok\<close> and its
  value satisfies \<open>Q\<close>. Pointers to elements of a table are indices, null is \<open>None\<close>. Machine integers are
  words, or naturals with the remainder modulo \<open>2 ^ 32\<close> written out; the pid counter of \<^verbatim>\<open>allocproc\<close> and the sum of
  \<^verbatim>\<open>atoi\<close>, signed numbers of the code with nothing that bounds them, are integers, and an overflow of one is
  \<open>Undef\<close>. Counts of references and of operations are plain integers. A routine that runs under a spin lock
  is one atomic step, a justification of which is theory \<open>Spinlock\<close>; where the order of steps of several parties
  matters (processors and locks, writers and readers of a pipe, the scheduler and the processes, requests and interrupts
  of the disk, keyboard and reader) there is an inductive step relation, and the properties hold on all its reachable
  states.

  \<^bold>\<open>Theories and sources.\<close>
  \<^item> \<open>Prelude\<close>: types, constants of \<^verbatim>\<open>param.h\<close>, the result type and its calculus. \<open>Bytes\<close>: integers
    inside byte arrays. \<open>CString\<close>: \<^verbatim>\<open>string.c\<close> and the string part of \<^verbatim>\<open>ulib.c\<close>.
  \<^item> \<open>Sleeplock\<close>: \<^verbatim>\<open>sleeplock.c\<close>. \<open>Spinlock\<close>: \<^verbatim>\<open>spinlock.c\<close>, with any number of processors
    interleaved at the instruction \<^verbatim>\<open>xchg\<close>.
  \<^item> \<open>Bio\<close>: \<^verbatim>\<open>memide.c\<close> and \<^verbatim>\<open>bio.c\<close>. \<open>Ide\<close>: \<^verbatim>\<open>ide.c\<close> and the port
    instructions of \<^verbatim>\<open>x86.h\<close>. \<open>Block_Layer\<close>: the locale of the protocol \<^verbatim>\<open>bread\<close>, store, write,
    \<^verbatim>\<open>brelse\<close>, with its proof rules; it is interpreted twice, by the buffer cache (\<open>bio\<close>) and by the cache
    inside a transaction (\<open>tx\<close>).
  \<^item> \<open>Log\<close>, \<open>Crash\<close>, \<open>Transaction\<close>, \<open>Samples\<close>: \<^verbatim>\<open>log.c\<close>, recovery after a crash, the
    second interpretation, and a sample state.
  \<^item> \<open>Fs\<close>: all of \<^verbatim>\<open>fs.c\<close>. \<open>Alloc\<close>, \<open>Inode\<close>, \<open>Contents\<close>, \<open>Dinode\<close>, \<open>Rw\<close>: the free
    map, the block map of an inode, the bytes of a file, inodes on disk, \<^verbatim>\<open>writei\<close> followed by \<^verbatim>\<open>readi\<close>.
    \<open>Frame\<close>: the file system leaves the rest of the kernel alone.
  \<^item> \<open>Mkfs\<close>: \<^verbatim>\<open>mkfs.c\<close>. \<open>Mount\<close>: the kernel on an image of \<^verbatim>\<open>mkfs\<close>.
  \<^item> \<open>Memory\<close>, \<open>Kalloc\<close>, \<open>Vm\<close>, \<open>Vm_Map\<close>, \<open>Vm_User\<close>: \<^verbatim>\<open>memlayout.h\<close>, \<^verbatim>\<open>mmu.h\<close>,
    \<^verbatim>\<open>kalloc.c\<close> and \<^verbatim>\<open>vm.c\<close>. The locale \<open>page_allocator\<close> is what page tables need of the
    allocator; \<open>pages\<close> interprets it on the free list kept inside the free pages.
  \<^item> \<open>Kernel\<close>: the tables of the kernel (\<^verbatim>\<open>proc.h\<close>, \<^verbatim>\<open>file.h\<close>). \<open>Pipe\<close>, \<open>File\<close>, \<open>Proc\<close>:
    \<^verbatim>\<open>pipe.c\<close>, \<^verbatim>\<open>file.c\<close>, \<^verbatim>\<open>proc.c\<close>. The locale \<open>bounded_queue\<close> is interpreted (\<open>pq\<close>) on
    the pipe's ring.
  \<^item> \<open>Console\<close>, \<open>Tty\<close>: \<^verbatim>\<open>console.c\<close>, \<^verbatim>\<open>kbd.c\<close>, the clock chip of \<^verbatim>\<open>lapic.c\<close>, and the terminal
    as its user sees it.
  \<^item> \<open>Syscall\<close>, \<open>Sysfile\<close>, \<open>Exec\<close>, \<open>Trap\<close>: \<^verbatim>\<open>syscall.c\<close>, \<^verbatim>\<open>sysproc.c\<close>,
    \<^verbatim>\<open>sysfile.c\<close>, \<^verbatim>\<open>exec.c\<close>, \<^verbatim>\<open>trap.c\<close>. \<open>Exec_Atomic\<close>, \<open>Fd\<close>: failure of \<^verbatim>\<open>exec\<close>,
    and reference counts of open files through every call that touches them.
  \<^item> \<open>Sh\<close>, \<open>Sh_Grammar\<close>: the parser of \<^verbatim>\<open>sh.c\<close> and the grammar it accepts. \<open>User\<close>, \<open>Grep\<close>,
    \<open>Umalloc\<close>: \<^verbatim>\<open>printf.c\<close>, \<^verbatim>\<open>echo.c\<close>, \<^verbatim>\<open>cat.c\<close>, \<^verbatim>\<open>wc.c\<close>; \<^verbatim>\<open>grep.c\<close>;
    \<^verbatim>\<open>umalloc.c\<close>.
  \<^item> \<open>Mp\<close>: \<^verbatim>\<open>mp.c\<close>. \<open>Boot\<close>: \<^verbatim>\<open>bootmain.c\<close>.

  \<^bold>\<open>What is shown.\<close>
  \<^item> Storage (C1 to C4): a commit interrupted at any write recovers to all or nothing; the IDE driver implements the
    one-step disk whatever the order of requests and interrupts; what \<^verbatim>\<open>writei\<close> stores \<^verbatim>\<open>readi\<close> returns, and the
    free map, block map and log stay consistent; and a file given to \<^verbatim>\<open>mkfs\<close> is found by \<^verbatim>\<open>namei\<close> in a kernel
    started on the image and read back byte for byte.
  \<^item> Locks and memory (C5 to C9): mutual exclusion; every page handed to the allocator is available once;
    \<^verbatim>\<open>mappages\<close> maps the range, or reports that memory ran out; a successful \<^verbatim>\<open>allocuvm\<close> has mapped fresh zeroed pages;
    \<^verbatim>\<open>copyout\<close> to mapped user pages stores the bytes there.
  \<^item> Processes and pipes (C10 to C15): under every interleaving of writers and readers a pipe delivers the bytes of each writer
    in order and loses none; the process
    table stays well formed under every scheduling step; the scheduler picks the best priority and does make progress;
    \<^verbatim>\<open>wait\<close> reaps; what \<^verbatim>\<open>kill(0)\<close> does.
  \<^item> Terminal (C16 to C19): the input ring implements a line editor, a typed line is what \<^verbatim>\<open>consoleread\<close> returns, numbers
    print and parse back, the driver stays on the screen.
  \<^item> Traps, system calls, loading (C20 to C27): an exception in user mode ends the process and not the kernel, unknown calls are
    refused, the timer preempts, what a negative \<^verbatim>\<open>sleep\<close> does, pointers and strings passed to the kernel lie inside the process, \<^verbatim>\<open>exec\<close> leaves every process
    as it was when it fails, and a file's reference count is the number of its descriptors.
  \<^item> User programs and start-up (C28 to C39): the shell parser accepts its grammar, terminates and returns proper strings;
    \<^verbatim>\<open>grep\<close> decides its patterns and prints the matching lines; \<^verbatim>\<open>wc\<close> counts the whole input however it is cut into
    reads; the processor table is collected, and one entry type on which the walk hangs; the boot loader places a segment;
    \<^verbatim>\<open>malloc\<close> keeps blocks apart and returns fresh ones.

  \<^bold>\<open>Bounds and fuel.\<close> Loops of the code that always end are recursions with a termination proof. The shell's parser takes
  fuel \<open>parse_fuel\<close>, four times the length of the line plus four, which theory \<open>Sh_Grammar\<close> shows to be enough for
  every line. The search for the end of the disk queue takes the number of buffers as fuel, and the queue never repeats a
  buffer. Loops that may run forever are partial functions with value \<open>None\<close> for that: polling a device (the boot loader's disk, the clock chip), reading sectors up to an
  end that wraps around, searching a
  string without a NUL, the walks over the processor table and over the free list of \<^verbatim>\<open>malloc\<close>; the
  theorems about them say when a result exists, and for one entry of the processor table that there is none. Constants such as the sizes of tables have the values of
  \<^verbatim>\<open>param.h\<close>.

  \<^bold>\<open>Not modelled.\<close>
  \<^item> Assembly (\<^verbatim>\<open>bootasm.S\<close>, \<^verbatim>\<open>entry.S\<close>, \<^verbatim>\<open>entryother.S\<close>, \<^verbatim>\<open>initcode.S\<close>, \<^verbatim>\<open>swtch.S\<close>,
    \<^verbatim>\<open>trapasm.S\<close>, \<^verbatim>\<open>usys.S\<close>, the generated \<^verbatim>\<open>vectors.S\<close>): processor modes and register saving, below the level of
    the model. The model starts from the trap frame and treats a context switch as one step.
  \<^item> Pure device I/O: \<^verbatim>\<open>uart.c\<close>, \<^verbatim>\<open>ioapic.c\<close>, \<^verbatim>\<open>picirq.c\<close>, the interrupt controller part of
    \<^verbatim>\<open>lapic.c\<close>, \<^verbatim>\<open>seginit\<close> and the loading of descriptor tables: writes to registers with no
    effect on the program's state. What the console sends to the serial line is recorded.
  \<^item> \<^verbatim>\<open>main.c\<close>: a fixed sequence of calls of the initialisation routines.
  \<^item> The part of \<^verbatim>\<open>sh.c\<close> that runs a parsed command, \<^verbatim>\<open>init.c\<close> and the small commands (\<^verbatim>\<open>ls\<close>, \<^verbatim>\<open>cp\<close>, \<^verbatim>\<open>rm\<close> and
    others): sequences of system calls with no state of their own, whose effect is that of the kernel routines.
  \<^item> The test programs (\<^verbatim>\<open>usertests.c\<close>, \<^verbatim>\<open>stressfs.c\<close>, \<^verbatim>\<open>forktest.c\<close>) and examples that are not built.
\<close>

section \<open>Crash safety of the log\<close>

text \<open>
  C1. Crash safety. Let the last operation of a transaction end with a commit. The commit
  returns, and its disk writes are some sequence \<open>W\<close>. If power fails after the first \<open>k\<close>
  of them, for any \<open>k\<close>, then the next boot's \<^verbatim>\<open>binit\<close> and
  \<^verbatim>\<open>initlog\<close> return with an empty log, and every block outside the log area holds
  its contents from before the transaction (when the header had not been written) or every one
  holds the contents the transaction gave it.
\<close>

theorem commit_crash_safe:
  assumes "log_inv s" "\<forall>i b. \<not> owns s i b" "sb_ok s"
  shows "\<exists>W t. commit s = Ok t \<and> dwrites t = dwrites s @ W \<and> memdisk t = disk_apply W (memdisk s) \<and>
    (\<forall>k p. \<exists>u. initlog 1 (binit (boot_st p (disk_apply (take k W) (memdisk s)) (disksize s))) = Ok u \<and>
       log_inv u \<and> lh_n u = 0 \<and>
       (\<forall>b. b \<notin> log_area s \<longrightarrow> memdisk u b = (if k \<le> nat (lh_n s) then memdisk s b else ldisk s b)))"
proof -
  have own: "\<And>i b. \<not> owns s i b" using assms(2) by simp
  obtain t where t: "commit s = Ok t" "after_writes (s\<lparr>lh_n := 0\<rparr>) (commit_writes s) {} t"
    using commit_ok [OF assms(1) own] by (auto simp: okP_iff)
  have "\<exists>u. initlog 1 (binit (boot_st p m (disksize s))) = Ok u \<and> log_inv u \<and> lh_n u = 0 \<and>
       (\<forall>b. b \<notin> log_area s \<longrightarrow> memdisk u b = (if k \<le> nat (lh_n s) then memdisk s b else ldisk s b))"
    if m: "m = disk_apply (take k (commit_writes s)) (memdisk s)" for k p m
    using boot_recovers [OF crash_commit(1) [OF assms(1) own assms(3) m], of p]
      crash_commit(2) [OF assms(1) own assms(3) m]
    by (auto simp: okP_iff booted_def)
  then show ?thesis using t after_writesD [OF t(2)] by auto
qed

theorem commit_crash_safe_witness:
  "\<exists>W t. commit sample_log = Ok t \<and> dwrites t = W \<and>
    (\<forall>k. \<exists>u. initlog 1 (binit (boot_st 1 (disk_apply (take k W) sample_disk) 1000)) = Ok u \<and>
       memdisk u 40 = (if k \<le> 1 then replicate BSIZE 0 else replicate BSIZE 7))"
proof -
  obtain W t where c: "commit sample_log = Ok t" "dwrites t = dwrites sample_log @ W"
    and r: "\<And>k p. \<exists>u. initlog 1 (binit (boot_st p (disk_apply (take k W) (memdisk sample_log))
        (disksize sample_log))) = Ok u \<and> log_inv u \<and> lh_n u = 0 \<and> (\<forall>b. b \<notin> log_area sample_log \<longrightarrow>
        memdisk u b = (if k \<le> nat (lh_n sample_log) then memdisk sample_log b else ldisk sample_log b))"
    using commit_crash_safe [OF sample_log_inv _ sample_sb_ok] by auto
  have "\<exists>u. initlog 1 (binit (boot_st 1 (disk_apply (take k W) sample_disk) 1000)) = Ok u \<and>
    memdisk u 40 = (if k \<le> 1 then replicate BSIZE 0 else replicate BSIZE 7)" for k
    using r [of 1 k] by (auto simp: sample_ldisk sample_disk_def dest!: spec [of _ 40])
  then show ?thesis using c by auto
qed

end
